(* ===== verification/Prelude.thy ===== *)
theory Prelude
  imports Main "HOL-Library.Word"
begin

text \<open>
  Shared vocabulary of the development.

  The firmware is C for a little-endian 32-bit core. Fixed-width integers are words
  (\<open>u8\<close>, \<open>u16\<close>, \<open>u32\<close>, \<open>u64\<close>: arithmetic wraps, as the C types do), byte buffers are
  lists of bytes, and a C character array is the list of its characters, terminator and
  padding included. The theory holds the byte-order conversions the sources write with
  shifts and masks (or with \<^verbatim>\<open>memcpy\<close> on a little-endian core), the \<^verbatim>\<open>string.h\<close>
  functions they call, the reading and writing of a span of a flat buffer, and the
  lemmas about them that the component theories share.
\<close>

unbundle bit_operations_syntax

type_synonym u8 = "8 word"
type_synonym u16 = "16 word"
type_synonym u32 = "32 word"
type_synonym u64 = "64 word"
type_synonym bytes = "u8 list"

named_theorems byte_simps \<open>splitting words into bytes and joining them again\<close>
named_theorems span_simps \<open>reading and writing spans of a flat buffer\<close>

section \<open>Byte order\<close>

definition be16 :: "u8 \<Rightarrow> u8 \<Rightarrow> u16" where
  "be16 hi lo = push_bit 8 (ucast hi) OR ucast lo"

definition hi8 :: "u16 \<Rightarrow> u8" where
  "hi8 w = ucast (drop_bit 8 w)"

definition lo8 :: "u16 \<Rightarrow> u8" where
  "lo8 w = ucast w"

definition le32 :: "u8 \<Rightarrow> u8 \<Rightarrow> u8 \<Rightarrow> u8 \<Rightarrow> u32" where
  "le32 a b c d =
     ucast a OR push_bit 8 (ucast b) OR push_bit 16 (ucast c) OR push_bit 24 (ucast d)"

definition le32_bytes :: "u32 \<Rightarrow> bytes" where
  "le32_bytes w =
     [ucast w, ucast (drop_bit 8 w), ucast (drop_bit 16 w), ucast (drop_bit 24 w)]"

definition le16_bytes :: "u16 \<Rightarrow> bytes" where
  "le16_bytes w = [lo8 w, hi8 w]"

fun le16_of :: "bytes \<Rightarrow> u16" where
  "le16_of (a # b # _) = be16 b a"
| "le16_of _ = 0"

fun le32_of :: "bytes \<Rightarrow> u32" where
  "le32_of (a # b # c # d # _) = le32 a b c d"
| "le32_of _ = 0"

definition bswap32 :: "u32 \<Rightarrow> u32" where
  "bswap32 w = le32 (ucast (drop_bit 24 w)) (ucast (drop_bit 16 w))
                    (ucast (drop_bit 8 w)) (ucast w)"

definition bswap16 :: "u16 \<Rightarrow> u16" where
  "bswap16 w = be16 (lo8 w) (hi8 w)"

lemma be16_hi_lo [byte_simps, simp]: "be16 (hi8 w) (lo8 w) = w"
  by (rule bit_word_eqI) (auto simp: be16_def hi8_def lo8_def bit_simps)

lemma hi8_be16 [byte_simps, simp]: "hi8 (be16 a b) = a"
  by (rule bit_word_eqI)
    (auto simp: be16_def hi8_def bit_simps dest: bit_imp_le_length)

lemma lo8_be16 [byte_simps, simp]: "lo8 (be16 a b) = b"
  by (rule bit_word_eqI)
    (auto simp: be16_def lo8_def bit_simps dest: bit_imp_le_length)

lemma be16_inject [simp]: "be16 a b = be16 c d \<longleftrightarrow> a = c \<and> b = d"
  by (metis hi8_be16 lo8_be16)

lemma be16_add: "be16 a b = push_bit 8 (ucast a) + ucast b"
  unfolding be16_def
  by (rule disjunctive_add [symmetric]) (auto simp: bit_simps dest: bit_imp_le_length)

lemma unat_u8_less [simp]: "unat (x :: u8) < 256"
proof -
  have "unat x < 2 ^ LENGTH(8)" by (rule unsigned_less)
  then show ?thesis by simp
qed

lemma unat_u16_less [simp]: "unat (x :: u16) < 65536"
proof -
  have "unat x < 2 ^ LENGTH(16)" by (rule unsigned_less)
  then show ?thesis by simp
qed

lemma unat_u32_less [simp]: "unat (x :: u32) < 4294967296"
proof -
  have "unat x < 2 ^ LENGTH(32)" by (rule unsigned_less)
  then show ?thesis by simp
qed

lemma unat_u8_le [simp]: "unat (x :: u8) \<le> 255"
  using unat_u8_less [of x] by linarith

lemma unat_u16_le [simp]: "unat (x :: u16) \<le> 65535"
  using unat_u16_less [of x] by linarith

lemma unat_of_nat_u32: "m < 4294967296 \<Longrightarrow> unat (of_nat m :: u32) = m"
  by (simp add: unat_of_nat take_bit_nat_eq_self)

lemma unat_of_nat_u16: "m < 65536 \<Longrightarrow> unat (of_nat m :: u16) = m"
  by (simp add: unat_of_nat take_bit_nat_eq_self)

lemma unat_of_nat_u8: "m < 256 \<Longrightarrow> unat (of_nat m :: u8) = m"
  by (simp add: unat_of_nat take_bit_nat_eq_self)

lemma unat_be16: "unat (be16 a b) = 256 * unat a + unat b"
proof -
  have 1: "unat (push_bit 8 (ucast a) :: u16) = 256 * unat a"
    using unat_u8_less [of a]
    by (simp only: unsigned_push_bit_eq unsigned_ucast_eq)
      (simp add: push_bit_eq_mult take_bit_eq_mod del: unat_u8_less)
  have 2: "unat (ucast b :: u16) = unat b"
    using unat_u8_less [of b]
    by (simp add: unsigned_ucast_eq take_bit_eq_mod del: unat_u8_less)
  show ?thesis
    using unat_u8_less [of a] unat_u8_less [of b]
    by (simp add: be16_add unat_word_ariths 1 2 del: unat_u8_less)
qed

lemma unat_hi8: "unat (hi8 w) = unat w div 256"
  and unat_lo8: "unat (lo8 w) = unat w mod 256"
proof -
  have "unat w = 256 * unat (hi8 w) + unat (lo8 w)"
    using unat_be16 [of "hi8 w" "lo8 w"] by simp
  then show "unat (hi8 w) = unat w div 256" "unat (lo8 w) = unat w mod 256"
    using unat_u8_less [of "lo8 w"] by simp_all
qed

lemma be16_eq_0_iff [simp]: "be16 a b = 0 \<longleftrightarrow> a = 0 \<and> b = 0"
  by (metis be16_hi_lo be16_inject hi8_be16 hi8_def lo8_def drop_bit_of_0 unsigned_0)

lemma le32_of_le32_bytes [byte_simps, simp]: "le32_of (le32_bytes w @ xs) = w"
proof -
  have "le32 (ucast w) (ucast (drop_bit 8 w)) (ucast (drop_bit 16 w)) (ucast (drop_bit 24 w)) = w"
  proof (rule bit_word_eqI)
    fix n assume "n < LENGTH(32)"
    then consider "n < 8" | "8 \<le> n" "n < 16" | "16 \<le> n" "n < 24" | "24 \<le> n" "n < 32"
      by fastforce
    then show "bit (le32 (ucast w) (ucast (drop_bit 8 w)) (ucast (drop_bit 16 w))
                 (ucast (drop_bit 24 w))) n = bit w n"
      by cases (auto simp: le32_def bit_simps)
  qed
  then show ?thesis by (simp add: le32_bytes_def)
qed

lemma le16_of_le16_bytes [byte_simps, simp]: "le16_of (le16_bytes w @ xs) = w"
  by (simp add: le16_bytes_def)

lemma le32_of_le32_bytes' [byte_simps, simp]: "le32_of (le32_bytes w) = w"
  using le32_of_le32_bytes [of w "[]"] by simp

lemma le16_of_le16_bytes' [byte_simps, simp]: "le16_of (le16_bytes w) = w"
  using le16_of_le16_bytes [of w "[]"] by simp

lemma length_le32_bytes [simp]: "length (le32_bytes w) = 4"
  by (simp add: le32_bytes_def)

lemma length_le16_bytes [simp]: "length (le16_bytes w) = 2"
  by (simp add: le16_bytes_def)

lemma le32_bytes_le32 [byte_simps, simp]: "le32_bytes (le32 a b c d) = [a, b, c, d]"
proof -
  have "ucast (le32 a b c d) = a"
    and "ucast (drop_bit 8 (le32 a b c d)) = b"
    and "ucast (drop_bit 16 (le32 a b c d)) = c"
    and "ucast (drop_bit 24 (le32 a b c d)) = d"
    by (rule bit_word_eqI; force simp: le32_def bit_simps dest: bit_imp_le_length)+
  then show ?thesis by (simp add: le32_bytes_def)
qed

lemma le32_bytes_inject [simp]: "le32_bytes v = le32_bytes w \<longleftrightarrow> v = w"
  by (metis append_Nil2 le32_of_le32_bytes)

lemma le32_bytes_le32_of [byte_simps]: "length xs = 4 \<Longrightarrow> le32_bytes (le32_of xs) = xs"
  by (auto simp: length_Suc_conv numeral_eq_Suc)

lemma bswap32_bswap32 [byte_simps, simp]: "bswap32 (bswap32 w) = w"
proof -
  have "le32_bytes (bswap32 w) = rev (le32_bytes w)" for w
    by (simp add: bswap32_def) (simp add: le32_bytes_def)
  then have "le32_bytes (bswap32 (bswap32 w)) = le32_bytes w" by simp
  then show ?thesis by simp
qed

lemma bswap32_inject [simp]: "bswap32 v = bswap32 w \<longleftrightarrow> v = w"
  by (metis bswap32_bswap32)

lemma word_xor_cancel_right: "(a :: 'a::len word) XOR c = b XOR c \<longleftrightarrow> a = b"
proof
  assume "a XOR c = b XOR c"
  then have "(a XOR c) XOR c = (b XOR c) XOR c" by simp
  then show "a = b" by (simp add: xor.assoc)
qed simp

lemma word_xor_cancel_left: "(c :: 'a::len word) XOR a = c XOR b \<longleftrightarrow> a = b"
  using word_xor_cancel_right [of a c b] by (simp add: xor.commute)

lemma unat_ucast_u8_u32 [simp]: "unat (ucast (a :: u8) :: u32) = unat a"
  using unat_u8_less [of a] by (simp add: unsigned_ucast_eq take_bit_eq_mod del: unat_u8_less)

lemma unat_ucast_u16_u32 [simp]: "unat (ucast (a :: u16) :: u32) = unat a"
  using unat_u16_less [of a] by (simp add: unsigned_ucast_eq take_bit_nat_eq_self del: unat_u16_less)

lemma ucast_u8_u32_inject [simp]: "(ucast (a :: u8) :: u32) = ucast b \<longleftrightarrow> a = b"
  by (metis unat_ucast_u8_u32 word_unat_eq_iff)

section \<open>Spans of a flat buffer\<close>

text \<open>
  \<open>seg xs off n\<close> is the span \<^verbatim>\<open>xs[off .. off+n-1]\<close>; \<open>put_seg xs off ys\<close> is
  \<^verbatim>\<open>memcpy(xs + off, ys, length ys)\<close> on a buffer that holds the whole span.
\<close>

definition seg :: "'a list \<Rightarrow> nat \<Rightarrow> nat \<Rightarrow> 'a list" where
  "seg xs off n = take n (drop off xs)"

definition put_seg :: "'a list \<Rightarrow> nat \<Rightarrow> 'a list \<Rightarrow> 'a list" where
  "put_seg xs off ys = take off xs @ ys @ drop (off + length ys) xs"

lemma length_seg [span_simps, simp]: "length (seg xs off n) = min n (length xs - off)"
  by (simp add: seg_def)

lemma length_put_seg [span_simps, simp]:
  "off + length ys \<le> length xs \<Longrightarrow> length (put_seg xs off ys) = length xs"
  by (simp add: put_seg_def)

lemma nth_seg [span_simps, simp]: "i < n \<Longrightarrow> off + n \<le> length xs \<Longrightarrow> seg xs off n ! i = xs ! (off + i)"
  by (simp add: seg_def)

lemma nth_put_seg [span_simps]:
  "off + length ys \<le> length xs \<Longrightarrow> i < length xs \<Longrightarrow>
   put_seg xs off ys ! i = (if off \<le> i \<and> i < off + length ys then ys ! (i - off) else xs ! i)"
  by (auto simp: put_seg_def nth_append min_def)

lemma seg_put_seg_same [span_simps, simp]:
  "off + length ys \<le> length xs \<Longrightarrow> n = length ys \<Longrightarrow> seg (put_seg xs off ys) off n = ys"
  by (simp add: seg_def put_seg_def min_def)

lemma seg_put_seg_disjoint [span_simps]:
  assumes "off + length ys \<le> length xs" and "o' + n \<le> off \<or> off + length ys \<le> o'"
  shows "seg (put_seg xs off ys) o' n = seg xs o' n"
proof (rule nth_equalityI)
  show "length (seg (put_seg xs off ys) o' n) = length (seg xs o' n)"
    using assms(1) by simp
next
  fix i assume "i < length (seg (put_seg xs off ys) o' n)"
  with assms show "seg (put_seg xs off ys) o' n ! i = seg xs o' n ! i"
    by (auto simp: seg_def nth_put_seg)
qed

lemma seg_take [simp]: "off + n \<le> m \<Longrightarrow> seg (take m xs) off n = seg xs off n"
  by (simp add: seg_def drop_take min_def)

lemma seg_append_left [simp]: "off + n \<le> length xs \<Longrightarrow> seg (xs @ ys) off n = seg xs off n"
  by (simp add: seg_def)

lemma seg_append_right [simp]:
  "length xs \<le> off \<Longrightarrow> seg (xs @ ys) off n = seg ys (off - length xs) n"
  by (simp add: seg_def)

lemma seg_all [simp]: "length xs = n \<Longrightarrow> seg (xs @ ys) 0 n = xs"
  by (simp add: seg_def)

lemma seg_full [simp]: "length xs = n \<Longrightarrow> seg xs 0 n = xs"
  by (simp add: seg_def)

lemma seg_Cons [simp]: "0 < off \<Longrightarrow> seg (x # xs) off n = seg xs (off - 1) n"
  by (cases off) (simp_all add: seg_def)

lemma seg_seg: "i + m \<le> n \<Longrightarrow> seg (seg xs off n) i m = seg xs (off + i) m"
  by (simp add: seg_def drop_take min_def add.commute)

lemma seg_split: "m \<le> n \<Longrightarrow> seg xs off n = seg xs off m @ seg xs (off + m) (n - m)"
  using take_add [of m "n - m" "drop off xs"] by (simp add: seg_def add.commute)

lemma length_concat_const:
  "(\<And>x. x \<in> set xs \<Longrightarrow> length (f x) = k) \<Longrightarrow> length (concat (map f xs)) = k * length xs"
  by (induction xs) auto

lemma seg_concat:
  assumes "\<And>x. x \<in> set xs \<Longrightarrow> length (f x) = k" and "i < length xs"
  shows "seg (concat (map f xs) @ ys) (k * i) k = f (xs ! i)"
  using assms
proof (induction xs arbitrary: i)
  case Nil
  then show ?case by simp
next
  case (Cons x xs)
  then show ?case by (cases i) (auto simp: append_assoc)
qed

lemma put_seg_id: "off + n \<le> length xs \<Longrightarrow> put_seg xs off (seg xs off n) = xs"
  by (simp add: put_seg_def seg_def min_def)
    (metis append_take_drop_id drop_drop add.commute)

section \<open>C strings\<close>

text \<open>The bytes of a string literal, without the terminating zero.\<close>

definition ascii :: "string \<Rightarrow> bytes" where
  "ascii s = map of_char s"


text \<open>
  A character array is kept raw. \<open>c_str\<close> is the string it holds (up to the first NUL);
  \<open>strncpy\<close> pads with NULs, as the standard says; \<open>strncmp_eq\<close> is
  \<^verbatim>\<open>strncmp(a, b, n) == 0\<close>; \<open>strcasecmp_eq\<close> is \<^verbatim>\<open>strcasecmp(a, b) == 0\<close>.
\<close>

abbreviation NUL :: char where
  "NUL \<equiv> CHR 0x00"

definition c_str :: "string \<Rightarrow> string" where
  "c_str a = takeWhile (\<lambda>c. c \<noteq> NUL) a"

definition strncpy :: "string \<Rightarrow> string \<Rightarrow> nat \<Rightarrow> string" where
  "strncpy dst src n =
     (let s = take n (c_str src) in s @ replicate (n - length s) NUL @ drop n dst)"

definition strncmp_eq :: "string \<Rightarrow> string \<Rightarrow> nat \<Rightarrow> bool" where
  "strncmp_eq a b n \<longleftrightarrow> take n (c_str a) = take n (c_str b)"

definition to_lower :: "char \<Rightarrow> char" where
  "to_lower c = (if 65 \<le> (of_char c :: nat) \<and> (of_char c :: nat) \<le> 90
                 then char_of (of_char c + 32 :: nat) else c)"

definition to_upper :: "char \<Rightarrow> char" where
  "to_upper c = (if 97 \<le> (of_char c :: nat) \<and> (of_char c :: nat) \<le> 122
                 then char_of (of_char c - 32 :: nat) else c)"

definition strcasecmp_eq :: "string \<Rightarrow> string \<Rightarrow> bool" where
  "strcasecmp_eq a b \<longleftrightarrow> map to_lower a = map to_lower b"

lemma length_strncpy [simp]: "n \<le> length dst \<Longrightarrow> length (strncpy dst src n) = length dst"
  by (simp add: strncpy_def Let_def)

lemma c_str_no_NUL: "NUL \<notin> set (c_str a)"
  by (auto simp: c_str_def dest: set_takeWhileD)

lemma c_str_id: "NUL \<notin> set s \<Longrightarrow> c_str s = s"
  by (induction s) (auto simp: c_str_def)

lemma c_str_append_NUL: "NUL \<notin> set s \<Longrightarrow> c_str (s @ NUL # t) = s"
  by (induction s) (auto simp: c_str_def)

lemma c_str_c_str [simp]: "c_str (c_str a) = c_str a"
  by (rule c_str_id) (rule c_str_no_NUL)

lemma length_c_str_le: "length (c_str a) \<le> length a"
  by (simp add: c_str_def length_takeWhile_le)

lemma c_str_replicate_NUL [simp]: "c_str (replicate n NUL) = []"
  by (cases n) (simp_all add: c_str_def)

text \<open>
  Copying with one byte held back and the last byte cleared, the pattern of every bounded
  copy in the firmware, leaves a terminated string: the source cut to the array.
\<close>

lemma c_str_strncpy_term:
  assumes "length dst = Suc n"
  shows "c_str ((strncpy dst src n)[n := NUL]) = take n (c_str src)"
proof -
  let ?s = "take n (c_str src)"
  have nn: "NUL \<notin> set ?s"
    using c_str_no_NUL [of src] in_set_takeD [of NUL n "c_str src"] by blast
  have d: "drop n dst = [dst ! n]"
    using assms by (simp add: Cons_nth_drop_Suc [symmetric])
  have l: "length (?s @ replicate (n - length ?s) NUL) = n" by simp
  have "(strncpy dst src n)[n := NUL] = (?s @ replicate (n - length ?s) NUL) @ [NUL]"
    using l by (simp add: strncpy_def Let_def d list_update_append)
  also have "\<dots> = ?s @ NUL # replicate (n - length ?s) NUL"
    by (simp add: replicate_append_same)
  finally show ?thesis by (simp add: c_str_append_NUL [OF nn])
qed

end
