(* ===== verification/Config.thy ===== *)
theory Config
  imports Prelude
begin

text \<open>
  The persistent configuration of \<^verbatim>\<open>src/config.c\<close> and \<^verbatim>\<open>src/config.h\<close>: the record, its
  byte image in flash with the CRC-32 that guards it, loading (with the migration of a
  v1.0 record) and saving, the completeness checks of the tunnel and access-point
  settings, and the list of saved Wi-Fi profiles, kept in most-recently-used order.

  Character arrays are raw (see \<^theory_text>\<open>Prelude\<close>). The 8-bit fields \<open>profile_count\<close> and
  \<open>active\<close> are naturals that the invariant keeps below 256; no operation on them wraps.
  The flash routines of the SDK and the credentials baked in through \<^verbatim>\<open>wifi_config.h\<close>
  (which is not part of the repository) are parameters.
\<close>

section \<open>The record\<close>

definition CONFIG_MAGIC :: u32 where "CONFIG_MAGIC = 0x44475750"

abbreviation CONFIG_SSID_MAX :: nat where "CONFIG_SSID_MAX \<equiv> 33"
abbreviation CONFIG_PASS_MAX :: nat where "CONFIG_PASS_MAX \<equiv> 64"
abbreviation CONFIG_PROFILE_MAX :: nat where "CONFIG_PROFILE_MAX \<equiv> 8"
abbreviation CONFIG_ACTIVE_NONE :: nat where "CONFIG_ACTIVE_NONE \<equiv> 255"
abbreviation CONFIG_WGKEY_MAX :: nat where "CONFIG_WGKEY_MAX \<equiv> 46"
abbreviation CONFIG_ENDPOINT_MAX :: nat where "CONFIG_ENDPOINT_MAX \<equiv> 64"
abbreviation CONFIG_ROUTES_MAX :: nat where "CONFIG_ROUTES_MAX \<equiv> 4"
abbreviation FLASH_SECTOR_SIZE :: nat where "FLASH_SECTOR_SIZE \<equiv> 4096"

record wg_route =
  r_net :: u32
  r_prefix :: u8
  r_pad :: bytes

record wg_config =
  private_key :: string
  peer_public :: string
  psk :: string
  endpoint :: string
  endpoint_port :: u16
  keepalive :: u16
  host_mtu :: u16
  exit_enabled :: u8
  exit_lan :: u8
  wg_gap :: bytes \<comment> \<open>two alignment bytes before the next 32-bit field\<close>
  wg_addr :: u32
  host_addr :: u32
  wg_dns :: u32
  wg_prefix :: u8
  route_count :: u8
  wg_pad :: bytes
  routes :: "wg_route list"

record ap_config =
  ap_addr :: u32
  client_addr :: u32
  ap_prefix :: u8
  ap_enabled :: u8
  ap_ssid :: string
  ap_password :: string
  ap_pad :: bytes

record wifi_profile =
  ssid :: string
  password :: string

record config =
  magic :: u32
  profile_count :: nat
  active :: nat
  debug_enabled :: u8
  c_pad :: u8
  country :: u32
  profiles :: "wifi_profile list"
  wg :: wg_config
  ap :: ap_config
  crc32_field :: u32

section \<open>CRC-32\<close>

definition crc_round :: "u32 \<Rightarrow> u32" where
  "crc_round crc = drop_bit 1 crc XOR (0xEDB88320 AND (- (crc AND 1)))"

definition crc_byte :: "u32 \<Rightarrow> u8 \<Rightarrow> u32" where
  "crc_byte crc b = (crc_round ^^ 8) (crc XOR ucast b)"

definition crc32 :: "bytes \<Rightarrow> u32" where
  "crc32 data = foldl crc_byte 0xFFFFFFFF data XOR 0xFFFFFFFF"

section \<open>The byte image\<close>

text \<open>
  The layout is that of the structs under the natural alignment of the target:
  \<^verbatim>\<open>wifi_profile_t\<close> 97 bytes, \<^verbatim>\<open>wg_route_t\<close> 8, \<^verbatim>\<open>wg_config_t\<close> 260, \<^verbatim>\<open>ap_config_t\<close> 108;
  in \<^verbatim>\<open>config_t\<close> the profiles start at 12, the tunnel settings at 788, the access point at
  1048, and the CRC field at 1156. In the v1.0 layout the CRC field is at 1048.
\<close>

abbreviation CRC_OFFSET :: nat where "CRC_OFFSET \<equiv> 1156"
abbreviation CRC_OFFSET_V1 :: nat where "CRC_OFFSET_V1 \<equiv> 1048"

definition char_byte :: "char \<Rightarrow> u8" where "char_byte c = of_char c"
definition byte_char :: "u8 \<Rightarrow> char" where "byte_char b = char_of (unat b)"

definition profile_bytes :: "wifi_profile \<Rightarrow> bytes" where
  "profile_bytes p = map char_byte (ssid p) @ map char_byte (password p)"

definition profile_of :: "bytes \<Rightarrow> wifi_profile" where
  "profile_of bs = \<lparr>ssid = map byte_char (seg bs 0 33), password = map byte_char (seg bs 33 64)\<rparr>"

definition route_bytes :: "wg_route \<Rightarrow> bytes" where
  "route_bytes r = le32_bytes (r_net r) @ [r_prefix r] @ r_pad r"

definition route_of :: "bytes \<Rightarrow> wg_route" where
  "route_of bs = \<lparr>r_net = le32_of (seg bs 0 4), r_prefix = bs ! 4, r_pad = seg bs 5 3\<rparr>"

definition wg_bytes :: "wg_config \<Rightarrow> bytes" where
  "wg_bytes w =
     map char_byte (private_key w) @ map char_byte (peer_public w) @ map char_byte (psk w) @
     map char_byte (endpoint w) @
     le16_bytes (endpoint_port w) @ le16_bytes (keepalive w) @ le16_bytes (host_mtu w) @
     [exit_enabled w, exit_lan w] @ wg_gap w @
     le32_bytes (wg_addr w) @ le32_bytes (host_addr w) @ le32_bytes (wg_dns w) @
     [wg_prefix w, route_count w] @ wg_pad w @ concat (map route_bytes (routes w))"

definition wg_of :: "bytes \<Rightarrow> wg_config" where
  "wg_of bs =
     \<lparr>private_key = map byte_char (seg bs 0 46), peer_public = map byte_char (seg bs 46 46),
      psk = map byte_char (seg bs 92 46), endpoint = map byte_char (seg bs 138 64),
      endpoint_port = le16_of (seg bs 202 2), keepalive = le16_of (seg bs 204 2),
      host_mtu = le16_of (seg bs 206 2), exit_enabled = bs ! 208, exit_lan = bs ! 209,
      wg_gap = seg bs 210 2, wg_addr = le32_of (seg bs 212 4),
      host_addr = le32_of (seg bs 216 4), wg_dns = le32_of (seg bs 220 4),
      wg_prefix = bs ! 224, route_count = bs ! 225, wg_pad = seg bs 226 2,
      routes = map (\<lambda>i. route_of (seg bs (228 + 8 * i) 8)) [0..<4]\<rparr>"

definition ap_bytes :: "ap_config \<Rightarrow> bytes" where
  "ap_bytes a =
     le32_bytes (ap_addr a) @ le32_bytes (client_addr a) @ [ap_prefix a, ap_enabled a] @
     map char_byte (ap_ssid a) @ map char_byte (ap_password a) @ ap_pad a"

definition ap_of :: "bytes \<Rightarrow> ap_config" where
  "ap_of bs =
     \<lparr>ap_addr = le32_of (seg bs 0 4), client_addr = le32_of (seg bs 4 4),
      ap_prefix = bs ! 8, ap_enabled = bs ! 9, ap_ssid = map byte_char (seg bs 10 33),
      ap_password = map byte_char (seg bs 43 64), ap_pad = seg bs 107 1\<rparr>"

text \<open>\<open>body_bytes\<close> is everything before the CRC field, the bytes the CRC covers.\<close>

definition body_bytes :: "config \<Rightarrow> bytes" where
  "body_bytes c =
     le32_bytes (magic c) @
     [word_of_nat (profile_count c), word_of_nat (active c), debug_enabled c, c_pad c] @
     le32_bytes (country c) @ concat (map profile_bytes (profiles c)) @
     wg_bytes (wg c) @ ap_bytes (ap c)"

definition config_bytes :: "config \<Rightarrow> bytes" where
  "config_bytes c = body_bytes c @ le32_bytes (crc32_field c)"

definition config_of :: "bytes \<Rightarrow> config" where
  "config_of bs =
     \<lparr>magic = le32_of (seg bs 0 4), profile_count = unat (bs ! 4), active = unat (bs ! 5),
      debug_enabled = bs ! 6, c_pad = bs ! 7, country = le32_of (seg bs 8 4),
      profiles = map (\<lambda>i. profile_of (seg bs (12 + 97 * i) 97)) [0..<8],
      wg = wg_of (seg bs 788 260), ap = ap_of (seg bs 1048 108),
      crc32_field = le32_of (seg bs CRC_OFFSET 4)\<rparr>"

definition config_compute_crc :: "config \<Rightarrow> u32" where
  "config_compute_crc c = crc32 (body_bytes c)"

section \<open>Defaults, load, save\<close>

definition zero_profile :: wifi_profile where
  "zero_profile = \<lparr>ssid = replicate 33 NUL, password = replicate 64 NUL\<rparr>"

definition zero_route :: wg_route where
  "zero_route = \<lparr>r_net = 0, r_prefix = 0, r_pad = [0, 0, 0]\<rparr>"

definition zero_wg :: wg_config where
  "zero_wg =
     \<lparr>private_key = replicate 46 NUL, peer_public = replicate 46 NUL, psk = replicate 46 NUL,
      endpoint = replicate 64 NUL, endpoint_port = 0, keepalive = 0, host_mtu = 0,
      exit_enabled = 0, exit_lan = 0, wg_gap = [0, 0], wg_addr = 0, host_addr = 0, wg_dns = 0,
      wg_prefix = 0, route_count = 0, wg_pad = [0, 0], routes = replicate 4 zero_route\<rparr>"

definition zero_ap :: ap_config where
  "zero_ap =
     \<lparr>ap_addr = 0, client_addr = 0, ap_prefix = 0, ap_enabled = 0,
      ap_ssid = replicate 33 NUL, ap_password = replicate 64 NUL, ap_pad = [0]\<rparr>"

text \<open>The compile-time constants of \<^verbatim>\<open>wifi_config.h\<close>.\<close>

record wifi_build =
  WIFI_SSID :: string
  WIFI_PASSWORD :: string
  WIFI_COUNTRY :: u32

definition config_defaults :: "wifi_build \<Rightarrow> config" where
  "config_defaults B =
     (let c = \<lparr>magic = CONFIG_MAGIC, profile_count = 0, active = CONFIG_ACTIVE_NONE,
               debug_enabled = 0, c_pad = 0, country = WIFI_COUNTRY B,
               profiles = replicate CONFIG_PROFILE_MAX zero_profile,
               wg = zero_wg, ap = zero_ap, crc32_field = 0\<rparr>;
          c' = (if c_str (WIFI_SSID B) \<noteq> [] then
                  c\<lparr>profiles := (profiles c)
                      [0 := \<lparr>ssid = strncpy (ssid (profiles c ! 0)) (WIFI_SSID B) (CONFIG_SSID_MAX - 1),
                             password = strncpy (password (profiles c ! 0)) (WIFI_PASSWORD B)
                                          (CONFIG_PASS_MAX - 1)\<rparr>],
                    profile_count := 1, active := 0\<rparr>
                else c)
      in c'\<lparr>crc32_field := config_compute_crc c'\<rparr>)"

text \<open>A v1.0 record carried forward: everything but the access point, which stays off.\<close>

definition config_migrate_v1 :: "wifi_build \<Rightarrow> bytes \<Rightarrow> config" where
  "config_migrate_v1 B flash =
     (config_defaults B)
       \<lparr>profile_count := unat (flash ! 4), active := unat (flash ! 5),
        debug_enabled := flash ! 6, country := le32_of (seg flash 8 4),
        profiles := profiles (config_of flash), wg := wg (config_of flash)\<rparr>"

definition config_load :: "wifi_build \<Rightarrow> bytes \<Rightarrow> config" where
  "config_load B flash =
     (if le32_of (seg flash 0 4) = CONFIG_MAGIC then
        if crc32 (take CRC_OFFSET flash) = le32_of (seg flash CRC_OFFSET 4) then
          config_of flash
        else if crc32 (take CRC_OFFSET_V1 flash) = le32_of (seg flash CRC_OFFSET_V1 4) then
          config_migrate_v1 B flash
        else config_defaults B
      else config_defaults B)"

text \<open>
  The SDK's flash routines: \<open>flash_range_erase\<close> and \<open>flash_range_program\<close> on the record's
  sector, and \<open>flash_safe_execute\<close>, which runs a function on the sector and says whether
  it did.
\<close>

record flash_driver =
  flash_range_erase :: "bytes \<Rightarrow> bytes"
  flash_range_program :: "bytes \<Rightarrow> bytes \<Rightarrow> bytes"
  flash_safe_execute :: "(bytes \<Rightarrow> bytes) \<Rightarrow> bytes \<Rightarrow> bool \<times> bytes"

definition config_flash_write :: "flash_driver \<Rightarrow> bytes \<Rightarrow> bytes \<Rightarrow> bytes" where
  "config_flash_write F flash_buf sector =
     flash_range_program F (flash_range_erase F sector) flash_buf"

definition config_save :: "flash_driver \<Rightarrow> config \<Rightarrow> bytes \<Rightarrow> bool \<times> config \<times> bytes" where
  "config_save F c flash =
     (let c1 = c\<lparr>magic := CONFIG_MAGIC\<rparr>;
          c2 = c1\<lparr>crc32_field := config_compute_crc c1\<rparr>;
          flash_buf = config_bytes c2 @
                      replicate (FLASH_SECTOR_SIZE - length (config_bytes c2)) 0xFF;
          (ok, flash') = flash_safe_execute F (config_flash_write F flash_buf) flash
      in (ok, c2, flash'))"

text \<open>What the SDK documents of them.\<close>

definition flash_driver_ok :: "flash_driver \<Rightarrow> bool" where
  "flash_driver_ok F \<longleftrightarrow>
     (\<forall>s buf. length s = FLASH_SECTOR_SIZE \<longrightarrow> length buf \<le> FLASH_SECTOR_SIZE \<longrightarrow>
        flash_range_program F (flash_range_erase F s) buf
          = buf @ replicate (FLASH_SECTOR_SIZE - length buf) 0xFF) \<and>
     (\<forall>f s. fst (flash_safe_execute F f s) \<longrightarrow> snd (flash_safe_execute F f s) = f s)"

section \<open>Accessors and completeness\<close>

definition active_profile :: "config \<Rightarrow> wifi_profile option" where
  "active_profile c =
     (if active c < profile_count c then Some (profiles c ! active c) else None)"

definition config_active_ssid :: "config \<Rightarrow> string" where
  "config_active_ssid c = (case active_profile c of Some p \<Rightarrow> c_str (ssid p) | None \<Rightarrow> '''')"

definition config_active_pass :: "config \<Rightarrow> string" where
  "config_active_pass c = (case active_profile c of Some p \<Rightarrow> c_str (password p) | None \<Rightarrow> '''')"

definition config_wg_complete :: "config \<Rightarrow> bool" where
  "config_wg_complete c =
     (let w = wg c in
      c_str (private_key w) \<noteq> [] \<and> c_str (peer_public w) \<noteq> [] \<and> c_str (endpoint w) \<noteq> [] \<and>
      endpoint_port w \<noteq> 0 \<and> wg_addr w \<noteq> 0 \<and> host_addr w \<noteq> 0 \<and>
      wg_prefix w \<ge> 8 \<and> wg_prefix w \<le> 30)"

definition prefix_mask :: "u8 \<Rightarrow> u32" where
  "prefix_mask n = push_bit (32 - unat n) 0xFFFFFFFF"

definition config_ap_complete :: "config \<Rightarrow> bool" where
  "config_ap_complete c =
     (let a = ap c; pw = length (c_str (ap_password a)) in
      if c_str (ap_ssid a) = [] \<or> pw < 8 \<or> pw > 63 then False
      else if ap_addr a = 0 \<or> client_addr a = 0 \<or> ap_addr a = client_addr a \<or>
              ap_prefix a < 8 \<or> ap_prefix a > 30 then False
      else (bswap32 (ap_addr a) XOR bswap32 (client_addr a)) AND prefix_mask (ap_prefix a) = 0)"

section \<open>The profile list\<close>

definition saved :: "config \<Rightarrow> wifi_profile list" where
  "saved c = take (profile_count c) (profiles c)"

fun find_from :: "string \<Rightarrow> wifi_profile list \<Rightarrow> nat \<Rightarrow> nat option" where
  "find_from s [] i = None"
| "find_from s (p # ps) i =
     (if strncmp_eq (ssid p) s CONFIG_SSID_MAX then Some i else find_from s ps (Suc i))"

text \<open>\<open>None\<close> is the C function's \<^verbatim>\<open>-1\<close>.\<close>

definition config_find_profile :: "config \<Rightarrow> string \<Rightarrow> nat option" where
  "config_find_profile c s = find_from s (saved c) 0"

text \<open>The loop that closes the gap: \<^verbatim>\<open>for (j = i; j + 1 < count; j++) profiles[j] = profiles[j + 1]\<close>.\<close>

definition shift_down :: "nat \<Rightarrow> nat \<Rightarrow> 'a list \<Rightarrow> 'a list" where
  "shift_down i m ps = fold (\<lambda>j ps. ps[j := ps ! Suc j]) [i..<m] ps"

definition config_del_profile :: "config \<Rightarrow> int \<Rightarrow> config" where
  "config_del_profile c i0 =
     (if i0 < 0 \<or> i0 \<ge> int (profile_count c) then c
      else let i = nat i0;
               ps = shift_down i (profile_count c - 1) (profiles c);
               n = profile_count c - 1;
               a = (if active c = i \<or> n = 0 then (if n \<noteq> 0 then 0 else CONFIG_ACTIVE_NONE)
                    else if active c \<noteq> CONFIG_ACTIVE_NONE \<and> active c > i then active c - 1
                    else active c)
           in c\<lparr>profiles := ps, profile_count := n, active := a\<rparr>)"

text \<open>A cleared slot with the SSID copied in.\<close>

definition fresh_profile :: "string \<Rightarrow> wifi_profile" where
  "fresh_profile s = \<lparr>ssid = strncpy (ssid zero_profile) s (CONFIG_SSID_MAX - 1),
                       password = password zero_profile\<rparr>"

definition config_add_profile :: "config \<Rightarrow> string \<Rightarrow> config \<times> int" where
  "config_add_profile c s =
     (let victim = int (profile_count c) - 1;
          victim = (if active c = nat victim then victim - 1 else victim);
          full = (profile_count c \<ge> CONFIG_PROFILE_MAX)
      in if full \<and> victim < 0 then (c, -1)
         else let c = (if full then config_del_profile c victim else c);
                  i = profile_count c
              in (c\<lparr>profile_count := profile_count c + 1,
                    profiles := (profiles c)[i := fresh_profile s]\<rparr>, int i))"

definition config_touch_profile :: "config \<Rightarrow> int \<Rightarrow> config \<times> int" where
  "config_touch_profile c i0 =
     (if i0 < 0 \<or> i0 \<ge> int (profile_count c) then (c, -1)
      else if i0 > 0 then
        let i = nat i0; moved = profiles c ! i;
            ps = put_seg (profiles c) 1 (seg (profiles c) 0 i);
            ps = ps[0 := moved];
            a = (if active c = i then 0
                 else if active c \<noteq> CONFIG_ACTIVE_NONE \<and> active c < i then active c + 1
                 else active c)
        in (c\<lparr>profiles := ps, active := a\<rparr>, 0)
      else (c, 0))"

section \<open>The invariant\<close>

definition profile_wf :: "wifi_profile \<Rightarrow> bool" where
  "profile_wf p \<longleftrightarrow> length (ssid p) = CONFIG_SSID_MAX \<and> length (password p) = CONFIG_PASS_MAX \<and>
     length (c_str (ssid p)) < CONFIG_SSID_MAX \<and> length (c_str (password p)) < CONFIG_PASS_MAX"

definition route_wf :: "wg_route \<Rightarrow> bool" where
  "route_wf r \<longleftrightarrow> length (r_pad r) = 3"

definition wg_wf :: "wg_config \<Rightarrow> bool" where
  "wg_wf w \<longleftrightarrow>
     length (private_key w) = 46 \<and> length (peer_public w) = 46 \<and> length (psk w) = 46 \<and>
     length (endpoint w) = 64 \<and> length (wg_gap w) = 2 \<and> length (wg_pad w) = 2 \<and>
     length (routes w) = CONFIG_ROUTES_MAX \<and> list_all route_wf (routes w)"

definition ap_wf :: "ap_config \<Rightarrow> bool" where
  "ap_wf a \<longleftrightarrow> length (ap_ssid a) = CONFIG_SSID_MAX \<and> length (ap_password a) = CONFIG_PASS_MAX \<and>
     length (ap_pad a) = 1"

text \<open>
  The list invariant: at most eight profiles, arrays of their declared sizes holding
  terminated strings, and \<open>active\<close> either designating a saved profile or being the
  sentinel.
\<close>

definition config_wf :: "config \<Rightarrow> bool" where
  "config_wf c \<longleftrightarrow>
     length (profiles c) = CONFIG_PROFILE_MAX \<and> list_all profile_wf (profiles c) \<and>
     profile_count c \<le> CONFIG_PROFILE_MAX \<and>
     (active c < profile_count c \<or> active c = CONFIG_ACTIVE_NONE) \<and>
     wg_wf (wg c) \<and> ap_wf (ap c)"

section \<open>Lists with one element taken out\<close>

definition remove_nth :: "nat \<Rightarrow> 'a list \<Rightarrow> 'a list" where
  "remove_nth i xs = take i xs @ drop (Suc i) xs"

lemma length_remove_nth [simp]: "i < length xs \<Longrightarrow> length (remove_nth i xs) = length xs - 1"
  by (simp add: remove_nth_def)

lemma nth_remove_nth:
  "i < length xs \<Longrightarrow> j < length xs - 1 \<Longrightarrow>
   remove_nth i xs ! j = (if j < i then xs ! j else xs ! Suc j)"
  by (auto simp: remove_nth_def nth_append min_def)

lemma length_shift_down [simp]: "length (shift_down i m ps) = length ps"
proof -
  have "length (fold (\<lambda>j ps. ps[j := ps ! Suc j]) js ps) = length ps" for js
    by (induction js arbitrary: ps) auto
  then show ?thesis by (simp add: shift_down_def)
qed

lemma shift_down_Suc:
  "i \<le> m \<Longrightarrow> shift_down i (Suc m) ps = (shift_down i m ps)[m := shift_down i m ps ! Suc m]"
  by (simp add: shift_down_def)

lemma nth_shift_down:
  assumes "m < length ps" "k < length ps"
  shows "shift_down i m ps ! k = (if i \<le> k \<and> k < m then ps ! Suc k else ps ! k)"
  using assms
proof (induction m arbitrary: k)
  case 0
  then show ?case by (simp add: shift_down_def)
next
  case (Suc m)
  show ?case
  proof (cases "i \<le> m")
    case False
    then show ?thesis by (auto simp: shift_down_def)
  next
    case True
    have "shift_down i (Suc m) ps ! k
            = (if k = m then shift_down i m ps ! Suc m else shift_down i m ps ! k)"
      using Suc.prems by (simp add: shift_down_Suc [OF True] nth_list_update)
    with True Suc.prems show ?thesis by (auto simp: Suc.IH)
  qed
qed

lemma take_shift_down:
  assumes "i \<le> m" "m < length ps"
  shows "take m (shift_down i m ps) = remove_nth i (take (Suc m) ps)"
  by (rule nth_equalityI)
    (use assms in \<open>simp_all add: nth_shift_down nth_remove_nth\<close>)

lemma list_all_shift_down:
  "list_all P ps \<Longrightarrow> m < length ps \<Longrightarrow> list_all P (shift_down i m ps)"
  by (auto simp: list_all_length nth_shift_down)

section \<open>The profile list operations\<close>

lemma config_wfD:
  assumes "config_wf c"
  shows "length (profiles c) = 8" and "profile_count c \<le> 8"
    and "list_all profile_wf (profiles c)"
    and "active c < profile_count c \<or> active c = 255"
    and "length (saved c) = profile_count c"
  using assms by (simp_all add: config_wf_def saved_def)

lemma active_profile_saved:
  "active_profile c = (if active c < profile_count c then Some (saved c ! active c) else None)"
  by (simp add: active_profile_def saved_def)

lemma profile_count_del:
  "i < profile_count c \<Longrightarrow> profile_count (config_del_profile c (int i)) = profile_count c - 1"
  by (simp add: config_del_profile_def Let_def)

lemma saved_del:
  assumes "config_wf c" "i < profile_count c"
  shows "saved (config_del_profile c (int i)) = remove_nth i (saved c)"
proof -
  have "i \<le> profile_count c - 1" "profile_count c - 1 < length (profiles c)"
    and "Suc (profile_count c - 1) = profile_count c"
    using assms config_wfD(1,2) [OF assms(1)] by auto
  then show ?thesis
    using assms(2) take_shift_down [of i "profile_count c - 1" "profiles c"]
    by (simp add: saved_def config_del_profile_def Let_def)
qed

lemma config_wf_del:
  assumes "config_wf c"
  shows "config_wf (config_del_profile c i)"
proof (cases "i < 0 \<or> i \<ge> int (profile_count c)")
  case True
  then show ?thesis using assms by (simp add: config_del_profile_def)
next
  case False
  then have "profile_count c - 1 < length (profiles c)"
    using assms config_wfD(1,2) [OF assms] by auto
  with False assms show ?thesis
    by (auto simp: config_wf_def config_del_profile_def Let_def list_all_shift_down)
qed

lemma active_del:
  assumes "config_wf c" "i < profile_count c" "active c \<noteq> i"
  shows "active_profile (config_del_profile c (int i)) = active_profile c"
proof -
  let ?d = "config_del_profile c (int i)"
  have n: "profile_count ?d = profile_count c - 1"
    using assms(2) by (rule profile_count_del)
  have a: "active ?d = (if profile_count c = 1 then 255
             else if active c \<noteq> 255 \<and> active c > i then active c - 1 else active c)"
    using assms by (auto simp: config_del_profile_def Let_def)
  show ?thesis
    unfolding active_profile_saved saved_del [OF assms(1,2)] n a
    using assms(2,3) config_wfD(2,4,5) [OF assms(1)] by (auto simp: nth_remove_nth)
qed

lemma config_touch_out_of_range:
  "i < 0 \<or> i \<ge> int (profile_count c) \<Longrightarrow> config_touch_profile c i = (c, -1)"
  by (simp add: config_touch_profile_def)

lemma saved_touch:
  assumes "config_wf c" "i < profile_count c"
  shows "saved (fst (config_touch_profile c (int i))) = saved c ! i # remove_nth i (saved c)"
proof (cases "i = 0")
  case True
  then have "saved c \<noteq> []" using assms config_wfD(5) [OF assms(1)] by auto
  then obtain p ps where "saved c = p # ps" by (cases "saved c") auto
  then show ?thesis
    using True assms(2) by (simp add: config_touch_profile_def remove_nth_def)
next
  case False
  have l: "length (profiles c) = 8" "profile_count c \<le> 8" using assms(1) by (auto dest: config_wfD)
  let ?ps = "(put_seg (profiles c) 1 (seg (profiles c) 0 i))[0 := profiles c ! i]"
  have e: "saved (fst (config_touch_profile c (int i))) = take (profile_count c) ?ps"
    using False assms(2) by (simp add: config_touch_profile_def saved_def Let_def)
  have s: "1 + length (seg (profiles c) 0 i) \<le> length (profiles c)"
    using assms(2) l by simp
  show ?thesis
  proof (rule nth_equalityI)
    show "length (saved (fst (config_touch_profile c (int i))))
            = length (saved c ! i # remove_nth i (saved c))"
      using assms(2) l s config_wfD(5) [OF assms(1)] by (simp add: e)
  next
    fix k assume "k < length (saved (fst (config_touch_profile c (int i))))"
    then have k: "k < profile_count c" using l s by (simp add: e)
    have "?ps ! k = (if k = 0 then profiles c ! i else if k \<le> i then profiles c ! (k - 1) else profiles c ! k)"
      using k l s assms(2) by (auto simp: nth_list_update nth_put_seg min_def)
    moreover have "saved c ! j = profiles c ! j" if "j < profile_count c" for j
      using that by (simp add: saved_def)
    ultimately show "saved (fst (config_touch_profile c (int i))) ! k
                       = (saved c ! i # remove_nth i (saved c)) ! k"
      unfolding e using k assms(2) config_wfD(5) [OF assms(1)]
      by (cases k) (auto simp: nth_remove_nth)
  qed
qed

lemma config_wf_touch:
  assumes "config_wf c"
  shows "config_wf (fst (config_touch_profile c i))"
proof (cases "0 < i \<and> i < int (profile_count c)")
  case False
  then show ?thesis using assms by (auto simp: config_touch_profile_def)
next
  case True
  have l: "length (profiles c) = 8" "profile_count c \<le> 8" using assms by (auto dest: config_wfD)
  let ?s = "put_seg (profiles c) 1 (seg (profiles c) 0 (nat i))"
  have "nat i < 8" using True l by linarith
  then have s: "1 + length (seg (profiles c) 0 (nat i)) \<le> length (profiles c)"
    using l by simp
  have p: "set (?s[0 := profiles c ! nat i]) \<subseteq> set (profiles c)"
  proof -
    have "set ?s \<subseteq> set (profiles c)"
      unfolding put_seg_def seg_def by (auto dest: in_set_takeD in_set_dropD)
    moreover have "profiles c ! nat i \<in> set (profiles c)"
      using \<open>nat i < 8\<close> l by (intro nth_mem) simp
    ultimately show ?thesis using set_update_subset_insert by fastforce
  qed
  have "active (fst (config_touch_profile c i)) < profile_count c \<or> active (fst (config_touch_profile c i)) = 255"
    using True config_wfD(4) [OF assms] by (auto simp: config_touch_profile_def Let_def)
  moreover have "list_all profile_wf (?s[0 := profiles c ! nat i])"
    using p config_wfD(3) [OF assms] by (auto simp: list_all_iff)
  ultimately show ?thesis
    using assms True l s by (simp add: config_wf_def config_touch_profile_def Let_def)
qed

lemma active_touch:
  assumes "config_wf c" "i < profile_count c"
  shows "active_profile (fst (config_touch_profile c (int i))) = active_profile c"
proof -
  let ?d = "fst (config_touch_profile c (int i))"
  have n: "profile_count ?d = profile_count c"
    by (simp add: config_touch_profile_def Let_def)
  have a: "active ?d = (if active c = i then 0
             else if active c \<noteq> 255 \<and> active c < i then active c + 1 else active c)"
    using assms by (auto simp: config_touch_profile_def Let_def)
  show ?thesis
    unfolding active_profile_saved saved_touch [OF assms] n a
    using assms(2) config_wfD(2,4,5) [OF assms(1)] by (auto simp: nth_remove_nth nth_Cons')
qed

lemma strncpy_zeros: "strncpy (replicate (Suc n) NUL) s n = (strncpy (replicate (Suc n) NUL) s n)[n := NUL]"
proof -
  have "strncpy (replicate (Suc n) NUL) s n ! n = NUL"
    by (simp add: strncpy_def Let_def nth_append del: replicate.simps)
  then show ?thesis by (metis list_update_id)
qed

lemma c_str_fresh_ssid: "c_str (ssid (fresh_profile s)) = take 32 (c_str s)"
  using c_str_strncpy_term[of "replicate 33 NUL" 32 s] strncpy_zeros[of 32 s]
  by (simp add: fresh_profile_def zero_profile_def)

lemma profile_wf_fresh: "profile_wf (fresh_profile s)"
  using length_c_str_le[of "password (fresh_profile s)"]
  by (simp add: profile_wf_def c_str_fresh_ssid) (simp add: fresh_profile_def zero_profile_def)

definition victim_of :: "config \<Rightarrow> nat" where
  "victim_of c = (if active c = 7 then 6 else 7)"

lemma config_add_alt:
  assumes "config_wf c"
  shows "config_add_profile c s =
    (let d = (if profile_count c < 8 then c else config_del_profile c (int (victim_of c)))
     in (d\<lparr>profile_count := profile_count d + 1, profiles := (profiles d)[profile_count d := fresh_profile s]\<rparr>, int (profile_count d)))"
proof (cases "profile_count c < 8")
  case True
  then show ?thesis by (simp add: config_add_profile_def fresh_profile_def Let_def)
next
  case False
  then have "profile_count c = 8" using config_wfD(2)[OF assms] by simp
  then show ?thesis by (simp add: config_add_profile_def fresh_profile_def Let_def victim_of_def)
qed

lemma append_slot:
  assumes "config_wf d" "profile_count d < 8" "profile_wf p"
  defines "e \<equiv> d\<lparr>profile_count := profile_count d + 1, profiles := (profiles d)[profile_count d := p]\<rparr>"
  shows "saved e = saved d @ [p]" and "config_wf e" and "active_profile e = active_profile d"
proof -
  have l: "length (profiles d) = 8" using assms(1) by (rule config_wfD)
  show s: "saved e = saved d @ [p]"
    using assms(2) l by (simp add: e_def saved_def take_Suc_conv_app_nth)
  show "config_wf e"
    using assms(1-3) by (auto simp: e_def config_wf_def list_all_length nth_list_update)
  show "active_profile e = active_profile d"
    using config_wfD(4)[OF assms(1)] assms(2) by (auto simp: active_profile_def e_def)
qed

lemma config_add_spec:
  assumes "config_wf c"
  defines "d \<equiv> (if profile_count c < 8 then c else config_del_profile c (int (victim_of c)))"
  shows "saved (fst (config_add_profile c s)) = saved d @ [fresh_profile s]"
    and "saved d = (if profile_count c < 8 then saved c else remove_nth (victim_of c) (saved c))"
    and "config_wf (fst (config_add_profile c s))"
    and "active_profile (fst (config_add_profile c s)) = active_profile c"
    and "snd (config_add_profile c s) = int (length (saved d))"
proof -
  have v: "profile_count c = 8" if "\<not> profile_count c < 8" using that config_wfD(2)[OF assms(1)] by simp
  have wf: "config_wf d" using assms(1) by (simp add: d_def config_wf_del)
  have n: "profile_count d < 8" using v by (auto simp: d_def profile_count_del victim_of_def)
  have a: "active_profile d = active_profile c"
    using v active_del[OF assms(1), of "victim_of c"] by (auto simp: d_def victim_of_def)
  note alt = config_add_alt[OF assms(1), of s, folded d_def, unfolded Let_def]
  note ap = append_slot[OF wf n profile_wf_fresh[of s]]
  show "saved (fst (config_add_profile c s)) = saved d @ [fresh_profile s]"
    and "config_wf (fst (config_add_profile c s))"
    and "active_profile (fst (config_add_profile c s)) = active_profile c"
    and "snd (config_add_profile c s) = int (length (saved d))"
    using ap a config_wfD(5)[OF wf] by (simp_all add: alt)
  show "saved d = (if profile_count c < 8 then saved c else remove_nth (victim_of c) (saved c))"
    using v saved_del[OF assms(1), of "victim_of c"] by (auto simp: d_def victim_of_def)
qed
section \<open>What the CRC detects\<close>

lemma and_one_neg: "- (x AND 1 :: u32) = (if odd x then -1 else 0)"
  by (simp add: and_one_eq mod2_eq_if)

lemma crc_round_alt: "crc_round x = drop_bit 1 x XOR (if odd x then 0xEDB88320 else 0)"
  unfolding crc_round_def and_one_neg by simp

lemma bit31_poly: "bit (0xEDB88320 :: u32) 31"
  by simp

lemma crc_round_top: "bit (crc_round x) 31 = odd x"
proof -
  have "\<not> bit (drop_bit 1 x) 31" by (simp add: bit_drop_bit_eq bit_imp_le_length) (auto dest: bit_imp_le_length)
  then show ?thesis using bit31_poly unfolding crc_round_alt bit_xor_iff by (auto split: if_splits)
qed

lemma inj_crc_round: "inj crc_round"
proof (rule injI)
  fix x y assume e: "crc_round x = crc_round y"
  then have o: "odd x = odd y" using crc_round_top by metis
  have "drop_bit 1 x = drop_bit 1 y"
    using e o unfolding crc_round_alt by (simp add: word_xor_cancel_right)
  then have h: "x div 2 = y div 2" by (simp add: drop_bit_Suc)
  have "x mod 2 = y mod 2" using o by (simp add: mod_2_eq_odd)
  with h have "x div 2 * 2 + x mod 2 = y div 2 * 2 + y mod 2" by simp
  then show "x = y" by (simp only: div_mult_mod_eq)
qed

lemma crc_byte_inject: "crc_byte x a = crc_byte y b \<longleftrightarrow> x XOR ucast a = y XOR ucast b"
  unfolding crc_byte_def by (rule inj_eq [OF inj_fn [OF inj_crc_round]])

lemma foldl_crc_neq: "x \<noteq> y \<Longrightarrow> foldl crc_byte x bs \<noteq> foldl crc_byte y bs"
  by (induction bs arbitrary: x y) (auto simp: crc_byte_inject word_xor_cancel_right)

lemma crc32_single_byte:
  assumes "i < length bs" "b \<noteq> bs ! i"
  shows "crc32 (bs[i := b]) \<noteq> crc32 bs"
proof -
  have s: "bs = take i bs @ bs ! i # drop (Suc i) bs" using assms(1) by (simp add: id_take_nth_drop)
  have u: "bs[i := b] = take i bs @ b # drop (Suc i) bs" using assms(1) by (simp add: upd_conv_take_nth_drop)
  have "crc_byte x b \<noteq> crc_byte x (bs ! i)" for x
    using assms(2) by (simp add: crc_byte_inject word_xor_cancel_left)
  then have "foldl crc_byte 0xFFFFFFFF (take i bs @ b # drop (Suc i) bs)
     \<noteq> foldl crc_byte 0xFFFFFFFF (take i bs @ bs ! i # drop (Suc i) bs)"
    by (simp add: foldl_crc_neq)
  then show ?thesis unfolding crc32_def word_xor_cancel_right using s u by simp
qed
section \<open>The byte image determines the record\<close>

lemma byte_char_char_byte [simp]: "byte_char (char_byte c) = c"
proof -
  have "unat (of_char c :: u8) = of_char c" by (cases c) (simp add: of_char_def)
  then show ?thesis by (simp add: byte_char_def char_byte_def)
qed

lemma map_byte_char [simp]: "map (byte_char \<circ> char_byte) s = s"
  by (simp add: comp_def)

lemma profile_of_bytes:
  "profile_wf p \<Longrightarrow> profile_of (profile_bytes p) = p" "profile_wf p \<Longrightarrow> length (profile_bytes p) = 97"
  by (simp_all add: profile_wf_def profile_of_def profile_bytes_def)

lemma route_of_bytes:
  "route_wf r \<Longrightarrow> route_of (route_bytes r) = r" "route_wf r \<Longrightarrow> length (route_bytes r) = 8"
  by (simp_all add: route_wf_def route_of_def route_bytes_def nth_append)

lemma length_routes_bytes:
  "length rs = 4 \<Longrightarrow> list_all route_wf rs \<Longrightarrow> length (concat (map route_bytes rs)) = 32"
  by (subst length_concat_const [where k = 8]) (auto simp: route_of_bytes list_all_iff)

lemma map_nth_seg:
  assumes "\<And>x. x \<in> set xs \<Longrightarrow> length (enc x) = k" "\<And>x. x \<in> set xs \<Longrightarrow> dec (enc x) = x"
  shows "map (\<lambda>i. dec (seg (concat (map enc xs) @ ys) (k * i) k)) [0..<length xs] = xs"
  by (rule nth_equalityI) (simp_all add: seg_concat assms)

lemma length_wg_bytes: "wg_wf w \<Longrightarrow> length (wg_bytes w) = 260"
  by (simp add: wg_wf_def wg_bytes_def length_routes_bytes del: length_concat)

lemma routes_of_bytes:
  assumes "length rs = 4" "list_all route_wf rs"
  shows "map (\<lambda>i. route_of (seg (concat (map route_bytes rs)) (8 * i) 8)) [0..<4] = rs"
  using map_nth_seg [of rs route_bytes 8 route_of "[]"] assms by (simp add: route_of_bytes list_all_iff)

lemma wg_of_bytes:
  assumes "wg_wf w"
  shows "wg_of (wg_bytes w) = w"
proof -
  have seg228: "seg (wg_bytes w) (228 + 8 * i) 8 = seg (concat (map route_bytes (routes w))) (8 * i) 8" for i
    using assms by (simp add: wg_wf_def wg_bytes_def)
  have "routes w = map (\<lambda>i. route_of (seg (wg_bytes w) (228 + 8 * i) 8)) [0..<4]"
    using routes_of_bytes[of "routes w"] assms by (simp only: seg228) (simp add: wg_wf_def)
  then show ?thesis using assms
    by (intro wg_config.equality) (simp_all add: wg_of_def, simp_all add: wg_wf_def wg_bytes_def nth_append)
qed

lemma ap_of_bytes: "ap_wf a \<Longrightarrow> ap_of (ap_bytes a) = a" "ap_wf a \<Longrightarrow> length (ap_bytes a) = 108"
  by (simp_all add: ap_wf_def ap_of_def ap_bytes_def nth_append)

lemma length_profiles_bytes:
  "length ps = 8 \<Longrightarrow> list_all profile_wf ps \<Longrightarrow> length (concat (map profile_bytes ps)) = 776"
  by (subst length_concat_const [where k = 97]) (auto simp: profile_of_bytes list_all_iff)

lemma length_body_bytes: "config_wf c \<Longrightarrow> length (body_bytes c) = 1156"
  by (simp add: config_wf_def body_bytes_def length_profiles_bytes length_wg_bytes ap_of_bytes del: length_concat)

lemma config_of_bytes:
  assumes "config_wf c"
  shows "config_of (config_bytes c @ rest) = c"
proof -
  let ?bs = "config_bytes c @ rest"
  note wf = assms[unfolded config_wf_def]
  have lp: "length (concat (map profile_bytes (profiles c))) = 776"
    using wf by (intro length_profiles_bytes) auto
  have lw: "length (wg_bytes (wg c)) = 260" using wf by (simp add: length_wg_bytes)
  have la: "length (ap_bytes (ap c)) = 108" using wf by (simp add: ap_of_bytes)
  note ls = lp lw la
  have s1: "seg ?bs (12 + 97 * i) 97 = seg (concat (map profile_bytes (profiles c)) @ wg_bytes (wg c) @ ap_bytes (ap c) @ le32_bytes (crc32_field c) @ rest) (97 * i) 97" for i
    by (simp add: config_bytes_def body_bytes_def)
  have "profiles c = map (\<lambda>i. profile_of (seg ?bs (12 + 97 * i) 97)) [0..<8]"
    using map_nth_seg [of "profiles c" profile_bytes 97 profile_of] wf
    by (simp only: s1) (simp add: profile_of_bytes list_all_iff)
  moreover have "seg ?bs 788 260 = wg_bytes (wg c)" "seg ?bs 1048 108 = ap_bytes (ap c)" "seg ?bs 1156 4 = le32_bytes (crc32_field c)"
    using ls by (simp_all add: config_bytes_def body_bytes_def del: length_concat)
  moreover have "unat (word_of_nat (profile_count c) :: u8) = profile_count c" "unat (word_of_nat (active c) :: u8) = active c"
    using wf by (auto simp: unat_of_nat)
  ultimately show ?thesis
    using wf by (intro config.equality) (simp_all add: config_of_def wg_of_bytes ap_of_bytes, simp_all add: config_bytes_def body_bytes_def nth_append)
qed
section \<open>Loading what was saved\<close>

definition sealed :: "config \<Rightarrow> config" where
  "sealed c = c\<lparr>magic := CONFIG_MAGIC, crc32_field := crc32 (body_bytes (c\<lparr>magic := CONFIG_MAGIC\<rparr>))\<rparr>"

lemma config_wf_sealed: "config_wf c \<Longrightarrow> config_wf (sealed c)"
  by (simp add: sealed_def config_wf_def)

lemma body_bytes_sealed: "body_bytes (sealed c) = body_bytes (c\<lparr>magic := CONFIG_MAGIC\<rparr>)"
  by (simp add: sealed_def body_bytes_def)

lemma length_config_bytes: "config_wf c \<Longrightarrow> length (config_bytes c) = 1160"
  by (simp add: config_bytes_def length_body_bytes)

lemma config_load_sealed:
  assumes "config_wf c"
  shows "config_load B (config_bytes (sealed c) @ rest) = sealed c"
proof -
  let ?bs = "config_bytes (sealed c) @ rest"
  have len: "length (body_bytes (sealed c)) = 1156"
    using assms by (simp add: length_body_bytes config_wf_sealed)
  have "le32_of (seg ?bs 0 4) = CONFIG_MAGIC"
    by (simp add: config_bytes_def body_bytes_sealed) (simp add: body_bytes_def)
  moreover have "take 1156 ?bs = body_bytes (sealed c)"
    using len by (simp add: config_bytes_def)
  moreover have "le32_of (seg ?bs 1156 4) = crc32 (body_bytes (sealed c))"
    using len by (simp add: config_bytes_def body_bytes_sealed) (simp add: sealed_def)
  moreover have "config_of ?bs = sealed c"
    by (rule config_of_bytes) (rule config_wf_sealed [OF assms])
  ultimately show ?thesis by (simp add: config_load_def)
qed

lemma config_save_effect:
  assumes "config_wf c" "flash_driver_ok F" "length flash = FLASH_SECTOR_SIZE"
    and "config_save F c flash = (True, c', flash')"
  shows "c' = sealed c" and "flash' = config_bytes (sealed c) @ replicate 2936 0xFF"
proof -
  let ?buf = "config_bytes (sealed c) @ replicate 2936 0xFF"
  have l: "length (config_bytes (sealed c)) = 1160"
    using assms(1) by (simp add: length_config_bytes config_wf_sealed)
  have s: "(c\<lparr>magic := CONFIG_MAGIC\<rparr>)\<lparr>crc32_field := config_compute_crc (c\<lparr>magic := CONFIG_MAGIC\<rparr>)\<rparr> = sealed c"
    by (simp add: sealed_def config_compute_crc_def)
  have e: "flash_safe_execute F (config_flash_write F ?buf) flash = (True, flash')" and c: "c' = sealed c"
    using assms(4) l unfolding config_save_def Let_def s by (auto split: prod.splits)
  have "flash' = config_flash_write F ?buf flash"
    using assms(2) e unfolding flash_driver_ok_def by (metis fst_conv snd_conv)
  also have "\<dots> = ?buf"
    using assms(2,3) l unfolding flash_driver_ok_def config_flash_write_def by simp
  finally show "flash' = ?buf" .
  show "c' = sealed c" by (rule c)
qed

section \<open>The interface of the profile store\<close>

text \<open>
  What the connection manager and the console rely on: a bounded list of items in
  recency order with at most one current item. Using an item moves it to the front;
  adding appends, and evicts one of the last two items when the store is full; neither
  changes which item is current.
\<close>

datatype list_use = Touch nat | Add string

locale mru_store =
  fixes invar :: "'c \<Rightarrow> bool" and items :: "'c \<Rightarrow> 'p list" and current :: "'c \<Rightarrow> 'p option"
    and touch :: "'c \<Rightarrow> nat \<Rightarrow> 'c" and add :: "'c \<Rightarrow> string \<Rightarrow> 'c"
    and fresh :: "string \<Rightarrow> 'p" and cap :: nat
  assumes items_bound: "invar c \<Longrightarrow> length (items c) \<le> cap"
    and touch_invar: "invar c \<Longrightarrow> invar (touch c i)"
    and touch_items: "invar c \<Longrightarrow> i < length (items c) \<Longrightarrow>
           items (touch c i) = items c ! i # remove_nth i (items c)"
    and touch_beyond: "invar c \<Longrightarrow> length (items c) \<le> i \<Longrightarrow> touch c i = c"
    and touch_current: "invar c \<Longrightarrow> current (touch c i) = current c"
    and add_invar: "invar c \<Longrightarrow> invar (add c s)"
    and add_room: "invar c \<Longrightarrow> length (items c) < cap \<Longrightarrow> items (add c s) = items c @ [fresh s]"
    and add_full: "invar c \<Longrightarrow> length (items c) = cap \<Longrightarrow>
           \<exists>v. cap - 2 \<le> v \<and> v < cap \<and> items (add c s) = remove_nth v (items c) @ [fresh s]"
    and add_current: "invar c \<Longrightarrow> current (add c s) = current c"
begin

fun use :: "'c \<Rightarrow> list_use \<Rightarrow> 'c" where
  "use c (Touch i) = touch c i"
| "use c (Add s) = add c s"

definition uses :: "'c \<Rightarrow> list_use list \<Rightarrow> 'c" where
  "uses c us = foldl use c us"

definition within :: "'c \<Rightarrow> 'p \<Rightarrow> nat \<Rightarrow> bool" where
  "within c p j \<longleftrightarrow> (\<exists>i \<le> j. i < length (items c) \<and> items c ! i = p)"

lemma use_invar: "invar c \<Longrightarrow> invar (use c u)"
  by (cases u) (auto intro: touch_invar add_invar)

lemma uses_invar: "invar c \<Longrightarrow> invar (uses c us)"
  unfolding uses_def by (induction us arbitrary: c) (auto intro: use_invar)

lemma uses_current: "invar c \<Longrightarrow> current (uses c us) = current c"
  unfolding uses_def
proof (induction us arbitrary: c)
  case (Cons u us)
  have "current (use c u) = current c"
    using Cons.prems by (cases u) (simp_all add: touch_current add_current)
  with Cons show ?case by (simp add: use_invar)
qed simp

lemma touch_within:
  assumes "invar c" "within c p j"
  shows "within (touch c i) p (Suc j)"
proof (cases "i < length (items c)")
  case False
  then have "touch c i = c" using assms(1) by (simp add: touch_beyond)
  then show ?thesis using assms(2) unfolding within_def by (metis le_SucI)
next
  case True
  from assms(2) obtain k where k: "k \<le> j" "k < length (items c)" "items c ! k = p"
    unfolding within_def by blast
  let ?k = "if k = i then 0 else if k < i then Suc k else k"
  have "(items c ! i # remove_nth i (items c)) ! ?k = p"
    using k True by (auto simp: nth_remove_nth nth_Cons')
  then show ?thesis
    unfolding within_def touch_items [OF assms(1) True]
    using k True by (intro exI [of _ ?k]) auto
qed

lemma add_within:
  assumes "invar c" "within c p j" "j + 2 < cap"
  shows "within (add c s) p j"
proof -
  from assms(2) obtain k where k: "k \<le> j" "k < length (items c)" "items c ! k = p"
    unfolding within_def by blast
  have "k < length (items (add c s)) \<and> items (add c s) ! k = p"
  proof (cases "length (items c) < cap")
    case True
    then show ?thesis using add_room [OF assms(1)] k by (simp add: nth_append)
  next
    case False
    then have l: "length (items c) = cap" using items_bound [OF assms(1)] by simp
    obtain v where "cap - 2 \<le> v" "v < cap" "items (add c s) = remove_nth v (items c) @ [fresh s]"
      using add_full [OF assms(1) l] by blast
    moreover from this have "k < v" "k < cap - 1" using k(1) assms(3) by linarith+
    ultimately show ?thesis using k l by (simp add: nth_append nth_remove_nth)
  qed
  with k(1) show ?thesis unfolding within_def by blast
qed

text \<open>Recency: an item sinks by at most one place per use of another, so it outlives any
  number of additions as long as it is not among the last two.\<close>

lemma uses_within:
  assumes "invar c" "within c p j" "j + length (filter (\<lambda>u. case u of Touch _ \<Rightarrow> True | Add _ \<Rightarrow> False) us) + 2 < cap"
  shows "within (uses c us) p (j + length (filter (\<lambda>u. case u of Touch _ \<Rightarrow> True | Add _ \<Rightarrow> False) us))"
  using assms
proof (induction us arbitrary: c j)
  case Nil
  then show ?case by (simp add: uses_def)
next
  case (Cons u us)
  show ?case
  proof (cases u)
    case (Touch i)
    have "within (touch c i) p (Suc j)" using Cons.prems(1,2) by (rule touch_within)
    with Touch Cons.IH [of "touch c i" "Suc j"] Cons.prems show ?thesis
      by (simp add: uses_def touch_invar)
  next
    case (Add s)
    have "within (add c s) p j" using Cons.prems Add by (intro add_within) auto
    with Add Cons.IH [of "add c s" j] Cons.prems show ?thesis
      by (simp add: uses_def add_invar)
  qed
qed

end

interpretation profile_store: mru_store config_wf saved active_profile
  "\<lambda>c i. fst (config_touch_profile c (int i))" "\<lambda>c s. fst (config_add_profile c s)"
  fresh_profile CONFIG_PROFILE_MAX
proof unfold_locales
  fix c :: config and i :: nat and s :: string
  assume wf: "config_wf c"
  show "length (saved c) \<le> 8" using config_wfD(2,5) [OF wf] by simp
  show "config_wf (fst (config_touch_profile c (int i)))" using wf by (rule config_wf_touch)
  show "saved (fst (config_touch_profile c (int i))) = saved c ! i # remove_nth i (saved c)"
    if "i < length (saved c)"
    using that wf config_wfD(5) [OF wf] by (simp add: saved_touch)
  show beyond: "fst (config_touch_profile c (int i)) = c" if "length (saved c) \<le> i"
    using that config_wfD(5) [OF wf] by (simp add: config_touch_out_of_range)
  show "active_profile (fst (config_touch_profile c (int i))) = active_profile c"
    using wf active_touch [OF wf, of i] beyond config_wfD(5) [OF wf]
    by (cases "i < profile_count c") auto
  show "config_wf (fst (config_add_profile c s))" using wf by (rule config_add_spec(3))
  show "active_profile (fst (config_add_profile c s)) = active_profile c"
    using wf by (rule config_add_spec(4))
  show "saved (fst (config_add_profile c s)) = saved c @ [fresh_profile s]"
    if "length (saved c) < 8"
    using that config_add_spec(1) [OF wf, of s] config_wfD(5) [OF wf] by simp
  show "\<exists>v. 8 - 2 \<le> v \<and> v < 8 \<and>
          saved (fst (config_add_profile c s)) = remove_nth v (saved c) @ [fresh_profile s]"
    if "length (saved c) = 8"
    using that config_add_spec(1) [OF wf, of s] config_add_spec(2) [OF wf] config_wfD(5) [OF wf]
    by (intro exI [of _ "victim_of c"]) (simp add: victim_of_def)
qed

section \<open>Properties\<close>

lemma c_str_strncpy_zeros: "c_str (strncpy (replicate (Suc n) NUL) s n) = take n (c_str s)"
  using c_str_strncpy_term [of "replicate (Suc n) NUL" n s] strncpy_zeros [of n s] by simp

lemma config_wf_defaults: "config_wf (config_defaults B)"
proof -
  have z: "profile_wf zero_profile"
    by (simp add: profile_wf_def zero_profile_def del: replicate.simps)
  have r: "wg_wf zero_wg" "ap_wf zero_ap"
    by (simp_all add: wg_wf_def zero_wg_def route_wf_def zero_route_def ap_wf_def zero_ap_def list_all_iff)
  let ?p = "\<lparr>ssid = strncpy (ssid zero_profile) (WIFI_SSID B) 32,
             password = strncpy (password zero_profile) (WIFI_PASSWORD B) 63\<rparr>"
  have "profile_wf ?p"
    using c_str_strncpy_zeros [of 32 "WIFI_SSID B"] c_str_strncpy_zeros [of 63 "WIFI_PASSWORD B"]
    by (simp add: profile_wf_def zero_profile_def min_def del: replicate.simps)
  with z r show ?thesis
    by (auto simp: config_defaults_def config_wf_def Let_def list_all_length nth_list_update)
qed

text \<open>Property C9. Saving and loading are inverse: whenever \<^verbatim>\<open>config_save\<close> reports success, a
  later \<^verbatim>\<open>config_load\<close> of the sector returns exactly the configuration that was saved
  (with the magic and CRC fields filled in).\<close>

theorem config_save_then_load:
  assumes "config_wf c" "flash_driver_ok F" "length flash = FLASH_SECTOR_SIZE"
    and "config_save F c flash = (True, c', flash')"
  shows "config_load B flash' = c' \<and> c' = c\<lparr>magic := magic c', crc32_field := crc32_field c'\<rparr>"
  using config_save_effect [OF assms] config_load_sealed [OF assms(1)]
  by (simp add: sealed_def)

definition sample_driver :: flash_driver where
  "sample_driver =
     \<lparr>flash_range_erase = \<lambda>s. replicate FLASH_SECTOR_SIZE 0xFF,
      flash_range_program = \<lambda>s buf. buf @ drop (length buf) s,
      flash_safe_execute = \<lambda>f s. (True, f s)\<rparr>"

definition sample_build :: wifi_build where
  "sample_build = \<lparr>WIFI_SSID = ''home'', WIFI_PASSWORD = ''secretpw'', WIFI_COUNTRY = 0\<rparr>"

lemma sample_driver_ok: "flash_driver_ok sample_driver"
  by (simp add: flash_driver_ok_def sample_driver_def)

lemma sample_save:
  obtains c' flash' where "config_save sample_driver (config_defaults sample_build)
    (replicate FLASH_SECTOR_SIZE 0) = (True, c', flash')"
  by (simp add: config_save_def sample_driver_def Let_def)

theorem config_save_then_load_witness:
  "\<exists>c' flash'. config_save sample_driver (config_defaults sample_build) (replicate FLASH_SECTOR_SIZE 0)
       = (True, c', flash') \<and> config_load sample_build flash' = c'"
proof -
  obtain c' flash' where
    s: "config_save sample_driver (config_defaults sample_build) (replicate FLASH_SECTOR_SIZE 0)
          = (True, c', flash')"
    by (rule sample_save)
  show ?thesis
    using s config_save_then_load [OF config_wf_defaults sample_driver_ok _ s] by auto
qed

lemma le32_corrupt:
  assumes "length bs = 4" "i < 4" "b \<noteq> bs ! i"
  shows "le32_of (bs[i := b]) \<noteq> le32_of bs"
proof -
  have "bs[i := b] \<noteq> bs" using assms by (metis nth_list_update_eq)
  then show ?thesis using le32_bytes_le32_of [of bs] le32_bytes_le32_of [of "bs[i := b]"] assms(1) by (metis length_list_update)
qed

text \<open>Property C36. A saved record with any one of its bytes changed, those of the CRC field itself (the last four of the record's 1160) included, is never
  taken for a valid current record: loading falls back to the defaults, or to the v1.0
  migration if the corrupted bytes happen to verify at the v1.0 offset.\<close>

theorem config_load_detects_corrupt_byte:
  assumes "config_wf c" "flash_driver_ok F" "length flash = FLASH_SECTOR_SIZE"
    and "config_save F c flash = (True, c', flash')"
    and "i < CRC_OFFSET + 4" "b \<noteq> flash' ! i"
  shows "config_load B (flash'[i := b]) \<in> {config_defaults B, config_migrate_v1 B (flash'[i := b])}"
proof -
  let ?body = "body_bytes (sealed c)"
  have l: "length ?body = 1156" using assms(1) by (simp add: length_body_bytes config_wf_sealed)
  have f: "flash' = ?body @ le32_bytes (crc32 ?body) @ replicate 2936 0xFF"
    using config_save_effect(2) [OF assms(1-4)]
    by (simp add: config_bytes_def body_bytes_sealed) (simp add: sealed_def)
  have i: "i < 1160" using assms(5) by simp
  have "crc32 (take 1156 (flash'[i := b])) \<noteq> le32_of (seg (flash'[i := b]) 1156 4)"
  proof (cases "i < 1156")
    case True
    have "take 1156 (flash'[i := b]) = ?body[i := b]" using True l by (simp add: f list_update_append)
    moreover have "seg (flash'[i := b]) 1156 4 = le32_bytes (crc32 ?body)" using True l by (simp add: f list_update_append)
    moreover have "crc32 (?body[i := b]) \<noteq> crc32 ?body"
      using True assms(6) l by (intro crc32_single_byte) (simp_all add: f nth_append)
    ultimately show ?thesis by simp
  next
    case False
    then have k: "i - 1156 < 4" using i by simp
    have "take 1156 (flash'[i := b]) = ?body" using False l by (simp add: f list_update_append)
    moreover have "seg (flash'[i := b]) 1156 4 = (le32_bytes (crc32 ?body))[i - 1156 := b]"
      using False k l by (simp add: f list_update_append)
    moreover have "b \<noteq> le32_bytes (crc32 ?body) ! (i - 1156)" using False k assms(6) l by (simp add: f nth_append)
    then have "le32_of ((le32_bytes (crc32 ?body))[i - 1156 := b]) \<noteq> crc32 ?body"
      using k le32_corrupt [of "le32_bytes (crc32 ?body)" "i - 1156" b] by simp
    ultimately show ?thesis by simp
  qed
  then show ?thesis by (simp add: config_load_def)
qed

theorem config_load_detects_corrupt_byte_witness:
  "\<exists>c' flash' b. config_save sample_driver (config_defaults sample_build) (replicate FLASH_SECTOR_SIZE 0)
       = (True, c', flash') \<and> b \<noteq> flash' ! 40 \<and>
     config_load sample_build (flash'[40 := b])
       \<in> {config_defaults sample_build, config_migrate_v1 sample_build (flash'[40 := b])}"
proof -
  obtain c' flash' where
    s: "config_save sample_driver (config_defaults sample_build) (replicate FLASH_SECTOR_SIZE 0)
          = (True, c', flash')"
    by (rule sample_save)
  have n: "flash' ! 40 + 1 \<noteq> flash' ! 40" by simp
  have "config_load sample_build (flash'[40 := flash' ! 40 + 1])
      \<in> {config_defaults sample_build, config_migrate_v1 sample_build (flash'[40 := flash' ! 40 + 1])}"
    by (rule config_load_detects_corrupt_byte [OF config_wf_defaults sample_driver_ok _ s _ n]) simp_all
  with s n show ?thesis by blast
qed

text \<open>A list of two profiles for the examples below.\<close>

definition sample_config :: config where
  "sample_config = fst (config_add_profile (config_defaults sample_build) ''cafe'')"

lemma sample_config_wf: "config_wf sample_config"
  unfolding sample_config_def by (rule config_add_spec(3)) (rule config_wf_defaults)

lemma sample_config_fields: "profile_count sample_config = 2" "active sample_config = 0"
proof -
  have "c_str ''home'' \<noteq> []" by (simp add: c_str_def)
  then have "profile_count (config_defaults sample_build) = 1" "active (config_defaults sample_build) = 0"
    by (simp_all add: config_defaults_def sample_build_def Let_def)
  then show "profile_count sample_config = 2" "active sample_config = 0"
    by (simp_all add: sample_config_def config_add_profile_def Let_def)
qed

text \<open>Recording a use: the profile moves to the front, the others keep their
  order, the profile \<open>active\<close> designates is the same profile as before, and the invariant holds.\<close>

theorem config_touch_profile_mru:
  assumes "config_wf c" "i < profile_count c"
    and "config_touch_profile c (int i) = (c', r)"
  shows "r = 0 \<and> config_wf c' \<and> saved c' = saved c ! i # take i (saved c) @ drop (Suc i) (saved c) \<and>
         active_profile c' = active_profile c"
proof -
  have "c' = fst (config_touch_profile c (int i))" "r = snd (config_touch_profile c (int i))"
    using assms(3) by simp_all
  moreover have "snd (config_touch_profile c (int i)) = 0"
    using assms(2) by (simp add: config_touch_profile_def Let_def)
  ultimately show ?thesis
    using saved_touch [OF assms(1,2)] active_touch [OF assms(1,2)] config_wf_touch [OF assms(1)]
    by (simp add: remove_nth_def)
qed

theorem config_touch_profile_mru_witness:
  "\<exists>c' r. config_touch_profile sample_config 1 = (c', r) \<and>
     saved c' = [saved sample_config ! 1, saved sample_config ! 0] \<and>
     active_profile c' = active_profile sample_config"
proof -
  obtain c' r where s: "config_touch_profile sample_config (int 1) = (c', r)" by fastforce
  have "length (saved sample_config) = 2"
    using config_wfD(5) [OF sample_config_wf] by (simp add: sample_config_fields)
  then obtain p q where "saved sample_config = [p, q]"
    by (auto simp: length_Suc_conv numeral_2_eq_2)
  with s config_touch_profile_mru [OF sample_config_wf _ s] show ?thesis
    by (simp add: sample_config_fields)
qed

text \<open>Adding a network never fails; the new profile is last, with no password and
  the SSID cut to 32 characters; a full list loses exactly its last profile, or the one
  before it when the last is the active one; the active profile is never evicted.\<close>

theorem config_add_profile_evicts_lru:
  assumes "config_wf c" and "config_add_profile c s = (c', r)"
  shows "config_wf c' \<and> active_profile c' = active_profile c \<and>
         (\<exists>kept p. saved c' = kept @ [p] \<and> r = int (length kept) \<and>
            c_str (ssid p) = take 32 (c_str s) \<and> c_str (password p) = '''' \<and>
            kept = (if profile_count c < CONFIG_PROFILE_MAX then saved c
                    else if active c = 7 then take 6 (saved c) @ [saved c ! 7]
                    else take 7 (saved c)))"
proof -
  have e: "c' = fst (config_add_profile c s)" "r = snd (config_add_profile c s)"
    using assms(2) by simp_all
  have "remove_nth (victim_of c) (saved c)
          = (if active c = 7 then take 6 (saved c) @ [saved c ! 7] else take 7 (saved c))"
    if "\<not> profile_count c < 8"
  proof -
    have l: "length (saved c) = 8" using that config_wfD(2,5) [OF assms(1)] by simp
    then have "drop 7 (saved c) = [saved c ! 7]"
      by (simp add: Cons_nth_drop_Suc [symmetric])
    with l show ?thesis by (simp add: victim_of_def remove_nth_def)
  qed
  moreover have "c_str (password (fresh_profile s)) = ''''"
    by (simp add: fresh_profile_def zero_profile_def del: replicate.simps)
  ultimately show ?thesis
    using config_add_spec(1,3,4,5) [OF assms(1), of s] config_add_spec(2) [OF assms(1)]
      c_str_fresh_ssid [of s]
    unfolding e by (auto split: if_splits)
qed

theorem config_add_profile_evicts_lru_witness:
  "\<exists>c' r p. config_add_profile sample_config ''lab'' = (c', r) \<and> r = 2 \<and>
     saved c' = saved sample_config @ [p] \<and> c_str (ssid p) = ''lab''"
proof -
  obtain c' r where s: "config_add_profile sample_config ''lab'' = (c', r)" by fastforce
  have "length (saved sample_config) = 2"
    using config_wfD(5) [OF sample_config_wf] by (simp add: sample_config_fields)
  with s config_add_profile_evicts_lru [OF sample_config_wf s] show ?thesis
    by (auto simp: sample_config_fields c_str_def)
qed

text \<open>Deleting a profile removes exactly that profile; unless it was the active one,
  the active profile stays the same profile.\<close>

theorem config_del_profile_correct:
  assumes "config_wf c" "i < profile_count c"
  shows "config_wf (config_del_profile c (int i)) \<and>
         saved (config_del_profile c (int i)) = take i (saved c) @ drop (Suc i) (saved c) \<and>
         (active c \<noteq> i \<longrightarrow> active_profile (config_del_profile c (int i)) = active_profile c)"
  using config_wf_del [OF assms(1)] saved_del [OF assms] active_del [OF assms]
  by (simp add: remove_nth_def)

theorem config_del_profile_correct_witness:
  "saved (config_del_profile sample_config 1) = [saved sample_config ! 0] \<and>
   active_profile (config_del_profile sample_config 1) = active_profile sample_config"
proof -
  have "length (saved sample_config) = 2"
    using config_wfD(5) [OF sample_config_wf] by (simp add: sample_config_fields)
  then obtain p q where "saved sample_config = [p, q]"
    by (auto simp: length_Suc_conv numeral_2_eq_2)
  with config_del_profile_correct [OF sample_config_wf, of 1] show ?thesis
    by (simp add: sample_config_fields)
qed

text \<open>A network just used survives any sequence of further uses and additions with
  at most five uses of other networks in it: its credentials are still in the list.\<close>

theorem recently_used_survives:
  assumes "config_wf c" "p \<in> set (saved c)" "hd (saved c) = p"
    and "length (filter (\<lambda>u. case u of Touch _ \<Rightarrow> True | Add _ \<Rightarrow> False) us) \<le> 5"
  shows "p \<in> set (saved (foldl (\<lambda>c u. case u of Touch i \<Rightarrow> fst (config_touch_profile c (int i))
                                       | Add s \<Rightarrow> fst (config_add_profile c s)) c us))"
proof -
  have u: "(\<lambda>c u. case u of Touch i \<Rightarrow> fst (config_touch_profile c (int i))
                 | Add s \<Rightarrow> fst (config_add_profile c s)) = profile_store.use"
    by (intro ext) (simp split: list_use.splits)
  have "profile_store.within c p 0"
    using assms(2,3) unfolding profile_store.within_def by (cases "saved c") auto
  then have "profile_store.within (profile_store.uses c us) p
      (0 + length (filter (\<lambda>u. case u of Touch _ \<Rightarrow> True | Add _ \<Rightarrow> False) us))"
    using assms(1,4) by (intro profile_store.uses_within) auto
  then show ?thesis
    unfolding profile_store.within_def profile_store.uses_def u by auto
qed

theorem recently_used_survives_witness:
  "saved sample_config ! 0 \<in>
     set (saved (foldl (\<lambda>c u. case u of Touch i \<Rightarrow> fst (config_touch_profile c (int i))
                                  | Add s \<Rightarrow> fst (config_add_profile c s))
                  sample_config [Touch 1, Add ''a'', Add ''b'', Touch 2]))"
proof -
  have "length (saved sample_config) = 2"
    using config_wfD(5) [OF sample_config_wf] by (simp add: sample_config_fields)
  then have "saved sample_config \<noteq> []" by auto
  then show ?thesis
    by (intro recently_used_survives sample_config_wf) (simp_all add: hd_conv_nth)
qed

end
