(* ===== verification/Wifi_Pick.thy ===== *)
theory Wifi_Pick
  imports Prelude "HOL-Library.Multiset"
begin

text \<open>
  The candidate ordering of the Wi-Fi connection manager (\<^verbatim>\<open>src/wifi_pick.c\<close>,
  \<^verbatim>\<open>src/wifi_pick.h\<close>): an insertion sort over two parallel arrays, followed by one blind
  slot that rotates over the profiles the scan did not see. The array code is shown equal
  to a reference definition (the library's stable sort), and the rotation is shown fair.
  RSSI values are \<^verbatim>\<open>int16_t\<close> and scores \<^verbatim>\<open>int32_t\<close>; a score is an RSSI plus ten, so the
  integers here never leave those ranges.
\<close>

datatype wifi_prof_status = WIFI_PROF_UNTRIED | WIFI_PROF_CONNECTED | WIFI_PROF_NOJOIN | WIFI_PROF_BADPASS

definition WIFI_RSSI_UNSEEN :: int where "WIFI_RSSI_UNSEEN = -32768"
definition WIFI_PICK_ACTIVE_BONUS_DB :: int where "WIFI_PICK_ACTIVE_BONUS_DB = 10"

record wifi_prof_state =
  rssi :: int
  status :: wifi_prof_status

definition pick_score :: "wifi_prof_state list \<Rightarrow> nat \<Rightarrow> nat \<Rightarrow> int" where
  "pick_score st active i = rssi (st ! i) + (if i = active then WIFI_PICK_ACTIVE_BONUS_DB else 0)"

definition pick_seen :: "wifi_prof_state list \<Rightarrow> nat \<Rightarrow> bool" where
  "pick_seen st i \<longleftrightarrow> \<not> (rssi (st ! i) = WIFI_RSSI_UNSEEN \<or> status (st ! i) = WIFI_PROF_BADPASS)"

definition pick_unseen :: "wifi_prof_state list \<Rightarrow> nat \<Rightarrow> bool" where
  "pick_unseen st i \<longleftrightarrow> rssi (st ! i) = WIFI_RSSI_UNSEEN \<and> status (st ! i) \<noteq> WIFI_PROF_BADPASS"

text \<open>The inner \<^verbatim>\<open>while\<close>: shift entries with a smaller score up by one; stops at the
  position for the new entry.\<close>

fun pick_shift :: "nat \<Rightarrow> int \<Rightarrow> nat list \<Rightarrow> int list \<Rightarrow> nat \<times> nat list \<times> int list" where
  "pick_shift 0 s out score = (0, out, score)"
| "pick_shift (Suc j) s out score =
     (if score ! j < s
      then pick_shift j s (out[Suc j := out ! j]) (score[Suc j := score ! j])
      else (Suc j, out, score))"

definition pick_insert ::
  "wifi_prof_state list \<Rightarrow> nat \<Rightarrow> nat \<Rightarrow> nat \<times> nat list \<times> int list \<Rightarrow> nat \<times> nat list \<times> int list" where
  "pick_insert st active i acc =
     (case acc of (n, out, score) \<Rightarrow>
        if rssi (st ! i) = WIFI_RSSI_UNSEEN \<or> status (st ! i) = WIFI_PROF_BADPASS then acc
        else let s = pick_score st active i;
                 (j, out, score) = pick_shift n s out score
             in (n + 1, out[j := i], score[j := s]))"

text \<open>The second loop: the first unseen profile at or after \<open>rr\<close>, cyclically.\<close>

fun pick_blind :: "wifi_prof_state list \<Rightarrow> nat \<Rightarrow> nat \<Rightarrow> nat list \<Rightarrow> nat option" where
  "pick_blind st rr cnt [] = None"
| "pick_blind st rr cnt (k # ks) =
     (let i = (rr + k) mod cnt
      in if rssi (st ! i) = WIFI_RSSI_UNSEEN \<and> status (st ! i) \<noteq> WIFI_PROF_BADPASS
         then Some i else pick_blind st rr cnt ks)"

text \<open>Returns the candidate list: \<open>take n out\<close> at the return.\<close>

definition wifi_pick_order :: "wifi_prof_state list \<Rightarrow> nat \<Rightarrow> nat \<Rightarrow> nat \<Rightarrow> nat list" where
  "wifi_pick_order st cnt0 active rr_unseen =
     (let cnt = (if cnt0 > 8 then 8 else cnt0);
          (n, out, score) = fold (pick_insert st active) [0..<cnt] (0, replicate 8 0, replicate 8 0)
      in case pick_blind st rr_unseen cnt [0..<cnt] of
           Some i \<Rightarrow> take (n + 1) (out[n := i])
         | None \<Rightarrow> take n out)"

section \<open>The insertion step on lists\<close>

definition keep_ge :: "int \<Rightarrow> int list \<Rightarrow> nat" where
  "keep_ge s score = length (dropWhile (\<lambda>x. x < s) (rev score))"

lemma keep_ge_le: "keep_ge s score \<le> length score"
  unfolding keep_ge_def using length_dropWhile_le [of "\<lambda>x. x < s" "rev score"] by simp

lemma keep_ge_snoc: "keep_ge s (score @ [x]) = (if x < s then keep_ge s score else Suc (length score))"
  by (simp add: keep_ge_def)

lemma keep_ge_suffix: "k < length score \<Longrightarrow> keep_ge s score \<le> k \<Longrightarrow> score ! k < s"
proof (induction score rule: rev_induct)
  case (snoc x xs)
  then show ?case by (cases "k = length xs") (auto simp: keep_ge_snoc nth_append split: if_splits)
qed simp

lemma keep_ge_last: "0 < keep_ge s score \<Longrightarrow> s \<le> score ! (keep_ge s score - 1)"
proof (induction score rule: rev_induct)
  case (snoc x xs)
  then show ?case using keep_ge_le [of s xs] by (auto simp: keep_ge_snoc nth_append split: if_splits)
qed (simp add: keep_ge_def)

lemma pick_shift_spec:
  assumes "n < length out" "length out = length score"
  shows "\<exists>out' score'. pick_shift n s out score = (keep_ge s (take n score), out', score') \<and>
           length out' = length out \<and> length score' = length score \<and>
           (\<forall>k < length out. out' ! k = (if keep_ge s (take n score) < k \<and> k \<le> n then out ! (k - 1) else out ! k)) \<and>
           (\<forall>k < length out. score' ! k = (if keep_ge s (take n score) < k \<and> k \<le> n then score ! (k - 1) else score ! k))"
  using assms
proof (induction n arbitrary: out score)
  case 0
  then show ?case by (simp add: keep_ge_def)
next
  case (Suc n)
  have t: "take (Suc n) score = take n score @ [score ! n]"
    using Suc.prems by (simp add: take_Suc_conv_app_nth)
  show ?case
  proof (cases "score ! n < s")
    case False
    then have "keep_ge s (take (Suc n) score) = Suc n"
      unfolding t using Suc.prems by (simp add: keep_ge_snoc)
    then show ?thesis using False Suc.prems by auto
  next
    case True
    let ?o = "out[Suc n := out ! n]" and ?s = "score[Suc n := score ! n]"
    let ?j = "keep_ge s (take n score)"
    have j: "keep_ge s (take (Suc n) score) = ?j"
      unfolding t using True by (simp add: keep_ge_snoc)
    have jn: "?j \<le> n" using keep_ge_le [of s "take n score"] Suc.prems by simp
    obtain out' score' where r: "pick_shift n s ?o ?s = (?j, out', score')"
      "length out' = length out" "length score' = length score"
      "\<forall>k < length out. out' ! k = (if ?j < k \<and> k \<le> n then ?o ! (k - 1) else ?o ! k)"
      "\<forall>k < length out. score' ! k = (if ?j < k \<and> k \<le> n then ?s ! (k - 1) else ?s ! k)"
      using Suc.IH [of ?o ?s] Suc.prems by auto
    have "out' ! k = (if ?j < k \<and> k \<le> Suc n then out ! (k - 1) else out ! k)"
      and "score' ! k = (if ?j < k \<and> k \<le> Suc n then score ! (k - 1) else score ! k)"
      if "k < length out" for k
      using that r(4,5) jn Suc.prems by (auto simp: nth_list_update le_Suc_eq)
    with r j True show ?thesis by (intro exI [of _ out'] exI [of _ score']) simp
  qed
qed

definition ins_at :: "nat \<Rightarrow> 'a \<Rightarrow> 'a list \<Rightarrow> 'a list" where
  "ins_at j x xs = take j xs @ x # drop j xs"

lemma shifted_take:
  assumes "length out' = length out" "n < length out" "j \<le> n"
    and "\<forall>k < length out. out' ! k = (if j < k \<and> k \<le> n then out ! (k - 1) else out ! k)"
  shows "take (Suc n) (out'[j := x]) = ins_at j x (take n out)"
proof (rule nth_equalityI)
  show "length (take (Suc n) (out'[j := x])) = length (ins_at j x (take n out))"
    using assms by (simp add: ins_at_def)
next
  fix k assume "k < length (take (Suc n) (out'[j := x]))"
  then have "k \<le> n" "k < length out" using assms(1,2) by auto
  then show "take (Suc n) (out'[j := x]) ! k = ins_at j x (take n out) ! k"
    using assms by (auto simp: ins_at_def nth_append nth_list_update nth_Cons' min_def)
qed

text \<open>One step of the first loop, on the valid prefixes of the two arrays.\<close>

definition prefixes :: "nat \<times> nat list \<times> int list \<Rightarrow> nat list \<times> int list" where
  "prefixes acc = (case acc of (n, out, score) \<Rightarrow> (take n out, take n score))"

lemma pick_insert_prefixes:
  fixes active :: nat
  assumes "n < 8" "length out = 8" "length score = 8" "pick_seen st i"
  defines "s \<equiv> pick_score st active i"
  defines "j \<equiv> keep_ge s (take n score)"
  shows "\<exists>out' score'. pick_insert st active i (n, out, score) = (Suc n, out', score') \<and>
           length out' = 8 \<and> length score' = 8 \<and>
           take (Suc n) out' = ins_at j i (take n out) \<and>
           take (Suc n) score' = ins_at j s (take n score)"
proof -
  obtain out' score' where r: "pick_shift n s out score = (j, out', score')"
    "length out' = length out" "length score' = length score"
    "\<forall>k < length out. out' ! k = (if j < k \<and> k \<le> n then out ! (k - 1) else out ! k)"
    "\<forall>k < length out. score' ! k = (if j < k \<and> k \<le> n then score ! (k - 1) else score ! k)"
    using pick_shift_spec [of n out score s] assms(1-3) by (auto simp: j_def)
  have jn: "j \<le> n" using keep_ge_le [of s "take n score"] assms(1-3) by (simp add: j_def)
  have "pick_insert st active i (n, out, score) = (Suc n, out'[j := i], score'[j := s])"
    using assms(4) r(1) by (simp add: pick_insert_def pick_seen_def s_def)
  moreover have "take (Suc n) (out'[j := i]) = ins_at j i (take n out)"
    using r jn assms(1-3) by (intro shifted_take) auto
  moreover have "take (Suc n) (score'[j := s]) = ins_at j s (take n score)"
    using r jn assms(1-3) by (intro shifted_take) auto
  ultimately show ?thesis using r assms by auto
qed

section \<open>The first loop is the library's stable sort\<close>

lemma map_ins_at: "map f (ins_at j x xs) = ins_at j (f x) (map f xs)"
  by (simp add: ins_at_def take_map drop_map)

lemma sort_key_snoc:
  fixes f :: "'a \<Rightarrow> int"
  defines "key \<equiv> (\<lambda>x. - f x)"
  shows "sort_key key (xs @ [x]) =
     ins_at (keep_ge (f x) (map f (sort_key key xs))) x (sort_key key xs)"
proof -
  let ?ys = "sort_key key xs" let ?j = "keep_ge (f x) (map f ?ys)"
  have jl: "?j \<le> length ?ys" using keep_ge_le [of "f x" "map f ?ys"] by simp
  have srt: "sorted (map key ?ys)" by simp
  have lo: "f x \<le> f y" if "y \<in> set (take ?j ?ys)" for y
  proof -
    from that obtain k where k: "k < ?j" "y = ?ys ! k" using jl by (auto simp: in_set_conv_nth)
    have "f x \<le> f (?ys ! (?j - 1))" using keep_ge_last [of "f x" "map f ?ys"] k jl by simp
    also have "\<dots> \<le> f (?ys ! k)"
      using sorted_nth_mono [OF srt, of k "?j - 1"] k jl by (simp add: key_def)
    finally show ?thesis using k by simp
  qed
  have hi: "f y < f x" if "y \<in> set (drop ?j ?ys)" for y
  proof -
    from that obtain k where "?j \<le> k" "k < length ?ys" "y = ?ys ! k"
      by (auto simp: in_set_conv_nth) (metis add.commute le_add2 less_diff_conv)
    then show ?thesis using keep_ge_suffix [of k "map f ?ys" "f x"] by simp
  qed
  show ?thesis
  proof (rule properties_for_sort_key)
    show "mset (ins_at ?j x ?ys) = mset (xs @ [x])"
      by (simp add: ins_at_def) (metis append_take_drop_id mset_append mset_sort)
    show "sorted (map key (ins_at ?j x ?ys))"
    proof -
      define A B where "A = take ?j ?ys" and "B = drop ?j ?ys"
      have "sorted (map key (A @ B))" using srt by (simp add: A_def B_def)
      moreover have "\<forall>a \<in> set A. key a \<le> key x" "\<forall>b \<in> set B. key x \<le> key b"
        using lo hi by (auto simp: A_def B_def key_def intro: less_imp_le)
      ultimately have "sorted (map key (A @ x # B))" by (auto simp: sorted_append)
      then show ?thesis by (simp add: ins_at_def A_def B_def)
    qed
    fix k assume "k \<in> set (ins_at ?j x ?ys)"
    have st: "filter (\<lambda>y. key k = key y) ?ys = filter (\<lambda>y. key k = key y) xs"
      using sort_key_stable [of key "key k" xs] by (simp add: eq_commute)
    show "filter (\<lambda>y. key k = key y) (ins_at ?j x ?ys) = filter (\<lambda>y. key k = key y) (xs @ [x])"
    proof (cases "key k = key x")
      case True
      then have "key k \<noteq> key y" if "y \<in> set (drop ?j ?ys)" for y
        using hi [OF that] by (simp add: key_def)
      then have "filter (\<lambda>y. key k = key y) (drop ?j ?ys) = []"
        unfolding filter_empty_conv by blast
      then have "filter (\<lambda>y. key k = key y) (take ?j ?ys) = filter (\<lambda>y. key k = key y) ?ys"
        by (metis append_Nil2 append_take_drop_id filter_append)
      then show ?thesis
        using True st \<open>filter (\<lambda>y. key k = key y) (drop ?j ?ys) = []\<close> by (simp add: ins_at_def)
    next
      case False
      then have "filter (\<lambda>y. key k = key y) (ins_at ?j x ?ys) = filter (\<lambda>y. key k = key y) ?ys"
        by (simp add: ins_at_def) (metis append_take_drop_id filter_append)
      then show ?thesis using False st by simp
    qed
  qed
qed

definition pick_reference :: "wifi_prof_state list \<Rightarrow> nat \<Rightarrow> nat \<Rightarrow> nat list" where
  "pick_reference st active m =
     sort_key (\<lambda>i. - pick_score st active i) (filter (pick_seen st) [0..<m])"

lemma length_pick_reference: "length (pick_reference st active m) \<le> m"
  unfolding pick_reference_def using length_filter_le [of "pick_seen st" "[0..<m]"] by simp

lemma first_loop:
  assumes "m \<le> 8"
  shows "\<exists>out score. fold (pick_insert st active) [0..<m] (0, replicate 8 0, replicate 8 0)
           = (length (pick_reference st active m), out, score) \<and> length out = 8 \<and> length score = 8 \<and>
           take (length (pick_reference st active m)) out = pick_reference st active m \<and>
           take (length (pick_reference st active m)) score
             = map (pick_score st active) (pick_reference st active m)"
  using assms
proof (induction m)
  case 0
  then show ?case by (simp add: pick_reference_def del: replicate.simps)
next
  case (Suc m)
  let ?r = "pick_reference st active m"
  obtain out score where ih:
    "fold (pick_insert st active) [0..<m] (0, replicate 8 0, replicate 8 0) = (length ?r, out, score)"
    "length out = 8" "length score = 8" "take (length ?r) out = ?r"
    "take (length ?r) score = map (pick_score st active) ?r"
    using Suc by auto
  have f: "fold (pick_insert st active) [0..<Suc m] (0, replicate 8 0, replicate 8 0)
             = pick_insert st active m (length ?r, out, score)"
    using ih(1) by simp
  show ?case
  proof (cases "pick_seen st m")
    case False
    then have "pick_reference st active (Suc m) = ?r" by (simp add: pick_reference_def)
    moreover have "pick_insert st active m acc = acc" for acc
      using False by (auto simp: pick_insert_def pick_seen_def split: prod.splits)
    ultimately show ?thesis using ih f by simp
  next
    case True
    let ?s = "pick_score st active m"
    let ?j = "keep_ge ?s (map (pick_score st active) ?r)"
    have n: "length ?r < 8" using length_pick_reference [of st active m] Suc.prems by simp
    have r: "pick_reference st active (Suc m) = ins_at ?j m ?r"
      using True sort_key_snoc [of "pick_score st active" "filter (pick_seen st) [0..<m]" m]
      by (simp add: pick_reference_def)
    have l: "length (pick_reference st active (Suc m)) = Suc (length ?r)"
      unfolding r ins_at_def using keep_ge_le [of ?s "map (pick_score st active) ?r"] by simp
    show ?thesis
      using pick_insert_prefixes [OF n ih(2,3) True, of active] ih f
      by (auto simp: l r [symmetric] map_ins_at) (simp_all add: r map_ins_at)
  qed
qed

lemma pick_blind_find:
  "pick_blind st rr m ks = find (\<lambda>i. pick_unseen st i) (map (\<lambda>k. (rr + k) mod m) ks)"
  by (induction ks) (auto simp: pick_unseen_def Let_def)

lemma pick_blind_not_seen: "pick_blind st rr m ks = Some i \<Longrightarrow> pick_unseen st i"
  by (auto simp: pick_blind_find find_Some_iff)

lemma pick_reference_less_8:
  assumes "m \<le> 8" "pick_blind st rr m [0..<m] = Some i"
  shows "length (pick_reference st active m) < 8"
proof -
  have u: "pick_unseen st i" using assms(2) by (rule pick_blind_not_seen)
  from assms(2) have "\<exists>k < m. i = (rr + k) mod m"
    by (auto simp: pick_blind_find find_Some_iff)
  then have "i < m" by (auto intro: mod_less_divisor)
  moreover have "\<not> pick_seen st i" using u by (simp add: pick_seen_def pick_unseen_def)
  ultimately have "length (filter (pick_seen st) [0..<m]) < length [0..<m]"
    by (intro length_filter_less [of i]) auto
  with assms(1) show ?thesis by (simp add: pick_reference_def)
qed

lemma wifi_pick_order_eq:
  "wifi_pick_order st cnt active rr =
     (let m = min cnt 8 in
      sort_key (\<lambda>i. - pick_score st active i) (filter (pick_seen st) [0..<m]) @
      (case find (pick_unseen st) (map (\<lambda>k. (rr + k) mod m) [0..<m]) of Some i \<Rightarrow> [i] | None \<Rightarrow> []))"
proof -
  define m where "m = min cnt 8"
  have m: "(if cnt > 8 then 8 else cnt) = m" "m \<le> 8" by (auto simp: m_def)
  let ?r = "pick_reference st active m"
  obtain out score where l:
    "fold (pick_insert st active) [0..<m] (0, replicate 8 0, replicate 8 0) = (length ?r, out, score)"
    "length out = 8" "take (length ?r) out = ?r"
    using first_loop [OF m(2), of st active] by auto
  have o: "wifi_pick_order st cnt active rr =
      (case pick_blind st rr m [0..<m] of Some i \<Rightarrow> take (length ?r + 1) (out[length ?r := i])
       | None \<Rightarrow> take (length ?r) out)"
    unfolding wifi_pick_order_def Let_def m(1) l(1) by simp
  have "take (length ?r + 1) (out[length ?r := i]) = ?r @ [i]"
    if "pick_blind st rr m [0..<m] = Some i" for i
    using pick_reference_less_8 [OF m(2) that, of active] l(2,3) by (simp add: take_Suc_conv_app_nth)
  then have "wifi_pick_order st cnt active rr =
      ?r @ (case pick_blind st rr m [0..<m] of Some i \<Rightarrow> [i] | None \<Rightarrow> [])"
    unfolding o using l(3) by (simp split: option.splits)
  then show ?thesis
    unfolding m_def [symmetric] Let_def pick_reference_def pick_blind_find .
qed

text \<open>The candidates are distinct indices below the profile count, at most eight of them.\<close>

lemma wifi_pick_order_distinct: "distinct (wifi_pick_order st cnt active rr)"
  and wifi_pick_order_bound: "i \<in> set (wifi_pick_order st cnt active rr) \<Longrightarrow> i < min cnt 8"
proof -
  have b: "i < min cnt 8 \<and> pick_unseen st i"
    if f: "find (pick_unseen st) (map (\<lambda>k. (rr + k) mod min cnt 8) [0..<min cnt 8]) = Some i" for i
  proof -
    define m where "m = min cnt 8"
    have "i < m \<and> pick_unseen st i"
      using f unfolding m_def [symmetric] by (auto simp: find_Some_iff intro!: mod_less_divisor)
    then show ?thesis by (simp add: m_def)
  qed
  show "distinct (wifi_pick_order st cnt active rr)"
    using b by (auto simp: wifi_pick_order_eq Let_def pick_seen_def pick_unseen_def
        simp del: min_less_iff_conj split: option.splits)
  show "i < min cnt 8" if "i \<in> set (wifi_pick_order st cnt active rr)"
    using that b by (auto simp: wifi_pick_order_eq Let_def simp del: min_less_iff_conj
        split: option.splits)
qed

lemma wifi_pick_order_length: "length (wifi_pick_order st cnt active rr) \<le> 8"
proof -
  have "set (wifi_pick_order st cnt active rr) \<subseteq> {..<min cnt 8}"
    using wifi_pick_order_bound by blast
  then have "card (set (wifi_pick_order st cnt active rr)) \<le> min cnt 8"
    by (metis card_lessThan card_mono finite_lessThan)
  then show ?thesis
    using distinct_card [OF wifi_pick_order_distinct, of st cnt active rr] by linarith
qed

lemma wifi_pick_order_no_badpass:
  "i \<in> set (wifi_pick_order st cnt active rr) \<Longrightarrow> status (st ! i) \<noteq> WIFI_PROF_BADPASS"
  by (auto simp: wifi_pick_order_eq Let_def pick_seen_def pick_unseen_def find_Some_iff find_Some_iff2
      split: option.splits)

section \<open>Properties\<close>

text \<open>Property C37. The array code computes the documented order: the profiles seen in the scan
  and not marked as having a bad password, strongest first (the active one favoured by
  10 dB, ties in list order), then at most one profile that was not seen, the first at or
  after the rotation counter.\<close>

theorem wifi_pick_order_reference:
  "wifi_pick_order st cnt active rr =
     (let m = min cnt 8 in
      sort_key (\<lambda>i. - pick_score st active i) (filter (pick_seen st) [0..<m]) @
      (case find (pick_unseen st) (map (\<lambda>k. (rr + k) mod m) [0..<m]) of Some i \<Rightarrow> [i] | None \<Rightarrow> []))"
  by (rule wifi_pick_order_eq)

lemma find_first_rotation:
  assumes "i < m" "pick_unseen st i" "rr mod m = i"
  shows "find (pick_unseen st) (map (\<lambda>k. (rr + k) mod m) [0..<m]) = Some i"
proof -
  have "[0..<m] = 0 # [1..<m]" using assms(1) by (simp add: upt_conv_Cons)
  then show ?thesis using assms(2,3) by simp
qed

lemma residue_in_window: "0 < (m::nat) \<Longrightarrow> i < m \<Longrightarrow> \<exists>k < m. (r + k) mod m = i"
proof -
  assume m: "0 < m" "i < m"
  have "(r + (m - r mod m + i)) mod m = (r mod m + (m - r mod m + i)) mod m" by (simp add: mod_add_left_eq)
  also have "r mod m + (m - r mod m + i) = m + i" using mod_less_divisor [OF m(1), of r] by simp
  finally have "(r + (m - r mod m + i) mod m) mod m = i" using m(2) by (simp add: mod_add_right_eq)
  then show ?thesis using mod_less_divisor [OF m(1)] by blast
qed

text \<open>Fairness of the blind slot: the rotation counter is an 8-bit counter bumped
  once per cycle, and within \<open>2 * count\<close> consecutive cycles (even across its wrap-around)
  every profile the scan does not see, a hidden network, is a candidate at least once.\<close>

theorem wifi_pick_unseen_fair:
  assumes "m \<le> 8" "i < m" "pick_unseen st i"
  shows "\<exists>k < 2 * m. i \<in> set (wifi_pick_order st m active (unat (rr + word_of_nat k :: u8)))"
proof -
  have pick: "i \<in> set (wifi_pick_order st m active r)" if "r mod m = i" for r
    using assms(1) find_first_rotation [OF assms(2,3) that]
    by (simp add: wifi_pick_order_eq min_def)
  obtain k where k: "k < m" "(unat rr + k) mod m = i"
    using residue_in_window [of m i "unat rr"] assms(2) by auto
  show ?thesis
  proof (cases "unat rr + k < 256")
    case True
    then have "unat (rr + word_of_nat k) = unat rr + k"
      using k(1) assms(1) by (simp add: unat_word_ariths unat_of_nat)
    with k pick show ?thesis by (intro exI [of _ k]) simp
  next
    case False
    let ?k = "256 - unat rr + i"
    have "unat (rr + word_of_nat ?k) = i"
      using assms(1,2) False k(1) unat_u8_less [of rr]
      by (simp add: unat_word_ariths unat_of_nat mod_simps del: unat_u8_less)
    moreover have "?k < 2 * m" using False k(1) assms(2) by linarith
    ultimately show ?thesis using pick [of i] assms(2) by (intro exI [of _ ?k]) simp
  qed
qed

theorem wifi_pick_unseen_fair_witness:
  "\<exists>k < 4. 1 \<in> set (wifi_pick_order
      [\<lparr>rssi = -40, status = WIFI_PROF_UNTRIED\<rparr>, \<lparr>rssi = WIFI_RSSI_UNSEEN, status = WIFI_PROF_NOJOIN\<rparr>]
      2 0 (unat (255 + word_of_nat k :: u8)))"
  using wifi_pick_unseen_fair [of 2 1 "[\<lparr>rssi = -40, status = WIFI_PROF_UNTRIED\<rparr>,
      \<lparr>rssi = WIFI_RSSI_UNSEEN, status = WIFI_PROF_NOJOIN\<rparr>]" 0 255]
  by (simp add: pick_unseen_def)

end
