(* ===== verification/Wifi_Scan.thy ===== *)
theory Wifi_Scan
  imports Prelude
begin

text \<open>
  The scan-result table of \<^verbatim>\<open>src/wifi_scan.c\<close>: results arrive through a callback, are
  collapsed per SSID to the strongest signal, and at most 24 are kept. The radio driver is
  not part of the repository; what the module asks of it (\<^verbatim>\<open>cyw43_wifi_scan\<close> accepted,
  \<^verbatim>\<open>cyw43_wifi_scan_active\<close>, the station link) enters as arguments. A result's SSID is
  the driver's memory from the SSID field on, 33 bytes of it, since the callback may
  compare one byte past the 32 of the field.

  The list \<open>results\<close> is the valid prefix of the C array; its length is \<open>result_count\<close>.
\<close>

abbreviation WIFI_SCAN_MAX :: nat where "WIFI_SCAN_MAX \<equiv> 24"

record scan_result =
  sr_ssid_len :: nat
  sr_ssid :: string
  sr_rssi :: int
  sr_channel :: u16
  sr_bssid :: bytes
  sr_auth_mode :: u8

record wifi_scan_entry =
  e_ssid :: string
  e_rssi :: int
  e_channel :: u16
  e_bssid :: bytes
  e_auth :: u8

record wifi_scan =
  results :: "wifi_scan_entry list"
  scanning :: bool

definition scan_init :: wifi_scan where
  "scan_init = \<lparr>results = [], scanning = False\<rparr>"

text \<open>\<open>fill_entry e r len\<close> overwrites the slot \<open>e\<close>; bytes past the terminator stay.\<close>

definition fill_entry :: "wifi_scan_entry \<Rightarrow> scan_result \<Rightarrow> nat \<Rightarrow> wifi_scan_entry" where
  "fill_entry e r len =
     \<lparr>e_ssid = (put_seg (e_ssid e) 0 (take len (sr_ssid r)))[len := NUL],
      e_rssi = sr_rssi r, e_channel = sr_channel r, e_bssid = take 6 (sr_bssid r),
      e_auth = sr_auth_mode r\<rparr>"

definition same_ssid :: "wifi_scan_entry \<Rightarrow> scan_result \<Rightarrow> nat \<Rightarrow> bool" where
  "same_ssid e r len \<longleftrightarrow> strncmp_eq (e_ssid e) (sr_ssid r) 33 \<and> e_ssid e ! len = NUL"

text \<open>The search loop: the index of the first entry with the result's SSID.\<close>

fun find_same :: "wifi_scan_entry list \<Rightarrow> scan_result \<Rightarrow> nat \<Rightarrow> nat \<Rightarrow> nat option" where
  "find_same [] r len i = None"
| "find_same (e # es) r len i = (if same_ssid e r len then Some i else find_same es r len (Suc i))"

text \<open>The loop over \<^verbatim>\<open>results[1..]\<close> that finds the weakest entry (the first of equals).\<close>

definition weakest :: "wifi_scan_entry list \<Rightarrow> nat" where
  "weakest es = fold (\<lambda>i w. if e_rssi (es ! i) < e_rssi (es ! w) then i else w) [1..<length es] 0"

text \<open>A slot never used before holds whatever the array held; \<open>blank\<close> is that content.\<close>

definition scan_cb :: "wifi_scan_entry \<Rightarrow> scan_result option \<Rightarrow> wifi_scan \<Rightarrow> wifi_scan" where
  "scan_cb blank r0 w =
     (case r0 of None \<Rightarrow> w
      | Some r \<Rightarrow>
          if sr_ssid_len r = 0 \<or> sr_ssid r ! 0 = NUL then w
          else let len = (if sr_ssid_len r > 32 then 32 else sr_ssid_len r) in
            case find_same (results w) r len 0 of
              Some i \<Rightarrow>
                if sr_rssi r > e_rssi (results w ! i)
                then w\<lparr>results := (results w)[i := fill_entry (results w ! i) r len]\<rparr> else w
            | None \<Rightarrow>
                if length (results w) < WIFI_SCAN_MAX
                then w\<lparr>results := results w @ [fill_entry blank r len]\<rparr>
                else let k = weakest (results w) in
                  if sr_rssi r > e_rssi (results w ! k)
                  then w\<lparr>results := (results w)[k := fill_entry (results w ! k) r len]\<rparr>
                  else w)"

text \<open>\<^verbatim>\<open>wifi_scan_start\<close>: the returned flag, the new state, and whether the station was told
  to leave. \<open>link_up\<close> is the station link, \<open>scan_ok\<close> the driver accepting the scan.\<close>

definition wifi_scan_start :: "bool \<Rightarrow> bool \<Rightarrow> wifi_scan \<Rightarrow> bool \<times> wifi_scan \<times> bool" where
  "wifi_scan_start link_up scan_ok w =
     (if scanning w then (True, w, False)
      else let w = w\<lparr>results := []\<rparr>; leave = (\<not> link_up) in
        if \<not> scan_ok then (False, w, leave) else (True, w\<lparr>scanning := True\<rparr>, leave))"

definition wifi_scan_again :: "bool \<Rightarrow> wifi_scan \<Rightarrow> bool \<times> wifi_scan" where
  "wifi_scan_again scan_ok w =
     (if scanning w then (True, w)
      else if \<not> scan_ok then (False, w) else (True, w\<lparr>scanning := True\<rparr>))"

definition wifi_scan_in_progress :: "wifi_scan \<Rightarrow> bool" where
  "wifi_scan_in_progress w = scanning w"

definition wifi_scan_stop :: "wifi_scan \<Rightarrow> wifi_scan" where
  "wifi_scan_stop w = w\<lparr>scanning := False\<rparr>"

definition wifi_scan_poll :: "bool \<Rightarrow> wifi_scan \<Rightarrow> bool \<times> wifi_scan" where
  "wifi_scan_poll driver_active w =
     (if scanning w \<and> \<not> driver_active then (True, w\<lparr>scanning := False\<rparr>) else (False, w))"

definition wifi_scan_count :: "wifi_scan \<Rightarrow> nat" where
  "wifi_scan_count w = length (results w)"

definition wifi_scan_get :: "wifi_scan \<Rightarrow> nat \<Rightarrow> wifi_scan_entry option" where
  "wifi_scan_get w i = (if i < length (results w) then Some (results w ! i) else None)"

section \<open>Invariant\<close>

definition entry_wf :: "wifi_scan_entry \<Rightarrow> bool" where
  "entry_wf e \<longleftrightarrow> length (e_ssid e) = 33 \<and> c_str (e_ssid e) \<noteq> [] \<and> length (c_str (e_ssid e)) \<le> 32"

definition scan_wf :: "wifi_scan \<Rightarrow> bool" where
  "scan_wf w \<longleftrightarrow> length (results w) \<le> WIFI_SCAN_MAX \<and> list_all entry_wf (results w) \<and>
     distinct (map (\<lambda>e. c_str (e_ssid e)) (results w))"

text \<open>
  A result as a driver delivers it that zero-fills the SSID field behind the name: the
  name holds no NUL and is followed by one.
\<close>

definition result_padded :: "scan_result \<Rightarrow> bool" where
  "result_padded r \<longleftrightarrow> length (sr_ssid r) = 33 \<and> sr_ssid_len r \<le> 32 \<and>
     NUL \<notin> set (take (sr_ssid_len r) (sr_ssid r)) \<and> sr_ssid r ! sr_ssid_len r = NUL"

lemma c_str_padded:
  assumes "result_padded r"
  shows "c_str (sr_ssid r) = take (sr_ssid_len r) (sr_ssid r)"
proof -
  let ?l = "sr_ssid_len r"
  have "?l < length (sr_ssid r)" "sr_ssid r ! ?l = NUL"
    using assms by (auto simp: result_padded_def)
  then have "sr_ssid r = take ?l (sr_ssid r) @ NUL # drop (Suc ?l) (sr_ssid r)"
    by (metis id_take_nth_drop)
  then show ?thesis
    using assms c_str_append_NUL [of "take ?l (sr_ssid r)" "drop (Suc ?l) (sr_ssid r)"]
    unfolding result_padded_def by metis
qed

lemma fill_entry_ssid:
  assumes "result_padded r" "length (e_ssid e) = 33"
  shows "c_str (e_ssid (fill_entry e r (sr_ssid_len r))) = take (sr_ssid_len r) (sr_ssid r)"
    and "length (e_ssid (fill_entry e r (sr_ssid_len r))) = 33"
proof -
  let ?l = "sr_ssid_len r" let ?t = "take ?l (sr_ssid r)"
  have l: "length ?t = ?l" "?l \<le> 32" using assms(1) by (auto simp: result_padded_def)
  have "e_ssid (fill_entry e r ?l) = ?t @ NUL # drop (Suc ?l) (e_ssid e)"
    using assms(2) l by (simp add: fill_entry_def put_seg_def list_update_append upd_conv_take_nth_drop)
  then show "c_str (e_ssid (fill_entry e r ?l)) = ?t" "length (e_ssid (fill_entry e r ?l)) = 33"
    using assms l by (simp_all add: c_str_append_NUL result_padded_def)
qed

lemma same_ssid_iff:
  assumes "result_padded r" "entry_wf e" "0 < sr_ssid_len r"
  shows "same_ssid e r (sr_ssid_len r) \<longleftrightarrow> c_str (e_ssid e) = c_str (sr_ssid r)"
proof -
  have t: "take 33 (c_str (e_ssid e)) = c_str (e_ssid e)" "take 33 (c_str (sr_ssid r)) = c_str (sr_ssid r)"
    using assms by (auto simp: entry_wf_def c_str_padded result_padded_def)
  have "e_ssid e ! sr_ssid_len r = NUL" if "c_str (e_ssid e) = c_str (sr_ssid r)"
  proof -
    have l: "length (c_str (e_ssid e)) = sr_ssid_len r"
      using that assms(1) by (simp add: c_str_padded result_padded_def)
    moreover have "length (c_str (e_ssid e)) < length (e_ssid e)"
      using assms(2) by (simp add: entry_wf_def)
    ultimately show ?thesis
      using nth_length_takeWhile [of "\<lambda>c. c \<noteq> NUL" "e_ssid e"] by (simp add: c_str_def)
  qed
  then show ?thesis by (auto simp: same_ssid_def strncmp_eq_def t)
qed

lemma find_same_None: "find_same es r len i = None \<longleftrightarrow> (\<forall>e \<in> set es. \<not> same_ssid e r len)"
  by (induction es arbitrary: i) auto

lemma find_same_Some:
  "find_same es r len i = Some k \<Longrightarrow> i \<le> k \<and> k - i < length es \<and> same_ssid (es ! (k - i)) r len"
proof (induction es arbitrary: i)
  case (Cons e es)
  show ?case
  proof (cases "same_ssid e r len")
    case False
    with Cons have "Suc i \<le> k \<and> k - Suc i < length es \<and> same_ssid (es ! (k - Suc i)) r len"
      by auto
    moreover from this have "k - i = Suc (k - Suc i)" by linarith
    ultimately show ?thesis by auto
  qed (use Cons in auto)
qed simp

lemma weakest_spec:
  assumes "es \<noteq> []"
  shows "weakest es < length es \<and> (\<forall>e \<in> set es. e_rssi (es ! weakest es) \<le> e_rssi e)"
proof -
  let ?f = "\<lambda>i w. if e_rssi (es ! i) < e_rssi (es ! w) then i else w"
  have "1 \<le> n \<Longrightarrow> n \<le> length es \<Longrightarrow>
      fold ?f [1..<n] 0 < n \<and> (\<forall>i < n. e_rssi (es ! fold ?f [1..<n] 0) \<le> e_rssi (es ! i))" for n
  proof (induction n)
    case (Suc n)
    then show ?case by (cases "n = 0") (auto simp: less_Suc_eq intro: order_trans less_imp_le)
  qed simp
  from this [of "length es"] assms show ?thesis
    by (auto simp: weakest_def in_set_conv_nth Suc_le_eq)
qed

section \<open>The callback keeps the strongest networks\<close>

abbreviation entry_name :: "wifi_scan_entry \<Rightarrow> string" where
  "entry_name e \<equiv> c_str (e_ssid e)"

abbreviation result_name :: "scan_result \<Rightarrow> string" where
  "result_name r \<equiv> c_str (sr_ssid r)"

lemma fill_entry_wf:
  assumes "result_padded r" "0 < sr_ssid_len r" "length (e_ssid e) = 33"
  shows "entry_wf (fill_entry e r (sr_ssid_len r))"
    and "entry_name (fill_entry e r (sr_ssid_len r)) = result_name r"
    and "e_rssi (fill_entry e r (sr_ssid_len r)) = sr_rssi r"
  using assms fill_entry_ssid [OF assms(1,3)]
  by (auto simp: entry_wf_def c_str_padded result_padded_def fill_entry_def)

text \<open>The four outcomes of the callback for a visible network.\<close>

lemma scan_cb_cases:
  assumes "scan_wf w" "result_padded r" "0 < sr_ssid_len r" "length (e_ssid blank) = 33"
  obtains (stronger) i where "i < length (results w)" "entry_name (results w ! i) = result_name r"
      "e_rssi (results w ! i) < sr_rssi r"
      "results (scan_cb blank (Some r) w)
         = (results w)[i := fill_entry (results w ! i) r (sr_ssid_len r)]"
  | (known) i where "i < length (results w)" "entry_name (results w ! i) = result_name r"
      "sr_rssi r \<le> e_rssi (results w ! i)" "results (scan_cb blank (Some r) w) = results w"
  | (room) "result_name r \<notin> entry_name ` set (results w)" "length (results w) < WIFI_SCAN_MAX"
      "results (scan_cb blank (Some r) w) = results w @ [fill_entry blank r (sr_ssid_len r)]"
  | (evict) k where "result_name r \<notin> entry_name ` set (results w)" "length (results w) = WIFI_SCAN_MAX"
      "k < length (results w)" "\<forall>e \<in> set (results w). e_rssi (results w ! k) \<le> e_rssi e"
      "e_rssi (results w ! k) < sr_rssi r"
      "results (scan_cb blank (Some r) w)
         = (results w)[k := fill_entry (results w ! k) r (sr_ssid_len r)]"
  | (weak) "length (results w) = WIFI_SCAN_MAX" "\<forall>e \<in> set (results w). sr_rssi r \<le> e_rssi e"
      "results (scan_cb blank (Some r) w) = results w"
proof -
  let ?l = "sr_ssid_len r"
  have l: "(if ?l > 32 then 32 else ?l) = ?l" using assms(2) by (simp add: result_padded_def)
  have n0: "sr_ssid r ! 0 \<noteq> NUL"
  proof
    assume "sr_ssid r ! 0 = NUL"
    then have "NUL = take ?l (sr_ssid r) ! 0" using assms(3) by simp
    moreover have "0 < length (take ?l (sr_ssid r))" using assms(2,3) by (simp add: result_padded_def)
    ultimately show False using assms(2) nth_mem unfolding result_padded_def by metis
  qed
  have same: "same_ssid e r ?l \<longleftrightarrow> entry_name e = result_name r" if "e \<in> set (results w)" for e
    using that assms by (intro same_ssid_iff) (auto simp: scan_wf_def list_all_iff)
  have len: "length (results w) \<le> 24" using assms(1) by (simp add: scan_wf_def)
  show thesis
  proof (cases "find_same (results w) r ?l 0")
    case (Some i)
    then have i: "i < length (results w)" "entry_name (results w ! i) = result_name r"
      using find_same_Some [OF Some] same by auto
    show thesis
    proof (cases "e_rssi (results w ! i) < sr_rssi r")
      case True
      then show ?thesis using i Some n0 assms(3) by (intro stronger [of i]) (auto simp: scan_cb_def l)
    next
      case False
      then show ?thesis using i Some n0 assms(3) by (intro known [of i]) (auto simp: scan_cb_def l)
    qed
  next
    case None
    then have nm: "result_name r \<notin> entry_name ` set (results w)"
      using same by (auto simp: find_same_None)
    show thesis
    proof (cases "length (results w) < 24")
      case True
      then show ?thesis using nm None n0 assms(3) by (intro room) (auto simp: scan_cb_def l)
    next
      case False
      then have full: "length (results w) = 24" using len by simp
      then have ne: "results w \<noteq> []" by auto
      note wk = weakest_spec [OF ne]
      show ?thesis
      proof (cases "e_rssi (results w ! weakest (results w)) < sr_rssi r")
        case True
        then show ?thesis using wk full nm None n0 assms(3)
          by (intro evict [of "weakest (results w)"]) (auto simp: scan_cb_def l Let_def)
      next
        case False
        then show ?thesis using wk full None n0 assms(3)
          by (intro weak) (auto simp: scan_cb_def l Let_def intro: order_trans)
      qed
    qed
  qed
qed

lemma distinct_update:
  assumes "distinct xs" "x \<notin> set xs - {xs ! i}" "i < length xs"
  shows "distinct (xs[i := x])"
  using assms by (auto simp: distinct_list_update)

lemma scan_cb_wf:
  assumes "scan_wf w" "result_padded r" "0 < sr_ssid_len r" "length (e_ssid blank) = 33"
  shows "scan_wf (scan_cb blank (Some r) w)"
  using assms
proof (cases rule: scan_cb_cases [consumes 4])
  case (stronger i)
  have "entry_wf (results w ! i)" using stronger(1) assms(1) by (simp add: scan_wf_def list_all_length)
  then have f: "entry_wf (fill_entry (results w ! i) r (sr_ssid_len r))"
    "entry_name (fill_entry (results w ! i) r (sr_ssid_len r)) = entry_name (results w ! i)"
    using fill_entry_wf [OF assms(2,3)] stronger(2) by (auto simp: entry_wf_def)
  have "map entry_name ((results w)[i := fill_entry (results w ! i) r (sr_ssid_len r)]) = map entry_name (results w)"
    using f(2) stronger(1) by (simp add: map_update) (metis list_update_id nth_map)
  then show ?thesis using stronger f(1) assms(1)
    by (auto simp: scan_wf_def list_all_length nth_list_update)
next
  case (evict k)
  have "entry_wf (results w ! k)" using evict(3) assms(1) by (simp add: scan_wf_def list_all_length)
  then have f: "entry_wf (fill_entry (results w ! k) r (sr_ssid_len r))"
    "entry_name (fill_entry (results w ! k) r (sr_ssid_len r)) = result_name r"
    using fill_entry_wf [OF assms(2,3)] by (auto simp: entry_wf_def)
  have "distinct ((map entry_name (results w))[k := result_name r])"
    using evict(1,3) assms(1) by (intro distinct_update) (auto simp: scan_wf_def)
  then show ?thesis using evict f assms(1)
    by (auto simp: scan_wf_def list_all_length nth_list_update map_update)
next
  case room
  note f = fill_entry_wf [OF assms(2,3,4)]
  show ?thesis using room f assms(1) by (auto simp: scan_wf_def)
qed (use assms(1) in \<open>simp_all add: scan_wf_def\<close>)

text \<open>
  \<open>covered w n x\<close>: the table accounts for a sighting of network \<open>n\<close> at strength \<open>x\<close>:
  it lists \<open>n\<close> at least as strong, or it is full of networks at least as strong.
\<close>

definition covered :: "wifi_scan \<Rightarrow> string \<Rightarrow> int \<Rightarrow> bool" where
  "covered w n x \<longleftrightarrow>
     (\<exists>e \<in> set (results w). entry_name e = n \<and> x \<le> e_rssi e) \<or>
     (length (results w) = WIFI_SCAN_MAX \<and> (\<forall>e \<in> set (results w). x \<le> e_rssi e))"

lemma covered_update:
  assumes "covered w n x" "k < length (results w)" "e_rssi (results w ! k) \<le> e_rssi e'"
    and "entry_name e' = entry_name (results w ! k) \<or>
         (length (results w) = WIFI_SCAN_MAX \<and> (\<forall>e \<in> set (results w). e_rssi (results w ! k) \<le> e_rssi e))"
  shows "covered (w\<lparr>results := (results w)[k := e']\<rparr>) n x"
proof -
  let ?es = "(results w)[k := e']"
  have sub: "set ?es \<subseteq> insert e' (set (results w))" by (rule set_update_subset_insert)
  have e': "e' \<in> set ?es" using assms(2) by (simp add: set_update_memI)
  from assms(1) show ?thesis
    unfolding covered_def
  proof (elim disjE bexE conjE)
    fix e assume e: "e \<in> set (results w)" "entry_name e = n" "x \<le> e_rssi e"
    then obtain j where j: "j < length (results w)" "e = results w ! j" by (auto simp: in_set_conv_nth)
    show "(\<exists>e \<in> set (results (w\<lparr>results := ?es\<rparr>)). entry_name e = n \<and> x \<le> e_rssi e) \<or>
      (length (results (w\<lparr>results := ?es\<rparr>)) = 24 \<and> (\<forall>e \<in> set (results (w\<lparr>results := ?es\<rparr>)). x \<le> e_rssi e))"
    proof (cases "j = k")
      case False
      then have "e \<in> set ?es" using j by (metis length_list_update nth_list_update_neq nth_mem)
      then show ?thesis using e by auto
    next
      case True
      from assms(4) show ?thesis
      proof
        assume "entry_name e' = entry_name (results w ! k)"
        then show ?thesis using True j e assms(3) e' by auto
      next
        assume a: "length (results w) = 24 \<and> (\<forall>e \<in> set (results w). e_rssi (results w ! k) \<le> e_rssi e)"
        have "x \<le> e_rssi y" if "y \<in> set ?es" for y
          using that sub a True j e assms(3) by fastforce
        with a show ?thesis by auto
      qed
    qed
  next
    assume "length (results w) = 24" "\<forall>e \<in> set (results w). x \<le> e_rssi e"
    moreover from this have "x \<le> e_rssi e'" using assms(2,3) nth_mem order_trans by blast
    ultimately have "length ?es = 24 \<and> (\<forall>y \<in> set ?es. x \<le> e_rssi y)" using sub by auto
    then show "(\<exists>e \<in> set (results (w\<lparr>results := ?es\<rparr>)). entry_name e = n \<and> x \<le> e_rssi e) \<or>
      (length (results (w\<lparr>results := ?es\<rparr>)) = 24 \<and> (\<forall>e \<in> set (results (w\<lparr>results := ?es\<rparr>)). x \<le> e_rssi e))"
      by simp
  qed
qed

lemma covered_results: "results v = results w \<Longrightarrow> covered v n x = covered w n x"
  by (simp add: covered_def)

lemma scan_cb_covers:
  assumes "scan_wf w" "result_padded r" "0 < sr_ssid_len r" "length (e_ssid blank) = 33"
  shows "covered (scan_cb blank (Some r) w) (result_name r) (sr_rssi r)"
    and "covered w n x \<Longrightarrow> covered (scan_cb blank (Some r) w) n x"
proof -
  let ?w = "scan_cb blank (Some r) w"
  have wf: "length (e_ssid (results w ! k)) = 33" if "k < length (results w)" for k
    using that assms(1) by (simp add: scan_wf_def list_all_length entry_wf_def)
  from assms have "covered ?w (result_name r) (sr_rssi r) \<and> (covered w n x \<longrightarrow> covered ?w n x)"
  proof (cases rule: scan_cb_cases [consumes 4])
    case (stronger i)
    note f = fill_entry_wf [OF assms(2,3) wf [OF stronger(1)]]
    have "covered (w\<lparr>results := (results w)[i := fill_entry (results w ! i) r (sr_ssid_len r)]\<rparr>) n x"
      if "covered w n x"
      using that stronger f by (intro covered_update) auto
    moreover have "covered ?w (result_name r) (sr_rssi r)"
      using stronger f set_update_memI [OF stronger(1)] by (fastforce simp: covered_def)
    moreover have "covered ?w n x = covered (w\<lparr>results := (results w)[i := fill_entry (results w ! i) r (sr_ssid_len r)]\<rparr>) n x"
      using stronger(4) by (intro covered_results) simp
    ultimately show ?thesis by blast
  next
    case (evict k)
    note f = fill_entry_wf [OF assms(2,3) wf [OF evict(3)]]
    have "covered (w\<lparr>results := (results w)[k := fill_entry (results w ! k) r (sr_ssid_len r)]\<rparr>) n x"
      if "covered w n x"
      using that evict f by (intro covered_update) auto
    moreover have "covered ?w (result_name r) (sr_rssi r)"
      using evict f set_update_memI [OF evict(3)] by (fastforce simp: covered_def)
    moreover have "covered ?w n x = covered (w\<lparr>results := (results w)[k := fill_entry (results w ! k) r (sr_ssid_len r)]\<rparr>) n x"
      using evict(6) by (intro covered_results) simp
    ultimately show ?thesis by blast
  next
    case room
    then show ?thesis using fill_entry_wf [OF assms(2,3,4)] by (auto simp: covered_def)
  next
    case (known i)
    then show ?thesis by (auto simp: covered_def)
  next
    case weak
    then show ?thesis by (auto simp: covered_def)
  qed
  then show "covered ?w (result_name r) (sr_rssi r)" "covered w n x \<Longrightarrow> covered ?w n x"
    by auto
qed

text \<open>However many access points report, in any order and with repeats, the table
  stays within its 24 slots with one entry per SSID, and it keeps the strongest: every
  network ever reported is listed at least as strong as it was reported, or the table is
  full of networks at least as strong.\<close>

theorem wifi_scan_keeps_strongest:
  assumes "\<forall>r \<in> set rs. result_padded r \<and> 0 < sr_ssid_len r" "length (e_ssid blank) = 33"
  defines "w \<equiv> fold (\<lambda>r. scan_cb blank (Some r)) rs scan_init"
  shows "scan_wf w \<and> (\<forall>r \<in> set rs. covered w (c_str (sr_ssid r)) (sr_rssi r))"
proof -
  have "scan_wf (fold (\<lambda>r. scan_cb blank (Some r)) rs scan_init) \<and>
        (\<forall>r \<in> set rs. covered (fold (\<lambda>r. scan_cb blank (Some r)) rs scan_init) (result_name r) (sr_rssi r))"
    using assms(1)
  proof (induction rs rule: rev_induct)
    case Nil
    then show ?case by (simp add: scan_wf_def scan_init_def)
  next
    case (snoc r rs)
    let ?w = "fold (\<lambda>r. scan_cb blank (Some r)) rs scan_init"
    have ih: "scan_wf ?w" "\<forall>r \<in> set rs. covered ?w (result_name r) (sr_rssi r)"
      using snoc by auto
    have r: "result_padded r" "0 < sr_ssid_len r" using snoc.prems by auto
    show ?case
      using ih scan_cb_wf [OF ih(1) r assms(2)] scan_cb_covers [OF ih(1) r assms(2)] by auto
  qed
  then show ?thesis by (simp add: w_def)
qed

theorem wifi_scan_keeps_strongest_witness:
  "let r = \<lparr>sr_ssid_len = 3, sr_ssid = ''lab'' @ replicate 30 NUL, sr_rssi = -60, sr_channel = 6,
            sr_bssid = [1, 2, 3, 4, 5, 6], sr_auth_mode = 4\<rparr>;
       w = fold (\<lambda>r. scan_cb \<lparr>e_ssid = replicate 33 NUL, e_rssi = 0, e_channel = 0, e_bssid = [],
                              e_auth = 0\<rparr> (Some r)) [r, r\<lparr>sr_rssi := -50\<rparr>] scan_init
   in scan_wf w \<and> covered w ''lab'' (-50)"
  using wifi_scan_keeps_strongest [of "[\<lparr>sr_ssid_len = 3, sr_ssid = ''lab'' @ replicate 30 NUL, sr_rssi = -60,
      sr_channel = 6, sr_bssid = [1, 2, 3, 4, 5, 6], sr_auth_mode = 4\<rparr>,
    \<lparr>sr_ssid_len = 3, sr_ssid = ''lab'' @ replicate 30 NUL, sr_rssi = -50,
      sr_channel = 6, sr_bssid = [1, 2, 3, 4, 5, 6], sr_auth_mode = 4\<rparr>]"
    "\<lparr>e_ssid = replicate 33 NUL, e_rssi = 0, e_channel = 0, e_bssid = [], e_auth = 0\<rparr>"]
  by (simp add: result_padded_def c_str_def Let_def)

end
