(* ===== verification/Wifi_Conn.thy ===== *)
theory Wifi_Conn
  imports Config Wifi_Pick Wifi_Scan
begin

text \<open>
  The Wi-Fi connection manager of \<^verbatim>\<open>src/wifi_conn.c\<close>: one record holds the module's static
  variables together with what they refer to (the configuration behind \<^verbatim>\<open>g_cfg\<close>, the scan
  table, the flash sector) and a log of the calls made to the radio. What the radio driver,
  the network stack and the console answer in one call enters as a \<open>radio_env\<close>. The array
  \<^verbatim>\<open>order[0..order_n)\<close> is the list \<open>order\<close>. Text output is not modelled.

  Shown: the invariant of the state machine over every interleaving of its entry points,
  that no cycle gets stuck, what a successful join does to the profile list and the
  flash, and that rejected passwords are skipped until their mark decays.
\<close>

abbreviation JOIN_TIMEOUT_MS :: u32 where "JOIN_TIMEOUT_MS \<equiv> 12000"
abbreviation FAST_RETRIES :: nat where "FAST_RETRIES \<equiv> 2"
abbreviation MGR_SCAN_PASSES :: nat where "MGR_SCAN_PASSES \<equiv> 2"
abbreviation SCAN_FRESH_MS :: u32 where "SCAN_FRESH_MS \<equiv> 15000"
abbreviation BACKOFF_MIN_MS :: u32 where "BACKOFF_MIN_MS \<equiv> 8000"
abbreviation BACKOFF_MAX_MS :: u32 where "BACKOFF_MAX_MS \<equiv> 60000"
abbreviation BADPASS_RETRY_MS :: u32 where "BADPASS_RETRY_MS \<equiv> 600000"

datatype conn_state = ST_IDLE | ST_SCAN | ST_TRY | ST_WAIT | ST_UP

datatype link_status = CYW43_LINK_BADAUTH | CYW43_LINK_FAIL | CYW43_LINK_NONET | CYW43_LINK_OTHER

datatype auth_type = CYW43_AUTH_WPA3_WPA2_AES_PSK | CYW43_AUTH_OPEN

datatype radio_op = Wifi_Leave | Wifi_Connect string string auth_type

record wifi_conn =
  g_cfg :: "config option"
  state :: conn_state
  prof :: "wifi_prof_state list"
  badpass_at :: "u32 list"
  order :: "nat list"
  order_ix :: nat
  trying :: nat
  rr_unseen :: u8
  fast_tries :: nat
  attempt_at :: u32
  wait_until :: u32
  backoff_ms :: u32
  scan_passes_left :: nat
  scan_done_at :: u32
  scan_ever :: bool
  scan_requested :: bool
  creds_unsaved :: bool
  last_tick :: u32
  scan_table :: wifi_scan
  flash :: bytes
  radio :: "radio_op list"

text \<open>The static variables at power-up.\<close>

definition conn_boot :: "bytes \<Rightarrow> wifi_conn" where
  "conn_boot sector =
     \<lparr>g_cfg = None, state = ST_IDLE, prof = replicate 8 \<lparr>rssi = 0, status = WIFI_PROF_UNTRIED\<rparr>,
      badpass_at = replicate 8 0, order = [], order_ix = 0, trying = 0, rr_unseen = 0,
      fast_tries = 0, attempt_at = 0, wait_until = 0, backoff_ms = BACKOFF_MIN_MS,
      scan_passes_left = 0, scan_done_at = 0, scan_ever = False, scan_requested = False,
      creds_unsaved = False, last_tick = 0, scan_table = scan_init, flash = sector, radio = []\<rparr>"

text \<open>
  The outside world during one call: the station link, the driver's link status, whether
  it accepts a join or a scan, whether a pass is still running, whether the console holds
  the scan machinery, and the flash driver.
\<close>

record radio_env =
  link :: bool
  wifi_link_status :: link_status
  connect_async :: "string \<Rightarrow> string \<Rightarrow> auth_type \<Rightarrow> bool"
  scan_ok :: bool
  scan_active :: bool
  owns_scan :: bool
  flash_dev :: flash_driver

abbreviation cfg :: "wifi_conn \<Rightarrow> config" where
  "cfg w \<equiv> the (g_cfg w)"

definition snapshot_rssi :: "wifi_conn \<Rightarrow> wifi_conn" where
  "snapshot_rssi w =
     (let cleared = map (\<lambda>p. p\<lparr>rssi := WIFI_RSSI_UNSEEN\<rparr>) (prof w)
      in case g_cfg w of
           None \<Rightarrow> w\<lparr>prof := cleared\<rparr>
         | Some c \<Rightarrow>
             w\<lparr>prof := fold (\<lambda>e ps. case config_find_profile c (e_ssid e) of
                                   Some p \<Rightarrow> ps[p := (ps ! p)\<lparr>rssi := e_rssi e\<rparr>]
                                 | None \<Rightarrow> ps) (results (scan_table w)) cleared\<rparr>)"

definition enter_wait :: "u32 \<Rightarrow> wifi_conn \<Rightarrow> wifi_conn" where
  "enter_wait now w =
     (let b = backoff_ms w * 2 in
      w\<lparr>state := ST_WAIT, wait_until := now + backoff_ms w,
        backoff_ms := (if b > BACKOFF_MAX_MS then BACKOFF_MAX_MS else b)\<rparr>)"

function try_from :: "radio_env \<Rightarrow> u32 \<Rightarrow> wifi_conn \<Rightarrow> wifi_conn" where
  "try_from E now w =
     (if order_ix w < length (order w) then
        let i = order w ! order_ix w; p = profiles (cfg w) ! i;
            auth = (if password p ! 0 \<noteq> NUL then CYW43_AUTH_WPA3_WPA2_AES_PSK else CYW43_AUTH_OPEN);
            w1 = w\<lparr>radio := radio w @ [Wifi_Leave, Wifi_Connect (ssid p) (password p) auth]\<rparr>
        in if connect_async E (ssid p) (password p) auth
           then w1\<lparr>trying := i, attempt_at := now, state := ST_TRY\<rparr>
           else try_from E now (w1\<lparr>order_ix := order_ix w + 1\<rparr>)
      else enter_wait now w)"
  by pat_completeness auto
termination by (relation "measure (\<lambda>(E, now, w). length (order w) - order_ix w)") auto

declare try_from.simps [simp del]

definition build_and_try :: "radio_env \<Rightarrow> u32 \<Rightarrow> wifi_conn \<Rightarrow> wifi_conn" where
  "build_and_try E now w =
     try_from E now (w\<lparr>order := wifi_pick_order (prof w) (profile_count (cfg w)) (active (cfg w)) (unat (rr_unseen w)),
                       rr_unseen := rr_unseen w + 1, order_ix := 0\<rparr>)"

text \<open>\<^verbatim>\<open>wifi_scan_start()\<close> as the manager calls it.\<close>

definition start_scan :: "radio_env \<Rightarrow> wifi_conn \<Rightarrow> bool \<times> wifi_conn" where
  "start_scan E w =
     (case wifi_scan_start (link E) (scan_ok E) (scan_table w) of (ok, t, leave) \<Rightarrow>
        (ok, w\<lparr>scan_table := t, radio := radio w @ (if leave then [Wifi_Leave] else [])\<rparr>))"

definition start_cycle :: "radio_env \<Rightarrow> u32 \<Rightarrow> wifi_conn \<Rightarrow> wifi_conn" where
  "start_cycle E now w =
     (if profile_count (cfg w) = 0 then w\<lparr>state := ST_IDLE\<rparr>
      else let w = w\<lparr>state := ST_SCAN\<rparr> in
        if scan_ever w \<and> now - scan_done_at w < SCAN_FRESH_MS
        then build_and_try E now (snapshot_rssi w)
        else let (ok, w) = start_scan E w in
          if ok then w\<lparr>scan_passes_left := MGR_SCAN_PASSES\<rparr> else enter_wait now w)"

definition unconnect :: "wifi_prof_state \<Rightarrow> wifi_prof_state" where
  "unconnect p = (if status p = WIFI_PROF_CONNECTED then p\<lparr>status := WIFI_PROF_UNTRIED\<rparr> else p)"

definition to_front :: "nat \<Rightarrow> 'a list \<Rightarrow> 'a list" where
  "to_front i xs = (put_seg xs 1 (seg xs 0 i))[0 := xs ! i]"

definition set_status :: "nat \<Rightarrow> wifi_prof_status \<Rightarrow> wifi_conn \<Rightarrow> wifi_conn" where
  "set_status i s w = w\<lparr>prof := (prof w)[i := (prof w ! i)\<lparr>status := s\<rparr>]\<rparr>"

definition joined :: "radio_env \<Rightarrow> wifi_conn \<Rightarrow> wifi_conn" where
  "joined E w =
     (if trying w \<ge> profile_count (cfg w) then w\<lparr>state := ST_UP, fast_tries := FAST_RETRIES\<rparr>
      else let
        w = w\<lparr>prof := map unconnect (prof w)\<rparr>;
        w = w\<lparr>g_cfg := Some ((cfg w)\<lparr>active := trying w\<rparr>)\<rparr>;
        w = (if trying w > 0
             then w\<lparr>prof := to_front (trying w) (prof w), badpass_at := to_front (trying w) (badpass_at w),
                    g_cfg := Some (fst (config_touch_profile (cfg w) (int (trying w)))), trying := 0\<rparr>
             else w);
        w = set_status (trying w) WIFI_PROF_CONNECTED w;
        w = w\<lparr>state := ST_UP, fast_tries := FAST_RETRIES, backoff_ms := BACKOFF_MIN_MS\<rparr>
      in if creds_unsaved w
         then (case config_save (flash_dev E) (cfg w) (flash w) of (ok, c, fl) \<Rightarrow>
                 w\<lparr>g_cfg := Some c, flash := fl, creds_unsaved := False\<rparr>)
         else w)"

definition pin_active :: "radio_env \<Rightarrow> u32 \<Rightarrow> wifi_conn \<Rightarrow> wifi_conn" where
  "pin_active E now w = try_from E now (w\<lparr>order := [active (cfg w)], order_ix := 0\<rparr>)"

definition clear_prof :: "wifi_conn \<Rightarrow> wifi_conn" where
  "clear_prof w = w\<lparr>prof := replicate 8 \<lparr>rssi = 0, status = WIFI_PROF_UNTRIED\<rparr>\<rparr>"

definition wifi_conn_init :: "radio_env \<Rightarrow> u32 \<Rightarrow> config \<Rightarrow> wifi_conn \<Rightarrow> wifi_conn" where
  "wifi_conn_init E now c w =
     (let w = snapshot_rssi (clear_prof (w\<lparr>g_cfg := Some c\<rparr>)) in
      if active c < profile_count c then pin_active E now w
      else if profile_count c > 0 then w\<lparr>state := ST_WAIT, wait_until := 0\<rparr>
      else w\<lparr>state := ST_IDLE\<rparr>)"

definition wifi_conn_apply :: "radio_env \<Rightarrow> u32 \<Rightarrow> wifi_conn \<Rightarrow> wifi_conn" where
  "wifi_conn_apply E now w =
     (case g_cfg w of None \<Rightarrow> w
      | Some c \<Rightarrow>
        let w = (snapshot_rssi (clear_prof w))\<lparr>backoff_ms := BACKOFF_MIN_MS\<rparr>;
            w = w\<lparr>radio := radio w @ [Wifi_Leave]\<rparr>
        in if active c < profile_count c then pin_active E now w
           else w\<lparr>state := ST_WAIT, wait_until := now\<rparr>)"

definition wifi_conn_mark_creds_unsaved :: "wifi_conn \<Rightarrow> wifi_conn" where
  "wifi_conn_mark_creds_unsaved w = w\<lparr>creds_unsaved := True\<rparr>"

definition wifi_conn_note_saved :: "wifi_conn \<Rightarrow> wifi_conn" where
  "wifi_conn_note_saved w = w\<lparr>creds_unsaved := False\<rparr>"

definition wifi_conn_request_scan :: "wifi_conn \<Rightarrow> wifi_conn" where
  "wifi_conn_request_scan w = w\<lparr>scan_requested := True\<rparr>"

definition wifi_conn_scanning :: "wifi_conn \<Rightarrow> bool" where
  "wifi_conn_scanning w \<longleftrightarrow> scan_passes_left w > 0"

definition wifi_conn_scan_age_ms :: "u32 \<Rightarrow> wifi_conn \<Rightarrow> u32" where
  "wifi_conn_scan_age_ms now w = (if \<not> scan_ever w then 0xFFFFFFFF else now - scan_done_at w)"

fun wifi_conn_state_str :: "wifi_conn \<Rightarrow> string" where
  "wifi_conn_state_str w =
     (case state w of ST_UP \<Rightarrow> ''up'' | ST_TRY \<Rightarrow> ''joining'' | ST_SCAN \<Rightarrow> ''scanning''
      | ST_WAIT \<Rightarrow> ''backoff'' | ST_IDLE \<Rightarrow> ''idle'')"

definition wifi_conn_prof_status :: "wifi_conn \<Rightarrow> nat \<Rightarrow> wifi_prof_status" where
  "wifi_conn_prof_status w i = (if i < CONFIG_PROFILE_MAX then status (prof w ! i) else WIFI_PROF_UNTRIED)"

definition wifi_conn_prof_rssi :: "wifi_conn \<Rightarrow> nat \<Rightarrow> int" where
  "wifi_conn_prof_rssi w i = (if i < CONFIG_PROFILE_MAX then rssi (prof w ! i) else WIFI_RSSI_UNSEEN)"

section \<open>The tick\<close>

text \<open>\<^verbatim>\<open>wifi_conn_task\<close> in the order of its body: the decay of bad-password marks, the scan
  in progress, and the switch on the state.\<close>

definition decay_badpass :: "u32 \<Rightarrow> wifi_conn \<Rightarrow> wifi_conn" where
  "decay_badpass now w =
     fold (\<lambda>i w. if status (prof w ! i) = WIFI_PROF_BADPASS \<and> now - badpass_at w ! i \<ge> BADPASS_RETRY_MS
                 then set_status i WIFI_PROF_UNTRIED w else w) [0..<profile_count (cfg w)] w"

definition drive_scan :: "radio_env \<Rightarrow> u32 \<Rightarrow> wifi_conn \<Rightarrow> wifi_conn" where
  "drive_scan E now w =
     (if scan_passes_left w > 0 then
        let w = w\<lparr>scan_table := snd (wifi_scan_poll (scan_active E) (scan_table w))\<rparr> in
        if \<not> wifi_scan_in_progress (scan_table w) then
          let w = w\<lparr>scan_passes_left := scan_passes_left w - 1\<rparr>;
              w = (if scan_passes_left w > 0
                   then let (ok, t) = wifi_scan_again (scan_ok E) (scan_table w); w = w\<lparr>scan_table := t\<rparr>
                        in if \<not> ok then w\<lparr>scan_passes_left := 0\<rparr> else w
                   else w)
          in if scan_passes_left w = 0
             then let w = (snapshot_rssi w)\<lparr>scan_done_at := now, scan_ever := True\<rparr>
                  in if state w = ST_SCAN then build_and_try E now w else w
             else w
        else w
      else if scan_requested w \<and> state w \<noteq> ST_TRY then
        let (ok, w) = start_scan E (w\<lparr>scan_requested := False\<rparr>) in
        if ok then
          let w = w\<lparr>scan_passes_left := MGR_SCAN_PASSES\<rparr>
          in if state w = ST_WAIT then w\<lparr>state := ST_SCAN\<rparr> else w
        else w
      else w)"

definition tick_up :: "radio_env \<Rightarrow> u32 \<Rightarrow> wifi_conn \<Rightarrow> wifi_conn" where
  "tick_up E now w =
     (if link E then w
      else let w = w\<lparr>prof := map unconnect (prof w)\<rparr> in
        if fast_tries w > 0 \<and> active (cfg w) < profile_count (cfg w)
        then pin_active E now (w\<lparr>fast_tries := fast_tries w - 1\<rparr>)
        else start_cycle E now w)"

definition try_next :: "radio_env \<Rightarrow> u32 \<Rightarrow> wifi_conn \<Rightarrow> wifi_conn" where
  "try_next E now w = try_from E now (w\<lparr>order_ix := order_ix w + 1\<rparr>)"

definition tick_try :: "radio_env \<Rightarrow> u32 \<Rightarrow> wifi_conn \<Rightarrow> wifi_conn" where
  "tick_try E now w =
     (if link E then joined E w
      else if wifi_link_status E = CYW43_LINK_BADAUTH then
        let w = set_status (trying w) WIFI_PROF_BADPASS w;
            w = w\<lparr>badpass_at := (badpass_at w)[trying w := now]\<rparr>
        in try_next E now w
      else if wifi_link_status E = CYW43_LINK_FAIL \<or> wifi_link_status E = CYW43_LINK_NONET \<or>
              now - attempt_at w \<ge> JOIN_TIMEOUT_MS then
        try_next E now (set_status (trying w) WIFI_PROF_NOJOIN w)
      else w)"

definition tick_switch :: "radio_env \<Rightarrow> u32 \<Rightarrow> wifi_conn \<Rightarrow> wifi_conn" where
  "tick_switch E now w =
     (case state w of
        ST_UP \<Rightarrow> tick_up E now w
      | ST_TRY \<Rightarrow> tick_try E now w
      | ST_SCAN \<Rightarrow> if link E then joined E w else w
      | ST_WAIT \<Rightarrow> if link E then joined E w
                   else if sint (now - wait_until w) \<ge> 0 then start_cycle E now w else w
      | ST_IDLE \<Rightarrow> if profile_count (cfg w) > 0 then start_cycle E now w else w)"

definition wifi_conn_task :: "radio_env \<Rightarrow> u32 \<Rightarrow> wifi_conn \<Rightarrow> wifi_conn" where
  "wifi_conn_task E now w =
     (if g_cfg w = None then w
      else if now - last_tick w < 100 then w
      else let w = decay_badpass now (w\<lparr>last_tick := now\<rparr>)
           in if owns_scan E then w else tick_switch E now (drive_scan E now w))"

section \<open>The invariant\<close>

text \<open>What holds of the variables whatever the state, and what each state adds.\<close>

definition conn_base :: "wifi_conn \<Rightarrow> bool" where
  "conn_base w \<longleftrightarrow>
     pred_option config_wf (g_cfg w) \<and> length (prof w) = 8 \<and> length (badpass_at w) = 8 \<and>
     BACKOFF_MIN_MS \<le> backoff_ms w \<and> backoff_ms w \<le> BACKOFF_MAX_MS \<and>
     scan_passes_left w \<le> MGR_SCAN_PASSES \<and> fast_tries w \<le> FAST_RETRIES \<and>
     length (order w) \<le> 8 \<and> list_all (\<lambda>i. i < 8) (order w) \<and> trying w < 8"

definition at_candidate :: "wifi_conn \<Rightarrow> bool" where
  "at_candidate w \<longleftrightarrow> order_ix w < length (order w) \<and> trying w = order w ! order_ix w"

definition conn_inv :: "wifi_conn \<Rightarrow> bool" where
  "conn_inv w \<longleftrightarrow> conn_base w \<and>
     (state w = ST_SCAN \<longrightarrow> 0 < scan_passes_left w) \<and>
     (state w = ST_TRY \<longrightarrow> at_candidate w) \<and>
     (g_cfg w = None \<longrightarrow> state w = ST_IDLE)"

lemma conn_base_cfg: "conn_base w \<Longrightarrow> g_cfg w = Some c \<Longrightarrow> config_wf c"
  by (simp add: conn_base_def)

lemma conn_base_updates [simp]:
  "conn_base (w\<lparr>state := s\<rparr>) = conn_base w"
  "conn_base (w\<lparr>wait_until := t\<rparr>) = conn_base w"
  "conn_base (w\<lparr>attempt_at := t\<rparr>) = conn_base w"
  "conn_base (w\<lparr>last_tick := t\<rparr>) = conn_base w"
  "conn_base (w\<lparr>scan_done_at := t\<rparr>) = conn_base w"
  "conn_base (w\<lparr>scan_ever := b\<rparr>) = conn_base w"
  "conn_base (w\<lparr>scan_requested := b\<rparr>) = conn_base w"
  "conn_base (w\<lparr>creds_unsaved := b\<rparr>) = conn_base w"
  "conn_base (w\<lparr>scan_table := st\<rparr>) = conn_base w"
  "conn_base (w\<lparr>flash := fl\<rparr>) = conn_base w"
  "conn_base (w\<lparr>radio := r\<rparr>) = conn_base w"
  "conn_base (w\<lparr>order_ix := k\<rparr>) = conn_base w"
  "conn_base (w\<lparr>rr_unseen := u\<rparr>) = conn_base w"
  by (simp_all add: conn_base_def)

lemma conn_base_prof: "conn_base w \<Longrightarrow> length ps = 8 \<Longrightarrow> conn_base (w\<lparr>prof := ps\<rparr>)"
  by (simp add: conn_base_def)

lemma conn_base_order:
  "conn_base w \<Longrightarrow> length is \<le> 8 \<Longrightarrow> \<forall>i \<in> set is. i < 8 \<Longrightarrow> conn_base (w\<lparr>order := is\<rparr>)"
  by (simp add: conn_base_def list_all_iff)

lemma double_backoff:
  assumes "BACKOFF_MIN_MS \<le> (b :: u32)" "b \<le> BACKOFF_MAX_MS"
  shows "BACKOFF_MIN_MS \<le> (if b * 2 > BACKOFF_MAX_MS then BACKOFF_MAX_MS else b * 2)"
    and "(if b * 2 > BACKOFF_MAX_MS then BACKOFF_MAX_MS else b * 2) \<le> BACKOFF_MAX_MS"
proof -
  have "unat b \<le> 60000" "8000 \<le> unat b" using assms by (simp_all add: word_le_nat_alt)
  then have "unat (b * 2) = unat b * 2" by (subst unat_mult_lem [THEN iffD1]) simp_all
  then show "BACKOFF_MIN_MS \<le> (if b * 2 > BACKOFF_MAX_MS then BACKOFF_MAX_MS else b * 2)"
    "(if b * 2 > BACKOFF_MAX_MS then BACKOFF_MAX_MS else b * 2) \<le> BACKOFF_MAX_MS"
    using \<open>8000 \<le> unat b\<close> by (simp_all add: word_le_nat_alt word_less_nat_alt)
qed

lemma enter_wait_base: "conn_base w \<Longrightarrow> conn_base (enter_wait now w)"
  using double_backoff [of "backoff_ms w"] by (simp add: conn_base_def enter_wait_def Let_def)

lemma enter_wait_simps [simp]:
  "state (enter_wait now w) = ST_WAIT" "g_cfg (enter_wait now w) = g_cfg w"
  "scan_passes_left (enter_wait now w) = scan_passes_left w" "prof (enter_wait now w) = prof w"
  "order (enter_wait now w) = order w" "last_tick (enter_wait now w) = last_tick w"
  "order_ix (enter_wait now w) = order_ix w" "badpass_at (enter_wait now w) = badpass_at w"
  by (simp_all add: enter_wait_def Let_def)

lemma try_from_frame [simp]:
  "g_cfg (try_from E now w) = g_cfg w" "scan_passes_left (try_from E now w) = scan_passes_left w"
  "prof (try_from E now w) = prof w" "order (try_from E now w) = order w"
  "last_tick (try_from E now w) = last_tick w" "badpass_at (try_from E now w) = badpass_at w"
  by (induction E now w rule: try_from.induct; subst try_from.simps; simp add: Let_def)+

lemma try_from_outcome:
  assumes "conn_base w"
  shows "conn_base (try_from E now w) \<and>
    (state (try_from E now w) = ST_WAIT \<or>
     state (try_from E now w) = ST_TRY \<and> at_candidate (try_from E now w) \<and>
     attempt_at (try_from E now w) = now \<and> order_ix w \<le> order_ix (try_from E now w))"
  using assms
proof (induction E now w rule: try_from.induct)
  case (1 E now w)
  show ?case
  proof (cases "order_ix w < length (order w)")
    case False
    then show ?thesis using enter_wait_base [OF 1(2)] by (subst (1 2 3 4 5 6) try_from.simps) simp
  next
    case True
    let ?i = "order w ! order_ix w"
    let ?p = "profiles (cfg w) ! ?i"
    let ?a = "if password ?p ! 0 \<noteq> NUL then CYW43_AUTH_WPA3_WPA2_AES_PSK else CYW43_AUTH_OPEN"
    let ?w = "w\<lparr>radio := radio w @ [Wifi_Leave, Wifi_Connect (ssid ?p) (password ?p) ?a]\<rparr>"
    show ?thesis
    proof (cases "connect_async E (ssid ?p) (password ?p) ?a")
      case ok: True
      have e: "try_from E now w = ?w\<lparr>trying := ?i, attempt_at := now, state := ST_TRY\<rparr>"
        using True ok by (subst try_from.simps) (simp add: Let_def)
      have "?i < 8" using True 1(2) by (auto simp: conn_base_def list_all_length)
      with 1(2) True show ?thesis by (simp add: e at_candidate_def) (simp add: conn_base_def)
    next
      case no: False
      have e: "try_from E now w = try_from E now (?w\<lparr>order_ix := order_ix w + 1\<rparr>)"
        using True no by (subst try_from.simps) (simp add: Let_def)
      have "conn_base (?w\<lparr>order_ix := order_ix w + 1\<rparr>)" using 1(2) by simp
      from 1(1) [OF True refl refl refl refl no this] show ?thesis unfolding e by auto
    qed
  qed
qed

lemma conn_inv_base: "conn_inv w \<Longrightarrow> conn_base w"
  by (simp add: conn_inv_def)

lemma conn_inv_waiting: "conn_base w \<Longrightarrow> g_cfg w \<noteq> None \<Longrightarrow> state w = ST_WAIT \<Longrightarrow> conn_inv w"
  by (simp add: conn_inv_def)

lemma try_from_inv: "conn_base w \<Longrightarrow> g_cfg w \<noteq> None \<Longrightarrow> conn_inv (try_from E now w)"
  using try_from_outcome [of w E now] by (auto simp: conn_inv_def)

lemma length_rssi_fold:
  "length (fold (\<lambda>e ps. case f e of Some p \<Rightarrow> ps[p := g ps p e] | None \<Rightarrow> ps) es ps) = length ps"
  by (induction es arbitrary: ps) (auto split: option.splits)

lemma snapshot_rssi_prof_length [simp]: "length (prof (snapshot_rssi w)) = length (prof w)"
  by (simp add: snapshot_rssi_def Let_def length_rssi_fold split: option.splits)

lemma snapshot_rssi_eq: "snapshot_rssi w = w\<lparr>prof := prof (snapshot_rssi w)\<rparr>"
  by (simp add: snapshot_rssi_def Let_def split: option.splits)

lemma snapshot_rssi_simps [simp]:
  "g_cfg (snapshot_rssi w) = g_cfg w" "state (snapshot_rssi w) = state w"
  "scan_passes_left (snapshot_rssi w) = scan_passes_left w" "scan_table (snapshot_rssi w) = scan_table w"
  "badpass_at (snapshot_rssi w) = badpass_at w" "last_tick (snapshot_rssi w) = last_tick w"
  "attempt_at (snapshot_rssi w) = attempt_at w" "at_candidate (snapshot_rssi w) = at_candidate w"
  "order (snapshot_rssi w) = order w" "order_ix (snapshot_rssi w) = order_ix w"
  by (subst snapshot_rssi_eq; simp add: at_candidate_def)+

lemma snapshot_rssi_base: "conn_base w \<Longrightarrow> conn_base (snapshot_rssi w)"
  by (subst snapshot_rssi_eq, rule conn_base_prof) (simp_all add: conn_base_def)

lemma candidates_base:
  assumes "conn_base w"
  shows "conn_base (w\<lparr>order := wifi_pick_order (prof w) n a r, rr_unseen := u, order_ix := k\<rparr>)"
proof -
  have "conn_base (w\<lparr>order := wifi_pick_order (prof w) n a r\<rparr>)"
    using assms wifi_pick_order_length wifi_pick_order_bound by (intro conn_base_order) fastforce+
  then show ?thesis by simp
qed

lemma build_and_try_frame [simp]:
  "g_cfg (build_and_try E now w) = g_cfg w" "last_tick (build_and_try E now w) = last_tick w"
  "scan_passes_left (build_and_try E now w) = scan_passes_left w"
  "prof (build_and_try E now w) = prof w"
  "badpass_at (build_and_try E now w) = badpass_at w"
  by (simp_all add: build_and_try_def)

lemma build_and_try_inv: "conn_base w \<Longrightarrow> g_cfg w \<noteq> None \<Longrightarrow> conn_inv (build_and_try E now w)"
  unfolding build_and_try_def by (intro try_from_inv candidates_base) simp_all

lemma start_scan_eq:
  "start_scan E w = (fst (start_scan E w),
     w\<lparr>scan_table := scan_table (snd (start_scan E w)), radio := radio (snd (start_scan E w))\<rparr>)"
  by (simp add: start_scan_def split: prod.splits)

lemma start_scan_frame:
  assumes "start_scan E w = (ok, w')"
  shows "state w' = state w" "g_cfg w' = g_cfg w" "conn_base w' = conn_base w"
    "at_candidate w' = at_candidate w" "scan_passes_left w' = scan_passes_left w"
    "last_tick w' = last_tick w" "attempt_at w' = attempt_at w" "prof w' = prof w"
proof -
  have "w' = w\<lparr>scan_table := scan_table w', radio := radio w'\<rparr>"
    using start_scan_eq [of E w] unfolding assms by simp
  then obtain t r where "w' = w\<lparr>scan_table := t, radio := r\<rparr>" by blast
  then show "state w' = state w" "g_cfg w' = g_cfg w" "conn_base w' = conn_base w"
    "at_candidate w' = at_candidate w" "scan_passes_left w' = scan_passes_left w"
    "last_tick w' = last_tick w" "attempt_at w' = attempt_at w" "prof w' = prof w"
    by (simp_all add: at_candidate_def)
qed

lemma start_cycle_inv:
  assumes "conn_base w" "g_cfg w \<noteq> None"
  shows "conn_inv (start_cycle E now w)"
proof -
  have "conn_inv (w'\<lparr>scan_passes_left := 2\<rparr>)" "conn_inv (enter_wait now w')"
    if "start_scan E (w\<lparr>state := ST_SCAN\<rparr>) = (ok, w')" for ok w'
  proof -
    have b: "conn_base w'" "state w' = ST_SCAN" "g_cfg w' \<noteq> None"
      using start_scan_frame [OF that] assms by auto
    then show "conn_inv (w'\<lparr>scan_passes_left := 2\<rparr>)"
      by (simp add: conn_inv_def) (simp add: conn_base_def)
    show "conn_inv (enter_wait now w')" using b by (intro conn_inv_waiting enter_wait_base) auto
  qed
  moreover have "conn_inv (build_and_try E now (snapshot_rssi (w\<lparr>state := ST_SCAN\<rparr>)))"
    using assms by (intro build_and_try_inv snapshot_rssi_base) simp_all
  moreover have "conn_inv (w\<lparr>state := ST_IDLE\<rparr>)"
    using assms by (simp add: conn_inv_def)
  moreover obtain ok w' where "start_scan E (w\<lparr>state := ST_SCAN\<rparr>) = (ok, w')" by fastforce
  ultimately show ?thesis
    unfolding start_cycle_def Let_def by simp
qed

lemma pin_active_inv:
  assumes "conn_base w" "g_cfg w = Some c" "active c < profile_count c"
  shows "conn_inv (pin_active E now w)"
proof -
  have "active c < 8" using assms conn_base_cfg [OF assms(1,2)] by (auto dest: config_wfD(2))
  then have "conn_base (w\<lparr>order := [active c]\<rparr>)" using assms(1) by (intro conn_base_order) auto
  then show ?thesis unfolding pin_active_def using assms(2) by (intro try_from_inv) simp_all
qed

lemma length_to_front [simp]: "i < length xs \<Longrightarrow> length (to_front i xs) = length xs"
  by (simp add: to_front_def)

lemma config_save_wf: "config_wf c \<Longrightarrow> config_save F c fl = (ok, c', fl') \<Longrightarrow> config_wf c'"
  by (auto simp: config_save_def Let_def config_wf_def split: prod.splits)

text \<open>The state after the permutation of the profile list and before the save.\<close>

definition promote :: "wifi_conn \<Rightarrow> wifi_conn" where
  "promote w =
     (let c = fst (config_touch_profile ((cfg w)\<lparr>active := trying w\<rparr>) (int (trying w)));
          ps = to_front (trying w) (map unconnect (prof w))
      in w\<lparr>g_cfg := Some c, prof := ps[0 := (ps ! 0)\<lparr>status := WIFI_PROF_CONNECTED\<rparr>],
           badpass_at := to_front (trying w) (badpass_at w), trying := 0, state := ST_UP,
           fast_tries := FAST_RETRIES, backoff_ms := BACKOFF_MIN_MS\<rparr>)"

lemma to_front_0: "xs \<noteq> [] \<Longrightarrow> to_front 0 xs = xs"
  by (cases xs) (auto simp: to_front_def put_seg_def seg_def)

lemma joined_eq:
  assumes "conn_base w" "trying w < profile_count (cfg w)"
  shows "joined E w =
    (if creds_unsaved w
     then case config_save (flash_dev E) (cfg (promote w)) (flash w) of (ok, c, fl) \<Rightarrow>
            (promote w)\<lparr>g_cfg := Some c, flash := fl, creds_unsaved := False\<rparr>
     else promote w)"
proof -
  have ne: "prof w \<noteq> []" "badpass_at w \<noteq> []" using assms(1) by (auto simp: conn_base_def)
  show ?thesis
  proof (cases "trying w = 0")
    case True
    then have "fst (config_touch_profile ((cfg w)\<lparr>active := 0\<rparr>) 0) = (cfg w)\<lparr>active := 0\<rparr>"
      using assms(2) by (simp add: config_touch_profile_def)
    moreover obtain ok c fl where "config_save (flash_dev E) ((cfg w)\<lparr>active := 0\<rparr>) (flash w) = (ok, c, fl)"
      using prod_cases3 by blast
    ultimately show ?thesis
      using True assms(2) ne
      by (simp add: joined_def promote_def set_status_def Let_def to_front_0)
  next
    case False
    moreover obtain ok c fl where "config_save (flash_dev E)
        (fst (config_touch_profile ((cfg w)\<lparr>active := trying w\<rparr>) (int (trying w)))) (flash w) = (ok, c, fl)"
      using prod_cases3 by blast
    ultimately show ?thesis
      using assms(2) by (simp add: joined_def promote_def set_status_def Let_def)
  qed
qed

lemma promote_base:
  assumes "conn_base w" "g_cfg w = Some c" "trying w < profile_count c"
  shows "conn_base (promote w)"
proof -
  have "config_wf (c\<lparr>active := trying w\<rparr>)"
    using conn_base_cfg [OF assms(1,2)] assms(3) by (simp add: config_wf_def)
  from config_wf_touch [OF this, of "int (trying w)"] show ?thesis
    using assms by (simp add: conn_base_def promote_def Let_def)
qed

lemma promote_simps [simp]: "state (promote w) = ST_UP" "g_cfg (promote w) \<noteq> None"
  "flash (promote w) = flash w" "creds_unsaved (promote w) = creds_unsaved w"
  by (simp_all add: promote_def Let_def)

lemma joined_inv:
  assumes "conn_base w" "g_cfg w = Some c"
  shows "conn_inv (joined E w)"
proof (cases "trying w < profile_count c")
  case False
  then show ?thesis using assms by (simp add: joined_def conn_inv_def) (simp add: conn_base_def)
next
  case True
  note b = promote_base [OF assms True]
  obtain c' where c': "g_cfg (promote w) = Some c'" "config_wf c'"
    using conn_base_cfg [OF b] promote_simps(2) [of w] by (metis not_None_eq)
  have "conn_base ((promote w)\<lparr>g_cfg := Some d\<rparr>)" if "config_wf d" for d
    using b that by (simp add: conn_base_def)
  then show ?thesis
    using b c' True assms(2) config_save_wf [OF c'(2)]
    by (subst joined_eq [OF assms(1)]) (auto simp: conn_inv_def split: prod.splits)
qed

lemma set_status_inv [simp]:
  "conn_base (set_status i s w) = conn_base w" "g_cfg (set_status i s w) = g_cfg w"
  "state (set_status i s w) = state w" "scan_passes_left (set_status i s w) = scan_passes_left w"
  "at_candidate (set_status i s w) = at_candidate w" "badpass_at (set_status i s w) = badpass_at w"
  "conn_inv (set_status i s w) = conn_inv w" "order (set_status i s w) = order w"
  "order_ix (set_status i s w) = order_ix w" "last_tick (set_status i s w) = last_tick w"
  "attempt_at (set_status i s w) = attempt_at w" "trying (set_status i s w) = trying w"
  "cfg (set_status i s w) = cfg w" "fast_tries (set_status i s w) = fast_tries w"
  by (simp_all add: set_status_def conn_base_def at_candidate_def conn_inv_def)

definition decay_at :: "u32 \<Rightarrow> nat \<Rightarrow> wifi_conn \<Rightarrow> wifi_conn" where
  "decay_at now i w =
     (if status (prof w ! i) = WIFI_PROF_BADPASS \<and> now - badpass_at w ! i \<ge> BADPASS_RETRY_MS
      then set_status i WIFI_PROF_UNTRIED w else w)"

lemma decay_badpass_alt: "decay_badpass now w = fold (decay_at now) [0..<profile_count (cfg w)] w"
  by (simp add: decay_badpass_def decay_at_def [abs_def])

lemma decay_only_prof: "\<exists>ps. length ps = length (prof w) \<and> fold (decay_at now) is w = w\<lparr>prof := ps\<rparr>"
proof (induction "is" arbitrary: w)
  case Nil
  show ?case by (intro exI [of _ "prof w"]) simp
next
  case (Cons i "is")
  obtain qs where "length qs = length (prof w)" "decay_at now i w = w\<lparr>prof := qs\<rparr>"
  proof (cases "status (prof w ! i) = WIFI_PROF_BADPASS \<and> now - badpass_at w ! i \<ge> BADPASS_RETRY_MS")
    case True
    then show thesis
      by (intro that [of "(prof w)[i := (prof w ! i)\<lparr>status := WIFI_PROF_UNTRIED\<rparr>]"])
        (simp_all add: decay_at_def set_status_def)
  next
    case False
    then show thesis by (intro that [of "prof w"]) (auto simp: decay_at_def)
  qed
  moreover obtain ps where "length ps = length qs"
      "fold (decay_at now) is (w\<lparr>prof := qs\<rparr>) = w\<lparr>prof := qs, prof := ps\<rparr>"
    using Cons [of "w\<lparr>prof := qs\<rparr>"] by auto
  ultimately show ?case by auto
qed

lemma decay_frame [simp]:
  "conn_inv (decay_badpass now w) = conn_inv w" "g_cfg (decay_badpass now w) = g_cfg w"
  "state (decay_badpass now w) = state w" "badpass_at (decay_badpass now w) = badpass_at w"
  "scan_passes_left (decay_badpass now w) = scan_passes_left w"
  "last_tick (decay_badpass now w) = last_tick w" "order (decay_badpass now w) = order w"
  "order_ix (decay_badpass now w) = order_ix w" "attempt_at (decay_badpass now w) = attempt_at w"
  "trying (decay_badpass now w) = trying w" "flash (decay_badpass now w) = flash w"
  "creds_unsaved (decay_badpass now w) = creds_unsaved w"
proof -
  obtain ps where "length ps = length (prof w)" "decay_badpass now w = w\<lparr>prof := ps\<rparr>"
    unfolding decay_badpass_alt using decay_only_prof by blast
  then show "conn_inv (decay_badpass now w) = conn_inv w" "g_cfg (decay_badpass now w) = g_cfg w"
    "state (decay_badpass now w) = state w" "badpass_at (decay_badpass now w) = badpass_at w"
    "scan_passes_left (decay_badpass now w) = scan_passes_left w"
    "last_tick (decay_badpass now w) = last_tick w" "order (decay_badpass now w) = order w"
    "order_ix (decay_badpass now w) = order_ix w" "attempt_at (decay_badpass now w) = attempt_at w"
    "trying (decay_badpass now w) = trying w" "flash (decay_badpass now w) = flash w"
    "creds_unsaved (decay_badpass now w) = creds_unsaved w"
    by (simp_all add: conn_inv_def conn_base_def at_candidate_def)
qed

lemma conn_inv_frame:
  "conn_inv (w\<lparr>scan_table := t\<rparr>) = conn_inv w" "conn_inv (w\<lparr>radio := r\<rparr>) = conn_inv w"
  "conn_inv (w\<lparr>last_tick := u\<rparr>) = conn_inv w" "conn_inv (w\<lparr>scan_requested := b\<rparr>) = conn_inv w"
  "conn_inv (w\<lparr>creds_unsaved := b\<rparr>) = conn_inv w"
  "conn_inv (w\<lparr>scan_done_at := u, scan_ever := b\<rparr>) = conn_inv w"
  by (simp_all add: conn_inv_def at_candidate_def)

text \<open>The end of a manager scan: the counter reaches zero and the results are consumed.\<close>

definition finish_scan :: "radio_env \<Rightarrow> u32 \<Rightarrow> wifi_conn \<Rightarrow> wifi_conn" where
  "finish_scan E now w =
     (if scan_passes_left w = 0
      then let w = (snapshot_rssi w)\<lparr>scan_done_at := now, scan_ever := True\<rparr>
           in if state w = ST_SCAN then build_and_try E now w else w
      else w)"

lemma finish_scan_inv:
  assumes "conn_base w" "g_cfg w \<noteq> None" "state w = ST_TRY \<Longrightarrow> at_candidate w"
  shows "conn_inv (finish_scan E now w)"
proof -
  let ?w = "(snapshot_rssi w)\<lparr>scan_done_at := now, scan_ever := True\<rparr>"
  have b: "conn_base ?w" "g_cfg ?w \<noteq> None" "at_candidate ?w = at_candidate w" "state ?w = state w"
    using snapshot_rssi_base [OF assms(1)] assms(2) snapshot_rssi_simps(8) [of w]
    by (simp_all add: at_candidate_def del: snapshot_rssi_simps(8))
  have "conn_inv ?w" if "state w \<noteq> ST_SCAN"
    unfolding conn_inv_def using b that assms(3) by auto
  moreover have "conn_inv w" if "0 < scan_passes_left w"
    using assms that by (auto simp: conn_inv_def)
  ultimately show ?thesis
    using build_and_try_inv [OF b(1,2)] by (simp add: finish_scan_def Let_def)
qed

definition next_pass :: "radio_env \<Rightarrow> wifi_conn \<Rightarrow> wifi_conn" where
  "next_pass E w =
     (let w = w\<lparr>scan_passes_left := scan_passes_left w - 1\<rparr>
      in if scan_passes_left w > 0
         then let (ok, t) = wifi_scan_again (scan_ok E) (scan_table w); w = w\<lparr>scan_table := t\<rparr>
              in if \<not> ok then w\<lparr>scan_passes_left := 0\<rparr> else w
         else w)"

lemma next_pass_frame:
  "conn_base w \<Longrightarrow> conn_base (next_pass E w)" "g_cfg (next_pass E w) = g_cfg w"
  "state (next_pass E w) = state w" "at_candidate (next_pass E w) = at_candidate w"
  "scan_passes_left (next_pass E w) \<le> scan_passes_left w - 1" "prof (next_pass E w) = prof w"
  "attempt_at (next_pass E w) = attempt_at w" "last_tick (next_pass E w) = last_tick w"
  "order (next_pass E w) = order w" "order_ix (next_pass E w) = order_ix w"
  by (auto simp: next_pass_def Let_def at_candidate_def conn_base_def split: prod.splits)

text \<open>\<open>drive_scan\<close> by cases: a pass still running, a pass ended, a scan to start, nothing.\<close>

lemma drive_scan_cases:
  obtains (running) t where "0 < scan_passes_left w" "scanning t" "drive_scan E now w = w\<lparr>scan_table := t\<rparr>"
      "t = snd (wifi_scan_poll (scan_active E) (scan_table w))"
  | (ended) t where "0 < scan_passes_left w" "drive_scan E now w = finish_scan E now (next_pass E (w\<lparr>scan_table := t\<rparr>))"
  | (started) w' where "scan_passes_left w = 0" "state w \<noteq> ST_TRY" "scan_requested w"
      "start_scan E (w\<lparr>scan_requested := False\<rparr>) = (True, w')"
      "drive_scan E now w = w'\<lparr>scan_passes_left := 2, state := (if state w = ST_WAIT then ST_SCAN else state w)\<rparr>"
  | (refused) w' where "scan_passes_left w = 0" "state w \<noteq> ST_TRY" "scan_requested w"
      "start_scan E (w\<lparr>scan_requested := False\<rparr>) = (False, w')" "drive_scan E now w = w'"
  | (idle) "scan_passes_left w = 0" "drive_scan E now w = w"
proof (cases "0 < scan_passes_left w")
  case True
  define t where "t = snd (wifi_scan_poll (scan_active E) (scan_table w))"
  show thesis
  proof (cases "scanning t")
    case s: True
    show thesis using True s by (intro running [of t]) (simp_all add: drive_scan_def Let_def t_def wifi_scan_in_progress_def)
  next
    case s: False
    show thesis using True s
      by (intro ended [of t])
        (simp_all add: drive_scan_def t_def [symmetric] Let_def wifi_scan_in_progress_def finish_scan_def next_pass_def)
  qed
next
  case False
  show thesis
  proof (cases "scan_requested w \<and> state w \<noteq> ST_TRY")
    case True
    obtain ok w' where s: "start_scan E (w\<lparr>scan_requested := False\<rparr>) = (ok, w')" by fastforce
    have "state w' = state w" using start_scan_frame(1) [OF s] by simp
    then show thesis using False True s started refused
      by (cases ok) (auto simp: drive_scan_def Let_def)
  next
    case no: False
    then have "drive_scan E now w = w" using False unfolding drive_scan_def by argo
    then show thesis using False by (intro idle) simp_all
  qed
qed

lemma drive_scan_inv:
  assumes "conn_inv w" "g_cfg w \<noteq> None"
  shows "conn_inv (drive_scan E now w)" and "g_cfg (drive_scan E now w) = g_cfg w"
proof -
  have "conn_inv (drive_scan E now w) \<and> g_cfg (drive_scan E now w) = g_cfg w"
  proof (cases rule: drive_scan_cases [of w E now])
    case (ended t)
    let ?w = "next_pass E (w\<lparr>scan_table := t\<rparr>)"
    have "conn_inv (finish_scan E now ?w)"
    proof (rule finish_scan_inv)
      show "conn_base ?w" using assms(1) by (intro next_pass_frame(1)) (simp add: conn_inv_def)
      show "g_cfg ?w \<noteq> None" using assms(2) by (simp add: next_pass_frame)
      show "at_candidate ?w" if "state ?w = ST_TRY"
        using that assms(1) by (simp add: next_pass_frame conn_inv_def) (simp add: at_candidate_def)
    qed
    then show ?thesis by (simp add: ended(2) finish_scan_def Let_def next_pass_frame)
  next
    case (started w')
    note f = start_scan_frame [OF started(4)]
    have "conn_base (w'\<lparr>scan_passes_left := 2\<rparr>)"
      using f(3) conn_inv_base [OF assms(1)] by (simp add: conn_base_def)
    then show ?thesis using started(2,5) f assms by (auto simp: conn_inv_def)
  next
    case (refused w')
    note f = start_scan_frame [OF refused(4)]
    then show ?thesis using refused(2,5) assms by (auto simp: conn_inv_def)
  qed (use assms in \<open>simp_all add: conn_inv_frame\<close>)
  then show "conn_inv (drive_scan E now w)" "g_cfg (drive_scan E now w) = g_cfg w" by auto
qed

lemma try_next_inv: "conn_base w \<Longrightarrow> g_cfg w \<noteq> None \<Longrightarrow> conn_inv (try_next E now w)"
  unfolding try_next_def by (intro try_from_inv) simp_all

lemma tick_try_inv:
  assumes "conn_inv w" "g_cfg w = Some c"
  shows "conn_inv (tick_try E now w)"
proof -
  have "conn_base ((set_status i s w)\<lparr>badpass_at := (badpass_at w)[j := x]\<rparr>)" for i s j x
    using conn_inv_base [OF assms(1)] by (simp add: set_status_def conn_base_def)
  then show ?thesis
    using assms joined_inv [OF conn_inv_base [OF assms(1)] assms(2)] conn_inv_base [OF assms(1)]
    by (auto simp: tick_try_def Let_def intro!: try_next_inv)
qed

lemma tick_up_inv:
  assumes "conn_inv w" "g_cfg w = Some c"
  shows "conn_inv (tick_up E now w)"
proof -
  have b: "conn_base (w\<lparr>prof := map unconnect (prof w)\<rparr>)"
    using conn_inv_base [OF assms(1)] by (intro conn_base_prof) (simp_all add: conn_base_def)
  then have "conn_base (w\<lparr>prof := map unconnect (prof w), fast_tries := fast_tries w - 1\<rparr>)"
    by (auto simp: conn_base_def)
  with b assms show ?thesis
    by (auto simp: tick_up_def Let_def intro!: pin_active_inv start_cycle_inv)
qed

lemma tick_switch_inv:
  assumes "conn_inv w" "g_cfg w = Some c"
  shows "conn_inv (tick_switch E now w)"
  using assms tick_up_inv [OF assms] tick_try_inv [OF assms]
    joined_inv [OF conn_inv_base [OF assms(1)] assms(2)] start_cycle_inv [OF conn_inv_base [OF assms(1)]]
  by (auto simp: tick_switch_def split: conn_state.splits)

lemma wifi_conn_task_inv:
  assumes "conn_inv w"
  shows "conn_inv (wifi_conn_task E now w)"
proof (cases "g_cfg w")
  case (Some c)
  let ?w = "decay_badpass now (w\<lparr>last_tick := now\<rparr>)"
  have w: "conn_inv ?w" "g_cfg ?w = Some c" using assms Some by (simp_all add: conn_inv_frame)
  have "conn_inv (tick_switch E now (drive_scan E now ?w))"
    using drive_scan_inv [OF w(1)] w(2) by (intro tick_switch_inv [of _ c]) auto
  with w assms show ?thesis by (simp add: wifi_conn_task_def Let_def)
qed (use assms in \<open>simp add: wifi_conn_task_def\<close>)

lemma clear_prof_base: "conn_base w \<Longrightarrow> conn_base (clear_prof w)"
  by (simp add: clear_prof_def conn_base_def)

lemma clear_prof_simps [simp]: "g_cfg (clear_prof w) = g_cfg w"
  by (simp add: clear_prof_def)

lemma wifi_conn_apply_inv:
  assumes "conn_inv w"
  shows "conn_inv (wifi_conn_apply E now w)"
proof (cases "g_cfg w")
  case (Some c)
  let ?w = "(snapshot_rssi (clear_prof w))\<lparr>backoff_ms := 8000, radio := radio (snapshot_rssi (clear_prof w)) @ [Wifi_Leave]\<rparr>"
  have "conn_base (snapshot_rssi (clear_prof w))"
    using conn_inv_base [OF assms] by (intro snapshot_rssi_base clear_prof_base)
  then have "conn_base ?w" "g_cfg ?w = Some c" using Some by (simp_all add: conn_base_def)
  then show ?thesis
    using Some pin_active_inv [of ?w c E now]
    by (simp add: wifi_conn_apply_def Let_def conn_inv_waiting)
qed (use assms in \<open>simp add: wifi_conn_apply_def\<close>)

lemma wifi_conn_init_inv:
  assumes "conn_inv w" "config_wf c"
  shows "conn_inv (wifi_conn_init E now c w)"
proof -
  let ?w = "snapshot_rssi (clear_prof (w\<lparr>g_cfg := Some c\<rparr>))"
  have "conn_base (w\<lparr>g_cfg := Some c\<rparr>)"
    using assms by (simp add: conn_inv_def conn_base_def)
  then have "conn_base ?w" "g_cfg ?w = Some c"
    by (simp_all add: snapshot_rssi_base clear_prof_base)
  then show ?thesis
    using pin_active_inv [of ?w c E now] by (simp add: wifi_conn_init_def Let_def conn_inv_def)
qed

section \<open>Every interleaving\<close>

text \<open>
  The calls the rest of the firmware makes: the boot-time initialisation, main-loop ticks,
  the entry points used by the console and the portal, and what those do underneath the
  manager: an edit of the shared configuration that keeps it well formed, and use of the
  shared scan table.
\<close>

inductive conn_step :: "wifi_conn \<Rightarrow> wifi_conn \<Rightarrow> bool" where
  step_init: "g_cfg w = None \<Longrightarrow> config_wf c \<Longrightarrow> conn_step w (wifi_conn_init E now c w)"
| step_task: "conn_step w (wifi_conn_task E now w)"
| step_apply: "conn_step w (wifi_conn_apply E now w)"
| step_mark: "conn_step w (wifi_conn_mark_creds_unsaved w)"
| step_note: "conn_step w (wifi_conn_note_saved w)"
| step_request: "conn_step w (wifi_conn_request_scan w)"
| step_edit: "g_cfg w = Some c \<Longrightarrow> config_wf c' \<Longrightarrow> conn_step w (w\<lparr>g_cfg := Some c'\<rparr>)"
| step_scan: "conn_step w (w\<lparr>scan_table := t\<rparr>)"

abbreviation conn_reachable :: "bytes \<Rightarrow> wifi_conn \<Rightarrow> bool" where
  "conn_reachable sector w \<equiv> conn_step\<^sup>*\<^sup>* (conn_boot sector) w"

lemma conn_step_inv: "conn_step w w' \<Longrightarrow> conn_inv w \<Longrightarrow> conn_inv w'"
proof (induction rule: conn_step.induct)
  case (step_edit w c c')
  then show ?case by (simp add: conn_inv_def conn_base_def at_candidate_def)
qed (simp_all add: wifi_conn_init_inv wifi_conn_task_inv wifi_conn_apply_inv conn_inv_frame
    wifi_conn_mark_creds_unsaved_def wifi_conn_note_saved_def wifi_conn_request_scan_def)

lemma conn_boot_inv: "conn_inv (conn_boot sector)"
  by (simp add: conn_inv_def conn_base_def conn_boot_def)

lemma conn_reachable_inv: "conn_reachable sector w \<Longrightarrow> conn_inv w"
  by (induction rule: rtranclp_induct) (auto simp: conn_boot_inv dest: conn_step_inv)

section \<open>Progress of a cycle\<close>

text \<open>How many expired deadlines the current cycle can still absorb.\<close>

fun conn_left :: "wifi_conn \<Rightarrow> nat" where
  "conn_left w = (case state w of ST_TRY \<Rightarrow> length (order w) - order_ix w
                  | ST_SCAN \<Rightarrow> 8 + scan_passes_left w | _ \<Rightarrow> 0)"

text \<open>A tick at which nothing comes up: no link, the scan pass is over, the console is away.\<close>

definition dead_env :: "radio_env \<Rightarrow> bool" where
  "dead_env E \<longleftrightarrow> \<not> link E \<and> \<not> owns_scan E \<and> \<not> scan_active E"

fun dead_ticks :: "u32 \<Rightarrow> (u32 \<times> radio_env) list \<Rightarrow> bool" where
  "dead_ticks t [] = True"
| "dead_ticks t ((now, E) # ts) \<longleftrightarrow> dead_env E \<and> JOIN_TIMEOUT_MS \<le> now - t \<and> dead_ticks now ts"

definition run_ticks :: "(u32 \<times> radio_env) list \<Rightarrow> wifi_conn \<Rightarrow> wifi_conn" where
  "run_ticks ts w = fold (\<lambda>(now, E). wifi_conn_task E now) ts w"

text \<open>Where an attempt leaves the machine: in a wait whose deadline is ahead, or trying.\<close>

definition fresh_wait :: "u32 \<Rightarrow> wifi_conn \<Rightarrow> bool" where
  "fresh_wait now w \<longleftrightarrow> state w = ST_WAIT \<and> sint (now - wait_until w) < 0"

definition fresh_try :: "u32 \<Rightarrow> nat \<Rightarrow> wifi_conn \<Rightarrow> bool" where
  "fresh_try now k w \<longleftrightarrow> state w = ST_TRY \<and> attempt_at w = now \<and> k \<le> order_ix w \<and> order_ix w < length (order w)"

lemma minus_backoff_neg:
  assumes "BACKOFF_MIN_MS \<le> (b :: u32)" "b \<le> BACKOFF_MAX_MS"
  shows "sint (now - (now + b)) < 0"
proof -
  have b: "8000 \<le> uint b" "uint b \<le> 60000" using assms by (simp_all add: word_le_def)
  then have "sint b = uint b" by (simp add: sint_uint signed_take_bit_int_eq_self_iff)
  then have "sint (- b) = - uint b"
    using b by (simp add: sint_word_ariths(4) signed_take_bit_int_eq_self_iff)
  then show ?thesis using b by simp
qed

lemma enter_wait_fresh: "conn_base w \<Longrightarrow> fresh_wait now (enter_wait now w)"
  using minus_backoff_neg [of "backoff_ms w" now]
  by (simp add: fresh_wait_def enter_wait_def Let_def conn_base_def)

lemma try_from_wait:
  "conn_base w \<Longrightarrow> state (try_from E now w) = ST_WAIT \<Longrightarrow> fresh_wait now (try_from E now w)"
proof (induction E now w rule: try_from.induct)
  case (1 E now w)
  have e: "try_from E now w = enter_wait now w" if "\<not> order_ix w < length (order w)"
    using that by (subst try_from.simps) simp
  show ?case
  proof (cases "order_ix w < length (order w)")
    case False
    then show ?thesis using enter_wait_fresh [OF 1(2)] by (simp add: e)
  next
    case True
    let ?i = "order w ! order_ix w"
    let ?p = "profiles (cfg w) ! ?i"
    let ?a = "if password ?p ! 0 \<noteq> NUL then CYW43_AUTH_WPA3_WPA2_AES_PSK else CYW43_AUTH_OPEN"
    let ?w = "w\<lparr>radio := radio w @ [Wifi_Leave, Wifi_Connect (ssid ?p) (password ?p) ?a],
                order_ix := order_ix w + 1\<rparr>"
    have n: "\<not> connect_async E (ssid ?p) (password ?p) ?a"
      using 1(3) True by (subst (asm) try_from.simps) (auto simp: Let_def split: if_splits)
    have e: "try_from E now w = try_from E now ?w"
      using True n by (subst try_from.simps) (simp add: Let_def)
    show ?thesis
      using 1(1) [OF True refl refl refl refl n] 1(2,3) unfolding e by simp
  qed
qed

lemma try_from_fresh:
  assumes "conn_base w"
  shows "fresh_wait now (try_from E now w) \<or> fresh_try now (order_ix w) (try_from E now w)"
  using try_from_outcome [OF assms, of E now] try_from_wait [OF assms, of E now]
  by (auto simp: fresh_try_def at_candidate_def)

lemma build_and_try_fresh:
  assumes "conn_base w"
  shows "fresh_wait now (build_and_try E now w) \<or> fresh_try now 0 (build_and_try E now w)"
proof -
  let ?w = "w\<lparr>order := wifi_pick_order (prof w) (profile_count (cfg w)) (active (cfg w)) (unat (rr_unseen w)),
              rr_unseen := rr_unseen w + 1, order_ix := 0\<rparr>"
  have "conn_base ?w" by (rule candidates_base [OF assms])
  from try_from_fresh [OF this, of now E] show ?thesis by (simp add: build_and_try_def)
qed

lemma drive_scan_in_try:
  assumes "state w = ST_TRY"
  shows "state (drive_scan E now w) = ST_TRY" "order (drive_scan E now w) = order w"
    "order_ix (drive_scan E now w) = order_ix w" "attempt_at (drive_scan E now w) = attempt_at w"
    "trying (drive_scan E now w) = trying w" "creds_unsaved (drive_scan E now w) = creds_unsaved w"
    "flash (drive_scan E now w) = flash w" "last_tick (drive_scan E now w) = last_tick w"
proof -
  have n: "next_pass E w = w\<lparr>scan_passes_left := scan_passes_left (next_pass E w),
      scan_table := scan_table (next_pass E w)\<rparr>" for w
    by (simp add: next_pass_def Let_def split: prod.splits)
  obtain p ps t r d v where "drive_scan E now w =
      w\<lparr>scan_passes_left := p, scan_table := t, prof := ps, scan_requested := r, scan_done_at := d, scan_ever := v\<rparr>"
  proof (cases rule: drive_scan_cases [of w E now])
    case (running t)
    then show ?thesis by (intro that [where p = "scan_passes_left w" and ps = "prof w" and t = t and
          r = "scan_requested w" and d = "scan_done_at w" and v = "scan_ever w"]) simp
  next
    case (ended t)
    let ?n = "next_pass E (w\<lparr>scan_table := t\<rparr>)"
    have "finish_scan E now ?n = (if scan_passes_left ?n = 0
        then (snapshot_rssi ?n)\<lparr>scan_done_at := now, scan_ever := True\<rparr> else ?n)"
      using assms by (simp add: finish_scan_def Let_def next_pass_frame)
    also let ?r = "w\<lparr>scan_passes_left := scan_passes_left ?n, scan_table := scan_table ?n,
        prof := (if scan_passes_left ?n = 0 then prof (snapshot_rssi ?n) else prof w),
        scan_requested := scan_requested w,
        scan_done_at := (if scan_passes_left ?n = 0 then now else scan_done_at w),
        scan_ever := (if scan_passes_left ?n = 0 then True else scan_ever w)\<rparr>"
    have "\<dots> = ?r"
      (is "?l = _")
    proof (cases "scan_passes_left ?n = 0")
      case True
      have "?l = ?n\<lparr>prof := prof (snapshot_rssi ?n), scan_done_at := now, scan_ever := True\<rparr>"
        using True by (subst snapshot_rssi_eq) simp
      also have "\<dots> = ?r" using True by (subst (1) n) simp
      finally show ?thesis .
    next
      case False
      then have "?l = ?n" by simp
      also have "\<dots> = ?r" using False by (subst (1) n) simp
      finally show ?thesis .
    qed
    finally have f: "finish_scan E now ?n = ?r" .
    show ?thesis by (rule that, rule trans [OF ended(2)], rule f)
  next
    case idle
    then show ?thesis
      by (intro that [where p = "scan_passes_left w" and ps = "prof w" and t = "scan_table w" and
          r = "scan_requested w" and d = "scan_done_at w" and v = "scan_ever w"]) simp
  qed (use assms in auto)
  then show "state (drive_scan E now w) = ST_TRY" "order (drive_scan E now w) = order w"
    "order_ix (drive_scan E now w) = order_ix w" "attempt_at (drive_scan E now w) = attempt_at w"
    "trying (drive_scan E now w) = trying w" "creds_unsaved (drive_scan E now w) = creds_unsaved w"
    "flash (drive_scan E now w) = flash w" "last_tick (drive_scan E now w) = last_tick w"
    using assms by simp_all
qed

lemma try_from_left:
  fixes E :: radio_env and now :: u32
  assumes "conn_base w" "length (order w) - order_ix w \<le> Suc n"
  defines "v \<equiv> try_next E now w"
  shows "state v = ST_WAIT \<or> state v = ST_TRY \<and> attempt_at v = now \<and> conn_left v \<le> n \<and> conn_left v > 0"
proof -
  have b: "conn_base (w\<lparr>order_ix := order_ix w + 1\<rparr>)" using assms(1) by simp
  have "order v = order w" by (simp add: v_def try_next_def)
  then show ?thesis
    using try_from_fresh [OF b, of now E] assms(2)
    by (auto simp: v_def try_next_def fresh_wait_def fresh_try_def)
qed

lemma tick_try_left:
  fixes E :: radio_env and now :: u32
  assumes "conn_base w" "\<not> link E" "length (order w) - order_ix w \<le> Suc n"
    and "now - attempt_at w \<ge> JOIN_TIMEOUT_MS"
  defines "v \<equiv> tick_try E now w"
  shows "state v = ST_WAIT \<or> state v = ST_TRY \<and> attempt_at v = now \<and> conn_left v \<le> n \<and> conn_left v > 0"
proof -
  let ?b = "(set_status (trying w) WIFI_PROF_BADPASS w)\<lparr>badpass_at := (badpass_at w)[trying w := now]\<rparr>"
  let ?n = "set_status (trying w) WIFI_PROF_NOJOIN w"
  have "v = try_next E now ?b \<or> v = try_next E now ?n"
    using assms(2,4) by (auto simp: v_def tick_try_def Let_def)
  moreover have "conn_base ?b" using assms(1) by (simp add: set_status_def conn_base_def)
  ultimately show ?thesis
    using try_from_left [of ?b n E now] try_from_left [of ?n n E now] assms(1,3) by auto
qed

lemma tick_fresh_try:
  assumes "conn_base w" "\<not> link E" "state w = ST_TRY" "attempt_at w = now" "order_ix w < length (order w)"
  defines "v \<equiv> tick_switch E now w"
  shows "state v = ST_WAIT \<or> state v = ST_TRY \<and> attempt_at v = now \<and> conn_left v \<le> 8 \<and> conn_left v > 0"
proof -
  let ?b = "(set_status (trying w) WIFI_PROF_BADPASS w)\<lparr>badpass_at := (badpass_at w)[trying w := now]\<rparr>"
  let ?n = "set_status (trying w) WIFI_PROF_NOJOIN w"
  have l': "length (order w) - order_ix w \<le> Suc 7" using assms(1) by (auto simp: conn_base_def)
  have "v = try_next E now ?b \<or> v = try_next E now ?n \<or> v = w"
    using assms(2,3) by (auto simp: v_def tick_switch_def tick_try_def Let_def)
  moreover have "conn_base ?b" using assms(1) by (simp add: set_status_def conn_base_def)
  ultimately show ?thesis
    using try_from_left [of ?b 7 E now] try_from_left [of ?n 7 E now] assms(1,3,4,5) l' by auto
qed

text \<open>A tick at which nothing comes up brings the cycle strictly nearer to its end.\<close>

lemma dead_tick:
  assumes "conn_inv w" "state w = ST_TRY \<or> state w = ST_SCAN" "dead_env E"
    and "now - last_tick w \<ge> 100" "state w = ST_TRY \<Longrightarrow> now - attempt_at w \<ge> JOIN_TIMEOUT_MS"
  defines "v \<equiv> wifi_conn_task E now w"
  shows "state v = ST_WAIT \<or>
    (state v = ST_TRY \<and> attempt_at v = now \<or> state v = ST_SCAN) \<and> conn_left v < conn_left w"
proof -
  define u where "u = decay_badpass now (w\<lparr>last_tick := now\<rparr>)"
  obtain c where c: "g_cfg w = Some c" using assms(1,2) by (auto simp: conn_inv_def)
  then have g: "g_cfg w \<noteq> None" by simp
  have E: "\<not> link E" "\<not> owns_scan E" "\<not> scan_active E" using assms(3) by (auto simp: dead_env_def)
  have gate: "\<not> now - last_tick w < 100" using assms(4) by (simp add: not_less)
  have v: "v = tick_switch E now (drive_scan E now u)"
    using c gate E by (simp add: v_def u_def wifi_conn_task_def Let_def)
  have u: "conn_inv u" "state u = state w" "order u = order w" "order_ix u = order_ix w"
    "attempt_at u = attempt_at w" "g_cfg u = g_cfg w" "scan_passes_left u = scan_passes_left w"
    using assms(1) by (simp_all add: u_def conn_inv_frame)
  note d = drive_scan_inv [OF u(1), of E now]
  show ?thesis
  proof (cases "state w = ST_TRY")
    case True
    note t = drive_scan_in_try [of u E now]
    have "at_candidate w" using assms(1) True by (simp add: conn_inv_def)
    moreover have "v = tick_try E now (drive_scan E now u)" using t u True by (simp add: v tick_switch_def)
    moreover have "conn_base (drive_scan E now u)" using d g u by (intro conn_inv_base) auto
    moreover obtain n where n: "length (order w) - order_ix w = Suc n"
      using calculation(1) by (metis at_candidate_def Suc_diff_Suc)
    ultimately have "state v = ST_WAIT \<or> state v = ST_TRY \<and> attempt_at v = now \<and> conn_left v \<le> n \<and> conn_left v > 0"
      using tick_try_left [of "drive_scan E now u" E n now] t u True E(1) assms(5) by simp
    moreover have "conn_left w = Suc n" using True n by simp
    ultimately show ?thesis by linarith
  next
    case False
    then have s: "state w = ST_SCAN" using assms(2) by simp
    then have p: "0 < scan_passes_left u" using u(1,2) by (simp add: conn_inv_def)
    show ?thesis
    proof (cases rule: drive_scan_cases [of u E now])
      case (running t)
      then show ?thesis using E(3) by (simp add: wifi_scan_poll_def split: if_splits)
    next
      case (ended t)
      define x where "x = next_pass E (u\<lparr>scan_table := t\<rparr>)"
      have x: "conn_base x" "state x = ST_SCAN" "scan_passes_left x < scan_passes_left u" "g_cfg x = g_cfg w"
        using next_pass_frame(5) [of E "u\<lparr>scan_table := t\<rparr>"] conn_inv_base [OF u(1)] u s p
        by (auto simp: x_def next_pass_frame)
      show ?thesis
      proof (cases "scan_passes_left x = 0")
        case False
        then have "drive_scan E now u = x" by (simp add: ended(2) finish_scan_def x_def)
        then show ?thesis using x E s u by (simp add: v tick_switch_def)
      next
        case fin: True
        let ?x = "(snapshot_rssi x)\<lparr>scan_done_at := now, scan_ever := True\<rparr>"
        have b: "conn_base ?x" using snapshot_rssi_base [OF x(1)] by simp
        have e: "drive_scan E now u = build_and_try E now ?x"
          using fin x by (simp add: ended(2) finish_scan_def Let_def x_def [symmetric])
        have bi: "conn_base (build_and_try E now ?x)"
          using b x(4) g by (intro conn_inv_base [OF build_and_try_inv]) simp_all
        have "fresh_wait now (build_and_try E now ?x) \<or> fresh_try now 0 (build_and_try E now ?x)"
          using build_and_try_fresh [OF b] .
        then show ?thesis
          using tick_fresh_try [OF bi E(1), of now] s p u E(1)
          by (auto simp: v e tick_switch_def fresh_wait_def fresh_try_def)
      qed
    qed (use p in simp_all)
  qed
qed

lemma start_cycle_last_tick [simp]: "last_tick (start_cycle E now w) = last_tick w"
proof -
  obtain ok w' where "start_scan E (w\<lparr>state := ST_SCAN\<rparr>) = (ok, w')" by fastforce
  then show ?thesis using start_scan_frame(6) [of E "w\<lparr>state := ST_SCAN\<rparr>" ok w']
    by (simp add: start_cycle_def Let_def)
qed

lemma joined_last_tick [simp]: "last_tick (joined E w) = last_tick w"
  by (simp add: joined_def set_status_def Let_def split: prod.splits)

lemma drive_scan_last_tick [simp]: "last_tick (drive_scan E now w) = last_tick w"
  by (cases rule: drive_scan_cases [of w E now])
    (auto simp: finish_scan_def Let_def next_pass_frame dest: start_scan_frame(6))

lemma task_last_tick:
  assumes "g_cfg w \<noteq> None" "100 \<le> now - last_tick w"
  shows "last_tick (wifi_conn_task E now w) = now"
proof -
  have "last_tick (tick_switch E now v) = last_tick v" for v
    by (auto simp: tick_switch_def tick_up_def tick_try_def try_next_def pin_active_def Let_def
        split: conn_state.splits)
  then show ?thesis using assms by (auto simp: wifi_conn_task_def Let_def not_less [symmetric])
qed

lemma dead_run:
  assumes "conn_inv w" "state w = ST_TRY \<or> state w = ST_SCAN" "dead_ticks (last_tick w) ts"
    and "conn_left w \<le> length ts"
    and "state w = ST_TRY \<Longrightarrow> JOIN_TIMEOUT_MS \<le> fst (hd ts) - attempt_at w"
  shows "\<exists>k \<le> length ts. state (run_ticks (take k ts) w) = ST_WAIT"
  using assms
proof (induction ts arbitrary: w)
  case Nil
  then show ?case by (auto simp: conn_inv_def at_candidate_def)
next
  case (Cons a ts)
  obtain now E where a: "a = (now, E)" by force
  let ?v = "wifi_conn_task E now w"
  have d: "dead_env E" "JOIN_TIMEOUT_MS \<le> now - last_tick w" "dead_ticks now ts"
    using Cons.prems(3) by (simp_all add: a)
  have gate: "100 \<le> now - last_tick w" using d(2) by (rule order_trans [rotated]) simp
  have v: "state ?v = ST_WAIT \<or>
      (state ?v = ST_TRY \<and> attempt_at ?v = now \<or> state ?v = ST_SCAN) \<and> conn_left ?v < conn_left w"
    using dead_tick [OF Cons.prems(1,2) d(1) gate] Cons.prems(5) by (simp add: a)
  have run: "run_ticks (take (Suc k) (a # ts)) w = run_ticks (take k ts) ?v" for k
    by (simp add: run_ticks_def a)
  show ?case
  proof (cases "state ?v = ST_WAIT")
    case True
    then have "state (run_ticks (take (Suc 0) (a # ts)) w) = ST_WAIT" unfolding run by (simp add: run_ticks_def)
    then show ?thesis by (intro exI [of _ "Suc 0"]) simp
  next
    case False
    then have s: "state ?v = ST_TRY \<and> attempt_at ?v = now \<or> state ?v = ST_SCAN" "conn_left ?v < conn_left w"
      using v by auto
    have inv: "conn_inv ?v" by (rule wifi_conn_task_inv [OF Cons.prems(1)])
    have left: "conn_left ?v \<le> length ts" using s(2) Cons.prems(4) by simp
    have pos: "0 < conn_left ?v" using s(1) inv by (auto simp: conn_inv_def at_candidate_def)
    then obtain b ts' where ts: "ts = b # ts'" using left by (cases ts) auto
    have t: "last_tick ?v = now" using Cons.prems(1,2) gate by (intro task_last_tick) (auto simp: conn_inv_def)
    have dl: "JOIN_TIMEOUT_MS \<le> fst (hd ts) - now" using d(3) by (cases b) (simp add: ts)
    have "\<exists>k \<le> length ts. state (run_ticks (take k ts) ?v) = ST_WAIT"
      using Cons.IH [OF inv _ _ left] s(1) d(3) t dl by auto
    then obtain k where "k \<le> length ts" "state (run_ticks (take k ts) ?v) = ST_WAIT" by blast
    then show ?thesis by (intro exI [of _ "Suc k"]) (simp add: run del: take_Suc_Cons)
  qed
qed

lemma set_to_front: "i < length xs \<Longrightarrow> set (to_front i xs) \<subseteq> set xs"
proof -
  assume i: "i < length xs"
  have "set (put_seg xs 1 (seg xs 0 i)) \<subseteq> set xs"
    unfolding put_seg_def seg_def by (auto dest: in_set_takeD in_set_dropD)
  then show ?thesis
    unfolding to_front_def using i set_update_subset_insert nth_mem [OF i] by fastforce
qed

lemma promote_join:
  assumes "conn_base w" "g_cfg w = Some c" "trying w < profile_count c"
  shows "config_wf (cfg (promote w))"
    and "saved (cfg (promote w)) = saved c ! trying w # remove_nth (trying w) (saved c)"
    and "active_profile (cfg (promote w)) = Some (saved c ! trying w)"
    and "\<forall>j < 8. status (prof (promote w) ! j) = WIFI_PROF_CONNECTED \<longleftrightarrow> j = 0"
proof -
  let ?c = "c\<lparr>active := trying w\<rparr>"
  have wf: "config_wf ?c" using conn_base_cfg [OF assms(1,2)] assms(3) by (simp add: config_wf_def)
  have s: "saved ?c = saved c" by (simp add: saved_def)
  have e: "cfg (promote w) = fst (config_touch_profile ?c (int (trying w)))"
    by (simp add: promote_def Let_def assms(2))
  show "config_wf (cfg (promote w))" unfolding e by (rule config_wf_touch [OF wf])
  show "saved (cfg (promote w)) = saved c ! trying w # remove_nth (trying w) (saved c)"
    unfolding e using saved_touch [OF wf, of "trying w"] assms(3) by (simp add: s)
  show "active_profile (cfg (promote w)) = Some (saved c ! trying w)"
    unfolding e using active_touch [OF wf, of "trying w"] assms(3) by (simp add: active_profile_saved s)
  let ?ps = "to_front (trying w) (map unconnect (prof w))"
  have t: "trying w < length (map unconnect (prof w))" "length (prof w) = 8"
    using assms(1) by (simp_all add: conn_base_def)
  have "status (?ps ! j) \<noteq> WIFI_PROF_CONNECTED" if "j < 8" for j
  proof -
    have "?ps ! j \<in> set (map unconnect (prof w))" using that t set_to_front [OF t(1)] by (metis length_map length_to_front nth_mem subsetD)
    then show ?thesis by (auto simp: unconnect_def)
  qed
  then show "\<forall>j < 8. status (prof (promote w) ! j) = WIFI_PROF_CONNECTED \<longleftrightarrow> j = 0"
    using t by (auto simp: promote_def Let_def nth_list_update)
qed

lemma config_save_saved:
  "config_save F c fl = (ok, c', fl') \<Longrightarrow> saved c' = saved c \<and> active_profile c' = active_profile c"
  by (auto simp: config_save_def Let_def saved_def active_profile_def split: prod.splits)

lemma config_save_ok:
  "config_save F c fl = (ok, c', fl') \<Longrightarrow> \<forall>f s. fst (flash_safe_execute F f s) \<Longrightarrow> ok"
  by (auto simp: config_save_def Let_def split: prod.splits) (metis fst_conv)

lemma config_save_load:
  "config_wf c \<Longrightarrow> flash_driver_ok F \<Longrightarrow> length fl = FLASH_SECTOR_SIZE \<Longrightarrow>
   config_save F c fl = (ok, c', fl') \<Longrightarrow> ok \<Longrightarrow> config_load B fl' = c'"
  using config_save_effect [of c F fl c' fl'] config_load_sealed [of c] by simp

lemma decay_status:
  assumes "n \<le> length (prof w)" "i < n"
  shows "status (prof (fold (decay_at now) [0..<n] w) ! i) =
    (if status (prof w ! i) = WIFI_PROF_BADPASS \<and> \<not> now - badpass_at w ! i < BADPASS_RETRY_MS
     then WIFI_PROF_UNTRIED else status (prof w ! i))"
proof -
  have "m \<le> length (prof w) \<Longrightarrow> badpass_at (fold (decay_at now) [0..<m] w) = badpass_at w \<and>
      length (prof (fold (decay_at now) [0..<m] w)) = length (prof w) \<and>
      (\<forall>i < length (prof w). status (prof (fold (decay_at now) [0..<m] w) ! i) =
        (if i < m \<and> status (prof w ! i) = WIFI_PROF_BADPASS \<and> \<not> now - badpass_at w ! i < BADPASS_RETRY_MS
         then WIFI_PROF_UNTRIED else status (prof w ! i)))" for m
  proof (induction m)
    case (Suc m)
    then show ?case by (auto simp: decay_at_def set_status_def nth_list_update less_Suc_eq not_less)
  qed simp
  from this [OF assms(1)] assms show ?thesis by auto
qed

lemma try_from_radio:
  "\<exists>ops. radio (try_from E now w) = radio w @ ops \<and>
     (\<forall>s p a. Wifi_Connect s p a \<in> set ops \<longrightarrow>
       (\<exists>i \<in> set (order w). ssid (profiles (cfg w) ! i) = s \<and> password (profiles (cfg w) ! i) = p))"
proof (induction E now w rule: try_from.induct)
  case (1 E now w)
  show ?case
  proof (cases "order_ix w < length (order w)")
    case False
    then show ?thesis by (subst try_from.simps) (simp add: enter_wait_def Let_def)
  next
    case True
    let ?i = "order w ! order_ix w"
    let ?p = "profiles (cfg w) ! ?i"
    let ?a = "if password ?p ! 0 \<noteq> NUL then CYW43_AUTH_WPA3_WPA2_AES_PSK else CYW43_AUTH_OPEN"
    let ?ops = "[Wifi_Leave, Wifi_Connect (ssid ?p) (password ?p) ?a]"
    have i: "?i \<in> set (order w)" using True by simp
    show ?thesis
    proof (cases "connect_async E (ssid ?p) (password ?p) ?a")
      case ok: True
      then have "radio (try_from E now w) = radio w @ ?ops"
        using True by (subst try_from.simps) (simp add: Let_def)
      then show ?thesis using i by (intro exI [of _ ?ops]) auto
    next
      case no: False
      let ?w = "w\<lparr>radio := radio w @ ?ops, order_ix := order_ix w + 1\<rparr>"
      have e: "try_from E now w = try_from E now ?w"
        using True no by (subst try_from.simps) (simp add: Let_def)
      from 1(1) [OF True refl refl refl refl no] obtain ops where
        o: "radio (try_from E now ?w) = radio w @ ?ops @ ops"
        "\<forall>s p a. Wifi_Connect s p a \<in> set ops \<longrightarrow>
           (\<exists>i \<in> set (order w). ssid (profiles (cfg w) ! i) = s \<and> password (profiles (cfg w) ! i) = p)"
        by auto
      show ?thesis unfolding e using o i by (intro exI [of _ "?ops @ ops"]) auto
    qed
  qed
qed

section \<open>Properties\<close>

text \<open>Property C12. Whatever the order of boot, main-loop ticks, console and portal calls and edits of
  the shared configuration: every array index the manager keeps is in bounds, the backoff
  stays between 8 and 60 seconds, an attempt is always at a listed candidate, and the
  machine is never in the scanning state without a scan pass to wait for.\<close>

theorem wifi_conn_invariant:
  assumes "conn_reachable sector w"
  shows "conn_inv w"
  using assms by (rule conn_reachable_inv)

text \<open>A manager joining the first of two profiles at boot, and the world around it.\<close>

definition sample_env :: "bool \<Rightarrow> radio_env" where
  "sample_env up = \<lparr>link = up, wifi_link_status = CYW43_LINK_OTHER, connect_async = \<lambda>s p a. True,
     scan_ok = True, scan_active = False, owns_scan = False, flash_dev = sample_driver\<rparr>"

definition sample_conn :: wifi_conn where
  "sample_conn = wifi_conn_init (sample_env False) 0 sample_config (conn_boot (replicate 4096 0xFF))"

lemma sample_conn_reachable: "conn_reachable (replicate 4096 0xFF) sample_conn"
  unfolding sample_conn_def
  by (rule r_into_rtranclp, rule step_init) (simp_all add: conn_boot_def sample_config_wf)

lemma sample_conn_fields: "state sample_conn = ST_TRY" "g_cfg sample_conn = Some sample_config"
  "trying sample_conn = 0" "attempt_at sample_conn = 0" "last_tick sample_conn = 0"
  unfolding sample_conn_def wifi_conn_init_def pin_active_def Let_def
  by (subst try_from.simps;
      simp add: sample_config_fields sample_env_def Let_def clear_prof_def conn_boot_def)+

theorem wifi_conn_invariant_witness: "conn_inv sample_conn"
  by (rule wifi_conn_invariant [OF sample_conn_reachable])

text \<open>Property C13. A join cycle always ends: from any reachable joining or scanning state, if
  nothing comes up and every deadline runs out, at most ten ticks bring the manager to its
  backoff state, from which it rescans.\<close>

theorem wifi_conn_cycle_ends:
  assumes "conn_reachable sector w" "state w = ST_TRY \<or> state w = ST_SCAN"
    and "dead_ticks (last_tick w) ts" "10 \<le> length ts"
    and "state w = ST_TRY \<longrightarrow> JOIN_TIMEOUT_MS \<le> fst (hd ts) - attempt_at w"
  shows "\<exists>k \<le> 10. state (run_ticks (take k ts) w) = ST_WAIT"
proof -
  have inv: "conn_inv w" using assms(1) by (rule conn_reachable_inv)
  have "conn_left w \<le> 10" using inv assms(2) by (auto simp: conn_inv_def conn_base_def)
  then have "conn_left w \<le> length (take 10 ts)" using assms(4) by simp
  moreover have "hd (take 10 ts) = hd ts" using assms(4) by (cases ts) auto
  moreover have "dead_ticks t ts \<Longrightarrow> dead_ticks t (take n ts)" for n t ts
    by (induction t ts arbitrary: n rule: dead_ticks.induct) (auto simp: take_Cons split: nat.splits)
  ultimately obtain k where "k \<le> length (take 10 ts)" "state (run_ticks (take k (take 10 ts)) w) = ST_WAIT"
    using dead_run [OF inv assms(2), of "take 10 ts"] assms(3,5) by auto
  then show ?thesis using assms(4) by (intro exI [of _ k]) (auto simp: min_def split: if_splits)
qed

definition sample_ticks :: "(u32 \<times> radio_env) list" where
  "sample_ticks = [(12000, sample_env False), (24000, sample_env False), (36000, sample_env False),
     (48000, sample_env False), (60000, sample_env False), (72000, sample_env False),
     (84000, sample_env False), (96000, sample_env False), (108000, sample_env False),
     (120000, sample_env False)]"

theorem wifi_conn_cycle_ends_witness:
  "\<exists>k \<le> 10. state (run_ticks (take k sample_ticks) sample_conn) = ST_WAIT"
  by (rule wifi_conn_cycle_ends [OF sample_conn_reachable])
    (simp_all add: sample_conn_fields sample_ticks_def dead_env_def sample_env_def)

text \<open>A join that succeeds moves the joined profile to the front of the list, leaving the
  others in order, makes it the active one and the only one shown as connected, and, when
  its credentials were not yet stored, the configuration a reboot loads is the current one.\<close>

theorem wifi_conn_join:
  assumes "conn_reachable sector w" "g_cfg w = Some c" "state w = ST_TRY" "trying w < profile_count c"
    and "link E" "\<not> owns_scan E" "100 \<le> now - last_tick w"
  defines "w' \<equiv> wifi_conn_task E now w"
  shows "state w' = ST_UP \<and>
    saved (the (g_cfg w')) = saved c ! trying w # remove_nth (trying w) (saved c) \<and>
    active_profile (the (g_cfg w')) = Some (saved c ! trying w) \<and>
    (\<forall>j < 8. status (prof w' ! j) = WIFI_PROF_CONNECTED \<longleftrightarrow> j = 0) \<and>
    \<not> creds_unsaved w' \<and>
    (creds_unsaved w \<and> flash_driver_ok (flash_dev E) \<and> length (flash w) = FLASH_SECTOR_SIZE \<and>
     (\<forall>f s. fst (flash_safe_execute (flash_dev E) f s)) \<longrightarrow>
       config_load B (flash w') = the (g_cfg w'))"
proof -
  define u where "u = decay_badpass now (w\<lparr>last_tick := now\<rparr>)"
  define d where "d = drive_scan E now u"
  have inv: "conn_inv w" using assms(1) by (rule conn_reachable_inv)
  then have ui: "conn_inv u" "state u = ST_TRY" "g_cfg u = Some c" "trying u = trying w"
    using assms(2,3) by (simp_all add: u_def conn_inv_frame)
  have cu: "creds_unsaved u = creds_unsaved w" "flash u = flash w" by (simp_all add: u_def)
  have d: "conn_base d" "state d = ST_TRY" "g_cfg d = Some c" "trying d = trying w"
    "creds_unsaved d = creds_unsaved w" "flash d = flash w"
    using drive_scan_inv [OF ui(1), of E now] drive_scan_in_try [OF ui(2), of E now] ui cu
    by (auto simp: d_def dest: conn_inv_base)
  have w': "w' = joined E d"
    using assms(2,5,6,7) d(2)
    by (simp add: w'_def wifi_conn_task_def Let_def u_def [symmetric] d_def [symmetric]
        tick_switch_def tick_try_def not_less [symmetric])
  note p = promote_join [OF d(1,3)]
  obtain ok c' fl where s: "config_save (flash_dev E) (cfg (promote d)) (flash w) = (ok, c', fl)"
    using prod_cases3 by blast
  have j: "w' = (if creds_unsaved w then (promote d)\<lparr>g_cfg := Some c', flash := fl, creds_unsaved := False\<rparr> else promote d)"
    using d assms(4) s by (simp add: w' joined_eq)
  have sv: "saved c' = saved (cfg (promote d))" "active_profile c' = active_profile (cfg (promote d))"
    using config_save_saved [OF s] by auto
  have ld: "config_load B fl = c'" if "flash_driver_ok (flash_dev E)" "length (flash w) = 4096"
    "\<forall>f s. fst (flash_safe_execute (flash_dev E) f s)"
    using config_save_load [OF _ that(1,2) s] config_save_ok [OF s] that(3) p(1) assms(4) d(4) by auto
  show ?thesis
    using p(2-4) assms(4) d(4,5) sv ld by (cases "creds_unsaved w") (auto simp: j)
qed

theorem wifi_conn_join_witness:
  "state (wifi_conn_task (sample_env True) 500 sample_conn) = ST_UP \<and>
   active_profile (the (g_cfg (wifi_conn_task (sample_env True) 500 sample_conn))) = Some (saved sample_config ! 0)"
  using wifi_conn_join [OF sample_conn_reachable sample_conn_fields(2,1), of "sample_env True" 500]
  by (simp add: sample_conn_fields sample_config_fields) (simp add: sample_env_def)

text \<open>A profile whose password was rejected keeps its mark for exactly ten minutes of ticks,
  and as long as it is marked a scan cycle never sends its credentials: every join the cycle
  starts is for a saved, unmarked profile.\<close>

theorem badpass_skipped_until_decay:
  assumes "conn_reachable sector w" "g_cfg w = Some c"
  shows "(\<forall>i < profile_count c. status (prof (decay_badpass now w) ! i) = WIFI_PROF_BADPASS \<longleftrightarrow>
      status (prof w ! i) = WIFI_PROF_BADPASS \<and> now - badpass_at w ! i < BADPASS_RETRY_MS) \<and>
    (\<forall>s p a. Wifi_Connect s p a \<in> set (drop (length (radio w)) (radio (build_and_try E now w))) \<longrightarrow>
      (\<exists>i < profile_count c. ssid (profiles c ! i) = s \<and> password (profiles c ! i) = p \<and>
         status (prof w ! i) \<noteq> WIFI_PROF_BADPASS))"
proof (intro conjI allI impI)
  have inv: "conn_inv w" using assms(1) by (rule conn_reachable_inv)
  then have "profile_count c \<le> length (prof w)"
    using conn_base_cfg [OF conn_inv_base assms(2)] by (auto simp: conn_inv_def conn_base_def dest: config_wfD(2))
  then show "status (prof (decay_badpass now w) ! i) = WIFI_PROF_BADPASS \<longleftrightarrow>
      status (prof w ! i) = WIFI_PROF_BADPASS \<and> now - badpass_at w ! i < BADPASS_RETRY_MS"
    if "i < profile_count c" for i
    using decay_status [of "profile_count c" w i now] that assms(2) by (auto simp: decay_badpass_alt)
next
  let ?o = "wifi_pick_order (prof w) (profile_count c) (active c) (unat (rr_unseen w))"
  fix s p a
  assume "Wifi_Connect s p a \<in> set (drop (length (radio w)) (radio (build_and_try E now w)))"
  then obtain i where i: "i \<in> set ?o" "ssid (profiles c ! i) = s" "password (profiles c ! i) = p"
    using try_from_radio [of E now "w\<lparr>order := ?o, rr_unseen := rr_unseen w + 1, order_ix := 0\<rparr>"]
    by (simp add: build_and_try_def assms(2)) (elim exE conjE, simp, blast)
  then show "\<exists>i < profile_count c. ssid (profiles c ! i) = s \<and> password (profiles c ! i) = p \<and>
      status (prof w ! i) \<noteq> WIFI_PROF_BADPASS"
    using wifi_pick_order_bound [OF i(1)] wifi_pick_order_no_badpass [OF i(1)] by (intro exI [of _ i]) simp
qed

theorem badpass_skipped_until_decay_witness:
  "status (prof (decay_badpass 600500 sample_conn) ! 1) = WIFI_PROF_BADPASS \<longleftrightarrow>
     status (prof sample_conn ! 1) = WIFI_PROF_BADPASS \<and> 600500 - badpass_at sample_conn ! 1 < BADPASS_RETRY_MS"
  using badpass_skipped_until_decay [OF sample_conn_reachable sample_conn_fields(2), of 600500 "sample_env True"]
  by (simp add: sample_config_fields)

end
