(* ===== verification/Checksum.thy ===== *)
theory Checksum
  imports Prelude
begin

text \<open>
  Internet checksums. The firmware computes them in three places; each copy is a pair of an
  adding loop and a folding loop. The interface of such a pair is the locale
  \<open>internet_checksum\<close>, stated against the plain sum \<open>be_sum\<close> of big-endian 16-bit words, and
  the restoring of the header and transport checksums of a packet is proved once inside it.
  This theory models \<^verbatim>\<open>src/eth_csum.c\<close>, the copy for frames leaving over the radio, and
  interprets the locale on it.

  A buffer is a list of bytes; a read past its end is undefined in C and is the outcome
  \<open>None\<close> here.
\<close>

section \<open>16-bit fields of a buffer\<close>

definition get16 :: "bytes \<Rightarrow> nat \<Rightarrow> u16" where
  "get16 b off = be16 (b ! off) (b ! (off + 1))"

definition put16 :: "bytes \<Rightarrow> nat \<Rightarrow> u16 \<Rightarrow> bytes" where
  "put16 b off w = b[off := hi8 w, off + 1 := lo8 w]"

lemma length_put16 [simp]: "length (put16 b off w) = length b"
  by (simp add: put16_def)

lemma get16_put16 [simp]: "off + 1 < length b \<Longrightarrow> get16 (put16 b off w) off = w"
  by (simp add: get16_def put16_def)

lemma nth_put16: "i \<noteq> off \<Longrightarrow> i \<noteq> off + 1 \<Longrightarrow> put16 b off w ! i = b ! i"
  by (simp add: put16_def)

lemma get16_put16_other: "i + 1 < off \<or> off + 1 < i \<Longrightarrow> get16 (put16 b off w) i = get16 b i"
  by (auto simp: get16_def nth_put16)

lemma seg_put16_other: "i + n \<le> off \<or> off + 2 \<le> i \<Longrightarrow> seg (put16 b off w) i n = seg b i n"
proof (elim disjE)
  assume "i + n \<le> off"
  then show ?thesis by (simp add: seg_def put16_def drop_update_swap take_update_cancel)
next
  assume "off + 2 \<le> i"
  then show ?thesis by (simp add: seg_def put16_def)
qed

lemma take_put16: "n \<le> off \<Longrightarrow> take n (put16 b off w) = take n b"
  by (simp add: put16_def take_update_cancel)

lemma drop_put16: "n \<le> off \<Longrightarrow> drop n (put16 b off w) = put16 (drop n b) (off - n) w"
  by (simp add: put16_def drop_update_swap Suc_diff_le)

lemma take_put16_in: "off + 1 < n \<Longrightarrow> take n (put16 b off w) = put16 (take n b) off w"
  by (simp add: put16_def take_update_swap)

lemma drop_put16_past: "off + 2 \<le> n \<Longrightarrow> drop n (put16 b off w) = drop n b"
  by (simp add: put16_def)

section \<open>The sum of a buffer\<close>

fun be_sum :: "bytes \<Rightarrow> nat" where
  "be_sum [] = 0"
| "be_sum [a] = 256 * unat a"
| "be_sum (a # b # d) = unat (be16 a b) + be_sum d"

lemma be_sum_append: "even (length xs) \<Longrightarrow> be_sum (xs @ ys) = be_sum xs + be_sum ys"
  by (induction xs rule: be_sum.induct) auto

lemma be_sum_bound: "be_sum d \<le> 65535 * ((length d + 1) div 2)"
proof (induction d rule: be_sum.induct)
  case (2 a)
  then show ?case using unat_u8_le [of a] by (simp del: unat_u8_le)
next
  case (3 a b d)
  then show ?case using unat_u16_le [of "be16 a b"] by (simp del: unat_u16_le)
qed simp

lemma be_sum_put16:
  assumes "even off" "off + 1 < length b"
  shows "be_sum (put16 b off w) + unat (get16 b off) = be_sum b + unat w"
  using assms
proof (induction b arbitrary: off rule: be_sum.induct)
  case (3 x y d)
  show ?case
  proof (cases "off = 0")
    case True
    then show ?thesis by (simp add: put16_def get16_def)
  next
    case False
    then obtain k where k: "off = Suc (Suc k)" using "3.prems"(1) by (metis not0_implies_Suc odd_one One_nat_def)
    have "be_sum (put16 d k w) + unat (get16 d k) = be_sum d + unat w"
      using "3.prems" by (intro "3.IH") (auto simp: k)
    then show ?thesis by (simp add: k put16_def get16_def)
  qed
qed auto

text \<open>A one's complement sum verifies when it is a multiple of 65535.\<close>

definition csum_ok :: "nat \<Rightarrow> bool" where
  "csum_ok n \<longleftrightarrow> 65535 dvd n"

definition pseudo_sum :: "bytes \<Rightarrow> nat \<Rightarrow> nat" where
  "pseudo_sum ip l4len = be_sum (seg ip 12 8) + unat (ip ! 9) + l4len"

section \<open>Restoring the checksums of a packet\<close>

text \<open>Reading two bytes that may lie past the buffer.\<close>

definition zero16 :: "bytes \<Rightarrow> nat \<Rightarrow> bool option" where
  "zero16 b off = (if off + 1 < length b then Some (b ! off = 0 \<and> b ! (off + 1) = 0) else None)"

text \<open>
  The body of \<^verbatim>\<open>eth_csum_restore\<close> and of \<^verbatim>\<open>wireguardif_fix_checksums\<close> behind their length
  checks, which the two files write out identically, each over its own copy \<open>add\<close>, \<open>fin\<close>
  of the two loops. \<open>ip\<close> is the buffer from the IPv4 header on.
\<close>

definition fill_l4 ::
  "(u32 \<Rightarrow> bytes \<Rightarrow> nat \<Rightarrow> u32 option) \<Rightarrow> (u32 \<Rightarrow> u16) \<Rightarrow> bytes \<Rightarrow> nat \<Rightarrow> nat \<Rightarrow> u32 \<Rightarrow> nat \<Rightarrow> bool \<Rightarrow> bytes option"
  where
  "fill_l4 add fin ip ihl l4len s k udp =
     (let l4 = drop ihl ip in
      case zero16 l4 k of None \<Rightarrow> None
      | Some False \<Rightarrow> Some ip
      | Some True \<Rightarrow>
          map_option (\<lambda>s. let c = fin s; c = (if udp \<and> c = 0 then 0xFFFF else c)
                          in put16 ip (ihl + k) c) (add s l4 l4len))"

definition fix_body ::
  "(u32 \<Rightarrow> bytes \<Rightarrow> nat \<Rightarrow> u32 option) \<Rightarrow> (u32 \<Rightarrow> u16) \<Rightarrow> bytes \<Rightarrow> nat \<Rightarrow> nat \<Rightarrow> bytes option" where
  "fix_body add fin ip ihl tot =
     (case (if ip ! 10 = 0 \<and> ip ! 11 = 0
            then map_option (\<lambda>s. put16 ip 10 (fin s)) (add 0 ip ihl) else Some ip) of
        None \<Rightarrow> None
      | Some ip \<Rightarrow>
          if ip ! 6 AND 0x3F \<noteq> 0 \<or> ip ! 7 \<noteq> 0 then Some ip
          else let proto = ip ! 9; l4len = tot - ihl in
            if proto = 1 \<and> l4len \<ge> 8 then fill_l4 add fin ip ihl l4len 0 2 False
            else if proto = 6 \<and> l4len \<ge> 20 then
              (case add 0 (drop 12 ip) 8 of None \<Rightarrow> None
               | Some s \<Rightarrow> fill_l4 add fin ip ihl l4len (s + (ucast proto + of_nat l4len)) 16 False)
            else if proto = 17 \<and> l4len \<ge> 8 then
              (case add 0 (drop 12 ip) 8 of None \<Rightarrow> None
               | Some s \<Rightarrow> fill_l4 add fin ip ihl l4len (s + (ucast proto + of_nat l4len)) 6 True)
            else Some ip)"

section \<open>Frames leaving over the radio\<close>

fun csum_add :: "u32 \<Rightarrow> bytes \<Rightarrow> nat \<Rightarrow> u32 option" where
  "csum_add acc d 0 = Some acc"
| "csum_add acc d (Suc 0) = (case d of a # _ \<Rightarrow> Some (acc + push_bit 8 (ucast a)) | [] \<Rightarrow> None)"
| "csum_add acc d (Suc (Suc n)) =
     (case d of a # b # d \<Rightarrow> csum_add (acc + (push_bit 8 (ucast a) OR ucast b)) d n | _ \<Rightarrow> None)"

lemma unat_drop16: "unat (drop_bit 16 (s :: u32)) = unat s div 65536"
  by (simp add: drop_bit_eq_div unat_div)

lemma unat_not16: "unat (NOT w :: u16) = 65535 - unat w"
proof -
  have "NOT w = - 1 - w" by (simp add: not_eq_complement)
  then have "unat (NOT w) = unat (- 1 :: u16) - unat w" by (simp add: unat_sub)
  then show ?thesis by (simp add: unsigned_minus_1_eq_mask mask_eq_exp_minus_1)
qed

lemma unat_ucast_not:
  assumes "unat (s :: u32) < 65536"
  shows "unat (ucast (NOT s) :: u16) = 65535 - unat s"
proof -
  have "(ucast (NOT s) :: u16) = NOT (ucast s)"
    by (rule bit_word_eqI) (simp add: bit_simps)
  moreover have "unat (ucast s :: u16) = unat s"
    using assms by (simp add: unsigned_ucast_eq take_bit_nat_eq_self)
  ultimately show ?thesis by (simp add: unat_not16)
qed

lemma fold_step_less:
  assumes "drop_bit 16 (s :: u32) \<noteq> 0"
  shows "unat ((s AND 0xFFFF) + drop_bit 16 s) < unat s"
    and "unat ((s AND 0xFFFF) + drop_bit 16 s) = unat s mod 65536 + unat s div 65536"
proof -
  have a: "unat (s AND 0xFFFF) = unat s mod 65536"
  proof -
    have "s AND 0xFFFF = take_bit 16 s" by (simp add: take_bit_eq_mask mask_eq_exp_minus_1)
    then show ?thesis by (simp add: take_bit_eq_mod unat_mod)
  qed
  note b = unat_drop16 [of s]
  have "unat s div 65536 < 65536" using unat_u32_less [of s] by (simp add: less_mult_imp_div_less)
  then show e: "unat ((s AND 0xFFFF) + drop_bit 16 s) = unat s mod 65536 + unat s div 65536"
    by (simp add: unat_word_ariths a b)
  have "unat s div 65536 \<noteq> 0" using assms b by (metis unat_eq_zero)
  then show "unat ((s AND 0xFFFF) + drop_bit 16 s) < unat s"
    unfolding e using div_mult_mod_eq [of "unat s" 65536] by linarith
qed

function csum_finish :: "u32 \<Rightarrow> u16" where
  "csum_finish s = (if drop_bit 16 s \<noteq> 0 then csum_finish ((s AND 0xFFFF) + drop_bit 16 s) else ucast (NOT s))"
  by pat_completeness auto
termination by (relation "measure unat") (use fold_step_less(1) in auto)

declare csum_finish.simps [simp del]

text \<open>A \<^verbatim>\<open>pbuf\<close> chain is the list of its payloads; \<^verbatim>\<open>NULL\<close> is the empty chain. Lengths are
  16-bit, and \<^verbatim>\<open>14 + tot\<close> is cut to 16 bits before the comparison.\<close>

definition eth_csum_restore :: "bytes list \<Rightarrow> bytes list option" where
  "eth_csum_restore p =
     (case p of
        [f] \<Rightarrow>
          let flen = length f in
          if flen < 34 \<or> f ! 12 \<noteq> 0x08 \<or> f ! 13 \<noteq> 0x00 then Some p
          else let ip = drop 14 f; ihl = unat (ip ! 0 AND 0x0F) * 4; tot = get16 ip 2 in
            if drop_bit 4 (ip ! 0) \<noteq> 4 \<or> ihl < 20 \<or> unat tot < ihl \<or> unat (14 + tot) > flen then Some p
            else map_option (\<lambda>ip'. [take 14 f @ ip']) (fix_body csum_add csum_finish ip ihl (unat tot))
      | _ \<Rightarrow> Some p)"

section \<open>What restoring promises\<close>

definition is_fragment :: "bytes \<Rightarrow> bool" where
  "is_fragment ip \<longleftrightarrow> ip ! 6 AND 0x3F \<noteq> 0 \<or> ip ! 7 \<noteq> 0"

definition l4_off :: "u8 \<Rightarrow> nat" where
  "l4_off proto = (if proto = 1 then 2 else if proto = 6 then 16 else 6)"

text \<open>The transport checksum of a whole ICMP, TCP or UDP packet whose header is there.\<close>

definition l4_present :: "bytes \<Rightarrow> nat \<Rightarrow> bool" where
  "l4_present ip l4len \<longleftrightarrow> \<not> is_fragment ip \<and>
     (ip ! 9 = 1 \<and> 8 \<le> l4len \<or> ip ! 9 = 6 \<and> 20 \<le> l4len \<or> ip ! 9 = 17 \<and> 8 \<le> l4len)"

definition l4_sum :: "bytes \<Rightarrow> nat \<Rightarrow> nat \<Rightarrow> nat" where
  "l4_sum ip ihl l4len = (if ip ! 9 = 1 then 0 else pseudo_sum ip l4len) + be_sum (seg ip ihl l4len)"

text \<open>
  \<open>csum_restored ip ip' ihl tot\<close>: zero header and transport checksums of \<open>ip\<close> verify in
  \<open>ip'\<close>, a UDP checksum is never left at the value that means none, and no other byte
  differs; in particular checksums that were there are untouched.
\<close>

definition csum_restored :: "bytes \<Rightarrow> bytes \<Rightarrow> nat \<Rightarrow> nat \<Rightarrow> bool" where
  "csum_restored ip ip' ihl tot \<longleftrightarrow>
     length ip' = length ip \<and>
     (get16 ip 10 = 0 \<longrightarrow> csum_ok (be_sum (take ihl ip'))) \<and>
     (l4_present ip (tot - ihl) \<and> get16 ip (ihl + l4_off (ip ! 9)) = 0 \<longrightarrow>
        csum_ok (l4_sum ip' ihl (tot - ihl)) \<and>
        (ip ! 9 = 17 \<longrightarrow> get16 ip' (ihl + l4_off (ip ! 9)) \<noteq> 0)) \<and>
     (\<forall>i. ip' ! i \<noteq> ip ! i \<longrightarrow>
        (i = 10 \<or> i = 11) \<and> get16 ip 10 = 0 \<or>
        (i = ihl + l4_off (ip ! 9) \<or> i = ihl + l4_off (ip ! 9) + 1) \<and>
          get16 ip (ihl + l4_off (ip ! 9)) = 0 \<and> l4_present ip (tot - ihl))"

section \<open>The interface of the two loops\<close>

locale internet_checksum =
  fixes add :: "u32 \<Rightarrow> bytes \<Rightarrow> nat \<Rightarrow> u32 option" and fin :: "u32 \<Rightarrow> u16"
  assumes add_in: "n \<le> length d \<Longrightarrow> add s d n = Some (s + of_nat (be_sum (take n d)))"
    and add_out: "length d < n \<Longrightarrow> add s d n = None"
    and fin_dvd: "65535 dvd unat s + unat (fin s)"
begin

text \<open>What \<open>fill_l4\<close> does to a zero field at an even offset of the transport part.\<close>

lemma fill_l4_valid:
  assumes "ihl + l4len \<le> length ip" "l4len < 65536" "k + 1 < l4len" "even k" "n < 2 ^ 20"
  shows "\<exists>ip'. fill_l4 add fin ip ihl l4len (of_nat n) k udp = Some ip' \<and> length ip' = length ip \<and>
    (\<forall>i. i \<noteq> ihl + k \<longrightarrow> i \<noteq> ihl + k + 1 \<longrightarrow> ip' ! i = ip ! i) \<and>
    (get16 ip (ihl + k) \<noteq> 0 \<longrightarrow> ip' = ip) \<and>
    (get16 ip (ihl + k) = 0 \<longrightarrow> csum_ok (n + be_sum (seg ip' ihl l4len)) \<and> (udp \<longrightarrow> get16 ip' (ihl + k) \<noteq> 0))"
proof -
  let ?l4 = "drop ihl ip" let ?s = "of_nat n + of_nat (be_sum (take l4len ?l4)) :: u32"
  have k: "k + 1 < length ?l4" using assms by simp
  have z: "zero16 ?l4 k = Some (get16 ip (ihl + k) = 0)"
    using k by (simp add: zero16_def get16_def add.assoc)
  have a: "add (of_nat n) ?l4 l4len = Some ?s" using assms(1) by (intro add_in) simp
  have "be_sum (take l4len ?l4) \<le> 65535 * ((l4len + 1) div 2)"
    using be_sum_bound [of "take l4len ?l4"] assms(1) by (simp add: min_absorb2)
  also have "\<dots> \<le> 65535 * 32768" using assms(2) by simp
  finally have "n + be_sum (take l4len ?l4) < 2 ^ 32" using assms(5) by simp
  then have s: "unat ?s = n + be_sum (take l4len ?l4)"
    using unat_of_nat_u32 [of "n + be_sum (take l4len ?l4)"] by simp
  show ?thesis
  proof (cases "get16 ip (ihl + k) = 0")
    case False
    then show ?thesis by (intro exI [of _ ip]) (simp add: fill_l4_def z)
  next
    case True
    define c where "c = (if udp \<and> fin ?s = 0 then 0xFFFF else fin ?s)"
    have e: "fill_l4 add fin ip ihl l4len (of_nat n) k udp = Some (put16 ip (ihl + k) c)"
      using True a by (simp add: fill_l4_def z c_def Let_def)
    have "65535 dvd unat ?s + unat c"
      using fin_dvd [of ?s] by (auto simp: c_def)
    moreover have "be_sum (seg (put16 ip (ihl + k) c) ihl l4len) = be_sum (take l4len ?l4) + unat c"
    proof -
      have g: "get16 (take l4len ?l4) k = 0"
        using True assms(1,3) by (simp add: get16_def add.assoc)
      have "seg (put16 ip (ihl + k) c) ihl l4len = put16 (take l4len ?l4) k c"
        using assms(3) by (simp add: seg_def drop_put16 take_put16_in)
      then show ?thesis using be_sum_put16 [OF assms(4), of "take l4len ?l4" c] g assms(1,3) by simp
    qed
    ultimately have "csum_ok (n + be_sum (seg (put16 ip (ihl + k) c) ihl l4len))"
      by (simp add: csum_ok_def s add.assoc)
    moreover have "udp \<longrightarrow> c \<noteq> 0" by (simp add: c_def)
    ultimately show ?thesis
      using True k assms(1) by (intro exI [of _ "put16 ip (ihl + k) c"]) (simp add: e nth_put16)
  qed
qed


lemma header_restored:
  assumes "20 \<le> ihl" "even ihl" "ihl \<le> length ip" "ihl < 65536" "get16 ip 10 = 0"
  shows "\<exists>ip'. map_option (\<lambda>s. put16 ip 10 (fin s)) (add 0 ip ihl) = Some ip' \<and> length ip' = length ip \<and>
    csum_ok (be_sum (take ihl ip')) \<and> (\<forall>i. i \<noteq> 10 \<longrightarrow> i \<noteq> 11 \<longrightarrow> ip' ! i = ip ! i)"
proof -
  let ?s = "of_nat (be_sum (take ihl ip)) :: u32"
  have a: "add 0 ip ihl = Some ?s" using assms(3) add_in [of ihl ip 0] by simp
  have "be_sum (take ihl ip) \<le> 65535 * ((ihl + 1) div 2)"
    using be_sum_bound [of "take ihl ip"] assms(3) by (simp add: min_absorb2)
  also have "\<dots> \<le> 65535 * 32768" using assms(4) by simp
  finally have s: "unat ?s = be_sum (take ihl ip)" by (intro unat_of_nat_u32) simp
  have "be_sum (put16 (take ihl ip) 10 (fin ?s)) = be_sum (take ihl ip) + unat (fin ?s)"
    using be_sum_put16 [of 10 "take ihl ip" "fin ?s"] assms by (simp add: get16_def unat_be16)
  then have "csum_ok (be_sum (take ihl (put16 ip 10 (fin ?s))))"
    using fin_dvd [of ?s] assms(1) by (simp add: csum_ok_def s take_put16_in)
  then show ?thesis by (intro exI [of _ "put16 ip 10 (fin ?s)"]) (simp add: a nth_put16)
qed

lemma fix_l4_restored:
  assumes "20 \<le> ihl" "ihl \<le> tot" "tot \<le> length ip" "tot < 65536" "l4_present ip (tot - ihl)"
  shows "\<exists>ip'. (if ip ! 9 = 1 then fill_l4 add fin ip ihl (tot - ihl) 0 2 False
      else (case add 0 (drop 12 ip) 8 of None \<Rightarrow> None
        | Some s \<Rightarrow> fill_l4 add fin ip ihl (tot - ihl) (s + (ucast (ip ! 9) + of_nat (tot - ihl)))
            (l4_off (ip ! 9)) (ip ! 9 = 17))) = Some ip' \<and> length ip' = length ip \<and>
    (\<forall>i. i \<noteq> ihl + l4_off (ip ! 9) \<longrightarrow> i \<noteq> ihl + l4_off (ip ! 9) + 1 \<longrightarrow> ip' ! i = ip ! i) \<and>
    (get16 ip (ihl + l4_off (ip ! 9)) \<noteq> 0 \<longrightarrow> ip' = ip) \<and>
    (get16 ip (ihl + l4_off (ip ! 9)) = 0 \<longrightarrow> csum_ok (l4_sum ip' ihl (tot - ihl)) \<and>
        (ip ! 9 = 17 \<longrightarrow> get16 ip' (ihl + l4_off (ip ! 9)) \<noteq> 0))"
proof -
  let ?l = "tot - ihl" let ?k = "l4_off (ip ! 9)"
  have k: "?k + 1 < ?l" "even ?k" using assms(5) by (auto simp: l4_present_def l4_off_def)
  have l: "ihl + ?l \<le> length ip" "?l < 65536" using assms by auto
  have seg8: "seg ip 12 8 = take 8 (drop 12 ip)" by (simp add: seg_def)
  have n: "pseudo_sum ip ?l < 2 ^ 20"
  proof -
    have "be_sum (seg ip 12 8) \<le> 262140"
      using be_sum_bound [of "seg ip 12 8"] assms(1-3) by (simp add: min_def split: if_splits)
    then show ?thesis using l(2) unat_u8_less [of "ip ! 9"] unfolding pseudo_sum_def
      by (simp del: unat_u8_less)
  qed
  have a: "add 0 (drop 12 ip) 8 = Some (of_nat (be_sum (seg ip 12 8)))"
    using assms(1-3) add_in [of 8 "drop 12 ip" 0] by (simp add: seg8)
  have c: "of_nat (be_sum (seg ip 12 8)) + (ucast (ip ! 9) + of_nat ?l) = (of_nat (pseudo_sum ip ?l) :: u32)"
    by (simp add: pseudo_sum_def)
  have same: "pseudo_sum ip' ?l = pseudo_sum ip ?l" "ip' ! 9 = ip ! 9"
    if "\<forall>i. i \<noteq> ihl + k \<longrightarrow> i \<noteq> ihl + k + 1 \<longrightarrow> ip' ! i = ip ! i" "length ip' = length ip" for ip' k
  proof -
    have "seg ip' 12 8 = seg ip 12 8"
      using that assms(1-3) by (intro nth_equalityI) (auto simp: seg_def)
    moreover show "ip' ! 9 = ip ! 9" using that(1) assms(1) by auto
    ultimately show "pseudo_sum ip' ?l = pseudo_sum ip ?l" by (simp add: pseudo_sum_def)
  qed
  show ?thesis
  proof (cases "ip ! 9 = 1")
    case True
    then have kk: "l4_off (ip ! 9) = 2" by (simp add: l4_off_def)
    obtain ip' where f: "fill_l4 add fin ip ihl ?l (of_nat 0) 2 False = Some ip'" "length ip' = length ip"
      "\<forall>i. i \<noteq> ihl + 2 \<longrightarrow> i \<noteq> ihl + 2 + 1 \<longrightarrow> ip' ! i = ip ! i"
      "get16 ip (ihl + 2) \<noteq> 0 \<longrightarrow> ip' = ip"
      "get16 ip (ihl + 2) = 0 \<longrightarrow> csum_ok (0 + be_sum (seg ip' ihl ?l))"
      using fill_l4_valid [OF l k, of 0 False] unfolding kk by auto
    then show ?thesis
      unfolding kk using True same(2) [OF f(3,2)] by (intro exI [of _ ip']) (simp add: l4_sum_def)
  next
    case False
    obtain ip' where f: "fill_l4 add fin ip ihl ?l (of_nat (pseudo_sum ip ?l)) ?k (ip ! 9 = 17) = Some ip'"
      "length ip' = length ip" "\<forall>i. i \<noteq> ihl + ?k \<longrightarrow> i \<noteq> ihl + ?k + 1 \<longrightarrow> ip' ! i = ip ! i"
      "get16 ip (ihl + ?k) \<noteq> 0 \<longrightarrow> ip' = ip"
      "get16 ip (ihl + ?k) = 0 \<longrightarrow> csum_ok (pseudo_sum ip ?l + be_sum (seg ip' ihl ?l)) \<and>
         (ip ! 9 = 17 \<longrightarrow> get16 ip' (ihl + ?k) \<noteq> 0)"
      using fill_l4_valid [OF l k n, of "ip ! 9 = 17"] by blast
    then show ?thesis
      using False same [OF f(3,2)] by (intro exI [of _ ip']) (auto simp: a c l4_sum_def)
  qed
qed

lemma fix_body_restores:
  assumes "20 \<le> ihl" "even ihl" "ihl \<le> tot" "tot \<le> length ip" "tot < 65536"
  shows "\<exists>ip'. fix_body add fin ip ihl tot = Some ip' \<and> csum_restored ip ip' ihl tot"
proof -
  let ?h = "if ip ! 10 = 0 \<and> ip ! 11 = 0 then map_option (\<lambda>s. put16 ip 10 (fin s)) (add 0 ip ihl) else Some ip"
  have z: "ip ! 10 = 0 \<and> ip ! 11 = 0 \<longleftrightarrow> get16 ip 10 = 0" by (simp add: get16_def)
  obtain ip1 where h: "?h = Some ip1" "length ip1 = length ip"
    "get16 ip 10 = 0 \<Longrightarrow> csum_ok (be_sum (take ihl ip1))" "get16 ip 10 \<noteq> 0 \<Longrightarrow> ip1 = ip"
    "\<forall>i. i \<noteq> 10 \<longrightarrow> i \<noteq> 11 \<longrightarrow> ip1 ! i = ip ! i"
  proof (cases "get16 ip 10 = 0")
    case True
    then show thesis
      using header_restored [OF assms(1,2), of ip] assms(3-5) that unfolding z by auto
  next
    case False
    then show thesis using that [of ip] by (simp add: z)
  qed
  have same: "ip1 ! 9 = ip ! 9" "is_fragment ip1 = is_fragment ip" "l4_present ip1 l = l4_present ip l"
    "get16 ip1 (ihl + k) = get16 ip (ihl + k)" for l k
    using h(5) assms(1) by (auto simp: is_fragment_def l4_present_def get16_def)
  show ?thesis
  proof (cases "l4_present ip1 (tot - ihl)")
    case False
    then have "fix_body add fin ip ihl tot = Some ip1"
      unfolding fix_body_def h(1) by (auto simp: l4_present_def is_fragment_def Let_def)
    moreover have "csum_restored ip ip1 ihl tot"
      unfolding csum_restored_def
    proof (intro conjI allI impI)
      show "length ip1 = length ip" by (rule h(2))
      show "csum_ok (be_sum (take ihl ip1))" if "get16 ip 10 = 0" using that by (rule h(3))
      show "(i = 10 \<or> i = 11) \<and> get16 ip 10 = 0 \<or>
        (i = ihl + l4_off (ip ! 9) \<or> i = ihl + l4_off (ip ! 9) + 1) \<and>
          get16 ip (ihl + l4_off (ip ! 9)) = 0 \<and> l4_present ip (tot - ihl)" if "ip1 ! i \<noteq> ip ! i" for i
        using that h(4,5) by (cases "get16 ip 10 = 0") auto
    qed (use False same(3) in simp_all)
    ultimately show ?thesis by blast
  next
    case True
    then have b: "fix_body add fin ip ihl tot =
      (if ip1 ! 9 = 1 then fill_l4 add fin ip1 ihl (tot - ihl) 0 2 False
       else (case add 0 (drop 12 ip1) 8 of None \<Rightarrow> None
        | Some s \<Rightarrow> fill_l4 add fin ip1 ihl (tot - ihl) (s + (ucast (ip1 ! 9) + of_nat (tot - ihl)))
            (l4_off (ip1 ! 9)) (ip1 ! 9 = 17)))"
      unfolding fix_body_def h(1)
      by (auto simp: l4_present_def is_fragment_def Let_def l4_off_def split: option.splits)
    let ?k = "l4_off (ip ! 9)"
    obtain ip' where f: "fix_body add fin ip ihl tot = Some ip'" "length ip' = length ip1"
      "\<forall>i. i \<noteq> ihl + ?k \<longrightarrow> i \<noteq> ihl + ?k + 1 \<longrightarrow> ip' ! i = ip1 ! i"
      "get16 ip (ihl + ?k) \<noteq> 0 \<longrightarrow> ip' = ip1"
      "get16 ip (ihl + ?k) = 0 \<longrightarrow> csum_ok (l4_sum ip' ihl (tot - ihl)) \<and>
         (ip ! 9 = 17 \<longrightarrow> get16 ip' (ihl + ?k) \<noteq> 0)"
      using fix_l4_restored [OF assms(1,3) _ assms(5) True] assms(4) h(2) unfolding b same(1,4) by auto
    have t: "take ihl ip' = take ihl ip1" using f(2,3) by (intro nth_equalityI) auto
    have "csum_restored ip ip' ihl tot"
      unfolding csum_restored_def t
    proof (intro conjI allI impI)
      show "length ip' = length ip" using f(2) h(2) by simp
      show "csum_ok (be_sum (take ihl ip1))" if "get16 ip 10 = 0" using that by (rule h(3))
      show "(i = 10 \<or> i = 11) \<and> get16 ip 10 = 0 \<or>
        (i = ihl + ?k \<or> i = ihl + ?k + 1) \<and> get16 ip (ihl + ?k) = 0 \<and> l4_present ip (tot - ihl)"
        if "ip' ! i \<noteq> ip ! i" for i
      proof (cases "ip' ! i = ip1 ! i")
        case e: True
        then show ?thesis using that h(4,5) by (cases "get16 ip 10 = 0") auto
      next
        case e: False
        then show ?thesis using f(3,4) True same(3) by auto
      qed
    qed (use f(5) in simp_all)
    with f(1) show ?thesis by blast
  qed
qed

end

section \<open>The copy in \<open>eth_csum.c\<close>\<close>

lemma csum_add_in: "n \<le> length d \<Longrightarrow> csum_add s d n = Some (s + of_nat (be_sum (take n d)))"
proof (induction s d n rule: csum_add.induct)
  case (2 s d)
  then obtain a as where d: "d = a # as" by (cases d) auto
  have "push_bit 8 (ucast a) = (of_nat (256 * unat a) :: u32)"
    by (simp add: push_bit_eq_mult mult.commute)
  then show ?case by (simp add: d)
next
  case (3 s d n)
  then obtain a b ds where d: "d = a # b # ds" by (cases d; cases "tl d") auto
  have e: "push_bit 8 (ucast a) OR ucast b = (of_nat (unat (be16 a b)) :: u32)"
  proof -
    have "push_bit 8 (ucast a) OR ucast b = (ucast (be16 a b) :: u32)"
      by (rule bit_word_eqI) (auto simp: be16_def bit_simps dest: bit_imp_le_length)
    then show ?thesis by simp
  qed
  show ?case using "3.IH" [OF d refl] "3.prems" by (simp add: d e add.assoc)
qed simp

lemma csum_add_out: "length d < n \<Longrightarrow> csum_add s d n = None"
  by (induction s d n rule: csum_add.induct) (auto split: list.splits)

lemma csum_finish_dvd: "65535 dvd unat s + unat (csum_finish s)"
proof (induction s rule: csum_finish.induct)
  case (1 s)
  show ?case
  proof (cases "drop_bit 16 s = 0")
    case False
    let ?t = "(s AND 0xFFFF) + drop_bit 16 s"
    have u: "unat s = unat ?t + 65535 * (unat s div 65536)"
      unfolding fold_step_less(2) [OF False] using div_mult_mod_eq [of "unat s" 65536] by linarith
    have f: "csum_finish s = csum_finish ?t" using False by (subst csum_finish.simps) simp
    have "unat s + unat (csum_finish s) =
        (unat ?t + unat (csum_finish ?t)) + 65535 * (unat s div 65536)"
      unfolding f using u by linarith
    then show ?thesis using 1 [OF False] by (simp only: dvd_add dvd_triv_left)
  next
    case True
    then have "unat s div 65536 = 0" using unat_drop16 [of s] by simp
    then have s: "unat s < 65536" by simp
    have "unat (csum_finish s) = 65535 - unat s"
      using True s by (subst csum_finish.simps) (simp add: unat_ucast_not)
    then show ?thesis using s by simp
  qed
qed

interpretation eth: internet_checksum csum_add csum_finish
  by unfold_locales (simp_all add: csum_add_in csum_add_out csum_finish_dvd)

section \<open>Properties\<close>

lemma ihl_bounds: "unat (x AND 0x0F :: u8) * 4 \<le> 60"
proof -
  have "x AND 0x0F \<le> 0x0F" by (rule word_and_le1)
  then show ?thesis by (simp add: word_le_nat_alt)
qed

text \<open>Property C22. An outgoing IPv4 frame that is whole leaves with checksums that verify: a zero
  header checksum and, unless the packet is a fragment, a zero ICMP, TCP or UDP checksum
  are filled in over the final bytes, and nothing else of the frame changes.\<close>

theorem eth_csum_restore_valid:
  assumes "34 \<le> length f" "f ! 12 = 0x08" "f ! 13 = 0"
    and "drop_bit 4 (f ! 14) = 4" "ihl = unat (f ! 14 AND 0x0F) * 4" "20 \<le> ihl"
    and "tot = unat (get16 f 16)" "ihl \<le> tot" "14 + tot \<le> length f" "tot < 65522"
  shows "\<exists>ip'. eth_csum_restore [f] = Some [take 14 f @ ip'] \<and> csum_restored (drop 14 f) ip' ihl tot"
proof -
  let ?ip = "drop 14 f"
  have g: "?ip ! 0 = f ! 14" "get16 ?ip 2 = get16 f 16" using assms(1) by (simp_all add: get16_def)
  have w: "unat (14 + get16 f 16) = 14 + tot"
    using assms(7,10) by (simp add: unat_word_ariths)
  have ev: "even ihl" using assms(5) by simp
  obtain ip' where r: "fix_body csum_add csum_finish ?ip ihl tot = Some ip'" "csum_restored ?ip ip' ihl tot"
    using eth.fix_body_restores [OF assms(6) ev assms(8), of ?ip] assms(9,10) by fastforce
  have "eth_csum_restore [f] = Some [take 14 f @ ip']"
    using assms(1-9) r(1) w g
    by (simp add: eth_csum_restore_def Let_def)
  with r(2) show ?thesis by blast
qed

definition sample_frame :: bytes where
  "sample_frame = [2, 0, 0, 0, 0, 1, 2, 0, 0, 0, 0, 2, 0x08, 0x00,
     0x45, 0, 0, 28, 0, 1, 0, 0, 64, 17, 0, 0, 10, 0, 0, 1, 10, 0, 0, 2, 0, 7, 0, 9, 0, 8, 0, 0]"

theorem eth_csum_restore_valid_witness:
  "\<exists>ip'. eth_csum_restore [sample_frame] = Some [take 14 sample_frame @ ip'] \<and>
     csum_restored (drop 14 sample_frame) ip' 20 28"
  by (rule eth_csum_restore_valid)
    (simp_all add: sample_frame_def get16_def unat_be16)

text \<open>The length check of the frame is made on a sum cut to 16 bits: a 34-byte frame
  whose header claims 65522 bytes passes it, and the transport checksum loop then reads
  past the end of the buffer.\<close>

theorem eth_csum_restore_overread:
  "eth_csum_restore [replicate 12 0 @ [0x08, 0x00] @
     [0x45, 0, 0xFF, 0xF2, 0, 1, 0, 0, 64, 17, 0x12, 0x34, 10, 0, 0, 1, 10, 0, 0, 2]] = None"
  by (simp add: eth_csum_restore_def get16_def unat_be16 unat_word_ariths fix_body_def fill_l4_def zero16_def
      csum_add_in Let_def nth_append)

end
