(* ===== verification/Napt.thy ===== *)
theory Napt
  imports Checksum
begin

text \<open>
  The station-edge address translation of exit mode (\<^verbatim>\<open>src/napt.c\<close>). A packet is the list of
  its bytes from the IPv4 header on (\<^verbatim>\<open>avail\<close> is its length); a rewrite in place returns the
  new list. The table has \<^verbatim>\<open>NAPT_MAX\<close> entries and the NAT port of an entry is 60000 plus its
  index. Times are 32-bit milliseconds.

  Shown: an outbound packet is either translated or left alone and dropped, a reply to a
  translated packet finds its way back to the inner host, a flow keeps its NAT port while
  it is live, and the incremental checksum updates keep valid checksums valid, with the
  exception of an unaligned MSS option.
\<close>

abbreviation NAPT_MAX :: nat where "NAPT_MAX \<equiv> 512"
abbreviation NAPT_PORT_BASE :: nat where "NAPT_PORT_BASE \<equiv> 60000"

datatype napt_state = NAPT_ST_NEW | NAPT_ST_ESTABLISHED | NAPT_ST_CLOSING

record napt_entry =
  inner_ip :: bytes
  inner_port :: bytes
  last_ms :: u32
  e_proto :: u8
  e_state :: napt_state

record napt =
  table :: "napt_entry list"
  g_ext :: bytes
  g_mss :: u16
  g_drops :: u32

definition free_entry :: napt_entry where
  "free_entry = \<lparr>inner_ip = [0, 0, 0, 0], inner_port = [0, 0], last_ms = 0, e_proto = 0, e_state = NAPT_ST_NEW\<rparr>"

definition napt_boot :: napt where
  "napt_boot = \<lparr>table = replicate NAPT_MAX free_entry, g_ext = [0, 0, 0, 0], g_mss = 0, g_drops = 0\<rparr>"

definition napt_set_ext_ip :: "u32 \<Rightarrow> napt \<Rightarrow> napt" where
  "napt_set_ext_ip ip_be n = n\<lparr>g_ext := le32_bytes ip_be\<rparr>"

definition napt_set_mss_clamp :: "u16 \<Rightarrow> napt \<Rightarrow> napt" where
  "napt_set_mss_clamp mss n = n\<lparr>g_mss := mss\<rparr>"

definition napt_reset :: "napt \<Rightarrow> napt" where
  "napt_reset n = n\<lparr>table := replicate NAPT_MAX free_entry\<rparr>"

definition timeout_ms :: "napt_entry \<Rightarrow> u32" where
  "timeout_ms e =
     (if e_proto e = 6 then
        if e_state e = NAPT_ST_ESTABLISHED then 7200000
        else if e_state e = NAPT_ST_CLOSING then 30000
        else 240000
      else if e_proto e = 17 then 120000 else 60000)"

definition entry_live :: "napt_entry \<Rightarrow> u32 \<Rightarrow> bool" where
  "entry_live e now \<longleftrightarrow> e_proto e \<noteq> 0 \<and> now - last_ms e < timeout_ms e"

section \<open>Incremental checksums\<close>

fun adjust_sum :: "u32 \<Rightarrow> bytes \<Rightarrow> bytes \<Rightarrow> u32" where
  "adjust_sum acc (a # b # old) (c # d # new) =
     adjust_sum (acc + ucast (NOT (be16 a b)) + ucast (be16 c d)) old new"
| "adjust_sum acc _ _ = acc"

function fold16 :: "u32 \<Rightarrow> u32" where
  "fold16 s = (if drop_bit 16 s \<noteq> 0 then fold16 ((s AND 0xFFFF) + drop_bit 16 s) else s)"
  by pat_completeness auto
termination by (relation "measure unat") (use fold_step_less(1) in auto)

declare fold16.simps [simp del]

text \<open>The value written back for the field value \<open>c\<close>.\<close>

definition csum_adjust :: "u16 \<Rightarrow> bytes \<Rightarrow> bytes \<Rightarrow> u16" where
  "csum_adjust c old new = ucast (NOT (fold16 (adjust_sum (ucast (NOT c)) old new)) AND 0xFFFF)"

definition csum_adjust_nz :: "bytes \<Rightarrow> nat \<Rightarrow> bytes \<Rightarrow> bytes \<Rightarrow> bytes" where
  "csum_adjust_nz p off old new =
     (if get16 p off \<noteq> 0 then put16 p off (csum_adjust (get16 p off) old new) else p)"

definition csum_adjust_udp :: "bytes \<Rightarrow> nat \<Rightarrow> bytes \<Rightarrow> bytes \<Rightarrow> bytes" where
  "csum_adjust_udp p off old new =
     (if get16 p off \<noteq> 0
      then let c = csum_adjust (get16 p off) old new in put16 p off (if c = 0 then 0xFFFF else c)
      else p)"

section \<open>Packets\<close>

text \<open>\<open>parse p\<close> is the header length and the protocol, when \<^verbatim>\<open>parse\<close> returns true.\<close>

definition parse :: "bytes \<Rightarrow> (nat \<times> u8) option" where
  "parse p =
     (if length p < 20 \<or> drop_bit 4 (p ! 0) \<noteq> 4 then None
      else let ihl = unat (p ! 0 AND 0x0F) * 4 in
        if ihl < 20 \<or> length p < ihl then None
        else if p ! 6 AND 0x3F \<noteq> 0 \<or> p ! 7 \<noteq> 0 then None
        else let proto = p ! 9; need = (if proto = 6 then 20 else 8) in
          if (proto = 6 \<or> proto = 17 \<or> proto = 1) \<and> length p - ihl \<ge> need then Some (ihl, proto) else None)"

text \<open>The option loop of \<^verbatim>\<open>clamp_mss\<close> at option offset \<open>i\<close> of the TCP header at \<open>l4\<close>.\<close>

function clamp_opts :: "u16 \<Rightarrow> nat \<Rightarrow> nat \<Rightarrow> nat \<Rightarrow> bytes \<Rightarrow> bytes" where
  "clamp_opts mss_max l4 off i p =
     (if i + 1 < off then
        let kind = p ! (l4 + i) in
        if kind = 0 then p
        else if kind = 1 then clamp_opts mss_max l4 off (i + 1) p
        else let olen = unat (p ! (l4 + i + 1)) in
          if olen < 2 \<or> i + olen > off then p
          else if kind = 2 \<and> olen = 4 then
            let mss = get16 p (l4 + i + 2) in
            if mss > mss_max
            then csum_adjust_nz (put16 p (l4 + i + 2) mss_max) (l4 + 16)
                   [hi8 mss, lo8 mss] [hi8 mss_max, lo8 mss_max]
            else p
          else clamp_opts mss_max l4 off (i + olen) p
      else p)"
  by pat_completeness auto
termination by (relation "measure (\<lambda>(m, l4, off, i, p). off - i)") auto

declare clamp_opts.simps [simp del]

definition clamp_mss :: "napt \<Rightarrow> nat \<Rightarrow> bytes \<Rightarrow> bytes" where
  "clamp_mss n l4 p =
     (if g_mss n = 0 \<or> p ! (l4 + 13) AND 0x02 = 0 then p
      else let off = unat (drop_bit 4 (p ! (l4 + 12))) * 4 in
        if off \<le> 20 \<or> off > length p - l4 then p
        else clamp_opts (g_mss n) l4 off 20 p)"

definition tcp_track :: "u8 \<Rightarrow> napt_entry \<Rightarrow> napt_entry" where
  "tcp_track flags e =
     (if flags AND 0x05 \<noteq> 0 then e\<lparr>e_state := NAPT_ST_CLOSING\<rparr>
      else if flags AND 0x12 = 0x10 \<and> e_state e = NAPT_ST_NEW then e\<lparr>e_state := NAPT_ST_ESTABLISHED\<rparr>
      else e)"

text \<open>The offset in the packet of the field a mapping is keyed on.\<close>

definition keyfield :: "nat \<Rightarrow> u8 \<Rightarrow> bool \<Rightarrow> nat" where
  "keyfield l4 proto src_side = (if proto = 1 then l4 + 4 else if src_side then l4 else l4 + 2)"

text \<open>The search loop: the first live entry of the flow, and the first reusable slot before it.\<close>

fun find_flow :: "u32 \<Rightarrow> u8 \<Rightarrow> bytes \<Rightarrow> bytes \<Rightarrow> napt_entry list \<Rightarrow> nat \<Rightarrow> nat option \<Rightarrow> nat option \<times> nat option" where
  "find_flow now proto ip port [] i fr = (None, fr)"
| "find_flow now proto ip port (t # ts) i fr =
     (if entry_live t now then
        if e_proto t = proto \<and> inner_ip t = ip \<and> inner_port t = port then (Some i, fr)
        else find_flow now proto ip port ts (i + 1) fr
      else find_flow now proto ip port ts (i + 1) (if fr = None then Some i else fr))"

definition drop_packet :: "napt \<Rightarrow> bytes \<Rightarrow> bool \<times> napt \<times> bytes" where
  "drop_packet n p = (False, n\<lparr>g_drops := g_drops n + 1\<rparr>, p)"

text \<open>The rewriting half of \<^verbatim>\<open>napt_outbound\<close> and \<^verbatim>\<open>napt_inbound\<close>: the address at \<open>a\<close> becomes
  \<open>ip\<close> and the key field at \<open>k\<close> becomes \<open>port\<close>, checksums following in the code's order.\<close>

definition rewrite_addr :: "nat \<Rightarrow> u8 \<Rightarrow> nat \<Rightarrow> bytes \<Rightarrow> bytes \<Rightarrow> bytes" where
  "rewrite_addr l4 proto a ip p =
     (let old = seg p a 4;
          p = csum_adjust_nz p 10 old ip;
          p = (if proto = 6 then csum_adjust_nz p (l4 + 16) old ip
               else if proto = 17 then csum_adjust_udp p (l4 + 6) old ip else p)
      in put_seg p a ip)"

definition rewrite_port :: "napt \<Rightarrow> nat \<Rightarrow> u8 \<Rightarrow> nat \<Rightarrow> bytes \<Rightarrow> bytes \<Rightarrow> bytes" where
  "rewrite_port n l4 proto k port p =
     (let old = seg p k 2;
          p = (if proto = 6 then clamp_mss n l4 (csum_adjust_nz p (l4 + 16) old port)
               else if proto = 17 then csum_adjust_udp p (l4 + 6) old port
               else csum_adjust_nz p (l4 + 2) old port)
      in put_seg p k port)"

definition napt_outbound :: "napt \<Rightarrow> bytes \<Rightarrow> u32 \<Rightarrow> bool \<times> napt \<times> bytes" where
  "napt_outbound n p now =
     (case (if list_all (\<lambda>b. b = 0) (g_ext n) then None else parse p) of
        None \<Rightarrow> drop_packet n p
      | Some (l4, proto) \<Rightarrow>
          if proto = 1 \<and> p ! l4 \<noteq> 8 then drop_packet n p
          else let k = keyfield l4 proto True; ip = seg p 12 4; port = seg p k 2;
                   (hit, fr) = find_flow now proto ip port (table n) 0 None
            in case (case hit of Some i \<Rightarrow> Some (i, table n ! i)
                     | None \<Rightarrow> (case fr of None \<Rightarrow> None
                        | Some i \<Rightarrow> Some (i, (table n ! i)\<lparr>inner_ip := ip, inner_port := port,
                                              e_proto := proto, e_state := NAPT_ST_NEW\<rparr>))) of
                 None \<Rightarrow> drop_packet n p
               | Some (i, e) \<Rightarrow>
                   let nat = of_nat (NAPT_PORT_BASE + i) :: u16; natb = [hi8 nat, lo8 nat];
                       p1 = rewrite_addr l4 proto 12 (g_ext n) p;
                       e = (if proto = 6 then tcp_track (p1 ! (l4 + 13)) e else e);
                       p2 = rewrite_port n l4 proto k natb p1
                   in (True, n\<lparr>table := (table n)[i := e\<lparr>last_ms := now\<rparr>]\<rparr>, p2))"

definition napt_inbound :: "napt \<Rightarrow> bytes \<Rightarrow> u32 \<Rightarrow> bool \<times> napt \<times> bytes" where
  "napt_inbound n p now =
     (case parse p of None \<Rightarrow> (False, n, p)
      | Some (l4, proto) \<Rightarrow>
          if seg p 16 4 \<noteq> g_ext n \<or> (proto = 1 \<and> p ! l4 \<noteq> 0) then (False, n, p)
          else let k = keyfield l4 proto False; port = unat (get16 p k) in
            if port < NAPT_PORT_BASE \<or> port \<ge> NAPT_PORT_BASE + NAPT_MAX then (False, n, p)
            else let i = port - NAPT_PORT_BASE; e = table n ! i in
              if \<not> entry_live e now \<or> e_proto e \<noteq> proto then (False, n, p)
              else let p1 = rewrite_addr l4 proto 16 (inner_ip e) p;
                       e = (if proto = 6 then tcp_track (p1 ! (l4 + 13)) e else e);
                       p2 = rewrite_port n l4 proto k (inner_port e) p1
                   in (True, n\<lparr>table := (table n)[i := e\<lparr>last_ms := now\<rparr>]\<rparr>, p2))"

definition napt_stats :: "napt \<Rightarrow> nat \<times> u32" where
  "napt_stats n = (length (filter (\<lambda>e. e_proto e \<noteq> 0) (table n)), g_drops n)"

section \<open>What a rewrite leaves alone\<close>

definition same_except :: "nat set \<Rightarrow> bytes \<Rightarrow> bytes \<Rightarrow> bool" where
  "same_except S p q \<longleftrightarrow> length q = length p \<and> (\<forall>i < length p. i \<notin> S \<longrightarrow> q ! i = p ! i)"

lemma same_except_refl [simp]: "same_except S p p"
  by (simp add: same_except_def)

lemma same_except_trans: "same_except S p q \<Longrightarrow> same_except T q r \<Longrightarrow> same_except (S \<union> T) p r"
  by (simp add: same_except_def)

lemma same_except_mono: "same_except S p q \<Longrightarrow> S \<subseteq> T \<Longrightarrow> same_except T p q"
  by (auto simp: same_except_def)

lemma same_except_length: "same_except S p q \<Longrightarrow> length q = length p"
  by (simp add: same_except_def)

lemma same_except_nth: "same_except S p q \<Longrightarrow> i \<notin> S \<Longrightarrow> i < length p \<Longrightarrow> q ! i = p ! i"
  by (simp add: same_except_def)

lemma same_except_seg:
  assumes "same_except S p q" "\<forall>i \<in> S. i < a \<or> a + n \<le> i"
  shows "seg q a n = seg p a n"
proof (rule nth_equalityI)
  show "length (seg q a n) = length (seg p a n)" using assms(1) by (simp add: same_except_def)
  fix j assume "j < length (seg q a n)"
  then have j: "j < n" "a + j < length q" by auto
  then have "a + j \<notin> S" using assms(2) by force
  then have "q ! (a + j) = p ! (a + j)" using assms(1) j by (simp add: same_except_def)
  then show "seg q a n ! j = seg p a n ! j"
    using j same_except_length [OF assms(1)] by (simp add: seg_def)
qed

lemma same_except_put16: "same_except {off, off + 1} p (put16 p off w)"
  by (simp add: same_except_def nth_put16)

lemma same_except_put_seg:
  "a + length ys \<le> length p \<Longrightarrow> same_except {a..<a + length ys} p (put_seg p a ys)"
  by (auto simp: same_except_def nth_put_seg)

lemma same_except_adjust_nz: "same_except {off, off + 1} p (csum_adjust_nz p off old new)"
  using same_except_put16 by (simp add: csum_adjust_nz_def)

lemma same_except_adjust_udp: "same_except {off, off + 1} p (csum_adjust_udp p off old new)"
  using same_except_put16 by (simp add: csum_adjust_udp_def Let_def)

lemma clamp_opts_same:
  "20 \<le> i \<Longrightarrow> same_except ({l4 + 16, l4 + 17} \<union> {l4 + 22..}) p (clamp_opts m l4 off i p)"
proof (induction m l4 off i p rule: clamp_opts.induct)
  case (1 m l4 off i p)
  have a: "same_except ({l4 + 16, l4 + 17} \<union> {l4 + 22..}) p
      (csum_adjust_nz (put16 p (l4 + i + 2) m) (l4 + 16) old new)" for old new
    by (rule same_except_mono [OF same_except_trans [OF same_except_put16 same_except_adjust_nz]])
      (use "1.prems" in auto)
  show ?case
    using "1.IH" "1.prems" a
    by (subst clamp_opts.simps) (auto simp: Let_def)
qed

lemma clamp_mss_same: "same_except ({l4 + 16, l4 + 17} \<union> {l4 + 22..}) p (clamp_mss n l4 p)"
  using clamp_opts_same [of 20] by (simp add: clamp_mss_def Let_def)

definition l4_csum_bytes :: "nat \<Rightarrow> u8 \<Rightarrow> nat set" where
  "l4_csum_bytes l4 proto = {l4 + l4_off proto, l4 + l4_off proto + 1}"

lemma rewrite_addr_same:
  assumes "a + 4 \<le> length p" "length ip = 4" "proto = 1 \<or> proto = 6 \<or> proto = 17"
  shows "same_except ({10, 11} \<union> l4_csum_bytes l4 proto \<union> {a..<a + 4}) p (rewrite_addr l4 proto a ip p)"
proof -
  let ?p1 = "csum_adjust_nz p 10 (seg p a 4) ip"
  let ?p2 = "if proto = 6 then csum_adjust_nz ?p1 (l4 + 16) (seg p a 4) ip
             else if proto = 17 then csum_adjust_udp ?p1 (l4 + 6) (seg p a 4) ip else ?p1"
  have "same_except {10, 11} p ?p1" using same_except_adjust_nz [of 10 p] by simp
  moreover have 2: "same_except (l4_csum_bytes l4 proto) ?p1 ?p2"
    using assms(3) same_except_adjust_nz [of "l4 + 16" ?p1] same_except_adjust_udp [of "l4 + 6" ?p1]
    by (auto simp: l4_csum_bytes_def l4_off_def)
  moreover have "same_except {a..<a + 4} ?p2 (put_seg ?p2 a ip)"
    using same_except_put_seg [of a ip ?p2] assms(1,2) same_except_length [OF 2]
      same_except_length [OF same_except_adjust_nz, of p 10 "seg p a 4" ip] by simp
  ultimately show ?thesis
    unfolding rewrite_addr_def Let_def by (intro same_except_trans)
qed

lemma rewrite_port_same:
  assumes "k + 2 \<le> length p" "length port = 2" "proto = 1 \<or> proto = 6 \<or> proto = 17"
  shows "same_except (l4_csum_bytes l4 proto \<union> {l4 + 22..} \<union> {k, k + 1}) p (rewrite_port n l4 proto k port p)"
proof -
  let ?q = "if proto = 6 then clamp_mss n l4 (csum_adjust_nz p (l4 + 16) (seg p k 2) port)
       else if proto = 17 then csum_adjust_udp p (l4 + 6) (seg p k 2) port
       else csum_adjust_nz p (l4 + 2) (seg p k 2) port"
  have 1: "same_except (l4_csum_bytes l4 proto \<union> {l4 + 22..}) p ?q"
  proof (cases "proto = 6")
    case True
    then have q: "?q = clamp_mss n l4 (csum_adjust_nz p (l4 + 16) (seg p k 2) port)" by simp
    have "same_except ({l4 + 16, l4 + 16 + 1} \<union> ({l4 + 16, l4 + 17} \<union> {l4 + 22..})) p ?q"
      unfolding q by (rule same_except_trans [OF same_except_adjust_nz clamp_mss_same])
    then show ?thesis by (rule same_except_mono) (auto simp: l4_csum_bytes_def l4_off_def True)
  next
    case False
    then show ?thesis
      using assms(3) same_except_adjust_nz [of "l4 + 2" p "seg p k 2" port]
        same_except_adjust_udp [of "l4 + 6" p "seg p k 2" port]
      by (auto simp: l4_csum_bytes_def l4_off_def elim!: same_except_mono)
  qed
  moreover have "{k..<k + 2} = {k, k + 1}" by auto
  ultimately show ?thesis
    unfolding rewrite_port_def Let_def
    using same_except_put_seg [of k port ?q] assms(1,2) same_except_length [OF 1]
      same_except_trans [OF 1, of "{k, k + 1}" "put_seg ?q k port"] by simp
qed

section \<open>The table\<close>

definition flow_of :: "napt_entry \<Rightarrow> u8 \<Rightarrow> bytes \<Rightarrow> bytes \<Rightarrow> bool" where
  "flow_of e proto ip port \<longleftrightarrow> e_proto e = proto \<and> inner_ip e = ip \<and> inner_port e = port"

definition napt_wf :: "napt \<Rightarrow> bool" where
  "napt_wf n \<longleftrightarrow> length (table n) = NAPT_MAX \<and> length (g_ext n) = 4 \<and>
     list_all (\<lambda>e. length (inner_ip e) = 4 \<and> length (inner_port e) = 2) (table n)"

lemma find_flow_hit:
  "find_flow now proto ip port ts i fr = (Some j, fr') \<Longrightarrow>
     i \<le> j \<and> j - i < length ts \<and> entry_live (ts ! (j - i)) now \<and> flow_of (ts ! (j - i)) proto ip port \<and>
     (\<forall>m < j - i. \<not> (entry_live (ts ! m) now \<and> flow_of (ts ! m) proto ip port))"
proof (induction ts arbitrary: i fr)
  case (Cons t ts)
  show ?case
  proof (cases "entry_live t now \<and> flow_of t proto ip port")
    case True
    then show ?thesis using Cons.prems by (auto simp: flow_of_def)
  next
    case False
    then obtain fr2 where "find_flow now proto ip port ts (i + 1) fr2 = (Some j, fr')"
      using Cons.prems by (auto simp: flow_of_def split: if_splits)
    from Cons.IH [OF this] have ih: "Suc i \<le> j" "j - Suc i < length ts" "entry_live (ts ! (j - Suc i)) now"
      "flow_of (ts ! (j - Suc i)) proto ip port"
      "\<forall>m < j - Suc i. \<not> (entry_live (ts ! m) now \<and> flow_of (ts ! m) proto ip port)" by auto
    from ih(1) have e: "j - i = Suc (j - Suc i)" by simp
    then show ?thesis using ih False by (auto simp: nth_Cons split: nat.splits)
  qed
qed simp

lemma find_flow_miss:
  "find_flow now proto ip port ts i fr = (None, fr') \<Longrightarrow>
     (\<forall>t \<in> set ts. \<not> (entry_live t now \<and> flow_of t proto ip port)) \<and>
     (case fr of Some f \<Rightarrow> fr' = Some f
      | None \<Rightarrow> (\<forall>f. fr' = Some f \<longrightarrow> i \<le> f \<and> f - i < length ts \<and> \<not> entry_live (ts ! (f - i)) now))"
proof (induction ts arbitrary: i fr)
  case (Cons t ts)
  show ?case
  proof (cases "entry_live t now")
    case True
    then have "\<not> flow_of t proto ip port" "find_flow now proto ip port ts (i + 1) fr = (None, fr')"
      using Cons.prems by (auto simp: flow_of_def split: if_splits)
    with Cons.IH [OF this(2)] show ?thesis
      by (auto simp: nth_Cons' Suc_diff_le split: option.splits)
  next
    case False
    then have "find_flow now proto ip port ts (i + 1) (if fr = None then Some i else fr) = (None, fr')"
      using Cons.prems by (auto split: if_splits)
    from Cons.IH [OF this] False show ?thesis by (cases fr) auto
  qed
qed (auto split: option.splits)

lemma parse_facts:
  assumes "parse p = Some (l4, proto)"
  shows "20 \<le> l4" "l4 \<le> 60" "even l4" "proto = 1 \<or> proto = 6 \<or> proto = 17" "l4 + 8 \<le> length p"
    "proto = 6 \<Longrightarrow> l4 + 20 \<le> length p" "proto = p ! 9" "\<not> is_fragment p"
proof -
  have "l4 = unat (p ! 0 AND 0x0F) * 4"
    using assms by (auto simp: parse_def Let_def split: if_splits)
  then show "l4 \<le> 60" "even l4" using ihl_bounds [of "p ! 0"] by auto
  show "20 \<le> l4" "proto = 1 \<or> proto = 6 \<or> proto = 17" "l4 + 8 \<le> length p"
    "proto = 6 \<Longrightarrow> l4 + 20 \<le> length p" "proto = p ! 9" "\<not> is_fragment p"
    using assms by (auto simp: parse_def Let_def is_fragment_def split: if_splits)
qed

lemma keyfield_bounds:
  assumes "parse p = Some (l4, proto)"
  shows "l4 \<le> keyfield l4 proto s" "keyfield l4 proto s + 2 \<le> l4 + 6" "even (keyfield l4 proto s)"
    and "keyfield l4 proto s + 2 \<le> length p"
    and "keyfield l4 proto s + 2 \<le> l4 + l4_off proto \<or> l4 + l4_off proto + 2 \<le> keyfield l4 proto s"
  using parse_facts(3-5) [OF assms] by (auto simp: keyfield_def l4_off_def)

text \<open>The packet an accepted outbound packet becomes, and the entry it used.\<close>

lemma napt_outbound_True:
  assumes "napt_outbound n p now = (True, n', p')" "length (table n) = NAPT_MAX"
  obtains l4 proto i where "parse p = Some (l4, proto)" "i < NAPT_MAX" "proto = 1 \<Longrightarrow> p ! l4 = 8"
    "flow_of (table n' ! i) proto (seg p 12 4) (seg p (keyfield l4 proto True) 2)"
    "last_ms (table n' ! i) = now" "n' = n\<lparr>table := (table n)[i := table n' ! i]\<rparr>"
    "p' = rewrite_port n l4 proto (keyfield l4 proto True)
            [hi8 (of_nat (NAPT_PORT_BASE + i)), lo8 (of_nat (NAPT_PORT_BASE + i))]
            (rewrite_addr l4 proto 12 (g_ext n) p)"
    "entry_live (table n ! i) now \<Longrightarrow> flow_of (table n ! i) proto (seg p 12 4) (seg p (keyfield l4 proto True) 2)"
    "\<forall>m < i. \<not> (entry_live (table n ! m) now \<and>
        flow_of (table n ! m) proto (seg p 12 4) (seg p (keyfield l4 proto True) 2))"
proof -
  obtain l4 proto where pr: "parse p = Some (l4, proto)" and g: "\<not> list_all (\<lambda>b. b = 0) (g_ext n)"
    using assms(1) by (auto simp: napt_outbound_def drop_packet_def split: if_splits option.splits)
  let ?k = "keyfield l4 proto True" let ?ip = "seg p 12 4" let ?port = "seg p (keyfield l4 proto True) 2"
  have ic: "\<not> (proto = 1 \<and> p ! l4 \<noteq> 8)"
    using assms(1) pr g by (auto simp: napt_outbound_def drop_packet_def split: if_splits)
  obtain hit fr where f: "find_flow now proto ?ip ?port (table n) 0 None = (hit, fr)" by force
  have e: "napt_outbound n p now =
    (case (case hit of Some i \<Rightarrow> Some (i, table n ! i)
           | None \<Rightarrow> (case fr of None \<Rightarrow> None
              | Some i \<Rightarrow> Some (i, (table n ! i)\<lparr>inner_ip := ?ip, inner_port := ?port,
                                    e_proto := proto, e_state := NAPT_ST_NEW\<rparr>))) of
       None \<Rightarrow> drop_packet n p
     | Some (i, e) \<Rightarrow>
         let nat = of_nat (NAPT_PORT_BASE + i) :: u16; natb = [hi8 nat, lo8 nat];
             p1 = rewrite_addr l4 proto 12 (g_ext n) p;
             e = (if proto = 6 then tcp_track (p1 ! (l4 + 13)) e else e);
             p2 = rewrite_port n l4 proto ?k natb p1
         in (True, n\<lparr>table := (table n)[i := e\<lparr>last_ms := now\<rparr>]\<rparr>, p2))"
    using g ic unfolding napt_outbound_def pr by (simp add: f Let_def) argo
  have t: "flow_of (tcp_track fl e) a b c = flow_of e a b c" "flow_of (e\<lparr>last_ms := now\<rparr>) a b c = flow_of e a b c"
    for fl e a b c by (simp_all add: flow_of_def tcp_track_def)
  show thesis
  proof (cases hit)
    case (Some i)
    with f have h: "i < 512" "entry_live (table n ! i) now" "flow_of (table n ! i) proto ?ip ?port"
      "\<forall>m < i. \<not> (entry_live (table n ! m) now \<and> flow_of (table n ! m) proto ?ip ?port)"
      using find_flow_hit [of now proto ?ip ?port "table n" 0 None i fr] assms(2) by auto
    show thesis
      using assms e h pr ic unfolding Some by (intro that [of l4 proto i]) (auto simp: Let_def t)
  next
    case None
    then obtain i where fr: "fr = Some i" using assms(1) e by (cases fr) (auto simp: drop_packet_def)
    from find_flow_miss [of now proto ?ip ?port "table n" 0 None fr] f None fr assms(2)
    have h: "i < 512" "\<not> entry_live (table n ! i) now"
      "\<forall>t \<in> set (table n). \<not> (entry_live t now \<and> flow_of t proto ?ip ?port)" by auto
    show thesis
      using assms e h pr ic unfolding None fr
      by (intro that [of l4 proto i]) (auto simp: Let_def t, auto simp: flow_of_def)
  qed
qed

lemma napt_outbound_False:
  "napt_outbound n p now = (False, n', p') \<Longrightarrow> p' = p \<and> n' = n\<lparr>g_drops := g_drops n + 1\<rparr>"
  by (auto simp: napt_outbound_def drop_packet_def Let_def split: if_splits option.splits prod.splits)

text \<open>An inbound packet that is taken in, and one that is not.\<close>

lemma napt_inbound_cases:
  assumes "napt_inbound n p now = (b, n', p')"
  obtains (local) "\<not> b" "n' = n" "p' = p"
  | (hit) l4 proto i where "b" "parse p = Some (l4, proto)" "i < NAPT_MAX"
      "unat (get16 p (keyfield l4 proto False)) = NAPT_PORT_BASE + i" "entry_live (table n ! i) now"
      "e_proto (table n ! i) = proto"
      "p' = rewrite_port n l4 proto (keyfield l4 proto False) (inner_port (table n ! i))
              (rewrite_addr l4 proto 16 (inner_ip (table n ! i)) p)"
      "n' = n\<lparr>table := (table n)[i := (if proto = 6 then tcp_track
                 (rewrite_addr l4 proto 16 (inner_ip (table n ! i)) p ! (l4 + 13)) (table n ! i)
               else table n ! i)\<lparr>last_ms := now\<rparr>]\<rparr>"
proof (cases b)
  case False
  then show thesis using assms local
    by (auto simp: napt_inbound_def Let_def split: option.splits if_splits prod.splits)
next
  case True
  then obtain l4 proto where pr: "parse p = Some (l4, proto)"
    using assms by (auto simp: napt_inbound_def split: option.splits)
  let ?port = "unat (get16 p (keyfield l4 proto False))"
  have r: "NAPT_PORT_BASE \<le> ?port" "?port < NAPT_PORT_BASE + NAPT_MAX"
    using assms True pr by (auto simp: napt_inbound_def Let_def split: if_splits)
  have i: "inner_port (tcp_track fl e) = inner_port e" for fl e by (simp add: tcp_track_def)
  show thesis
    by (rule hit [of l4 proto "?port - NAPT_PORT_BASE"])
      (use assms True pr r in \<open>auto simp: napt_inbound_def Let_def i split: if_splits\<close>)
qed

lemma nat_port: "i < NAPT_MAX \<Longrightarrow> unat (of_nat (NAPT_PORT_BASE + i) :: u16) = NAPT_PORT_BASE + i"
  by (rule unat_of_nat_u16) simp

lemma seg_pair: "k + 2 \<le> length p \<Longrightarrow> seg p k 2 = [p ! k, p ! (k + 1)]"
  by (rule nth_equalityI) (auto simp: less_Suc_eq numeral_2_eq_2)

lemma get16_seg: "k + 2 \<le> length p \<Longrightarrow> get16 p k = be16 (seg p k 2 ! 0) (seg p k 2 ! 1)"
  by (simp add: get16_def)

lemma rewrite_addr_seg:
  assumes "a + 4 \<le> length p" "length ip = 4"
  shows "seg (rewrite_addr l4 proto a ip p) a 4 = ip"
proof -
  have "length (csum_adjust_nz q off old new) = length q" "length (csum_adjust_udp q off old new) = length q"
    for q off old new
    using same_except_adjust_nz same_except_adjust_udp by (auto simp: same_except_def)
  then show ?thesis
    using seg_put_seg_same [of a ip] assms by (simp add: rewrite_addr_def Let_def)
qed

lemma rewrite_port_seg:
  assumes "k + 2 \<le> length p" "length port = 2"
  shows "seg (rewrite_port n l4 proto k port p) k 2 = port"
proof -
  have "length (csum_adjust_nz q off old new) = length q" "length (csum_adjust_udp q off old new) = length q"
    "length (clamp_mss n l4 q) = length q" for q off old new
    using same_except_adjust_nz same_except_adjust_udp clamp_mss_same by (auto simp: same_except_def)
  then show ?thesis
    using seg_put_seg_same [of k port] assms by (simp add: rewrite_port_def Let_def)
qed

text \<open>The whole rewrite of a parsed packet.\<close>

lemma rewrite_spec:
  fixes n :: napt
  assumes "parse p = Some (l4, proto)" "a = 12 \<or> a = 16" "length ip = 4" "length port = 2"
    and "k = keyfield l4 proto s"
  defines "q \<equiv> rewrite_port n l4 proto k port (rewrite_addr l4 proto a ip p)"
  shows "seg q a 4 = ip" "seg q k 2 = port"
    "same_except ({10, 11} \<union> {a..<a + 4} \<union> {k, k + 1} \<union> l4_csum_bytes l4 proto \<union> {l4 + 22..}) p q"
proof -
  note f = parse_facts [OF assms(1)] keyfield_bounds [OF assms(1), of s, folded assms(5)]
  let ?p1 = "rewrite_addr l4 proto a ip p"
  have a: "a + 4 \<le> length p" using assms(2) f(1,5) by auto
  note s1 = rewrite_addr_same [OF a assms(3) f(4), of l4]
  have l: "k + 2 \<le> length ?p1" using same_except_length [OF s1] f(12) by simp
  note s2 = rewrite_port_same [OF l assms(4) f(4), of l4 n, folded q_def]
  show "seg q k 2 = port" unfolding q_def by (rule rewrite_port_seg [OF l assms(4)])
  have "seg q a 4 = seg ?p1 a 4"
    using f(1,9) assms(2) by (intro same_except_seg [OF s2]) (auto simp: l4_csum_bytes_def)
  then show "seg q a 4 = ip" by (simp add: rewrite_addr_seg [OF a assms(3)])
  show "same_except ({10, 11} \<union> {a..<a + 4} \<union> {k, k + 1} \<union> l4_csum_bytes l4 proto \<union> {l4 + 22..}) p q"
    by (rule same_except_mono [OF same_except_trans [OF s1 s2]]) auto
qed

section \<open>A live mapping stays\<close>

datatype napt_op = Outbound bytes | Inbound bytes

fun napt_step :: "napt \<Rightarrow> napt_op \<times> u32 \<Rightarrow> napt" where
  "napt_step n (Outbound p, now) = fst (snd (napt_outbound n p now))"
| "napt_step n (Inbound p, now) = fst (snd (napt_inbound n p now))"

definition napt_run :: "napt \<Rightarrow> (napt_op \<times> u32) list \<Rightarrow> napt" where
  "napt_run = foldl napt_step"

lemma seg_lengths:
  assumes "parse p = Some (l4, proto)"
  shows "length (seg p 12 4) = 4" "length (seg p (keyfield l4 proto s) 2) = 2"
  using parse_facts(1,5) [OF assms] keyfield_bounds(4) [OF assms, of s] by auto

lemma napt_wf_update:
  assumes "napt_wf n" "length (inner_ip e) = 4" "length (inner_port e) = 2"
  shows "napt_wf (n\<lparr>table := (table n)[i := e]\<rparr>)"
  using assms set_update_subset_insert [of "table n" i e] by (auto simp: napt_wf_def list_all_iff)

lemma napt_step_wf:
  assumes "napt_wf n"
  shows "napt_wf (napt_step n (op, now))"
proof (cases op)
  case (Outbound p)
  obtain b n' p' where o: "napt_outbound n p now = (b, n', p')" by (metis prod_cases3)
  show ?thesis
  proof (cases b)
    case True
    with o have o: "napt_outbound n p now = (True, n', p')" by simp
    have l: "length (table n) = 512" using assms by (simp add: napt_wf_def)
    from o l show ?thesis
    proof (rule napt_outbound_True)
      fix l4 proto i
      assume pr: "parse p = Some (l4, proto)"
        and fl: "flow_of (table n' ! i) proto (seg p 12 4) (seg p (keyfield l4 proto True) 2)"
        and n': "n' = n\<lparr>table := (table n)[i := table n' ! i]\<rparr>"
      have "napt_wf (n\<lparr>table := (table n)[i := table n' ! i]\<rparr>)"
        using fl seg_lengths [OF pr] by (intro napt_wf_update [OF assms]) (auto simp: flow_of_def)
      then show ?thesis using n' by (simp add: Outbound o)
    qed
  next
    case False
    then show ?thesis using napt_outbound_False [of n p now n' p'] o assms
      by (simp add: Outbound napt_wf_def)
  qed
next
  case (Inbound p)
  obtain b n' p' where o: "napt_inbound n p now = (b, n', p')" by (metis prod_cases3)
  from o show ?thesis
  proof (cases rule: napt_inbound_cases)
    case (hit l4 proto i)
    then have "table n ! i \<in> set (table n)" using assms by (simp add: napt_wf_def)
    then have "length (inner_ip (table n ! i)) = 4" "length (inner_port (table n ! i)) = 2"
      using assms by (auto simp: napt_wf_def list_all_iff)
    then have "napt_wf n'"
      unfolding hit(8) by (intro napt_wf_update [OF assms]) (auto simp: tcp_track_def)
    then show ?thesis by (simp add: Inbound o)
  qed (use assms in \<open>simp add: Inbound o\<close>)
qed

text \<open>No packet in either direction takes a live entry away from its flow.\<close>

lemma napt_step_keeps:
  assumes "napt_wf n" "i < NAPT_MAX" "entry_live (table n ! i) now" "flow_of (table n ! i) proto ip port"
  shows "flow_of (table (napt_step n (op, now)) ! i) proto ip port \<and>
    last_ms (table (napt_step n (op, now)) ! i) \<in> {last_ms (table n ! i), now}"
proof (cases op)
  case (Outbound p)
  obtain b n' p' where o: "napt_outbound n p now = (b, n', p')" by (metis prod_cases3)
  show ?thesis
  proof (cases b)
    case True
    with o have o: "napt_outbound n p now = (True, n', p')" by simp
    have l: "length (table n) = 512" using assms by (simp add: napt_wf_def)
    from o l show ?thesis
    proof (rule napt_outbound_True)
      fix l4 proto' j
      assume j: "flow_of (table n' ! j) proto' (seg p 12 4) (seg p (keyfield l4 proto' True) 2)"
        "last_ms (table n' ! j) = now" "n' = n\<lparr>table := (table n)[j := table n' ! j]\<rparr>"
        "entry_live (table n ! j) now \<Longrightarrow> flow_of (table n ! j) proto' (seg p 12 4) (seg p (keyfield l4 proto' True) 2)"
      show ?thesis
      proof (cases "i = j")
        case True
        then show ?thesis using j assms(3,4) by (auto simp: Outbound o flow_of_def)
      next
        case False
        have "table n' ! i = table n ! i" by (subst j(3)) (simp add: nth_list_update_neq [OF False [symmetric]])
        then show ?thesis using assms(4) by (simp add: Outbound o)
      qed
    qed
  next
    case False
    then show ?thesis using napt_outbound_False [of n p now n' p'] o assms(4)
      by (simp add: Outbound)
  qed
next
  case (Inbound p)
  obtain b n' p' where o: "napt_inbound n p now = (b, n', p')" by (metis prod_cases3)
  from o show ?thesis
  proof (cases rule: napt_inbound_cases)
    case (hit l4 proto' j)
    have "length (table n) = 512" using assms(1) by (simp add: napt_wf_def)
    then show ?thesis using assms(2,4) hit(3)
      by (cases "i = j") (auto simp: Inbound o hit(8) flow_of_def tcp_track_def)
  qed (use assms in \<open>simp add: Inbound o\<close>)
qed

lemma napt_step_ext: "g_ext (napt_step n (op, now)) = g_ext n"
  by (cases op) (auto simp: napt_outbound_def napt_inbound_def drop_packet_def Let_def
      split: option.splits prod.splits)

lemma timeout_at_least: "(30000 :: u32) \<le> timeout_ms e"
  by (simp add: timeout_ms_def)

text \<open>Thirty seconds after a packet of the flow its entry is live whatever the state.\<close>

lemma recent_live:
  assumes "flow_of e proto ip port" "proto \<noteq> 0" "last_ms e = t0 + of_nat d" "d \<le> d'" "d' < 30000"
  shows "entry_live e (t0 + of_nat d')"
proof -
  have "t0 + of_nat d' - last_ms e = of_nat (d' - d)" using assms(3,4) by (simp add: of_nat_diff)
  moreover have "(of_nat (d' - d) :: u32) < 30000"
    using assms(5) by (simp add: word_less_nat_alt unat_of_nat_u32)
  ultimately have "t0 + of_nat d' - last_ms e < timeout_ms e"
    using timeout_at_least [of e] by (metis order_less_le_trans)
  then show ?thesis using assms(1,2) by (simp add: entry_live_def flow_of_def)
qed

lemma napt_run_keeps:
  assumes "napt_wf n" "i < NAPT_MAX" "flow_of (table n ! i) proto ip port" "proto \<noteq> 0"
    and "last_ms (table n ! i) = t0 + of_nat d" "sorted (d # map snd ops)" "\<forall>x \<in> set ops. snd x < 30000"
  shows "napt_wf (napt_run n (map (\<lambda>(op, dt). (op, t0 + of_nat dt)) ops)) \<and>
    g_ext (napt_run n (map (\<lambda>(op, dt). (op, t0 + of_nat dt)) ops)) = g_ext n \<and>
    flow_of (table (napt_run n (map (\<lambda>(op, dt). (op, t0 + of_nat dt)) ops)) ! i) proto ip port \<and>
    (\<exists>d' \<le> last (d # map snd ops). last_ms (table (napt_run n (map (\<lambda>(op, dt). (op, t0 + of_nat dt)) ops)) ! i)
        = t0 + of_nat d')"
  using assms
proof (induction ops arbitrary: n d)
  case Nil
  then show ?case by (auto simp: napt_run_def)
next
  case (Cons x ops)
  obtain op dt where x: "x = (op, dt)" by force
  let ?n = "napt_step n (op, t0 + of_nat dt)"
  have dt: "d \<le> dt" "dt < 30000" "sorted (dt # map snd ops)" using Cons.prems(6,7) by (auto simp: x)
  have live: "entry_live (table n ! i) (t0 + of_nat dt)"
    by (rule recent_live [OF Cons.prems(3,4,5) dt(1,2)])
  note k = napt_step_keeps [OF Cons.prems(1,2) live Cons.prems(3), of op]
  have wf: "napt_wf ?n" by (rule napt_step_wf [OF Cons.prems(1)])
  have ext: "g_ext ?n = g_ext n" by (rule napt_step_ext)
  have r: "napt_run n (map (\<lambda>(op, dt). (op, t0 + of_nat dt)) (x # ops)) =
      napt_run ?n (map (\<lambda>(op, dt). (op, t0 + of_nat dt)) ops)" by (simp add: napt_run_def x)
  obtain d1 where d1: "last_ms (table ?n ! i) = t0 + of_nat d1" "d1 \<le> dt" "sorted (d1 # map snd ops)"
    using k Cons.prems(5) dt by (cases "last_ms (table ?n ! i) = t0 + of_nat dt") force+
  have "d1 \<le> last (dt # map snd ops)" if "ops = []" using that d1(2) by simp
  have ih: "napt_wf (napt_run ?n (map (\<lambda>(op, dt). (op, t0 + of_nat dt)) ops)) \<and>
    g_ext (napt_run ?n (map (\<lambda>(op, dt). (op, t0 + of_nat dt)) ops)) = g_ext ?n \<and>
    flow_of (table (napt_run ?n (map (\<lambda>(op, dt). (op, t0 + of_nat dt)) ops)) ! i) proto ip port \<and>
    (\<exists>d' \<le> last (d1 # map snd ops). last_ms (table (napt_run ?n (map (\<lambda>(op, dt). (op, t0 + of_nat dt)) ops)) ! i)
        = t0 + of_nat d')"
    using k Cons.prems(7) by (intro Cons.IH [OF wf Cons.prems(2) _ Cons.prems(4) d1(1,3)]) auto
  have "last (d1 # map snd ops) \<le> last (d # map snd (x # ops))" using d1(2) by (simp add: x)
  with ih ext show ?case unfolding r by (metis order_trans)
qed

section \<open>Checksum arithmetic\<close>

text \<open>Sums that agree modulo 65535, the modulus of one's complement 16-bit arithmetic.\<close>

definition same16 :: "nat \<Rightarrow> nat \<Rightarrow> bool" where
  "same16 a b \<longleftrightarrow> (65535 :: int) dvd int a - int b"

lemma same16_refl [simp]: "same16 a a"
  by (simp add: same16_def)

lemma same16_trans: "same16 a b \<Longrightarrow> same16 b c \<Longrightarrow> same16 a c"
  unfolding same16_def using dvd_add [of 65535 "int a - int b" "int b - int c"] by simp

lemma same16_csum_ok: "same16 a b \<Longrightarrow> csum_ok a \<longleftrightarrow> csum_ok b"
proof -
  assume s: "same16 a b"
  have "csum_ok n \<longleftrightarrow> (65535 :: int) dvd int n" for n
    unfolding csum_ok_def by (metis int_dvd_int_iff of_nat_numeral)
  then show ?thesis using s dvd_add_right_iff [of 65535 "int a - int b" "int b"] unfolding same16_def by simp
qed

lemma fold16_spec: "same16 (unat (fold16 s)) (unat s) \<and> unat (fold16 s) < 65536"
proof (induction s rule: fold16.induct)
  case (1 s)
  show ?case
  proof (cases "drop_bit 16 s = 0")
    case True
    then have "unat s div 65536 = 0" using unat_drop16 [of s] by simp
    then show ?thesis using True by (subst (1 2) fold16.simps) simp
  next
    case False
    let ?t = "(s AND 0xFFFF) + drop_bit 16 s"
    have f: "fold16 s = fold16 ?t" using False by (subst fold16.simps) simp
    have u: "unat s = unat ?t + 65535 * (unat s div 65536)"
      unfolding fold_step_less(2) [OF False] using div_mult_mod_eq [of "unat s" 65536] by linarith
    have "same16 (unat ?t) (unat s)"
      unfolding same16_def by (subst u) simp
    then show ?thesis unfolding f using 1 [OF False] same16_trans by blast
  qed
qed

lemma same16_step:
  assumes "same16 (x + bo) (acc' + bn)" "acc' + o16 = acc + 65535 + n16"
  shows "same16 (x + (o16 + bo)) (acc + (n16 + bn))"
proof -
  have "int acc' = int acc + 65535 + int n16 - int o16" using assms(2) by linarith
  then have "int (x + (o16 + bo)) - int (acc + (n16 + bn)) = (int (x + bo) - int (acc' + bn)) + 65535"
    by simp
  then show ?thesis using assms(1) unfolding same16_def by (metis dvd_add dvd_refl)
qed

lemma adjust_sum_spec:
  assumes "length old = length new" "even (length old)" "unat acc + 131070 * length old < 4294967296"
  shows "same16 (unat (adjust_sum acc old new) + be_sum old) (unat acc + be_sum new)"
  using assms
proof (induction acc old new rule: adjust_sum.induct)
  case (1 acc a b old c d new)
  let ?acc = "acc + ucast (NOT (be16 a b)) + ucast (be16 c d) :: u32"
  have n: "unat (ucast (NOT (be16 a b)) :: u32) = 65535 - unat (be16 a b)"
    "unat (ucast (be16 c d) :: u32) = unat (be16 c d)"
    by (simp_all add: unat_not16)
  have u: "unat ?acc = unat acc + (65535 - unat (be16 a b)) + unat (be16 c d)"
    using "1.prems"(3) unat_u16_less [of "be16 c d"] unat_u16_less [of "be16 a b"]
    by (simp add: unat_word_ariths unat_not16 del: unat_u16_less)
  have "same16 (unat (adjust_sum ?acc old new) + be_sum old) (unat ?acc + be_sum new)"
    using "1.prems" unat_u16_less [of "be16 c d"] unat_u16_less [of "be16 a b"]
    by (intro "1.IH") (auto simp: u simp del: unat_u16_less)
  moreover have "unat ?acc + unat (be16 a b) = unat acc + 65535 + unat (be16 c d)"
    using unat_u16_less [of "be16 a b"] by (simp add: u del: unat_u16_less)
  ultimately show ?case unfolding adjust_sum.simps be_sum.simps by (rule same16_step)
qed auto

lemma csum_adjust_law:
  assumes "length old = length new" "even (length old)" "length old \<le> 1000"
  shows "same16 (unat (csum_adjust c old new) + be_sum new) (unat c + be_sum old)"
proof -
  let ?s = "adjust_sum (ucast (NOT c)) old new"
  have c: "unat (ucast (NOT c) :: u32) = 65535 - unat c"
    by (simp add: unat_not16)
  have 1: "same16 (unat ?s + be_sum old) (65535 - unat c + be_sum new)"
    using adjust_sum_spec [OF assms(1,2), of "ucast (NOT c)"] assms(3) by (simp add: unat_not16)
  have f: "same16 (unat (fold16 ?s)) (unat ?s)" "unat (fold16 ?s) < 65536" using fold16_spec by auto
  have m: "ucast (NOT (fold16 ?s) AND 0xFFFF) = (ucast (NOT (fold16 ?s)) :: u16)"
  proof -
    have m: "(0xFFFF :: u32) = mask 16" by (simp add: mask_eq_exp_minus_1)
    show ?thesis unfolding m by (rule bit_word_eqI) (auto simp: bit_simps)
  qed
  have "unat (csum_adjust c old new) = 65535 - unat (fold16 ?s)"
    unfolding csum_adjust_def m by (rule unat_ucast_not [OF f(2)])
  then have r: "int (unat (csum_adjust c old new)) = 65535 - int (unat (fold16 ?s))"
    using f(2) by (simp add: of_nat_diff)
  have c': "int (65535 - unat c) = 65535 - int (unat c)" by (simp add: of_nat_diff)
  have "int (unat (csum_adjust c old new) + be_sum new) - int (unat c + be_sum old) =
     - (int (unat (fold16 ?s)) - int (unat ?s)) -
     (int (unat ?s + be_sum old) - int (65535 - unat c + be_sum new))"
    unfolding of_nat_add r c' by linarith
  then show ?thesis using f(1) 1 unfolding same16_def by (metis dvd_diff dvd_minus_iff)
qed

lemma be_sum_put_seg:
  assumes "even a" "even (length ys)" "a + length ys \<le> length p"
  shows "be_sum (put_seg p a ys) + be_sum (seg p a (length ys)) = be_sum p + be_sum ys"
proof -
  let ?r = "drop (a + length ys) p"
  have t: "even (length (take a p))" using assms by (simp add: min_absorb2)
  have s: "even (length (seg p a (length ys)))" using assms by (simp add: min_absorb1)
  have "p = take a p @ seg p a (length ys) @ ?r"
    unfolding seg_def by (metis add.commute append_take_drop_id drop_drop)
  then have "be_sum p = be_sum (take a p) + (be_sum (seg p a (length ys)) + be_sum ?r)"
    using be_sum_append [OF t] be_sum_append [OF s] by metis
  moreover have "be_sum (put_seg p a ys) = be_sum (take a p) + (be_sum ys + be_sum ?r)"
    unfolding put_seg_def using be_sum_append [OF t] be_sum_append [OF assms(2)] by simp
  ultimately show ?thesis by simp
qed

lemma same16_adjust:
  assumes "x + (c + bo) = y + (c' + bn)" "same16 (c' + bn) (c + bo)"
  shows "same16 x y"
proof -
  have "int x - int y = int (c' + bn) - int (c + bo)" using assms(1) by linarith
  then show ?thesis using assms(2) by (simp add: same16_def)
qed

text \<open>A region of the packet, its sum, and what the two adjusting functions do to it.\<close>

definition adjusted :: "bytes \<Rightarrow> nat \<Rightarrow> bytes \<Rightarrow> bytes \<Rightarrow> bytes \<Rightarrow> bool" where
  "adjusted p off old new q \<longleftrightarrow> (\<exists>c. q = put16 p off c \<and>
     same16 (unat c + be_sum new) (unat (get16 p off) + be_sum old))"

lemma adjusted_nz:
  assumes "get16 p off \<noteq> 0" "length old = length new" "even (length old)" "length old \<le> 1000"
  shows "adjusted p off old new (csum_adjust_nz p off old new)"
  using assms csum_adjust_law [OF assms(2-4)] by (auto simp: adjusted_def csum_adjust_nz_def)

lemma adjusted_udp:
  assumes "get16 p off \<noteq> 0" "length old = length new" "even (length old)" "length old \<le> 1000"
  shows "adjusted p off old new (csum_adjust_udp p off old new)"
proof -
  let ?c = "csum_adjust (get16 p off) old new"
  have l: "same16 (unat ?c + be_sum new) (unat (get16 p off) + be_sum old)" by (rule csum_adjust_law [OF assms(2-4)])
  have "same16 (65535 + be_sum new) (unat (get16 p off) + be_sum old)" if "?c = 0"
  proof -
    have "same16 (65535 + be_sum new) (unat ?c + be_sum new)" using that by (simp add: same16_def)
    then show ?thesis using l by (rule same16_trans)
  qed
  then show ?thesis
    using assms(1) l by (auto simp: adjusted_def csum_adjust_udp_def Let_def)
qed

text \<open>The two steps of a rewrite on the sum of a region \<open>seg p b m\<close> that has the checksum field:
  the field is adjusted, then the bytes at \<open>a\<close> in the same region are replaced.\<close>

lemma adjusted_region:
  assumes "adjusted p off old new q" "off + 1 < length p" "b \<le> off" "off + 1 < b + m" "even (off - b)"
    and "old = seg p a (length new)" "b \<le> a" "a + length new \<le> b + m" "b + m \<le> length p"
    and "even (a - b)" "even (length new)" "off + 2 \<le> a \<or> a + length new \<le> off"
  shows "same16 (be_sum (seg (put_seg q a new) b m)) (be_sum (seg p b m))"
proof -
  obtain c where c: "q = put16 p off c" "same16 (unat c + be_sum new) (unat (get16 p off) + be_sum old)"
    using assms(1) by (auto simp: adjusted_def)
  have q: "seg q b m = put16 (seg p b m) (off - b) c"
    using assms(3,4) by (simp add: c(1) seg_def drop_put16 take_put16_in)
  have 1: "be_sum (seg q b m) + unat (get16 p off) = be_sum (seg p b m) + unat c"
  proof -
    have "get16 (seg p b m) (off - b) = get16 p off"
      using assms(2-4,9) by (simp add: get16_def)
    moreover have "off - b + 1 < length (seg p b m)" using assms(2,3,4,9) by auto
    ultimately show ?thesis using be_sum_put16 [OF assms(5), of "seg p b m" c] q by simp
  qed
  have "seg (put_seg q a new) b m = put_seg (seg q b m) (a - b) new"
  proof (rule nth_equalityI)
    have "length q = length p" by (simp add: c(1))
    then show "length (seg (put_seg q a new) b m) = length (put_seg (seg q b m) (a - b) new)"
      using assms(7-9) by simp
    show "seg (put_seg q a new) b m ! i = put_seg (seg q b m) (a - b) new ! i"
      if "i < length (seg (put_seg q a new) b m)" for i
      using that assms(7-9) \<open>length q = length p\<close> by (auto simp: nth_put_seg seg_def add.commute)
  qed
  moreover have "seg (seg q b m) (a - b) (length new) = old"
  proof -
    have "seg q a (length new) = old" using assms(12) by (auto simp: c(1) assms(6) seg_put16_other)
    moreover have "seg (seg q b m) (a - b) (length new) = seg q a (length new)"
      using assms(7,8) by (simp add: seg_def drop_take min_def)
    ultimately show ?thesis by simp
  qed
  ultimately have 2: "be_sum (seg (put_seg q a new) b m) + be_sum old = be_sum (seg q b m) + be_sum new"
    using be_sum_put_seg [OF assms(10,11), of "seg q b m"] assms(7-9) by (simp add: c(1))
  show ?thesis
    by (rule same16_adjust [OF _ c(2)]) (use 1 2 in linarith)
qed

definition clamps :: "napt \<Rightarrow> nat \<Rightarrow> u8 \<Rightarrow> bytes \<Rightarrow> bool" where
  "clamps n l4 proto p \<longleftrightarrow> proto = 6 \<and> g_mss n \<noteq> 0 \<and> p ! (l4 + 13) AND 0x02 \<noteq> 0"

lemma length_adjust [simp]:
  "length (csum_adjust_nz q off old new) = length q" "length (csum_adjust_udp q off old new) = length q"
  using same_except_adjust_nz same_except_adjust_udp by (auto simp: same_except_def)

text \<open>The transport checksum step of both halves of the rewrite.\<close>

definition adjust_l4 :: "nat \<Rightarrow> u8 \<Rightarrow> bytes \<Rightarrow> bytes \<Rightarrow> bytes \<Rightarrow> bytes" where
  "adjust_l4 l4 proto old new p =
     (if proto = 17 then csum_adjust_udp p (l4 + l4_off proto) old new
      else csum_adjust_nz p (l4 + l4_off proto) old new)"

lemma adjusted_l4:
  assumes "get16 p (l4 + l4_off proto) \<noteq> 0" "length old = length new" "even (length old)" "length old \<le> 1000"
  shows "adjusted p (l4 + l4_off proto) old new (adjust_l4 l4 proto old new p)"
  unfolding adjust_l4_def using adjusted_nz [OF assms] adjusted_udp [OF assms]
  by (cases "proto = 17") (simp_all only: if_P if_not_P if_False simp_thms)

lemma length_adjust_l4 [simp]: "length (adjust_l4 l4 proto old new p) = length p"
  by (simp add: adjust_l4_def)

lemma same_adjust_l4: "same_except (l4_csum_bytes l4 proto) p (adjust_l4 l4 proto old new p)"
  using same_except_adjust_nz same_except_adjust_udp by (simp add: adjust_l4_def l4_csum_bytes_def)

lemma rewrite_addr_alt:
  assumes "proto = 1 \<or> proto = 6 \<or> proto = 17"
  shows "rewrite_addr l4 proto a ip p =
    put_seg (let q = csum_adjust_nz p 10 (seg p a 4) ip in
             if proto = 1 then q else adjust_l4 l4 proto (seg p a 4) ip q) a ip"
  using assms by (auto simp: rewrite_addr_def adjust_l4_def l4_off_def Let_def)

lemma rewrite_port_alt:
  assumes "proto = 1 \<or> proto = 6 \<or> proto = 17" "\<not> clamps n l4 proto p" "l4 + 20 \<le> length p \<or> proto \<noteq> 6"
  shows "rewrite_port n l4 proto k port p = put_seg (adjust_l4 l4 proto (seg p k 2) port p) k port"
proof (cases "proto = 6")
  case True
  let ?q = "csum_adjust_nz p (l4 + 16) (seg p k 2) port"
  have "?q ! (l4 + 13) = p ! (l4 + 13)"
    using True assms(3) by (intro same_except_nth [OF same_except_adjust_nz]) auto
  then have "clamp_mss n l4 ?q = ?q" using assms(2) True by (auto simp: clamps_def clamp_mss_def)
  then show ?thesis using True by (simp add: rewrite_port_def adjust_l4_def l4_off_def)
qed (use assms(1) in \<open>auto simp: rewrite_port_def adjust_l4_def l4_off_def\<close>)

lemma header_kept:
  assumes "parse p = Some (l4, proto)" "a = 12 \<or> a = 16" "length ip = 4" "get16 p 10 \<noteq> 0"
  shows "same16 (be_sum (take l4 (rewrite_addr l4 proto a ip p))) (be_sum (take l4 p))"
proof -
  note f = parse_facts [OF assms(1)]
  let ?q = "csum_adjust_nz p 10 (seg p a 4) ip"
  let ?r = "if proto = 1 then ?q else adjust_l4 l4 proto (seg p a 4) ip ?q"
  have l: "length ?r = length p" by simp
  have "take l4 (put_seg ?r a ip) = take l4 (put_seg ?q a ip)"
  proof -
    have "same_except (l4_csum_bytes l4 proto) ?q ?r" by (simp add: same_adjust_l4)
    then have "take l4 ?r = take l4 ?q"
      using same_except_seg [of "l4_csum_bytes l4 proto" ?q ?r 0 l4] by (auto simp: seg_def l4_csum_bytes_def)
    moreover have "take l4 (put_seg x a ip) = put_seg (take l4 x) a ip" if "length x = length p" for x
      using that assms(2,3) f(1,5) by (auto simp: put_seg_def take_append min_def take_drop)
    ultimately show ?thesis using l by simp
  qed
  moreover have "adjusted p 10 (seg p a 4) ip ?q"
    using assms f(1,5) by (intro adjusted_nz) auto
  then have "same16 (be_sum (seg (put_seg ?q a ip) 0 l4)) (be_sum (seg p 0 l4))"
    by (rule adjusted_region) (use assms(2,3) f(1,3,5) in auto)
  ultimately show ?thesis
    unfolding rewrite_addr_alt [OF f(4)] Let_def by (simp add: seg_def)
qed

text \<open>The sum the transport checksum covers, over the bytes that are there.\<close>

abbreviation l4_total :: "bytes \<Rightarrow> nat \<Rightarrow> nat" where
  "l4_total p l4 \<equiv> l4_sum p l4 (length p - l4)"


lemma addr_sum:
  assumes "a = 12 \<or> a = 16" "length ip = 4" "20 \<le> length q"
  shows "be_sum (seg (put_seg q a ip) 12 8) + be_sum (seg q a 4) = be_sum (seg q 12 8) + be_sum ip"
proof -
  have "seg (put_seg q a ip) 12 8 = put_seg (seg q 12 8) (a - 12) ip"
    using assms by (intro nth_equalityI) (auto simp: nth_put_seg seg_def add.commute)
  moreover have "seg (seg q 12 8) (a - 12) 4 = seg q a 4"
    using assms(1) by (auto simp: seg_def drop_take)
  ultimately show ?thesis
    using be_sum_put_seg [of "a - 12" ip "seg q 12 8"] assms by auto
qed

lemma l4_addr_kept:
  assumes "parse p = Some (l4, proto)" "a = 12 \<or> a = 16" "length ip = 4"
    and "get16 p (l4 + l4_off proto) \<noteq> 0"
  shows "same16 (l4_total (rewrite_addr l4 proto a ip p) l4) (l4_total p l4)"
proof -
  note f = parse_facts [OF assms(1)]
  let ?q = "csum_adjust_nz p 10 (seg p a 4) ip"
  let ?off = "l4 + l4_off proto"
  have sq: "same_except {10, 11} p ?q" using same_except_adjust_nz [of 10 p] by simp
  have off: "?off + 1 < length p" "even (l4_off proto)"
    using f(4,5,6) by (auto simp: l4_off_def)
  have a: "a + 4 \<le> length p" using assms(2) f(1,5) by auto
  have dq: "drop l4 ?q = drop l4 p" "?q ! 9 = p ! 9" "seg ?q 12 8 = seg p 12 8" "seg ?q a 4 = seg p a 4"
    "get16 ?q ?off = get16 p ?off"
  proof -
    show "drop l4 ?q = drop l4 p"
      using same_except_seg [OF sq, of l4 "length p - l4"] f(1) by (simp add: seg_def)
    show "?q ! 9 = p ! 9" using f(1,5) by (intro same_except_nth [OF sq]) auto
    show "seg ?q 12 8 = seg p 12 8" "seg ?q a 4 = seg p a 4"
      using assms(2) by (auto intro!: same_except_seg [OF sq])
    show "get16 ?q ?off = get16 p ?off"
      using off(1) f(1) same_except_nth [OF sq, of ?off] same_except_nth [OF sq, of "?off + 1"]
      by (simp add: get16_def)
  qed
  show ?thesis
  proof (cases "proto = 1")
    case True
    have "drop l4 (put_seg ?q a ip) = drop l4 ?q" "put_seg ?q a ip ! 9 = ?q ! 9"
      using assms(2,3) f(1,5) by (auto simp: put_seg_def nth_append)
    then show ?thesis
      unfolding rewrite_addr_alt [OF f(4)] using True a assms(3) dq f(7)
      by (simp add: l4_sum_def seg_def)
  next
    case False
    let ?r = "adjust_l4 l4 proto (seg p a 4) ip ?q"
    obtain c where c: "?r = put16 ?q ?off c"
        "same16 (unat c + be_sum ip) (unat (get16 p ?off) + be_sum (seg p a 4))"
      using adjusted_l4 [of ?q l4 proto "seg p a 4" ip] assms(3,4) dq a by (auto simp: adjusted_def)
    have s: "seg ?r 12 8 = seg p 12 8" "seg ?r a 4 = seg p a 4" "?r ! 9 = p ! 9"
      using dq f(1) assms(2) by (auto simp: c(1) seg_put16_other nth_put16)
    have d: "drop l4 (put_seg ?r a ip) = put16 (drop l4 p) (l4_off proto) c"
      using dq(1) assms(2,3) f(1,5) by (auto simp: c(1) put_seg_def drop_put16)
    have nine: "put_seg ?r a ip ! 9 = p ! 9"
      using s(3) assms(2) f(1,5) by (auto simp: put_seg_def nth_append)
    have "be_sum (drop l4 (put_seg ?r a ip)) + unat (get16 p ?off) = be_sum (drop l4 p) + unat c"
      unfolding d using be_sum_put16 [OF off(2), of "drop l4 p" c] off(1) f(1) by (simp add: get16_def add.assoc)
    moreover have "be_sum (seg (put_seg ?r a ip) 12 8) + be_sum (seg p a 4) = be_sum (seg p 12 8) + be_sum ip"
      using addr_sum [OF assms(2,3), of ?r] f(1,5) s by simp
    ultimately have "same16 (pseudo_sum (put_seg ?r a ip) m + be_sum (drop l4 (put_seg ?r a ip)))
        (pseudo_sum p m + be_sum (drop l4 p))" for m
      by (intro same16_adjust [OF _ c(2)]) (simp add: pseudo_sum_def nine)
    moreover have "length (put_seg ?r a ip) = length p" using a assms(3) by simp
    moreover from this have "seg (put_seg ?r a ip) l4 (length p - l4) = drop l4 (put_seg ?r a ip)"
      "seg p l4 (length p - l4) = drop l4 p" by (simp_all add: seg_def)
    ultimately have "same16 (l4_total (put_seg ?r a ip) l4) (l4_total p l4)"
      unfolding l4_sum_def nine using False f(7) by simp
    then show ?thesis
      unfolding rewrite_addr_alt [OF f(4)] Let_def using False by simp
  qed
qed

lemma l4_port_kept:
  assumes "parse p = Some (l4, proto)" "k = keyfield l4 proto s" "length port = 2"
    and "get16 q (l4 + l4_off proto) \<noteq> 0" "\<not> clamps n l4 proto q" "length q = length p" "q ! 9 = proto"
  shows "same16 (l4_total (rewrite_port n l4 proto k port q) l4) (l4_total q l4)"
proof -
  note f = parse_facts [OF assms(1)] keyfield_bounds [OF assms(1), of s, folded assms(2)]
  let ?r = "adjust_l4 l4 proto (seg q k 2) port q"
  have e: "rewrite_port n l4 proto k port q = put_seg ?r k port"
    using f(4,6) assms(5,6) by (intro rewrite_port_alt) auto
  have "adjusted q (l4 + l4_off proto) (seg q k 2) port ?r"
    using assms(3,4,6) f(12) by (intro adjusted_l4) auto
  then have 1: "same16 (be_sum (seg (put_seg ?r k port) l4 (length q - l4))) (be_sum (seg q l4 (length q - l4)))"
    by (rule adjusted_region) (use assms(3,6) f in \<open>auto simp: l4_off_def\<close>)
  have "same_except ({k, k + 1} \<union> l4_csum_bytes l4 proto) q (put_seg ?r k port)"
  proof -
    have "{k..<k + 2} = {k, k + 1}" by auto
    then show ?thesis
      using same_except_trans [OF same_adjust_l4 same_except_put_seg, of k port l4 proto] f(12) assms(3,6)
      by (simp add: Un_commute)
  qed
  note se = this
  have 2: "seg (put_seg ?r k port) 12 8 = seg q 12 8" "put_seg ?r k port ! 9 = q ! 9"
    using f(1,5,9) assms(6) by (auto intro!: same_except_seg [OF se] same_except_nth [OF se] simp: l4_csum_bytes_def)
  have "length (put_seg ?r k port) = length q" using same_except_length [OF se] .
  then show ?thesis
    unfolding e l4_sum_def using 1 2 by (simp add: pseudo_sum_def same16_def)
qed

lemma rewrite_checksums:
  assumes "parse p = Some (l4, proto)" "a = 12 \<or> a = 16" "length ip = 4" "length port = 2"
    and "k = keyfield l4 proto s" "\<not> clamps n l4 proto p"
    and "q = rewrite_port n l4 proto k port (rewrite_addr l4 proto a ip p)"
  shows "(get16 p 10 \<noteq> 0 \<longrightarrow> csum_ok (be_sum (take l4 q)) = csum_ok (be_sum (take l4 p))) \<and>
    (get16 p (l4 + l4_off proto) \<noteq> 0 \<and> get16 q (l4 + l4_off proto) \<noteq> 0 \<longrightarrow>
       csum_ok (l4_total q l4) = csum_ok (l4_total p l4))"
proof (intro conjI impI)
  note f = parse_facts [OF assms(1)] keyfield_bounds [OF assms(1), of s, folded assms(5)]
  let ?p1 = "rewrite_addr l4 proto a ip p" let ?off = "l4 + l4_off proto"
  have a: "a + 4 \<le> length p" using assms(2) f(1,5) by auto
  note s1 = rewrite_addr_same [OF a assms(3) f(4), of l4]
  have l: "length ?p1 = length p" by (rule same_except_length [OF s1])
  have nine: "?p1 ! 9 = proto" using f(1,5,7) assms(2) same_except_nth [OF s1, of 9] by (auto simp: l4_csum_bytes_def)
  have flags: "?p1 ! (l4 + 13) = p ! (l4 + 13)" if "proto = 6"
    using that f(1,6) assms(2) by (intro same_except_nth [OF s1]) (auto simp: l4_csum_bytes_def l4_off_def)
  have nc: "\<not> clamps n l4 proto ?p1" using assms(6) flags by (auto simp: clamps_def)
  have e: "q = put_seg (adjust_l4 l4 proto (seg ?p1 k 2) port ?p1) k port"
    unfolding assms(7) using f(4,6) nc l by (intro rewrite_port_alt) auto
  {
    assume c: "get16 p 10 \<noteq> 0"
    have kb: "k + 2 \<le> length ?p1" using f(12) l by simp
    have "take l4 q = take l4 ?p1"
      using same_except_seg [OF rewrite_port_same [OF kb assms(4) f(4), of l4 n], of 0 l4] f(9)
      by (auto simp: seg_def assms(7) l4_csum_bytes_def)
    then show "csum_ok (be_sum (take l4 q)) = csum_ok (be_sum (take l4 p))"
      using same16_csum_ok [OF header_kept [OF assms(1-3) c]] by simp
  next
    assume c: "get16 p ?off \<noteq> 0 \<and> get16 q ?off \<noteq> 0"
    have "get16 ?p1 ?off \<noteq> 0"
    proof
      assume z: "get16 ?p1 ?off = 0"
      then have "adjust_l4 l4 proto (seg ?p1 k 2) port ?p1 = ?p1"
        by (auto simp: adjust_l4_def csum_adjust_nz_def csum_adjust_udp_def)
      then have "q = put_seg ?p1 k port" using e by simp
      moreover have "?off + 1 < length p" using f(4,5,6) by (auto simp: l4_off_def)
      ultimately have "get16 q ?off = get16 ?p1 ?off"
        using f(12,13) l assms(4) by (auto simp: get16_def nth_put_seg)
      with z c show False by simp
    qed
    from l4_port_kept [OF assms(1,5,4) this nc l nine] l4_addr_kept [OF assms(1-3)] c
    have "same16 (l4_total q l4) (l4_total p l4)"
      unfolding assms(7) using same16_trans by blast
    then show "csum_ok (l4_total q l4) = csum_ok (l4_total p l4)" by (rule same16_csum_ok)
  }
qed

lemma outbound_entry:
  assumes "napt_wf n" "napt_outbound n p now = (True, n1, p')" "parse p = Some (l4, proto)"
  shows "\<exists>i < NAPT_MAX. flow_of (table n1 ! i) proto (seg p 12 4) (seg p (keyfield l4 proto True) 2) \<and>
    last_ms (table n1 ! i) = now \<and> get16 p' (keyfield l4 proto True) = of_nat (NAPT_PORT_BASE + i)"
proof -
  have l: "length (table n) = 512" and g: "length (g_ext n) = 4" using assms(1) by (auto simp: napt_wf_def)
  let ?k = "keyfield l4 proto True"
  from assms(2) l show ?thesis
  proof (rule napt_outbound_True)
    fix l40 proto0 i
    assume a: "parse p = Some (l40, proto0)" "i < 512"
      "flow_of (table n1 ! i) proto0 (seg p 12 4) (seg p (keyfield l40 proto0 True) 2)" "last_ms (table n1 ! i) = now"
      "p' = rewrite_port n l40 proto0 (keyfield l40 proto0 True)
         [hi8 (of_nat (NAPT_PORT_BASE + i)), lo8 (of_nat (NAPT_PORT_BASE + i))] (rewrite_addr l40 proto0 12 (g_ext n) p)"
    let ?nat = "of_nat (NAPT_PORT_BASE + i) :: u16"
    have e: "l40 = l4" "proto0 = proto" using a(1) assms(3) by auto
    have "seg p' ?k 2 = [hi8 ?nat, lo8 ?nat]" "length p' = length p"
      using rewrite_spec(2,3) [OF assms(3), of 12 "g_ext n" "[hi8 ?nat, lo8 ?nat]" ?k True n] g
      unfolding a(5) e by (auto simp: same_except_def)
    then have "get16 p' ?k = ?nat" using keyfield_bounds(4) [OF assms(3), of True] by (simp add: get16_seg)
    then show ?thesis using a(2-4) unfolding e by auto
  qed
qed

section \<open>Properties\<close>

text \<open>Property C10. An outbound packet is translated or dropped, never passed on as it is: on success
  its source is the external address and a NAT port, its length, destination address and
  destination port are unchanged; on failure packet and table are untouched and the drop
  is counted.\<close>

theorem napt_outbound_translates:
  assumes "napt_wf n" "napt_outbound n p now = (ok, n', p')"
  shows "if ok then \<exists>l4 proto. parse p = Some (l4, proto) \<and> length p' = length p \<and>
           seg p' 12 4 = g_ext n \<and> seg p' 16 4 = seg p 16 4 \<and>
           get16 p' (keyfield l4 proto True) \<in> {of_nat NAPT_PORT_BASE ..< of_nat (NAPT_PORT_BASE + NAPT_MAX)} \<and>
           (proto \<noteq> 1 \<longrightarrow> get16 p' (l4 + 2) = get16 p (l4 + 2))
         else p' = p \<and> table n' = table n \<and> g_drops n' = g_drops n + 1"
proof (cases ok)
  case False
  then show ?thesis using napt_outbound_False [of n p now n' p'] assms(2) by simp
next
  case True
  have l: "length (table n) = 512" and g: "length (g_ext n) = 4" using assms(1) by (auto simp: napt_wf_def)
  from assms(2) True have o: "napt_outbound n p now = (True, n', p')" by simp
  from o l show ?thesis
  proof (rule napt_outbound_True)
    fix l4 proto i
    let ?k = "keyfield l4 proto True" let ?nat = "of_nat (NAPT_PORT_BASE + i) :: u16"
    assume a: "parse p = Some (l4, proto)" "i < 512"
      and p': "p' = rewrite_port n l4 proto ?k [hi8 ?nat, lo8 ?nat] (rewrite_addr l4 proto 12 (g_ext n) p)"
    note f = parse_facts [OF a(1)] keyfield_bounds [OF a(1), of True]
    have r: "seg p' 12 4 = g_ext n" "seg p' ?k 2 = [hi8 ?nat, lo8 ?nat]"
      "same_except ({10, 11} \<union> {12..<12 + 4} \<union> {?k, ?k + 1} \<union> l4_csum_bytes l4 proto \<union> {l4 + 22..}) p p'"
      unfolding p' using rewrite_spec [OF a(1) _ g, of 12 "[hi8 ?nat, lo8 ?nat]" ?k True n] by simp_all
    have len: "length p' = length p" by (rule same_except_length [OF r(3)])
    have "get16 p' ?k = ?nat" using r(2) f(12) len by (simp add: get16_seg)
    moreover have "?nat \<in> {of_nat NAPT_PORT_BASE ..< of_nat (NAPT_PORT_BASE + NAPT_MAX)}"
      using nat_port [OF a(2)] a(2) by (simp add: word_le_nat_alt word_less_nat_alt)
    moreover have "seg p' 16 4 = seg p 16 4"
      using f(1,9) by (intro same_except_seg [OF r(3)]) (auto simp: l4_csum_bytes_def)
    moreover have "get16 p' (l4 + 2) = get16 p (l4 + 2)" if "proto \<noteq> 1"
      using that f(1,4,5) same_except_nth [OF r(3), of "l4 + 2"] same_except_nth [OF r(3), of "l4 + 3"]
      by (auto simp: get16_def keyfield_def l4_csum_bytes_def l4_off_def numeral_3_eq_3)
    ultimately show ?thesis using True a(1) len r(1) by auto
  qed
qed

text \<open>A UDP packet from 10.0.0.2 port 1234 and a device with an external address.\<close>

definition sample_packet :: bytes where
  "sample_packet = [0x45, 0, 0, 28, 0, 1, 0, 0, 64, 17, 0x60, 0xBF, 10, 0, 0, 2, 8, 8, 8, 8,
                    4, 210, 0, 53, 0, 8, 0, 0]"

definition sample_reply :: bytes where
  "sample_reply = [0x45, 0, 0, 28, 0, 1, 0, 0, 64, 17, 0, 0, 8, 8, 8, 8, 192, 168, 1, 7,
                   0, 53, 0xEA, 0x60, 0, 8, 0, 0]"

definition sample_napt :: napt where
  "sample_napt = napt_boot\<lparr>g_ext := [192, 168, 1, 7]\<rparr>"

lemma sample_napt_wf: "napt_wf sample_napt"
  by (simp add: napt_wf_def sample_napt_def napt_boot_def list_all_iff free_entry_def)

lemma sample_parse: "parse sample_packet = Some (20, 17)" "parse sample_reply = Some (20, 17)"
  by (simp_all add: parse_def sample_packet_def sample_reply_def)

lemma find_flow_free: "find_flow now proto ip port (replicate m free_entry) i (Some f) = (None, Some f)"
  by (induction m arbitrary: i) (auto simp: entry_live_def free_entry_def)

lemma find_flow_boot: "find_flow now proto ip port (replicate NAPT_MAX free_entry) 0 None = (None, Some 0)"
proof -
  have s: "NAPT_MAX = Suc 511" by simp
  have "\<not> entry_live free_entry now" by (simp add: entry_live_def free_entry_def)
  then show ?thesis unfolding s replicate_Suc using find_flow_free [of now proto ip port 511 1 0]
    by simp
qed

text \<open>The first packet after a reset takes the first slot.\<close>

lemma sample_out:
  "\<exists>n' p'. napt_outbound sample_napt sample_packet 0 = (True, n', p') \<and> get16 p' 20 = 60000"
proof -
  let ?p1 = "rewrite_addr 20 17 12 (g_ext sample_napt) sample_packet"
  let ?q = "rewrite_port sample_napt 20 17 20 [0xEA, 0x60] ?p1"
  have nat: "hi8 60000 = 0xEA" "lo8 60000 = 0x60" by (simp_all add: hi8_def lo8_def)
  have o: "\<exists>n'. napt_outbound sample_napt sample_packet 0 = (True, n', ?q)"
    using sample_parse(1) find_flow_boot nat
    by (simp add: napt_outbound_def sample_napt_def napt_boot_def keyfield_def Let_def)
  have "seg ?q 20 2 = [0xEA, 0x60]" "length ?q = 28"
    using rewrite_spec(2,3) [OF sample_parse(1), of 12 "g_ext sample_napt" "[0xEA, 0x60]" 20 True sample_napt]
    by (simp_all add: keyfield_def sample_napt_def same_except_def) (simp add: sample_packet_def)
  then have "get16 ?q 20 = be16 0xEA 0x60" by (simp add: get16_seg)
  moreover have "be16 0xEA 0x60 = 60000" by (simp add: be16_def)
  ultimately show ?thesis using o by auto
qed

theorem napt_outbound_translates_witness:
  "\<exists>n' p'. napt_outbound sample_napt sample_packet 0 = (True, n', p') \<and> seg p' 12 4 = [192, 168, 1, 7]"
proof -
  obtain n' p' where o: "napt_outbound sample_napt sample_packet 0 = (True, n', p')" using sample_out by blast
  from napt_outbound_translates [OF sample_napt_wf o] show ?thesis
    using o by (auto simp: sample_napt_def)
qed

text \<open>Property C11. The way back: after a packet went out, whatever other traffic passes in either
  direction, a reply within thirty seconds to the NAT port the packet was given is
  rewritten to the inner host's address and port.\<close>

theorem napt_reply_returns:
  assumes "napt_wf n" "napt_outbound n p now = (True, n1, p')" "parse p = Some (l4, proto)"
    and "sorted (map snd ops)" "\<forall>x \<in> set ops. snd x \<le> d" "d < 30000"
    and "parse r = Some (l4', proto)" "seg r 16 4 = g_ext n" "proto = 1 \<longrightarrow> r ! l4' = 0"
    and "get16 r (keyfield l4' proto False) = get16 p' (keyfield l4 proto True)"
  defines "n2 \<equiv> napt_run n1 (map (\<lambda>(op, dt). (op, now + of_nat dt)) ops)"
  shows "\<exists>n3 r'. napt_inbound n2 r (now + of_nat d) = (True, n3, r') \<and>
    seg r' 16 4 = seg p 12 4 \<and> get16 r' (keyfield l4' proto False) = get16 p (keyfield l4 proto True)"
proof -
  have l: "length (table n) = 512" and g: "length (g_ext n) = 4" using assms(1) by (auto simp: napt_wf_def)
  let ?k = "keyfield l4 proto True" let ?k' = "keyfield l4' proto False"
  note f = parse_facts [OF assms(3)] keyfield_bounds [OF assms(3), of True]
  note f' = parse_facts [OF assms(7)] keyfield_bounds [OF assms(7), of False]
  obtain i where i: "i < 512" "flow_of (table n1 ! i) proto (seg p 12 4) (seg p ?k 2)" "last_ms (table n1 ! i) = now"
    "get16 p' ?k = of_nat (NAPT_PORT_BASE + i)"
    using outbound_entry [OF assms(1,2,3)] by auto
  have wf1: "napt_wf n1" and ext1: "g_ext n1 = g_ext n"
    using napt_step_wf [OF assms(1), of "Outbound p" now] napt_step_ext [of n "Outbound p" now] assms(2) by auto
  have z: "last_ms (table n1 ! i) = now + of_nat 0" "sorted (0 # map snd ops)" "\<forall>x \<in> set ops. snd x < 30000"
    "proto \<noteq> 0" using i(3) assms(4,5,6) f(4) by auto
  from napt_run_keeps [OF wf1 i(1,2) z(4,1,2,3), folded n2_def]
  have n2: "napt_wf n2" "g_ext n2 = g_ext n" "flow_of (table n2 ! i) proto (seg p 12 4) (seg p ?k 2)"
    "\<exists>d' \<le> last (0 # map snd ops). last_ms (table n2 ! i) = now + of_nat d'" using ext1 by auto
  have "last (0 # map snd ops) \<le> d"
    using assms(5) by (cases ops rule: rev_cases) auto
  then obtain d' where "d' \<le> d" "last_ms (table n2 ! i) = now + of_nat d'" using n2(4) by (meson order_trans)
  then have live: "entry_live (table n2 ! i) (now + of_nat d)"
    using recent_live [OF n2(3) z(4)] assms(6) by blast
  let ?e = "table n2 ! i"
  let ?p1 = "rewrite_addr l4' proto 16 (inner_ip ?e) r"
  let ?q = "rewrite_port n2 l4' proto ?k' (inner_port ?e) ?p1"
  have port: "unat (get16 r ?k') = 60000 + i" using assms(10) i nat_port by simp
  have e: "inner_ip ?e = seg p 12 4" "inner_port ?e = seg p ?k 2" "e_proto ?e = proto"
    using n2(3) by (auto simp: flow_of_def)
  have "\<exists>n3. napt_inbound n2 r (now + of_nat d) = (True, n3, ?q)"
    using assms(7,8,9) n2(2) port i(1) live e
    by (auto simp: napt_inbound_def Let_def tcp_track_def)
  moreover have "seg ?q 16 4 = seg p 12 4" "seg ?q ?k' 2 = seg p ?k 2" "length ?q = length r"
    using rewrite_spec [OF assms(7), of 16 "inner_ip ?e" "inner_port ?e" ?k' False n2]
      seg_lengths [OF assms(3)] e by (auto simp: same_except_def)
  moreover from this have "get16 ?q ?k' = get16 p ?k"
    using f(12) f'(12) by (simp add: get16_seg)
  ultimately show ?thesis by blast
qed

theorem napt_reply_returns_witness:
  "\<exists>n1 p'. napt_outbound sample_napt sample_packet 0 = (True, n1, p') \<and>
     (\<exists>n3 r'. napt_inbound n1 sample_reply 29000 = (True, n3, r') \<and> seg r' 16 4 = [10, 0, 0, 2])"
proof -
  obtain n1 p' where o: "napt_outbound sample_napt sample_packet 0 = (True, n1, p')" "get16 p' 20 = 60000"
    using sample_out by blast
  have "get16 sample_reply 22 = be16 0xEA 0x60" by (simp add: get16_def sample_reply_def)
  also have "\<dots> = get16 p' 20" unfolding o(2) by (simp add: be16_def)
  finally have k: "get16 sample_reply (keyfield 20 17 False) = get16 p' (keyfield 20 17 True)"
    by (simp add: keyfield_def)
  have "seg sample_reply 16 4 = g_ext sample_napt" by (simp add: sample_reply_def sample_napt_def seg_def)
  from napt_reply_returns [OF sample_napt_wf o(1) sample_parse(1) _ _ _ sample_parse(2) this _ k, of "[]" 29000] o(1)
  show ?thesis by (auto simp: napt_run_def sample_packet_def seg_def)
qed

text \<open>Property C38. Translation in either direction keeps the verdict of a receiver on the checksums
  that are filled in: the header checksum, and the ICMP, TCP or UDP checksum unless it
  comes out as the zero that the egress hop recomputes. SYN segments whose MSS is clamped
  are excepted.\<close>

theorem napt_checksums_kept:
  assumes "napt_wf n" "parse p = Some (l4, proto)" "\<not> clamps n l4 proto p"
    and "napt_outbound n p now = (True, n', p') \<or> napt_inbound n p now = (True, n', p')"
  shows "(get16 p 10 \<noteq> 0 \<longrightarrow> csum_ok (be_sum (take l4 p')) = csum_ok (be_sum (take l4 p))) \<and>
    (get16 p (l4 + l4_off proto) \<noteq> 0 \<and> get16 p' (l4 + l4_off proto) \<noteq> 0 \<longrightarrow>
       csum_ok (l4_total p' l4) = csum_ok (l4_total p l4))"
proof -
  have l: "length (table n) = 512" and g: "length (g_ext n) = 4" using assms(1) by (auto simp: napt_wf_def)
  from assms(4) show ?thesis
  proof
    assume "napt_outbound n p now = (True, n', p')"
    from this l show ?thesis
    proof (rule napt_outbound_True)
      fix l40 proto0 i
      assume a: "parse p = Some (l40, proto0)"
        "p' = rewrite_port n l40 proto0 (keyfield l40 proto0 True)
           [hi8 (of_nat (NAPT_PORT_BASE + i)), lo8 (of_nat (NAPT_PORT_BASE + i))] (rewrite_addr l40 proto0 12 (g_ext n) p)"
      have e: "l40 = l4" "proto0 = proto" using a(1) assms(2) by auto
      show ?thesis
        using rewrite_checksums [OF assms(2) _ g _ refl assms(3) a(2) [unfolded e]] by simp
    qed
  next
    assume "napt_inbound n p now = (True, n', p')"
    then show ?thesis
    proof (cases rule: napt_inbound_cases)
      case (hit l40 proto0 i)
      have e: "l40 = l4" "proto0 = proto" using hit(2) assms(2) by auto
      have "table n ! i \<in> set (table n)" using hit(3) l by simp
      then have "length (inner_ip (table n ! i)) = 4" "length (inner_port (table n ! i)) = 2"
        using assms(1) by (auto simp: napt_wf_def list_all_iff)
      then show ?thesis
        using rewrite_checksums [OF assms(2) _ _ _ refl assms(3) hit(7) [unfolded e]] by simp
    qed simp
  qed
qed

theorem napt_checksums_kept_witness:
  "\<exists>n' p'. napt_outbound sample_napt sample_packet 0 = (True, n', p') \<and> csum_ok (be_sum (take 20 p'))"
proof -
  obtain n' p' where o: "napt_outbound sample_napt sample_packet 0 = (True, n', p')" using sample_out by blast
  have "get16 sample_packet 10 \<noteq> 0" "csum_ok (be_sum (take 20 sample_packet))"
    by (simp_all add: sample_packet_def get16_def csum_ok_def unat_be16)
  then show ?thesis
    using napt_checksums_kept [OF sample_napt_wf sample_parse(1), of 0 n' p'] o by (auto simp: clamps_def)
qed

text \<open>An MSS option that starts at an odd offset of the TCP header (here after one no-op
  option) is clamped with the two bytes counted as an aligned word: a SYN with a valid
  checksum leaves with an invalid one.\<close>

theorem clamp_mss_unaligned:
  "let p = [0x45, 0, 0, 48, 0, 1, 0, 0, 64, 6, 0, 0, 10, 0, 0, 2, 8, 8, 8, 8,
            4, 210, 0, 80, 0, 0, 0, 1, 0, 0, 0, 0, 112, 2, 255, 255, 182, 156, 0, 0, 1, 2, 4, 5, 180, 1, 1, 1];
       q = clamp_mss (napt_boot\<lparr>g_mss := 1360\<rparr>) 20 p
   in csum_ok (l4_total p 20) \<and> \<not> csum_ok (l4_total q 20)"
proof -
  let ?p = "[0x45, 0, 0, 48, 0, 1, 0, 0, 64, 6, 0, 0, 10, 0, 0, 2, 8, 8, 8, 8,
            4, 210, 0, 80, 0, 0, 0, 1, 0, 0, 0, 0, 112, 2, 255, 255, 182, 156, 0, 0, 1, 2, 4, 5, 180, 1, 1, 1] :: bytes"
  let ?q = "[0x45, 0, 0, 48, 0, 1, 0, 0, 64, 6, 0, 0, 10, 0, 0, 2, 8, 8, 8, 8,
            4, 210, 0, 80, 0, 0, 0, 1, 0, 0, 0, 0, 112, 2, 255, 255, 183, 0, 0, 0, 1, 2, 4, 5, 80, 1, 1, 1] :: bytes"
  have "clamp_mss (napt_boot\<lparr>g_mss := 1360\<rparr>) 20 ?p = ?q" by code_simp
  moreover have "csum_ok (l4_total ?p 20)" "\<not> csum_ok (l4_total ?q 20)"
    by (simp_all add: l4_sum_def pseudo_sum_def seg_def csum_ok_def unat_be16)
  ultimately show ?thesis by (simp only: Let_def simp_thms)
qed

text \<open>Entries are not swept, and ages are 32-bit: a UDP mapping that expired two minutes
  after its last packet counts as live again when the millisecond clock comes round.\<close>

theorem napt_expired_entry_revives:
  "let e = \<lparr>inner_ip = [10, 0, 0, 2], inner_port = [4, 210], last_ms = 0, e_proto = 17, e_state = NAPT_ST_NEW\<rparr>
   in \<not> entry_live e (of_nat 120000) \<and> \<not> entry_live e (of_nat (2 ^ 31)) \<and> entry_live e (of_nat (2 ^ 32 + 5000))"
  by (simp add: entry_live_def timeout_ms_def)

end
