(* ===== verification/Pcap.thy ===== *)
theory Pcap
  imports Prelude
begin

text \<open>
  The packet-capture ring of \<^verbatim>\<open>src/pcap.c\<close>: 64 KiB of pcap records, the newest overwriting
  the oldest. The concrete state is the byte array with its offsets; its abstraction is the
  list of the records it holds, oldest first, obtained by splitting the byte stream that a
  download sends. A capture is shown to append one record and to forget only the oldest
  ones, and only as many as the space requires. Offsets are below \<^verbatim>\<open>RING_SIZE + 272\<close>, so the
  32-bit arithmetic of the code does not wrap and they are natural numbers here.
\<close>

abbreviation RING_SIZE :: nat where "RING_SIZE \<equiv> 65536"
abbreviation SNAPLEN :: nat where "SNAPLEN \<equiv> 256"
abbreviation REC_HDR :: nat where "REC_HDR \<equiv> 16"

record pcap =
  ring :: bytes
  head :: nat
  tail :: nat
  high :: nat
  wrapped :: bool
  enabled :: bool
  paused :: bool
  n_packets :: u32

definition pcap_boot :: pcap where
  "pcap_boot = \<lparr>ring = replicate RING_SIZE 0, head = 0, tail = 0, high = 0, wrapped = False,
                enabled = False, paused = False, n_packets = 0\<rparr>"

definition rec_len_at :: "pcap \<Rightarrow> nat \<Rightarrow> nat" where
  "rec_len_at s off = REC_HDR + unat (le32_of (seg (ring s) (off + 8) 4))"

function evict :: "pcap \<Rightarrow> nat \<Rightarrow> nat \<Rightarrow> pcap" where
  "evict s from_off need =
     (if wrapped s then
        if tail s \<ge> from_off + need \<or> tail s + rec_len_at s (tail s) \<le> from_off then s
        else let s1 = s\<lparr>tail := tail s + rec_len_at s (tail s)\<rparr> in
          if tail s1 \<ge> high s1
          then s1\<lparr>tail := 0, high := head s1, wrapped := False\<rparr>
          else evict s1 from_off need
      else s)"
  by pat_completeness auto
termination by (relation "measure (\<lambda>(s, f, n). high s - tail s)") (auto simp: rec_len_at_def)

declare evict.simps [simp del]

text \<open>The record a frame becomes at time \<open>us\<close>.\<close>

definition pcap_record :: "u64 \<Rightarrow> bytes \<Rightarrow> bytes" where
  "pcap_record us frame =
     (let len = length frame; incl = (if len > SNAPLEN then SNAPLEN else len) in
      le32_bytes (ucast (us div 1000000)) @ le32_bytes (ucast (us mod 1000000)) @
      le32_bytes (of_nat incl) @ le32_bytes (of_nat len) @ take incl frame)"

definition pcap_capture :: "u64 \<Rightarrow> bytes \<Rightarrow> pcap \<Rightarrow> pcap" where
  "pcap_capture us frame s =
     (let len = length frame in
      if \<not> enabled s \<or> paused s \<or> len = 0 then s
      else let incl = (if len > SNAPLEN then SNAPLEN else len); need = REC_HDR + incl;
        s = (if head s + need > RING_SIZE
             then let s1 = (if wrapped s then if tail s \<ge> head s then s\<lparr>tail := 0\<rparr> else s else s)
                  in s1\<lparr>high := head s1, head := 0, wrapped := True\<rparr>
             else s);
        s = (if wrapped s then evict s (head s) need else s);
        s = s\<lparr>ring := put_seg (ring s) (head s) (pcap_record us frame), head := head s + need\<rparr>;
        s = (if head s > high s \<and> \<not> wrapped s then s\<lparr>high := head s\<rparr> else s)
      in s\<lparr>n_packets := n_packets s + 1\<rparr>)"

definition pcap_set_enabled :: "bool \<Rightarrow> pcap \<Rightarrow> pcap" where
  "pcap_set_enabled on s = s\<lparr>enabled := on\<rparr>"

definition pcap_enabled :: "pcap \<Rightarrow> bool" where
  "pcap_enabled s = enabled s"

definition pcap_clear :: "pcap \<Rightarrow> pcap" where
  "pcap_clear s = s\<lparr>head := 0, tail := 0, high := 0, wrapped := False, n_packets := 0\<rparr>"

definition pcap_stats :: "pcap \<Rightarrow> u32 \<times> nat" where
  "pcap_stats s = (n_packets s, if wrapped s then (high s - tail s) + head s else head s - tail s)"

text \<open>\<^verbatim>\<open>pcap_freeze\<close>: the two spans (offset and length), the second absent unless wrapped.\<close>

definition pcap_freeze :: "pcap \<Rightarrow> pcap \<times> (nat \<times> nat) \<times> (nat \<times> nat) option" where
  "pcap_freeze s =
     (s\<lparr>paused := True\<rparr>,
      if wrapped s then ((tail s, high s - tail s), Some (0, head s))
      else ((tail s, head s - tail s), None))"

definition pcap_resume :: "pcap \<Rightarrow> pcap" where
  "pcap_resume s = s\<lparr>paused := False\<rparr>"

definition pcap_global_header :: bytes where
  "pcap_global_header =
     concat (map le32_bytes [0xA1B2C3D4, 0x00040002, 0, 0, of_nat SNAPLEN, 1])"

section \<open>The abstraction\<close>

text \<open>The bytes a download sends behind the global header.\<close>

definition pcap_stream :: "pcap \<Rightarrow> bytes" where
  "pcap_stream s =
     (case snd (pcap_freeze s) of ((a, n), second) \<Rightarrow>
        seg (ring s) a n @ (case second of None \<Rightarrow> [] | Some (b, m) \<Rightarrow> seg (ring s) b m))"

text \<open>A reader of the pcap format: each record announces its length.\<close>

function split_records :: "bytes \<Rightarrow> bytes list" where
  "split_records bs =
     (if length bs < REC_HDR then []
      else let n = REC_HDR + unat (le32_of (seg bs 8 4)) in take n bs # split_records (drop n bs))"
  by pat_completeness auto
termination by (relation "measure length") auto

declare split_records.simps [simp del]

definition captured :: "pcap \<Rightarrow> bytes list" where
  "captured s = split_records (pcap_stream s)"

definition rec_ok :: "bytes \<Rightarrow> bool" where
  "rec_ok c \<longleftrightarrow> REC_HDR \<le> length c \<and> length c \<le> REC_HDR + SNAPLEN \<and>
     REC_HDR + unat (le32_of (seg c 8 4)) = length c"

lemma rec_ok_ne: "rec_ok c \<Longrightarrow> c \<noteq> []"
  by (auto simp: rec_ok_def)

lemma split_records_concat: "list_all rec_ok cs \<Longrightarrow> split_records (concat cs) = cs"
proof (induction cs)
  case Nil
  then show ?case by (simp add: split_records.simps)
next
  case (Cons c cs)
  then have c: "16 \<le> length c" "16 + unat (le32_of (seg c 8 4)) = length c" by (auto simp: rec_ok_def)
  have "seg (c @ concat cs) 8 4 = seg c 8 4" using c(1) by (intro seg_append_left) simp
  then show ?case using c Cons by (subst split_records.simps) (simp add: Let_def)
qed

lemma pcap_record_ok:
  assumes "frame \<noteq> []"
  shows "rec_ok (pcap_record us frame)" "length (pcap_record us frame) = 16 + min 256 (length frame)"
proof -
  let ?incl = "if length frame > 256 then 256 else length frame"
  have l: "length (take ?incl frame) = ?incl" by simp
  show len: "length (pcap_record us frame) = 16 + min 256 (length frame)"
    using l by (simp add: pcap_record_def Let_def)
  have "seg (pcap_record us frame) 8 4 = le32_bytes (of_nat ?incl)"
    by (simp add: pcap_record_def Let_def seg_def)
  moreover have "unat (of_nat ?incl :: u32) = ?incl" by (rule unat_of_nat_u32) simp
  ultimately have "unat (le32_of (seg (pcap_record us frame) 8 4)) = ?incl" by simp
  then show "rec_ok (pcap_record us frame)" using len by (simp add: rec_ok_def)
qed

section \<open>The invariant\<close>

text \<open>\<open>old\<close> are the records from the tail to the top of a wrapped ring, \<open>new\<close> those from
  offset 0 to the head.\<close>

definition pcap_inv :: "pcap \<Rightarrow> bytes list \<Rightarrow> bytes list \<Rightarrow> bool" where
  "pcap_inv s old new \<longleftrightarrow>
     length (ring s) = RING_SIZE \<and> head s \<le> RING_SIZE \<and> list_all rec_ok (old @ new) \<and>
     seg (ring s) 0 (head s) = concat new \<and>
     (if wrapped s
      then head s \<le> tail s \<and> tail s < high s \<and> high s \<le> RING_SIZE \<and> RING_SIZE < high s + 272 \<and>
           seg (ring s) (tail s) (high s - tail s) = concat old \<and> old \<noteq> []
      else tail s = 0 \<and> high s = head s \<and> old = [])"

definition pcap_ok :: "pcap \<Rightarrow> bool" where
  "pcap_ok s \<longleftrightarrow> (\<exists>old new. pcap_inv s old new)"

lemma pcap_inv_frame:
  "pcap_inv (s\<lparr>n_packets := u\<rparr>) old new = pcap_inv s old new"
  "pcap_inv (s\<lparr>enabled := b\<rparr>) old new = pcap_inv s old new"
  "pcap_inv (s\<lparr>paused := b\<rparr>) old new = pcap_inv s old new"
  by (simp_all add: pcap_inv_def)

lemma captured_inv:
  assumes "pcap_inv s old new"
  shows "pcap_stream s = concat (old @ new)" "captured s = old @ new"
proof -
  show e: "pcap_stream s = concat (old @ new)"
    using assms by (auto simp: pcap_inv_def pcap_stream_def pcap_freeze_def split: if_splits)
  then show "captured s = old @ new"
    using assms split_records_concat [of "old @ new"] by (simp add: captured_def pcap_inv_def)
qed

lemma pcap_ok_boot: "pcap_ok pcap_boot"
  unfolding pcap_ok_def by (rule exI [of _ "[]"], rule exI [of _ "[]"]) (simp add: pcap_inv_def pcap_boot_def seg_def)

section \<open>Eviction\<close>

text \<open>A run of whole records at an offset of the ring.\<close>

lemma first_record:
  assumes "seg (ring s) t n = c @ rest" "rec_ok c" "t + n \<le> length (ring s)"
  shows "rec_len_at s t = length c" "length c \<le> n" "seg (ring s) (t + length c) (n - length c) = rest"
    "seg (ring s) t (length c) = c"
proof -
  have "length (c @ rest) = n" using assms(1,3) by (metis length_seg min.absorb1 add_diff_cancel_left' diff_le_mono)
  then show n: "length c \<le> n" by simp
  have "seg (ring s) (t + 8) 4 = seg (c @ rest) 8 4"
    using assms(1,2) n by (simp add: rec_ok_def seg_seg assms(1) [symmetric])
  also have "\<dots> = seg c 8 4" using assms(2) by (intro seg_append_left) (simp add: rec_ok_def)
  finally show "rec_len_at s t = length c" using assms(2) by (simp add: rec_len_at_def rec_ok_def)
  have "seg (ring s) t (length c) @ seg (ring s) (t + length c) (n - length c) = c @ rest"
    using seg_split [OF n, of "ring s" t] assms(1) by simp
  moreover have "length (seg (ring s) t (length c)) = length c" using n assms(3) by simp
  ultimately show "seg (ring s) (t + length c) (n - length c) = rest" "seg (ring s) t (length c) = c"
    by (simp_all add: append_eq_append_conv)
qed

definition evicted :: "pcap \<Rightarrow> nat \<Rightarrow> bytes list \<Rightarrow> nat \<Rightarrow> pcap \<Rightarrow> bool" where
  "evicted s need old k s' \<longleftrightarrow>
     (if k < length old
      then s' = s\<lparr>tail := tail s'\<rparr> \<and> head s + need \<le> tail s' \<and> tail s' < high s \<and>
           seg (ring s) (tail s') (high s - tail s') = concat (drop k old) \<and>
           (if k = 0 then tail s' = tail s else tail s' < head s + need + 272)
      else k = length old \<and> s' = s\<lparr>tail := 0, high := head s, wrapped := False\<rparr> \<and> high s < head s + need + 272)"

lemma evict_spec:
  assumes "wrapped s" "length (ring s) = RING_SIZE" "head s \<le> tail s" "tail s < high s" "high s \<le> RING_SIZE"
    and "seg (ring s) (tail s) (high s - tail s) = concat old" "list_all rec_ok old" "from_off = head s"
  shows "\<exists>k. evicted s need old k (evict s from_off need)"
  using assms
proof (induction s from_off need arbitrary: old rule: evict.induct)
  case (1 s from_off need)
  have "length (concat old) = high s - tail s" using "1.prems"(2,4,5,6) by (metis length_seg diff_le_mono min.absorb1)
  then have ne: "old \<noteq> []" using "1.prems"(4) by auto
  then obtain c cs where old: "old = c # cs" by (cases old) auto
  have c: "rec_ok c" "16 \<le> length c" "length c \<le> 272" using "1.prems"(7) by (auto simp: old rec_ok_def)
  have bound: "tail s + (high s - tail s) \<le> length (ring s)" using "1.prems" by simp
  have seg0: "seg (ring s) (tail s) (high s - tail s) = c @ concat cs" using "1.prems"(6) by (simp add: old)
  note f = first_record [OF seg0 c(1) bound]
  show ?case
  proof (cases "tail s \<ge> from_off + need")
    case True
    then have "evict s from_off need = s" by (subst evict.simps) simp
    then show ?thesis using "1.prems" True ne by (intro exI [of _ 0]) (simp add: evicted_def old)
  next
    case False
    let ?t = "tail s + length c" let ?s = "s\<lparr>tail := tail s + rec_len_at s (tail s)\<rparr>"
    have cond: "\<not> (tail s \<ge> from_off + need \<or> tail s + rec_len_at s (tail s) \<le> from_off)"
      using False f(1) c(2) "1.prems"(3,8) by simp
    show ?thesis
    proof (cases "?t \<ge> high s")
      case True
      then have t: "?t = high s" using f(2) "1.prems"(4) by simp
      then have "concat cs = []" using f(3) by (simp add: seg_def)
      then have "cs = []" using "1.prems"(7) rec_ok_ne by (cases cs) (auto simp: old)
      moreover have "evict s from_off need = s\<lparr>tail := 0, high := head s, wrapped := False\<rparr>"
        using cond True f(1) "1.prems"(1) by (subst evict.simps) (simp add: Let_def)
      ultimately show ?thesis
        using False t c(3) "1.prems"(8) by (intro exI [of _ 1]) (simp add: evicted_def old)
    next
      case no: False
      have e: "evict s from_off need = evict ?s from_off need"
        using cond no f(1) "1.prems"(1) by (subst evict.simps) (simp add: Let_def)
      have seg1: "seg (ring ?s) (tail ?s) (high ?s - tail ?s) = concat cs"
        using f(1,3) by simp
      obtain k where k: "evicted ?s need cs k (evict ?s from_off need)"
        using "1.IH" [OF "1.prems"(1) cond refl] no f(1) "1.prems" seg1 by (auto simp: old)
      have "evicted s need old (Suc k) (evict ?s from_off need)"
        using k f(1) c(3) False no "1.prems"(8) by (auto simp: evicted_def old split: if_splits)
      then show ?thesis unfolding e by blast
    qed
  qed
qed

section \<open>One capture\<close>

text \<open>The state when the record is written: behind it, \<open>k\<close> records have been dropped.\<close>

lemma make_room:
  assumes "pcap_inv s old new" "head s + need \<le> RING_SIZE"
  shows "\<exists>s' k old'. (if wrapped s then evict s (head s) need else s) = s' \<and> pcap_inv s' old' new \<and>
    old' = drop k old \<and> k \<le> length old \<and> head s' = head s \<and> (wrapped s' \<longrightarrow> head s + need \<le> tail s') \<and>
    n_packets s' = n_packets s \<and>
    (0 < k \<longrightarrow> RING_SIZE < length (concat (old' @ new)) + need + 544)"
proof (cases "wrapped s")
  case False
  then show ?thesis using assms(1) by (intro exI [of _ s] exI [of _ 0] exI [of _ old]) simp
next
  case True
  have i: "length (ring s) = RING_SIZE" "head s \<le> tail s" "tail s < high s" "high s \<le> RING_SIZE"
    "seg (ring s) (tail s) (high s - tail s) = concat old" "list_all rec_ok old" "RING_SIZE < high s + 272"
    "seg (ring s) 0 (head s) = concat new" "list_all rec_ok new" "head s \<le> RING_SIZE"
    using assms(1) True by (auto simp: pcap_inv_def)
  obtain k where k: "evicted s need old k (evict s (head s) need)"
    using evict_spec [OF True i(1-6) refl] by blast
  let ?s = "evict s (head s) need"
  have new: "length (concat new) = head s" using i(1,8,10) by (metis length_seg diff_zero min.absorb1)
  show ?thesis
  proof (cases "k < length old")
    case lt: True
    with k have e: "?s = s\<lparr>tail := tail ?s\<rparr>" "head s + need \<le> tail ?s" "tail ?s < high s"
      "seg (ring s) (tail ?s) (high s - tail ?s) = concat (drop k old)"
      "0 < k \<longrightarrow> tail ?s < head s + need + 272" by (auto simp: evicted_def)
    have p: "ring ?s = ring s" "head ?s = head s" "high ?s = high s" "wrapped ?s = wrapped s" "n_packets ?s = n_packets s"
      by (subst e(1); simp)+
    have "length (concat (drop k old)) = high s - tail ?s"
      using e(4) i(1,4) by (metis length_seg diff_le_mono min.absorb1)
    then have "0 < k \<longrightarrow> RING_SIZE < length (concat (drop k old @ new)) + need + 544"
      using e(3,5) i(7) new by auto
    moreover have "pcap_inv ?s (drop k old) new"
      using i e lt True p by (auto simp: pcap_inv_def list_all_iff dest: in_set_dropD)
    ultimately show ?thesis using True lt e(2) p
      by (intro exI [of _ ?s] exI [of _ k] exI [of _ "drop k old"]) simp
  next
    case ge: False
    with k have e: "k = length old" "?s = s\<lparr>tail := 0, high := head s, wrapped := False\<rparr>"
      "high s < head s + need + 272" by (auto simp: evicted_def split: if_splits)
    have "pcap_inv ?s [] new" using i by (simp add: e(2) pcap_inv_def)
    then show ?thesis using True e i(7) new
      by (intro exI [of _ ?s] exI [of _ k] exI [of _ "[]"]) simp
  qed
qed

lemma write_record:
  assumes "pcap_inv s old new" "rec_ok c" "head s + length c \<le> RING_SIZE" "wrapped s \<Longrightarrow> head s + length c \<le> tail s"
  defines "s' \<equiv> s\<lparr>ring := put_seg (ring s) (head s) c, head := head s + length c\<rparr>"
  shows "pcap_inv (if head s' > high s' \<and> \<not> wrapped s' then s'\<lparr>high := head s'\<rparr> else s') old (new @ [c])"
proof -
  have i: "length (ring s) = RING_SIZE" "list_all rec_ok (old @ new)" "seg (ring s) 0 (head s) = concat new"
    using assms(1) by (auto simp: pcap_inv_def)
  have l: "head s + length c \<le> length (ring s)" using assms(3) i(1) by simp
  have c: "0 < length c" using assms(2) rec_ok_ne by auto
  have "seg (put_seg (ring s) (head s) c) 0 (head s + length c) = seg (ring s) 0 (head s) @ c"
    using l by (simp add: seg_def put_seg_def)
  then have seg': "seg (ring s') 0 (head s') = concat (new @ [c])" using i(3) by (simp add: s'_def)
  show ?thesis
  proof (cases "wrapped s")
    case True
    then have "seg (put_seg (ring s) (head s) c) (tail s) (high s - tail s) = seg (ring s) (tail s) (high s - tail s)"
      using assms(1,4) l by (intro seg_put_seg_disjoint) (auto simp: pcap_inv_def)
    then show ?thesis
      using True assms seg' l by (auto simp: pcap_inv_def s'_def)
  next
    case False
    then show ?thesis using assms seg' l c by (auto simp: pcap_inv_def s'_def)
  qed
qed

lemma pcap_capture_inv:
  assumes "pcap_inv s old new" "enabled s" "\<not> paused s" "frame \<noteq> []"
  shows "\<exists>old' new' k. pcap_inv (pcap_capture us frame s) old' new' \<and> k \<le> length (old @ new) \<and>
    old' @ new' = drop k (old @ new) @ [pcap_record us frame] \<and>
    (0 < k \<longrightarrow> RING_SIZE < length (concat (old' @ new')) + 544)"
proof -
  define need where "need = 16 + min 256 (length frame)"
  note r = pcap_record_ok [OF assms(4), of us]
  have len: "length (pcap_record us frame) = need" "need \<le> 272" using r(2) by (simp_all add: need_def)
  have n: "16 + (if length frame > 256 then 256 else length frame) = need" by (simp add: need_def)
  define s1 where "s1 = (if head s + need > RING_SIZE
      then let t = (if wrapped s then if tail s \<ge> head s then s\<lparr>tail := 0\<rparr> else s else s)
           in t\<lparr>high := head t, head := 0, wrapped := True\<rparr> else s)"
  have "\<exists>old1 new1 k1. pcap_inv s1 old1 new1 \<and> old1 @ new1 = drop k1 (old @ new) \<and> k1 \<le> length (old @ new) \<and>
      head s1 + need \<le> RING_SIZE \<and> (0 < k1 \<longrightarrow> RING_SIZE < length (concat (old1 @ new1)) + need)"
  proof (cases "head s + need > RING_SIZE")
    case False
    then show ?thesis using assms(1) by (intro exI [of _ old] exI [of _ new] exI [of _ 0]) (simp add: s1_def)
  next
    case True
    have nn: "new \<noteq> []" using assms(1) True len(2) by (auto simp: pcap_inv_def seg_def)
    have s1: "s1 = s\<lparr>tail := 0, high := head s, head := 0, wrapped := True\<rparr>"
      using True assms(1) by (cases "wrapped s") (auto simp: s1_def Let_def pcap_inv_def)
    have ln: "length (concat new) = head s"
      using assms(1) by (auto simp: pcap_inv_def) (metis length_seg diff_zero min.absorb1)
    have "pcap_inv s1 new []"
      using assms(1) True len(2) nn by (auto simp: pcap_inv_def s1 seg_def)
    then show ?thesis
      using True ln len(2)
      by (intro exI [of _ new] exI [of _ "[]"] exI [of _ "length old"]) (simp add: s1)
  qed
  then obtain old1 new1 k1 where 1: "pcap_inv s1 old1 new1" "old1 @ new1 = drop k1 (old @ new)"
    "k1 \<le> length (old @ new)" "head s1 + need \<le> RING_SIZE"
    "0 < k1 \<longrightarrow> RING_SIZE < length (concat (old1 @ new1)) + need" by blast
  obtain s2 k2 where 2: "(if wrapped s1 then evict s1 (head s1) need else s1) = s2"
    "pcap_inv s2 (drop k2 old1) new1" "k2 \<le> length old1" "head s2 = head s1" "wrapped s2 \<longrightarrow> head s1 + need \<le> tail s2"
    "0 < k2 \<longrightarrow> RING_SIZE < length (concat (drop k2 old1 @ new1)) + need + 544"
    using make_room [OF 1(1,4)] by blast
  let ?c = "pcap_record us frame"
  let ?s3 = "s2\<lparr>ring := put_seg (ring s2) (head s2) ?c, head := head s2 + need\<rparr>"
  let ?s4 = "if head ?s3 > high ?s3 \<and> \<not> wrapped ?s3 then ?s3\<lparr>high := head ?s3\<rparr> else ?s3"
  have 4: "pcap_inv ?s4 (drop k2 old1) (new1 @ [?c])"
    by (rule write_record [OF 2(2) r(1), unfolded len(1)]) (use 1(4) 2(4,5) in auto)
  have cap: "pcap_capture us frame s = ?s4\<lparr>n_packets := n_packets ?s4 + 1\<rparr>"
    using assms(2-4) unfolding pcap_capture_def Let_def n s1_def [symmetric, unfolded Let_def] 2(1) by simp
  have inv: "pcap_inv (pcap_capture us frame s) (drop k2 old1) (new1 @ [?c])"
    unfolding cap pcap_inv_frame by (rule 4)
  have "drop k2 old1 @ new1 = drop (k1 + k2) (old @ new)"
    using 2(3) 1(2) by (metis drop_append diff_is_0_eq' drop_0 drop_drop add.commute)
  moreover have "k1 + k2 \<le> length (old @ new)"
    using 1(2,3) 2(3) by (metis add_le_cancel_left drop_eq_Nil2 le_add_diff_inverse length_append length_drop trans_le_add1)
  moreover have "0 < k1 + k2 \<longrightarrow> RING_SIZE < length (concat (drop k2 old1 @ new1 @ [?c])) + 544"
    using 1(5) 2(6) len by (cases "k2 = 0") auto
  ultimately show ?thesis
    using inv by (intro exI [of _ "drop k2 old1"] exI [of _ "new1 @ [?c]"] exI [of _ "k1 + k2"]) simp
qed

section \<open>A log of the most recent entries\<close>

locale recent_log =
  fixes ok :: "'s \<Rightarrow> bool" and contents :: "'s \<Rightarrow> 'r list" and push :: "'f \<Rightarrow> 's \<Rightarrow> 's"
    and valid :: "'f \<Rightarrow> bool" and enc :: "'f \<Rightarrow> 'r" and weight :: "'r \<Rightarrow> nat" and cap :: nat
  assumes push_ok: "ok s \<Longrightarrow> valid f \<Longrightarrow> ok (push f s)"
    and push_contents: "ok s \<Longrightarrow> valid f \<Longrightarrow> \<exists>k \<le> length (contents s).
          contents (push f s) = drop k (contents s) @ [enc f] \<and>
          (0 < k \<longrightarrow> cap < (\<Sum>r \<leftarrow> contents (push f s). weight r))"
begin

text \<open>Any number of entries later the log holds the last ones, in order, and if any is
  missing, the log is nearly full.\<close>

lemma pushes:
  assumes "ok s" "\<forall>f \<in> set fs. valid f"
  shows "ok (fold push fs s) \<and> (\<exists>k \<le> length (contents s @ map enc fs).
    contents (fold push fs s) = drop k (contents s @ map enc fs) \<and>
    (0 < k \<longrightarrow> cap < (\<Sum>r \<leftarrow> contents (fold push fs s). weight r)))"
  using assms(2)
proof (induction fs rule: rev_induct)
  case Nil
  then show ?case using assms(1) by auto
next
  case (snoc f fs)
  let ?s = "fold push fs s"
  obtain k where s: "ok ?s" and k: "k \<le> length (contents s @ map enc fs)"
    "contents ?s = drop k (contents s @ map enc fs)" "0 < k \<longrightarrow> cap < (\<Sum>r \<leftarrow> contents ?s. weight r)"
    using snoc by auto
  obtain j where j: "j \<le> length (contents ?s)" "contents (push f ?s) = drop j (contents ?s) @ [enc f]"
    "0 < j \<longrightarrow> cap < (\<Sum>r \<leftarrow> contents (push f ?s). weight r)"
    using push_contents [OF s, of f] snoc.prems by auto
  have le: "j + k \<le> length (contents s @ map enc fs)" using j(1) k(1) unfolding k(2) by simp
  have "contents (push f ?s) = drop (j + k) (contents s @ map enc fs) @ [enc f]"
    by (simp only: j(2) k(2) drop_drop)
  also have "\<dots> = drop (j + k) ((contents s @ map enc fs) @ [enc f])"
    using le by (simp only: drop_append diff_is_0_eq' drop_0)
  finally have "contents (push f ?s) = drop (j + k) (contents s @ map enc (fs @ [f]))" by simp
  moreover have "0 < j + k \<longrightarrow> cap < (\<Sum>r \<leftarrow> contents (push f ?s). weight r)"
    using j k(3) by (cases "j = 0") auto
  moreover have "j + k \<le> length (contents s @ map enc (fs @ [f]))" using le by simp
  ultimately show ?case using push_ok [OF s, of f] snoc.prems by auto
qed

end

definition capturing :: "pcap \<Rightarrow> bool" where
  "capturing s \<longleftrightarrow> pcap_ok s \<and> enabled s \<and> \<not> paused s"

lemma evict_flags [simp]:
  "enabled (evict s f n) = enabled s" "paused (evict s f n) = paused s" "n_packets (evict s f n) = n_packets s"
  by (induction s f n rule: evict.induct; subst evict.simps; simp add: Let_def)+

lemma pcap_capture_flags [simp]:
  "enabled (pcap_capture us frame s) = enabled s" "paused (pcap_capture us frame s) = paused s"
  by (simp_all add: pcap_capture_def Let_def)

lemma pcap_capture_step:
  assumes "capturing s" "frame \<noteq> []"
  shows "capturing (pcap_capture us frame s) \<and> (\<exists>k \<le> length (captured s).
    captured (pcap_capture us frame s) = drop k (captured s) @ [pcap_record us frame] \<and>
    (0 < k \<longrightarrow> RING_SIZE - 544 < (\<Sum>r \<leftarrow> captured (pcap_capture us frame s). length r)))"
proof -
  obtain old new where i: "pcap_inv s old new" using assms(1) by (auto simp: capturing_def pcap_ok_def)
  obtain old' new' k where c: "pcap_inv (pcap_capture us frame s) old' new'" "k \<le> length (old @ new)"
    "old' @ new' = drop k (old @ new) @ [pcap_record us frame]"
    "0 < k \<longrightarrow> RING_SIZE < length (concat (old' @ new')) + 544"
    using pcap_capture_inv [OF i _ _ assms(2), of us] assms(1) unfolding capturing_def by blast
  have w: "(\<Sum>r \<leftarrow> old' @ new'. length r) = length (concat (old' @ new'))"
    by (simp only: length_concat)
  have "0 < k \<longrightarrow> RING_SIZE - 544 < (\<Sum>r \<leftarrow> old' @ new'. length r)"
    unfolding w using c(4) by simp
  then show ?thesis
    using c assms(1) captured_inv(2) [OF i] captured_inv(2) [OF c(1)]
    by (auto simp: capturing_def pcap_ok_def)
qed

interpretation capture: recent_log capturing captured "\<lambda>(us, frame). pcap_capture us frame"
  "\<lambda>(us, frame). frame \<noteq> []" "\<lambda>(us, frame). pcap_record us frame" length "RING_SIZE - 544"
  by unfold_locales (use pcap_capture_step in auto)

section \<open>Properties\<close>

text \<open>Property C14. The ring refines a list of records: capturing a frame appends its record (header
  and at most 256 bytes), forgets at most some of the oldest records, and forgets any only
  when more than 64992 bytes of records remain.\<close>

theorem pcap_capture_refines:
  assumes "pcap_ok s" "enabled s" "\<not> paused s" "frame \<noteq> []"
  shows "pcap_ok (pcap_capture us frame s) \<and> (\<exists>k \<le> length (captured s).
    captured (pcap_capture us frame s) = drop k (captured s) @ [pcap_record us frame] \<and>
    (0 < k \<longrightarrow> RING_SIZE - 544 < (\<Sum>r \<leftarrow> captured (pcap_capture us frame s). length r)))"
  using pcap_capture_step [of s frame us] assms by (simp add: capturing_def)

lemma capturing_boot: "capturing (pcap_set_enabled True pcap_boot)"
  using pcap_ok_boot by (simp add: capturing_def pcap_ok_def pcap_set_enabled_def pcap_inv_frame)
    (simp add: pcap_boot_def)

lemma captured_boot: "captured (pcap_set_enabled True pcap_boot) = []"
  by (simp add: captured_def pcap_stream_def pcap_freeze_def pcap_set_enabled_def pcap_boot_def seg_def
      split_records.simps)

theorem pcap_capture_refines_witness:
  "captured (pcap_capture 0 [1, 2, 3] (pcap_set_enabled True pcap_boot)) = [pcap_record 0 [1, 2, 3]]"
  using pcap_capture_refines [of "pcap_set_enabled True pcap_boot" "[1, 2, 3]" 0] capturing_boot
  by (simp add: capturing_def captured_boot)

text \<open>A capture session: after any sequence of non-empty frames the download is the
  global header followed by the records of the last frames in order, and if frames are
  missing, more than 64992 bytes are there.\<close>

theorem pcap_session:
  assumes "\<forall>(us, frame) \<in> set fs. frame \<noteq> []"
  defines "s \<equiv> fold (\<lambda>(us, frame). pcap_capture us frame) fs (pcap_set_enabled True pcap_boot)"
  shows "\<exists>k \<le> length fs. pcap_stream s = concat (map (\<lambda>(us, frame). pcap_record us frame) (drop k fs)) \<and>
    captured s = map (\<lambda>(us, frame). pcap_record us frame) (drop k fs) \<and>
    (0 < k \<longrightarrow> RING_SIZE - 544 < length (pcap_stream s))"
proof -
  have "\<forall>f \<in> set fs. (\<lambda>(us, frame). frame \<noteq> []) f" using assms(1) by auto
  from capture.pushes [OF capturing_boot this, folded s_def] obtain k where
    k: "capturing s" "k \<le> length fs" "captured s = map (\<lambda>(us, frame). pcap_record us frame) (drop k fs)"
      "0 < k \<longrightarrow> RING_SIZE - 544 < (\<Sum>r \<leftarrow> captured s. length r)"
    by (auto simp: captured_boot drop_map)
  obtain old new where i: "pcap_inv s old new" using k(1) by (auto simp: capturing_def pcap_ok_def)
  have "pcap_stream s = concat (captured s)" using captured_inv [OF i] by simp
  then show ?thesis using k by (intro exI [of _ k]) (simp add: length_concat)
qed

theorem pcap_session_witness:
  "captured (fold (\<lambda>(us, frame). pcap_capture us frame) [(5, [1, 2, 3]), (6, [4])] (pcap_set_enabled True pcap_boot))
     \<in> {[pcap_record 5 [1, 2, 3], pcap_record 6 [4]], [pcap_record 6 [4]], []}"
proof -
  let ?fs = "[(5, [1, 2, 3]), (6, [4])] :: (u64 \<times> bytes) list"
  have "\<forall>(us, frame) \<in> set ?fs. frame \<noteq> []" by simp
  from pcap_session [OF this] obtain k where "k \<le> length ?fs"
    "captured (fold (\<lambda>(us, frame). pcap_capture us frame) ?fs (pcap_set_enabled True pcap_boot))
       = map (\<lambda>(us, frame). pcap_record us frame) (drop k ?fs)" by blast
  moreover from this(1) have "k = 0 \<or> k = 1 \<or> k = 2" by auto
  ultimately show ?thesis by auto
qed

end
