(* ===== verification/Dhcp_Server.thy ===== *)
theory Dhcp_Server
  imports Config
begin

text \<open>
  The single-lease DHCP server of \<^verbatim>\<open>src/dhcp_server.c\<close> with its two scopes. A network
  interface is a number; \<^verbatim>\<open>netif_ip4_addr\<close> and the success of \<^verbatim>\<open>pbuf_alloc\<close> and \<^verbatim>\<open>udp_new\<close>
  are arguments. Addresses are 32-bit words in network byte order, so their bytes on the
  wire are the little-endian bytes of the word. The handler returns the new state and the
  datagram it broadcasts, if any; writing past a buffer is the outcome \<open>None\<close>.

  Shown: options are read back as they were written, the reply never outgrows its buffer,
  and what each kind of request gets on each kind of scope.
\<close>

abbreviation DHCPDISCOVER :: u8 where "DHCPDISCOVER \<equiv> 1"
abbreviation DHCPOFFER :: u8 where "DHCPOFFER \<equiv> 2"
abbreviation DHCPREQUEST :: u8 where "DHCPREQUEST \<equiv> 3"
abbreviation DHCPACK :: u8 where "DHCPACK \<equiv> 5"
abbreviation DHCPNAK :: u8 where "DHCPNAK \<equiv> 6"
abbreviation OPT_PAD :: u8 where "OPT_PAD \<equiv> 0"
abbreviation OPT_SUBNET_MASK :: u8 where "OPT_SUBNET_MASK \<equiv> 1"
abbreviation OPT_ROUTER :: u8 where "OPT_ROUTER \<equiv> 3"
abbreviation OPT_DNS :: u8 where "OPT_DNS \<equiv> 6"
abbreviation OPT_MTU :: u8 where "OPT_MTU \<equiv> 26"
abbreviation OPT_REQUESTED_IP :: u8 where "OPT_REQUESTED_IP \<equiv> 50"
abbreviation OPT_LEASE_TIME :: u8 where "OPT_LEASE_TIME \<equiv> 51"
abbreviation OPT_MSG_TYPE :: u8 where "OPT_MSG_TYPE \<equiv> 53"
abbreviation OPT_SERVER_ID :: u8 where "OPT_SERVER_ID \<equiv> 54"
abbreviation OPT_CLASSLESS_ROUTES :: u8 where "OPT_CLASSLESS_ROUTES \<equiv> 121"
abbreviation OPT_END :: u8 where "OPT_END \<equiv> 255"
abbreviation DHCP_MSG_SIZE :: nat where "DHCP_MSG_SIZE \<equiv> 240"
abbreviation REPLY_OPTS_MAX :: nat where "REPLY_OPTS_MAX \<equiv> 128"
abbreviation REQ_SIZE :: nat where "REQ_SIZE \<equiv> 600"
abbreviation LEASE_TIME_S :: u32 where "LEASE_TIME_S \<equiv> 86400"

text \<open>\<^verbatim>\<open>DHCP_MAGIC\<close> as it lies in the message.\<close>

definition dhcp_magic :: bytes where "dhcp_magic = [0x63, 0x82, 0x53, 0x63]"

record dhcp_server =
  nif :: "nat option"
  lease_addr :: u32
  lease_mask :: u32
  lease_dns :: u32
  lease_mtu :: u16
  lease_routes :: "wg_route list"
  lease_route_count :: nat
  lease_link_only :: bool
  leased :: bool

record dhcp =
  dhcp_usb :: dhcp_server
  dhcp_ap :: dhcp_server
  pcb :: bool

datatype scope = Usb | Ap

definition scope_for :: "dhcp \<Rightarrow> nat option \<Rightarrow> scope option" where
  "scope_for d inp =
     (if inp \<noteq> None \<and> inp = nif (dhcp_usb d) then Some Usb
      else if inp \<noteq> None \<and> inp = nif (dhcp_ap d) then Some Ap
      else None)"

fun get_scope :: "dhcp \<Rightarrow> scope \<Rightarrow> dhcp_server" where
  "get_scope d Usb = dhcp_usb d"
| "get_scope d Ap = dhcp_ap d"

fun set_scope :: "dhcp \<Rightarrow> scope \<Rightarrow> dhcp_server \<Rightarrow> dhcp" where
  "set_scope d Usb s = d\<lparr>dhcp_usb := s\<rparr>"
| "set_scope d Ap s = d\<lparr>dhcp_ap := s\<rparr>"

section \<open>Options\<close>

text \<open>The loop of \<^verbatim>\<open>find_opt\<close> from index \<open>i\<close>; the result is the index of the length byte.\<close>

function find_opt :: "bytes \<Rightarrow> u8 \<Rightarrow> nat \<Rightarrow> nat option" where
  "find_opt opts code i =
     (if i + 1 < length opts then
        let c = opts ! i in
        if c = OPT_END then None
        else if c = OPT_PAD then find_opt opts code (i + 1)
        else let olen = unat (opts ! (i + 1)) in
          if i + 2 + olen > length opts then None
          else if c = code then Some (i + 1)
          else find_opt opts code (i + 2 + olen)
      else None)"
  by pat_completeness auto
termination by (relation "measure (\<lambda>(opts, code, i). length opts - i)") auto

declare find_opt.simps [simp del]

definition put_opt :: "u8 \<Rightarrow> bytes \<Rightarrow> bytes" where
  "put_opt code val = code # of_nat (length val) # val"

text \<open>The buffer of option 121: \<^verbatim>\<open>buf[CONFIG_ROUTES_MAX * 9]\<close> is 36 bytes; the copy of the
  significant octets may read no more than the eight bytes of the route.\<close>

fun route_octets :: "u32 \<Rightarrow> wg_route list \<Rightarrow> bytes \<Rightarrow> bytes option" where
  "route_octets sid [] buf = Some buf"
| "route_octets sid (r # rs) buf =
     (let octets = (unat (r_prefix r) + 7) div 8;
          buf = buf @ [r_prefix r] @ take octets (route_bytes r) @ le32_bytes sid
      in if octets > length (route_bytes r) \<or> length buf > 36 then None else route_octets sid rs buf)"

text \<open>The options of a reply, up to \<^verbatim>\<open>OPT_END\<close>.\<close>

definition reply_opts :: "dhcp_server \<Rightarrow> u32 \<Rightarrow> u8 \<Rightarrow> bytes option" where
  "reply_opts s sid reply_type =
     (let o1 = put_opt OPT_MSG_TYPE [reply_type] @ put_opt OPT_SERVER_ID (le32_bytes sid) in
      if reply_type \<noteq> DHCPNAK then
        let o2 = o1 @ put_opt OPT_LEASE_TIME (le32_bytes (bswap32 LEASE_TIME_S)) @
                 put_opt OPT_SUBNET_MASK (le32_bytes (lease_mask s));
            mid = (if lease_link_only s then Some []
                   else if lease_route_count s = 0 then Some (put_opt OPT_ROUTER (le32_bytes sid))
                   else map_option (put_opt OPT_CLASSLESS_ROUTES)
                          (route_octets sid (take (lease_route_count s) (lease_routes s)) []));
            dns = (if lease_dns s \<noteq> 0 then put_opt OPT_DNS (le32_bytes (lease_dns s)) else []);
            mtu = put_opt OPT_MTU (le16_bytes (bswap16 (lease_mtu s)))
        in map_option (\<lambda>m. o2 @ m @ dns @ mtu @ [OPT_END]) mid
      else Some (o1 @ [OPT_END]))"

text \<open>The fixed header of a reply to the request \<open>req\<close>.\<close>

definition reply_header :: "bytes \<Rightarrow> u32 \<Rightarrow> bytes" where
  "reply_header req yiaddr =
     [2, 1, 6, 0] @ seg req 4 4 @ [0, 0] @ seg req 10 2 @ replicate 4 0 @ le32_bytes yiaddr @
     replicate 8 0 @ seg req 28 16 @ replicate 192 0 @ dhcp_magic"

text \<open>What the request asks for: the reply type, when there is to be one.\<close>

definition reply_type :: "dhcp_server \<Rightarrow> bytes \<Rightarrow> u8 option" where
  "reply_type s req =
     (if req ! 0 \<noteq> 1 \<or> req ! 1 \<noteq> 1 \<or> req ! 2 \<noteq> 6 \<or> seg req 236 4 \<noteq> dhcp_magic then None
      else let opts = drop DHCP_MSG_SIZE req in
        case find_opt opts OPT_MSG_TYPE 0 of None \<Rightarrow> None
        | Some mt \<Rightarrow>
            if opts ! mt \<noteq> 1 then None
            else if opts ! (mt + 1) = DHCPDISCOVER then Some DHCPOFFER
            else if opts ! (mt + 1) = DHCPREQUEST then
              let want = (case find_opt opts OPT_REQUESTED_IP 0 of
                            Some rip \<Rightarrow> if opts ! rip = 4 then le32_of (seg opts (rip + 1) 4)
                                        else le32_of (seg req 12 4)
                          | None \<Rightarrow> le32_of (seg req 12 4))
              in Some (if want = 0 \<or> want = lease_addr s then DHCPACK else DHCPNAK)
            else None)"

definition dhcp_recv ::
  "(nat \<Rightarrow> u32) \<Rightarrow> bool \<Rightarrow> nat option \<Rightarrow> bytes \<Rightarrow> dhcp \<Rightarrow> (dhcp \<times> (nat \<times> bytes) option) option" where
  "dhcp_recv netif_ip4_addr alloc_ok inp p d =
     (case scope_for d inp of None \<Rightarrow> Some (d, None)
      | Some sc \<Rightarrow>
          let s = get_scope d sc in
          if lease_addr s = 0 \<or> length p < DHCP_MSG_SIZE + 3 then Some (d, None)
          else let req = take REQ_SIZE p in
            case reply_type s req of None \<Rightarrow> Some (d, None)
            | Some t \<Rightarrow>
                if \<not> alloc_ok then Some (d, None)
                else let sid = netif_ip4_addr (the inp) in
                  case reply_opts s sid t of None \<Rightarrow> None
                  | Some opts \<Rightarrow>
                      if length opts > REPLY_OPTS_MAX then None
                      else let r = reply_header req (if t = DHCPNAK then 0 else lease_addr s) @ opts;
                               d' = (if t = DHCPACK then set_scope d sc (s\<lparr>leased := True\<rparr>) else d)
                           in Some (d', Some (the inp, r)))"

definition dhcp_server_start ::
  "bool \<Rightarrow> scope \<Rightarrow> nat \<Rightarrow> u32 \<Rightarrow> u8 \<Rightarrow> u32 \<Rightarrow> u16 \<Rightarrow> wg_route list \<Rightarrow> nat \<Rightarrow> bool \<Rightarrow> dhcp \<Rightarrow> dhcp" where
  "dhcp_server_start udp_ok sc n haddr prefix dns mtu rts rcount link_only d =
     (let s = get_scope d sc;
          cnt = (if rcount > CONFIG_ROUTES_MAX then CONFIG_ROUTES_MAX else rcount);
          s = s\<lparr>nif := Some n, lease_addr := haddr,
                lease_mask := (if prefix \<noteq> 0 then bswap32 (push_bit (32 - unat prefix) 0xFFFFFFFF) else 0),
                lease_link_only := link_only, lease_dns := (if link_only then 0 else dns),
                lease_mtu := mtu, lease_route_count := cnt,
                lease_routes := (if cnt \<noteq> 0 then put_seg (lease_routes s) 0 (take cnt rts) else lease_routes s),
                leased := False\<rparr>;
          d = set_scope d sc s
      in if pcb d then d else d\<lparr>pcb := udp_ok\<rparr>)"

definition dhcp_server_leased :: "dhcp_server \<Rightarrow> bool" where
  "dhcp_server_leased s = leased s"

section \<open>Reading back what was written\<close>

text \<open>The value of option \<open>code\<close> as a reader of the message sees it.\<close>

definition opt_val :: "bytes \<Rightarrow> u8 \<Rightarrow> bytes option" where
  "opt_val opts code =
     (case find_opt opts code 0 of None \<Rightarrow> None | Some i \<Rightarrow> Some (seg opts (i + 1) (unat (opts ! i))))"

definition opts_of :: "(u8 \<times> bytes) list \<Rightarrow> bytes" where
  "opts_of kvs = concat (map (\<lambda>(c, v). put_opt c v) kvs)"

lemma length_put_opt [simp]: "length (put_opt c v) = length v + 2"
  by (simp add: put_opt_def)

lemma opts_of_Cons: "opts_of ((c, v) # kvs) = c # of_nat (length v) # v @ opts_of kvs"
  by (simp add: opts_of_def put_opt_def)

lemma find_opt_from:
  assumes "\<forall>(c, v) \<in> set kvs. c \<noteq> OPT_PAD \<and> c \<noteq> OPT_END \<and> length v < 256"
  shows "case find_opt (pre @ opts_of kvs @ [OPT_END]) code (length pre) of
      None \<Rightarrow> map_of kvs code = None
    | Some i \<Rightarrow> map_of kvs code =
        Some (seg (pre @ opts_of kvs @ [OPT_END]) (i + 1) (unat ((pre @ opts_of kvs @ [OPT_END]) ! i)))"
  using assms
proof (induction kvs arbitrary: pre)
  case Nil
  then show ?case by (subst find_opt.simps) (simp add: opts_of_def)
next
  case (Cons x kvs)
  obtain c v where x: "x = (c, v)" by force
  have c: "c \<noteq> OPT_PAD" "c \<noteq> OPT_END" "length v < 256" using Cons.prems by (auto simp: x)
  let ?o = "pre @ opts_of (x # kvs) @ [OPT_END]"
  let ?p = "pre @ put_opt c v"
  have o: "?o = ?p @ opts_of kvs @ [OPT_END]" by (simp add: x opts_of_def)
  have n: "?o ! length pre = c" "?o ! (length pre + 1) = of_nat (length v)" "length pre + 1 < length ?o"
    "length pre + 2 + length v \<le> length ?o"
    by (simp_all add: x opts_of_Cons nth_append)
  have l: "unat (of_nat (length v) :: u8) = length v" using c(3) by (rule unat_of_nat_u8)
  show ?case
  proof (cases "c = code")
    case True
    then have "find_opt ?o code (length pre) = Some (length pre + 1)"
      using c n l by (subst find_opt.simps) (simp add: Let_def)
    moreover have "seg ?o (length pre + 1 + 1) (length v) = v"
      by (simp add: x opts_of_Cons seg_def)
    ultimately show ?thesis using True n(2) l by (simp add: x)
  next
    case False
    then have "find_opt ?o code (length pre) = find_opt ?o code (length pre + 2 + length v)"
      using c n l by (subst find_opt.simps) (simp add: Let_def)
    also have "length pre + 2 + length v = length ?p" by simp
    finally have e: "find_opt ?o code (length pre) = find_opt ?o code (length ?p)" .
    have m: "map_of (x # kvs) code = map_of kvs code" using False by (simp add: x)
    have "\<forall>(c, v) \<in> set kvs. c \<noteq> OPT_PAD \<and> c \<noteq> OPT_END \<and> length v < 256"
      using Cons.prems by simp
    from Cons.IH [OF this, of ?p] show ?thesis unfolding m o e [unfolded o] .
  qed
qed

lemma opt_val_opts_of:
  assumes "\<forall>(c, v) \<in> set kvs. c \<noteq> OPT_PAD \<and> c \<noteq> OPT_END \<and> length v < 256"
  shows "opt_val (opts_of kvs @ [OPT_END]) code = map_of kvs code"
  using find_opt_from [OF assms, where pre = "[]" and code = code]
  by (auto simp: opt_val_def split: option.splits)

section \<open>The options of a reply\<close>

text \<open>RFC 3442: each route is its prefix length, the significant octets of the network and
  the gateway.\<close>

definition static_routes :: "u32 \<Rightarrow> wg_route list \<Rightarrow> bytes" where
  "static_routes sid rs =
     concat (map (\<lambda>r. r_prefix r # take ((unat (r_prefix r) + 7) div 8) (le32_bytes (r_net r)) @ le32_bytes sid) rs)"

definition lease_options :: "dhcp_server \<Rightarrow> u32 \<Rightarrow> (u8 \<times> bytes) list" where
  "lease_options s sid =
     [(OPT_LEASE_TIME, le32_bytes (bswap32 LEASE_TIME_S)), (OPT_SUBNET_MASK, le32_bytes (lease_mask s))] @
     (if lease_link_only s then []
      else if lease_route_count s = 0 then [(OPT_ROUTER, le32_bytes sid)]
      else [(OPT_CLASSLESS_ROUTES, static_routes sid (take (lease_route_count s) (lease_routes s)))]) @
     (if lease_dns s \<noteq> 0 then [(OPT_DNS, le32_bytes (lease_dns s))] else []) @
     [(OPT_MTU, le16_bytes (bswap16 (lease_mtu s)))]"

definition reply_options :: "dhcp_server \<Rightarrow> u32 \<Rightarrow> u8 \<Rightarrow> (u8 \<times> bytes) list" where
  "reply_options s sid t =
     [(OPT_MSG_TYPE, [t]), (OPT_SERVER_ID, le32_bytes sid)] @
     (if t \<noteq> DHCPNAK then lease_options s sid else [])"

definition scope_wf :: "dhcp_server \<Rightarrow> bool" where
  "scope_wf s \<longleftrightarrow> lease_route_count s \<le> CONFIG_ROUTES_MAX \<and> length (lease_routes s) = CONFIG_ROUTES_MAX \<and>
     list_all (\<lambda>r. r_prefix r \<le> 32 \<and> length (r_pad r) = 3) (lease_routes s)"

lemma route_octets_ok:
  assumes "list_all (\<lambda>r. r_prefix r \<le> 32 \<and> length (r_pad r) = 3) rs" "length buf + 9 * length rs \<le> 36"
  shows "route_octets sid rs buf = Some (buf @ static_routes sid rs)"
  using assms
proof (induction rs arbitrary: buf)
  case Nil
  then show ?case by (simp add: static_routes_def)
next
  case (Cons r rs)
  let ?n = "(unat (r_prefix r) + 7) div 8"
  have "unat (r_prefix r) \<le> 32" using Cons.prems(1) by (simp add: word_le_nat_alt)
  then have n: "?n \<le> 4" by simp
  have t: "take ?n (route_bytes r) = take ?n (le32_bytes (r_net r))"
    using n by (simp add: route_bytes_def)
  have l: "length (take ?n (le32_bytes (r_net r))) \<le> 4" by simp
  show ?case using Cons n l by (simp add: Let_def t static_routes_def) (simp add: route_bytes_def)
qed

lemma length_static_routes:
  "length (static_routes sid rs) \<le> 9 * length rs"
proof (induction rs)
  case (Cons r rs)
  have "length (take n (le32_bytes w)) \<le> 4" for n w by simp
  then show ?case using Cons by (simp add: static_routes_def)
qed (simp add: static_routes_def)

lemma reply_opts_eq:
  assumes "scope_wf s"
  shows "reply_opts s sid t = Some (opts_of (reply_options s sid t) @ [OPT_END])"
    and "length (opts_of (reply_options s sid t)) < REPLY_OPTS_MAX"
    and "\<forall>(c, v) \<in> set (reply_options s sid t). c \<noteq> OPT_PAD \<and> c \<noteq> OPT_END \<and> length v < 256"
proof -
  let ?rs = "take (lease_route_count s) (lease_routes s)"
  have rs: "list_all (\<lambda>r. r_prefix r \<le> 32 \<and> length (r_pad r) = 3) ?rs" "length ?rs \<le> 4"
    using assms by (auto simp: scope_wf_def list_all_iff dest: in_set_takeD)
  have r: "route_octets sid ?rs [] = Some (static_routes sid ?rs)"
    using route_octets_ok [OF rs(1), of "[]"] rs(2) by simp
  have l: "length (static_routes sid ?rs) \<le> 36"
    using length_static_routes [of sid ?rs] rs(2) by linarith
  show "reply_opts s sid t = Some (opts_of (reply_options s sid t) @ [OPT_END])"
    using r by (simp add: reply_opts_def reply_options_def lease_options_def opts_of_def Let_def)
  show "length (opts_of (reply_options s sid t)) < REPLY_OPTS_MAX"
    using l by (simp add: reply_options_def lease_options_def opts_of_def)
  show "\<forall>(c, v) \<in> set (reply_options s sid t). c \<noteq> OPT_PAD \<and> c \<noteq> OPT_END \<and> length v < 256"
    using l by (auto simp: reply_options_def lease_options_def)
qed

lemma length_reply_header: "240 \<le> length req \<Longrightarrow> length (reply_header req y) = 240"
  by (simp add: reply_header_def dhcp_magic_def)

lemma scope_for_nif: "scope_for d inp = Some sc \<Longrightarrow> inp \<noteq> None \<and> nif (get_scope d sc) = inp"
  by (cases inp) (auto simp: scope_for_def split: if_splits)

lemma dhcp_server_start_wf:
  assumes "length (lease_routes (get_scope d sc)) = 4" "list_all (\<lambda>r. r_prefix r \<le> 32 \<and> length (r_pad r) = 3) rts"
    "list_all (\<lambda>r. r_prefix r \<le> 32 \<and> length (r_pad r) = 3) (lease_routes (get_scope d sc))" "length rts = 4"
  shows "scope_wf (get_scope (dhcp_server_start u sc n h p dns m rts c lo d) sc)"
proof -
  let ?c = "if c > 4 then 4 else c"
  have "set (put_seg (lease_routes (get_scope d sc)) 0 (take ?c rts)) \<subseteq> set rts \<union> set (lease_routes (get_scope d sc))"
    by (auto simp: put_seg_def dest: in_set_takeD in_set_dropD)
  moreover have "length (put_seg (lease_routes (get_scope d sc)) 0 (take ?c rts)) = 4"
    using assms(1,4) by simp
  ultimately show ?thesis
    using assms by (cases sc) (auto simp: dhcp_server_start_def Let_def scope_wf_def list_all_iff)
qed

section \<open>Properties\<close>

text \<open>The whole handler on a scope that is in service.\<close>

lemma dhcp_recv_reply:
  assumes "scope_for d inp = Some sc" "scope_wf (get_scope d sc)" "lease_addr (get_scope d sc) \<noteq> 0"
    and "243 \<le> length p" "reply_type (get_scope d sc) (take REQ_SIZE p) = Some t"
  shows "dhcp_recv addr True inp p d =
    Some (if t = DHCPACK then set_scope d sc ((get_scope d sc)\<lparr>leased := True\<rparr>) else d,
          Some (the inp, reply_header (take REQ_SIZE p) (if t = DHCPNAK then 0 else lease_addr (get_scope d sc)) @
                         opts_of (reply_options (get_scope d sc) (addr (the inp)) t) @ [OPT_END]))"
  using assms reply_opts_eq(1,2) [OF assms(2), of "addr (the inp)" t]
  by (simp add: dhcp_recv_def Let_def)

text \<open>Property C21. The reply to a request: it goes out on the link the request came from, never
  outgrows its 368-byte buffer, and a client reading it finds its message type, this
  device as the server, and, unless refused, the lease address in the header and the
  options of the scope: on a bring-up link no router, route or resolver, in gateway mode
  the device as router, in split mode the configured routes and no router.\<close>

theorem dhcp_reply_correct:
  assumes "scope_for d inp = Some sc" "scope_wf (get_scope d sc)" "lease_addr (get_scope d sc) \<noteq> 0"
    and "243 \<le> length p" "reply_type (get_scope d sc) (take REQ_SIZE p) = Some t"
  shows "\<exists>d' r. dhcp_recv addr True inp p d = Some (d', Some (the inp, r)) \<and>
    nif (get_scope d sc) = inp \<and>
    length r \<le> DHCP_MSG_SIZE + REPLY_OPTS_MAX \<and>
    seg r 4 4 = seg p 4 4 \<and> seg r 16 4 = le32_bytes (if t = DHCPNAK then 0 else lease_addr (get_scope d sc)) \<and>
    (\<forall>code. opt_val (drop DHCP_MSG_SIZE r) code
        = map_of (reply_options (get_scope d sc) (addr (the inp)) t) code) \<and>
    leased (get_scope d' sc) = (t = DHCPACK \<or> leased (get_scope d sc))"
proof -
  let ?s = "get_scope d sc" let ?req = "take REQ_SIZE p"
  let ?h = "reply_header ?req (if t = DHCPNAK then 0 else lease_addr ?s)"
  let ?o = "opts_of (reply_options ?s (addr (the inp)) t) @ [OPT_END]"
  have h: "length ?h = 240" using assms(4) by (intro length_reply_header) simp
  have x: "seg ?h 4 4 = seg p 4 4" "seg ?h 16 4 = le32_bytes (if t = DHCPNAK then 0 else lease_addr ?s)"
  proof -
    have "length (seg ?req 4 4) = 4" "length (seg ?req 10 2) = 2" "seg ?req 4 4 = seg p 4 4" using assms(4) by auto
    then show "seg ?h 4 4 = seg p 4 4" "seg ?h 16 4 = le32_bytes (if t = DHCPNAK then 0 else lease_addr ?s)"
      by (simp_all add: reply_header_def seg_def)
  qed
  have "drop 240 (?h @ ?o) = ?o" using h by simp
  moreover have "opt_val ?o code = map_of (reply_options ?s (addr (the inp)) t) code" for code
    by (rule opt_val_opts_of) (rule reply_opts_eq(3) [OF assms(2)])
  ultimately have "\<forall>code. opt_val (drop 240 (?h @ ?o)) code = map_of (reply_options ?s (addr (the inp)) t) code"
    by (simp only: simp_thms)
  moreover have "length (?h @ ?o) \<le> DHCP_MSG_SIZE + REPLY_OPTS_MAX"
    using h reply_opts_eq(2) [OF assms(2), of "addr (the inp)" t] by simp
  moreover have "seg (?h @ ?o) 4 4 = seg p 4 4"
    "seg (?h @ ?o) 16 4 = le32_bytes (if t = DHCPNAK then 0 else lease_addr ?s)"
    using x h by simp_all
  moreover have "nif ?s = inp" using scope_for_nif [OF assms(1)] by simp
  moreover have "leased (get_scope (if t = DHCPACK then set_scope d sc (?s\<lparr>leased := True\<rparr>) else d) sc) =
      (t = DHCPACK \<or> leased ?s)"
    by (cases sc) simp_all
  ultimately show ?thesis
    using dhcp_recv_reply [OF assms, of addr] by blast
qed

definition sample_scope :: dhcp_server where
  "sample_scope = \<lparr>nif = Some 1, lease_addr = 0x0200000A, lease_mask = 0xFCFFFFFF, lease_dns = 0, lease_mtu = 1420,
     lease_routes = replicate 4 zero_route, lease_route_count = 0, lease_link_only = False, leased = False\<rparr>"

definition sample_dhcp :: dhcp where
  "sample_dhcp = \<lparr>dhcp_usb = sample_scope, dhcp_ap = sample_scope\<lparr>nif := None\<rparr>, pcb = True\<rparr>"

definition sample_discover :: bytes where
  "sample_discover = [1, 1, 6, 0] @ replicate 232 0 @ dhcp_magic @ [53, 1, 1, 255]"

lemma sample_dhcp_facts:
  "scope_for sample_dhcp (Some 1) = Some Usb" "scope_wf sample_scope" "get_scope sample_dhcp Usb = sample_scope"
  "lease_addr sample_scope \<noteq> 0"
  by (simp_all add: scope_for_def sample_dhcp_def sample_scope_def scope_wf_def list_all_iff zero_route_def)

lemma sample_discover_type: "reply_type sample_scope (take REQ_SIZE sample_discover) = Some DHCPOFFER"
proof -
  have d: "drop 240 sample_discover = [53, 1, 1, 255]"
    by (simp add: sample_discover_def dhcp_magic_def)
  have s: "seg sample_discover 236 4 = dhcp_magic" "take REQ_SIZE sample_discover = sample_discover"
    "sample_discover ! 0 = 1" "sample_discover ! Suc 0 = 1" "sample_discover ! 2 = 6"
    by (simp_all add: sample_discover_def dhcp_magic_def seg_def)
  have "find_opt [53, 1, 1, 255] OPT_MSG_TYPE 0 = Some 1" by (subst find_opt.simps) simp
  then show ?thesis by (simp add: reply_type_def s d)
qed

theorem dhcp_reply_correct_witness:
  "\<exists>d' r. dhcp_recv (\<lambda>n. 0x0100000A) True (Some 1) sample_discover sample_dhcp = Some (d', Some (1, r)) \<and>
     opt_val (drop 240 r) OPT_ROUTER = Some (le32_bytes 0x0100000A)"
proof -
  have "243 \<le> length sample_discover" by (simp add: sample_discover_def dhcp_magic_def)
  then obtain d' r where
    "dhcp_recv (\<lambda>n. 0x0100000A) True (Some 1) sample_discover sample_dhcp = Some (d', Some (the (Some 1), r))"
    "\<forall>code. opt_val (drop 240 r) code = map_of (reply_options sample_scope 0x0100000A DHCPOFFER) code"
    using dhcp_reply_correct [of sample_dhcp "Some 1" Usb sample_discover DHCPOFFER "\<lambda>n. 0x0100000A",
        unfolded sample_dhcp_facts(3), OF sample_dhcp_facts(1,2,4) _ sample_discover_type] by blast
  moreover have "map_of (reply_options sample_scope 0x0100000A DHCPOFFER) OPT_ROUTER = Some (le32_bytes 0x0100000A)"
    by (simp add: reply_options_def lease_options_def sample_scope_def)
  ultimately show ?thesis by auto
qed

text \<open>The server serves its own two links only: a request that arrives on any other
  interface, or on a scope without a lease address, changes nothing and gets no answer.\<close>

theorem dhcp_other_links_ignored:
  "(inp = None \<or> inp \<notin> {nif (dhcp_usb d), nif (dhcp_ap d)} \<longrightarrow> dhcp_recv addr ok inp p d = Some (d, None)) \<and>
   (scope_for d inp = Some sc \<and> lease_addr (get_scope d sc) = 0 \<longrightarrow> dhcp_recv addr ok inp p d = Some (d, None))"
  by (auto simp: dhcp_recv_def scope_for_def Let_def)

theorem dhcp_other_links_ignored_witness:
  "dhcp_recv (\<lambda>n. 0) True (Some 9) sample_discover sample_dhcp = Some (sample_dhcp, None)"
  using dhcp_other_links_ignored [of "Some 9" sample_dhcp "\<lambda>n. 0" True sample_discover Usb]
  by (simp add: sample_dhcp_def sample_scope_def)

text \<open>A client that asks for an address other than the one lease is refused with a NAK
  that assigns no address and carries only message type and server, and the lease is not
  recorded; asking for the lease itself is acknowledged.\<close>

theorem dhcp_request_ack_or_nak:
  assumes "req ! 0 = 1" "req ! 1 = 1" "req ! 2 = 6" "seg req 236 4 = dhcp_magic"
    and "find_opt (drop DHCP_MSG_SIZE req) OPT_MSG_TYPE 0 = Some mt" "drop DHCP_MSG_SIZE req ! mt = 1"
    and "drop DHCP_MSG_SIZE req ! (mt + 1) = DHCPREQUEST"
    and "find_opt (drop DHCP_MSG_SIZE req) OPT_REQUESTED_IP 0 = Some rip" "drop DHCP_MSG_SIZE req ! rip = 4"
    and "want = le32_of (seg (drop DHCP_MSG_SIZE req) (rip + 1) 4)" "want \<noteq> 0"
  shows "(want = lease_addr s \<longrightarrow> reply_type s req = Some DHCPACK) \<and>
    (want \<noteq> lease_addr s \<longrightarrow> reply_type s req = Some DHCPNAK) \<and>
    map fst (reply_options s sid DHCPNAK) = [OPT_MSG_TYPE, OPT_SERVER_ID]"
  using assms by (simp add: reply_type_def Let_def reply_options_def)

definition sample_request :: bytes where
  "sample_request = [1, 1, 6, 0] @ replicate 232 0 @ dhcp_magic @ [53, 1, 3, 50, 4, 10, 0, 0, 9, 255]"

theorem dhcp_request_ack_or_nak_witness: "reply_type sample_scope sample_request = Some DHCPNAK"
proof -
  let ?o = "[53, 1, 3, 50, 4, 10, 0, 0, 9, 255] :: bytes"
  have d: "drop 240 sample_request = ?o" by (simp add: sample_request_def dhcp_magic_def)
  have s: "seg sample_request 236 4 = dhcp_magic" "sample_request ! 0 = 1" "sample_request ! 1 = 1"
    "sample_request ! 2 = 6" by (simp_all add: sample_request_def dhcp_magic_def seg_def)
  have f: "find_opt ?o OPT_MSG_TYPE 0 = Some 1" by (subst find_opt.simps) simp
  have "find_opt ?o OPT_REQUESTED_IP 3 = Some 4" by (subst find_opt.simps) simp
  then have g: "find_opt ?o OPT_REQUESTED_IP 0 = Some 4" by (subst find_opt.simps) (simp add: numeral_3_eq_3)
  have w: "le32_of (seg ?o (4 + 1) 4) = 0x0900000A" by (simp add: seg_def le32_def)
  show ?thesis
    using dhcp_request_ack_or_nak [of sample_request 1 4 "0x0900000A" sample_scope] s d f g w
    by (simp add: sample_scope_def)
qed

end
