(* ===== verification/Crypto.thy ===== *)
theory Crypto
  imports Prelude
begin

text \<open>
  The helpers of \<^verbatim>\<open>wireguard/crypto.c\<close> and \<^verbatim>\<open>wireguard/crypto.h\<close>: clearing a buffer, the
  comparison that does not stop at the first difference, and the byte-order macros. The
  32-bit macros are \<open>le32_of\<close> and \<open>le32_bytes\<close> of the prelude; the 64-bit and big-endian
  ones are here. The last section holds what the streaming primitives share: cutting a
  message into blocks of a fixed size.
\<close>

section \<open>Clearing and comparing\<close>

fun crypto_zero :: "bytes \<Rightarrow> nat \<Rightarrow> bytes" where
  "crypto_zero p 0 = p"
| "crypto_zero [] (Suc len) = []"
| "crypto_zero (x # p) (Suc len) = 0 # crypto_zero p len"

fun neq_bits :: "u8 \<Rightarrow> bytes \<Rightarrow> bytes \<Rightarrow> nat \<Rightarrow> u8" where
  "neq_bits neq a b 0 = neq"
| "neq_bits neq a b (Suc n) = neq_bits (neq OR (hd a XOR hd b)) (tl a) (tl b) n"

definition crypto_equal :: "bytes \<Rightarrow> bytes \<Rightarrow> nat \<Rightarrow> bool" where
  "crypto_equal a b n = (if neq_bits 0 a b n \<noteq> 0 then False else True)"

lemma crypto_zero_all [simp]: "len = length p \<Longrightarrow> crypto_zero p len = replicate len 0"
  by (induction p len rule: crypto_zero.induct) auto

lemma word_or_eq_0: "(a :: 'a::len word) OR b = 0 \<longleftrightarrow> a = 0 \<and> b = 0"
  by (metis or_eq_0_iff)

lemma word_xor_eq_0: "(a :: 'a::len word) XOR b = 0 \<longleftrightarrow> a = b"
  using word_xor_cancel_right [of a b b] by simp

lemma neq_bits_0:
  "n \<le> length a \<Longrightarrow> n \<le> length b \<Longrightarrow>
   neq_bits neq a b n = 0 \<longleftrightarrow> neq = 0 \<and> take n a = take n b"
proof (induction neq a b n rule: neq_bits.induct)
  case (2 neq a b n)
  then show ?case by (cases a; cases b) (auto simp: word_or_eq_0 word_xor_eq_0)
qed simp

lemma crypto_equal_iff:
  "n \<le> length a \<Longrightarrow> n \<le> length b \<Longrightarrow> crypto_equal a b n \<longleftrightarrow> take n a = take n b"
  by (simp add: crypto_equal_def neq_bits_0)

section \<open>Byte order\<close>

definition U8TO64_LITTLE :: "bytes \<Rightarrow> u64" where
  "U8TO64_LITTLE p =
     ucast (p ! 0) OR push_bit 8 (ucast (p ! 1)) OR push_bit 16 (ucast (p ! 2)) OR
     push_bit 24 (ucast (p ! 3)) OR push_bit 32 (ucast (p ! 4)) OR push_bit 40 (ucast (p ! 5)) OR
     push_bit 48 (ucast (p ! 6)) OR push_bit 56 (ucast (p ! 7))"

definition U64TO8_LITTLE :: "u64 \<Rightarrow> bytes" where
  "U64TO8_LITTLE v = map (\<lambda>i. ucast (drop_bit (8 * i) v)) [0, 1, 2, 3, 4, 5, 6, 7]"

definition U32TO8_BIG :: "u32 \<Rightarrow> bytes" where
  "U32TO8_BIG v = map (\<lambda>i. ucast (drop_bit (8 * i) v)) [3, 2, 1, 0]"

definition U64TO8_BIG :: "u64 \<Rightarrow> bytes" where
  "U64TO8_BIG v = map (\<lambda>i. ucast (drop_bit (8 * i) v)) [7, 6, 5, 4, 3, 2, 1, 0]"

lemma length_U64TO8_LITTLE [simp]: "length (U64TO8_LITTLE v) = 8"
  by (simp add: U64TO8_LITTLE_def)

lemma length_U64TO8_BIG [simp]: "length (U64TO8_BIG v) = 8"
  by (simp add: U64TO8_BIG_def)

lemma length_U32TO8_BIG [simp]: "length (U32TO8_BIG v) = 4"
  by (simp add: U32TO8_BIG_def)

lemma U8TO64_U64TO8 [byte_simps, simp]: "U8TO64_LITTLE (U64TO8_LITTLE v) = v"
proof (rule bit_word_eqI)
  fix n assume n: "n < LENGTH(64)"
  then consider "n < 8" | "8 \<le> n" "n < 16" | "16 \<le> n" "n < 24" | "24 \<le> n" "n < 32"
    | "32 \<le> n" "n < 40" | "40 \<le> n" "n < 48" | "48 \<le> n" "n < 56" | "56 \<le> n" "n < 64"
    by fastforce
  then show "bit (U8TO64_LITTLE (U64TO8_LITTLE v)) n = bit v n"
    by cases (simp_all add: U8TO64_LITTLE_def U64TO8_LITTLE_def bit_simps less_diff_conv2)
qed

section \<open>Blocks of a message\<close>

text \<open>The full blocks of \<open>n\<close> bytes at the front of a message, and what is left over.\<close>

fun full_blocks :: "nat \<Rightarrow> 'a list \<Rightarrow> 'a list list" where
  "full_blocks n xs =
     (if 0 < n \<and> n \<le> length xs then take n xs # full_blocks n (drop n xs) else [])"

declare full_blocks.simps [simp del]

definition rest_block :: "nat \<Rightarrow> 'a list \<Rightarrow> 'a list" where
  "rest_block n xs = drop (n * (length xs div n)) xs"

lemma full_blocks_short [simp]: "length xs < n \<Longrightarrow> full_blocks n xs = []"
  by (subst full_blocks.simps) simp

lemma full_blocks_Cons:
  "0 < n \<Longrightarrow> n \<le> length xs \<Longrightarrow> full_blocks n xs = take n xs # full_blocks n (drop n xs)"
  by (subst full_blocks.simps) simp

lemma full_blocks_append:
  assumes "0 < n" "n dvd length xs"
  shows "full_blocks n (xs @ ys) = full_blocks n xs @ full_blocks n ys"
  using assms(2)
proof (induction xs rule: measure_induct_rule [of length])
  case (less xs)
  show ?case
  proof (cases "xs = []")
    case True
    then show ?thesis using assms(1) by simp
  next
    case False
    then have l: "n \<le> length xs" using less.prems by (simp add: dvd_imp_le)
    have d: "n dvd length (drop n xs)" using less.prems l by (simp add: dvd_diff_nat)
    have sh: "length (drop n xs) < length xs" using l assms(1) False by (simp add: diff_less)
    show ?thesis
      using l assms(1) less.IH [OF sh d]
      by (simp add: full_blocks_Cons [of n "xs @ ys"] full_blocks_Cons [of n xs])
  qed
qed

lemma length_rest_block: "0 < n \<Longrightarrow> length (rest_block n xs) = length xs mod n"
  by (simp add: rest_block_def minus_mult_div_eq_mod)

end
