(* ===== verification/Blake2s.thy ===== *)
theory Blake2s
  imports Crypto
begin

text \<open>
  \<^verbatim>\<open>wireguard/crypto/refc/blake2s.c\<close>: the streaming BLAKE2s hash. The context is the C
  struct (\<open>b2s_b\<close> the input buffer, \<open>b2s_h\<close> the chained state, \<open>b2s_t0\<close> and \<open>b2s_t1\<close> the byte
  count, \<open>b2s_c\<close> the fill level). \<open>blake2s_update\<close> takes one byte per step of its loop, as the
  code does. The reference is the block-wise function of RFC 7693 (section 3.3), which sees the
  padded message as a whole; the two agree for every key, every message and every way of
  cutting the message into calls of update.
\<close>

section \<open>The code\<close>

record blake2s_ctx =
  b2s_b :: bytes
  b2s_h :: "u32 list"
  b2s_t0 :: u32
  b2s_t1 :: u32
  b2s_c :: nat
  b2s_outlen :: nat

definition ROTR32 :: "u32 \<Rightarrow> nat \<Rightarrow> u32" where
  "ROTR32 x y = drop_bit y x XOR push_bit (32 - y) x"

definition B2S_G :: "nat \<Rightarrow> nat \<Rightarrow> nat \<Rightarrow> nat \<Rightarrow> u32 \<Rightarrow> u32 \<Rightarrow> u32 list \<Rightarrow> u32 list" where
  "B2S_G a b c d x y v =
     (let v = v[a := v ! a + v ! b + x];
          v = v[d := ROTR32 (v ! d XOR v ! a) 16];
          v = v[c := v ! c + v ! d];
          v = v[b := ROTR32 (v ! b XOR v ! c) 12];
          v = v[a := v ! a + v ! b + y];
          v = v[d := ROTR32 (v ! d XOR v ! a) 8];
          v = v[c := v ! c + v ! d];
          v = v[b := ROTR32 (v ! b XOR v ! c) 7]
      in v)"

definition blake2s_iv :: "u32 list" where
  "blake2s_iv = [0x6A09E667, 0xBB67AE85, 0x3C6EF372, 0xA54FF53A,
                 0x510E527F, 0x9B05688C, 0x1F83D9AB, 0x5BE0CD19]"

definition sigma :: "nat list list" where
  "sigma = [
     [0, 1, 2, 3, 4, 5, 6, 7, 8, 9, 10, 11, 12, 13, 14, 15],
     [14, 10, 4, 8, 9, 15, 13, 6, 1, 12, 0, 2, 11, 7, 5, 3],
     [11, 8, 12, 0, 5, 2, 15, 13, 10, 14, 3, 6, 7, 1, 9, 4],
     [7, 9, 3, 1, 13, 12, 11, 14, 2, 6, 5, 10, 4, 0, 15, 8],
     [9, 0, 5, 7, 2, 4, 10, 15, 14, 1, 11, 12, 6, 8, 3, 13],
     [2, 12, 6, 10, 0, 11, 8, 3, 4, 13, 7, 5, 15, 14, 1, 9],
     [12, 5, 1, 15, 14, 13, 4, 10, 0, 7, 6, 3, 9, 2, 8, 11],
     [13, 11, 7, 14, 12, 1, 3, 9, 5, 0, 15, 4, 8, 6, 2, 10],
     [6, 15, 14, 9, 11, 3, 0, 8, 12, 2, 13, 7, 1, 4, 10, 5],
     [10, 2, 8, 4, 7, 6, 1, 5, 15, 11, 9, 14, 3, 12, 13, 0]]"

definition b2s_round :: "u32 list \<Rightarrow> nat list \<Rightarrow> u32 list \<Rightarrow> u32 list" where
  "b2s_round m s v =
     (let v = B2S_G 0 4 8 12 (m ! (s ! 0)) (m ! (s ! 1)) v;
          v = B2S_G 1 5 9 13 (m ! (s ! 2)) (m ! (s ! 3)) v;
          v = B2S_G 2 6 10 14 (m ! (s ! 4)) (m ! (s ! 5)) v;
          v = B2S_G 3 7 11 15 (m ! (s ! 6)) (m ! (s ! 7)) v;
          v = B2S_G 0 5 10 15 (m ! (s ! 8)) (m ! (s ! 9)) v;
          v = B2S_G 1 6 11 12 (m ! (s ! 10)) (m ! (s ! 11)) v;
          v = B2S_G 2 7 8 13 (m ! (s ! 12)) (m ! (s ! 13)) v;
          v = B2S_G 3 4 9 14 (m ! (s ! 14)) (m ! (s ! 15)) v
      in v)"

definition blake2s_compress :: "blake2s_ctx \<Rightarrow> bool \<Rightarrow> blake2s_ctx" where
  "blake2s_compress ctx is_last =
     (let v = b2s_h ctx @ blake2s_iv;
          v = v[12 := v ! 12 XOR b2s_t0 ctx];
          v = v[13 := v ! 13 XOR b2s_t1 ctx];
          v = (if is_last then v[14 := NOT (v ! 14)] else v);
          m = map (\<lambda>i. le32_of (drop (4 * i) (b2s_b ctx))) [0..<16];
          v = fold (b2s_round m) sigma v
      in ctx\<lparr>b2s_h := map (\<lambda>i. b2s_h ctx ! i XOR (v ! i XOR v ! (i + 8))) [0..<8]\<rparr>)"

definition add_count :: "blake2s_ctx \<Rightarrow> blake2s_ctx" where
  "add_count ctx =
     (let t0 = b2s_t0 ctx + of_nat (b2s_c ctx)
      in ctx\<lparr>b2s_t0 := t0, b2s_t1 := (if t0 < of_nat (b2s_c ctx) then b2s_t1 ctx + 1 else b2s_t1 ctx)\<rparr>)"

fun blake2s_update :: "blake2s_ctx \<Rightarrow> bytes \<Rightarrow> blake2s_ctx" where
  "blake2s_update ctx [] = ctx"
| "blake2s_update ctx (x # xs) =
     (let ctx = (if b2s_c ctx = 64 then (blake2s_compress (add_count ctx) False)\<lparr>b2s_c := 0\<rparr> else ctx)
      in blake2s_update (ctx\<lparr>b2s_b := (b2s_b ctx)[b2s_c ctx := x], b2s_c := b2s_c ctx + 1\<rparr>) xs)"

definition blake2s_init :: "blake2s_ctx \<Rightarrow> nat \<Rightarrow> bytes \<Rightarrow> blake2s_ctx option" where
  "blake2s_init ctx outlen key =
     (let keylen = length key in
      if outlen = 0 \<or> outlen > 32 \<or> keylen > 32 then None
      else let ctx = ctx\<lparr>b2s_h := blake2s_iv[0 := blake2s_iv ! 0 XOR
                             (0x01010000 XOR push_bit 8 (of_nat keylen) XOR of_nat outlen)],
                         b2s_t0 := 0, b2s_t1 := 0, b2s_c := 0, b2s_outlen := outlen,
                         b2s_b := put_seg (b2s_b ctx) keylen (replicate (64 - keylen) 0)\<rparr>
           in Some (if keylen > 0 then (blake2s_update ctx key)\<lparr>b2s_c := 64\<rparr> else ctx))"

definition blake2s_final :: "blake2s_ctx \<Rightarrow> blake2s_ctx \<times> bytes" where
  "blake2s_final ctx =
     (let ctx = add_count ctx;
          ctx = ctx\<lparr>b2s_b := put_seg (b2s_b ctx) (b2s_c ctx) (replicate (64 - b2s_c ctx) 0), b2s_c := 64\<rparr>;
          ctx = blake2s_compress ctx True
      in (ctx, map (\<lambda>i. ucast (drop_bit (8 * (i mod 4)) (b2s_h ctx ! (i div 4)))) [0..<b2s_outlen ctx]))"

text \<open>The convenience function hashes in a context on its stack: \<open>fresh\<close> is what it holds there.\<close>

definition blake2s :: "blake2s_ctx \<Rightarrow> nat \<Rightarrow> bytes \<Rightarrow> bytes \<Rightarrow> bytes option" where
  "blake2s fresh outlen key inp =
     (case blake2s_init fresh outlen key of None \<Rightarrow> None
      | Some ctx \<Rightarrow> Some (snd (blake2s_final (blake2s_update ctx inp))))"

definition b2s_ctx0 :: blake2s_ctx where
  "b2s_ctx0 = \<lparr>b2s_b = replicate 64 0, b2s_h = replicate 8 0, b2s_t0 = 0, b2s_t1 = 0, b2s_c = 0, b2s_outlen = 0\<rparr>"

section \<open>The reference\<close>

text \<open>
  RFC 7693, section 3.2: the compression function on a chained state, a block of 64 bytes, the
  64-bit offset and the final flag; section 3.3: the padded data consumed block by block, where
  the last block, and only it, may be short and is compressed with the final flag.
\<close>

definition rfc_F :: "u32 list \<Rightarrow> bytes \<Rightarrow> u64 \<Rightarrow> bool \<Rightarrow> u32 list" where
  "rfc_F h blk off f =
     (let m = map (\<lambda>i. le32_of (drop (4 * i) blk)) [0..<16];
          iv = blake2s_iv[4 := blake2s_iv ! 4 XOR ucast off, 5 := blake2s_iv ! 5 XOR ucast (drop_bit 32 off),
                          6 := (if f then NOT (blake2s_iv ! 6) else blake2s_iv ! 6)];
          v = fold (b2s_round m) sigma (h @ iv)
      in map (\<lambda>i. h ! i XOR v ! i XOR v ! (i + 8)) [0..<8])"

function rfc_hash :: "u32 list \<Rightarrow> u64 \<Rightarrow> bytes \<Rightarrow> u32 list" where
  "rfc_hash h off d =
     (if length d \<le> 64 then rfc_F h (d @ replicate (64 - length d) 0) (off + of_nat (length d)) True
      else rfc_hash (rfc_F h (take 64 d) (off + 64) False) (off + 64) (drop 64 d))"
  by auto
termination by (relation "measure (\<lambda>(h, off, d). length d)") auto

declare rfc_hash.simps [simp del]

definition rfc_param :: "nat \<Rightarrow> nat \<Rightarrow> u32 list" where
  "rfc_param outlen keylen =
     blake2s_iv[0 := blake2s_iv ! 0 XOR 0x01010000 XOR push_bit 8 (of_nat keylen) XOR of_nat outlen]"

definition rfc_blake2s :: "nat \<Rightarrow> bytes \<Rightarrow> bytes \<Rightarrow> bytes" where
  "rfc_blake2s outlen key msg =
     (let d = (if key = [] then [] else key @ replicate (64 - length key) 0) @ msg
      in take outlen (concat (map le32_bytes (rfc_hash (rfc_param outlen (length key)) 0 d))))"

section \<open>Streaming equals the reference\<close>

text \<open>A context stands for the data it has taken in: the chained state covers \<open>off\<close> bytes, and
  the buffer holds the bytes not compressed yet.\<close>

definition b2s_pending :: "blake2s_ctx \<Rightarrow> bytes" where
  "b2s_pending ctx = take (b2s_c ctx) (b2s_b ctx)"

definition b2s_at :: "blake2s_ctx \<Rightarrow> u64 \<Rightarrow> bool" where
  "b2s_at ctx off \<longleftrightarrow> length (b2s_b ctx) = 64 \<and> length (b2s_h ctx) = 8 \<and> b2s_c ctx \<le> 64 \<and>
     b2s_t0 ctx = ucast off \<and> b2s_t1 ctx = ucast (drop_bit 32 off)"

lemma length_rfc_F [simp]: "length (rfc_F h blk off f) = 8"
  by (simp add: rfc_F_def Let_def)

lemma length_rfc_hash [simp]: "length (rfc_hash h off d) = 8"
  by (induction h off d rule: rfc_hash.induct) (subst rfc_hash.simps, simp)

lemma unat_u64_less: "unat (x :: u64) < 18446744073709551616"
proof -
  have "unat x < 2 ^ LENGTH(64)" by (rule unsigned_less)
  then show ?thesis by simp
qed

lemma unat_ucast_u64_u32: "unat (ucast (x :: u64) :: u32) = unat x mod 4294967296"
  by (simp add: unsigned_ucast_eq take_bit_eq_mod)

lemma unat_hi_u64_u32: "unat (ucast (drop_bit 32 (x :: u64)) :: u32) = unat x div 4294967296"
proof -
  have "unat (drop_bit 32 x) = unat x div 4294967296"
    by (simp only: unat_drop_bit_eq) (simp add: drop_bit_eq_div)
  then show ?thesis
    using unat_u64_less [of x] by (simp only: unat_ucast_u64_u32) simp
qed

lemma u64_count:
  assumes "c \<le> 64"
  shows "(ucast (off + of_nat c :: u64) :: u32) = ucast off + of_nat c"
    and "(ucast (drop_bit 32 (off + of_nat c :: u64)) :: u32) =
         (if ucast off + of_nat c < (of_nat c :: u32) then ucast (drop_bit 32 off) + 1
          else ucast (drop_bit 32 off))"
proof -
  let ?n = "unat off" and ?m = "4294967296 :: nat"
  have uc: "unat (off + of_nat c) = (?n + c) mod (?m * ?m)"
    using assms by (simp add: unat_word_ariths unat_of_nat take_bit_nat_eq_self)
  have c32: "unat (of_nat c :: u32) = c" using assms by (simp add: unat_of_nat_u32)
  have lo: "unat (ucast off + of_nat c :: u32) = (?n + c) mod ?m"
    using c32 by (simp add: unat_word_ariths unat_ucast_u64_u32 mod_simps)
  show "(ucast (off + of_nat c :: u64) :: u32) = ucast off + of_nat c"
    using mod_mod_cancel [of ?m "?m * ?m" "?n + c"]
    by (simp add: word_unat_eq_iff unat_ucast_u64_u32 lo uc)
  have n: "?n < ?m * ?m" using unat_u64_less [of off] by simp
  have lt: "(?n + c) mod ?m < c \<longleftrightarrow> ?m \<le> ?n mod ?m + c"
  proof -
    have e: "(?n + c) mod ?m = (?n mod ?m + c) mod ?m" by (simp add: mod_simps)
    have r: "?n mod ?m < ?m" by simp
    show ?thesis
    proof (cases "?m \<le> ?n mod ?m + c")
      case True
      then have "(?n mod ?m + c) mod ?m = ?n mod ?m + c - ?m"
        using r assms by (simp add: le_mod_geq)
      then show ?thesis using e True r by linarith
    next
      case False
      then show ?thesis using e by simp
    qed
  qed
  have dv: "(?n + c) div ?m = ?n div ?m + (if ?m \<le> ?n mod ?m + c then 1 else 0)"
  proof -
    have "(?n + c) div ?m = ?n div ?m + (?n mod ?m + c) div ?m"
      using assms by (simp add: div_add1_eq [of ?n c])
    moreover have "(?n mod ?m + c) div ?m = (if ?m \<le> ?n mod ?m + c then 1 else 0)"
      using assms mod_less_divisor [of ?m ?n] by (auto simp: le_div_geq)
    ultimately show ?thesis by simp
  qed
  have hi: "(?n + c) mod (?m * ?m) div ?m = (?n + c) div ?m mod ?m"
    by (simp only: mod_mult2_eq)
  have ov: "?n div ?m < ?m" using n by (simp add: less_mult_imp_div_less)
  have L: "unat (ucast (drop_bit 32 (off + of_nat c :: u64)) :: u32) = (?n + c) div ?m mod ?m"
    by (simp only: unat_hi_u64_u32 uc hi)
  have cmp: "ucast off + of_nat c < (of_nat c :: u32) \<longleftrightarrow> (?n + c) mod ?m < c"
    by (simp only: word_less_nat_alt lo c32)
  have hi0: "unat (ucast (drop_bit 32 off) :: u32) = ?n div ?m" by (rule unat_hi_u64_u32)
  have hi1: "unat (ucast (drop_bit 32 off) + 1 :: u32) = (?n div ?m + 1) mod ?m"
    by (simp add: unat_word_ariths hi0)
  show "(ucast (drop_bit 32 (off + of_nat c :: u64)) :: u32) =
         (if ucast off + of_nat c < (of_nat c :: u32) then ucast (drop_bit 32 off) + 1
          else ucast (drop_bit 32 off))"
    unfolding cmp word_unat_eq_iff L if_distrib [of unat] hi0 hi1
    using lt dv ov by simp
qed


lemma compress_rfc_F:
  assumes "b2s_at ctx off"
  shows "b2s_h (blake2s_compress ctx f) = rfc_F (b2s_h ctx) (b2s_b ctx) off f"
proof -
  have l: "length (b2s_h ctx) = 8" using assms by (simp add: b2s_at_def)
  have iv: "length blake2s_iv = 8" by (simp add: blake2s_iv_def)
  define v where "v = b2s_h ctx @ blake2s_iv"
  have nth: "v ! 12 = blake2s_iv ! 4" "v ! 13 = blake2s_iv ! 5" "v ! 14 = blake2s_iv ! 6"
    using l by (simp_all add: v_def nth_append)
  have "(let v = v[12 := v ! 12 XOR b2s_t0 ctx]; v = v[13 := v ! 13 XOR b2s_t1 ctx]
         in if f then v[14 := NOT (v ! 14)] else v) =
        b2s_h ctx @ blake2s_iv[4 := blake2s_iv ! 4 XOR ucast off, 5 := blake2s_iv ! 5 XOR ucast (drop_bit 32 off),
                          6 := (if f then NOT (blake2s_iv ! 6) else blake2s_iv ! 6)]"
    using assms l iv nth by (simp add: b2s_at_def v_def list_update_append nth_append Let_def)
      (simp add: blake2s_iv_def)
  then show ?thesis
    by (simp add: blake2s_compress_def rfc_F_def Let_def v_def [symmetric] xor.assoc)
qed

lemma blake2s_update_rfc:
  assumes "b2s_at ctx off"
  shows "\<exists>off'. b2s_at (blake2s_update ctx xs) off' \<and>
    b2s_outlen (blake2s_update ctx xs) = b2s_outlen ctx \<and>
    (\<forall>rest. rfc_hash (b2s_h (blake2s_update ctx xs)) off' (b2s_pending (blake2s_update ctx xs) @ rest) =
            rfc_hash (b2s_h ctx) off (b2s_pending ctx @ xs @ rest))"
  using assms
proof (induction ctx xs arbitrary: off rule: blake2s_update.induct)
  case (1 ctx)
  then show ?case by auto
next
  case (2 ctx x xs)
  define c1 where
    "c1 = (if b2s_c ctx = 64 then (blake2s_compress (add_count ctx) False)\<lparr>b2s_c := 0\<rparr> else ctx)"
  define c2 where "c2 = c1\<lparr>b2s_b := (b2s_b c1)[b2s_c c1 := x], b2s_c := b2s_c c1 + 1\<rparr>"
  define off1 where "off1 = (if b2s_c ctx = 64 then off + 64 else off)"
  have up: "blake2s_update ctx (x # xs) = blake2s_update c2 xs"
    by (simp add: c2_def c1_def Let_def)
  have ac: "b2s_at (add_count ctx) (off + of_nat (b2s_c ctx))"
    using 2(2) u64_count [of "b2s_c ctx" off] by (auto simp: b2s_at_def add_count_def Let_def)
  have h: "b2s_h (blake2s_compress (add_count ctx) False) = rfc_F (b2s_h ctx) (b2s_b ctx) (off + of_nat (b2s_c ctx)) False"
    using compress_rfc_F [OF ac] by (simp add: add_count_def Let_def)
  have at1: "b2s_at c1 off1" "b2s_c c1 < 64"
    using 2(2) ac h by (auto simp: c1_def off1_def b2s_at_def blake2s_compress_def Let_def)
  have same1: "rfc_hash (b2s_h c1) off1 (b2s_pending c1 @ x # ys) =
               rfc_hash (b2s_h ctx) off (b2s_pending ctx @ x # ys)" for ys
  proof (cases "b2s_c ctx = 64")
    case True
    have l: "b2s_pending ctx = b2s_b ctx" "length (b2s_b ctx) = 64"
      using 2(2) True by (auto simp: b2s_pending_def b2s_at_def)
    show ?thesis
      using True h l
      by (subst (2) rfc_hash.simps) (simp add: c1_def off1_def b2s_pending_def)
  next
    case False
    then show ?thesis by (simp add: c1_def off1_def)
  qed
  have at2: "b2s_at c2 off1" using at1 by (auto simp: c2_def b2s_at_def)
  have pend2: "b2s_pending c2 = b2s_pending c1 @ [x]"
    using at1 by (simp add: c2_def b2s_pending_def b2s_at_def take_Suc_conv_app_nth)
  have h2: "b2s_h c2 = b2s_h c1" "b2s_outlen c2 = b2s_outlen ctx"
    by (simp_all add: c2_def c1_def blake2s_compress_def add_count_def Let_def)
  obtain off' where o: "b2s_at (blake2s_update c2 xs) off'"
    "b2s_outlen (blake2s_update c2 xs) = b2s_outlen c2"
    "\<And>rest. rfc_hash (b2s_h (blake2s_update c2 xs)) off' (b2s_pending (blake2s_update c2 xs) @ rest) =
       rfc_hash (b2s_h c2) off1 (b2s_pending c2 @ xs @ rest)"
    using 2(1) [OF c1_def, folded c2_def, OF at2] by auto
  show ?case
    unfolding up using o pend2 h2 same1 by auto
qed

lemma take_le32s:
  "length hs = 8 \<Longrightarrow> n \<le> 32 \<Longrightarrow>
   map (\<lambda>i. ucast (drop_bit (8 * (i mod 4)) (hs ! (i div 4)))) [0..<n] = take n (concat (map le32_bytes hs))"
proof -
  assume l: "length hs = 8" and n: "n \<le> 32"
  let ?f = "\<lambda>i. ucast (drop_bit (8 * (i mod 4)) (hs ! (i div 4))) :: u8"
  obtain a b c d e f g k where hs: "hs = [a, b, c, d, e, f, g, k]"
    using l by (auto simp: length_Suc_conv numeral_eq_Suc)
  have "map ?f [0..<32] = concat (map le32_bytes hs)"
    by (simp add: hs upt_conv_Cons le32_bytes_def)
  moreover have "map ?f [0..<n] = take n (map ?f [0..<32])"
    using n by (simp add: take_map)
  ultimately show ?thesis by simp
qed


lemma blake2s_update_append: "blake2s_update ctx (xs @ ys) = blake2s_update (blake2s_update ctx xs) ys"
  by (induction ctx xs rule: blake2s_update.induct) (simp_all add: Let_def)

lemma blake2s_update_chunks: "fold (\<lambda>x c. blake2s_update c x) chunks ctx = blake2s_update ctx (concat chunks)"
  by (induction chunks arbitrary: ctx) (simp_all add: blake2s_update_append)

lemma blake2s_final_rfc:
  assumes "b2s_at ctx off" "b2s_outlen ctx \<le> 32"
  shows "snd (blake2s_final ctx) =
    take (b2s_outlen ctx) (concat (map le32_bytes (rfc_hash (b2s_h ctx) off (b2s_pending ctx))))"
proof -
  let ?c = "(add_count ctx)\<lparr>b2s_b := put_seg (b2s_b ctx) (b2s_c ctx) (replicate (64 - b2s_c ctx) 0), b2s_c := 64\<rparr>"
  have at: "b2s_at ?c (off + of_nat (b2s_c ctx))"
    using assms(1) u64_count [of "b2s_c ctx" off] by (auto simp: b2s_at_def add_count_def Let_def)
  have buf: "b2s_b ?c = b2s_pending ctx @ replicate (64 - length (b2s_pending ctx)) 0"
    using assms(1) by (simp add: b2s_at_def b2s_pending_def put_seg_def)
  have lp: "length (b2s_pending ctx) = b2s_c ctx"
    using assms(1) by (simp add: b2s_at_def b2s_pending_def)
  have "b2s_h (blake2s_compress ?c True) = rfc_hash (b2s_h ctx) off (b2s_pending ctx)"
    using compress_rfc_F [OF at] buf lp assms(1)
    by (subst rfc_hash.simps) (simp add: b2s_at_def add_count_def Let_def)
  moreover have "b2s_outlen (blake2s_compress ?c True) = b2s_outlen ctx"
    by (simp add: blake2s_compress_def add_count_def Let_def)
  ultimately show ?thesis
    using assms(2) take_le32s [of "rfc_hash (b2s_h ctx) off (b2s_pending ctx)" "b2s_outlen ctx"]
    by (simp add: blake2s_final_def Let_def) (simp add: add_count_def Let_def)
qed

text \<open>A key is taken in as a first block of its own, padded with zeros.\<close>

lemma blake2s_update_short:
  "b2s_c ctx + length xs \<le> 64 \<Longrightarrow> length (b2s_b ctx) = 64 \<Longrightarrow>
   blake2s_update ctx xs = ctx\<lparr>b2s_b := put_seg (b2s_b ctx) (b2s_c ctx) xs, b2s_c := b2s_c ctx + length xs\<rparr>"
proof (induction ctx xs rule: blake2s_update.induct)
  case (1 ctx)
  then show ?case by (simp add: put_seg_def)
next
  case (2 ctx x xs)
  have "put_seg ((b2s_b ctx)[b2s_c ctx := x]) (Suc (b2s_c ctx)) xs = put_seg (b2s_b ctx) (b2s_c ctx) (x # xs)"
    using 2(2,3) by (simp add: put_seg_def take_Suc_conv_app_nth)
  then show ?case using 2 by (simp add: Let_def)
qed

lemma blake2s_init_rfc:
  assumes "length (b2s_b fresh) = 64" "0 < outlen" "outlen \<le> 32" "length key \<le> 32"
  shows "\<exists>ctx. blake2s_init fresh outlen key = Some ctx \<and> b2s_at ctx 0 \<and> b2s_outlen ctx = outlen \<and>
    b2s_h ctx = rfc_param outlen (length key) \<and>
    b2s_pending ctx = (if key = [] then [] else key @ replicate (64 - length key) 0)"
proof -
  let ?n = "length key"
  define c0 where "c0 = fresh\<lparr>b2s_h := rfc_param outlen ?n, b2s_t0 := 0, b2s_t1 := 0, b2s_c := 0,
    b2s_outlen := outlen, b2s_b := put_seg (b2s_b fresh) ?n (replicate (64 - ?n) 0)\<rparr>"
  have i: "blake2s_init fresh outlen key = Some (if ?n > 0 then (blake2s_update c0 key)\<lparr>b2s_c := 64\<rparr> else c0)"
    using assms(2-4) by (simp add: blake2s_init_def c0_def rfc_param_def Let_def xor.assoc)
  have u: "blake2s_update c0 key = c0\<lparr>b2s_b := key @ replicate (64 - ?n) 0, b2s_c := ?n\<rparr>"
    using assms by (subst blake2s_update_short) (auto simp: c0_def put_seg_def)
  have "length (rfc_param outlen ?n) = 8" by (simp add: rfc_param_def blake2s_iv_def)
  then show ?thesis
    using assms(1,4) i u by (auto simp: b2s_at_def b2s_pending_def c0_def)
qed

lemma blake2s_chunks:
  assumes "length (b2s_b fresh) = 64" "0 < outlen" "outlen \<le> 32" "length key \<le> 32"
  shows "\<exists>ctx. blake2s_init fresh outlen key = Some ctx \<and>
    snd (blake2s_final (fold (\<lambda>x c. blake2s_update c x) chunks ctx)) = rfc_blake2s outlen key (concat chunks)"
proof -
  obtain ctx where c: "blake2s_init fresh outlen key = Some ctx" "b2s_at ctx 0" "b2s_outlen ctx = outlen"
    "b2s_h ctx = rfc_param outlen (length key)"
    "b2s_pending ctx = (if key = [] then [] else key @ replicate (64 - length key) 0)"
    using blake2s_init_rfc [OF assms] by blast
  let ?d = "blake2s_update ctx (concat chunks)"
  obtain off' where o: "b2s_at ?d off'" "b2s_outlen ?d = outlen"
    "rfc_hash (b2s_h ?d) off' (b2s_pending ?d) = rfc_hash (b2s_h ctx) 0 (b2s_pending ctx @ concat chunks)"
    using blake2s_update_rfc [OF c(2), of "concat chunks"] c(3) append_Nil2 by metis
  have "snd (blake2s_final ?d) = rfc_blake2s outlen key (concat chunks)"
    using blake2s_final_rfc [OF o(1)] o(2,3) assms(3) c(4,5) by (simp add: rfc_blake2s_def)
  then show ?thesis using c(1) by (simp add: blake2s_update_chunks)
qed

lemma blake2s_rfc:
  assumes "length (b2s_b fresh) = 64" "0 < outlen" "outlen \<le> 32" "length key \<le> 32"
  shows "blake2s fresh outlen key inp = Some (rfc_blake2s outlen key inp)"
  using blake2s_chunks [OF assms, of "[inp]"] by (auto simp: blake2s_def)

lemma length_rfc_blake2s [simp]: "outlen \<le> 32 \<Longrightarrow> length (rfc_blake2s outlen key msg) = outlen"
  by (simp add: rfc_blake2s_def Let_def length_concat_const [of _ _ 4])

section \<open>Properties\<close>

text \<open>Property C19. However a message is cut into calls of update, the digest is that of the block-wise
  reference of RFC 7693 on the whole message, keyed or not; and hashing fails exactly when
  the digest size is not 1 to 32 or the key is longer than 32 bytes.\<close>

theorem blake2s_streaming:
  assumes "length (b2s_b fresh) = 64"
  shows "(0 < outlen \<and> outlen \<le> 32 \<and> length key \<le> 32 \<longrightarrow>
      (\<exists>ctx. blake2s_init fresh outlen key = Some ctx \<and>
        snd (blake2s_final (fold (\<lambda>x c. blake2s_update c x) chunks ctx)) =
          rfc_blake2s outlen key (concat chunks)) \<and>
      blake2s fresh outlen key (concat chunks) = Some (rfc_blake2s outlen key (concat chunks))) \<and>
    (blake2s fresh outlen key (concat chunks) = None \<longleftrightarrow> outlen = 0 \<or> 32 < outlen \<or> 32 < length key)"
proof (cases "0 < outlen \<and> outlen \<le> 32 \<and> length key \<le> 32")
  case True
  then show ?thesis using blake2s_chunks [OF assms] blake2s_rfc [OF assms] by auto
next
  case False
  then show ?thesis by (auto simp: blake2s_def blake2s_init_def)
qed

theorem blake2s_streaming_witness:
  "blake2s b2s_ctx0 32 [1, 2, 3] ([7] @ replicate 70 9) = Some (rfc_blake2s 32 [1, 2, 3] (7 # replicate 70 9))"
  using blake2s_streaming [of b2s_ctx0 32 "[1, 2, 3]" "[[7], replicate 70 9]"] by (simp add: b2s_ctx0_def)

end
