(* ===== verification/Chacha20.thy ===== *)
theory Chacha20
  imports Crypto
begin

text \<open>
  \<^verbatim>\<open>wireguard/crypto/refc/chacha20.c\<close>: the ChaCha20 stream cipher with WireGuard's 64-bit
  nonce, and HChaCha20. The context is the sixteen words of \<^verbatim>\<open>chacha20_ctx\<close>. The lemmas show
  that the block loop is a pointwise exclusive-or with a key stream that depends on the
  context alone, so that applying it twice from the same context gives the input back.
\<close>

section \<open>The code\<close>

type_synonym chacha20_ctx = "u32 list"

definition CHACHA20_CONSTANTS :: "u32 list" where
  "CHACHA20_CONSTANTS = [0x61707865, 0x3320646e, 0x79622d32, 0x6b206574]"

definition ROTL32 :: "u32 \<Rightarrow> nat \<Rightarrow> u32" where
  "ROTL32 v n = push_bit n v OR drop_bit (32 - n) v"

definition QUARTERROUND :: "nat \<Rightarrow> nat \<Rightarrow> nat \<Rightarrow> nat \<Rightarrow> u32 list \<Rightarrow> u32 list" where
  "QUARTERROUND a b c d x =
     (let x = x[a := x ! a + x ! b]; x = x[d := x ! d XOR x ! a]; x = x[d := ROTL32 (x ! d) 16];
          x = x[c := x ! c + x ! d]; x = x[b := x ! b XOR x ! c]; x = x[b := ROTL32 (x ! b) 12];
          x = x[a := x ! a + x ! b]; x = x[d := x ! d XOR x ! a]; x = x[d := ROTL32 (x ! d) 8];
          x = x[c := x ! c + x ! d]; x = x[b := x ! b XOR x ! c]; x = x[b := ROTL32 (x ! b) 7]
      in x)"

definition INNER_BLOCK :: "u32 list \<Rightarrow> u32 list" where
  "INNER_BLOCK block =
     (let block = QUARTERROUND 0 4 8 12 block; block = QUARTERROUND 1 5 9 13 block;
          block = QUARTERROUND 2 6 10 14 block; block = QUARTERROUND 3 7 11 15 block;
          block = QUARTERROUND 0 5 10 15 block; block = QUARTERROUND 1 6 11 12 block;
          block = QUARTERROUND 2 7 8 13 block; block = QUARTERROUND 3 4 9 14 block
      in block)"

definition TWENTY_ROUNDS :: "u32 list \<Rightarrow> u32 list" where
  "TWENTY_ROUNDS x = (INNER_BLOCK ^^ 10) x"

definition chacha20_block :: "chacha20_ctx \<Rightarrow> bytes" where
  "chacha20_block ctx =
     (let w = TWENTY_ROUNDS ctx in concat (map (\<lambda>i. le32_bytes (w ! i + ctx ! i)) [0..<16]))"

function chacha20 :: "chacha20_ctx \<Rightarrow> bytes \<Rightarrow> chacha20_ctx \<times> bytes" where
  "chacha20 ctx inp =
     (if inp = [] then (ctx, [])
      else let output = chacha20_block ctx; ctx = ctx[12 := ctx ! 12 + 1] in
        if length inp \<le> 64 then (ctx, map2 (XOR) inp output)
        else let (ctx', out) = chacha20 ctx (drop 64 inp)
             in (ctx', map2 (XOR) (take 64 inp) output @ out))"
  by auto
termination by (relation "measure (\<lambda>(ctx, inp). length inp)") auto

declare chacha20.simps [simp del]

definition chacha20_init :: "bytes \<Rightarrow> u64 \<Rightarrow> chacha20_ctx" where
  "chacha20_init key nonce =
     CHACHA20_CONSTANTS @ map (\<lambda>i. le32_of (drop (4 * i) key)) [0..<8] @
     [0, 0, ucast (nonce AND 0xFFFFFFFF), ucast (drop_bit 32 nonce)]"

definition hchacha20 :: "bytes \<Rightarrow> bytes \<Rightarrow> bytes" where
  "hchacha20 nonce key =
     (let s = TWENTY_ROUNDS (CHACHA20_CONSTANTS @ map (\<lambda>i. le32_of (drop (4 * i) key)) [0..<8] @
                             map (\<lambda>i. le32_of (drop (4 * i) nonce)) [0..<4])
      in concat (map (\<lambda>i. le32_bytes (s ! i)) [0, 1, 2, 3, 12, 13, 14, 15]))"

section \<open>The key stream\<close>

text \<open>RFC 8439, section 2.4: the key stream is the concatenation of the blocks for the
  successive values of the block counter, word 12.\<close>

definition at_counter :: "chacha20_ctx \<Rightarrow> nat \<Rightarrow> chacha20_ctx" where
  "at_counter ctx n = ctx[12 := ctx ! 12 + of_nat n]"

definition keystream :: "chacha20_ctx \<Rightarrow> nat \<Rightarrow> u8" where
  "keystream ctx i = chacha20_block (at_counter ctx (i div 64)) ! (i mod 64)"

lemma length_chacha20_block [simp]: "length (chacha20_block ctx) = 64"
  by (simp add: chacha20_block_def Let_def length_concat_const [of _ _ 4])

lemma length_hchacha20 [simp]: "length (hchacha20 nonce key) = 32"
  by (simp add: hchacha20_def Let_def)

lemma length_chacha20_init [simp]: "length (chacha20_init key nonce) = 16"
  by (simp add: chacha20_init_def CHACHA20_CONSTANTS_def)

lemma at_counter_0 [simp]: "at_counter ctx 0 = ctx"
  by (simp add: at_counter_def)

lemma at_counter_Suc:
  "length ctx = 16 \<Longrightarrow> at_counter (ctx[12 := ctx ! 12 + 1]) n = at_counter ctx (Suc n)"
  by (simp add: at_counter_def algebra_simps)

lemma keystream_next:
  assumes "length ctx = 16" "64 \<le> i"
  shows "keystream (ctx[12 := ctx ! 12 + 1]) (i - 64) = keystream ctx i"
proof -
  have "i div 64 = Suc ((i - 64) div 64)" "i mod 64 = (i - 64) mod 64"
    using assms(2) by (simp_all add: le_div_geq le_mod_geq)
  then show ?thesis using assms(1) by (simp add: keystream_def at_counter_Suc)
qed

lemma keystream_first: "i < 64 \<Longrightarrow> keystream ctx i = chacha20_block ctx ! i"
  by (simp add: keystream_def)

lemma chacha20_keystream:
  assumes "length ctx = 16"
  shows "snd (chacha20 ctx inp) = map (\<lambda>i. inp ! i XOR keystream ctx i) [0..<length inp] \<and>
    fst (chacha20 ctx inp) = at_counter ctx ((length inp + 63) div 64)"
  using assms
proof (induction ctx inp rule: chacha20.induct)
  case (1 ctx inp)
  let ?ctx = "ctx[12 := ctx ! 12 + 1]"
  consider "inp = []" | "inp \<noteq> []" "length inp \<le> 64" | "64 < length inp" by fastforce
  then show ?case
  proof cases
    case 1
    then show ?thesis by (simp add: chacha20.simps)
  next
    case 2
    then have d: "(length inp + 63) div 64 = Suc 0"
      by (cases inp) (auto simp: div_nat_eqI)
    have "map2 (XOR) inp (chacha20_block ctx) = map (\<lambda>i. inp ! i XOR keystream ctx i) [0..<length inp]"
      using 2 by (intro nth_equalityI) (simp_all add: keystream_first)
    then show ?thesis using 2 d by (subst (1 2) chacha20.simps) (simp add: at_counter_def)
  next
    case 3
    then have ne: "inp \<noteq> []" by auto
    have ih: "snd (chacha20 ?ctx (drop 64 inp)) =
        map (\<lambda>i. drop 64 inp ! i XOR keystream ?ctx i) [0..<length inp - 64]"
      "fst (chacha20 ?ctx (drop 64 inp)) = at_counter ?ctx ((length inp - 64 + 63) div 64)"
      using "1.IH" [of "chacha20_block ctx" ?ctx] 3 ne "1.prems" by auto
    have d: "(length inp + 63) div 64 = Suc ((length inp - 64 + 63) div 64)"
      using 3 by (simp add: le_div_geq)
    have "map2 (XOR) (take 64 inp) (chacha20_block ctx) @ snd (chacha20 ?ctx (drop 64 inp)) =
        map (\<lambda>i. inp ! i XOR keystream ctx i) [0..<length inp]"
      using 3 "1.prems" ih(1) keystream_next [of ctx]
      by (intro nth_equalityI) (auto simp: nth_append keystream_first min_def)
    then show ?thesis
      using 3 ne ih(2) d "1.prems"
      by (subst (1 2) chacha20.simps) (auto simp: at_counter_Suc split: prod.splits)
  qed
qed

lemma length_chacha20 [simp]: "length ctx = 16 \<Longrightarrow> length (snd (chacha20 ctx inp)) = length inp"
  by (simp add: chacha20_keystream)

lemma length_chacha20_ctx [simp]: "length ctx = 16 \<Longrightarrow> length (fst (chacha20 ctx inp)) = 16"
  by (simp add: chacha20_keystream at_counter_def)

lemma chacha20_twice: "length ctx = 16 \<Longrightarrow> snd (chacha20 ctx (snd (chacha20 ctx inp))) = inp"
  by (intro nth_equalityI) (simp_all add: chacha20_keystream xor.assoc)

end
