(* ===== verification/Poly1305.thy ===== *)
theory Poly1305
  imports Crypto
begin

text \<open>
  \<^verbatim>\<open>wireguard/crypto/refc/poly1305-donna-32.h\<close> and \<^verbatim>\<open>poly1305-donna.c\<close>: the one-time
  authenticator, with the accumulator in five limbs of 26 bits held in 32-bit words (the
  core's \<^verbatim>\<open>unsigned long\<close>) and products in 64 bits. The reference is RFC 8439, section
  2.5: arithmetic on whole numbers modulo 2^130 - 5. The limb arithmetic is carried over to
  natural numbers one operation at a time, with the bounds that rule out every overflow; the
  streaming interface is then shown to compute the reference on the whole message, however it
  is cut into calls of update.
\<close>

section \<open>The code\<close>

record poly1305_state =
  p_r :: "u32 list"
  p_h :: "u32 list"
  p_pad :: "u32 list"
  p_leftover :: nat
  p_buffer :: bytes
  p_final :: bool

abbreviation (input) poly1305_block_size :: nat where "poly1305_block_size \<equiv> 16"

definition U8TO32 :: "bytes \<Rightarrow> nat \<Rightarrow> u32" where
  "U8TO32 p i = le32 (p ! i) (p ! (i + 1)) (p ! (i + 2)) (p ! (i + 3))"

definition poly1305_init :: "poly1305_state \<Rightarrow> bytes \<Rightarrow> poly1305_state" where
  "poly1305_init st key =
     st\<lparr>p_r := [U8TO32 key 0 AND 0x3ffffff, drop_bit 2 (U8TO32 key 3) AND 0x3ffff03,
               drop_bit 4 (U8TO32 key 6) AND 0x3ffc0ff, drop_bit 6 (U8TO32 key 9) AND 0x3f03fff,
               drop_bit 8 (U8TO32 key 12) AND 0x00fffff],
       p_h := [0, 0, 0, 0, 0],
       p_pad := [U8TO32 key 16, U8TO32 key 20, U8TO32 key 24, U8TO32 key 28],
       p_leftover := 0, p_final := False\<rparr>"

text \<open>The body of the loop of \<^verbatim>\<open>poly1305_blocks\<close>, on one block \<open>m\<close>.\<close>

definition poly1305_block :: "u32 list \<Rightarrow> u32 \<Rightarrow> bytes \<Rightarrow> u32 list \<Rightarrow> u32 list" where
  "poly1305_block r hibit m h =
     (let r0 = r ! 0; r1 = r ! 1; r2 = r ! 2; r3 = r ! 3; r4 = r ! 4;
          s1 = r1 * 5; s2 = r2 * 5; s3 = r3 * 5; s4 = r4 * 5;
          h0 = h ! 0 + (U8TO32 m 0 AND 0x3ffffff);
          h1 = h ! 1 + (drop_bit 2 (U8TO32 m 3) AND 0x3ffffff);
          h2 = h ! 2 + (drop_bit 4 (U8TO32 m 6) AND 0x3ffffff);
          h3 = h ! 3 + (drop_bit 6 (U8TO32 m 9) AND 0x3ffffff);
          h4 = h ! 4 + (drop_bit 8 (U8TO32 m 12) OR hibit);
          d0 = ucast h0 * ucast r0 + ucast h1 * ucast s4 + ucast h2 * ucast s3 + ucast h3 * ucast s2 + ucast h4 * ucast s1 :: u64;
          d1 = ucast h0 * ucast r1 + ucast h1 * ucast r0 + ucast h2 * ucast s4 + ucast h3 * ucast s3 + ucast h4 * ucast s2 :: u64;
          d2 = ucast h0 * ucast r2 + ucast h1 * ucast r1 + ucast h2 * ucast r0 + ucast h3 * ucast s4 + ucast h4 * ucast s3 :: u64;
          d3 = ucast h0 * ucast r3 + ucast h1 * ucast r2 + ucast h2 * ucast r1 + ucast h3 * ucast r0 + ucast h4 * ucast s4 :: u64;
          d4 = ucast h0 * ucast r4 + ucast h1 * ucast r3 + ucast h2 * ucast r2 + ucast h3 * ucast r1 + ucast h4 * ucast r0 :: u64;
          c = ucast (drop_bit 26 d0) :: u32; h0 = ucast d0 AND 0x3ffffff;
          d1 = d1 + ucast c; c = ucast (drop_bit 26 d1) :: u32; h1 = ucast d1 AND 0x3ffffff;
          d2 = d2 + ucast c; c = ucast (drop_bit 26 d2) :: u32; h2 = ucast d2 AND 0x3ffffff;
          d3 = d3 + ucast c; c = ucast (drop_bit 26 d3) :: u32; h3 = ucast d3 AND 0x3ffffff;
          d4 = d4 + ucast c; c = ucast (drop_bit 26 d4) :: u32; h4 = ucast d4 AND 0x3ffffff;
          h0 = h0 + c * 5; c = drop_bit 26 h0; h0 = h0 AND 0x3ffffff;
          h1 = h1 + c
      in [h0, h1, h2, h3, h4])"

function blocks_loop :: "u32 list \<Rightarrow> u32 \<Rightarrow> bytes \<Rightarrow> u32 list \<Rightarrow> u32 list" where
  "blocks_loop r hibit m h =
     (if length m \<ge> poly1305_block_size
      then blocks_loop r hibit (drop poly1305_block_size m) (poly1305_block r hibit m h) else h)"
  by auto
termination by (relation "measure (\<lambda>(r, hibit, m, h). length m)") auto

declare blocks_loop.simps [simp del]

definition poly1305_blocks :: "poly1305_state \<Rightarrow> bytes \<Rightarrow> poly1305_state" where
  "poly1305_blocks st m =
     st\<lparr>p_h := blocks_loop (p_r st) (if p_final st then 0 else push_bit 24 1) m (p_h st)\<rparr>"

definition poly1305_update :: "poly1305_state \<Rightarrow> bytes \<Rightarrow> poly1305_state" where
  "poly1305_update st m =
     (let (st, m, again) =
        (if p_leftover st \<noteq> 0 then
           let want = min (poly1305_block_size - p_leftover st) (length m);
               st = st\<lparr>p_buffer := put_seg (p_buffer st) (p_leftover st) (take want m),
                       p_leftover := p_leftover st + want\<rparr>;
               m = drop want m
           in if p_leftover st < poly1305_block_size then (st, m, False)
              else ((poly1305_blocks st (p_buffer st))\<lparr>p_leftover := 0\<rparr>, m, True)
         else (st, m, True))
      in if \<not> again then st
         else let want = poly1305_block_size * (length m div poly1305_block_size);
                  st = (if length m \<ge> poly1305_block_size then poly1305_blocks st (take want m) else st);
                  m = (if length m \<ge> poly1305_block_size then drop want m else m)
              in if m \<noteq> [] then st\<lparr>p_buffer := put_seg (p_buffer st) (p_leftover st) m,
                                  p_leftover := p_leftover st + length m\<rparr>
                 else st)"

text \<open>The second half of \<^verbatim>\<open>poly1305_finish\<close>, in its three stages: the full carry with the choice
  between \<open>h\<close> and \<open>h - p\<close>, packing into four words, and adding the pad.\<close>

definition finish_reduce :: "u32 list \<Rightarrow> u32 list" where
  "finish_reduce h =
     (let h0 = h ! 0; h1 = h ! 1; h2 = h ! 2; h3 = h ! 3; h4 = h ! 4;
          c = drop_bit 26 h1; h1 = h1 AND 0x3ffffff;
          h2 = h2 + c; c = drop_bit 26 h2; h2 = h2 AND 0x3ffffff;
          h3 = h3 + c; c = drop_bit 26 h3; h3 = h3 AND 0x3ffffff;
          h4 = h4 + c; c = drop_bit 26 h4; h4 = h4 AND 0x3ffffff;
          h0 = h0 + c * 5; c = drop_bit 26 h0; h0 = h0 AND 0x3ffffff;
          h1 = h1 + c;
          g0 = h0 + 5; c = drop_bit 26 g0; g0 = g0 AND 0x3ffffff;
          g1 = h1 + c; c = drop_bit 26 g1; g1 = g1 AND 0x3ffffff;
          g2 = h2 + c; c = drop_bit 26 g2; g2 = g2 AND 0x3ffffff;
          g3 = h3 + c; c = drop_bit 26 g3; g3 = g3 AND 0x3ffffff;
          g4 = h4 + c - push_bit 26 1;
          mask = drop_bit 31 g4 - 1;
          g0 = g0 AND mask; g1 = g1 AND mask; g2 = g2 AND mask; g3 = g3 AND mask; g4 = g4 AND mask;
          mask = NOT mask
      in [(h0 AND mask) OR g0, (h1 AND mask) OR g1, (h2 AND mask) OR g2, (h3 AND mask) OR g3, (h4 AND mask) OR g4])"

definition finish_pack :: "u32 list \<Rightarrow> u32 list" where
  "finish_pack h =
     [h ! 0 OR push_bit 26 (h ! 1), drop_bit 6 (h ! 1) OR push_bit 20 (h ! 2),
      drop_bit 12 (h ! 2) OR push_bit 14 (h ! 3), drop_bit 18 (h ! 3) OR push_bit 8 (h ! 4)]"

definition finish_pad :: "u32 list \<Rightarrow> u32 list \<Rightarrow> u32 list" where
  "finish_pad pad h =
     (let f = ucast (h ! 0) + ucast (pad ! 0) :: u64; h0 = ucast f;
          f = ucast (h ! 1) + ucast (pad ! 1) + drop_bit 32 f; h1 = ucast f;
          f = ucast (h ! 2) + ucast (pad ! 2) + drop_bit 32 f; h2 = ucast f;
          f = ucast (h ! 3) + ucast (pad ! 3) + drop_bit 32 f; h3 = ucast f
      in [h0, h1, h2, h3])"

definition poly1305_finish :: "poly1305_state \<Rightarrow> poly1305_state \<times> bytes" where
  "poly1305_finish st =
     (let st = (if p_leftover st \<noteq> 0
                then let st = st\<lparr>p_buffer := put_seg (p_buffer st) (p_leftover st)
                                  (1 # replicate (poly1305_block_size - (p_leftover st + 1)) 0), p_final := True\<rparr>
                     in poly1305_blocks st (p_buffer st)
                else st);
          mac = concat (map le32_bytes (finish_pad (p_pad st) (finish_pack (finish_reduce (p_h st)))))
      in (st\<lparr>p_h := replicate 5 0, p_r := replicate 5 0, p_pad := replicate 4 0\<rparr>, mac))"

section \<open>The reference\<close>

fun le_val :: "bytes \<Rightarrow> nat" where
  "le_val [] = 0"
| "le_val (b # bs) = unat b + 256 * le_val bs"

abbreviation poly_p :: nat where "poly_p \<equiv> 2 ^ 130 - 5"

definition clamp_r :: "bytes \<Rightarrow> bytes" where
  "clamp_r key = map (\<lambda>i. key ! i AND (if i \<in> {3, 7, 11, 15} then 15 else if i \<in> {4, 8, 12} then 252 else 255)) [0..<16]"

function rfc_poly :: "nat \<Rightarrow> nat \<Rightarrow> bytes \<Rightarrow> nat" where
  "rfc_poly r acc msg =
     (if msg = [] then acc
      else rfc_poly r ((acc + le_val (take 16 msg @ [1])) * r mod poly_p) (drop 16 msg))"
  by auto
termination by (relation "measure (\<lambda>(r, acc, msg). length msg)") auto

declare rfc_poly.simps [simp del]

definition rfc_poly1305 :: "bytes \<Rightarrow> bytes \<Rightarrow> bytes" where
  "rfc_poly1305 key msg =
     (let n = (rfc_poly (le_val (clamp_r key)) 0 msg + le_val (seg key 16 16)) mod 2 ^ 128
      in map (\<lambda>i. of_nat (n div 256 ^ i)) [0..<16])"

definition p_state0 :: poly1305_state where
  "p_state0 = \<lparr>p_r = replicate 5 0, p_h = replicate 5 0, p_pad = replicate 4 0, p_leftover = 0,
              p_buffer = replicate 16 0, p_final = False\<rparr>"

section \<open>Words as natural numbers\<close>

lemma unat_mask26: "unat (x AND 0x3ffffff :: u32) = unat x mod 67108864"
proof -
  have "x AND 0x3ffffff = take_bit 26 x" by (simp add: take_bit_eq_mask mask_numeral)
  then show ?thesis by (simp only: unsigned_take_bit_eq) (simp add: take_bit_eq_mod)
qed

lemma unat_shr32: "unat (drop_bit k (x :: u32)) = unat x div 2 ^ k"
  by (simp only: unat_drop_bit_eq) (simp add: drop_bit_eq_div)

lemma unat_shr64: "unat (drop_bit k (x :: u64)) = unat x div 2 ^ k"
  by (simp only: unat_drop_bit_eq) (simp add: drop_bit_eq_div)

lemma unat_add32: "unat a + unat b < 4294967296 \<Longrightarrow> unat (a + b :: u32) = unat a + unat b"
  by (simp add: unat_word_ariths)

lemma unat_add64: "unat a + unat b < 18446744073709551616 \<Longrightarrow> unat (a + b :: u64) = unat a + unat b"
  by (simp add: unat_word_ariths)

lemma unat_mul5: "unat a < 858993459 \<Longrightarrow> unat (a * 5 :: u32) = unat a * 5"
  by (simp add: unat_word_ariths)

lemma unat_ucast_u32_u64 [simp]: "unat (ucast (a :: u32) :: u64) = unat a"
  using unat_u32_less [of a] by (simp add: unsigned_ucast_eq take_bit_nat_eq_self del: unat_u32_less)

lemma unat_mul64: "unat (ucast (a :: u32) * ucast (b :: u32) :: u64) = unat a * unat b"
proof -
  have "unat a * unat b \<le> 4294967295 * 4294967295"
    using unat_u32_less [of a] unat_u32_less [of b] by (intro mult_le_mono) linarith+
  then show ?thesis by (simp add: unat_word_ariths)
qed

lemma unat_low64: "unat (ucast (d :: u64) :: u32) = unat d mod 4294967296"
  by (simp add: unsigned_ucast_eq take_bit_eq_mod)

lemma unat_add_carry:
  assumes "unat w \<le> 1000000000000000000"
  shows "unat (w + ucast (c :: u32) :: u64) = unat w + unat c"
  using assms unat_u32_less [of c] by (subst unat_add64) (simp_all del: unat_u32_less)

lemma unat_carry64:
  assumes "unat (d :: u64) < 288230376151711744"
  shows "unat (ucast (drop_bit 26 d) :: u32) = unat d div 67108864"
    and "unat (ucast d AND 0x3ffffff :: u32) = unat d mod 67108864"
proof -
  have "unat (drop_bit 26 d) = unat d div 67108864" by (simp only: unat_shr64) simp
  moreover have "unat d div 67108864 < 4294967296" using assms by (simp add: less_mult_imp_div_less)
  ultimately show "unat (ucast (drop_bit 26 d) :: u32) = unat d div 67108864"
    by (simp only: unat_low64) simp
  show "unat (ucast d AND 0x3ffffff :: u32) = unat d mod 67108864"
    by (simp only: unat_mask26 unat_low64) (simp add: mod_mod_cancel)
qed

section \<open>Multiplying and carrying\<close>

text \<open>The value of five limbs, and the state of the accumulator between blocks.\<close>

definition limbs :: "u32 list \<Rightarrow> nat" where
  "limbs h = unat (h ! 0) + 2 ^ 26 * unat (h ! 1) + 2 ^ 52 * unat (h ! 2) + 2 ^ 78 * unat (h ! 3) + 2 ^ 104 * unat (h ! 4)"

definition acc_ok :: "u32 list \<Rightarrow> bool" where
  "acc_ok h \<longleftrightarrow> length h = 5 \<and> unat (h ! 0) < 2 ^ 26 \<and> unat (h ! 1) < 2 ^ 26 + 64 \<and>
     unat (h ! 2) < 2 ^ 26 \<and> unat (h ! 3) < 2 ^ 26 \<and> unat (h ! 4) < 2 ^ 26"

definition key_ok :: "u32 list \<Rightarrow> bool" where
  "key_ok r \<longleftrightarrow> length r = 5 \<and> (\<forall>i < 5. unat (r ! i) < 2 ^ 26)"

text \<open>Modulo 2^130 - 5, the five sums of products are the product of the values, and carrying does
  not change the value.\<close>

lemma limb_product:
  fixes h0 h1 h2 h3 h4 r0 r1 r2 r3 r4 :: nat
  shows "(h0 + 2 ^ 26 * h1 + 2 ^ 52 * h2 + 2 ^ 78 * h3 + 2 ^ 104 * h4) *
      (r0 + 2 ^ 26 * r1 + 2 ^ 52 * r2 + 2 ^ 78 * r3 + 2 ^ 104 * r4) =
    (h0 * r0 + h1 * (r4 * 5) + h2 * (r3 * 5) + h3 * (r2 * 5) + h4 * (r1 * 5)) +
    2 ^ 26 * (h0 * r1 + h1 * r0 + h2 * (r4 * 5) + h3 * (r3 * 5) + h4 * (r2 * 5)) +
    2 ^ 52 * (h0 * r2 + h1 * r1 + h2 * r0 + h3 * (r4 * 5) + h4 * (r3 * 5)) +
    2 ^ 78 * (h0 * r3 + h1 * r2 + h2 * r1 + h3 * r0 + h4 * (r4 * 5)) +
    2 ^ 104 * (h0 * r4 + h1 * r3 + h2 * r2 + h3 * r1 + h4 * r0) +
    poly_p * ((h1 * r4 + h2 * r3 + h3 * r2 + h4 * r1) + 2 ^ 26 * (h2 * r4 + h3 * r3 + h4 * r2) +
      2 ^ 52 * (h3 * r4 + h4 * r3) + 2 ^ 78 * (h4 * r4))"
  by (simp add: algebra_simps)

lemma poly_powers:
  "(2::nat) ^ 26 = 67108864" "(2::nat) ^ 52 = 4503599627370496"
  "(2::nat) ^ 78 = 302231454903657293676544" "(2::nat) ^ 104 = 20282409603651670423947251286016"
  "poly_p = 1361129467683753853853498429727072845819"
  by simp_all

lemma limb_carry:
  fixes d0 d1 d2 d3 d4 :: nat
  assumes "c0 = d0 div 67108864" "e0 = d0 mod 67108864"
    and "c1 = (d1 + c0) div 67108864" "e1 = (d1 + c0) mod 67108864"
    and "c2 = (d2 + c1) div 67108864" "e2 = (d2 + c1) mod 67108864"
    and "c3 = (d3 + c2) div 67108864" "e3 = (d3 + c2) mod 67108864"
    and "c4 = (d4 + c3) div 67108864" "e4 = (d4 + c3) mod 67108864"
    and "c5 = (e0 + c4 * 5) div 67108864" "f0 = (e0 + c4 * 5) mod 67108864"
  shows "d0 + 2 ^ 26 * d1 + 2 ^ 52 * d2 + 2 ^ 78 * d3 + 2 ^ 104 * d4 =
    (f0 + 2 ^ 26 * (e1 + c5) + 2 ^ 52 * e2 + 2 ^ 78 * e3 + 2 ^ 104 * e4) + poly_p * c4"
proof -
  note dm = mult_div_mod_eq [symmetric]
  have "d0 = 67108864 * c0 + e0" unfolding assms(1,2) by (rule dm)
  then have 0: "int d0 = 67108864 * int c0 + int e0" by linarith
  have "d1 + c0 = 67108864 * c1 + e1" unfolding assms(3,4) by (rule dm)
  then have 1: "int d1 = 67108864 * int c1 + int e1 - int c0" by linarith
  have "d2 + c1 = 67108864 * c2 + e2" unfolding assms(5,6) by (rule dm)
  then have 2: "int d2 = 67108864 * int c2 + int e2 - int c1" by linarith
  have "d3 + c2 = 67108864 * c3 + e3" unfolding assms(7,8) by (rule dm)
  then have 3: "int d3 = 67108864 * int c3 + int e3 - int c2" by linarith
  have "d4 + c3 = 67108864 * c4 + e4" unfolding assms(9,10) by (rule dm)
  then have 4: "int d4 = 67108864 * int c4 + int e4 - int c3" by linarith
  have "e0 + c4 * 5 = 67108864 * c5 + f0" unfolding assms(11,12) by (rule dm)
  then have 5: "int e0 = 67108864 * int c5 + int f0 - 5 * int c4" by linarith
  have "int (d0 + 2 ^ 26 * d1 + 2 ^ 52 * d2 + 2 ^ 78 * d3 + 2 ^ 104 * d4) =
    int (f0 + 2 ^ 26 * (e1 + c5) + 2 ^ 52 * e2 + 2 ^ 78 * e3 + 2 ^ 104 * e4 + poly_p * c4)"
    unfolding poly_powers by (simp add: 0 1 2 3 4 5 algebra_simps)
  then show ?thesis by (simp only: of_nat_eq_iff)
qed


section \<open>Reading a block\<close>

lemma unat_shl_u8: "k \<le> 24 \<Longrightarrow> unat (push_bit k (ucast (a :: u8)) :: u32) = unat a * 2 ^ k"
proof -
  assume k: "k \<le> 24"
  have "unat a * 2 ^ k < 2 ^ 8 * 2 ^ k" by simp
  also have "(2 :: nat) ^ 8 * 2 ^ k \<le> 2 ^ 32" using k power_increasing [of "8 + k" 32 "2 :: nat"]
    by (simp add: power_add)
  finally show ?thesis
    by (simp only: unsigned_push_bit_eq unat_ucast_u8_u32) (simp add: push_bit_eq_mult take_bit_nat_eq_self)
qed

lemma unat_le32: "unat (le32 a b c d) = unat a + 256 * unat b + 65536 * unat c + 16777216 * unat d"
proof -
  have "le32 a b c d = ucast a + push_bit 8 (ucast b) + push_bit 16 (ucast c) + push_bit 24 (ucast d)"
    unfolding le32_def
    by (subst disjunctive_add, force simp: bit_simps dest: bit_imp_le_length)+ (simp add: or.assoc)
  moreover have "unat a < 256" "unat b < 256" "unat c < 256" "unat d < 256" by simp_all
  ultimately show ?thesis by (simp add: unat_word_ariths unat_shl_u8 del: unat_u8_less)
qed

text \<open>The four windows at byte offsets 0, 3, 6, 9 and 12 cut the sixteen bytes into limbs.\<close>

lemma block_windows:
  fixes b :: "nat \<Rightarrow> nat"
  assumes "\<And>i. b i < 256"
  shows "(b 0 + 256 * b 1 + 65536 * b 2 + 16777216 * b 3) mod 67108864 +
    2 ^ 26 * ((b 3 + 256 * b 4 + 65536 * b 5 + 16777216 * b 6) div 4 mod 67108864) +
    2 ^ 52 * ((b 6 + 256 * b 7 + 65536 * b 8 + 16777216 * b 9) div 16 mod 67108864) +
    2 ^ 78 * ((b 9 + 256 * b 10 + 65536 * b 11 + 16777216 * b 12) div 64 mod 67108864) +
    2 ^ 104 * ((b 12 + 256 * b 13 + 65536 * b 14 + 16777216 * b 15) div 256) =
    b 0 + 256 * b 1 + 65536 * b 2 + 16777216 * b 3 + 4294967296 * b 4 + 1099511627776 * b 5 +
    281474976710656 * b 6 + 72057594037927936 * b 7 + 18446744073709551616 * b 8 +
    4722366482869645213696 * b 9 + 1208925819614629174706176 * b 10 + 309485009821345068724781056 * b 11 +
    79228162514264337593543950336 * b 12 + 20282409603651670423947251286016 * b 13 +
    5192296858534827628530496329220096 * b 14 + 1329227995784915872903807060280344576 * b 15"
proof -
  have s3: "b 3 = 4 * (b 3 div 4) + b 3 mod 4" and s6: "b 6 = 16 * (b 6 div 16) + b 6 mod 16"
    and s9: "b 9 = 64 * (b 9 div 64) + b 9 mod 64" by simp_all
  have q: "b 3 div 4 < 64" "b 6 div 16 < 16" "b 9 div 64 < 4" using assms by (simp_all add: less_mult_imp_div_less)
  have 0: "(b 0 + 256 * b 1 + 65536 * b 2 + 16777216 * b 3) mod 67108864 =
      b 0 + 256 * b 1 + 65536 * b 2 + 16777216 * (b 3 mod 4)"
  proof -
    have e: "b 0 + 256 * b 1 + 65536 * b 2 + 16777216 * b 3 =
      (b 0 + 256 * b 1 + 65536 * b 2 + 16777216 * (b 3 mod 4)) + (b 3 div 4) * 67108864" using s3 by linarith
    have "b 0 + 256 * b 1 + 65536 * b 2 + 16777216 * (b 3 mod 4) < 67108864"
      using assms [of 0] assms [of 1] assms [of 2] mod_less_divisor [of 4 "b 3"] by linarith
    then show ?thesis unfolding e mod_mult_self1 by simp
  qed
  have 1: "(b 3 + 256 * b 4 + 65536 * b 5 + 16777216 * b 6) div 4 mod 67108864 =
      b 3 div 4 + 64 * b 4 + 16384 * b 5 + 4194304 * (b 6 mod 16)"
  proof -
    have "(b 3 + 256 * b 4 + 65536 * b 5 + 16777216 * b 6) div 4 = b 3 div 4 + 64 * b 4 + 16384 * b 5 + 4194304 * b 6"
      by simp
    also have "\<dots> = (b 3 div 4 + 64 * b 4 + 16384 * b 5 + 4194304 * (b 6 mod 16)) + (b 6 div 16) * 67108864"
      using s6 by linarith
    finally have e: "(b 3 + 256 * b 4 + 65536 * b 5 + 16777216 * b 6) div 4 =
      (b 3 div 4 + 64 * b 4 + 16384 * b 5 + 4194304 * (b 6 mod 16)) + (b 6 div 16) * 67108864" .
    have "b 3 div 4 + 64 * b 4 + 16384 * b 5 + 4194304 * (b 6 mod 16) < 67108864"
      using q assms [of 4] assms [of 5] mod_less_divisor [of 16 "b 6"] by linarith
    then show ?thesis unfolding e mod_mult_self1 by simp
  qed
  have 2: "(b 6 + 256 * b 7 + 65536 * b 8 + 16777216 * b 9) div 16 mod 67108864 =
      b 6 div 16 + 16 * b 7 + 4096 * b 8 + 1048576 * (b 9 mod 64)"
  proof -
    have "(b 6 + 256 * b 7 + 65536 * b 8 + 16777216 * b 9) div 16 = b 6 div 16 + 16 * b 7 + 4096 * b 8 + 1048576 * b 9"
      by simp
    also have "\<dots> = (b 6 div 16 + 16 * b 7 + 4096 * b 8 + 1048576 * (b 9 mod 64)) + (b 9 div 64) * 67108864"
      using s9 by linarith
    finally have e: "(b 6 + 256 * b 7 + 65536 * b 8 + 16777216 * b 9) div 16 =
      (b 6 div 16 + 16 * b 7 + 4096 * b 8 + 1048576 * (b 9 mod 64)) + (b 9 div 64) * 67108864" .
    have "b 6 div 16 + 16 * b 7 + 4096 * b 8 + 1048576 * (b 9 mod 64) < 67108864"
      using q assms [of 7] assms [of 8] mod_less_divisor [of 64 "b 9"] by linarith
    then show ?thesis unfolding e mod_mult_self1 by simp
  qed
  have 3: "(b 9 + 256 * b 10 + 65536 * b 11 + 16777216 * b 12) div 64 mod 67108864 =
      b 9 div 64 + 4 * b 10 + 1024 * b 11 + 262144 * b 12"
  proof -
    have e: "(b 9 + 256 * b 10 + 65536 * b 11 + 16777216 * b 12) div 64 =
      b 9 div 64 + 4 * b 10 + 1024 * b 11 + 262144 * b 12" by simp
    have "b 9 div 64 + 4 * b 10 + 1024 * b 11 + 262144 * b 12 < 67108864"
      using q assms [of 10] assms [of 11] assms [of 12] by linarith
    then show ?thesis unfolding e by simp
  qed
  have 4: "(b 12 + 256 * b 13 + 65536 * b 14 + 16777216 * b 15) div 256 = b 13 + 256 * b 14 + 65536 * b 15"
    using assms [of 12] by (simp add: add.assoc)
  define x3 x6 x9 y3 y6 y9 where quot_defs: "x3 = b 3 div 4" "x6 = b 6 div 16" "x9 = b 9 div 64"
    and rem_defs: "y3 = b 3 mod 4" "y6 = b 6 mod 16" "y9 = b 9 mod 64"
  have b3: "b 3 = 4 * x3 + y3" and b6: "b 6 = 16 * x6 + y6" and b9: "b 9 = 64 * x9 + y9"
    using s3 s6 s9 unfolding quot_defs rem_defs .
  show ?thesis
    unfolding 0 1 2 3 4 poly_powers quot_defs [symmetric] rem_defs [symmetric]
    by (simp add: b3 b6 b9 algebra_simps)
qed


definition msg_limbs :: "bytes \<Rightarrow> u32 \<Rightarrow> u32 list" where
  "msg_limbs m hibit =
     [U8TO32 m 0 AND 0x3ffffff, drop_bit 2 (U8TO32 m 3) AND 0x3ffffff, drop_bit 4 (U8TO32 m 6) AND 0x3ffffff,
      drop_bit 6 (U8TO32 m 9) AND 0x3ffffff, drop_bit 8 (U8TO32 m 12) OR hibit]"

lemma length_msg_limbs [simp]: "length (msg_limbs m hb) = 5"
  by (simp add: msg_limbs_def)

lemma le_val_append: "le_val (xs @ ys) = le_val xs + 256 ^ length xs * le_val ys"
  by (induction xs) (simp_all add: algebra_simps)

lemma le_val_zeros [simp]: "le_val (replicate n 0) = 0"
  by (induction n) simp_all

lemma le_val_less: "le_val xs < 256 ^ length xs"
proof (induction xs)
  case (Cons x xs)
  then have "256 * (le_val xs + 1) \<le> 256 * 256 ^ length xs" by (intro mult_le_mono2) simp
  then show ?case using unat_u8_less [of x] by (simp del: unat_u8_less)
qed simp

lemma le_val_16:
  assumes "length m = 16"
  shows "le_val m = unat (m ! 0) + 256 * unat (m ! 1) + 65536 * unat (m ! 2) + 16777216 * unat (m ! 3) +
    4294967296 * unat (m ! 4) + 1099511627776 * unat (m ! 5) +
    281474976710656 * unat (m ! 6) + 72057594037927936 * unat (m ! 7) + 18446744073709551616 * unat (m ! 8) +
    4722366482869645213696 * unat (m ! 9) + 1208925819614629174706176 * unat (m ! 10) +
    309485009821345068724781056 * unat (m ! 11) +
    79228162514264337593543950336 * unat (m ! 12) + 20282409603651670423947251286016 * unat (m ! 13) +
    5192296858534827628530496329220096 * unat (m ! 14) + 1329227995784915872903807060280344576 * unat (m ! 15)"
proof -
  obtain a0 a1 a2 a3 a4 a5 a6 a7 b0 b1 b2 b3 b4 b5 b6 b7
    where m: "m = [a0, a1, a2, a3, a4, a5, a6, a7, b0, b1, b2, b3, b4, b5, b6, b7]"
    using assms by (auto simp: length_Suc_conv numeral_eq_Suc)
  show ?thesis unfolding m by simp
qed

abbreviation hibit_of :: "bool \<Rightarrow> u32" where
  "hibit_of final \<equiv> if final then 0 else push_bit 24 1"

lemma unat_or_hibit:
  "unat (drop_bit 8 w OR hibit_of f :: u32) = unat w div 256 + (if f then 0 else 2 ^ 24)"
proof (cases f)
  case True
  then show ?thesis using unat_shr32 [of 8 w] by simp
next
  case False
  have "n < 24" if "bit (drop_bit 8 w) n" for n
    using that by (auto simp: bit_drop_bit_eq dest!: bit_imp_le_length)
  moreover have "24 \<le> n" if "bit (push_bit 24 (1 :: u32)) n" for n
    using that by (simp only: bit_push_bit_iff)
  ultimately have "drop_bit 8 w OR push_bit 24 1 = drop_bit 8 w + push_bit 24 1"
    by (intro disjunctive_add [symmetric]) (meson leD)
  moreover have "unat (drop_bit 8 w) = unat w div 256" using unat_shr32 [of 8 w] by simp
  moreover have "unat w div 256 < 16777216" by (simp add: less_mult_imp_div_less)
  ultimately show ?thesis using False by (simp add: unat_word_ariths)
qed

lemma less_5_cases: "(i :: nat) < 5 \<Longrightarrow> i = 0 \<or> i = 1 \<or> i = 2 \<or> i = 3 \<or> i = 4"
  by linarith

lemma less_5: "(0 :: nat) < 5" "(1 :: nat) < 5" "(2 :: nat) < 5" "(3 :: nat) < 5" "(4 :: nat) < 5"
  by simp_all

lemma list_nth: "(a # xs) ! 0 = a" "(a # b # xs) ! 1 = b" "(a # b # c # xs) ! 2 = c"
  "(a # b # c # d # xs) ! 3 = d" "(a # b # c # d # e # xs) ! 4 = e"
  by simp_all

lemma msg_limbs_val:
  assumes "16 \<le> length m"
  shows "limbs (msg_limbs m (hibit_of f)) = le_val (take 16 m) + (if f then 0 else 2 ^ 128)"
    and "i < 5 \<Longrightarrow> unat (msg_limbs m (hibit_of f) ! i) < 2 ^ 26"
proof -
  define b where "b i = unat (m ! i)" for i
  have b: "b i < 256" for i by (simp add: b_def)
  have w: "unat (U8TO32 m i) = b i + 256 * b (i + 1) + 65536 * b (i + 2) + 16777216 * b (i + 3)" for i
    by (simp add: U8TO32_def unat_le32 b_def)
  have v: "map unat (msg_limbs m (hibit_of f)) =
    [(b 0 + 256 * b 1 + 65536 * b 2 + 16777216 * b 3) mod 67108864,
     (b 3 + 256 * b 4 + 65536 * b 5 + 16777216 * b 6) div 4 mod 67108864,
     (b 6 + 256 * b 7 + 65536 * b 8 + 16777216 * b 9) div 16 mod 67108864,
     (b 9 + 256 * b 10 + 65536 * b 11 + 16777216 * b 12) div 64 mod 67108864,
     (b 12 + 256 * b 13 + 65536 * b 14 + 16777216 * b 15) div 256 + (if f then 0 else 2 ^ 24)]"
    unfolding msg_limbs_def list.map unat_mask26 unat_shr32 unat_or_hibit
      w [of 0, unfolded add_0] w [of 3] w [of 6] w [of 9] w [of 12] by simp
  define L where "L = msg_limbs m (hibit_of f)"
  have len: "length L = 5" by (simp add: L_def msg_limbs_def)
  have nth: "unat (L ! i) = map unat L ! i" if "i < 5" for i
    by (rule nth_map [symmetric]) (use that len in simp)
  note v = v [folded L_def]
  have "le_val (take 16 m) = b 0 + 256 * b 1 + 65536 * b 2 + 16777216 * b 3 + 4294967296 * b 4 +
    1099511627776 * b 5 + 281474976710656 * b 6 + 72057594037927936 * b 7 + 18446744073709551616 * b 8 +
    4722366482869645213696 * b 9 + 1208925819614629174706176 * b 10 + 309485009821345068724781056 * b 11 +
    79228162514264337593543950336 * b 12 + 20282409603651670423947251286016 * b 13 +
    5192296858534827628530496329220096 * b 14 + 1329227995784915872903807060280344576 * b 15"
    using assms by (subst le_val_16) (simp_all add: b_def)
  note win = block_windows [of b, OF b, folded this]
  have "limbs L = le_val (take 16 m) + 2 ^ 104 * (if f then 0 else 2 ^ 24)"
    unfolding win [symmetric] limbs_def less_5 [THEN nth] v list_nth
    by (simp only: distrib_left add.assoc)
  then show "limbs (msg_limbs m (hibit_of f)) = le_val (take 16 m) + (if f then 0 else 2 ^ 128)"
    unfolding L_def by simp
  have "(b 12 + 256 * b 13 + 65536 * b 14 + 16777216 * b 15) div 256 < 2 ^ 24"
    using b [of 12] b [of 13] b [of 14] b [of 15] by (simp add: less_mult_imp_div_less)
  then have hi: "(b 12 + 256 * b 13 + 65536 * b 14 + 16777216 * b 15) div 256 + (if f then 0 else 2 ^ 24) < 2 ^ 26"
    by simp
  have "unat (L ! i) < 2 ^ 26" if i: "i < 5"
    using less_5_cases [OF i] unfolding nth [OF i] v
    by (elim disjE) (simp_all only: list_nth hi [unfolded poly_powers] poly_powers(1) mod_less_divisor zero_less_numeral)
  then show "i < 5 \<Longrightarrow> unat (msg_limbs m (hibit_of f) ! i) < 2 ^ 26" by (simp add: L_def)
qed


section \<open>One block\<close>

definition dot5 :: "u32 \<Rightarrow> u32 \<Rightarrow> u32 \<Rightarrow> u32 \<Rightarrow> u32 \<Rightarrow> u32 \<Rightarrow> u32 \<Rightarrow> u32 \<Rightarrow> u32 \<Rightarrow> u32 \<Rightarrow> u64" where
  "dot5 a0 b0 a1 b1 a2 b2 a3 b3 a4 b4 =
     ucast a0 * ucast b0 + ucast a1 * ucast b1 + ucast a2 * ucast b2 + ucast a3 * ucast b3 + ucast a4 * ucast b4"

definition carry_chain :: "u64 \<Rightarrow> u64 \<Rightarrow> u64 \<Rightarrow> u64 \<Rightarrow> u64 \<Rightarrow> u32 list" where
  "carry_chain d0 d1 d2 d3 d4 =
     (let c = ucast (drop_bit 26 d0) :: u32; h0 = ucast d0 AND 0x3ffffff;
          d1 = d1 + ucast c; c = ucast (drop_bit 26 d1) :: u32; h1 = ucast d1 AND 0x3ffffff;
          d2 = d2 + ucast c; c = ucast (drop_bit 26 d2) :: u32; h2 = ucast d2 AND 0x3ffffff;
          d3 = d3 + ucast c; c = ucast (drop_bit 26 d3) :: u32; h3 = ucast d3 AND 0x3ffffff;
          d4 = d4 + ucast c; c = ucast (drop_bit 26 d4) :: u32; h4 = ucast d4 AND 0x3ffffff;
          h0 = h0 + c * 5; c = drop_bit 26 h0; h0 = h0 AND 0x3ffffff;
          h1 = h1 + c
      in [h0, h1, h2, h3, h4])"

lemma poly1305_block_eq:
  "poly1305_block r hb m h =
     (let L = msg_limbs m hb; x0 = h ! 0 + L ! 0; x1 = h ! 1 + L ! 1; x2 = h ! 2 + L ! 2; x3 = h ! 3 + L ! 3;
          x4 = h ! 4 + L ! 4; r0 = r ! 0; r1 = r ! 1; r2 = r ! 2; r3 = r ! 3; r4 = r ! 4
      in carry_chain
        (dot5 x0 r0 x1 (r4 * 5) x2 (r3 * 5) x3 (r2 * 5) x4 (r1 * 5))
        (dot5 x0 r1 x1 r0 x2 (r4 * 5) x3 (r3 * 5) x4 (r2 * 5))
        (dot5 x0 r2 x1 r1 x2 r0 x3 (r4 * 5) x4 (r3 * 5))
        (dot5 x0 r3 x1 r2 x2 r1 x3 r0 x4 (r4 * 5))
        (dot5 x0 r4 x1 r3 x2 r2 x3 r1 x4 r0))"
  unfolding poly1305_block_def carry_chain_def dot5_def msg_limbs_def Let_def list_nth ..

lemma unat_dot5:
  assumes "unat a0 \<le> A" "unat a1 \<le> A" "unat a2 \<le> A" "unat a3 \<le> A" "unat a4 \<le> A"
    and "unat b0 \<le> B" "unat b1 \<le> B" "unat b2 \<le> B" "unat b3 \<le> B" "unat b4 \<le> B"
    and "5 * (A * B) < 18446744073709551616"
  shows "unat (dot5 a0 b0 a1 b1 a2 b2 a3 b3 a4 b4) = unat a0 * unat b0 + unat a1 * unat b1 +
      unat a2 * unat b2 + unat a3 * unat b3 + unat a4 * unat b4 \<and>
    unat (dot5 a0 b0 a1 b1 a2 b2 a3 b3 a4 b4) \<le> 5 * (A * B)"
proof -
  have m: "unat a0 * unat b0 \<le> A * B" "unat a1 * unat b1 \<le> A * B" "unat a2 * unat b2 \<le> A * B"
    "unat a3 * unat b3 \<le> A * B" "unat a4 * unat b4 \<le> A * B"
    using assms by (simp_all add: mult_le_mono)
  then show ?thesis
    using assms(11) unfolding dot5_def by (simp add: unat_add64 unat_mul64)
qed

text \<open>The carries: no 32-bit or 64-bit operation overflows when the sums stay under these bounds.\<close>

lemma unat_carry_chain:
  fixes w0 w1 w2 w3 w4 :: u64
  assumes "unat w0 \<le> 225181000000000000" "unat w1 \<le> 225181000000000000" "unat w2 \<le> 225181000000000000"
    "unat w3 \<le> 225181000000000000" "unat w4 \<le> 45036030000000000"
  shows "acc_ok (carry_chain w0 w1 w2 w3 w4) \<and>
    limbs (carry_chain w0 w1 w2 w3 w4) mod poly_p =
      (unat w0 + 2 ^ 26 * unat w1 + 2 ^ 52 * unat w2 + 2 ^ 78 * unat w3 + 2 ^ 104 * unat w4) mod poly_p"
proof -
  define c0 where "c0 = (ucast (drop_bit 26 w0) :: u32)"
  define v1 where "v1 = w1 + ucast c0"
  define c1 where "c1 = (ucast (drop_bit 26 v1) :: u32)"
  define v2 where "v2 = w2 + ucast c1"
  define c2 where "c2 = (ucast (drop_bit 26 v2) :: u32)"
  define v3 where "v3 = w3 + ucast c2"
  define c3 where "c3 = (ucast (drop_bit 26 v3) :: u32)"
  define v4 where "v4 = w4 + ucast c3"
  define c4 where "c4 = (ucast (drop_bit 26 v4) :: u32)"
  define e0 where "e0 = (ucast w0 AND 0x3ffffff :: u32)"
  define e1 where "e1 = (ucast v1 AND 0x3ffffff :: u32)"
  define e2 where "e2 = (ucast v2 AND 0x3ffffff :: u32)"
  define e3 where "e3 = (ucast v3 AND 0x3ffffff :: u32)"
  define e4 where "e4 = (ucast v4 AND 0x3ffffff :: u32)"
  define g where "g = e0 + c4 * 5"
  have chain: "carry_chain w0 w1 w2 w3 w4 = [g AND 0x3ffffff, e1 + drop_bit 26 g, e2, e3, e4]"
    unfolding carry_chain_def Let_def g_def e0_def e1_def e2_def e3_def e4_def c4_def v4_def c3_def v3_def
      c2_def v2_def c1_def v1_def c0_def ..
  have c: "unat c < 4294967296" for c :: u32 by simp
  have v1: "unat v1 = unat w1 + unat c0" unfolding v1_def using assms(2) by (simp add: unat_add_carry)
  have v2: "unat v2 = unat w2 + unat c1" unfolding v2_def using assms(3) by (simp add: unat_add_carry)
  have v3: "unat v3 = unat w3 + unat c2" unfolding v3_def using assms(4) by (simp add: unat_add_carry)
  have v4: "unat v4 = unat w4 + unat c3" unfolding v4_def using assms(5) by (simp add: unat_add_carry)
  have b: "unat w0 < 288230376151711744" "unat v1 < 288230376151711744" "unat v2 < 288230376151711744"
    "unat v3 < 288230376151711744" "unat v4 < 45036040000000000" "unat v4 < 288230376151711744"
    using assms v1 v2 v3 v4 c [of c0] c [of c1] c [of c2] c [of c3] by linarith+
  have C: "unat c0 = unat w0 div 67108864" "unat c1 = unat v1 div 67108864" "unat c2 = unat v2 div 67108864"
    "unat c3 = unat v3 div 67108864" "unat c4 = unat v4 div 67108864"
    unfolding c0_def c1_def c2_def c3_def c4_def using b by (simp_all only: unat_carry64)
  have E: "unat e0 = unat w0 mod 67108864" "unat e1 = unat v1 mod 67108864" "unat e2 = unat v2 mod 67108864"
    "unat e3 = unat v3 mod 67108864" "unat e4 = unat v4 mod 67108864"
    unfolding e0_def e1_def e2_def e3_def e4_def using b by (simp_all only: unat_carry64)
  have c4: "unat c4 < 671089300" unfolding C using b(5) by (simp add: less_mult_imp_div_less)
  have e0: "unat e0 < 67108864" "unat e1 < 67108864" "unat e2 < 67108864" "unat e3 < 67108864" "unat e4 < 67108864"
    unfolding E by simp_all
  have g: "unat g = unat e0 + unat c4 * 5"
    unfolding g_def using c4 e0(1) by (simp add: unat_add32 unat_mul5)
  have gs: "unat (drop_bit 26 g) = unat g div 67108864" "unat (g AND 0x3ffffff) = unat g mod 67108864"
    using unat_shr32 [of 26 g] by (simp_all add: unat_mask26)
  have gd: "unat g div 67108864 < 64" using c [of g] by (simp add: less_mult_imp_div_less)
  have h1: "unat (e1 + drop_bit 26 g) = unat e1 + unat g div 67108864"
    using gd e0(2) gs(1) by (simp add: unat_add32)
  have "acc_ok (carry_chain w0 w1 w2 w3 w4)"
    unfolding chain acc_ok_def list_nth gs h1 poly_powers using e0 gd by simp
  moreover have "unat w0 + 2 ^ 26 * unat w1 + 2 ^ 52 * unat w2 + 2 ^ 78 * unat w3 + 2 ^ 104 * unat w4 =
      limbs (carry_chain w0 w1 w2 w3 w4) + poly_p * unat c4"
    unfolding chain limbs_def list_nth gs h1 g
    by (rule limb_carry [OF C(1) E(1) C(2) [unfolded v1] E(2) [unfolded v1] C(3) [unfolded v2] E(3) [unfolded v2]
          C(4) [unfolded v3] E(4) [unfolded v3] C(5) [unfolded v4] E(5) [unfolded v4] refl refl])
  ultimately show ?thesis by (simp only: mod_mult_self2)
qed


lemma poly1305_block_val:
  assumes "acc_ok h" "key_ok r" "16 \<le> length m"
  shows "acc_ok (poly1305_block r (hibit_of f) m h)"
    and "limbs (poly1305_block r (hibit_of f) m h) mod poly_p =
      (limbs h mod poly_p + (le_val (take 16 m) + (if f then 0 else 2 ^ 128))) * limbs r mod poly_p"
proof -
  define L where "L = msg_limbs m (hibit_of f)"
  note mv = msg_limbs_val [OF assms(3), where f = f, folded L_def]
  have Lb: "unat (L ! 0) < 67108864" "unat (L ! 1) < 67108864" "unat (L ! 2) < 67108864"
    "unat (L ! 3) < 67108864" "unat (L ! 4) < 67108864"
    using less_5 [THEN mv(2)] unfolding poly_powers .
  define x0 x1 x2 x3 x4 where xs: "x0 = h ! 0 + L ! 0" "x1 = h ! 1 + L ! 1" "x2 = h ! 2 + L ! 2"
    "x3 = h ! 3 + L ! 3" "x4 = h ! 4 + L ! 4"
  have hb: "unat (h ! 0) < 67108928" "unat (h ! 1) < 67108928" "unat (h ! 2) < 67108928"
    "unat (h ! 3) < 67108928" "unat (h ! 4) < 67108928"
    using assms(1) by (auto simp: acc_ok_def)
  have X: "unat x0 = unat (h ! 0) + unat (L ! 0)" "unat x1 = unat (h ! 1) + unat (L ! 1)"
    "unat x2 = unat (h ! 2) + unat (L ! 2)" "unat x3 = unat (h ! 3) + unat (L ! 3)"
    "unat x4 = unat (h ! 4) + unat (L ! 4)"
    unfolding xs using hb Lb by (auto intro!: unat_add32)
  have xb: "unat x0 \<le> 134217792" "unat x1 \<le> 134217792" "unat x2 \<le> 134217792"
    "unat x3 \<le> 134217792" "unat x4 \<le> 134217792"
    unfolding X using hb Lb by linarith+
  define r0 r1 r2 r3 r4 where rs: "r0 = r ! 0" "r1 = r ! 1" "r2 = r ! 2" "r3 = r ! 3" "r4 = r ! 4"
  have rb: "unat r0 < 67108864" "unat r1 < 67108864" "unat r2 < 67108864" "unat r3 < 67108864" "unat r4 < 67108864"
    using assms(2) unfolding rs key_ok_def poly_powers by simp_all
  then have R5: "unat (r1 * 5) = unat r1 * 5" "unat (r2 * 5) = unat r2 * 5" "unat (r3 * 5) = unat r3 * 5"
    "unat (r4 * 5) = unat r4 * 5" by (simp_all add: unat_mul5)
  have R: "unat r0 \<le> 335544315" "unat r1 \<le> 335544315" "unat r2 \<le> 335544315" "unat r3 \<le> 335544315"
    "unat r4 \<le> 335544315" "unat (r1 * 5) \<le> 335544315" "unat (r2 * 5) \<le> 335544315" "unat (r3 * 5) \<le> 335544315"
    "unat (r4 * 5) \<le> 335544315" unfolding R5 using rb by linarith+
  have R': "unat r0 \<le> 67108863" "unat r1 \<le> 67108863" "unat r2 \<le> 67108863" "unat r3 \<le> 67108863"
    "unat r4 \<le> 67108863" using rb by linarith+
  define d0 where "d0 = dot5 x0 r0 x1 (r4 * 5) x2 (r3 * 5) x3 (r2 * 5) x4 (r1 * 5)"
  define d1 where "d1 = dot5 x0 r1 x1 r0 x2 (r4 * 5) x3 (r3 * 5) x4 (r2 * 5)"
  define d2 where "d2 = dot5 x0 r2 x1 r1 x2 r0 x3 (r4 * 5) x4 (r3 * 5)"
  define d3 where "d3 = dot5 x0 r3 x1 r2 x2 r1 x3 r0 x4 (r4 * 5)"
  define d4 where "d4 = dot5 x0 r4 x1 r3 x2 r2 x3 r1 x4 r0"
  note ds = d0_def d1_def d2_def d3_def d4_def
  have eq: "poly1305_block r (hibit_of f) m h = carry_chain d0 d1 d2 d3 d4"
    unfolding poly1305_block_eq Let_def ds xs rs L_def ..
  note D0 = unat_dot5 [OF xb R(1) R(9) R(8) R(7) R(6), folded d0_def]
  note D1 = unat_dot5 [OF xb R(2) R(1) R(9) R(8) R(7), folded d1_def]
  note D2 = unat_dot5 [OF xb R(3) R(2) R(1) R(9) R(8), folded d2_def]
  note D3 = unat_dot5 [OF xb R(4) R(3) R(2) R(1) R(9), folded d3_def]
  note D4 = unat_dot5 [OF xb R'(5) R'(4) R'(3) R'(2) R'(1), folded d4_def]
  have big: "5 * (134217792 * 335544315) < (18446744073709551616 :: nat)"
    "5 * (134217792 * 67108863) < (18446744073709551616 :: nat)" by simp_all
  have bounds: "unat d0 \<le> 225181000000000000" "unat d1 \<le> 225181000000000000" "unat d2 \<le> 225181000000000000"
    "unat d3 \<le> 225181000000000000" "unat d4 \<le> 45036030000000000"
    using D0 [OF big(1)] D1 [OF big(1)] D2 [OF big(1)] D3 [OF big(1)] D4 [OF big(2)] by linarith+
  note cc = unat_carry_chain [OF bounds, folded eq]
  show "acc_ok (poly1305_block r (hibit_of f) m h)" using cc ..
  have H: "unat x0 + 2 ^ 26 * unat x1 + 2 ^ 52 * unat x2 + 2 ^ 78 * unat x3 + 2 ^ 104 * unat x4 =
      limbs h + (le_val (take 16 m) + (if f then 0 else 2 ^ 128))"
    unfolding X mv(1) [symmetric] limbs_def by (simp only: distrib_left distrib_right ac_simps)
  have "(unat d0 + 2 ^ 26 * unat d1 + 2 ^ 52 * unat d2 + 2 ^ 78 * unat d3 + 2 ^ 104 * unat d4) mod poly_p =
      (limbs h + (le_val (take 16 m) + (if f then 0 else 2 ^ 128))) * limbs r mod poly_p"
    unfolding H [symmetric] limbs_def [of r] rs [symmetric] limb_product
      conjunct1 [OF D0 [OF big(1)]] conjunct1 [OF D1 [OF big(1)]] conjunct1 [OF D2 [OF big(1)]]
      conjunct1 [OF D3 [OF big(1)]] conjunct1 [OF D4 [OF big(2)]] R5
    by (simp only: mod_mult_self2)
  also have "\<dots> = (limbs h mod poly_p + (le_val (take 16 m) + (if f then 0 else 2 ^ 128))) * limbs r mod poly_p"
    by (rule mod_mult_cong) (simp_all only: mod_add_left_eq)
  finally show "limbs (poly1305_block r (hibit_of f) m h) mod poly_p =
      (limbs h mod poly_p + (le_val (take 16 m) + (if f then 0 else 2 ^ 128))) * limbs r mod poly_p"
    using cc by (simp only:)
qed


section \<open>The final reduction\<close>

text \<open>The full carry brings every limb below 2^26: a carry out of the top limb only happens when
  the second limb had overflowed, and then its remainder is small.\<close>

lemma carry_full:
  fixes h0 h1 h2 h3 h4 :: nat
  assumes "h0 < 67108864" "h1 < 67108928" "h2 < 67108864" "h3 < 67108864" "h4 < 67108864"
    and "k1 = h1 div 67108864" "a1 = h1 mod 67108864"
    and "k2 = (h2 + k1) div 67108864" "a2 = (h2 + k1) mod 67108864"
    and "k3 = (h3 + k2) div 67108864" "a3 = (h3 + k2) mod 67108864"
    and "k4 = (h4 + k3) div 67108864" "a4 = (h4 + k3) mod 67108864"
    and "k5 = (h0 + k4 * 5) div 67108864" "a0 = (h0 + k4 * 5) mod 67108864"
  shows "a1 + k5 < 67108864" "k1 \<le> 1" "k2 \<le> 1" "k3 \<le> 1" "k4 \<le> 1"
    and "h0 + 2 ^ 26 * h1 + 2 ^ 52 * h2 + 2 ^ 78 * h3 + 2 ^ 104 * h4 =
      (a0 + 2 ^ 26 * (a1 + k5) + 2 ^ 52 * a2 + 2 ^ 78 * a3 + 2 ^ 104 * a4) + poly_p * k4"
proof -
  note dm = mult_div_mod_eq [symmetric]
  have e1: "h1 = 67108864 * k1 + a1" unfolding assms(6,7) by (rule dm)
  have e2: "h2 + k1 = 67108864 * k2 + a2" unfolding assms(8,9) by (rule dm)
  have e3: "h3 + k2 = 67108864 * k3 + a3" unfolding assms(10,11) by (rule dm)
  have e4: "h4 + k3 = 67108864 * k4 + a4" unfolding assms(12,13) by (rule dm)
  have e5: "h0 + k4 * 5 = 67108864 * k5 + a0" unfolding assms(14,15) by (rule dm)
  show k1: "k1 \<le> 1" using e1 assms(2) by linarith
  show k2: "k2 \<le> 1" using e2 k1 assms(3) by linarith
  show k3: "k3 \<le> 1" using e3 k2 assms(4) by linarith
  show k4: "k4 \<le> 1" using e4 k3 assms(5) by linarith
  have a1: "a1 < 67108864" unfolding assms(7) by simp
  show "a1 + k5 < 67108864"
  proof (cases "k4 = 0")
    case True
    then have "k5 = 0" using e5 assms(1) by linarith
    then show ?thesis using a1 by simp
  next
    case False
    then have "k3 \<noteq> 0" using e4 assms(5) by (cases "k3 = 0") auto
    then have "k2 \<noteq> 0" using e3 assms(4) by (cases "k2 = 0") auto
    then have "k1 \<noteq> 0" using e2 assms(3) by (cases "k1 = 0") auto
    then have "a1 < 64" using e1 assms(2) by linarith
    moreover have "k5 \<le> 1" using e5 k4 assms(1) by linarith
    ultimately show ?thesis by linarith
  qed
  have "int h1 = 67108864 * int k1 + int a1" "int h2 = 67108864 * int k2 + int a2 - int k1"
    "int h3 = 67108864 * int k3 + int a3 - int k2" "int h4 = 67108864 * int k4 + int a4 - int k3"
    "int h0 = 67108864 * int k5 + int a0 - 5 * int k4"
    using e1 e2 e3 e4 e5 by linarith+
  note eqs = this
  have "int (h0 + 2 ^ 26 * h1 + 2 ^ 52 * h2 + 2 ^ 78 * h3 + 2 ^ 104 * h4) =
    int (a0 + 2 ^ 26 * (a1 + k5) + 2 ^ 52 * a2 + 2 ^ 78 * a3 + 2 ^ 104 * a4 + poly_p * k4)"
    unfolding poly_powers by (simp add: eqs algebra_simps)
  then show "h0 + 2 ^ 26 * h1 + 2 ^ 52 * h2 + 2 ^ 78 * h3 + 2 ^ 104 * h4 =
      (a0 + 2 ^ 26 * (a1 + k5) + 2 ^ 52 * a2 + 2 ^ 78 * a3 + 2 ^ 104 * a4) + poly_p * k4"
    by (simp only: of_nat_eq_iff)
qed

lemma limbs_less:
  fixes a0 a1 a2 a3 a4 :: nat
  assumes "a0 < 67108864" "a1 < 67108864" "a2 < 67108864" "a3 < 67108864" "a4 < n"
  shows "a0 + 2 ^ 26 * a1 + 2 ^ 52 * a2 + 2 ^ 78 * a3 + 2 ^ 104 * a4 < 2 ^ 104 * n"
proof -
  have "2 ^ 104 * (a4 + 1) \<le> 2 ^ 104 * n" using assms(5) by (intro mult_le_mono2) simp
  moreover have "2 ^ 26 * (a1 + 1) \<le> (2 :: nat) ^ 26 * 67108864" "2 ^ 52 * (a2 + 1) \<le> (2 :: nat) ^ 52 * 67108864"
    "2 ^ 78 * (a3 + 1) \<le> (2 :: nat) ^ 78 * 67108864"
    using assms by (intro mult_le_mono2; simp)+
  ultimately show ?thesis using assms(1) unfolding poly_powers by simp
qed

lemma subtract_p:
  fixes a0 a1 a2 a3 a4 :: nat
  assumes "a0 < 67108864" "a1 < 67108864" "a2 < 67108864" "a3 < 67108864" "a4 < 67108864"
    and "q0 = (a0 + 5) div 67108864" "g0 = (a0 + 5) mod 67108864"
    and "q1 = (a1 + q0) div 67108864" "g1 = (a1 + q0) mod 67108864"
    and "q2 = (a2 + q1) div 67108864" "g2 = (a2 + q1) mod 67108864"
    and "q3 = (a3 + q2) div 67108864" "g3 = (a3 + q2) mod 67108864"
  shows "q0 \<le> 1" "q1 \<le> 1" "q2 \<le> 1" "q3 \<le> 1"
    and "a4 + q3 < 67108864 \<Longrightarrow>
      (a0 + 2 ^ 26 * a1 + 2 ^ 52 * a2 + 2 ^ 78 * a3 + 2 ^ 104 * a4) mod poly_p =
      a0 + 2 ^ 26 * a1 + 2 ^ 52 * a2 + 2 ^ 78 * a3 + 2 ^ 104 * a4"
    and "67108864 \<le> a4 + q3 \<Longrightarrow>
      (a0 + 2 ^ 26 * a1 + 2 ^ 52 * a2 + 2 ^ 78 * a3 + 2 ^ 104 * a4) mod poly_p =
      g0 + 2 ^ 26 * g1 + 2 ^ 52 * g2 + 2 ^ 78 * g3 + 2 ^ 104 * (a4 + q3 - 67108864)"
proof -
  let ?A = "a0 + 2 ^ 26 * a1 + 2 ^ 52 * a2 + 2 ^ 78 * a3 + 2 ^ 104 * a4"
  note dm = mult_div_mod_eq [symmetric]
  have e0: "a0 + 5 = 67108864 * q0 + g0" unfolding assms(6,7) by (rule dm)
  have e1: "a1 + q0 = 67108864 * q1 + g1" unfolding assms(8,9) by (rule dm)
  have e2: "a2 + q1 = 67108864 * q2 + g2" unfolding assms(10,11) by (rule dm)
  have e3: "a3 + q2 = 67108864 * q3 + g3" unfolding assms(12,13) by (rule dm)
  show q0: "q0 \<le> 1" using e0 assms(1) by linarith
  show q1: "q1 \<le> 1" using e1 q0 assms(2) by linarith
  show q2: "q2 \<le> 1" using e2 q1 assms(3) by linarith
  show q3: "q3 \<le> 1" using e3 q2 assms(4) by linarith
  have g: "g0 < 67108864" "g1 < 67108864" "g2 < 67108864" "g3 < 67108864"
    unfolding assms(7,9,11,13) by simp_all
  have eqs: "int a0 = 67108864 * int q0 + int g0 - 5" "int a1 = 67108864 * int q1 + int g1 - int q0"
    "int a2 = 67108864 * int q2 + int g2 - int q1" "int a3 = 67108864 * int q3 + int g3 - int q2"
    using e0 e1 e2 e3 by linarith+
  have "int (?A + 5) = int (g0 + 2 ^ 26 * g1 + 2 ^ 52 * g2 + 2 ^ 78 * g3 + 2 ^ 104 * (a4 + q3))"
    unfolding poly_powers by (simp add: eqs algebra_simps)
  then have A: "?A + 5 = g0 + 2 ^ 26 * g1 + 2 ^ 52 * g2 + 2 ^ 78 * g3 + 2 ^ 104 * (a4 + q3)"
    by (simp only: of_nat_eq_iff)
  have p: "poly_p + 5 = 2 ^ 104 * 67108864" by simp
  {
    assume "a4 + q3 < 67108864"
    then have "?A + 5 < poly_p + 5" unfolding A p by (rule limbs_less [OF g])
    then show "?A mod poly_p = ?A" by (intro mod_less) (simp only: add_less_cancel_right)
  next
    assume hi: "67108864 \<le> a4 + q3"
    let ?G = "g0 + 2 ^ 26 * g1 + 2 ^ 52 * g2 + 2 ^ 78 * g3 + 2 ^ 104 * (a4 + q3 - 67108864)"
    have "?A + 5 = ?G + (poly_p + 5)" unfolding A p using hi by (simp only: diff_mult_distrib2) simp
    then have AG: "?A = ?G + poly_p" by linarith
    have "?G < 2 ^ 104 * 1" by (rule limbs_less [OF g]) (use hi assms(5) q3 in linarith)
    then have "?G < poly_p" unfolding poly_powers by linarith
    then show "?A mod poly_p = ?G" unfolding AG by (simp only: mod_add_self2 mod_less)
  }
qed


lemma shr26: "unat (drop_bit 26 (x :: u32)) = unat x div 67108864"
  using unat_shr32 [of 26 x] by simp

lemma unat_add_shr26:
  assumes "unat a < 4000000000"
  shows "unat (a + drop_bit 26 c :: u32) = unat a + unat c div 67108864"
proof -
  have "unat c div 67108864 < 64" by (simp add: less_mult_imp_div_less)
  then show ?thesis using assms by (subst unat_add32) (simp_all only: shr26)
qed

lemma unat_mul_shr26: "unat (drop_bit 26 c * 5 :: u32) = unat c div 67108864 * 5"
proof -
  have "unat c div 67108864 < 64" by (simp add: less_mult_imp_div_less)
  then show ?thesis by (subst unat_mul5) (simp_all only: shr26)
qed

definition select :: "u32 \<Rightarrow> u32 \<Rightarrow> u32 \<Rightarrow> u32" where
  "select msk h g = (h AND NOT msk) OR (g AND msk)"

lemma select_mask:
  assumes "unat t < 134217728"
  shows "select (drop_bit 31 (t - push_bit 26 1) - 1) h g = (if unat t < 67108864 then h else g)"
    and "67108864 \<le> unat t \<Longrightarrow> unat (t - push_bit 26 1) = unat t - 67108864"
proof -
  have s: "unat (drop_bit 31 x) = unat x div 2147483648" for x :: u32
    using unat_shr32 [of 31 x] by simp
  have u: "unat (t - push_bit 26 1) = (if 67108864 \<le> unat t then unat t - 67108864 else unat t + 4227858432)"
    by (simp add: unat_sub_if')
  show "67108864 \<le> unat t \<Longrightarrow> unat (t - push_bit 26 1) = unat t - 67108864" using u by simp
  have "drop_bit 31 (t - push_bit 26 1) = (if unat t < 67108864 then 1 else 0)"
    unfolding word_unat_eq_iff s u using assms by (auto simp: div_nat_eqI)
  then show "select (drop_bit 31 (t - push_bit 26 1) - 1) h g = (if unat t < 67108864 then h else g)"
    by (simp add: select_def)
qed

lemma finish_reduce_val:
  assumes "acc_ok h"
  shows "length (finish_reduce h) = 5"
    and "i < 5 \<Longrightarrow> unat (finish_reduce h ! i) < 67108864"
    and "limbs (finish_reduce h) = limbs h mod poly_p"
proof -
  define h0 h1 h2 h3 h4 where hs: "h0 = h ! 0" "h1 = h ! 1" "h2 = h ! 2" "h3 = h ! 3" "h4 = h ! 4"
  have hb: "unat h0 < 67108864" "unat h1 < 67108928" "unat h2 < 67108864" "unat h3 < 67108864" "unat h4 < 67108864"
    using assms by (auto simp: acc_ok_def hs)
  define a1 k2 k3 k4 k5 where ks: "a1 = h1 AND 0x3ffffff" "k2 = h2 + drop_bit 26 h1" "k3 = h3 + drop_bit 26 k2"
    "k4 = h4 + drop_bit 26 k3" "k5 = h0 + drop_bit 26 k4 * 5"
  define a0 b1 a2 a3 a4 where as: "a0 = k5 AND 0x3ffffff" "b1 = a1 + drop_bit 26 k5" "a2 = k2 AND 0x3ffffff"
    "a3 = k3 AND 0x3ffffff" "a4 = k4 AND 0x3ffffff"
  define u0 u1 u2 u3 u4 where us: "u0 = a0 + 5" "u1 = b1 + drop_bit 26 u0" "u2 = a2 + drop_bit 26 u1"
    "u3 = a3 + drop_bit 26 u2" "u4 = a4 + drop_bit 26 u3"
  define msk where "msk = drop_bit 31 (u4 - push_bit 26 1) - 1"
  have fr: "finish_reduce h = [select msk a0 (u0 AND 0x3ffffff), select msk b1 (u1 AND 0x3ffffff),
      select msk a2 (u2 AND 0x3ffffff), select msk a3 (u3 AND 0x3ffffff), select msk a4 (u4 - push_bit 26 1)]"
    unfolding finish_reduce_def Let_def select_def msk_def us as ks hs ..
  have d1: "unat h1 div 67108864 \<le> 1" using hb(2) by linarith
  have K2: "unat k2 = unat h2 + unat h1 div 67108864"
    unfolding ks(2) using hb(3) d1 by (intro unat_add_shr26) linarith
  have d2: "unat k2 div 67108864 \<le> 1" using K2 hb(3) d1 by linarith
  have K3: "unat k3 = unat h3 + unat k2 div 67108864"
    unfolding ks(3) using hb(4) d2 by (intro unat_add_shr26) linarith
  have d3: "unat k3 div 67108864 \<le> 1" using K3 hb(4) d2 by linarith
  have K4: "unat k4 = unat h4 + unat k3 div 67108864"
    unfolding ks(4) using hb(5) d3 by (intro unat_add_shr26) linarith
  have d4: "unat k4 div 67108864 \<le> 1" using K4 hb(5) d3 by linarith
  have m5: "unat (drop_bit 26 k4 * 5) = unat k4 div 67108864 * 5"
    by (rule unat_mul_shr26)
  have "unat h0 + unat k4 div 67108864 * 5 < 4294967296" using hb(1) d4 by linarith
  then have K5: "unat k5 = unat h0 + unat k4 div 67108864 * 5"
    unfolding ks(5) m5 [symmetric] by (rule unat_add32)
  note cf = carry_full [OF hb refl refl refl refl refl refl refl refl refl refl,
      folded K2, folded K3, folded K4, folded K5]
  have A: "unat a1 = unat h1 mod 67108864" "unat a0 = unat k5 mod 67108864" "unat a2 = unat k2 mod 67108864"
    "unat a3 = unat k3 mod 67108864" "unat a4 = unat k4 mod 67108864"
    unfolding as ks(1) by (simp_all only: unat_mask26)
  have B1: "unat b1 = unat a1 + unat k5 div 67108864"
    unfolding as(2) using A(1) by (intro unat_add_shr26) linarith
  have ab: "unat a0 < 67108864" "unat b1 < 67108864" "unat a2 < 67108864" "unat a3 < 67108864" "unat a4 < 67108864"
    using cf(1) unfolding A B1 by simp_all
  have U0: "unat u0 = unat a0 + 5" unfolding us using ab(1) by (subst unat_add32) simp_all
  have U1: "unat u1 = unat b1 + unat u0 div 67108864"
    unfolding us(2) using ab by (intro unat_add_shr26) linarith
  have U2: "unat u2 = unat a2 + unat u1 div 67108864"
    unfolding us(3) using ab by (intro unat_add_shr26) linarith
  have U3: "unat u3 = unat a3 + unat u2 div 67108864"
    unfolding us(4) using ab by (intro unat_add_shr26) linarith
  have U4: "unat u4 = unat a4 + unat u3 div 67108864"
    unfolding us(5) using ab by (intro unat_add_shr26) linarith
  note sp = subtract_p [OF ab refl refl refl refl refl refl refl refl, folded U0, folded U1, folded U2,
      folded U3, folded U4]
  have u4: "unat u4 < 134217728" using U4 ab(5) sp(4) by linarith
  note sel = select_mask [OF u4, folded msk_def]
  have gb: "unat (x AND 0x3ffffff :: u32) < 67108864" for x by (simp add: unat_mask26)
  show "length (finish_reduce h) = 5" unfolding fr by simp
  show "unat (finish_reduce h ! i) < 67108864" if "i < 5"
    using less_5_cases [OF that] ab gb sel(2) u4 unfolding fr sel(1) by (elim disjE) (simp_all add: linorder_not_less, arith)
  have "limbs (finish_reduce h) =
      (unat a0 + 2 ^ 26 * unat b1 + 2 ^ 52 * unat a2 + 2 ^ 78 * unat a3 + 2 ^ 104 * unat a4) mod poly_p"
  proof (cases "unat u4 < 67108864")
    case True
    show ?thesis unfolding sp(5) [OF True] limbs_def fr list_nth sel(1) if_P [OF True] ..
  next
    case False
    then have le: "67108864 \<le> unat u4" by simp
    show ?thesis
      unfolding sp(6) [OF le] limbs_def fr list_nth sel(1) if_not_P [OF False] sel(2) [OF le] unat_mask26 ..
  qed
  also have "\<dots> = limbs h mod poly_p"
    unfolding limbs_def [of h] hs [symmetric] cf(6) A [symmetric] B1 [symmetric] by (simp only: mod_mult_self2)
  finally show "limbs (finish_reduce h) = limbs h mod poly_p" .
qed


section \<open>Packing and the pad\<close>

definition words4 :: "u32 list \<Rightarrow> nat" where
  "words4 w = unat (w ! 0) + 2 ^ 32 * unat (w ! 1) + 2 ^ 64 * unat (w ! 2) + 2 ^ 96 * unat (w ! 3)"

lemma word_powers: "(2::nat) ^ 32 = 4294967296" "(2::nat) ^ 64 = 18446744073709551616"
  "(2::nat) ^ 96 = 79228162514264337593543950336" "(2::nat) ^ 128 = 340282366920938463463374607431768211456"
  by simp_all

lemma words4_less: "words4 w < 2 ^ 128"
proof -
  have b: "unat (w ! i) + 1 \<le> 4294967296" for i using unat_u32_less [of "w ! i"] by linarith
  have "2 ^ 32 * (unat (w ! 1) + 1) \<le> (2 :: nat) ^ 32 * 4294967296"
    "2 ^ 64 * (unat (w ! 2) + 1) \<le> (2 :: nat) ^ 64 * 4294967296"
    "2 ^ 96 * (unat (w ! 3) + 1) \<le> (2 :: nat) ^ 96 * 4294967296"
    by (intro mult_le_mono2 b)+
  then show ?thesis using b [of 0] unfolding words4_def word_powers by simp
qed

lemma unat_or_shl:
  assumes "unat (x :: u32) < 2 ^ k" "k \<le> 32"
  shows "unat (x OR push_bit k y) = unat x + 2 ^ k * (unat y mod 2 ^ (32 - k))"
proof -
  have "n < k" if "bit x n" for n
  proof (rule ccontr)
    assume "\<not> n < k"
    have "take_bit k x = x"
      unfolding word_unat_eq_iff unsigned_take_bit_eq using assms(1) by (simp add: take_bit_nat_eq_self)
    then have "bit (take_bit k x) n" using that by simp
    then show False using \<open>\<not> n < k\<close> by (simp add: bit_take_bit_iff)
  qed
  moreover have "k \<le> n" if "bit (push_bit k y) n" for n using that by (simp add: bit_push_bit_iff)
  ultimately have or_add: "x OR push_bit k y = x + push_bit k y"
    by (intro disjunctive_add [symmetric]) (meson leD)
  have "unat (push_bit k y) = take_bit 32 (push_bit k (unat y))"
    by (simp only: unsigned_push_bit_eq) simp
  also have "\<dots> = 2 ^ k * unat y mod (2 ^ k * 2 ^ (32 - k))"
    using assms(2) by (simp add: take_bit_eq_mod push_bit_eq_mult mult.commute flip: power_add)
  also have "\<dots> = 2 ^ k * (unat y mod 2 ^ (32 - k))" by (simp only: mult_mod_right)
  finally have s: "unat (push_bit k y) = 2 ^ k * (unat y mod 2 ^ (32 - k))" .
  have "2 ^ k * (unat y mod 2 ^ (32 - k) + 1) \<le> (2 :: nat) ^ k * 2 ^ (32 - k)"
    by (intro mult_le_mono2) (simp add: Suc_leI)
  also have "\<dots> = 2 ^ 32" using assms(2) by (simp flip: power_add)
  finally have "unat x + 2 ^ k * (unat y mod 2 ^ (32 - k)) < 4294967296"
    using assms(1) by (simp add: distrib_left)
  then show ?thesis unfolding or_add s [symmetric] by (rule unat_add32)
qed

lemma finish_pack_val:
  assumes "\<And>i. i < 5 \<Longrightarrow> unat (h ! i) < 67108864"
  shows "words4 (finish_pack h) = limbs h mod 2 ^ 128" "length (finish_pack h) = 4"
proof -
  define a b c d e where hs: "a = h ! 0" "b = h ! 1" "c = h ! 2" "d = h ! 3" "e = h ! 4"
  have lb: "unat a < 67108864" "unat b < 67108864" "unat c < 67108864" "unat d < 67108864" "unat e < 67108864"
    unfolding hs by (rule assms, simp)+
  have w0: "unat (a OR push_bit 26 b) = unat a + 67108864 * (unat b mod 64)"
    using unat_or_shl [of a 26 b] lb by simp
  have w1: "unat (drop_bit 6 b OR push_bit 20 c) = unat b div 64 + 1048576 * (unat c mod 4096)"
    using unat_or_shl [of "drop_bit 6 b" 20 c] unat_shr32 [of 6 b] lb by (simp add: less_mult_imp_div_less)
  have w2: "unat (drop_bit 12 c OR push_bit 14 d) = unat c div 4096 + 16384 * (unat d mod 262144)"
    using unat_or_shl [of "drop_bit 12 c" 14 d] unat_shr32 [of 12 c] lb by (simp add: less_mult_imp_div_less)
  have w3: "unat (drop_bit 18 d OR push_bit 8 e) = unat d div 262144 + 256 * (unat e mod 16777216)"
    using unat_or_shl [of "drop_bit 18 d" 8 e] unat_shr32 [of 18 d] lb by (simp add: less_mult_imp_div_less)
  define x y z u where quots: "x = unat b div 64" "y = unat c div 4096" "z = unat d div 262144" "u = unat e div 16777216"
  define x' y' z' u' where rems: "x' = unat b mod 64" "y' = unat c mod 4096" "z' = unat d mod 262144" "u' = unat e mod 16777216"
  note dm = mult_div_mod_eq [symmetric]
  have s: "unat b = 64 * x + x'" "unat c = 4096 * y + y'" "unat d = 262144 * z + z'" "unat e = 16777216 * u + u'"
    unfolding quots rems by (rule dm)+
  have eq: "limbs h = words4 (finish_pack h) + 2 ^ 128 * u"
    unfolding limbs_def words4_def finish_pack_def list_nth hs [symmetric] w0 w1 w2 w3 quots [symmetric] rems [symmetric]
      poly_powers word_powers by (simp add: s algebra_simps)
  show "words4 (finish_pack h) = limbs h mod 2 ^ 128"
    unfolding eq mod_mult_self2 by (rule mod_less [symmetric]) (rule words4_less)
  show "length (finish_pack h) = 4" by (simp add: finish_pack_def)
qed

lemma finish_pad_val:
  "words4 (finish_pad pad h) = (words4 h + words4 pad) mod 2 ^ 128" "length (finish_pad pad h) = 4"
proof -
  define f0 where "f0 = (ucast (h ! 0) + ucast (pad ! 0) :: u64)"
  define f1 where "f1 = ucast (h ! 1) + ucast (pad ! 1) + drop_bit 32 f0"
  define f2 where "f2 = ucast (h ! 2) + ucast (pad ! 2) + drop_bit 32 f1"
  define f3 where "f3 = ucast (h ! 3) + ucast (pad ! 3) + drop_bit 32 f2"
  have fp: "finish_pad pad h = [ucast f0, ucast f1, ucast f2, ucast f3]"
    unfolding finish_pad_def Let_def f3_def f2_def f1_def f0_def ..
  have shr: "unat (drop_bit 32 f) = unat f div 4294967296" for f :: u64
    using unat_shr64 [of 32 f] by simp
  have u: "unat (x :: u32) < 4294967296" for x by simp
  have step: "unat (ucast x + ucast y + drop_bit 32 f :: u64) = unat x + unat y + unat f div 4294967296"
    for x y :: u32 and f
  proof -
    have "unat f < 2 ^ LENGTH(64)" by (rule unsigned_less)
    then have d: "unat f div 4294967296 < 4294967296" by (simp add: less_mult_imp_div_less)
    have 1: "unat (ucast x + ucast y :: u64) = unat x + unat y"
      by (subst unat_add64) (use u [of x] u [of y] in \<open>simp_all del: unat_u32_less\<close>)
    show ?thesis
      by (subst unat_add64) (use d u [of x] u [of y] in \<open>simp_all add: 1 shr del: unat_u32_less\<close>)
  qed
  have F0: "unat f0 = unat (h ! 0) + unat (pad ! 0)"
    unfolding f0_def by (subst unat_add64) (use u [of "h ! 0"] u [of "pad ! 0"] in \<open>simp_all del: unat_u32_less\<close>)
  note F = F0 step [of "h ! 1" "pad ! 1" f0, folded f1_def] step [of "h ! 2" "pad ! 2" f1, folded f2_def]
    step [of "h ! 3" "pad ! 3" f2, folded f3_def]
  define q0 q1 q2 q3 where quots: "q0 = unat f0 div 4294967296" "q1 = unat f1 div 4294967296"
    "q2 = unat f2 div 4294967296" "q3 = unat f3 div 4294967296"
  define m0 m1 m2 m3 where rems: "m0 = unat f0 mod 4294967296" "m1 = unat f1 mod 4294967296"
    "m2 = unat f2 mod 4294967296" "m3 = unat f3 mod 4294967296"
  note dm = mult_div_mod_eq [symmetric]
  have s: "unat f0 = 4294967296 * q0 + m0" "unat f1 = 4294967296 * q1 + m1" "unat f2 = 4294967296 * q2 + m2"
    "unat f3 = 4294967296 * q3 + m3"
    unfolding quots rems by (rule dm)+
  define x y where xy: "x i = unat (h ! i)" "y i = unat (pad ! i)" for i
  have eqs: "int (x 0) = 4294967296 * int q0 + int m0 - int (y 0)"
    "int (x 1) = 4294967296 * int q1 + int m1 - int (y 1) - int q0"
    "int (x 2) = 4294967296 * int q2 + int m2 - int (y 2) - int q1"
    "int (x 3) = 4294967296 * int q3 + int m3 - int (y 3) - int q2"
    using F s unfolding quots [symmetric] xy [symmetric] by linarith+
  have "int (words4 h + words4 pad) = int (words4 (finish_pad pad h) + 2 ^ 128 * q3)"
    unfolding fp words4_def list_nth unat_low64 rems [symmetric] word_powers xy [symmetric]
    by (simp only: of_nat_add of_nat_mult of_nat_numeral eqs) (simp add: algebra_simps)
  then have eq: "words4 h + words4 pad = words4 (finish_pad pad h) + 2 ^ 128 * q3" by (simp only: of_nat_eq_iff)
  show "words4 (finish_pad pad h) = (words4 h + words4 pad) mod 2 ^ 128"
    unfolding eq mod_mult_self2 by (rule mod_less [symmetric]) (rule words4_less)
  show "length (finish_pad pad h) = 4" unfolding fp by simp
qed


lemma le_val_le32_bytes: "le_val (le32_bytes v) = unat v"
proof -
  have "le32 (ucast v) (ucast (drop_bit 8 v)) (ucast (drop_bit 16 v)) (ucast (drop_bit 24 v)) = v"
    using le32_of_le32_bytes' [of v] by (simp add: le32_bytes_def)
  from arg_cong [OF this, of unat] show ?thesis
    unfolding unat_le32 by (simp add: le32_bytes_def)
qed

lemma le_val_words4:
  assumes "length w = 4"
  shows "le_val (concat (map le32_bytes w)) = words4 w"
proof -
  obtain a b c d where "w = [a, b, c, d]" using assms by (auto simp: length_Suc_conv numeral_eq_Suc)
  then show ?thesis by (simp add: words4_def le_val_append le_val_le32_bytes)
qed

lemma le_val_inject: "length xs = length ys \<Longrightarrow> le_val xs = le_val ys \<Longrightarrow> xs = ys"
proof (induction xs ys rule: list_induct2)
  case (Cons x xs y ys)
  have "unat x = (unat x + 256 * le_val xs) mod 256" "unat y = (unat y + 256 * le_val ys) mod 256" by simp_all
  moreover have "(unat x + 256 * le_val xs) mod 256 = (unat y + 256 * le_val ys) mod 256"
    using Cons.prems by (simp only: le_val.simps)
  ultimately have "x = y" unfolding word_unat_eq_iff by metis
  then show ?case using Cons by simp
qed simp

lemma le_val_of_nat: "le_val (map (\<lambda>i. of_nat (n div 256 ^ i)) [0..<k]) = n mod 256 ^ k"
proof (induction k)
  case (Suc k)
  have "unat (of_nat (n div 256 ^ k) :: u8) = n div 256 ^ k mod 256" by (simp add: unat_of_nat take_bit_eq_mod)
  then show ?case using Suc by (simp add: le_val_append mod_mult2_eq mult.commute [of 256])
qed simp

lemma mac_bytes:
  assumes "length w = 4"
  shows "concat (map le32_bytes w) = map (\<lambda>i. of_nat (words4 w div 256 ^ i)) [0..<16]"
proof (rule le_val_inject)
  show "length (concat (map le32_bytes w)) = length (map (\<lambda>i. of_nat (words4 w div 256 ^ i) :: u8) [0..<16])"
    using assms by (simp add: length_concat_const [of _ _ 4])
  show "le_val (concat (map le32_bytes w)) = le_val (map (\<lambda>i. of_nat (words4 w div 256 ^ i)) [0..<16])"
    unfolding le_val_words4 [OF assms] le_val_of_nat using words4_less [of w] by simp
qed

section \<open>The key\<close>

lemma word32_eqI: "(\<forall>i \<in> set [0..<32]. bit a i = bit b i) \<Longrightarrow> a = (b :: u32)"
  by (rule bit_word_eqI) simp

lemma bit_u8_high: "8 \<le> n \<Longrightarrow> \<not> bit (x :: u8) n"
  by (auto dest: bit_imp_le_length)

lemma clamp_limbs:
  "le32 a b c d AND 0x3ffffff = le32 a b c (d AND 15) AND 0x3ffffff"
  "drop_bit 2 (le32 d e f g) AND 0x3ffff03 = drop_bit 2 (le32 (d AND 15) (e AND 252) f g) AND 0x3ffffff"
  "drop_bit 4 (le32 g h i j) AND 0x3ffc0ff = drop_bit 4 (le32 g (h AND 15) (i AND 252) j) AND 0x3ffffff"
  "drop_bit 6 (le32 j k l m) AND 0x3f03fff = drop_bit 6 (le32 j k (l AND 15) (m AND 252)) AND 0x3ffffff"
  "drop_bit 8 (le32 m n q p) AND 0x00fffff = drop_bit 8 (le32 (m AND 252) n q (p AND 15))"
  by (rule word32_eqI; simp add: upt_conv_Cons le32_def bit_simps bit_u8_high)+


lemma init_key:
  assumes "32 \<le> length key"
  shows "key_ok (p_r (poly1305_init st key))" "limbs (p_r (poly1305_init st key)) = le_val (clamp_r key)"
    "words4 (p_pad (poly1305_init st key)) = le_val (seg key 16 16)"
proof -
  have len: "length (clamp_r key) = 16" by (simp add: clamp_r_def)
  have nth: "clamp_r key ! i = key ! i AND (if i \<in> {3, 7, 11, 15} then 15 else if i \<in> {4, 8, 12} then 252 else 255)"
    if "i < 16" for i using that by (simp add: clamp_r_def)
  have and255: "x AND 255 = x" for x :: u8
    by (rule bit_word_eqI) (auto simp: bit_simps less_Suc_eq numeral_eq_Suc)
  have r: "p_r (poly1305_init st key) = msg_limbs (clamp_r key) (hibit_of True)"
    unfolding poly1305_init_def msg_limbs_def U8TO32_def
    by (simp add: nth and255) (intro conjI clamp_limbs)
  show "key_ok (p_r (poly1305_init st key))" "limbs (p_r (poly1305_init st key)) = le_val (clamp_r key)"
    unfolding r key_ok_def using msg_limbs_val [of "clamp_r key", where f = True] len
    by (simp_all add: length_msg_limbs)
  have "length (p_pad (poly1305_init st key)) = 4" by (simp add: poly1305_init_def)
  from le_val_words4 [OF this] have "words4 (p_pad (poly1305_init st key)) =
      le_val (concat (map le32_bytes (p_pad (poly1305_init st key))))" by simp
  moreover have "concat (map le32_bytes (p_pad (poly1305_init st key))) = map (\<lambda>i. key ! (16 + i)) [0..<16]"
    by (simp add: poly1305_init_def U8TO32_def upt_conv_Cons)
  moreover have "\<dots> = seg key 16 16" using assms by (intro nth_equalityI) simp_all
  ultimately show "words4 (p_pad (poly1305_init st key)) = le_val (seg key 16 16)" by simp
qed

section \<open>Streaming equals the reference\<close>

definition p_pending :: "poly1305_state \<Rightarrow> bytes" where
  "p_pending st = take (p_leftover st) (p_buffer st)"

definition p_ok :: "poly1305_state \<Rightarrow> bool" where
  "p_ok st \<longleftrightarrow> acc_ok (p_h st) \<and> key_ok (p_r st) \<and> length (p_buffer st) = 16 \<and> p_leftover st < 16 \<and> \<not> p_final st"

abbreviation p_acc :: "poly1305_state \<Rightarrow> nat" where
  "p_acc st \<equiv> limbs (p_h st) mod poly_p"

lemma rfc_poly_Cons:
  "msg \<noteq> [] \<Longrightarrow> rfc_poly r acc msg = rfc_poly r ((acc + le_val (take 16 msg @ [1])) * r mod poly_p) (drop 16 msg)"
  by (subst rfc_poly.simps) (simp only: if_False)

lemma rfc_poly_Nil [simp]: "rfc_poly r acc [] = acc"
  by (subst rfc_poly.simps) (simp only: if_True simp_thms)

lemma le_val_full: "length m = 16 \<Longrightarrow> le_val (m @ [1]) = le_val m + 2 ^ 128"
  by (simp add: le_val_append)

lemma blocks_loop_val:
  assumes "acc_ok h" "key_ok r" "16 dvd length m"
  shows "acc_ok (blocks_loop r (push_bit 24 1) m h) \<and>
    rfc_poly (limbs r) (limbs (blocks_loop r (push_bit 24 1) m h) mod poly_p) rest =
      rfc_poly (limbs r) (limbs h mod poly_p) (m @ rest)"
  using assms(1,3)
proof (induction m arbitrary: h rule: measure_induct_rule [of length])
  case (less m)
  show ?case
  proof (cases "m = []")
    case True
    then show ?thesis using less.prems by (subst (1 2) blocks_loop.simps) simp
  next
    case False
    then have l: "16 \<le> length m" using less.prems(2) by (simp add: dvd_imp_le)
    let ?h = "poly1305_block r (push_bit 24 1) m h"
    note bl = poly1305_block_val [OF less.prems(1) assms(2) l, where f = False, unfolded if_False]
    have sh: "length (drop 16 m) < length m" using l by simp
    have dv: "16 dvd length (drop 16 m)" using less.prems(2) l by (simp add: dvd_diff_nat)
    have step: "rfc_poly (limbs r) (limbs h mod poly_p) (m @ rest) = rfc_poly (limbs r) (limbs ?h mod poly_p) (drop 16 m @ rest)"
      unfolding bl(2) using l False by (subst rfc_poly_Cons) (simp_all add: le_val_full del: power_numeral)
    show ?thesis
      using less.IH [OF sh bl(1) dv] l step by (subst (1 2) blocks_loop.simps) (simp only: if_True)
  qed
qed


text \<open>The two halves of \<^verbatim>\<open>poly1305_update\<close>: topping up a partial block, and the rest.\<close>

definition absorb_rest :: "poly1305_state \<Rightarrow> bytes \<Rightarrow> poly1305_state" where
  "absorb_rest st m =
     (let want = 16 * (length m div 16); st = (if length m \<ge> 16 then poly1305_blocks st (take want m) else st);
          m = (if length m \<ge> 16 then drop want m else m)
      in if m \<noteq> [] then st\<lparr>p_buffer := put_seg (p_buffer st) (p_leftover st) m, p_leftover := p_leftover st + length m\<rparr>
         else st)"

definition topped_up :: "poly1305_state \<Rightarrow> bytes \<Rightarrow> poly1305_state" where
  "topped_up st m = st\<lparr>p_buffer := put_seg (p_buffer st) (p_leftover st) m, p_leftover := p_leftover st + length m\<rparr>"

lemma poly1305_update_eq:
  "p_leftover st < 16 \<Longrightarrow> poly1305_update st m =
     (if p_leftover st = 0 then absorb_rest st m
      else if p_leftover st + length m < 16 then topped_up st m
      else let k = 16 - p_leftover st; st' = topped_up st (take k m)
           in absorb_rest ((poly1305_blocks st' (p_buffer st'))\<lparr>p_leftover := 0\<rparr>) (drop k m))"
proof -
  define k where "k = min (16 - p_leftover st) (length m)"
  define s1 where "s1 = st\<lparr>p_buffer := put_seg (p_buffer st) (p_leftover st) (take k m), p_leftover := p_leftover st + k\<rparr>"
  have top: "s1 = topped_up st (take k m)" by (simp add: s1_def topped_up_def k_def)
  assume lo: "p_leftover st < 16"
  have "poly1305_update st m =
      (case (if p_leftover st \<noteq> 0 then
               if p_leftover s1 < 16 then (s1, drop k m, False)
               else ((poly1305_blocks s1 (p_buffer s1))\<lparr>p_leftover := 0\<rparr>, drop k m, True)
             else (st, m, True)) of (st, m, again) \<Rightarrow> if \<not> again then st else absorb_rest st m)"
    unfolding poly1305_update_def absorb_rest_def Let_def s1_def k_def ..
  also have "\<dots> = (if p_leftover st = 0 then absorb_rest st m
      else if p_leftover s1 < 16 then s1
      else absorb_rest ((poly1305_blocks s1 (p_buffer s1))\<lparr>p_leftover := 0\<rparr>) (drop k m))"
    by (cases "p_leftover st = 0"; cases "p_leftover s1 < 16") simp_all
  finally have eq: "poly1305_update st m = \<dots>" .
  have s1: "p_leftover s1 = p_leftover st + k" by (simp add: s1_def)
  show ?thesis
  proof (cases "p_leftover st + length m < 16")
    case True
    then have "k = length m" by (simp add: k_def)
    then show ?thesis unfolding eq using True s1 by (simp add: top)
  next
    case False
    then have "k = 16 - p_leftover st" by (simp add: k_def)
    then show ?thesis unfolding eq Let_def using False s1 lo by (simp add: top)
  qed
qed

definition absorbed :: "poly1305_state \<Rightarrow> bytes \<Rightarrow> poly1305_state \<Rightarrow> bool" where
  "absorbed st m st' \<longleftrightarrow> p_ok st' \<and> p_r st' = p_r st \<and> p_pad st' = p_pad st \<and>
     (\<forall>rest. rfc_poly (limbs (p_r st)) (p_acc st') (p_pending st' @ rest) =
             rfc_poly (limbs (p_r st)) (p_acc st) (p_pending st @ m @ rest))"

lemma absorbed_trans: "absorbed st m st' \<Longrightarrow> absorbed st' m' st'' \<Longrightarrow> absorbed st (m @ m') st''"
  by (simp add: absorbed_def del: power_numeral)

lemma poly1305_blocks_val:
  assumes "acc_ok (p_h st)" "key_ok (p_r st)" "\<not> p_final st" "16 dvd length m"
  shows "acc_ok (p_h (poly1305_blocks st m)) \<and>
    rfc_poly (limbs (p_r st)) (p_acc (poly1305_blocks st m)) rest = rfc_poly (limbs (p_r st)) (p_acc st) (m @ rest)"
  using blocks_loop_val [OF assms(1,2,4), of rest] assms(3) unfolding poly1305_blocks_def by simp

lemma topped_up_absorbed:
  assumes "p_ok st" "p_leftover st + length m < 16"
  shows "absorbed st m (topped_up st m)"
proof -
  have ok: "p_ok (topped_up st m)" using assms by (simp add: p_ok_def topped_up_def)
  have pend: "p_pending (topped_up st m) = p_pending st @ m"
    using assms by (simp add: p_ok_def topped_up_def p_pending_def put_seg_def)
  have same: "p_h (topped_up st m) = p_h st" "p_r (topped_up st m) = p_r st" "p_pad (topped_up st m) = p_pad st"
    by (simp_all add: topped_up_def)
  show ?thesis unfolding absorbed_def pend same append_assoc using ok by blast
qed

lemma p_fields_blocks [simp]:
  "p_r (poly1305_blocks st m) = p_r st" "p_pad (poly1305_blocks st m) = p_pad st"
  "p_leftover (poly1305_blocks st m) = p_leftover st" "p_buffer (poly1305_blocks st m) = p_buffer st"
  "p_final (poly1305_blocks st m) = p_final st"
  by (simp_all add: poly1305_blocks_def)

lemma absorb_rest_absorbed:
  assumes "p_ok st" "p_leftover st = 0"
  shows "absorbed st m (absorb_rest st m)"
proof -
  let ?w = "16 * (length m div 16)"
  let ?st = "poly1305_blocks st (take ?w m)"
  have d: "16 dvd length (take ?w m)" by simp
  have eq: "absorb_rest st m = (if drop ?w m = [] then ?st else topped_up ?st (drop ?w m))"
  proof (cases "16 \<le> length m")
    case True
    then show ?thesis unfolding absorb_rest_def topped_up_def Let_def by simp
  next
    case False
    then have "?w = 0" by simp
    moreover have "poly1305_blocks st [] = st"
      unfolding poly1305_blocks_def by (subst blocks_loop.simps) simp
    ultimately show ?thesis using False unfolding absorb_rest_def topped_up_def Let_def by auto
  qed
  have 1: "absorbed st (take ?w m) ?st"
    using poly1305_blocks_val [of st, OF _ _ _ d] assms unfolding absorbed_def p_ok_def p_pending_def
    by (simp del: power_numeral)
  have l: "length (drop ?w m) < 16" by (simp add: minus_mult_div_eq_mod)
  have 2: "absorbed ?st (drop ?w m) (absorb_rest st m)"
  proof (cases "drop ?w m = []")
    case True
    then show ?thesis unfolding eq using 1 by (simp add: absorbed_def del: power_numeral drop_eq_Nil)
  next
    case False
    have "p_ok ?st" using 1 by (simp add: absorbed_def)
    then show ?thesis unfolding eq using False l assms(2) by (simp add: topped_up_absorbed del: drop_eq_Nil)
  qed
  show ?thesis using absorbed_trans [OF 1 2] by (simp only: append_take_drop_id)
qed

lemma poly1305_update_absorbed:
  assumes "p_ok st"
  shows "absorbed st m (poly1305_update st m)"
proof -
  have lo: "p_leftover st < 16" using assms by (simp add: p_ok_def)
  consider "p_leftover st = 0" | "p_leftover st \<noteq> 0" "p_leftover st + length m < 16"
    | "p_leftover st \<noteq> 0" "16 \<le> p_leftover st + length m" by linarith
  then show ?thesis
  proof cases
    case 1
    then show ?thesis using absorb_rest_absorbed [OF assms] by (simp add: poly1305_update_eq)
  next
    case 2
    then show ?thesis using topped_up_absorbed [OF assms] lo by (simp add: poly1305_update_eq)
  next
    case 3
    define k where "k = 16 - p_leftover st"
    define s1 where "s1 = topped_up st (take k m)"
    define s2 where "s2 = (poly1305_blocks s1 (p_buffer s1))\<lparr>p_leftover := 0\<rparr>"
    have up: "poly1305_update st m = absorb_rest s2 (drop k m)"
      unfolding poly1305_update_eq [OF lo] s2_def s1_def k_def Let_def using 3 by simp
    have buf: "p_buffer s1 = p_pending st @ take k m" "length (p_buffer s1) = 16"
      using assms 3 by (simp_all add: s1_def k_def topped_up_def p_pending_def p_ok_def put_seg_def)
    have s1: "acc_ok (p_h s1)" "key_ok (p_r s1)" "\<not> p_final s1" "p_h s1 = p_h st" "p_r s1 = p_r st" "p_pad s1 = p_pad st"
      using assms by (simp_all add: s1_def topped_up_def p_ok_def)
    have "absorbed st (take k m) s2"
      using poly1305_blocks_val [OF s1(1-3), of "p_buffer s1"] buf s1
      unfolding absorbed_def p_ok_def s2_def p_pending_def by (simp del: power_numeral)
    moreover have "absorbed s2 (drop k m) (absorb_rest s2 (drop k m))"
      using calculation by (intro absorb_rest_absorbed) (simp_all add: absorbed_def s2_def)
    ultimately show ?thesis unfolding up using absorbed_trans by fastforce
  qed
qed


lemma finish_last_block:
  assumes "p_ok st" "p_leftover st \<noteq> 0"
  defines "st' \<equiv> st\<lparr>p_buffer := put_seg (p_buffer st) (p_leftover st) (1 # replicate (16 - (p_leftover st + 1)) 0),
                  p_final := True\<rparr>"
  shows "acc_ok (p_h (poly1305_blocks st' (p_buffer st')))"
    and "p_acc (poly1305_blocks st' (p_buffer st')) = rfc_poly (limbs (p_r st)) (p_acc st) (p_pending st)"
proof -
  have buf: "p_buffer st' = p_pending st @ 1 # replicate (16 - (p_leftover st + 1)) 0"
    and len: "length (p_buffer st') = 16" and lp: "length (p_pending st) = p_leftover st"
    using assms(1) by (simp_all add: st'_def p_ok_def p_pending_def put_seg_def)
  have ok: "acc_ok (p_h st)" "key_ok (p_r st)" using assms(1) by (simp_all add: p_ok_def)
  have one: "p_h (poly1305_blocks st' (p_buffer st')) = poly1305_block (p_r st) (hibit_of True) (p_buffer st') (p_h st)"
    unfolding poly1305_blocks_def using len
    by (subst blocks_loop.simps, subst blocks_loop.simps) (simp add: st'_def)
  note bv = poly1305_block_val [OF ok, of "p_buffer st'", where f = True, unfolded if_True]
  show "acc_ok (p_h (poly1305_blocks st' (p_buffer st')))" unfolding one using bv(1) len by simp
  have "le_val (take 16 (p_buffer st')) = le_val (p_pending st @ [1])"
    using len unfolding buf by (simp add: le_val_append)
  then have "p_acc (poly1305_blocks st' (p_buffer st')) =
      (p_acc st + le_val (p_pending st @ [1])) * limbs (p_r st) mod poly_p"
    unfolding one if_True using bv(2) len by (simp only: order_refl add_0_right simp_thms)
  moreover have "p_pending st \<noteq> []" "take 16 (p_pending st) = p_pending st" "drop 16 (p_pending st) = []"
    using assms(1,2) lp by (auto simp: p_ok_def)
  ultimately show "p_acc (poly1305_blocks st' (p_buffer st')) = rfc_poly (limbs (p_r st)) (p_acc st) (p_pending st)"
    by (subst rfc_poly_Cons) (simp_all only: rfc_poly_Nil simp_thms)
qed

lemma poly1305_finish_val:
  assumes "p_ok st"
  shows "snd (poly1305_finish st) =
    (let n = (rfc_poly (limbs (p_r st)) (p_acc st) (p_pending st) + words4 (p_pad st)) mod 2 ^ 128
     in map (\<lambda>i. of_nat (n div 256 ^ i)) [0..<16])"
proof -
  let ?b = "put_seg (p_buffer st) (p_leftover st) (1 # replicate (16 - (p_leftover st + 1)) 0)"
  define s where "s = (if p_leftover st \<noteq> 0 then poly1305_blocks (st\<lparr>p_buffer := ?b, p_final := True\<rparr>) ?b else st)"
  define w where "w = finish_pad (p_pad s) (finish_pack (finish_reduce (p_h s)))"
  have fin: "snd (poly1305_finish st) = concat (map le32_bytes w)"
    unfolding poly1305_finish_def w_def s_def Let_def by simp
  have s: "acc_ok (p_h s) \<and> p_acc s = rfc_poly (limbs (p_r st)) (p_acc st) (p_pending st) \<and> p_pad s = p_pad st"
  proof (cases "p_leftover st = 0")
    case True
    then show ?thesis using assms unfolding s_def p_pending_def by (simp add: p_ok_def del: power_numeral)
  next
    case False
    then show ?thesis using finish_last_block [OF assms False] unfolding s_def by (simp del: power_numeral)
  qed
  note fr = finish_reduce_val [OF conjunct1 [OF s]]
  have pk: "words4 (finish_pack (finish_reduce (p_h s))) = p_acc s mod 2 ^ 128"
    unfolding fr(3) [symmetric] by (rule finish_pack_val(1)) (rule fr(2))
  have w: "words4 w = (rfc_poly (limbs (p_r st)) (p_acc st) (p_pending st) + words4 (p_pad st)) mod 2 ^ 128"
    unfolding w_def finish_pad_val(1) pk using s by (simp only: mod_add_left_eq)
  have "length w = 4" unfolding w_def by (rule finish_pad_val(2))
  then show ?thesis unfolding fin Let_def w [symmetric] by (rule mac_bytes)
qed

lemma poly1305_chunks_absorbed:
  "p_ok st \<Longrightarrow> absorbed st (concat chunks) (fold (\<lambda>x s. poly1305_update s x) chunks st)"
proof (induction chunks arbitrary: st)
  case Nil
  then show ?case by (simp add: absorbed_def del: power_numeral)
next
  case (Cons c chunks)
  note up = poly1305_update_absorbed [OF Cons.prems, of c]
  then have "p_ok (poly1305_update st c)" by (simp add: absorbed_def)
  from absorbed_trans [OF up Cons.IH [OF this]] show ?case by simp
qed

lemma poly1305_chunks:
  assumes "32 \<le> length key" "length (p_buffer st) = 16"
  shows "snd (poly1305_finish (fold (\<lambda>x s. poly1305_update s x) chunks (poly1305_init st key))) =
    rfc_poly1305 key (concat chunks)"
proof -
  let ?i = "poly1305_init st key"
  have h: "p_h ?i = [0, 0, 0, 0, 0]" "p_leftover ?i = 0" "p_buffer ?i = p_buffer st" "\<not> p_final ?i"
    by (simp_all add: poly1305_init_def)
  note k = init_key [OF assms(1), of st]
  have ok: "p_ok ?i" unfolding p_ok_def h(1,2,3) acc_ok_def using k(1) h(4) assms(2) by simp
  have acc: "p_acc ?i = 0" unfolding h(1) limbs_def by simp
  have pend: "p_pending ?i = []" by (simp add: p_pending_def h)
  let ?s = "fold (\<lambda>x s. poly1305_update s x) chunks ?i"
  have ab: "p_ok ?s" "p_r ?s = p_r ?i" "p_pad ?s = p_pad ?i"
    "rfc_poly (limbs (p_r ?i)) (p_acc ?s) (p_pending ?s @ []) = rfc_poly (limbs (p_r ?i)) (p_acc ?i) (p_pending ?i @ concat chunks @ [])"
    using poly1305_chunks_absorbed [OF ok, of chunks] unfolding absorbed_def by blast+
  show ?thesis
    unfolding poly1305_finish_val [OF ab(1)] rfc_poly1305_def ab(2,3)
    using ab(4) unfolding append_Nil2 acc pend append_Nil k(2,3) by (simp only:)
qed

section \<open>Properties\<close>

text \<open>Property C15. However a message is cut into calls of update, the limb arithmetic yields the
  authenticator of RFC 8439: the polynomial in the clamped key over the blocks of the whole
  message, modulo 2^130 - 5, plus the pad modulo 2^128. No carry or product is lost.\<close>

theorem poly1305_streaming:
  assumes "length key = 32" "length (p_buffer st) = 16"
  shows "snd (poly1305_finish (fold (\<lambda>x s. poly1305_update s x) chunks (poly1305_init st key))) =
    rfc_poly1305 key (concat chunks)"
  using poly1305_chunks assms by simp

theorem poly1305_streaming_witness:
  "snd (poly1305_finish (poly1305_update (poly1305_update (poly1305_init p_state0 (replicate 32 7)) [1, 2, 3]) (replicate 40 9))) =
    rfc_poly1305 (replicate 32 7) ([1, 2, 3] @ replicate 40 9)"
  using poly1305_streaming [of "replicate 32 7" p_state0 "[[1, 2, 3], replicate 40 9]"] by (simp add: p_state0_def)

end
