(* ===== verification/Aead.thy ===== *)
theory Aead
  imports Chacha20 Poly1305
begin

text \<open>
  \<^verbatim>\<open>wireguard/crypto/refc/chacha20poly1305.c\<close>: the authenticated encryption of every tunnel
  packet and handshake field, and its variant with a 24-byte nonce used for cookies. Lengths
  are the code's 32-bit \<^verbatim>\<open>size_t\<close> where they are rounded up. The Poly1305 state on the stack
  of the C functions starts uninitialised; \<open>p_state0\<close> stands for it, and \<open>poly1305_chunks\<close>
  shows that its contents do not matter. The specification is RFC 8439, section 2.8, with the
  tag and the key stream of the reference functions.
\<close>

section \<open>The code\<close>

definition generate_poly1305_key :: "bytes \<Rightarrow> u64 \<Rightarrow> poly1305_state \<times> chacha20_ctx" where
  "generate_poly1305_key key nonce =
     (let (chacha20_state, block) = chacha20 (chacha20_init key nonce) (replicate 32 0)
      in (poly1305_init p_state0 block, chacha20_state))"

definition padding :: "nat \<Rightarrow> bytes" where
  "padding n =
     (let padded_len = (of_nat n + 15) AND 0xFFFFFFF0 :: u32
      in replicate (unat (padded_len - of_nat n)) 0)"

definition mac_data :: "poly1305_state \<Rightarrow> bytes \<Rightarrow> bytes \<Rightarrow> bytes" where
  "mac_data st ad ct =
     (let st = poly1305_update st ad;
          st = poly1305_update st (padding (length ad));
          st = poly1305_update st ct;
          st = poly1305_update st (padding (length ct));
          st = poly1305_update st (U64TO8_LITTLE (of_nat (length ad)));
          st = poly1305_update st (U64TO8_LITTLE (of_nat (length ct)))
      in snd (poly1305_finish st))"

definition chacha20poly1305_encrypt :: "bytes \<Rightarrow> bytes \<Rightarrow> u64 \<Rightarrow> bytes \<Rightarrow> bytes" where
  "chacha20poly1305_encrypt src ad nonce key =
     (let (poly1305_state, chacha20_state) = generate_poly1305_key key nonce;
          dst = snd (chacha20 chacha20_state src)
      in dst @ mac_data poly1305_state ad dst)"

definition chacha20poly1305_decrypt :: "bytes \<Rightarrow> bytes \<Rightarrow> u64 \<Rightarrow> bytes \<Rightarrow> bytes option" where
  "chacha20poly1305_decrypt src ad nonce key =
     (if length src \<ge> 16 then
        let dst_len = length src - 16;
            (poly1305_state, chacha20_state) = generate_poly1305_key key nonce;
            mac = mac_data poly1305_state ad (take dst_len src)
        in if crypto_equal mac (drop dst_len src) 16
           then Some (snd (chacha20 chacha20_state (take dst_len src))) else None
      else None)"

definition xchacha20poly1305_encrypt :: "bytes \<Rightarrow> bytes \<Rightarrow> bytes \<Rightarrow> bytes \<Rightarrow> bytes" where
  "xchacha20poly1305_encrypt src ad nonce key =
     chacha20poly1305_encrypt src ad (U8TO64_LITTLE (drop 16 nonce)) (hchacha20 nonce key)"

definition xchacha20poly1305_decrypt :: "bytes \<Rightarrow> bytes \<Rightarrow> bytes \<Rightarrow> bytes \<Rightarrow> bytes option" where
  "xchacha20poly1305_decrypt src ad nonce key =
     chacha20poly1305_decrypt src ad (U8TO64_LITTLE (drop 16 nonce)) (hchacha20 nonce key)"

section \<open>The specification\<close>

definition rfc_otk :: "bytes \<Rightarrow> u64 \<Rightarrow> bytes" where
  "rfc_otk key nonce = map (keystream (chacha20_init key nonce)) [0..<32]"

definition rfc_pad :: "nat \<Rightarrow> bytes" where
  "rfc_pad n = replicate ((16 - n mod 16) mod 16) 0"

definition rfc_tag :: "bytes \<Rightarrow> u64 \<Rightarrow> bytes \<Rightarrow> bytes \<Rightarrow> bytes" where
  "rfc_tag key nonce ad ct = rfc_poly1305 (rfc_otk key nonce)
     (ad @ rfc_pad (length ad) @ ct @ rfc_pad (length ct) @
      U64TO8_LITTLE (of_nat (length ad)) @ U64TO8_LITTLE (of_nat (length ct)))"

definition rfc_crypt :: "bytes \<Rightarrow> u64 \<Rightarrow> bytes \<Rightarrow> bytes" where
  "rfc_crypt key nonce m = map (\<lambda>i. m ! i XOR keystream (chacha20_init key nonce) (64 + i)) [0..<length m]"

lemma padding_eq [simp]: "padding n = rfc_pad n"
proof -
  let ?n = "of_nat n :: u32"
  let ?N = "unat ?n"
  have "x AND NOT (mask 4) = push_bit 4 (drop_bit 4 x)" for x :: u32
    by (rule bit_word_eqI) (auto simp: bit_simps)
  moreover have "NOT (mask 4) = (0xFFFFFFF0 :: u32)" by (simp add: mask_eq_exp_minus_1)
  moreover have "unat (push_bit 4 (drop_bit 4 x)) = 16 * (unat x div 16)" for x :: u32
    using unat_or_shl [of 0 4 "drop_bit 4 x"] unat_shr32 [of 4 x] by (simp add: less_mult_imp_div_less)
  ultimately have p: "unat ((?n + 15) AND 0xFFFFFFF0) = 16 * (unat (?n + 15) div 16)" by (simp only:)
  have N: "?N < 4294967296" "?N mod 16 = n mod 16"
    by (simp, simp add: unat_of_nat take_bit_eq_mod mod_mod_cancel)
  obtain q r where qr: "?N = 16 * q + r" "r < 16" "?N mod 16 = r"
    using mod_less_divisor [of 16 ?N] mult_div_mod_eq [of 16 ?N] by (metis zero_less_numeral)
  have "unat (((?n + 15) AND 0xFFFFFFF0) - ?n) = (16 - r) mod 16"
  proof (cases "?N + 15 < 4294967296")
    case True
    then have "unat (?n + 15) = ?N + 15" by (subst unat_add32) simp_all
    moreover have "16 * ((16 * q + r + 15) div 16) = (if r = 0 then 16 * q else 16 * q + 16)"
      using qr(2) by (auto simp: add.assoc div_nat_eqI)
    ultimately have u: "unat ((?n + 15) AND 0xFFFFFFF0) = (if r = 0 then 16 * q else 16 * q + 16)"
      unfolding p qr(1) by simp
    show ?thesis unfolding unat_sub_if' u qr(1) using qr(2) by (auto simp: mod_if)
  next
    case False
    have "(?N + 15) mod 4294967296 = ?N + 15 - 4294967296"
      using False N(1) by (subst le_mod_geq) (simp_all del: unat_u32_less)
    then have "unat (?n + 15) = ?N + 15 - 4294967296" by (simp only: unat_word_ariths(1)) simp
    moreover have "?N + 15 - 4294967296 < 16" using N(1) by linarith
    ultimately have z: "unat ((?n + 15) AND 0xFFFFFFF0) = 0" unfolding p by (simp only: div_less mult_0_right)
    have q: "q = 268435455" using False N(1) qr(1,2) by linarith
    then have r: "r \<noteq> 0" using False qr(1) by simp
    show ?thesis unfolding unat_sub_if' z qr(1) q using r qr(2) by simp
  qed
  then have "unat (((?n + 15) AND 0xFFFFFFF0) - ?n) = (16 - n mod 16) mod 16" using qr(3) N(2) by simp
  then show ?thesis by (simp add: padding_def rfc_pad_def)
qed

lemma length_rfc_otk [simp]: "length (rfc_otk key nonce) = 32"
  by (simp add: rfc_otk_def)

lemma length_rfc_tag [simp]: "length (rfc_tag key nonce ad ct) = 16"
  by (simp add: rfc_tag_def rfc_poly1305_def Let_def)

lemma length_rfc_crypt [simp]: "length (rfc_crypt key nonce m) = length m"
  by (simp add: rfc_crypt_def)

lemma rfc_crypt_twice [simp]: "rfc_crypt key nonce (rfc_crypt key nonce m) = m"
  by (intro nth_equalityI) (simp_all add: rfc_crypt_def xor.assoc)

text \<open>Drawing the one-time key uses up one block of the key stream.\<close>

lemma generate_key_otk:
  "generate_poly1305_key key nonce =
     (poly1305_init p_state0 (rfc_otk key nonce), at_counter (chacha20_init key nonce) (Suc 0))"
proof -
  let ?c = "chacha20_init key nonce"
  have "snd (chacha20 ?c (replicate 32 0)) = rfc_otk key nonce"
    by (intro nth_equalityI) (simp_all add: chacha20_keystream rfc_otk_def)
  moreover have "fst (chacha20 ?c (replicate 32 0)) = at_counter ?c (Suc 0)"
    by (simp add: chacha20_keystream)
  ultimately show ?thesis by (auto simp: generate_poly1305_key_def split: prod.splits)
qed

lemma at_counter_Suc_div:
  "length ctx = 16 \<Longrightarrow> at_counter (at_counter ctx (Suc 0)) (i div 64) = at_counter ctx ((64 + i) div 64)"
proof -
  have "(64 + i) div 64 = Suc (i div 64)" by simp
  then show "length ctx = 16 \<Longrightarrow> ?thesis" using at_counter_Suc [of ctx "i div 64"] by (simp add: at_counter_def)
qed

lemma keystream_at_1: "length ctx = 16 \<Longrightarrow> keystream (at_counter ctx (Suc 0)) i = keystream ctx (64 + i)"
  by (simp add: keystream_def at_counter_Suc_div)

lemma length_at_counter [simp]: "length (at_counter ctx n) = length ctx"
  by (simp add: at_counter_def)

lemma crypt_eq: "snd (chacha20 (at_counter (chacha20_init key nonce) (Suc 0)) m) = rfc_crypt key nonce m"
  by (subst conjunct1 [OF chacha20_keystream]) (simp_all add: keystream_at_1 rfc_crypt_def)

lemma mac_data_tag: "mac_data (poly1305_init p_state0 (rfc_otk key nonce)) ad ct = rfc_tag key nonce ad ct"
  using poly1305_chunks [of "rfc_otk key nonce" p_state0
    "[ad, rfc_pad (length ad), ct, rfc_pad (length ct), U64TO8_LITTLE (of_nat (length ad)), U64TO8_LITTLE (of_nat (length ct))]"]
  by (simp add: mac_data_def Let_def rfc_tag_def p_state0_def)

lemma encrypt_spec:
  "chacha20poly1305_encrypt src ad nonce key =
     rfc_crypt key nonce src @ rfc_tag key nonce ad (rfc_crypt key nonce src)"
  by (simp add: chacha20poly1305_encrypt_def generate_key_otk crypt_eq mac_data_tag Let_def)

lemma decrypt_spec:
  "chacha20poly1305_decrypt src ad nonce key =
     (let n = length src - 16; ct = take n src in
      if 16 \<le> length src \<and> drop n src = rfc_tag key nonce ad ct then Some (rfc_crypt key nonce ct) else None)"
  by (auto simp: chacha20poly1305_decrypt_def generate_key_otk crypt_eq mac_data_tag Let_def crypto_equal_iff)

lemma decrypt_encrypt: "chacha20poly1305_decrypt (chacha20poly1305_encrypt m ad nonce key) ad nonce key = Some m"
  by (simp add: encrypt_spec decrypt_spec Let_def)

lemma length_encrypt [simp]: "length (chacha20poly1305_encrypt m ad nonce key) = length m + 16"
  by (simp add: encrypt_spec)

lemma length_xencrypt [simp]: "length (xchacha20poly1305_encrypt m ad nonce key) = length m + 16"
  by (simp add: xchacha20poly1305_encrypt_def)

lemma decrypt_length: "chacha20poly1305_decrypt c ad nonce key = Some m \<Longrightarrow> length c = length m + 16"
  by (auto simp: decrypt_spec Let_def split: if_splits)

lemma xdecrypt_xencrypt: "xchacha20poly1305_decrypt (xchacha20poly1305_encrypt m ad nonce key) ad nonce key = Some m"
  by (simp add: xchacha20poly1305_encrypt_def xchacha20poly1305_decrypt_def decrypt_encrypt)

section \<open>Properties\<close>

text \<open>Property C17. What one end seals the other end opens, for both nonce sizes and any payload,
  additional data, nonce and key; the sealed form is 16 bytes longer.\<close>

theorem aead_roundtrip:
  "chacha20poly1305_decrypt (chacha20poly1305_encrypt m ad nonce key) ad nonce key = Some m \<and>
   length (chacha20poly1305_encrypt m ad nonce key) = length m + 16 \<and>
   xchacha20poly1305_decrypt (xchacha20poly1305_encrypt m ad xnonce key) ad xnonce key = Some m"
  by (simp add: decrypt_encrypt xdecrypt_xencrypt)

text \<open>Property C16. The implementation is RFC 8439's construction, errors included: sealing appends the
  reference tag to the plaintext combined with the key stream from block 1 on; opening yields
  the plaintext when the last 16 bytes are the reference tag of the rest, and nothing when
  they are not or when fewer than 16 bytes came in.\<close>

theorem aead_equals_rfc:
  "chacha20poly1305_encrypt src ad nonce key =
     rfc_crypt key nonce src @ rfc_tag key nonce ad (rfc_crypt key nonce src) \<and>
   chacha20poly1305_decrypt src ad nonce key =
     (let n = length src - 16; ct = take n src in
      if 16 \<le> length src \<and> drop n src = rfc_tag key nonce ad ct then Some (rfc_crypt key nonce ct) else None)"
  using encrypt_spec decrypt_spec by simp

end
