(* ===== verification/Base64.thy ===== *)
theory Base64
  imports Prelude
begin

text \<open>
  The base64 codec of \<^verbatim>\<open>wireguard/wireguard.c\<close>, through which the console, the web pages and
  the configuration exchange keys. A C string is the list of its bytes before the terminating zero.
  What a call writes is returned as a list in the order of the writes, which start at the first byte of the
  output buffer; the buffer's size is the argument \<open>outlen\<close>. Lengths are below \<open>2 ^ 31\<close>, as the
  code's \<open>int\<close> counters need.
\<close>

section \<open>Operations\<close>

definition base64_lookup :: bytes where
  "base64_lookup = ascii ''ABCDEFGHIJKLMNOPQRSTUVWXYZabcdefghijklmnopqrstuvwxyz0123456789+/''"

fun strchr :: "bytes \<Rightarrow> u8 \<Rightarrow> nat option" where
  "strchr [] c = None"
| "strchr (x # xs) c = (if x = c then Some 0 else map_option Suc (strchr xs c))"

record b64_state =
  accum :: u32
  char_count :: nat
  byte_count :: int
  written :: bytes

text \<open>The value of one character: \<open>None\<close> where the loop breaks, otherwise its bits and the bytes now
  expected of the block.\<close>

definition decode_char :: "u8 \<Rightarrow> int \<Rightarrow> (u8 \<times> int) option" where
  "decode_char c bcount =
     (if c = 0x3D then (if bcount - 1 < 0 then None else Some (0, bcount - 1))
      else if bcount \<noteq> 3 then None
      else case strchr base64_lookup c of
             None \<Rightarrow> None
           | Some p \<Rightarrow> Some (of_nat p AND 0x3F, bcount))"

fun decode_loop :: "nat \<Rightarrow> bytes \<Rightarrow> b64_state \<Rightarrow> bool \<times> b64_state" where
  "decode_loop outlen [] s = (True, s)"
| "decode_loop outlen (c # cs) s =
     (case decode_char c (byte_count s) of
        None \<Rightarrow> (False, if c = 0x3D then s\<lparr>byte_count := byte_count s - 1\<rparr> else s)
      | Some (bits, bc) \<Rightarrow>
          let s = s\<lparr>byte_count := bc, accum := push_bit 6 (accum s) OR ucast bits, char_count := char_count s + 1\<rparr> in
          if char_count s = 4 then
            if int (length (written s)) + bc > int outlen then (False, s)
            else decode_loop outlen cs
              (s\<lparr>written := written s @ [ucast (drop_bit 16 (accum s) AND 0xFF)] @
                   (if bc > 1 then [ucast (drop_bit 8 (accum s) AND 0xFF)] else []) @
                   (if bc > 2 then [ucast (accum s AND 0xFF)] else []),
                 char_count := 0, accum := 0\<rparr>)
          else decode_loop outlen cs s)"

definition wireguard_base64_decode :: "bytes option \<Rightarrow> nat \<Rightarrow> bool \<times> bytes \<times> nat" where
  "wireguard_base64_decode str outlen =
     (case str of None \<Rightarrow> (False, [], outlen)
      | Some s \<Rightarrow>
          let (result, st) = decode_loop outlen s \<lparr>accum = 0, char_count = 0, byte_count = 3, written = []\<rparr>
          in (result \<and> char_count st = 0, written st, length (written st)))"

fun next_byte :: "bytes \<Rightarrow> u8 \<times> bytes" where
  "next_byte [] = (0, [])"
| "next_byte (b # bs) = (b, bs)"

lemma length_next_byte [simp]: "length (snd (next_byte bs)) = length bs - 1"
  by (cases bs) simp_all

definition b64_char :: "u32 \<Rightarrow> u8" where
  "b64_char v = base64_lookup ! unat (v AND 0x3F)"

function encode_loop :: "nat \<Rightarrow> nat \<Rightarrow> bytes \<Rightarrow> bytes" where
  "encode_loop lim write_offset input =
     (if input = [] then []
      else let (byte1, r) = next_byte input; (byte2, r) = next_byte r; (byte3, r) = next_byte r;
               tmp = push_bit 16 (ucast byte1) OR push_bit 8 (ucast byte2) OR ucast byte3
           in b64_char (drop_bit 18 tmp) # b64_char (drop_bit 12 tmp) #
              (if write_offset + 2 < lim then b64_char (drop_bit 6 tmp) else 0x3D) #
              (if write_offset + 3 < lim then b64_char tmp else 0x3D) #
              encode_loop lim (write_offset + 4) r)"
  by auto
termination
proof (relation "measure (\<lambda>(_, _, input). length input)")
  fix lim w :: nat and input b1 r1 b2 r2 b3 r3 and xa xb xc
  assume "input \<noteq> []" "xa = next_byte input" "(b1, r1) = xa" "xb = next_byte r1" "(b2, r2) = xb"
    "xc = next_byte r2" "(b3, r3) = xc"
  then show "((lim, w + 4, r3), lim, w, input) \<in> measure (\<lambda>(_, _, input). length input)"
    using length_next_byte [of input] length_next_byte [of r1] length_next_byte [of r2]
    by (cases input) (auto simp del: length_next_byte, metis (no_types, lifting) diff_le_self le_imp_less_Suc le_trans snd_conv)
qed simp

declare encode_loop.simps [simp del]

definition wireguard_base64_encode :: "bytes \<Rightarrow> nat \<Rightarrow> (bytes \<times> nat) option" where
  "wireguard_base64_encode input outlen =
     (let inlen = length input; len = 4 * ((inlen + 2) div 3);
          padding = 3 - inlen mod 3; padding = (if padding > 2 then 0 else padding)
      in if outlen > len then Some (encode_loop (len - padding) 0 input @ [0], len) else None)"


section \<open>Round trip\<close>

lemma base64_lookup_eq:
  "base64_lookup = [65, 66, 67, 68, 69, 70, 71, 72, 73, 74, 75, 76, 77, 78, 79, 80, 81, 82, 83, 84, 85, 86, 87, 88, 89, 90, 97, 98, 99, 100, 101, 102, 103, 104, 105, 106, 107, 108, 109, 110, 111, 112, 113, 114, 115, 116, 117, 118, 119, 120, 121, 122, 48, 49, 50, 51, 52, 53, 54, 55, 56, 57, 43, 47]"
  by (simp add: base64_lookup_def ascii_def)

lemma distinct_lookup: "distinct base64_lookup" "0x3D \<notin> set base64_lookup" "length base64_lookup = 64"
  unfolding base64_lookup_eq by simp_all

lemma strchr_nth: "distinct xs \<Longrightarrow> i < length xs \<Longrightarrow> strchr xs (xs ! i) = Some i"
  by (induction xs arbitrary: i) (auto simp: nth_Cons' gr0_conv_Suc)

lemma mask6: "(0x3F :: u32) = mask 6" "(0xFF :: u32) = mask 8" "(0x3F :: u8) = mask 6"
  by (simp_all add: mask_eq_exp_minus_1)

lemma decode_b64_char: "decode_char (b64_char v) 3 = Some (ucast (v AND 0x3F), 3)"
proof -
  have lt: "unat (v AND 0x3F) < 64"
    using word_and_le1 [of v "0x3F"] by (simp add: word_le_nat_alt)
  have "of_nat (unat (v AND 0x3F)) AND 0x3F = (ucast (v AND 0x3F) :: u8)"
    unfolding mask6 of_nat_unat by (rule bit_word_eqI) (auto simp: bit_simps)
  moreover have "b64_char v \<noteq> 0x3D" using distinct_lookup lt nth_mem unfolding b64_char_def by metis
  ultimately show ?thesis using strchr_nth [OF distinct_lookup(1), unfolded distinct_lookup(3), OF lt]
    by (simp add: decode_char_def b64_char_def)
qed

lemma decode_pad: "0 < n \<Longrightarrow> decode_char 0x3D n = Some (0, n - 1)"
  by (simp add: decode_char_def)

definition tri :: "u8 \<Rightarrow> u8 \<Rightarrow> u8 \<Rightarrow> u32" where
  "tri a b c = push_bit 16 (ucast a) OR push_bit 8 (ucast b) OR ucast c"

abbreviation (input) six :: "u32 \<Rightarrow> u32" where "six v \<equiv> ucast (ucast (v AND 0x3F) :: u8)"

lemma six_eq: "six v = v AND 0x3F"
  unfolding mask6 by (rule bit_word_eqI) (auto simp: bit_simps)

lemma join6: "push_bit 6 (drop_bit 6 v) OR v AND 0x3F = (v :: u32)"
  unfolding mask6 by (rule bit_word_eqI) (auto simp: bit_simps)

lemma tri_top: "drop_bit 18 (tri a b c) AND 0x3F = drop_bit 18 (tri a b c)"
  unfolding mask6 tri_def by (rule bit_word_eqI) (auto simp: bit_simps dest: bit_imp_le_length)

lemma regroup:
  "push_bit 6 (push_bit 6 (push_bit 6 (six (drop_bit 18 (tri a b c))) OR six (drop_bit 12 (tri a b c))) OR
     six (drop_bit 6 (tri a b c))) OR six (tri a b c) = tri a b c"
proof -
  have "push_bit 6 (drop_bit 18 v) OR drop_bit 12 v AND 0x3F = drop_bit 12 v"
    "push_bit 6 (drop_bit 12 v) OR drop_bit 6 v AND 0x3F = drop_bit 6 v" for v :: u32
    using join6 [of "drop_bit 12 v"] join6 [of "drop_bit 6 v"] by simp_all
  then show ?thesis unfolding six_eq by (simp only: tri_top join6)
qed

lemma tri_bytes:
  "ucast (drop_bit 16 (tri a b c) AND 0xFF) = a" "ucast (drop_bit 8 (tri a b c) AND 0xFF) = b" "ucast (tri a b c AND 0xFF) = c"
  unfolding mask6 tri_def by (rule bit_word_eqI; auto simp: bit_simps dest: bit_imp_le_length)+

lemma decode_block:
  assumes "decode_char c1 3 = Some (v1, 3)" "decode_char c2 3 = Some (v2, 3)"
    and "decode_char c3 3 = Some (v3, n3)" "decode_char c4 n3 = Some (v4, n4)"
    and "push_bit 6 (push_bit 6 (push_bit 6 (ucast v1) OR ucast v2) OR ucast v3) OR ucast v4 = tri a b c"
    and "int (length w) + n4 \<le> int outlen"
  shows "decode_loop outlen (c1 # c2 # c3 # c4 # cs) \<lparr>accum = 0, char_count = 0, byte_count = 3, written = w\<rparr> =
    decode_loop outlen cs \<lparr>accum = 0, char_count = 0, byte_count = n4,
      written = w @ [a] @ (if n4 > 1 then [b] else []) @ (if n4 > 2 then [c] else [])\<rparr>"
proof -
  have t: "ucast (drop_bit 16 (tri a b c) AND 255) = a" "ucast (drop_bit 8 (tri a b c) AND 255) = b"
    "ucast (tri a b c AND 255) = c" by (rule tri_bytes)+
  have "push_bit 6 0 OR v = v" for v :: u32 by simp
  then show ?thesis using assms(6)
    by (simp only: decode_loop.simps assms(1-4) option.case prod.case Let_def b64_state.simps assms(5) t)
      (simp add: assms(5) t not_less del: push_bit_or push_bit_push_bit)
qed

lemma tri_zero:
  "ucast (0 :: u8) = six (tri a b 0)" "ucast (0 :: u8) = six (drop_bit 6 (tri a 0 0))"
  unfolding six_eq unfolding mask6 tri_def
  by (rule bit_word_eqI; auto simp: bit_simps dest: bit_imp_le_length)+

lemma decode_three:
  assumes "length w + 3 \<le> outlen"
  shows "decode_loop outlen (b64_char (drop_bit 18 (tri a b c)) # b64_char (drop_bit 12 (tri a b c)) #
       b64_char (drop_bit 6 (tri a b c)) # b64_char (tri a b c) # cs)
     \<lparr>accum = 0, char_count = 0, byte_count = 3, written = w\<rparr> =
   decode_loop outlen cs \<lparr>accum = 0, char_count = 0, byte_count = 3, written = w @ [a, b, c]\<rparr>"
  using assms decode_block [OF decode_b64_char decode_b64_char decode_b64_char decode_b64_char regroup] by simp

lemma decode_two:
  assumes "length w + 2 \<le> outlen"
  shows "decode_loop outlen [b64_char (drop_bit 18 (tri a b 0)), b64_char (drop_bit 12 (tri a b 0)),
       b64_char (drop_bit 6 (tri a b 0)), 0x3D]
     \<lparr>accum = 0, char_count = 0, byte_count = 3, written = w\<rparr> =
   (True, \<lparr>accum = 0, char_count = 0, byte_count = 2, written = w @ [a, b]\<rparr>)"
  using assms decode_block [OF decode_b64_char decode_b64_char decode_b64_char decode_pad [of 3]
      regroup [of a b 0, folded tri_zero(1)], of w outlen "[]"] by simp

lemma decode_one:
  assumes "length w + 1 \<le> outlen"
  shows "decode_loop outlen [b64_char (drop_bit 18 (tri a 0 0)), b64_char (drop_bit 12 (tri a 0 0)), 0x3D, 0x3D]
     \<lparr>accum = 0, char_count = 0, byte_count = 3, written = w\<rparr> =
   (True, \<lparr>accum = 0, char_count = 0, byte_count = 1, written = w @ [a]\<rparr>)"
  using assms decode_block [OF decode_b64_char decode_b64_char decode_pad [of 3] decode_pad [of "3 - 1"]
      regroup [of a 0 0, folded tri_zero], of w outlen "[]"] by simp


definition b64_limit :: "nat \<Rightarrow> nat" where
  "b64_limit n = 4 * ((n + 2) div 3) - (if 3 - n mod 3 > 2 then 0 else 3 - n mod 3)"

lemma b64_limit_simps:
  "b64_limit (Suc (Suc (Suc n))) = 4 + b64_limit n" "b64_limit 1 = 2" "b64_limit 2 = 3"
proof -
  have "(Suc (Suc (Suc n)) + 2) div 3 = Suc ((n + 2) div 3)" "Suc (Suc (Suc n)) mod 3 = n mod 3"
    using mod_add_self2 [of n 3] by simp_all
  moreover have "3 - n mod 3 > 2 \<or> 3 - n mod 3 \<le> 4 * ((n + 2) div 3)"
  proof (cases n)
    case (Suc k)
    then have "1 \<le> (n + 2) div 3" by (simp add: Suc_le_eq div_greater_zero_iff)
    then show ?thesis by linarith
  qed simp
  ultimately show "b64_limit (Suc (Suc (Suc n))) = 4 + b64_limit n" by (auto simp: b64_limit_def)
qed (simp_all add: b64_limit_def)


lemma decode_encode_loop:
  assumes "length wr + length input \<le> outlen"
  shows "\<exists>bc. decode_loop outlen (encode_loop (w + b64_limit (length input)) w input)
           \<lparr>accum = 0, char_count = 0, byte_count = 3, written = wr\<rparr> =
         (True, \<lparr>accum = 0, char_count = 0, byte_count = bc, written = wr @ input\<rparr>)"
  using assms
proof (induction "length input" arbitrary: input w wr rule: less_induct)
  case less
  consider "input = []" | a where "input = [a]" | a b where "input = [a, b]"
    | a b c r where "input = a # b # c # r" by (metis list.exhaust)
  then show ?case
  proof cases
    case 1
    then show ?thesis by (simp add: encode_loop.simps)
  next
    case (2 a)
    then show ?thesis using less.prems decode_one [of wr outlen a]
      by (simp add: encode_loop.simps [of _ _ "[a]"] encode_loop.simps [of _ _ "[]"] b64_limit_simps [unfolded One_nat_def]
        tri_def)
  next
    case (3 a b)
    then show ?thesis using less.prems decode_two [of wr outlen a b]
      by (simp add: encode_loop.simps [of _ _ "[a, b]"] encode_loop.simps [of _ _ "[]"]
        b64_limit_simps [unfolded numeral_2_eq_2] tri_def)
  next
    case (4 a b c r)
    have "\<exists>bc. decode_loop outlen (encode_loop ((w + 4) + b64_limit (length r)) (w + 4) r)
        \<lparr>accum = 0, char_count = 0, byte_count = 3, written = wr @ [a, b, c]\<rparr> =
      (True, \<lparr>accum = 0, char_count = 0, byte_count = bc, written = (wr @ [a, b, c]) @ r\<rparr>)"
      by (rule less.hyps) (use less.prems 4 in auto)
    then show ?thesis using less.prems 4 decode_three [of wr outlen a b c]
      by (simp add: encode_loop.simps [of _ _ "a # b # c # r"] b64_limit_simps tri_def add.assoc)
  qed
qed

lemma length_encode_loop: "length (encode_loop lim w input) = 4 * ((length input + 2) div 3)"
proof (induction "length input" arbitrary: input w rule: less_induct)
  case less
  have five: "(5 + n) div 3 = Suc ((n + 2) div 3)" for n :: nat
    using div_add_self2 [of 3 "n + 2"] by (simp add: add.commute)
  consider "input = []" | a where "input = [a]" | a b where "input = [a, b]"
    | a b c r where "input = a # b # c # r" by (metis list.exhaust)
  then show ?case
    by cases (use less.hyps in \<open>auto simp: encode_loop.simps [of _ _ "_ # _"] encode_loop.simps [of _ _ "[]"] Let_def five\<close>)
qed

lemma b64_char_nonzero: "b64_char v \<noteq> 0"
proof -
  have "unat (v AND 0x3F) < 64" using word_and_le1 [of v "0x3F"] by (simp add: word_le_nat_alt)
  then have "b64_char v \<in> set base64_lookup" using distinct_lookup(3) nth_mem unfolding b64_char_def by metis
  moreover have "0 \<notin> set base64_lookup" unfolding base64_lookup_eq by simp
  ultimately show ?thesis by metis
qed

lemma encode_loop_nonzero: "0 \<notin> set (encode_loop lim w input)"
  by (induction lim w input rule: encode_loop.induct)
    (subst encode_loop.simps, auto simp: b64_char_nonzero b64_char_nonzero [symmetric] Let_def split: prod.splits)

section \<open>Bounds of the decoder\<close>

text \<open>What holds between two characters: as long as no padding has been seen whole blocks of three
  bytes have been written, and once a padded block has been written too little padding is left for another block.\<close>

definition b64_inv :: "nat \<Rightarrow> b64_state \<Rightarrow> bool" where
  "b64_inv outlen s \<longleftrightarrow> 0 \<le> byte_count s \<and> byte_count s \<le> 3 \<and> char_count s < 4 \<and> length (written s) \<le> outlen \<and>
     (if byte_count s = 3 then length (written s) mod 3 = 0
      else length (written s) mod 3 = 0 \<or> byte_count s + int (char_count s) \<le> 2)"

lemma decode_char_count: "decode_char c n = Some (bits, bc) \<Longrightarrow> (bc = n \<and> n = 3) \<or> (bc = n - 1 \<and> 0 \<le> bc)"
  by (auto simp: decode_char_def split: if_splits option.splits)

lemma b64_inv_block:
  assumes "b64_inv outlen s" "decode_char c (byte_count s) = Some (bits, bc)" "char_count s = 3"
    and "int (length (written s)) + bc \<le> int outlen" "outlen mod 3 \<noteq> 0"
    and "length w = length (written s) + (if bc > 2 then 3 else if bc > 1 then 2 else 1)"
  shows "b64_inv outlen \<lparr>accum = a, char_count = 0, byte_count = bc, written = w\<rparr>"
proof (cases "bc = 3")
  case True
  then show ?thesis using assms decode_char_count [OF assms(2)] by (auto simp: b64_inv_def)
next
  case False
  then have "bc \<le> 2" "0 \<le> bc" "length (written s) mod 3 = 0"
    using assms(1,3) decode_char_count [OF assms(2)] by (auto simp: b64_inv_def split: if_splits)
  moreover have "length (written s) < outlen" using assms(4,5) calculation by (cases "length (written s) = outlen") auto
  ultimately show ?thesis using assms(4,6) by (auto simp: b64_inv_def)
qed

lemma b64_inv_char:
  assumes "b64_inv outlen s" "decode_char c (byte_count s) = Some (bits, bc)" "char_count s \<noteq> 3"
  shows "b64_inv outlen (s\<lparr>byte_count := bc, accum := a, char_count := Suc (char_count s)\<rparr>)"
  using assms(1,3) decode_char_count [OF assms(2)] by (auto simp: b64_inv_def split: if_splits)

lemma decode_loop_bound:
  assumes "b64_inv outlen s" "outlen mod 3 \<noteq> 0"
  shows "length (written (snd (decode_loop outlen cs s))) \<le> outlen"
  using assms(1)
proof (induction cs arbitrary: s)
  case (Cons c cs)
  show ?case
  proof (cases "decode_char c (byte_count s)")
    case None
    then show ?thesis using Cons.prems by (auto simp: b64_inv_def)
  next
    case (Some p)
    then obtain bits bc where d: "decode_char c (byte_count s) = Some (bits, bc)" by (cases p) simp
    consider "char_count s \<noteq> 3" | "char_count s = 3" "int (length (written s)) + bc > int outlen"
      | "char_count s = 3" "int (length (written s)) + bc \<le> int outlen" by linarith
    then show ?thesis
    proof cases
      case 1
      then show ?thesis using d Cons.IH [OF b64_inv_char [OF Cons.prems d 1]] by (simp add: Let_def)
    next
      case 2
      then show ?thesis using d Cons.prems by (simp add: Let_def b64_inv_def)
    next
      case 3
      then show ?thesis using d Cons.IH [OF b64_inv_block [OF Cons.prems d 3(1,2) assms(2)]] by (cases s) (simp add: Let_def)
    qed
  qed
qed (simp add: b64_inv_def)

lemma decode_encode:
  assumes "length input \<le> room"
  shows "wireguard_base64_decode (Some (encode_loop (b64_limit (length input)) 0 input)) room = (True, input, length input)"
  using decode_encode_loop [of "[]" input room 0] assms by (auto simp: wireguard_base64_decode_def)

section \<open>Properties\<close>

text \<open>Whatever is encoded is decoded to itself: for every list of bytes and a buffer with room for the text
  and its terminator, the encoder writes the text, of four characters for every three bytes begun and none of them zero,
  and the terminating zero; the decoder given that text and a buffer of at least the original size returns the original
  bytes and their number. A buffer with no room for the terminator is refused.\<close>

theorem base64_roundtrip:
  assumes "length input \<le> room"
  shows "case wireguard_base64_encode input outlen of
      None \<Rightarrow> outlen \<le> 4 * ((length input + 2) div 3)
    | Some (text, n) \<Rightarrow> n = 4 * ((length input + 2) div 3) \<and> n < outlen \<and>
        (\<exists>t. text = t @ [0] \<and> 0 \<notin> set t \<and> length t = n \<and>
          wireguard_base64_decode (Some t) room = (True, input, length input))"
  using decode_encode [OF assms, unfolded b64_limit_def] encode_loop_nonzero length_encode_loop
  by (auto simp: wireguard_base64_encode_def Let_def)

theorem base64_roundtrip_witness:
  "\<exists>t. wireguard_base64_encode [1, 2, 3, 4] 9 = Some (t @ [0], 8) \<and>
     wireguard_base64_decode (Some t) 32 = (True, [1, 2, 3, 4], 4)"
proof -
  have "wireguard_base64_encode [1, 2, 3, 4] 9 \<noteq> None" by (simp add: wireguard_base64_encode_def)
  then show ?thesis using base64_roundtrip [of "[1, 2, 3, 4]" 32 9] by (auto split: option.splits)
qed

text \<open>The decoder stays within its buffer when the buffer's size is not a multiple of three, whatever the
  text, as with the 32 and 64 bytes its callers pass. With a multiple of three it need not: three padding characters
  are accepted as a block of no bytes, for which one byte is written.\<close>

theorem base64_decode_bounds:
  "(outlen mod 3 \<noteq> 0 \<longrightarrow> length (fst (snd (wireguard_base64_decode str outlen))) \<le> outlen) \<and>
   wireguard_base64_decode (Some (ascii ''QUJDA==='')) 3 = (True, [65, 66, 67, 0], 4)"
proof
  have "b64_inv outlen \<lparr>accum = 0, char_count = 0, byte_count = 3, written = []\<rparr>" by (simp add: b64_inv_def)
  from decode_loop_bound [OF this]
  show "outlen mod 3 \<noteq> 0 \<longrightarrow> length (fst (snd (wireguard_base64_decode str outlen))) \<le> outlen"
    by (auto simp: wireguard_base64_decode_def split: option.splits prod.splits) (metis snd_conv)
qed code_simp

theorem base64_decode_bounds_witness:
  "length (fst (snd (wireguard_base64_decode (Some (ascii ''QUJDA==='')) 32))) \<le> 32"
  using base64_decode_bounds [of 32] by simp

end
