(* ===== verification/X25519.thy ===== *)
theory X25519
  imports Poly1305
begin

text \<open>
  \<^verbatim>\<open>wireguard/crypto/refc/x25519.c\<close>: key exchange on Curve25519. A field element (\<^verbatim>\<open>fe\<close>) is
  eight limbs of 32 bits, least significant first, not reduced: the routines keep the value
  below 2^256 and congruent, and only \<open>canon\<close> reduces it. The reference is RFC 7748: the
  Montgomery ladder on whole numbers modulo 2^255 - 19.
\<close>

section \<open>The code\<close>

subsection \<open>Field elements\<close>

type_synonym fe = "u32 list"

abbreviation (input) NLIMBS :: nat where "NLIMBS \<equiv> 8"

text \<open>\<^verbatim>\<open>umaal\<close>, \<^verbatim>\<open>adc\<close> and \<^verbatim>\<open>adc0\<close> return the limb and, in place of writing \<^verbatim>\<open>*carry\<close>, the
  new carry. \<^verbatim>\<open>dlimb_t\<close> is \<^verbatim>\<open>uint64_t\<close>.\<close>

definition umaal :: "u32 \<Rightarrow> u32 \<Rightarrow> u32 \<Rightarrow> u32 \<Rightarrow> u32 \<times> u32" where
  "umaal carry acc mand mier =
     (let tmp = ucast mand * ucast mier + ucast acc + ucast carry :: u64
      in (ucast tmp, ucast (drop_bit 32 tmp)))"

definition adc :: "u32 \<Rightarrow> u32 \<Rightarrow> u32 \<Rightarrow> u32 \<times> u32" where
  "adc carry acc mand =
     (let total = ucast carry + ucast acc + ucast mand :: u64 in (ucast total, ucast (drop_bit 32 total)))"

definition adc0 :: "u32 \<Rightarrow> u32 \<Rightarrow> u32 \<times> u32" where
  "adc0 carry acc = (let total = ucast carry + ucast acc :: u64 in (ucast total, ucast (drop_bit 32 total)))"

text \<open>The loops over the limbs. Each walks the limbs in order and reads a limb before it writes
  it, so an output that is also an input (as in \<^verbatim>\<open>add(z2,z2,t1)\<close>) is no different from a fresh
  one. They return the limbs written and the last carry.\<close>

fun adc0_loop :: "u32 \<Rightarrow> fe \<Rightarrow> fe \<times> u32" where
  "adc0_loop carry [] = ([], carry)"
| "adc0_loop carry (x # xs) =
     (let (y, c) = adc0 carry x; (ys, c') = adc0_loop c xs in (y # ys, c'))"

definition propagate :: "fe \<Rightarrow> u32 \<Rightarrow> fe" where
  "propagate x over =
     (let over = drop_bit 31 (x ! (NLIMBS - 1)) OR push_bit 1 over;
          x = x[NLIMBS - 1 := x ! (NLIMBS - 1) AND NOT (push_bit 31 1)];
          carry = over * 19
      in fst (adc0_loop carry x))"

fun adc_loop :: "u32 \<Rightarrow> fe \<Rightarrow> fe \<Rightarrow> fe \<times> u32" where
  "adc_loop carry (a # as) (b # bs) =
     (let (y, c) = adc carry a b; (ys, c') = adc_loop c as bs in (y # ys, c'))"
| "adc_loop carry _ _ = ([], carry)"

definition fe_add :: "fe \<Rightarrow> fe \<Rightarrow> fe" where
  "fe_add a b = (let (out, carry) = adc_loop 0 a b in propagate out carry)"

text \<open>\<^verbatim>\<open>sdlimb_t\<close> is \<^verbatim>\<open>int64_t\<close>: the carry is kept in 64 bits and shifted arithmetically.\<close>

fun sbc_loop :: "u64 \<Rightarrow> fe \<Rightarrow> fe \<Rightarrow> fe \<times> u64" where
  "sbc_loop carry (a # as) (b # bs) =
     (let carry = carry + ucast a - ucast b;
          (ys, c') = sbc_loop (signed_drop_bit 32 carry) as bs
      in (ucast carry # ys, c'))"
| "sbc_loop carry _ _ = ([], carry)"

definition fe_sub :: "fe \<Rightarrow> fe \<Rightarrow> fe" where
  "fe_sub a b = (let (out, carry) = sbc_loop (- 38) a b in propagate out (ucast (1 + carry)))"

fun umaal_row :: "u32 \<Rightarrow> fe \<Rightarrow> u32 \<Rightarrow> fe \<Rightarrow> fe \<times> u32" where
  "umaal_row carry (acc # accs) mand (a # as) =
     (let (y, c) = umaal carry acc mand a; (ys, c') = umaal_row c accs mand as in (y # ys, c'))"
| "umaal_row carry _ mand _ = ([], carry)"

fun mul_loop :: "fe \<Rightarrow> fe \<Rightarrow> nat \<Rightarrow> u32 list \<Rightarrow> u32 list" where
  "mul_loop a [] i accum = accum"
| "mul_loop a (mand # bs) i accum =
     (let (row, carry2) = umaal_row 0 (take NLIMBS (drop i accum)) mand a
      in mul_loop a bs (i + 1) (take i accum @ row @ [carry2] @ drop (i + NLIMBS + 1) accum))"

definition fe_mul :: "fe \<Rightarrow> fe \<Rightarrow> nat \<Rightarrow> fe" where
  "fe_mul a b nb =
     (let accum = mul_loop a (take nb b) 0 (replicate (2 * NLIMBS) 0);
          (out, carry2) = umaal_row 0 (take NLIMBS accum) 38 (drop NLIMBS accum)
      in propagate out carry2)"

text \<open>\<^verbatim>\<open>mul1(out,a)\<close> is \<^verbatim>\<open>mul(out,a,out,NLIMBS)\<close>; \<open>mul1 out a\<close> is the new \<open>out\<close>.\<close>

definition sqr :: "fe \<Rightarrow> fe" where
  "sqr a = fe_mul a a NLIMBS"

definition mul1 :: "fe \<Rightarrow> fe \<Rightarrow> fe" where
  "mul1 out a = fe_mul a out NLIMBS"

definition sqr1 :: "fe \<Rightarrow> fe" where
  "sqr1 a = mul1 a a"

definition condswap :: "u32 list \<Rightarrow> u32 list \<Rightarrow> u32 \<Rightarrow> u32 list \<times> u32 list" where
  "condswap a b doswap =
     (let xor = map2 (\<lambda>x y. (x XOR y) AND doswap) a b in (map2 (XOR) a xor, map2 (XOR) b xor))"

fun canon_loop :: "u64 \<Rightarrow> u32 \<Rightarrow> fe \<Rightarrow> fe \<times> u32" where
  "canon_loop carry res [] = ([], res)"
| "canon_loop carry res (x # xs) =
     (let carry = carry + ucast x; y = ucast carry;
          (ys, res') = canon_loop (signed_drop_bit 32 carry) (res OR y) xs
      in (y # ys, res'))"

definition canon :: "fe \<Rightarrow> fe \<times> u32" where
  "canon x =
     (let (x, carry0) = adc0_loop 19 x;
          x = propagate x carry0;
          (x, res) = canon_loop (- 19) 0 x
      in (x, ucast (drop_bit 32 (ucast res - 1 :: u64))))"

fun swapin :: "bytes \<Rightarrow> fe" where
  "swapin (a # b # c # d # rest) = le32 a b c d # swapin rest"
| "swapin _ = []"

definition swapout :: "fe \<Rightarrow> bytes" where
  "swapout x = concat (map le32_bytes x)"

subsection \<open>The ladder\<close>

definition a24 :: fe where
  "a24 = [121665]"

text \<open>The five elements \<^verbatim>\<open>xs\<close> are \<open>[x2, z2, x3, z3, t1]\<close>.\<close>

definition ladder_part1 :: "fe list \<Rightarrow> fe list" where
  "ladder_part1 xs =
     (let x2 = xs ! 0; z2 = xs ! 1; x3 = xs ! 2; z3 = xs ! 3;
          t1 = fe_add x2 z2;
          z2 = fe_sub x2 z2;
          x2 = fe_add x3 z3;
          z3 = fe_sub x3 z3;
          z3 = mul1 z3 t1;
          x2 = mul1 x2 z2;
          x3 = fe_add z3 x2;
          z3 = fe_sub z3 x2;
          t1 = sqr1 t1;
          z2 = sqr1 z2;
          x2 = fe_sub t1 z2;
          z2 = fe_mul x2 a24 1;
          z2 = fe_add z2 t1
      in [x2, z2, x3, z3, t1])"

definition ladder_part2 :: "fe list \<Rightarrow> fe \<Rightarrow> fe list" where
  "ladder_part2 xs x1 =
     (let x2 = xs ! 0; z2 = xs ! 1; x3 = xs ! 2; z3 = xs ! 3; t1 = xs ! 4;
          z3 = sqr1 z3;
          z3 = mul1 z3 x1;
          x3 = sqr1 x3;
          z2 = mul1 z2 x2;
          x2 = fe_sub t1 x2;
          x2 = mul1 x2 t1
      in [x2, z2, x3, z3, t1])"

text \<open>\<^verbatim>\<open>condswap(x2, x3, m)\<close> covers sixteen limbs from each pointer: \<open>x2\<close> with the \<open>z2\<close> that follows
  it in \<^verbatim>\<open>xs\<close>, and \<open>x3\<close> with \<open>z3\<close>.\<close>

definition swap_points :: "fe list \<Rightarrow> u32 \<Rightarrow> fe list" where
  "swap_points xs m =
     (let (p, q) = condswap (xs ! 0 @ xs ! 1) (xs ! 2 @ xs ! 3) m
      in [take NLIMBS p, drop NLIMBS p, take NLIMBS q, drop NLIMBS q, xs ! 4])"

definition scalar_byte :: "bytes \<Rightarrow> bool \<Rightarrow> nat \<Rightarrow> u8" where
  "scalar_byte scalar clamp k =
     (if clamp then
        if k = 0 then scalar ! k AND NOT 7
        else if k = 31 then (scalar ! k AND 0x7F) OR 0x40
        else scalar ! k
      else scalar ! k)"

text \<open>The loop of \<^verbatim>\<open>x25519_core\<close> with \<open>n\<close> rounds left: \<^verbatim>\<open>i\<close> is \<open>n - 1\<close>.\<close>

fun core_loop :: "bytes \<Rightarrow> bool \<Rightarrow> fe \<Rightarrow> nat \<Rightarrow> u32 \<Rightarrow> fe list \<Rightarrow> u32 \<times> fe list" where
  "core_loop scalar clamp x1 0 swap xs = (swap, xs)"
| "core_loop scalar clamp x1 (Suc i) swap xs =
     (let bytei = scalar_byte scalar clamp (i div 8);
          doswap = - (ucast (drop_bit (i mod 8) bytei AND 1) :: u32);
          xs = swap_points xs (swap XOR doswap);
          xs = ladder_part2 (ladder_part1 xs) x1
      in core_loop scalar clamp x1 i doswap xs)"

definition x25519_core :: "fe list \<Rightarrow> bytes \<Rightarrow> bytes \<Rightarrow> bool \<Rightarrow> fe list" where
  "x25519_core xs scalar x1 clamp =
     (let one = 1 # replicate (NLIMBS - 1) 0;
          xs = [one, replicate NLIMBS 0, swapin x1, one, xs ! 4];
          (swap, xs) = core_loop scalar clamp (swapin x1) 256 0 xs
      in swap_points xs swap)"

text \<open>The inversion chain: in each step element \<open>a\<close> becomes the previous result squared \<open>n\<close>
  times, times element \<open>c\<close>.\<close>

definition steps :: "(nat \<times> nat \<times> nat) list" where
  "steps = [(2, 1, 1), (2, 1, 1), (4, 2, 3), (2, 4, 6), (3, 1, 1), (3, 2, 12), (4, 3, 25), (2, 3, 25),
            (2, 4, 50), (3, 2, 125), (3, 1, 2), (3, 1, 2), (3, 1, 1)]"

fun sqr_times :: "nat \<Rightarrow> fe \<Rightarrow> fe" where
  "sqr_times 0 prev = prev"
| "sqr_times (Suc j) prev = sqr_times j (sqr prev)"

fun power_chain :: "(nat \<times> nat \<times> nat) list \<Rightarrow> nat \<Rightarrow> fe list \<Rightarrow> fe list" where
  "power_chain [] prev xs = xs"
| "power_chain ((a, c, n) # sts) prev xs =
     (let xs = xs[a := sqr_times n (xs ! prev)];
          xs = xs[a := mul1 (xs ! a) (xs ! c)]
      in power_chain sts a xs)"

text \<open>\<open>xs\<close> is what the uninitialised array of the stack frame holds. The result is \<^verbatim>\<open>out\<close> and the
  return value.\<close>

definition x25519 :: "fe list \<Rightarrow> bytes \<Rightarrow> bytes \<Rightarrow> bool \<Rightarrow> int \<times> bytes" where
  "x25519 xs scalar x1 clamp =
     (let xs = x25519_core xs scalar x1 clamp;
          xs = power_chain steps 1 xs;
          (x2, ret) = canon (mul1 (xs ! 0) (xs ! 3));
          out = swapout x2
      in (if clamp then sint ret else 0, out))"

definition X25519_BASE_POINT :: bytes where
  "X25519_BASE_POINT = 9 # replicate 31 0"

section \<open>The reference\<close>

abbreviation p25519 :: int where "p25519 \<equiv> 57896044618658097711785492504343953926634992332820282019728792003956564819949"

definition fadd :: "int \<Rightarrow> int \<Rightarrow> int" where "fadd a b = (a + b) mod p25519"
definition fsub :: "int \<Rightarrow> int \<Rightarrow> int" where "fsub a b = (a - b) mod p25519"
definition fmul :: "int \<Rightarrow> int \<Rightarrow> int" where "fmul a b = a * b mod p25519"

type_synonym point_pair = "int \<times> int \<times> int \<times> int"

text \<open>RFC 7748, section 5: one round of the Montgomery ladder, in its names.\<close>

definition rfc_step :: "int \<Rightarrow> point_pair \<Rightarrow> point_pair" where
  "rfc_step x1 s =
     (case s of (x2, z2, x3, z3) \<Rightarrow>
      let A = fadd x2 z2; AA = fmul A A;
          B = fsub x2 z2; BB = fmul B B;
          E = fsub AA BB;
          C = fadd x3 z3; D = fsub x3 z3;
          DA = fmul D A; CB = fmul C B;
          U = fadd DA CB; V = fsub DA CB
      in (fmul AA BB, fmul E (fadd AA (fmul 121665 E)), fmul U U, fmul x1 (fmul V V)))"

definition cswap :: "bool \<Rightarrow> point_pair \<Rightarrow> point_pair" where
  "cswap b s = (case s of (x2, z2, x3, z3) \<Rightarrow> if b then (x3, z3, x2, z2) else (x2, z2, x3, z3))"

text \<open>The rounds for bits \<open>n - 1\<close> down to \<open>0\<close> of \<open>k\<close>, each swapping before and after.\<close>

fun rfc_ladder :: "nat \<Rightarrow> int \<Rightarrow> nat \<Rightarrow> point_pair \<Rightarrow> point_pair" where
  "rfc_ladder k x1 0 s = s"
| "rfc_ladder k x1 (Suc i) s = rfc_ladder k x1 i (cswap (bit k i) (rfc_step x1 (cswap (bit k i) s)))"

definition rfc_x25519 :: "nat \<Rightarrow> int \<Rightarrow> int" where
  "rfc_x25519 k u =
     (case rfc_ladder k u 256 (1, 0, u, 1) of (x2, z2, x3, z3) \<Rightarrow> x2 * z2 ^ (2 ^ 255 - 21) mod p25519)"

definition rfc_decode_scalar :: "bytes \<Rightarrow> nat" where
  "rfc_decode_scalar k = le_val (k[0 := k ! 0 AND 248, 31 := (k ! 31 AND 127) OR 64])"

section \<open>The value of a field element\<close>

lemma p25519: "p25519 = 2 ^ 255 - 19"
  by simp

fun fe_val :: "fe \<Rightarrow> int" where
  "fe_val [] = 0"
| "fe_val (x # xs) = uint x + 4294967296 * fe_val xs"

lemma fe_val_nonneg [simp]: "0 \<le> fe_val x"
  by (induction x) auto

lemma fe_val_less: "fe_val x < 4294967296 ^ length x"
proof (induction x)
  case (Cons a x)
  have "uint a < 4294967296" using uint_lt2p [of a] by simp
  moreover have "fe_val x + 1 \<le> 4294967296 ^ length x" using Cons by linarith
  ultimately show ?case by simp
qed simp

lemma fe_val_less8: "length x = 8 \<Longrightarrow> fe_val x < 2 ^ 256"
  using fe_val_less [of x] by simp

lemma fe_val_append: "fe_val (x @ y) = fe_val x + 4294967296 ^ length x * fe_val y"
  by (induction x) (auto simp: algebra_simps)

lemma fe_val_zeros [simp]: "fe_val (replicate n 0) = 0"
  by (induction n) auto

lemma uint_u32_less: "uint (x :: u32) < 4294967296"
  using uint_lt2p [of x] by simp

text \<open>A 64-bit total is cut into a limb and a carry without loss.\<close>

lemma uint_split64: "uint (ucast (t :: u64) :: u32) + 4294967296 * uint (ucast (drop_bit 32 t) :: u32) = uint t"
proof -
  have t: "uint t < 18446744073709551616" "0 \<le> uint t" using uint_lt2p [of t] by simp_all
  have "uint (drop_bit 32 t) = uint t div 4294967296"
    by (simp add: drop_bit_eq_div uint_div_distrib)
  moreover have "uint t div 4294967296 < 4294967296" using t by linarith
  ultimately have "uint (ucast (drop_bit 32 t) :: u32) = uint t div 4294967296"
    using t by (simp add: unsigned_ucast_eq take_bit_eq_mod pos_imp_zdiv_nonneg_iff)
  moreover have "uint (ucast t :: u32) = uint t mod 4294967296"
    by (simp add: unsigned_ucast_eq take_bit_eq_mod)
  ultimately show ?thesis by simp
qed

lemma uint_ucast_u32_u64: "uint (ucast (a :: u32) :: u64) = uint a"
  using uint_u32_less [of a] by (simp add: unsigned_ucast_eq take_bit_int_eq_self)

lemma umaal_val:
  "case umaal carry acc mand mier of (y, c) \<Rightarrow>
     uint y + 4294967296 * uint c = uint mand * uint mier + uint acc + uint carry"
proof -
  have "uint mand * uint mier \<le> 4294967295 * 4294967295"
    using uint_u32_less [of mand] uint_u32_less [of mier] by (intro mult_mono) auto
  then have "uint (ucast mand * ucast mier :: u64) = uint mand * uint mier"
    by (simp add: uint_word_ariths uint_ucast_u32_u64)
  then show ?thesis
    using \<open>uint mand * uint mier \<le> _\<close> uint_u32_less [of acc] uint_u32_less [of carry]
    unfolding umaal_def Let_def split uint_split64
    by (simp add: uint_word_ariths(1) uint_ucast_u32_u64)
qed

lemma adc_val:
  "case adc carry a b of (y, c) \<Rightarrow> uint y + 4294967296 * uint c = uint carry + uint a + uint b"
  unfolding adc_def Let_def split uint_split64
  using uint_u32_less [of carry] uint_u32_less [of a] uint_u32_less [of b]
  by (simp add: uint_word_ariths(1) uint_ucast_u32_u64)

lemma adc0_val: "case adc0 carry a of (y, c) \<Rightarrow> uint y + 4294967296 * uint c = uint carry + uint a"
  unfolding adc0_def Let_def split uint_split64
  using uint_u32_less [of carry] uint_u32_less [of a]
  by (simp add: uint_word_ariths(1) uint_ucast_u32_u64)

text \<open>The loops.\<close>

lemma adc0_loop_val:
  "adc0_loop carry x = (y, c) \<Longrightarrow>
   length y = length x \<and> fe_val y + 4294967296 ^ length x * uint c = fe_val x + uint carry"
proof (induction carry x arbitrary: y c rule: adc0_loop.induct)
  case (2 carry x xs)
  obtain z d where z: "adc0 carry x = (z, d)" by (cases "adc0 carry x")
  obtain ys e where l: "adc0_loop d xs = (ys, e)" by (cases "adc0_loop d xs")
  have "fe_val ys + 4294967296 ^ length xs * uint e = fe_val xs + uint d" "length ys = length xs"
    using "2.IH" [OF z [symmetric] refl l] by simp_all
  moreover have "uint z + 4294967296 * uint d = uint carry + uint x" using adc0_val [of carry x] z by simp
  ultimately show ?case using "2.prems" z l by (auto simp: algebra_simps)
qed auto

lemma adc_loop_val:
  "length a = length b \<Longrightarrow> adc_loop carry a b = (y, c) \<Longrightarrow>
   length y = length a \<and> fe_val y + 4294967296 ^ length a * uint c = fe_val a + fe_val b + uint carry"
proof (induction carry a b arbitrary: y c rule: adc_loop.induct)
  case (1 carry a as b bs)
  obtain z d where z: "adc carry a b = (z, d)" by (cases "adc carry a b")
  obtain ys e where l: "adc_loop d as bs = (ys, e)" by (cases "adc_loop d as bs")
  have "fe_val ys + 4294967296 ^ length as * uint e = fe_val as + fe_val bs + uint d" "length ys = length as"
    using "1.IH" [OF z [symmetric] refl _ l] "1.prems" by simp_all
  moreover have "uint z + 4294967296 * uint d = uint carry + uint a + uint b" using adc_val [of carry a b] z by simp
  ultimately show ?case using "1.prems" z l by (auto simp: algebra_simps)
qed auto

lemma umaal_row_val:
  "length acc = length a \<Longrightarrow> umaal_row carry acc mand a = (y, c) \<Longrightarrow>
   length y = length a \<and>
   fe_val y + 4294967296 ^ length a * uint c = fe_val acc + uint mand * fe_val a + uint carry"
proof (induction carry acc mand a arbitrary: y c rule: umaal_row.induct)
  case (1 carry acc accs mand a as)
  obtain z d where z: "umaal carry acc mand a = (z, d)" by (cases "umaal carry acc mand a")
  obtain ys e where l: "umaal_row d accs mand as = (ys, e)" by (cases "umaal_row d accs mand as")
  have "fe_val ys + 4294967296 ^ length as * uint e = fe_val accs + uint mand * fe_val as + uint d"
    "length ys = length as"
    using "1.IH" [OF z [symmetric] refl _ l] "1.prems" by simp_all
  moreover have "uint z + 4294967296 * uint d = uint mand * uint a + uint acc + uint carry"
    using umaal_val [of mand a acc carry] z by simp
  ultimately show ?case using "1.prems" z l by (auto simp: algebra_simps)
qed auto

text \<open>The signed carry stays small, so 64 bits never overflow.\<close>

lemma sint_sbc:
  fixes c :: u64 and a b :: u32
  assumes "- 40 \<le> sint c" "sint c \<le> 1"
  shows "sint (c + ucast a - ucast b) = sint c + uint a - uint b"
    and "uint (ucast (c + ucast a - ucast b) :: u32) +
      4294967296 * sint (signed_drop_bit 32 (c + ucast a - ucast b)) = sint c + uint a - uint b"
    and "- 40 \<le> sint (signed_drop_bit 32 (c + ucast a - ucast b))"
    and "sint (signed_drop_bit 32 (c + ucast a - ucast b)) \<le> 1"
proof -
  have u: "0 \<le> uint a" "uint a < 4294967296" "0 \<le> uint b" "uint b < 4294967296"
    using uint_u32_less [of a] uint_u32_less [of b] by simp_all
  have stb: "signed_take_bit 63 k = k" if "- 9223372036854775808 \<le> k" "k < 9223372036854775808" for k :: int
    using that signed_take_bit_int_eq_self [of 63 k] by simp
  have s: "sint (ucast x :: u64) = uint x" for x :: u32
  proof -
    have "0 \<le> uint x" by simp
    then have "- 9223372036854775808 \<le> uint x" by linarith
    then show ?thesis using uint_u32_less [of x] stb [of "uint x"] by (simp add: signed_ucast_eq)
  qed
  have "signed_take_bit 63 (sint c + uint a) = sint c + uint a"
    "signed_take_bit 63 (sint c + uint a - uint b) = sint c + uint a - uint b"
    by (rule stb; use assms u in linarith)+
  then show 1: "sint (c + ucast a - ucast b) = sint c + uint a - uint b"
    by (simp add: sint_word_ariths(1,2) s)
  have 2: "sint (signed_drop_bit 32 (c + ucast a - ucast b)) = (sint c + uint a - uint b) div 4294967296"
    by (simp add: sint_signed_drop_bit_eq drop_bit_eq_div 1)
  have 3: "uint (ucast (c + ucast a - ucast b) :: u32) = (sint c + uint a - uint b) mod 4294967296"
  proof -
    have "uint (ucast w :: u32) = sint w mod 4294967296" for w :: u64
      by (simp add: unsigned_ucast_eq uint_sint [of w]) (simp add: take_bit_eq_mod)
    then show ?thesis by (simp only: 1)
  qed
  show "uint (ucast (c + ucast a - ucast b) :: u32) +
      4294967296 * sint (signed_drop_bit 32 (c + ucast a - ucast b)) = sint c + uint a - uint b"
    unfolding 2 3 by simp
  show "- 40 \<le> sint (signed_drop_bit 32 (c + ucast a - ucast b))"
    "sint (signed_drop_bit 32 (c + ucast a - ucast b)) \<le> 1"
    unfolding 2 using assms u by linarith+
qed

lemma sbc_loop_val:
  "length a = length b \<Longrightarrow> - 40 \<le> sint carry \<Longrightarrow> sint carry \<le> 1 \<Longrightarrow> sbc_loop carry a b = (y, c) \<Longrightarrow>
   length y = length a \<and> - 40 \<le> sint c \<and> sint c \<le> 1 \<and>
   fe_val y + 4294967296 ^ length a * sint c = fe_val a - fe_val b + sint carry"
proof (induction carry a b arbitrary: y c rule: sbc_loop.induct)
  case (1 carry a as b bs)
  let ?t = "carry + ucast a - ucast b"
  obtain ys e where l: "sbc_loop (signed_drop_bit 32 ?t) as bs = (ys, e)"
    by (cases "sbc_loop (signed_drop_bit 32 ?t) as bs")
  note s = sint_sbc [OF "1.prems"(2,3), of a b]
  have "length ys = length as" "- 40 \<le> sint e" "sint e \<le> 1"
    "fe_val ys + 4294967296 ^ length as * sint e = fe_val as - fe_val bs + sint (signed_drop_bit 32 ?t)"
    using "1.IH" [OF refl _ s(3,4) l] "1.prems" by simp_all
  then show ?case using "1.prems" l s(2) by (auto simp: algebra_simps Let_def)
qed auto

lemma canon_loop_val:
  "- 40 \<le> sint carry \<Longrightarrow> sint carry \<le> 1 \<Longrightarrow> canon_loop carry res x = (y, r) \<Longrightarrow>
   length y = length x \<and> (\<exists>c. - 40 \<le> c \<and> c \<le> 1 \<and>
   fe_val y + 4294967296 ^ length x * c = fe_val x + sint carry) \<and> (r = 0 \<longleftrightarrow> res = 0 \<and> fe_val y = 0)"
proof (induction carry res x arbitrary: y r rule: canon_loop.induct)
  case (2 carry res x xs)
  let ?t = "carry + ucast x"
  obtain ys e where l: "canon_loop (signed_drop_bit 32 ?t) (res OR ucast ?t) xs = (ys, e)"
    by (cases "canon_loop (signed_drop_bit 32 ?t) (res OR ucast ?t) xs")
  note s = sint_sbc [OF "2.prems"(1,2), of x 0, simplified]
  have ih: "length ys = length xs" "e = 0 \<longleftrightarrow> res OR ucast ?t = 0 \<and> fe_val ys = 0"
    "\<exists>c. - 40 \<le> c \<and> c \<le> 1 \<and> fe_val ys + 4294967296 ^ length xs * c = fe_val xs + sint (signed_drop_bit 32 ?t)"
    using "2.IH" [OF refl refl s(3,4) l] by simp_all
  have y: "y = ucast ?t # ys" "r = e" using "2.prems"(3) l by (simp_all add: Let_def)
  have "fe_val y = 0 \<longleftrightarrow> (ucast ?t :: u32) = 0 \<and> fe_val ys = 0"
    using fe_val_nonneg [of ys] unsigned_greater_eq [of "ucast ?t :: u32"]
    by (auto simp: y uint_0_iff add_nonneg_eq_0_iff simp del: fe_val_nonneg)
  moreover obtain c where "- 40 \<le> c" "c \<le> 1"
    "fe_val ys + 4294967296 ^ length xs * c = fe_val xs + sint (signed_drop_bit 32 ?t)" using ih(3) by blast
  moreover have "fe_val y + 4294967296 ^ length (x # xs) * c =
      uint (ucast ?t :: u32) + 4294967296 * (fe_val ys + 4294967296 ^ length xs * c)"
    by (simp add: y algebra_simps)
  ultimately show ?case using ih(1,2) s(2)
    by (auto simp: y word_or_eq_0 algebra_simps intro!: exI [of _ c])
qed auto

lemma list_8_split: "length x = 8 \<Longrightarrow> x = take 7 x @ [x ! 7]"
  using take_Suc_conv_app_nth [of 7 x] by simp

lemma top_limb:
  fixes h over :: u32
  assumes "uint over < 67108864"
  shows "uint ((drop_bit 31 h OR push_bit 1 over) * 19) = 19 * (uint h div 2147483648 + 2 * uint over)"
    and "uint (h AND NOT (push_bit 31 1)) = uint h mod 2147483648"
proof -
  have d: "uint (drop_bit 31 h) = uint h div 2147483648"
    by (simp add: drop_bit_eq_div uint_div_distrib)
  have p: "uint (push_bit 1 over) = 2 * uint over"
    using assms by (simp add: push_bit_eq_mult uint_word_ariths)
  have "drop_bit 31 h OR push_bit 1 over = drop_bit 31 h + push_bit 1 over"
    by (rule disjunctive_add [symmetric], simp only: bit_simps) (auto dest: bit_imp_le_length)
  moreover have "uint h div 2147483648 \<le> 1" "0 \<le> uint h div 2147483648"
    using uint_u32_less [of h] by (simp_all add: pos_imp_zdiv_nonneg_iff)
  ultimately show "uint ((drop_bit 31 h OR push_bit 1 over) * 19) = 19 * (uint h div 2147483648 + 2 * uint over)"
    using assms by (simp add: uint_word_ariths d p)
  have "h AND NOT (push_bit 31 1) = take_bit 31 h"
    by (rule bit_word_eqI, simp only: bit_simps) (auto simp: bit_1_iff dest: bit_imp_le_length)
  then show "uint (h AND NOT (push_bit 31 1)) = uint h mod 2147483648"
    by (simp only: unsigned_take_bit_eq) (simp add: take_bit_eq_mod)
qed

lemma propagate_val:
  assumes x: "length x = 8" and over: "uint over < 67108864"
  shows "fe_val (propagate x over) = fe_val x mod 2 ^ 255 + 19 * (fe_val x div 2 ^ 255 + 2 * uint over)"
    and "length (propagate x over) = 8"
proof -
  define lo h where "lo = fe_val (take 7 x)" and "h = x ! 7"
  have lo: "0 \<le> lo" "lo < 2 ^ 224" using fe_val_less [of "take 7 x"] x by (simp_all add: lo_def)
  have h: "0 \<le> uint h" "uint h < 4294967296" using uint_u32_less [of h] by simp_all
  have "fe_val x = fe_val (take 7 x @ [x ! 7])" using list_8_split [OF x] by simp
  then have v: "fe_val x = lo + 2 ^ 224 * uint h" using x by (simp add: fe_val_append lo_def h_def)
  have dm: "fe_val x div 2 ^ 255 = uint h div 2147483648" "fe_val x mod 2 ^ 255 = lo + 2 ^ 224 * (uint h mod 2147483648)"
  proof -
    have gen: "lo + 2 ^ 224 * k = 2 ^ 255 * q + (lo + 2 ^ 224 * r)" if "k = 2147483648 * q + r" for k q r
      using that by simp
    have eq: "fe_val x = 2 ^ 255 * (uint h div 2147483648) + (lo + 2 ^ 224 * (uint h mod 2147483648))"
      unfolding v by (rule gen) simp
    have r: "0 \<le> lo + 2 ^ 224 * (uint h mod 2147483648)" "lo + 2 ^ 224 * (uint h mod 2147483648) < 2 ^ 255"
      using lo by simp_all
    show "fe_val x div 2 ^ 255 = uint h div 2147483648" "fe_val x mod 2 ^ 255 = lo + 2 ^ 224 * (uint h mod 2147483648)"
      unfolding eq using r by simp_all
  qed
  define m :: u32 where "m = h AND NOT (push_bit 31 1)"
  have m: "uint m = uint h mod 2147483648" unfolding m_def by (rule top_limb(2) [OF over])
  have "x[7 := m] = take 7 x @ [m]"
    by (subst list_8_split [OF x]) (simp add: list_update_append x)
  then have u: "fe_val (x[7 := m]) = fe_val x mod 2 ^ 255"
    unfolding dm using x by (simp add: fe_val_append m lo_def)
  obtain y c where l: "adc0_loop ((drop_bit 31 h OR push_bit 1 over) * 19) (x[7 := m]) = (y, c)"
    by (cases "adc0_loop ((drop_bit 31 h OR push_bit 1 over) * 19) (x[7 := m])")
  have y: "fe_val y + 2 ^ 256 * uint c = fe_val x mod 2 ^ 255 + 19 * (fe_val x div 2 ^ 255 + 2 * uint over)"
    "length y = 8"
    using adc0_loop_val [OF l] x unfolding u top_limb(1) [OF over] dm(1) by simp_all
  have "fe_val x div 2 ^ 255 \<le> 1" unfolding dm using h by linarith
  moreover have "fe_val x mod 2 ^ 255 < 2 ^ 255" by simp
  moreover have "a + 19 * (b + 2 * d) < 2 ^ 256" if "b \<le> 1" "a < 2 ^ 255" "d < 67108864" for a b d :: int
    using that by simp
  ultimately have small: "fe_val y + 2 ^ 256 * uint c < 2 ^ 256" using over unfolding y(1) by blast
  have key: "k = 0" if "0 \<le> a" "0 \<le> k" "a + 2 ^ 256 * k < 2 ^ 256" for a k :: int
    using that by simp
  have "uint c = 0" by (rule key [OF fe_val_nonneg _ small]) simp
  then show "fe_val (propagate x over) = fe_val x mod 2 ^ 255 + 19 * (fe_val x div 2 ^ 255 + 2 * uint over)"
    "length (propagate x over) = 8"
    using l y unfolding m_def h_def by (simp_all add: propagate_def Let_def del: push_bit_Suc_numeral)
qed

text \<open>The invariant of the field elements between operations: below 2^255 plus one word.\<close>

definition fe_ok :: "fe \<Rightarrow> bool" where
  "fe_ok x \<longleftrightarrow> length x = 8 \<and> fe_val x < 2 ^ 255 + 2 ^ 32"

lemma fe_ok_length [simp]: "fe_ok x \<Longrightarrow> length x = 8"
  by (simp add: fe_ok_def)

lemma fold_255:
  fixes v w :: int
  shows "(v mod 2 ^ 255 + 19 * (v div 2 ^ 255 + 2 * w)) mod p25519 = (v + 2 ^ 256 * w) mod p25519"
proof -
  have gen: "2 ^ 255 * q + r + 2 ^ 256 * w = r + 19 * (q + 2 * w) + (q + 2 * w) * p25519" for q r :: int
    by (simp add: algebra_simps)
  have "v + 2 ^ 256 * w = 2 ^ 255 * (v div 2 ^ 255) + v mod 2 ^ 255 + 2 ^ 256 * w" by simp
  then show ?thesis unfolding gen by (simp only: mod_mult_self1)
qed

lemma propagate_ok:
  assumes "length x = 8" "uint over < 67108864"
  shows "fe_ok (propagate x over)"
    and "fe_val (propagate x over) mod p25519 = (fe_val x + 2 ^ 256 * uint over) mod p25519"
proof -
  have "a mod 2 ^ 255 + 19 * (a div 2 ^ 255 + 2 * d) < 2 ^ 255 + 2 ^ 32" if "a div 2 ^ 255 \<le> 1" "d < 67108864" for a d :: int
  proof -
    have "a mod 2 ^ 255 < 2 ^ 255" by simp
    then show ?thesis using that by (intro add_less_le_mono) auto
  qed
  moreover have "fe_val x div 2 ^ 255 \<le> 1"
    using zdiv_mono1 [of "fe_val x" "2 ^ 256 - 1" "2 ^ 255"] fe_val_less8 [OF assms(1)] by simp
  ultimately show "fe_ok (propagate x over)"
    unfolding fe_ok_def propagate_val(1) [OF assms] using propagate_val(2) [OF assms] assms(2) by blast
  show "fe_val (propagate x over) mod p25519 = (fe_val x + 2 ^ 256 * uint over) mod p25519"
    unfolding propagate_val(1) [OF assms] by (rule fold_255)
qed

lemma fe_add_ok:
  assumes "length a = 8" "length b = 8"
  shows "fe_ok (fe_add a b)" and "fe_val (fe_add a b) mod p25519 = (fe_val a + fe_val b) mod p25519"
proof -
  obtain y c where l: "adc_loop 0 a b = (y, c)" by (cases "adc_loop 0 a b")
  have y: "length y = 8" "fe_val y + 2 ^ 256 * uint c = fe_val a + fe_val b"
    using adc_loop_val [OF _ l] assms by simp_all
  have "k < 67108864" if "u + 2 ^ 256 * k = v + w" "0 \<le> u" "v < 2 ^ 256" "w < 2 ^ 256" for u v w k :: int
    using that by simp
  then have c: "uint c < 67108864"
    using y(2) fe_val_nonneg fe_val_less8 [OF assms(1)] fe_val_less8 [OF assms(2)] by blast
  show "fe_ok (fe_add a b)" "fe_val (fe_add a b) mod p25519 = (fe_val a + fe_val b) mod p25519"
    using propagate_ok [OF y(1) c] unfolding y(2) by (simp_all add: fe_add_def l)
qed

text \<open>Subtraction needs the subtrahend to leave room for the 38 taken off first.\<close>

lemma fe_sub_ok:
  assumes "length a = 8" "length b = 8" "fe_val b + 38 \<le> 2 ^ 256"
  shows "fe_ok (fe_sub a b)" and "fe_val (fe_sub a b) mod p25519 = (fe_val a - fe_val b) mod p25519"
proof -
  obtain y c where l: "sbc_loop (- 38) a b = (y, c)" by (cases "sbc_loop (- 38) a b")
  have y: "length y = 8" "- 40 \<le> sint c" "sint c \<le> 1" "fe_val y + 2 ^ 256 * sint c = fe_val a - fe_val b - 38"
    using sbc_loop_val [OF _ _ _ l] assms by simp_all
  have "- 1 \<le> k \<and> k \<le> 0" if "u + 2 ^ 256 * k = v - w - 38" "0 \<le> u" "u < 2 ^ 256" "0 \<le> v" "v < 2 ^ 256" "0 \<le> w" "w + 38 \<le> 2 ^ 256"
    for u v w k :: int
    using that by simp
  then have c: "- 1 \<le> sint c \<and> sint c \<le> 0"
    using y(4) fe_val_nonneg fe_val_less8 [OF y(1)] fe_val_less8 [OF assms(1)] assms(3) by blast
  have s1: "sint (1 + c) = 1 + sint c"
    using c by (simp add: sint_word_ariths(1) signed_take_bit_int_eq_self)
  have u: "uint (ucast (1 + c) :: u32) = 1 + sint c"
    using c by (simp add: unsigned_ucast_eq uint_sint [of "1 + c"] s1 take_bit_eq_mod)
  then have o: "uint (ucast (1 + c) :: u32) < 67108864" using c by simp
  have "fe_val y + 2 ^ 256 * (1 + sint c) = fe_val a - fe_val b + 2 * p25519" using y(4) by simp
  then have "(fe_val y + 2 ^ 256 * (1 + sint c)) mod p25519 = (fe_val a - fe_val b) mod p25519"
    by (simp only: mod_mult_self1)
  then show "fe_ok (fe_sub a b)" "fe_val (fe_sub a b) mod p25519 = (fe_val a - fe_val b) mod p25519"
    using propagate_ok [OF y(1) o] unfolding u by (simp_all add: fe_sub_def l)
qed

lemma mul_loop_val:
  "length a = 8 \<Longrightarrow> i + length bs \<le> 8 \<Longrightarrow> length low = i + 8 \<Longrightarrow>
   length (mul_loop a bs i (low @ replicate (8 - i) 0)) = 16 \<and>
   fe_val (mul_loop a bs i (low @ replicate (8 - i) 0)) = fe_val low + 4294967296 ^ i * fe_val a * fe_val bs"
proof (induction bs arbitrary: i low)
  case (Cons mand bs)
  let ?acc = "low @ replicate (8 - i) 0"
  obtain row c where l: "umaal_row 0 (drop i low) mand a = (row, c)" by (cases "umaal_row 0 (drop i low) mand a")
  have r: "length row = 8" "fe_val row + 2 ^ 256 * uint c = fe_val (drop i low) + uint mand * fe_val a"
    using umaal_row_val [OF _ l] Cons.prems by simp_all
  let ?low = "take i low @ row @ [c]"
  have n: "take i ?acc @ row @ [c] @ drop (i + 8 + 1) ?acc = ?low @ replicate (8 - Suc i) 0"
    using Cons.prems by (simp add: drop_replicate)
  have "fe_val low = fe_val (take i low @ drop i low)" by simp
  then have low: "fe_val low = fe_val (take i low) + 4294967296 ^ i * fe_val (drop i low)"
    using Cons.prems by (simp only: fe_val_append) (simp add: min_def)
  have "fe_val ?low = fe_val (take i low) + 4294967296 ^ i * (fe_val row + 2 ^ 256 * uint c)"
    using Cons.prems r(1) by (simp add: fe_val_append min_def power_add algebra_simps)
  also have "\<dots> = fe_val low + 4294967296 ^ i * fe_val a * uint mand"
    unfolding r(2) low by (simp add: algebra_simps)
  finally have "fe_val ?low + 4294967296 ^ Suc i * fe_val a * fe_val bs =
      fe_val low + 4294967296 ^ i * fe_val a * fe_val (mand # bs)"
    by (simp add: algebra_simps)
  moreover have "mul_loop a (mand # bs) i ?acc = mul_loop a bs (Suc i) (?low @ replicate (8 - Suc i) 0)"
    using Cons.prems l n by simp
  ultimately show ?case using Cons.IH [of "Suc i" ?low] Cons.prems r(1) by simp
qed (auto simp: fe_val_append)

lemma fe_mul_ok:
  assumes "length a = 8" "length (take nb b) \<le> 8"
  shows "fe_ok (fe_mul a b nb)" and "fe_val (fe_mul a b nb) mod p25519 = (fe_val a * fe_val (take nb b)) mod p25519"
proof -
  let ?acc = "mul_loop a (take nb b) 0 (replicate 16 0)"
  have acc: "length ?acc = 16" "fe_val ?acc = fe_val a * fe_val (take nb b)"
    using mul_loop_val [of a 0 "take nb b" "replicate 8 0"] assms by (simp_all flip: replicate_add)
  have "fe_val ?acc = fe_val (take 8 ?acc @ drop 8 ?acc)" by simp
  then have cut: "fe_val ?acc = fe_val (take 8 ?acc) + 2 ^ 256 * fe_val (drop 8 ?acc)"
    using acc(1) by (simp only: fe_val_append) simp
  obtain y c where l: "umaal_row 0 (take 8 ?acc) 38 (drop 8 ?acc) = (y, c)"
    by (cases "umaal_row 0 (take 8 ?acc) 38 (drop 8 ?acc)")
  have y: "length y = 8" "fe_val y + 2 ^ 256 * uint c = fe_val (take 8 ?acc) + 38 * fe_val (drop 8 ?acc)"
    using umaal_row_val [OF _ l] acc(1) by simp_all
  have "k < 67108864" if "u + 2 ^ 256 * k = v + 38 * w" "0 \<le> u" "v < 2 ^ 256" "w < 2 ^ 256" for u v w k :: int
    using that by simp
  moreover have "fe_val (take 8 ?acc) < 2 ^ 256" "fe_val (drop 8 ?acc) < 2 ^ 256"
    by (rule fe_val_less8, simp add: acc(1))+
  ultimately have c: "uint c < 67108864"
    using y(2) fe_val_nonneg by blast
  have "v + 2 ^ 256 * w = v + 38 * w + 2 * w * p25519" for v w :: int
    by simp
  then have "(fe_val y + 2 ^ 256 * uint c) mod p25519 = fe_val ?acc mod p25519"
    unfolding y(2) cut by (simp only: mod_mult_self1)
  then show "fe_ok (fe_mul a b nb)"
    "fe_val (fe_mul a b nb) mod p25519 = (fe_val a * fe_val (take nb b)) mod p25519"
    using propagate_ok [OF y(1) c] unfolding acc(2) by (simp_all add: fe_mul_def l)
qed

lemma canon_ok:
  assumes x: "fe_ok x" and c: "canon x = (y, ret)"
  shows "length y = 8" "fe_val y = fe_val x mod p25519"
    and "ret = (if fe_val x mod p25519 = 0 then - 1 else 0)"
proof -
  obtain z k where z: "adc0_loop 19 x = (z, k)" by (cases "adc0_loop 19 x")
  have v: "fe_val z + 2 ^ 256 * uint k = fe_val x + 19" "length z = 8"
    using adc0_loop_val [OF z] x by simp_all
  have "k = 0" if "u + 2 ^ 256 * k = w + 19" "0 \<le> u" "w < 2 ^ 255 + 2 ^ 32" "0 \<le> k" for u w k :: int
    using that by simp
  moreover have "fe_val x < 2 ^ 255 + 2 ^ 32" using x by (simp only: fe_ok_def)
  ultimately have k: "uint k = 0" using v(1) fe_val_nonneg unsigned_greater_eq by blast
  then have z19: "fe_val z = fe_val x + 19" using v(1) by simp
  let ?z = "propagate z k"
  have pz: "length ?z = 8" "fe_val ?z = fe_val z mod 2 ^ 255 + 19 * (fe_val z div 2 ^ 255)"
    using propagate_val [OF v(2), of k] k by simp_all
  obtain w r where w: "canon_loop (- 19) 0 ?z = (w, r)" by (cases "canon_loop (- 19) 0 ?z")
  have wv: "length w = 8" "r = 0 \<longleftrightarrow> fe_val w = 0"
    "\<exists>c. - 40 \<le> c \<and> c \<le> 1 \<and> fe_val w + 2 ^ 256 * c = fe_val ?z - 19"
    using canon_loop_val [OF _ _ w] pz(1) by simp_all
  have red: "fe_val ?z - 19 = fe_val x mod p25519"
  proof (cases "fe_val x + 19 < 2 ^ 255")
    case True
    then show ?thesis unfolding pz(2) z19 using fe_val_nonneg [of x] by simp
  next
    case False
    have "(v + 19) mod 2 ^ 255 = v - p25519" "(v + 19) div 2 ^ 255 = 1" "v mod p25519 = v - p25519"
      if "\<not> v + 19 < 2 ^ 255" "v < 2 ^ 255 + 2 ^ 32" for v :: int
      by (rule int_mod_pos_eq [where q = 1] int_div_pos_eq [where r = "v - p25519"]; use that in simp)+
    then show ?thesis unfolding pz(2) z19 using False x by (simp add: fe_ok_def)
  qed
  obtain c where "fe_val w + 2 ^ 256 * c = fe_val x mod p25519" using wv(3) red by auto
  moreover have "c = 0" if "u + 2 ^ 256 * c = v mod p25519" "0 \<le> u" "u < 2 ^ 256" for u c v :: int
  proof -
    have "0 \<le> v mod p25519" "v mod p25519 < p25519" by simp_all
    then show ?thesis using that by simp
  qed
  ultimately have wx: "fe_val w = fe_val x mod p25519"
    using fe_val_nonneg fe_val_less8 [OF wv(1)] by (metis add.right_neutral mult_zero_right)
  have ret: "ret = ucast (drop_bit 32 (ucast r - 1 :: u64))" "y = w"
    using c by (simp_all add: canon_def z w)
  show "length y = 8" "fe_val y = fe_val x mod p25519" using ret(2) wv(1) wx by simp_all
  have "drop_bit 32 (ucast r - 1 :: u64) = 0" if "r \<noteq> 0"
  proof -
    have "1 \<le> uint r" using that by (metis uint_0_iff int_one_le_iff_zero_less unsigned_greater_eq le_less)
    then have "uint (ucast r - 1 :: u64) = uint r - 1"
      using uint_u32_less [of r] by (simp add: uint_word_ariths uint_ucast_u32_u64)
    then show ?thesis using uint_u32_less [of r] \<open>1 \<le> uint r\<close>
      by (simp add: drop_bit_eq_div flip: uint_0_iff) (simp add: uint_div_distrib)
  qed
  then show "ret = (if fe_val x mod p25519 = 0 then - 1 else 0)"
    unfolding ret(1) using wv(2) wx by (auto simp: mask_eq_exp_minus_1)
qed

section \<open>The ladder\<close>

definition fval :: "fe \<Rightarrow> int" where
  "fval x = fe_val x mod p25519"

lemma fval_range [simp]: "0 \<le> fval x" "fval x < p25519"
  by (simp_all add: fval_def)

named_theorems fe_ops \<open>the field operations on values modulo 2^255 - 19\<close>

lemma fe_add_fval [fe_ops]: "length a = 8 \<Longrightarrow> length b = 8 \<Longrightarrow> fval (fe_add a b) = fadd (fval a) (fval b)"
  by (simp only: fval_def fadd_def fe_add_ok mod_add_eq)

lemma fe_ok_room: "fe_ok b \<Longrightarrow> fe_val b + 38 \<le> 2 ^ 256"
  by (simp add: fe_ok_def)

lemma fe_sub_fval [fe_ops]: "length a = 8 \<Longrightarrow> fe_ok b \<Longrightarrow> fval (fe_sub a b) = fsub (fval a) (fval b)"
  by (simp only: fval_def fsub_def fe_sub_ok fe_ok_length fe_ok_room mod_diff_eq)

lemma fe_mul_fval [fe_ops]:
  "length a = 8 \<Longrightarrow> length b = 8 \<Longrightarrow> fval (fe_mul a b 8) = fmul (fval a) (fval b)"
  by (simp only: fval_def fmul_def fe_mul_ok take_all_iff [THEN iffD2] order_refl mod_mult_eq length_take min.idem)

lemma fe_mul_a24 [fe_ops]: "length a = 8 \<Longrightarrow> fval (fe_mul a a24 (Suc 0)) = fmul 121665 (fval a)"
  using fe_mul_ok(2) [of a 1 a24] by (simp add: fval_def fmul_def a24_def mod_mult_right_eq mult.commute)

lemma fe_ops_ok [simp, fe_ops]:
  "length a = 8 \<Longrightarrow> length b = 8 \<Longrightarrow> fe_ok (fe_add a b)"
  "length a = 8 \<Longrightarrow> fe_ok b \<Longrightarrow> fe_ok (fe_sub a b)"
  "length a = 8 \<Longrightarrow> length b = 8 \<Longrightarrow> fe_ok (fe_mul a b 8)"
  "length a = 8 \<Longrightarrow> fe_ok (fe_mul a a24 (Suc 0))"
  by (auto intro!: fe_add_ok fe_sub_ok fe_mul_ok fe_ok_room simp: a24_def)

lemmas mul_defs = sqr_def mul1_def sqr1_def

text \<open>The points held by the five elements; what the ladder needs of them, and the weaker
  condition that a peer's unreduced coordinate satisfies.\<close>

definition points :: "fe list \<Rightarrow> point_pair" where
  "points xs = (fval (xs ! 0), fval (xs ! 1), fval (xs ! 2), fval (xs ! 3))"

definition xs_ok :: "fe list \<Rightarrow> bool" where
  "xs_ok xs \<longleftrightarrow> length xs = 5 \<and> length (xs ! 0) = 8 \<and> fe_ok (xs ! 1) \<and> length (xs ! 2) = 8 \<and> fe_ok (xs ! 3)"

lemma fsub_fsub: "0 \<le> b \<Longrightarrow> b < p25519 \<Longrightarrow> fsub a (fsub a b) = b"
  by (simp add: fsub_def mod_diff_right_eq)

lemma fmul_range [simp]: "0 \<le> fmul a b" "fmul a b < p25519"
  by (simp_all add: fmul_def)

text \<open>The round with every intermediate element named: the values of RFC 7748 are those of the
  elements.\<close>

lemma ladder_round:
  assumes xs: "xs_ok xs" and x1: "length x1 = 8"
  shows "xs_ok (ladder_part2 (ladder_part1 xs) x1)"
    and "points (ladder_part2 (ladder_part1 xs) x1) = rfc_step (fval x1) (points xs)"
proof -
  obtain x2 z2 x3 z3 t where xs5: "xs = [x2, z2, x3, z3, t]"
    using xs by (auto simp: xs_ok_def numeral_eq_Suc length_Suc_conv)
  have l: "length x2 = 8" "length x3 = 8" "fe_ok z2" "fe_ok z3"
    using xs by (simp_all add: xs_ok_def xs5)
  define A B C D where "A = fe_add x2 z2" and "B = fe_sub x2 z2" and "C = fe_add x3 z3" and "D = fe_sub x3 z3"
  note d1 = A_def B_def C_def D_def
  have o1: "fe_ok A" "fe_ok B" "fe_ok C" "fe_ok D" by (simp_all add: d1 l)
  have v1: "fval A = fadd (fval x2) (fval z2)" "fval B = fsub (fval x2) (fval z2)"
    "fval C = fadd (fval x3) (fval z3)" "fval D = fsub (fval x3) (fval z3)"
    by (simp_all add: d1 l fe_ops)
  define DA CB AA BB where "DA = fe_mul A D 8" and "CB = fe_mul B C 8" and "AA = fe_mul A A 8" and "BB = fe_mul B B 8"
  note d2 = DA_def CB_def AA_def BB_def
  have o2: "fe_ok DA" "fe_ok CB" "fe_ok AA" "fe_ok BB" by (simp_all add: d2 o1)
  have v2: "fval DA = fmul (fval D) (fval A)" "fval CB = fmul (fval C) (fval B)"
    "fval AA = fmul (fval A) (fval A)" "fval BB = fmul (fval B) (fval B)"
    by (simp_all add: d2 o1 fe_ops) (simp_all add: fmul_def mult.commute)
  define U V E G where "U = fe_add DA CB" and "V = fe_sub DA CB" and "E = fe_sub AA BB" and "G = fe_add (fe_mul E a24 1) AA"
  note d3 = U_def V_def E_def
  have o3: "fe_ok U" "fe_ok V" "fe_ok E" by (simp_all add: d3 o2)
  have v3: "fval U = fadd (fval DA) (fval CB)" "fval V = fsub (fval DA) (fval CB)" "fval E = fsub (fval AA) (fval BB)"
    by (simp_all add: d3 o2 fe_ops)
  have o4: "fe_ok G" and v4: "fval G = fadd (fval AA) (fmul 121665 (fval E))"
    by (simp_all add: G_def o2 o3 fe_ops) (simp add: fadd_def add.commute)
  have p1: "ladder_part1 xs = [E, G, U, V, AA]"
    unfolding ladder_part1_def Let_def xs5 mul_defs nth_Cons_0 d1 d2 d3 G_def by (simp add: numeral_eq_Suc)
  have p2: "ladder_part2 [E, G, U, V, AA] x1 =
      [fe_mul AA (fe_sub AA E) 8, fe_mul E G 8, fe_mul U U 8, fe_mul x1 (fe_mul V V 8) 8, AA]"
    unfolding ladder_part2_def Let_def mul_defs by (simp add: numeral_eq_Suc)
  have s: "fsub (fval AA) (fval E) = fval BB" by (simp add: v3 fsub_fsub)
  show "xs_ok (ladder_part2 (ladder_part1 xs) x1)"
    unfolding p1 p2 by (simp add: xs_ok_def o2 o3 o4 x1)
  show "points (ladder_part2 (ladder_part1 xs) x1) = rfc_step (fval x1) (points xs)"
    unfolding p1 p2
    by (simp add: points_def o2 o3 o4 x1 fe_ops s) (simp add: xs5 rfc_step_def Let_def v1 v2 v3 v4)
qed

text \<open>A swap mask is all ones or zero.\<close>

definition mask_of :: "bool \<Rightarrow> u32" where
  "mask_of b = (if b then - 1 else 0)"

lemma mask_of_xor: "mask_of a XOR mask_of b = mask_of (a \<noteq> b)"
  by (simp add: mask_of_def)

lemma mask_of_bit: "- (ucast (drop_bit j w AND 1 :: u8) :: u32) = mask_of (bit w j)"
  by (simp add: mask_of_def and_one_eq mod_2_eq_odd bit_iff_odd_drop_bit)

lemma xor_swap: "x XOR (x XOR y) = y" "y XOR (x XOR y) = x" for x y :: u32
  by (simp_all add: bit_eq_iff bit_xor_iff) blast

lemma condswap_mask:
  "length a = length b \<Longrightarrow> condswap a b (mask_of c) = (if c then (b, a) else (a, b))"
proof (induction a b rule: list_induct2)
  case (Cons x a y b)
  then show ?case by (cases c) (simp_all add: condswap_def mask_of_def Let_def xor_swap)
qed (simp add: condswap_def)

lemma swap_points_mask:
  assumes "length xs = 5" "length (xs ! 0) = 8" "length (xs ! 2) = 8" "length (xs ! 1) = 8" "length (xs ! 3) = 8"
  shows "swap_points xs (mask_of c) =
    (if c then [xs ! 2, xs ! 3, xs ! 0, xs ! 1, xs ! 4] else [xs ! 0, xs ! 1, xs ! 2, xs ! 3, xs ! 4])"
  unfolding swap_points_def using assms by (subst condswap_mask) auto

lemma swap_points_ok:
  assumes "xs_ok xs"
  shows "xs_ok (swap_points xs (mask_of c))" and "points (swap_points xs (mask_of c)) = cswap c (points xs)"
  using assms by (auto simp: xs_ok_def swap_points_mask points_def cswap_def)

lemma cswap_cswap [simp]: "cswap a (cswap b s) = cswap (a \<noteq> b) s"
  by (cases s) (auto simp: cswap_def)

lemma core_loop_ladder:
  assumes "length x1 = 8" "\<And>i. i < n \<Longrightarrow> bit k i = bit (scalar_byte scalar clamp (i div 8)) (i mod 8)"
  shows "xs_ok xs \<Longrightarrow> \<exists>b ys. core_loop scalar clamp x1 n (mask_of a) xs = (mask_of b, ys) \<and> xs_ok ys \<and>
    cswap b (points ys) = rfc_ladder k (fval x1) n (cswap a (points xs))"
  using assms(2)
proof (induction n arbitrary: a xs)
  case (Suc i)
  let ?b = "bit k i"
  let ?xs = "ladder_part2 (ladder_part1 (swap_points xs (mask_of (a \<noteq> ?b)))) x1"
  have "bit (scalar_byte scalar clamp (i div 8)) (i mod 8) = ?b" using Suc.prems(2) [of i] by simp
  then have c: "core_loop scalar clamp x1 (Suc i) (mask_of a) xs = core_loop scalar clamp x1 i (mask_of ?b) ?xs"
    by (simp add: Let_def mask_of_bit mask_of_xor del: push_bit_numeral)
  have s: "xs_ok (swap_points xs (mask_of (a \<noteq> ?b)))"
    "points (swap_points xs (mask_of (a \<noteq> ?b))) = cswap ?b (cswap a (points xs))"
    using swap_points_ok [OF Suc.prems(1)] by (auto intro: arg_cong [of _ _ "\<lambda>b. cswap b (points xs)"])
  note r = ladder_round [OF s(1) assms(1)]
  have "\<exists>b ys. core_loop scalar clamp x1 i (mask_of ?b) ?xs = (mask_of b, ys) \<and> xs_ok ys \<and>
      cswap b (points ys) = rfc_ladder k (fval x1) i (cswap ?b (points ?xs))"
    by (rule Suc.IH [OF r(1)]) (simp add: Suc.prems(2))
  then show ?case unfolding c r(2) s(2) by simp
qed auto

section \<open>Bytes\<close>

lemma fe_val_swapin: "length u = 4 * n \<Longrightarrow> length (swapin u) = n \<and> fe_val (swapin u) = int (le_val u)"
proof (induction u arbitrary: n rule: swapin.induct)
  case (1 a b c d rest)
  then have "length rest = 4 * (n - 1)" "n = Suc (n - 1)" by auto
  moreover have "uint (le32 a b c d) = int (unat (le32 a b c d))" by simp
  ultimately show ?case using "1.IH" [of "n - 1"] by (simp add: unat_le32)
qed (auto, (drule arg_cong [of _ _ "\<lambda>k. k mod 4"], simp)+)

lemma le_val_swapout: "int (le_val (swapout x)) = fe_val x" and length_swapout: "length (swapout x) = 4 * length x"
proof -
  have "int (le_val (le32_bytes w @ bs)) = uint w + 4294967296 * int (le_val bs)" for w :: u32 and bs
  proof -
    have "le32 (ucast w) (ucast (drop_bit 8 w)) (ucast (drop_bit 16 w)) (ucast (drop_bit 24 w)) = w"
      using le32_of_le32_bytes [of w] by (simp add: le32_bytes_def)
    then have "unat w = unat (ucast w :: u8) + 256 * unat (ucast (drop_bit 8 w) :: u8) +
        65536 * unat (ucast (drop_bit 16 w) :: u8) + 16777216 * unat (ucast (drop_bit 24 w) :: u8)"
      by (metis unat_le32)
    moreover have "uint w = int (unat w)" by simp
    ultimately show ?thesis by (simp add: le32_bytes_def)
  qed
  then show "int (le_val (swapout x)) = fe_val x" by (induction x) (simp_all add: swapout_def)
  show "length (swapout x) = 4 * length x" by (induction x) (simp_all add: swapout_def le32_bytes_def)
qed

lemma bit_le_val: "i < 8 * length bs \<Longrightarrow> bit (le_val bs) i = bit (bs ! (i div 8)) (i mod 8)"
proof (induction bs arbitrary: i)
  case (Cons b bs)
  have s: "le_val (b # bs) = unat b OR push_bit 8 (le_val bs)"
  proof -
    have "unat b OR push_bit 8 (le_val bs) = unat b + push_bit 8 (le_val bs)"
      by (rule disjunctive_add [symmetric]) (auto simp: bit_push_bit_iff bit_unsigned_iff dest: bit_imp_le_length)
    then show ?thesis by (simp add: push_bit_eq_mult)
  qed
  show ?case
  proof (cases "i < 8")
    case True
    then show ?thesis unfolding s by (simp add: bit_or_iff bit_push_bit_iff bit_unsigned_iff)
  next
    case False
    then have "bit (le_val bs) (i - 8) = bit (bs ! ((i - 8) div 8)) ((i - 8) mod 8)"
      using Cons.prems by (intro Cons.IH) simp
    moreover have "i div 8 = Suc ((i - 8) div 8)" "i mod 8 = (i - 8) mod 8"
      using False by (simp_all add: le_div_geq le_mod_geq)
    moreover have "\<not> bit b i" using False by (auto dest: bit_imp_le_length)
    ultimately show ?thesis unfolding s using False
      by (simp add: bit_or_iff bit_push_bit_iff bit_unsigned_iff)
  qed
qed simp

text \<open>The scalar the ladder walks: the clamped bytes when clamping, the bytes as given otherwise.\<close>

lemma scalar_bits:
  assumes "length k = 32" "i < 256"
  shows "bit (scalar_byte k True (i div 8)) (i mod 8) = bit (rfc_decode_scalar k) i"
    and "bit (scalar_byte k False (i div 8)) (i mod 8) = bit (le_val k) i"
proof -
  have "i div 8 < 32" using assms(2) by simp
  have m: "(- 8 :: u8) = 248" by simp
  then show "bit (scalar_byte k True (i div 8)) (i mod 8) = bit (rfc_decode_scalar k) i"
    unfolding rfc_decode_scalar_def using assms by (subst bit_le_val) (auto simp: scalar_byte_def nth_list_update m)
  show "bit (scalar_byte k False (i div 8)) (i mod 8) = bit (le_val k) i"
    using assms by (subst bit_le_val) (auto simp: scalar_byte_def)
qed

section \<open>The inversion chain\<close>

lemma sqr_times_val: "length x = 8 \<Longrightarrow> length (sqr_times n x) = 8 \<and> fval (sqr_times n x) = fval x ^ 2 ^ n mod p25519"
proof (induction n arbitrary: x)
  case (Suc n)
  have "length (sqr x) = 8" using Suc.prems by (simp add: sqr_def)
  moreover have "fval (sqr x) ^ 2 ^ n mod p25519 = fval x ^ 2 ^ Suc n mod p25519"
    using Suc.prems by (simp add: sqr_def fe_ops fmul_def power_mod flip: power2_eq_square power_mult)
  ultimately show ?case using Suc.IH by simp
qed (simp add: fval_def)

text \<open>Exponents along the chain: \<open>None\<close> for an element that is not a power of the start.\<close>

fun chain_exp :: "(nat \<times> nat \<times> nat) list \<Rightarrow> nat \<Rightarrow> nat option list \<Rightarrow> nat option list" where
  "chain_exp [] prev es = es"
| "chain_exp ((a, c, n) # sts) prev es =
     (case (es ! prev, es ! c) of
        (Some i, Some j) \<Rightarrow> chain_exp sts a (es[a := Some (i * 2 ^ n + j)])
      | _ \<Rightarrow> [None, None, None, None, None])"

definition powers :: "int \<Rightarrow> fe list \<Rightarrow> nat option list \<Rightarrow> bool" where
  "powers z xs es \<longleftrightarrow> length xs = 5 \<and> length es = 5 \<and>
     (\<forall>k < 5. \<forall>e. es ! k = Some e \<longrightarrow> length (xs ! k) = 8 \<and> fval (xs ! k) = z ^ e mod p25519)"

lemma chain_step:
  assumes "powers z xs es" "es ! prev = Some i" "es ! c = Some j" "prev < 5" "a < 5" "c < 5" "c \<noteq> a"
  shows "powers z (xs[a := sqr_times n (xs ! prev), a := mul1 (sqr_times n (xs ! prev)) (xs ! c)])
    (es[a := Some (i * 2 ^ n + j)])"
proof -
  have p: "length (xs ! prev) = 8" "fval (xs ! prev) = z ^ i mod p25519"
    and q: "length (xs ! c) = 8" "fval (xs ! c) = z ^ j mod p25519"
    using assms by (auto simp: powers_def)
  have "fval (mul1 (sqr_times n (xs ! prev)) (xs ! c)) = z ^ (i * 2 ^ n + j) mod p25519"
    using sqr_times_val [OF p(1), of n] p q
    by (simp add: mul1_def fe_ops fmul_def power_mod mod_mult_eq power_add power_mult mult.commute)
  moreover have "length (mul1 (sqr_times n (xs ! prev)) (xs ! c)) = 8"
    using sqr_times_val [OF p(1), of n] q by (simp add: mul1_def)
  ultimately show ?thesis using assms by (auto simp: powers_def nth_list_update)
qed

lemma power_chain_powers:
  "powers z xs es \<Longrightarrow> (\<forall>(a, c, n) \<in> set sts. a < 5 \<and> c < 5 \<and> c \<noteq> a) \<Longrightarrow> prev < 5 \<Longrightarrow>
   chain_exp sts prev es ! 3 = Some e \<Longrightarrow>
   length (power_chain sts prev xs ! 3) = 8 \<and> fval (power_chain sts prev xs ! 3) = z ^ e mod p25519"
proof (induction sts arbitrary: prev xs es)
  case Nil
  then show ?case by (auto simp: powers_def)
next
  case (Cons s sts)
  obtain a c n where s: "s = (a, c, n)" by (cases s)
  obtain i j where ij: "es ! prev = Some i" "es ! c = Some j"
    using Cons.prems(4) by (auto simp: s split: option.splits)
  have b: "a < 5" "c < 5" "c \<noteq> a" using Cons.prems(2) by (auto simp: s)
  have l: "length xs = 5" using Cons.prems(1) by (simp add: powers_def)
  have "power_chain (s # sts) prev xs =
      power_chain sts a (xs[a := sqr_times n (xs ! prev), a := mul1 (sqr_times n (xs ! prev)) (xs ! c)])"
    using b l by (simp add: s Let_def)
  moreover have "chain_exp sts a (es[a := Some (i * 2 ^ n + j)]) ! 3 = Some e"
    using Cons.prems(4) ij by (simp add: s)
  ultimately show ?case
    using Cons.IH [OF chain_step [OF Cons.prems(1) ij Cons.prems(3) b(1,2,3)]] Cons.prems(2) b(1) by auto
qed

lemma steps_exponent: "chain_exp steps 1 [None, Some 1, None, None, None] ! 3 = Some (2 ^ 255 - 21)"
  by (simp add: steps_def)

lemma power_chain_0: "\<forall>(a, c, n) \<in> set sts. a \<noteq> 0 \<Longrightarrow> power_chain sts prev xs ! 0 = xs ! 0"
  by (induction sts prev xs rule: power_chain.induct) (auto simp: Let_def)

section \<open>The exchange\<close>

lemma core_ok:
  assumes "length x1 = 32" "\<And>i. i < 256 \<Longrightarrow> bit k i = bit (scalar_byte scalar clamp (i div 8)) (i mod 8)"
  shows "xs_ok (x25519_core xs scalar x1 clamp)"
    and "points (x25519_core xs scalar x1 clamp) =
      rfc_ladder k (fval (swapin x1)) 256 (1, 0, fval (swapin x1), 1)"
proof -
  let ?one = "1 # replicate 7 0 :: fe"
  let ?xs = "[?one, replicate 8 0, swapin x1, ?one, xs ! 4]"
  have sw: "length (swapin x1) = 8" using fe_val_swapin [of x1 8] assms(1) by simp
  have ok: "xs_ok ?xs" by (simp add: xs_ok_def sw fe_ok_def)
  have pt: "points ?xs = (1, 0, fval (swapin x1), 1)" by (simp add: points_def fval_def)
  obtain b ys where l: "core_loop scalar clamp (swapin x1) 256 (mask_of False) ?xs = (mask_of b, ys)"
    and ys: "xs_ok ys" "cswap b (points ys) = rfc_ladder k (fval (swapin x1)) 256 (cswap False (points ?xs))"
    using core_loop_ladder [OF sw assms(2) ok, of 256 False] by blast
  have c: "x25519_core xs scalar x1 clamp = swap_points ys (mask_of b)"
    using l unfolding mask_of_def [of False] by (simp add: x25519_core_def Let_def del: core_loop.simps)
  show "xs_ok (x25519_core xs scalar x1 clamp)" unfolding c by (rule swap_points_ok [OF ys(1)])
  show "points (x25519_core xs scalar x1 clamp) =
      rfc_ladder k (fval (swapin x1)) 256 (1, 0, fval (swapin x1), 1)"
    unfolding c swap_points_ok [OF ys(1)] ys(2) pt by (simp add: cswap_def)
qed

lemma x25519_value:
  assumes "length u = 32" "\<And>i. i < 256 \<Longrightarrow> bit k i = bit (scalar_byte scalar clamp (i div 8)) (i mod 8)"
    and "x25519 xs scalar u clamp = (ret, out)"
  shows "length out = 32" "int (le_val out) = rfc_x25519 k (int (le_val u) mod p25519)"
    and "ret = (if clamp \<and> rfc_x25519 k (int (le_val u) mod p25519) = 0 then - 1 else 0)"
proof -
  let ?xs = "x25519_core xs scalar u clamp"
  have fu: "fval (swapin u) = int (le_val u) mod p25519"
    using fe_val_swapin [of u 8] assms(1) by (simp add: fval_def)
  note core = core_ok [OF assms(1,2), unfolded fu]
  obtain x2 z2 x3 z3 where r: "rfc_ladder k (int (le_val u) mod p25519) 256 (1, 0, int (le_val u) mod p25519, 1) = (x2, z2, x3, z3)"
    by (cases "rfc_ladder k (int (le_val u) mod p25519) 256 (1, 0, int (le_val u) mod p25519, 1)")
  have x2: "fval (?xs ! 0) = x2" "fval (?xs ! 1) = z2" using core(2) [unfolded r] by (simp_all add: points_def)
  have l: "length ?xs = 5" "length (?xs ! 0) = 8" "length (?xs ! 1) = 8" using core(1) by (simp_all add: xs_ok_def)
  have "powers z2 ?xs [None, Some 1, None, None, None]"
    using l x2(2) by (auto simp: powers_def fval_def nth_Cons split: nat.splits)
  moreover have "\<forall>(a, c, n) \<in> set steps. a < 5 \<and> c < 5 \<and> c \<noteq> a" by (simp add: steps_def)
  ultimately have z: "length (power_chain steps 1 ?xs ! 3) = 8"
    "fval (power_chain steps 1 ?xs ! 3) = z2 ^ (2 ^ 255 - 21) mod p25519"
    using power_chain_powers [OF _ _ _ steps_exponent] by simp_all
  have x: "power_chain steps 1 ?xs ! 0 = ?xs ! 0" by (rule power_chain_0) (simp add: steps_def)
  let ?m = "mul1 (power_chain steps 1 ?xs ! 0) (power_chain steps 1 ?xs ! 3)"
  obtain y w where y: "canon ?m = (y, w)" by (cases "canon ?m")
  have m: "fe_ok ?m" unfolding mul1_def x using z(1) l(2) by simp
  have "fval ?m = fmul (z2 ^ (2 ^ 255 - 21) mod p25519) x2"
    unfolding mul1_def x using z l(2) x2(1) by (simp add: fe_ops)
  also have "\<dots> = rfc_x25519 k (int (le_val u) mod p25519)"
    unfolding rfc_x25519_def r by (simp only: fmul_def split mod_mult_left_eq) (simp only: mult.commute)
  finally have v: "fe_val ?m mod p25519 = rfc_x25519 k (int (le_val u) mod p25519)" by (simp only: fval_def)
  have o: "ret = (if clamp then sint w else 0)" "out = swapout y"
    using assms(3) y by (simp_all add: x25519_def Let_def)
  show "length out = 32" "int (le_val out) = rfc_x25519 k (int (le_val u) mod p25519)"
    unfolding o(2) le_val_swapout length_swapout canon_ok(2) [OF m y] v using canon_ok(1) [OF m y] by simp_all
  show "ret = (if clamp \<and> rfc_x25519 k (int (le_val u) mod p25519) = 0 then - 1 else 0)"
    unfolding o(1) canon_ok(3) [OF m y] v by simp
qed

text \<open>Property C18. With clamping, \<open>x25519\<close> returns the 32 bytes, reduced, of RFC 7748's function
  applied to the decoded scalar and to the 256-bit coordinate taken modulo 2^255 - 19, for any
  scalar and coordinate and whatever the stack held; and it returns -1 exactly when that is zero.
  The ladder is RFC 7748's begun one bit higher, at the bit that clamping clears.
\<close>

theorem x25519_rfc7748:
  assumes "length k = 32" "length u = 32"
  shows "case x25519 xs k u True of (ret, out) \<Rightarrow>
    length out = 32 \<and> int (le_val out) = rfc_x25519 (rfc_decode_scalar k) (int (le_val u) mod p25519) \<and>
    ret = (if le_val out = 0 then - 1 else 0)"
proof -
  obtain ret out where r: "x25519 xs k u True = (ret, out)" by (cases "x25519 xs k u True")
  note v = x25519_value [OF assms(2) scalar_bits(1) [OF assms(1), symmetric] r]
  show ?thesis unfolding r using v by (auto simp del: of_nat_eq_0_iff simp flip: of_nat_eq_0_iff)
qed

lemma x25519_rfc7748_witness:
  "case x25519 [] (replicate 32 7) X25519_BASE_POINT True of (ret, out) \<Rightarrow>
    length out = 32 \<and>
    int (le_val out) = rfc_x25519 (rfc_decode_scalar (replicate 32 7)) (int (le_val X25519_BASE_POINT) mod p25519) \<and>
    ret = (if le_val out = 0 then - 1 else 0)"
  by (rule x25519_rfc7748) (simp_all add: X25519_BASE_POINT_def)

text \<open>A coordinate that is zero modulo 2^255 - 19: after the first round both \<open>z\<close> are zero.\<close>

lemma rfc_step_z0: "x2 = 0 \<or> z2 = 0 \<Longrightarrow> \<exists>a b. rfc_step 0 (x2, z2, x3, z3) = (a, 0, b, 0)"
proof -
  have s: "fsub a a = 0" "fmul 0 a = 0" "fadd x 0 = fsub x 0" for a x
    by (simp_all add: fsub_def fmul_def fadd_def)
  have m: "fmul (fsub 0 z) (fsub 0 z) = fmul (fadd 0 z) (fadd 0 z)" for z
    by (simp add: fmul_def fsub_def fadd_def mod_mult_eq)
  assume "x2 = 0 \<or> z2 = 0"
  then consider "x2 = 0" | "z2 = 0" by blast
  then show ?thesis
    by cases (simp_all only: rfc_step_def Let_def split s m prod.inject simp_thms ex_simps)
qed

lemma rfc_ladder_z0: "\<exists>a b. rfc_ladder k 0 n (x2, 0, x3, 0) = (a, 0, b, 0)"
proof (induction n arbitrary: x2 x3)
  case (Suc n)
  obtain a b where "rfc_step 0 (cswap (bit k n) (x2, 0, x3, 0)) = (a, 0, b, 0)"
    using rfc_step_z0 by (fastforce simp: cswap_def)
  then show ?case using Suc.IH by (cases "bit k n") (simp_all add: cswap_def)
qed simp

lemma rfc_x25519_0: "rfc_x25519 k 0 = 0"
proof -
  have "\<exists>a b. rfc_ladder k 0 (Suc 255) (1, 0, 0, 1) = (a, 0, b, 0)"
  proof -
    obtain a b where "rfc_step 0 (cswap (bit k 255) (1, 0, 0, 1)) = (a, 0, b, 0)"
      using rfc_step_z0 by (fastforce simp: cswap_def)
    then have "cswap (bit k 255) (rfc_step 0 (cswap (bit k 255) (1, 0, 0, 1))) = (if bit k 255 then (b, 0, a, 0) else (a, 0, b, 0))"
      by (simp only: cswap_def split if_True if_False cong: if_cong)
    then show ?thesis unfolding rfc_ladder.simps(2) using rfc_ladder_z0 by (cases "bit k 255") (simp_all only: if_True if_False)
  qed
  then obtain a b where "rfc_ladder k 0 256 (1, 0, 0, 1) = (a, 0, b, 0)" by (auto simp only: Suc_numeral semiring_norm)
  then show ?thesis unfolding rfc_x25519_def by (simp only: split) (simp add: power_0_left)
qed

lemma le_val_0: "le_val bs = 0 \<longleftrightarrow> bs = replicate (length bs) 0"
  by (induction bs) (auto simp: unat_eq_zero)

text \<open>A peer that sends a coordinate equal to zero modulo 2^255 - 19, in any of its three
  encodings, gets the all-zero secret, and the call says so by returning -1 (with clamping).
\<close>

theorem x25519_zero_point:
  assumes "length k = 32" "length u = 32" "le_val u mod (2 ^ 255 - 19) = 0"
  shows "x25519 xs k u clamp = (if clamp then - 1 else 0, replicate 32 0)"
proof -
  obtain ret out where r: "x25519 xs k u clamp = (ret, out)" by (cases "x25519 xs k u clamp")
  define n where "n = (if clamp then rfc_decode_scalar k else le_val k)"
  have n: "bit n i = bit (scalar_byte k clamp (i div 8)) (i mod 8)" if "i < 256" for i
    using scalar_bits [OF assms(1) that] by (cases clamp) (simp_all add: n_def)
  have "int (le_val u) mod p25519 = 0"
    using arg_cong [OF assms(3), of int] by (simp add: zmod_int)
  then have "le_val out = 0" "length out = 32" "ret = (if clamp then - 1 else 0)"
    using x25519_value [OF assms(2) n r] by (simp_all add: rfc_x25519_0)
  then show ?thesis using r le_val_0 [of out] by simp
qed

lemma le_val_ones: "le_val (replicate n 255 @ y) = 256 ^ n * (le_val y + 1) - 1"
proof -
  have "le_val (replicate n 255 @ y) + 1 = 256 ^ n * (le_val y + 1)"
  proof (induction n)
    case (Suc n)
    have ff: "unat (255 :: u8) = 255" by simp
    have "le_val (replicate (Suc n) 255 @ y) + 1 = 256 * (le_val (replicate n 255 @ y) + 1)"
      unfolding replicate_Suc append_Cons le_val.simps ff by simp
    then show ?case by (simp only: Suc.IH power_Suc mult.assoc)
  qed simp
  then show ?thesis by linarith
qed

lemma x25519_zero_point_witness:
  "x25519 [] (replicate 32 7) ([237] @ replicate 30 255 @ [127]) True = (- 1, replicate 32 0)"
proof -
  have "le_val ([237] @ replicate 30 255 @ [127]) mod (2 ^ 255 - 19) = 0"
    using le_val_ones [of 30 "[127]"] by simp
  then have "x25519 [] (replicate 32 7) ([237] @ replicate 30 255 @ [127]) True = (if True then - 1 else 0, replicate 32 0)"
    by (intro x25519_zero_point) simp_all
  then show ?thesis by (simp only: if_True)
qed

text \<open>The top bit of the coordinate counts: with it set, the result is RFC 7748's for the
  coordinate without it plus 19, where RFC 7748 has the bit ignored.
\<close>

theorem x25519_high_bit:
  assumes "length k = 32" "length lo = 31" "bit (hi :: u8) 7"
  shows "int (le_val (snd (x25519 xs k (lo @ [hi]) True))) =
    rfc_x25519 (rfc_decode_scalar k) ((int (le_val (lo @ [hi AND 127])) + 19) mod p25519)"
proof -
  have app: "le_val (bs @ [b]) = le_val bs + 256 ^ length bs * unat b" for bs b
    by (induction bs) (simp_all add: algebra_simps)
  have "unat (hi AND 127) = unat hi mod 128"
  proof -
    have "hi AND 127 = take_bit 7 hi" by (simp add: take_bit_eq_mask mask_numeral)
    then show ?thesis by (simp only: unsigned_take_bit_eq) (simp add: take_bit_eq_mod)
  qed
  moreover have "odd (unat hi div 128)"
  proof -
    have "bit (unat hi) 7" using assms(3) by (simp add: bit_unsigned_iff)
    then show ?thesis by (simp add: bit_iff_odd)
  qed
  ultimately have hi: "unat hi = unat (hi AND 127) + 128"
  proof -
    assume m: "unat (hi AND 127) = unat hi mod 128" and o: "odd (unat hi div 128)"
    have "unat hi div 128 < 2" by (rule less_mult_imp_div_less) simp
    then have "unat hi div 128 = 1" using o by (auto simp: less_2_cases_iff)
    then show ?thesis using mult_div_mod_eq [of 128 "unat hi"] unfolding m by simp
  qed
  have "256 ^ 31 * (m + 128) = 256 ^ 31 * m + 2 ^ 255" for m :: nat by simp
  then have "le_val (lo @ [hi]) = le_val (lo @ [hi AND 127]) + 2 ^ 255"
    by (simp only: app assms(2) hi add.assoc)
  then have "int (le_val (lo @ [hi])) = int (le_val (lo @ [hi AND 127])) + 2 ^ 255" by simp
  also have "\<dots> = int (le_val (lo @ [hi AND 127])) + 19 + 1 * p25519" by simp
  finally have "int (le_val (lo @ [hi])) = int (le_val (lo @ [hi AND 127])) + 19 + 1 * p25519" .
  then have "int (le_val (lo @ [hi])) mod p25519 = (int (le_val (lo @ [hi AND 127])) + 19) mod p25519"
    by (simp only: mod_mult_self1)
  moreover obtain ret out where r: "x25519 xs k (lo @ [hi]) True = (ret, out)"
    by (cases "x25519 xs k (lo @ [hi]) True")
  ultimately show ?thesis
    using x25519_value(2) [OF _ scalar_bits(1) [OF assms(1), symmetric] r] assms(2) by simp
qed

lemma x25519_high_bit_witness:
  "int (le_val (snd (x25519 [] (replicate 32 7) ((9 # replicate 30 0) @ [128]) True))) =
    rfc_x25519 (rfc_decode_scalar (replicate 32 7)) 28"
proof -
  have "le_val ((9 # replicate 30 0) @ [128 AND 127]) = 9"
  proof -
    have "le_val (replicate n 0 @ [0]) = 0" for n by (induction n) simp_all
    then show ?thesis by simp
  qed
  then have n: "(int (le_val ((9 # replicate 30 0) @ [128 AND 127])) + 19) mod p25519 = 28" by simp
  have "int (le_val (snd (x25519 [] (replicate 32 7) ((9 # replicate 30 0) @ [128]) True))) =
    rfc_x25519 (rfc_decode_scalar (replicate 32 7)) ((int (le_val ((9 # replicate 30 0) @ [128 AND 127])) + 19) mod p25519)"
    by (rule x25519_high_bit) (simp_all add: bit_iff_odd_drop_bit)
  then show ?thesis unfolding n .
qed

text \<open>How the protocol calls it (\<^verbatim>\<open>wireguard/crypto.h\<close>), with the return value read as success.\<close>

definition wireguard_x25519 :: "bytes \<Rightarrow> bytes \<Rightarrow> bool \<times> bytes" where
  "wireguard_x25519 b c = (case x25519 [] b c True of (ret, out) \<Rightarrow> (ret = 0, out))"

lemma wireguard_x25519_result:
  assumes "length k = 32" "length u = 32"
  shows "length (snd (wireguard_x25519 k u)) = 32"
    and "fst (wireguard_x25519 k u) \<longleftrightarrow> snd (wireguard_x25519 k u) \<noteq> replicate 32 0"
proof -
  obtain ret out where r: "x25519 [] k u True = (ret, out)" by (cases "x25519 [] k u True")
  note v = x25519_value [OF assms(2) scalar_bits(1) [OF assms(1), symmetric] r]
  show "length (snd (wireguard_x25519 k u)) = 32" using v(1) by (simp add: wireguard_x25519_def r)
  have "rfc_x25519 (rfc_decode_scalar k) (int (le_val u) mod p25519) = 0 \<longleftrightarrow> le_val out = 0"
    using v(2) by (metis of_nat_eq_0_iff)
  then have "ret = 0 \<longleftrightarrow> le_val out \<noteq> 0" using v(3) by auto
  then show "fst (wireguard_x25519 k u) \<longleftrightarrow> snd (wireguard_x25519 k u) \<noteq> replicate 32 0"
    using v(1) le_val_0 [of out] by (simp add: wireguard_x25519_def r)
qed

end
