(* ===== verification/Wg_Kdf.thy ===== *)
theory Wg_Kdf
  imports Blake2s Aead
begin

text \<open>
  The hashing layer of \<^verbatim>\<open>wireguard/wireguard.c\<close>: the precomputed protocol hashes, the keyed
  MAC, the transcript hash, HMAC and the three key derivation functions, and the handling of
  private keys. The BLAKE2s context on the stack of the C functions starts uninitialised;
  \<open>b2s_ctx0\<close> stands for it, and \<open>blake2s_chunks\<close> shows that its contents do not matter.
  The specification is RFC 2104 for HMAC and section 5.4 of the WireGuard paper for the key
  derivation, over the reference BLAKE2s.

  X25519 is bound by a macro of \<^verbatim>\<open>crypto.h\<close>; the definitions take it as the argument
  \<open>x25519 scalar point\<close>, which yields whether the C function returned zero, and the output.
\<close>

section \<open>The code\<close>

abbreviation (input) WIREGUARD_HASH_LEN :: nat where "WIREGUARD_HASH_LEN \<equiv> 32"
abbreviation (input) WIREGUARD_COOKIE_LEN :: nat where "WIREGUARD_COOKIE_LEN \<equiv> 16"

type_synonym x25519_fun = "bytes \<Rightarrow> bytes \<Rightarrow> bool \<times> bytes"

definition CONSTRUCTION :: bytes where "CONSTRUCTION = ascii ''Noise_IKpsk2_25519_ChaChaPoly_BLAKE2s''"
definition IDENTIFIER :: bytes where "IDENTIFIER = ascii ''WireGuard v1 zx2c4 Jason@zx2c4.com''"
definition LABEL_MAC1 :: bytes where "LABEL_MAC1 = ascii ''mac1----''"
definition LABEL_COOKIE :: bytes where "LABEL_COOKIE = ascii ''cookie--''"
definition zero_key :: bytes where "zero_key = replicate 32 0"

text \<open>One run of init, updates and final; the parameters below are always legal.\<close>

definition hash_run :: "nat \<Rightarrow> bytes \<Rightarrow> bytes list \<Rightarrow> bytes" where
  "hash_run outlen key chunks =
     (case blake2s_init b2s_ctx0 outlen key of None \<Rightarrow> []
      | Some ctx \<Rightarrow> snd (blake2s_final (fold (\<lambda>x c. blake2s_update c x) chunks ctx)))"

text \<open>\<^verbatim>\<open>wireguard_init\<close> computes these two.\<close>

definition construction_hash :: bytes where
  "construction_hash = hash_run WIREGUARD_HASH_LEN [] [CONSTRUCTION]"

definition identifier_hash :: bytes where
  "identifier_hash = hash_run WIREGUARD_HASH_LEN [] [construction_hash, IDENTIFIER]"

definition wireguard_mac :: "bytes \<Rightarrow> bytes \<Rightarrow> bytes" where
  "wireguard_mac message key =
     (case blake2s b2s_ctx0 WIREGUARD_COOKIE_LEN key message of None \<Rightarrow> [] | Some d \<Rightarrow> d)"

definition wireguard_mac_key :: "bytes \<Rightarrow> bytes \<Rightarrow> bytes" where
  "wireguard_mac_key public_key label = hash_run 32 [] [label, public_key]"

definition wireguard_mix_hash :: "bytes \<Rightarrow> bytes \<Rightarrow> bytes" where
  "wireguard_mix_hash hash src = hash_run WIREGUARD_HASH_LEN [] [hash, src]"

definition wireguard_hmac :: "bytes \<Rightarrow> bytes \<Rightarrow> bytes" where
  "wireguard_hmac key text =
     (let key = (if length key > 64 then hash_run WIREGUARD_HASH_LEN [] [key] else key);
          k_ipad = map (\<lambda>b. b XOR 0x36) (key @ replicate (64 - length key) 0);
          k_opad = map (\<lambda>b. b XOR 0x5c) (key @ replicate (64 - length key) 0);
          digest = hash_run WIREGUARD_HASH_LEN [] [k_ipad, text]
      in hash_run WIREGUARD_HASH_LEN [] [k_opad, digest])"

definition wireguard_kdf1 :: "bytes \<Rightarrow> bytes \<Rightarrow> bytes" where
  "wireguard_kdf1 chaining_key data =
     (let tau0 = wireguard_hmac chaining_key data in wireguard_hmac tau0 [1])"

definition wireguard_kdf2 :: "bytes \<Rightarrow> bytes \<Rightarrow> bytes \<times> bytes" where
  "wireguard_kdf2 chaining_key data =
     (let tau0 = wireguard_hmac chaining_key data;
          tau1 = wireguard_hmac tau0 [1];
          tau2 = wireguard_hmac tau0 (tau1 @ [2])
      in (tau1, tau2))"

definition wireguard_kdf3 :: "bytes \<Rightarrow> bytes \<Rightarrow> bytes \<times> bytes \<times> bytes" where
  "wireguard_kdf3 chaining_key data =
     (let tau0 = wireguard_hmac chaining_key data;
          tau1 = wireguard_hmac tau0 [1];
          tau2 = wireguard_hmac tau0 (tau1 @ [2]);
          tau3 = wireguard_hmac tau0 (tau2 @ [3])
      in (tau1, tau2, tau3))"

definition wireguard_clamp_private_key :: "bytes \<Rightarrow> bytes" where
  "wireguard_clamp_private_key key =
     (let key = key[0 := key ! 0 AND 248] in key[31 := (key ! 31 AND 127) OR 64])"

definition wireguard_generate_public_key :: "x25519_fun \<Rightarrow> bytes \<Rightarrow> bytes option" where
  "wireguard_generate_public_key x25519 private_key =
     (if take 32 private_key \<noteq> zero_key then
        let (ok, public_key) = x25519 private_key (9 # replicate 31 0)
        in if ok then Some public_key else None
      else None)"

section \<open>The specification\<close>

abbreviation Hash :: "bytes \<Rightarrow> bytes" where "Hash msg \<equiv> rfc_blake2s 32 [] msg"

definition rfc_hmac :: "bytes \<Rightarrow> bytes \<Rightarrow> bytes" where
  "rfc_hmac key text =
     (let k = (if length key > 64 then Hash key else key); k = k @ replicate (64 - length k) 0
      in Hash (map (\<lambda>b. b XOR 0x5c) k @ Hash (map (\<lambda>b. b XOR 0x36) k @ text)))"

text \<open>\<open>Kdf n\<close>: the \<open>i\<close>-th output is the HMAC, under \<open>Hmac(key, input)\<close>, of the output before it
  followed by the byte \<open>i\<close>.\<close>

fun kdf_outputs :: "bytes \<Rightarrow> bytes \<Rightarrow> nat \<Rightarrow> nat \<Rightarrow> bytes list" where
  "kdf_outputs tau0 prev i 0 = []"
| "kdf_outputs tau0 prev i (Suc n) =
     (let tau = rfc_hmac tau0 (prev @ [of_nat i]) in tau # kdf_outputs tau0 tau (i + 1) n)"

definition Kdf :: "nat \<Rightarrow> bytes \<Rightarrow> bytes \<Rightarrow> bytes list" where
  "Kdf n key inp = kdf_outputs (rfc_hmac key inp) [] 1 n"

lemma hash_run_eq:
  "0 < outlen \<Longrightarrow> outlen \<le> 32 \<Longrightarrow> length key \<le> 32 \<Longrightarrow>
   hash_run outlen key chunks = rfc_blake2s outlen key (concat chunks)"
  using blake2s_chunks [of b2s_ctx0 outlen key chunks] by (auto simp: hash_run_def b2s_ctx0_def)

lemma wireguard_mac_eq: "length key \<le> 32 \<Longrightarrow> wireguard_mac message key = rfc_blake2s 16 key message"
  using blake2s_rfc [of b2s_ctx0 16 key message] by (simp add: wireguard_mac_def b2s_ctx0_def)

lemma wireguard_mix_hash_eq: "wireguard_mix_hash hash src = Hash (hash @ src)"
  by (simp add: wireguard_mix_hash_def hash_run_eq)

lemma wireguard_hmac_eq: "wireguard_hmac key text = rfc_hmac key text"
  by (simp add: wireguard_hmac_def rfc_hmac_def hash_run_eq Let_def)

lemma length_mix_hash [simp]: "length (wireguard_mix_hash hash src) = 32"
  by (simp add: wireguard_mix_hash_eq)

lemma length_mac [simp]: "length key \<le> 32 \<Longrightarrow> length (wireguard_mac message key) = 16"
  by (simp add: wireguard_mac_eq)

lemma length_hmac [simp]: "length (wireguard_hmac key text) = 32"
  by (simp add: wireguard_hmac_eq rfc_hmac_def Let_def)

lemma length_kdf [simp]:
  "length (wireguard_kdf1 ck d) = 32"
  "length (fst (wireguard_kdf2 ck d)) = 32" "length (snd (wireguard_kdf2 ck d)) = 32"
  by (simp_all add: wireguard_kdf1_def wireguard_kdf2_def Let_def)

lemma length_mac_key [simp]: "length (wireguard_mac_key pk label) = 32"
  by (simp add: wireguard_mac_key_def hash_run_eq)

section \<open>Properties\<close>

text \<open>Property C39. HMAC and the three key derivation functions compute RFC 2104's HMAC and the
  derivation of the WireGuard paper over the reference hash, for keys of any length.\<close>

theorem kdf_reference:
  "wireguard_hmac key text = rfc_hmac key text \<and>
   [wireguard_kdf1 ck inp] = Kdf 1 ck inp \<and>
   (case wireguard_kdf2 ck inp of (t1, t2) \<Rightarrow> [t1, t2] = Kdf 2 ck inp) \<and>
   (case wireguard_kdf3 ck inp of (t1, t2, t3) \<Rightarrow> [t1, t2, t3] = Kdf 3 ck inp)"
  by (simp add: wireguard_hmac_eq wireguard_kdf1_def wireguard_kdf2_def wireguard_kdf3_def Kdf_def Let_def
    eval_nat_numeral)

end
