(* ===== verification/Wg_Session.thy ===== *)
theory Wg_Session
  imports Wg_Kdf
begin

text \<open>
  The data model of \<^verbatim>\<open>wireguard/wireguard.h\<close> (key pairs, handshake, peer, device) and the
  part of \<^verbatim>\<open>wireguard.c\<close> that keeps sessions: peer lookup, the replay window, the three key
  pair slots of a peer and the start of a session. A pointer to one of a peer's key pairs is
  the slot it points at; a pointer to a peer is its index in the device. \<open>now\<close> is the value
  of \<^verbatim>\<open>wireguard_sys_now()\<close> during the call.
\<close>

section \<open>Data\<close>

record wireguard_keypair =
  k_valid :: bool
  k_initiator :: bool
  keypair_millis :: u32
  sending_key :: bytes
  sending_valid :: bool
  sending_counter :: u64
  receiving_key :: bytes
  receiving_valid :: bool
  k_last_tx :: u32
  k_last_rx :: u32
  replay_bitmap :: u32
  replay_counter :: u64
  k_local_index :: u32
  k_remote_index :: u32

record wireguard_handshake =
  h_valid :: bool
  h_initiator :: bool
  h_local_index :: u32
  h_remote_index :: u32
  ephemeral_private :: bytes
  remote_ephemeral :: bytes
  h_hash :: bytes
  h_chaining_key :: bytes

text \<open>An lwIP address: the four bytes of an IPv4 address, or the four words of an IPv6 address,
  as they lie in memory.\<close>

datatype ip_addr = IP4 u32 | IP6 "u32 list"

record wireguard_allowed_ip =
  a_valid :: bool
  a_ip :: ip_addr
  a_mask :: ip_addr

record wireguard_peer =
  p_valid :: bool
  p_active :: bool
  connect_ip :: ip_addr
  connect_port :: u16
  p_ip :: ip_addr
  p_port :: u16
  keepalive_interval :: u16
  allowed_source_ips :: "wireguard_allowed_ip list"
  p_public_key :: bytes
  preshared_key :: bytes
  public_key_dh :: bytes
  curr_keypair :: wireguard_keypair
  prev_keypair :: wireguard_keypair
  next_keypair :: wireguard_keypair
  greatest_timestamp :: bytes
  handshake :: wireguard_handshake
  cookie_millis :: u32
  p_cookie :: bytes
  handshake_mac1_valid :: bool
  handshake_mac1 :: bytes
  p_label_cookie_key :: bytes
  p_label_mac1_key :: bytes
  last_initiation_rx :: u32
  last_initiation_tx :: u32
  p_last_tx :: u32
  p_last_rx :: u32
  send_handshake :: bool

record wireguard_device =
  d_public_key :: bytes
  d_private_key :: bytes
  cookie_secret :: bytes
  cookie_secret_millis :: u32
  d_label_cookie_key :: bytes
  d_label_mac1_key :: bytes
  peers :: "wireguard_peer list"
  d_valid :: bool

abbreviation (input) WIREGUARD_MAX_PEERS :: nat where "WIREGUARD_MAX_PEERS \<equiv> 1"
abbreviation (input) WIREGUARD_MAX_SRC_IPS :: nat where "WIREGUARD_MAX_SRC_IPS \<equiv> 2"
abbreviation (input) REJECT_AFTER_TIME :: u32 where "REJECT_AFTER_TIME \<equiv> 180"
abbreviation (input) REKEY_AFTER_TIME :: u32 where "REKEY_AFTER_TIME \<equiv> 120"
abbreviation (input) REKEY_TIMEOUT :: u32 where "REKEY_TIMEOUT \<equiv> 5"
abbreviation (input) KEEPALIVE_TIMEOUT :: u16 where "KEEPALIVE_TIMEOUT \<equiv> 10"
abbreviation (input) COOKIE_SECRET_MAX_AGE :: u32 where "COOKIE_SECRET_MAX_AGE \<equiv> 120"
abbreviation (input) REKEY_AFTER_MESSAGES :: u64 where "REKEY_AFTER_MESSAGES \<equiv> 0x1000000000000000"
abbreviation (input) REJECT_AFTER_MESSAGES :: u64 where "REJECT_AFTER_MESSAGES \<equiv> 0xFFFFFFFFFFFFDFFF"

definition zero_keypair :: wireguard_keypair where
  "zero_keypair = \<lparr>k_valid = False, k_initiator = False, keypair_millis = 0, sending_key = replicate 32 0,
     sending_valid = False, sending_counter = 0, receiving_key = replicate 32 0, receiving_valid = False,
     k_last_tx = 0, k_last_rx = 0, replay_bitmap = 0, replay_counter = 0, k_local_index = 0, k_remote_index = 0\<rparr>"

definition zero_handshake :: wireguard_handshake where
  "zero_handshake = \<lparr>h_valid = False, h_initiator = False, h_local_index = 0, h_remote_index = 0,
     ephemeral_private = replicate 32 0, remote_ephemeral = replicate 32 0, h_hash = replicate 32 0,
     h_chaining_key = replicate 32 0\<rparr>"

definition zero_peer :: wireguard_peer where
  "zero_peer = \<lparr>p_valid = False, p_active = False, connect_ip = IP4 0, connect_port = 0, p_ip = IP4 0, p_port = 0,
     keepalive_interval = 0,
     allowed_source_ips = replicate WIREGUARD_MAX_SRC_IPS \<lparr>a_valid = False, a_ip = IP4 0, a_mask = IP4 0\<rparr>,
     p_public_key = replicate 32 0, preshared_key = replicate 32 0, public_key_dh = replicate 32 0,
     curr_keypair = zero_keypair, prev_keypair = zero_keypair, next_keypair = zero_keypair,
     greatest_timestamp = replicate 12 0, handshake = zero_handshake, cookie_millis = 0, p_cookie = replicate 16 0,
     handshake_mac1_valid = False, handshake_mac1 = replicate 16 0, p_label_cookie_key = replicate 32 0,
     p_label_mac1_key = replicate 32 0, last_initiation_rx = 0, last_initiation_tx = 0, p_last_tx = 0, p_last_rx = 0,
     send_handshake = False\<rparr>"

section \<open>Finding peers\<close>

fun find_peer :: "(wireguard_peer \<Rightarrow> bool) \<Rightarrow> wireguard_peer list \<Rightarrow> nat \<Rightarrow> nat option" where
  "find_peer P [] x = None"
| "find_peer P (tmp # ps) x = (if P tmp then Some x else find_peer P ps (x + 1))"

definition peer_alloc :: "wireguard_device \<Rightarrow> nat option" where
  "peer_alloc device = find_peer (\<lambda>tmp. \<not> p_valid tmp) (peers device) 0"

definition peer_lookup_by_pubkey :: "wireguard_device \<Rightarrow> bytes \<Rightarrow> nat option" where
  "peer_lookup_by_pubkey device public_key =
     find_peer (\<lambda>tmp. p_valid tmp \<and> p_public_key tmp = public_key) (peers device) 0"

text \<open>A pointer to one of the device's peers is its index already; another pointer is \<open>None\<close>.\<close>

definition wireguard_peer_index :: "wireguard_device \<Rightarrow> nat option \<Rightarrow> u8" where
  "wireguard_peer_index device peer =
     (case peer of Some x \<Rightarrow> if x < length (peers device) then of_nat x else 0xFF | None \<Rightarrow> 0xFF)"

definition peer_lookup_by_peer_index :: "wireguard_device \<Rightarrow> u8 \<Rightarrow> nat option" where
  "peer_lookup_by_peer_index device peer_index =
     (if unat peer_index < length (peers device) then
        if p_valid (peers device ! unat peer_index) then Some (unat peer_index) else None
      else None)"

definition peer_lookup_by_receiver :: "wireguard_device \<Rightarrow> u32 \<Rightarrow> nat option" where
  "peer_lookup_by_receiver device receiver =
     find_peer (\<lambda>tmp. p_valid tmp \<and>
       (k_valid (curr_keypair tmp) \<and> k_local_index (curr_keypair tmp) = receiver \<or>
        k_valid (next_keypair tmp) \<and> k_local_index (next_keypair tmp) = receiver \<or>
        k_valid (prev_keypair tmp) \<and> k_local_index (prev_keypair tmp) = receiver)) (peers device) 0"

definition peer_lookup_by_handshake :: "wireguard_device \<Rightarrow> u32 \<Rightarrow> nat option" where
  "peer_lookup_by_handshake device receiver =
     find_peer (\<lambda>tmp. p_valid tmp \<and> h_valid (handshake tmp) \<and> h_initiator (handshake tmp) \<and>
       h_local_index (handshake tmp) = receiver) (peers device) 0"

definition wireguard_expired :: "u32 \<Rightarrow> u32 \<Rightarrow> u32 \<Rightarrow> bool" where
  "wireguard_expired now created_millis valid_seconds \<longleftrightarrow> now - created_millis \<ge> valid_seconds * 1000"

section \<open>The replay window\<close>

definition wireguard_check_replay :: "wireguard_keypair \<Rightarrow> u64 \<Rightarrow> bool \<times> wireguard_keypair" where
  "wireguard_check_replay keypair seq =
     (let seq = seq + 1 in
      if seq \<noteq> 0 then
        if seq > replay_counter keypair then
          let diff = ucast (seq - replay_counter keypair) :: u32;
              bitmap = (if diff < 32 then push_bit (unat diff) (replay_bitmap keypair) OR 1 else 1)
          in (True, keypair\<lparr>replay_bitmap := bitmap, replay_counter := seq\<rparr>)
        else
          let diff = ucast (replay_counter keypair - seq) :: u32 in
          if diff < 32 then
            if bit (replay_bitmap keypair) (unat diff) then (False, keypair)
            else (True, keypair\<lparr>replay_bitmap := replay_bitmap keypair OR push_bit (unat diff) 1\<rparr>)
          else (False, keypair)
      else (False, keypair))"

section \<open>Key pairs\<close>

datatype slot = Curr | Next | Prev

fun get_slot :: "wireguard_peer \<Rightarrow> slot \<Rightarrow> wireguard_keypair" where
  "get_slot peer Curr = curr_keypair peer"
| "get_slot peer Next = next_keypair peer"
| "get_slot peer Prev = prev_keypair peer"

fun set_slot :: "wireguard_peer \<Rightarrow> slot \<Rightarrow> wireguard_keypair \<Rightarrow> wireguard_peer" where
  "set_slot peer Curr k = peer\<lparr>curr_keypair := k\<rparr>"
| "set_slot peer Next k = peer\<lparr>next_keypair := k\<rparr>"
| "set_slot peer Prev k = peer\<lparr>prev_keypair := k\<rparr>"

definition get_peer_keypair_for_idx :: "wireguard_peer \<Rightarrow> u32 \<Rightarrow> slot option" where
  "get_peer_keypair_for_idx peer idx =
     (if k_valid (curr_keypair peer) \<and> k_local_index (curr_keypair peer) = idx then Some Curr
      else if k_valid (next_keypair peer) \<and> k_local_index (next_keypair peer) = idx then Some Next
      else if k_valid (prev_keypair peer) \<and> k_local_index (prev_keypair peer) = idx then Some Prev
      else None)"

definition keypair_destroy :: "slot \<Rightarrow> wireguard_peer \<Rightarrow> wireguard_peer" where
  "keypair_destroy s peer = set_slot peer s (zero_keypair\<lparr>k_valid := False\<rparr>)"

definition keypair_update :: "wireguard_peer \<Rightarrow> slot \<Rightarrow> wireguard_peer" where
  "keypair_update peer received_keypair =
     (if received_keypair = Next then
        keypair_destroy Next (peer\<lparr>prev_keypair := curr_keypair peer, curr_keypair := next_keypair peer\<rparr>)
      else peer)"

definition add_new_keypair :: "wireguard_peer \<Rightarrow> wireguard_keypair \<Rightarrow> wireguard_peer" where
  "add_new_keypair peer new_keypair =
     (if k_initiator new_keypair then
        (if k_valid (next_keypair peer)
         then keypair_destroy Next (peer\<lparr>prev_keypair := next_keypair peer\<rparr>)
         else peer\<lparr>prev_keypair := curr_keypair peer\<rparr>)\<lparr>curr_keypair := new_keypair\<rparr>
      else keypair_destroy Prev (peer\<lparr>next_keypair := new_keypair\<rparr>))"

definition wireguard_start_session :: "u32 \<Rightarrow> wireguard_peer \<Rightarrow> bool \<Rightarrow> wireguard_peer" where
  "wireguard_start_session now peer initiator =
     (let hs = handshake peer;
          (t1, t2) = wireguard_kdf2 (h_chaining_key hs) [];
          new_keypair = zero_keypair\<lparr>k_initiator := initiator, k_local_index := h_local_index hs,
            k_remote_index := h_remote_index hs, keypair_millis := now, sending_valid := True, receiving_valid := True,
            sending_key := (if initiator then t1 else t2), receiving_key := (if initiator then t2 else t1),
            replay_bitmap := 0, replay_counter := 0, k_last_tx := 0, k_last_rx := 0, k_valid := True\<rparr>;
          hs = hs\<lparr>ephemeral_private := crypto_zero (ephemeral_private hs) 32,
                  remote_ephemeral := crypto_zero (remote_ephemeral hs) 32, h_hash := crypto_zero (h_hash hs) 32,
                  h_chaining_key := crypto_zero (h_chaining_key hs) 32, h_remote_index := 0, h_local_index := 0,
                  h_valid := False\<rparr>
      in add_new_keypair (peer\<lparr>handshake := hs\<rparr>) new_keypair)"

section \<open>Messages\<close>

abbreviation (input) MESSAGE_INVALID :: u8 where "MESSAGE_INVALID \<equiv> 0"
abbreviation (input) MESSAGE_HANDSHAKE_INITIATION :: u8 where "MESSAGE_HANDSHAKE_INITIATION \<equiv> 1"
abbreviation (input) MESSAGE_HANDSHAKE_RESPONSE :: u8 where "MESSAGE_HANDSHAKE_RESPONSE \<equiv> 2"
abbreviation (input) MESSAGE_COOKIE_REPLY :: u8 where "MESSAGE_COOKIE_REPLY \<equiv> 3"
abbreviation (input) MESSAGE_TRANSPORT_DATA :: u8 where "MESSAGE_TRANSPORT_DATA \<equiv> 4"

definition wireguard_get_message_type :: "bytes \<Rightarrow> u8" where
  "wireguard_get_message_type data =
     (let len = length data in
      if len \<ge> 4 \<and> data ! 1 = 0 \<and> data ! 2 = 0 \<and> data ! 3 = 0 then
        if data ! 0 = 1 then if len = 148 then MESSAGE_HANDSHAKE_INITIATION else MESSAGE_INVALID
        else if data ! 0 = 2 then if len = 92 then MESSAGE_HANDSHAKE_RESPONSE else MESSAGE_INVALID
        else if data ! 0 = 3 then if len = 64 then MESSAGE_COOKIE_REPLY else MESSAGE_INVALID
        else if data ! 0 = 4 then if len \<ge> 16 + 16 then MESSAGE_TRANSPORT_DATA else MESSAGE_INVALID
        else MESSAGE_INVALID
      else MESSAGE_INVALID)"

definition wireguard_encrypt_packet :: "bytes \<Rightarrow> wireguard_keypair \<Rightarrow> bytes \<times> wireguard_keypair" where
  "wireguard_encrypt_packet src keypair =
     (chacha20poly1305_encrypt src [] (sending_counter keypair) (sending_key keypair),
      keypair\<lparr>sending_counter := sending_counter keypair + 1\<rparr>)"

definition wireguard_decrypt_packet :: "bytes \<Rightarrow> u64 \<Rightarrow> wireguard_keypair \<Rightarrow> bytes option" where
  "wireguard_decrypt_packet src counter keypair =
     chacha20poly1305_decrypt src [] counter (receiving_key keypair)"

section \<open>The replay window accepts a counter at most once\<close>

text \<open>
  The contract of a duplicate filter: a relation between its state and the set of what it has
  accepted, such that it only accepts what is new and rejecting leaves the set as it is.
\<close>

locale duplicate_filter =
  fixes check :: "'s \<Rightarrow> 'a \<Rightarrow> bool \<times> 's"
    and knows :: "'s \<Rightarrow> 'a set \<Rightarrow> bool"
    and ok :: "'a \<Rightarrow> bool"
  assumes accepts_new: "knows s S \<Longrightarrow> ok x \<Longrightarrow> check s x = (True, s') \<Longrightarrow> x \<notin> S \<and> knows s' (insert x S)"
    and rejects: "knows s S \<Longrightarrow> ok x \<Longrightarrow> check s x = (False, s') \<Longrightarrow> knows s' S"
begin

fun run :: "'s \<Rightarrow> 'a list \<Rightarrow> 's \<times> 'a list" where
  "run s [] = (s, [])"
| "run s (x # xs) =
     (let (acc, s') = check s x; (s'', ys) = run s' xs in (s'', if acc then x # ys else ys))"

lemma run_distinct:
  assumes "knows s S" "\<forall>x \<in> set xs. ok x"
  shows "distinct (snd (run s xs)) \<and> set (snd (run s xs)) \<inter> S = {} \<and>
    knows (fst (run s xs)) (S \<union> set (snd (run s xs)))"
  using assms
proof (induction xs arbitrary: s S)
  case (Cons x xs)
  obtain acc s' where c: "check s x = (acc, s')" by fastforce
  show ?case
  proof (cases acc)
    case True
    then have "x \<notin> S" "knows s' (insert x S)" using accepts_new [OF Cons.prems(1)] Cons.prems(2) c by auto
    then show ?thesis using Cons.IH [of s' "insert x S"] Cons.prems(2) c True by (auto split: prod.splits)
  next
    case False
    then have "knows s' S" using rejects [OF Cons.prems(1)] Cons.prems(2) c by auto
    then show ?thesis using Cons.IH [of s' S] Cons.prems(2) c False by (auto split: prod.splits)
  qed
qed simp

end

text \<open>The window: bit \<open>i\<close> tells whether the counter \<open>i\<close> below the highest one was accepted.
  Counters are numbered from 1, as in the code.\<close>

definition window_knows :: "wireguard_keypair \<Rightarrow> u64 set \<Rightarrow> bool" where
  "window_knows k S \<longleftrightarrow>
     (\<forall>s \<in> S. unat s + 1 \<le> unat (replay_counter k)) \<and>
     unat (replay_counter k) < 2 ^ 32 \<and>
     (0 < unat (replay_counter k) \<longrightarrow> (\<exists>s \<in> S. unat s + 1 = unat (replay_counter k))) \<and>
     (\<forall>i < 32. bit (replay_bitmap k) i \<longleftrightarrow> (\<exists>s \<in> S. unat s + 1 + i = unat (replay_counter k)))"

lemma diff_u64_u32:
  assumes "unat (b :: u64) \<le> unat a" "unat a < 2 ^ 32"
  shows "unat (ucast (a - b) :: u32) = unat a - unat b"
proof -
  have "unat (a - b) = unat a - unat b" using assms(1) by (simp add: unat_sub_if')
  then show ?thesis using assms by (simp add: unat_low64)
qed

lemma unat_Suc_counter:
  assumes "unat (s :: u64) < 2 ^ 32 - 1"
  shows "unat (s + 1) = unat s + 1" "s + 1 \<noteq> 0"
proof -
  show 1: "unat (s + 1) = unat s + 1" using assms by (subst unat_add64) simp_all
  then show "s + 1 \<noteq> 0" by (metis add_is_0 unat_0 zero_neq_one)
qed

text \<open>The verdict on a counter and the window after it.\<close>

lemma check_replay_higher:
  assumes "window_knows k S" "unat s < 2 ^ 32 - 1" "unat (replay_counter k) < unat s + 1"
  shows "fst (wireguard_check_replay k s)" "s \<notin> S" "window_knows (snd (wireguard_check_replay k s)) (insert s S)"
proof -
  note s1 = unat_Suc_counter [OF assms(2)]
  let ?hi = "unat (replay_counter k)"
  define d where "d = (ucast (s + 1 - replay_counter k) :: u32)"
  have d: "unat d = unat s + 1 - ?hi"
    unfolding d_def using diff_u64_u32 [of "replay_counter k" "s + 1"] assms(2,3) s1 by simp
  have gt: "replay_counter k < s + 1" using assms(3) s1 by (simp add: word_less_nat_alt)
  define bm where "bm = (if d < 32 then push_bit (unat d) (replay_bitmap k) OR 1 else 1)"
  have r: "wireguard_check_replay k s = (True, k\<lparr>replay_bitmap := bm, replay_counter := s + 1\<rparr>)"
    using gt s1 by (simp add: wireguard_check_replay_def Let_def d_def bm_def)
  then show "fst (wireguard_check_replay k s)" by simp
  have le: "unat t + 1 \<le> ?hi" if "t \<in> S" for t using assms(1) that by (auto simp: window_knows_def)
  then show "s \<notin> S" using assms(3) by fastforce
  have bits: "bit bm i \<longleftrightarrow> (\<exists>t \<in> insert s S. unat t + 1 + i = unat s + 1)" if i: "i < 32" for i
  proof -
    have old: "bit (replay_bitmap k) j \<longleftrightarrow> (\<exists>t \<in> S. unat t + 1 + j = ?hi)" if "j < 32" for j
      using assms(1) that by (auto simp: window_knows_def)
    have "bit bm i \<longleftrightarrow> i = 0 \<or> unat d \<le> i \<and> bit (replay_bitmap k) (i - unat d)"
    proof (cases "d < 32")
      case True
      then show ?thesis using i by (auto simp: bm_def bit_simps)
    next
      case False
      then have "32 \<le> unat d" by (simp add: word_less_nat_alt)
      then show ?thesis using i False by (auto simp: bm_def bit_simps)
    qed
    also have "\<dots> \<longleftrightarrow> i = 0 \<or> (\<exists>t \<in> S. unat t + 1 + i = unat s + 1)"
    proof (cases "unat d \<le> i")
      case True
      have eq: "unat t + 1 + (i - unat d) = ?hi \<longleftrightarrow> unat t + 1 + i = unat s + 1" for t
        using True d assms(3) by linarith
      have "i - unat d < 32" using i by simp
      from old [OF this, unfolded eq] show ?thesis using True by blast
    next
      case False
      have "unat t + 1 + i \<noteq> unat s + 1" if "t \<in> S" for t using le [OF that] False d assms(3) by linarith
      then show ?thesis using False by auto
    qed
    also have "\<dots> \<longleftrightarrow> (\<exists>t \<in> insert s S. unat t + 1 + i = unat s + 1)" by auto
    finally show ?thesis .
  qed
  show "window_knows (snd (wireguard_check_replay k s)) (insert s S)"
    unfolding r window_knows_def using bits le assms(2,3) s1(1) by fastforce
qed


lemma check_replay_lower:
  assumes "window_knows k S" "unat s < 2 ^ 32 - 1" "unat s + 1 \<le> unat (replay_counter k)"
  shows "fst (wireguard_check_replay k s) \<longleftrightarrow> unat (replay_counter k) < unat s + 33 \<and> s \<notin> S"
    and "window_knows (snd (wireguard_check_replay k s)) (if fst (wireguard_check_replay k s) then insert s S else S)"
proof -
  note s1 = unat_Suc_counter [OF assms(2)]
  let ?hi = "unat (replay_counter k)"
  define d where "d = (ucast (replay_counter k - (s + 1)) :: u32)"
  have hi: "?hi < 2 ^ 32" using assms(1) by (simp add: window_knows_def)
  have d: "unat d = ?hi - (unat s + 1)"
    unfolding d_def using diff_u64_u32 [of "s + 1" "replay_counter k"] assms(3) s1 hi by simp
  have gt: "\<not> replay_counter k < s + 1" using assms(3) s1 by (simp add: word_less_nat_alt)
  have d32: "d < 32 \<longleftrightarrow> ?hi < unat s + 33" using d assms(3) by (auto simp: word_less_nat_alt)
  have mem: "bit (replay_bitmap k) (unat d) \<longleftrightarrow> s \<in> S" if "?hi < unat s + 33"
  proof -
    have "bit (replay_bitmap k) (unat d) \<longleftrightarrow> (\<exists>t \<in> S. unat t + 1 + unat d = ?hi)"
      using assms(1,3) that d by (simp add: window_knows_def)
    also have "\<dots> \<longleftrightarrow> (\<exists>t \<in> S. unat t = unat s)" using d assms(3) by (intro bex_cong) auto
    also have "\<dots> \<longleftrightarrow> s \<in> S" by (metis word_unat_eq_iff)
    finally show ?thesis .
  qed
  have r: "wireguard_check_replay k s =
      (if ?hi < unat s + 33 \<and> s \<notin> S
       then (True, k\<lparr>replay_bitmap := replay_bitmap k OR push_bit (unat d) 1\<rparr>) else (False, k))"
    using gt s1 mem d32 by (auto simp: wireguard_check_replay_def Let_def d_def)
  then show "fst (wireguard_check_replay k s) \<longleftrightarrow> ?hi < unat s + 33 \<and> s \<notin> S" by simp
  have bits: "bit (replay_bitmap k OR push_bit (unat d) 1) i \<longleftrightarrow> (\<exists>t \<in> insert s S. unat t + 1 + i = ?hi)"
    if "i < 32" "?hi < unat s + 33" for i
  proof -
    have "bit (replay_bitmap k) i \<longleftrightarrow> (\<exists>t \<in> S. unat t + 1 + i = ?hi)"
      using assms(1) that by (simp add: window_knows_def)
    moreover have "bit (push_bit (unat d) 1 :: u32) i \<longleftrightarrow> unat s + 1 + i = ?hi"
      using that d assms(3) by (auto simp: bit_simps)
    ultimately show ?thesis by (auto simp: bit_or_iff)
  qed
  show "window_knows (snd (wireguard_check_replay k s)) (if fst (wireguard_check_replay k s) then insert s S else S)"
    unfolding r using assms bits unfolding window_knows_def by auto
qed

lemma window_accepts_new:
  assumes "window_knows k S" "unat s < 2 ^ 32 - 1" "wireguard_check_replay k s = (True, k')"
  shows "s \<notin> S \<and> window_knows k' (insert s S)"
proof (cases "unat (replay_counter k) < unat s + 1")
  case True
  then show ?thesis using check_replay_higher [OF assms(1,2)] assms(3) by simp
next
  case False
  then show ?thesis using check_replay_lower [OF assms(1,2)] assms(3) by simp
qed

lemma window_rejects:
  assumes "window_knows k S" "unat s < 2 ^ 32 - 1" "wireguard_check_replay k s = (False, k')"
  shows "window_knows k' S"
proof (cases "unat (replay_counter k) < unat s + 1")
  case True
  then show ?thesis using check_replay_higher [OF assms(1,2)] assms(3) by simp
next
  case False
  then show ?thesis using check_replay_lower(2) [OF assms(1,2)] assms(3) by simp
qed

interpretation replay: duplicate_filter wireguard_check_replay window_knows "\<lambda>s. unat s < 2 ^ 32 - 1"
  by unfold_locales (fact window_accepts_new, fact window_rejects)

text \<open>The counters of a run of packets that are accepted.\<close>

fun replay_accepted :: "wireguard_keypair \<Rightarrow> u64 list \<Rightarrow> u64 list" where
  "replay_accepted k [] = []"
| "replay_accepted k (s # ss) =
     (case wireguard_check_replay k s of (acc, k') \<Rightarrow>
        if acc then s # replay_accepted k' ss else replay_accepted k' ss)"

fun replay_state :: "wireguard_keypair \<Rightarrow> u64 list \<Rightarrow> wireguard_keypair" where
  "replay_state k [] = k"
| "replay_state k (s # ss) = replay_state (snd (wireguard_check_replay k s)) ss"

lemma replay_run: "replay.run k ss = (replay_state k ss, replay_accepted k ss)"
  by (induction ss arbitrary: k) (auto split: prod.splits)

lemma window_knows_fresh: "replay_bitmap k = 0 \<Longrightarrow> replay_counter k = 0 \<Longrightarrow> window_knows k {}"
  by (simp add: window_knows_def)

lemma window_verdict:
  assumes "window_knows k S" "unat s < 2 ^ 32 - 1"
  shows "fst (wireguard_check_replay k s) \<longleftrightarrow> s \<notin> S \<and> (\<forall>t \<in> S. unat t < unat s + 32)"
proof (cases "unat (replay_counter k) < unat s + 1")
  case True
  then have "\<forall>t \<in> S. unat t < unat s" using assms(1) by (fastforce simp: window_knows_def)
  then show ?thesis using check_replay_higher [OF assms True] by fastforce
next
  case False
  have "(\<forall>t \<in> S. unat t < unat s + 32) \<longleftrightarrow> unat (replay_counter k) < unat s + 33"
    using assms(1) False unfolding window_knows_def by fastforce
  then show ?thesis using check_replay_lower(1) [OF assms] False by auto
qed

text \<open>What the window keeps for counters of any size, although distances to the highest one are cut to 32 bits: an accepted
  counter less than 32 below it has its bit set.\<close>

definition window_marks :: "wireguard_keypair \<Rightarrow> u64 set \<Rightarrow> bool" where
  "window_marks k S \<longleftrightarrow>
     (\<forall>s \<in> S. unat s + 1 \<le> unat (replay_counter k) \<and>
        (unat (replay_counter k) < unat s + 33 \<longrightarrow> bit (replay_bitmap k) (unat (replay_counter k) - (unat s + 1)))) \<and>
     (0 < unat (replay_counter k) \<longrightarrow> (\<exists>s \<in> S. unat s + 1 = unat (replay_counter k)))"

lemma diff_u64_low:
  assumes "unat (b :: u64) \<le> unat a" "unat a < unat b + 2 ^ 32"
  shows "unat (ucast (a - b) :: u32) = unat a - unat b"
proof -
  have "unat (a - b) = unat a - unat b" using assms(1) by (simp add: unat_sub_if')
  then show ?thesis using assms by (simp add: unat_low64)
qed

lemma unat_Suc_u64: "(s :: u64) + 1 \<noteq> 0 \<Longrightarrow> unat (s + 1) = unat s + 1"
  by (metis Suc_eq_plus1 add.commute unatSuc)

lemma marks_higher:
  assumes "window_marks k S" "s + 1 \<noteq> 0" "unat (replay_counter k) < unat s + 1"
  shows "fst (wireguard_check_replay k s)" "s \<notin> S" "window_marks (snd (wireguard_check_replay k s)) (insert s S)"
proof -
  note s1 = unat_Suc_u64 [OF assms(2)]
  let ?hi = "unat (replay_counter k)"
  define d where "d = (ucast (s + 1 - replay_counter k) :: u32)"
  define bm where "bm = (if d < 32 then push_bit (unat d) (replay_bitmap k) OR 1 else 1)"
  have gt: "replay_counter k < s + 1" using assms(3) s1 by (simp add: word_less_nat_alt)
  have r: "wireguard_check_replay k s = (True, k\<lparr>replay_bitmap := bm, replay_counter := s + 1\<rparr>)"
    using gt assms(2) by (simp add: wireguard_check_replay_def Let_def d_def bm_def)
  then show "fst (wireguard_check_replay k s)" by simp
  have le: "unat t + 1 \<le> ?hi" if "t \<in> S" for t using assms(1) that by (auto simp: window_marks_def)
  then show "s \<notin> S" using assms(3) by fastforce
  have "bit bm (unat s - unat t)" if t: "t \<in> S" "unat s < unat t + 32" for t
  proof -
    have d: "unat d = unat s + 1 - ?hi"
      unfolding d_def using diff_u64_low [of "replay_counter k" "s + 1"] assms(3) s1 le [OF t(1)] t(2) by simp
    then have "d < 32" using le [OF t(1)] t(2) assms(3) by (simp add: word_less_nat_alt)
    moreover have "bit (replay_bitmap k) (?hi - (unat t + 1))"
      using assms(1,3) t unfolding window_marks_def by fastforce
    moreover have "unat s - unat t = unat d + (?hi - (unat t + 1))" using d le [OF t(1)] assms(3) by simp
    moreover have "unat s - unat t < 32" using t(2) le [OF t(1)] assms(3) by linarith
    ultimately show ?thesis by (simp add: bm_def bit_simps)
  qed
  moreover have "bit bm 0" by (simp add: bm_def bit_simps)
  moreover have "unat t \<le> unat s" if "t \<in> S" for t using le [OF that] assms(3) by simp
  ultimately show "window_marks (snd (wireguard_check_replay k s)) (insert s S)"
    by (auto simp: r window_marks_def s1)
qed

lemma marks_lower:
  assumes "window_marks k S" "s + 1 \<noteq> 0" "unat s + 1 \<le> unat (replay_counter k)"
  shows "fst (wireguard_check_replay k s) \<Longrightarrow> s \<in> S \<Longrightarrow> unat s + 1 + 2 ^ 32 \<le> unat (replay_counter k)"
    and "window_marks (snd (wireguard_check_replay k s)) (if fst (wireguard_check_replay k s) then insert s S else S)"
proof -
  note s1 = unat_Suc_u64 [OF assms(2)]
  let ?hi = "unat (replay_counter k)"
  define d where "d = (ucast (replay_counter k - (s + 1)) :: u32)"
  have gt: "\<not> replay_counter k < s + 1" using assms(3) s1 by (simp add: word_less_nat_alt)
  have r: "wireguard_check_replay k s =
      (if d < 32 \<and> \<not> bit (replay_bitmap k) (unat d)
       then (True, k\<lparr>replay_bitmap := replay_bitmap k OR push_bit (unat d) 1\<rparr>) else (False, k))"
    using gt assms(2) by (simp add: wireguard_check_replay_def Let_def d_def)
  have d: "unat d = ?hi - (unat s + 1)" if "?hi < unat s + 1 + 2 ^ 32"
    unfolding d_def using diff_u64_low [of "s + 1" "replay_counter k"] assms(3) s1 that by simp
  show "unat s + 1 + 2 ^ 32 \<le> ?hi" if "fst (wireguard_check_replay k s)" "s \<in> S"
  proof (rule ccontr)
    assume n: "\<not> unat s + 1 + 2 ^ 32 \<le> ?hi"
    have a: "d < 32" "\<not> bit (replay_bitmap k) (unat d)" using that(1) r by (auto split: if_splits)
    have "unat d = ?hi - (unat s + 1)" using d n by simp
    moreover from this have "?hi < unat s + 33" using a(1) assms(3) by (simp add: word_less_nat_alt)
    ultimately show False using assms(1) that(2) a(2) by (auto simp: window_marks_def)
  qed
  have "bit (push_bit (unat d) 1 :: u32) (?hi - (unat s + 1))" if "?hi < unat s + 33"
    using d that assms(3) by (auto simp: bit_simps)
  then show "window_marks (snd (wireguard_check_replay k s)) (if fst (wireguard_check_replay k s) then insert s S else S)"
    using assms(1,3) by (auto simp: r window_marks_def bit_or_iff)
qed

lemma marks_step:
  assumes "window_marks k S"
  shows "window_marks (snd (wireguard_check_replay k s)) (if fst (wireguard_check_replay k s) then insert s S else S)"
proof (cases "s + 1 = 0")
  case True
  then show ?thesis using assms by (simp add: wireguard_check_replay_def)
next
  case False
  show ?thesis
  proof (cases "unat (replay_counter k) < unat s + 1")
    case True
    then show ?thesis using marks_higher [OF assms False] by simp
  next
    case less: False
    then show ?thesis using marks_lower(2) [OF assms False] by simp
  qed
qed

lemma marks_again:
  assumes "window_marks k S" "fst (wireguard_check_replay k s)" "s \<in> S"
  shows "\<exists>t \<in> S. unat s + 2 ^ 32 \<le> unat t"
proof -
  have n: "s + 1 \<noteq> 0" using assms(2) by (auto simp: wireguard_check_replay_def)
  have l: "unat s + 1 \<le> unat (replay_counter k)" using assms(1,3) by (simp add: window_marks_def)
  have "unat s + 1 + 2 ^ 32 \<le> unat (replay_counter k)" by (rule marks_lower(1) [OF assms(1) n l assms(2,3)])
  moreover from this obtain t where "t \<in> S" "unat t + 1 = unat (replay_counter k)"
    using assms(1) by (auto simp: window_marks_def)
  ultimately show ?thesis by (intro bexI [of _ t]) simp_all
qed

lemma marks_run: "window_marks k S \<Longrightarrow> window_marks (replay_state k ss) (S \<union> set (replay_accepted k ss))"
proof (induction ss arbitrary: k S)
  case (Cons s ss)
  obtain acc k' where c: "wireguard_check_replay k s = (acc, k')" by fastforce
  then have "window_marks k' (if acc then insert s S else S)" using marks_step [OF Cons.prems, of s] by simp
  then show ?case using Cons.IH [of k' "if acc then insert s S else S"] c by (cases acc) simp_all
qed simp

section \<open>Properties\<close>

text \<open>Property C7. For any sequence of 64-bit counters on a fresh session: a counter that was let through is let through again
  only after one that is 2^32 or more higher was (the distance to the highest counter is cut to 32 bits, and then it does happen:
  \<open>replay_distance_truncated\<close>). As long as the counters stay below 2^32 - 1, each is let through at most once, and the
  verdict on the next one is that of a 32-packet sliding window: accept what has not been accepted and is less than 32
  behind the highest.\<close>

theorem replay_at_most_once:
  assumes "replay_bitmap k = 0" "replay_counter k = 0"
  shows "(fst (wireguard_check_replay (replay_state k ss) s) \<and> s \<in> set (replay_accepted k ss) \<longrightarrow>
      (\<exists>t \<in> set (replay_accepted k ss). unat s + 2 ^ 32 \<le> unat t)) \<and>
    ((\<forall>t \<in> set ss. unat t < 2 ^ 32 - 1) \<longrightarrow> distinct (replay_accepted k ss) \<and>
    (unat s < 2 ^ 32 - 1 \<longrightarrow>
      (fst (wireguard_check_replay (replay_state k ss) s) \<longleftrightarrow>
        s \<notin> set (replay_accepted k ss) \<and> (\<forall>t \<in> set (replay_accepted k ss). unat t < unat s + 32))))"
proof (rule conjI)
  have "window_marks k {}" using assms by (simp add: window_marks_def)
  then have "window_marks (replay_state k ss) (set (replay_accepted k ss))" using marks_run [of k "{}" ss] by simp
  then show "fst (wireguard_check_replay (replay_state k ss) s) \<and> s \<in> set (replay_accepted k ss) \<longrightarrow>
      (\<exists>t \<in> set (replay_accepted k ss). unat s + 2 ^ 32 \<le> unat t)"
    using marks_again by blast
qed (use replay.run_distinct [OF window_knows_fresh [OF assms]] window_verdict in \<open>auto simp: replay_run\<close>)

theorem replay_at_most_once_witness:
  "distinct (replay_accepted zero_keypair [0, 5, 5, 3, 40, 0, 9])"
  using replay_at_most_once [of zero_keypair "[0, 5, 5, 3, 40, 0, 9]"] by (simp add: zero_keypair_def)

text \<open>The distance to the highest counter is cut to 32 bits: after the counter has moved on
  by 2^32 and a few, a packet that was accepted before is accepted a second time.\<close>

theorem replay_distance_truncated:
  "replay_accepted zero_keypair [10, 10 + 2 ^ 31, 13 + 2 ^ 32, 10] = [10, 10 + 2 ^ 31, 13 + 2 ^ 32, 10]"
  by code_simp

end
