(* ===== verification/Wg_Handshake.thy ===== *)
theory Wg_Handshake
  imports Wg_Session
begin

text \<open>
  The handshake of \<^verbatim>\<open>wireguard/wireguard.c\<close>: building and processing the initiation, the
  response and the cookie reply, the cookie secret, and the set-up of device and peer. A
  message is its bytes; the fields of the packed C structs are read at their offsets. Random
  numbers come from a tape of bytes that is handed on; a definition that draws from the tape
  yields \<open>None\<close> when the tape runs out, which the C code answers by drawing on. An output
  buffer that a failed call leaves half written, and that no caller reads, is not kept.
\<close>

section \<open>Random numbers\<close>

type_synonym tape = bytes

definition wireguard_random_bytes :: "nat \<Rightarrow> tape \<Rightarrow> (bytes \<times> tape) option" where
  "wireguard_random_bytes n tp = (if length tp < n then None else Some (take n tp, drop n tp))"

definition index_used :: "wireguard_device \<Rightarrow> u32 \<Rightarrow> bool" where
  "index_used device i =
     fold (\<lambda>peer _. i = k_local_index (curr_keypair peer) \<or> i = k_local_index (prev_keypair peer) \<or>
       i = k_local_index (next_keypair peer) \<or> i = h_local_index (handshake peer)) (peers device) False"

fun wireguard_generate_unique_index :: "wireguard_device \<Rightarrow> tape \<Rightarrow> (u32 \<times> tape) option" where
  "wireguard_generate_unique_index device (a # b # c # d # tp) =
     (let i = le32 a b c d in
      if i = 0 \<or> i = 0xFFFFFFFF \<or> index_used device i then wireguard_generate_unique_index device tp
      else Some (i, tp))"
| "wireguard_generate_unique_index device _ = None"

definition wireguard_generate_private_key :: "tape \<Rightarrow> (bytes \<times> tape) option" where
  "wireguard_generate_private_key tp =
     map_option (\<lambda>(key, tp). (wireguard_clamp_private_key key, tp)) (wireguard_random_bytes 32 tp)"

section \<open>Cookies and MACs\<close>

definition generate_cookie_secret :: "u32 \<Rightarrow> tape \<Rightarrow> wireguard_device \<Rightarrow> (wireguard_device \<times> tape) option" where
  "generate_cookie_secret now tp device =
     map_option (\<lambda>(r, tp). (device\<lparr>cookie_secret := r, cookie_secret_millis := now\<rparr>, tp))
       (wireguard_random_bytes WIREGUARD_HASH_LEN tp)"

definition generate_peer_cookie ::
  "u32 \<Rightarrow> tape \<Rightarrow> wireguard_device \<Rightarrow> bytes \<Rightarrow> (bytes \<times> wireguard_device \<times> tape) option" where
  "generate_peer_cookie now tp device source_addr_port =
     (case (if wireguard_expired now (cookie_secret_millis device) COOKIE_SECRET_MAX_AGE
            then generate_cookie_secret now tp device else Some (device, tp)) of
        None \<Rightarrow> None
      | Some (device, tp) \<Rightarrow>
          Some (hash_run WIREGUARD_COOKIE_LEN (cookie_secret device)
                  (if source_addr_port \<noteq> [] then [source_addr_port] else []), device, tp))"

definition wireguard_check_mac1 :: "wireguard_device \<Rightarrow> bytes \<Rightarrow> bytes \<Rightarrow> bool" where
  "wireguard_check_mac1 device data mac1 =
     crypto_equal (wireguard_mac data (d_label_mac1_key device)) mac1 WIREGUARD_COOKIE_LEN"

definition wireguard_check_mac2 ::
  "u32 \<Rightarrow> tape \<Rightarrow> wireguard_device \<Rightarrow> bytes \<Rightarrow> bytes \<Rightarrow> bytes \<Rightarrow> (bool \<times> wireguard_device \<times> tape) option" where
  "wireguard_check_mac2 now tp device data source_addr_port mac2 =
     map_option (\<lambda>(cookie, device, tp).
         (crypto_equal (wireguard_mac data cookie) mac2 WIREGUARD_COOKIE_LEN, device, tp))
       (generate_peer_cookie now tp device source_addr_port)"

text \<open>The two MAC fields that end an initiation or a response whose other bytes are \<open>body\<close>.\<close>

definition add_macs :: "u32 \<Rightarrow> wireguard_peer \<Rightarrow> bytes \<Rightarrow> bytes" where
  "add_macs now peer body =
     (let mac1 = wireguard_mac body (p_label_mac1_key peer);
          mac2 = (if cookie_millis peer = 0 \<or> wireguard_expired now (cookie_millis peer) COOKIE_SECRET_MAX_AGE
                  then replicate WIREGUARD_COOKIE_LEN 0
                  else wireguard_mac (body @ mac1) (p_cookie peer))
      in body @ mac1 @ mac2)"

section \<open>Handshake messages\<close>

fun memcmp :: "bytes \<Rightarrow> bytes \<Rightarrow> int" where
  "memcmp (x # xs) (y # ys) = (if x < y then -1 else if x > y then 1 else memcmp xs ys)"
| "memcmp _ _ = 0"

definition is_zero_key :: "bytes \<Rightarrow> bool" where
  "is_zero_key k = crypto_equal k zero_key 32"

definition wireguard_process_initiation_message ::
  "x25519_fun \<Rightarrow> u32 \<Rightarrow> wireguard_device \<Rightarrow> bytes \<Rightarrow> nat option \<times> wireguard_device" where
  "wireguard_process_initiation_message x25519 now device msg =
     (let hash = wireguard_mix_hash identifier_hash (d_public_key device);
          e = seg msg 8 32; enc_static = seg msg 40 48; enc_timestamp = seg msg 88 28;
          chaining_key = wireguard_kdf1 construction_hash e;
          hash = wireguard_mix_hash hash e;
          dh_calculation = snd (x25519 (d_private_key device) e)
      in if is_zero_key dh_calculation then (None, device)
         else let (chaining_key, key) = wireguard_kdf2 chaining_key dh_calculation in
           case chacha20poly1305_decrypt enc_static hash 0 key of None \<Rightarrow> (None, device)
           | Some s \<Rightarrow>
               let hash = wireguard_mix_hash hash enc_static in
               case peer_lookup_by_pubkey device s of None \<Rightarrow> (None, device)
               | Some i \<Rightarrow>
                   let peer = peers device ! i;
                       (chaining_key, key) = wireguard_kdf2 chaining_key (public_key_dh peer) in
                   case chacha20poly1305_decrypt enc_timestamp hash 0 key of None \<Rightarrow> (None, device)
                   | Some t \<Rightarrow>
                       let hash = wireguard_mix_hash hash enc_timestamp;
                           replay = memcmp t (greatest_timestamp peer) \<le> 0;
                           rate_limit = last_initiation_rx peer - now < 1000 div 2
                       in if \<not> replay \<and> \<not> rate_limit then
                            let hs = (handshake peer)\<lparr>remote_ephemeral := e, h_hash := hash,
                                       h_chaining_key := chaining_key, h_remote_index := le32_of (seg msg 4 4),
                                       h_valid := True, h_initiator := False\<rparr>;
                                peer = peer\<lparr>last_initiation_rx := now,
                                  greatest_timestamp := (if memcmp t (greatest_timestamp peer) > 0 then t
                                                         else greatest_timestamp peer),
                                  handshake := hs\<rparr>
                            in (Some i, device\<lparr>peers := (peers device)[i := peer]\<rparr>)
                          else (None, device))"

definition wireguard_process_handshake_response ::
  "x25519_fun \<Rightarrow> wireguard_device \<Rightarrow> wireguard_peer \<Rightarrow> bytes \<Rightarrow> bool \<times> wireguard_peer" where
  "wireguard_process_handshake_response x25519 device peer src =
     (let hs = handshake peer in
      if h_valid hs \<and> h_initiator hs then
        let e = seg src 12 32; enc_empty = seg src 44 16;
            chaining_key = wireguard_kdf1 (h_chaining_key hs) e;
            hash = wireguard_mix_hash (h_hash hs) e;
            dh1 = snd (x25519 (ephemeral_private hs) e)
        in if is_zero_key dh1 then (False, peer)
           else let chaining_key = wireguard_kdf1 chaining_key dh1;
                    dh2 = snd (x25519 (d_private_key device) e)
             in if is_zero_key dh2 then (False, peer)
                else let chaining_key = wireguard_kdf1 chaining_key dh2;
                         (chaining_key, tau, key) = wireguard_kdf3 chaining_key (preshared_key peer);
                         hash = wireguard_mix_hash hash tau in
                  case chacha20poly1305_decrypt enc_empty hash 0 key of None \<Rightarrow> (False, peer)
                  | Some _ \<Rightarrow>
                      (True, peer\<lparr>handshake := hs\<lparr>remote_ephemeral := e, h_hash := hash,
                         h_chaining_key := chaining_key, h_remote_index := le32_of (seg src 4 4)\<rparr>\<rparr>)
      else (False, peer))"

definition wireguard_process_cookie_message :: "u32 \<Rightarrow> wireguard_peer \<Rightarrow> bytes \<Rightarrow> bool \<times> wireguard_peer" where
  "wireguard_process_cookie_message now peer src =
     (if handshake_mac1_valid peer then
        case xchacha20poly1305_decrypt (seg src 32 32) (handshake_mac1 peer) (seg src 8 24) (p_label_cookie_key peer) of
          None \<Rightarrow> (False, peer)
        | Some cookie \<Rightarrow> (True, peer\<lparr>p_cookie := cookie, cookie_millis := now, handshake_mac1_valid := False\<rparr>)
      else (False, peer))"

definition wireguard_create_handshake_initiation ::
  "x25519_fun \<Rightarrow> u32 \<Rightarrow> bytes \<Rightarrow> tape \<Rightarrow> wireguard_device \<Rightarrow> wireguard_peer \<Rightarrow>
   (bytes option \<times> wireguard_peer \<times> tape) option" where
  "wireguard_create_handshake_initiation x25519 now timestamp tp device peer =
     (let hash = wireguard_mix_hash identifier_hash (p_public_key peer) in
      case wireguard_generate_private_key tp of None \<Rightarrow> None
      | Some (priv, tp) \<Rightarrow>
          let hs = (handshake peer)\<lparr>h_chaining_key := construction_hash, h_hash := hash, ephemeral_private := priv\<rparr> in
          case wireguard_generate_public_key x25519 priv of
            None \<Rightarrow> Some (None, peer\<lparr>handshake := hs\<rparr>, tp)
          | Some ephemeral \<Rightarrow>
              let chaining_key = wireguard_kdf1 construction_hash ephemeral;
                  hash = wireguard_mix_hash hash ephemeral;
                  dh_calculation = snd (x25519 priv (p_public_key peer))
              in if is_zero_key dh_calculation
                 then Some (None, peer\<lparr>handshake := hs\<lparr>h_chaining_key := chaining_key, h_hash := hash\<rparr>\<rparr>, tp)
                 else let (chaining_key, key) = wireguard_kdf2 chaining_key dh_calculation;
                          enc_static = chacha20poly1305_encrypt (d_public_key device) hash 0 key;
                          hash = wireguard_mix_hash hash enc_static;
                          (chaining_key, key) = wireguard_kdf2 chaining_key (public_key_dh peer);
                          enc_timestamp = chacha20poly1305_encrypt timestamp hash 0 key;
                          hash = wireguard_mix_hash hash enc_timestamp in
                   case wireguard_generate_unique_index device tp of None \<Rightarrow> None
                   | Some (sender, tp) \<Rightarrow>
                       let peer = peer\<lparr>handshake := hs\<lparr>h_chaining_key := chaining_key, h_hash := hash,
                                      h_valid := True, h_initiator := True, h_local_index := sender\<rparr>\<rparr>;
                           body = [1, 0, 0, 0] @ le32_bytes sender @ ephemeral @ enc_static @ enc_timestamp
                       in Some (Some (add_macs now peer body), peer, tp))"

definition wireguard_create_handshake_response ::
  "x25519_fun \<Rightarrow> u32 \<Rightarrow> tape \<Rightarrow> wireguard_device \<Rightarrow> wireguard_peer \<Rightarrow>
   (bytes option \<times> wireguard_peer \<times> tape) option" where
  "wireguard_create_handshake_response x25519 now tp device peer =
     (let hs = handshake peer in
      if h_valid hs \<and> \<not> h_initiator hs then
        case wireguard_generate_private_key tp of None \<Rightarrow> None
        | Some (priv, tp) \<Rightarrow>
            let hs = hs\<lparr>ephemeral_private := priv\<rparr> in
            case wireguard_generate_public_key x25519 priv of
              None \<Rightarrow> Some (None, peer\<lparr>handshake := hs\<rparr>, tp)
            | Some ephemeral \<Rightarrow>
                let chaining_key = wireguard_kdf1 (h_chaining_key hs) ephemeral;
                    hash = wireguard_mix_hash (h_hash hs) ephemeral;
                    dh1 = snd (x25519 priv (remote_ephemeral hs))
                in if is_zero_key dh1
                   then Some (None, peer\<lparr>handshake := hs\<lparr>h_chaining_key := chaining_key, h_hash := hash\<rparr>\<rparr>, tp)
                   else let chaining_key = wireguard_kdf1 chaining_key dh1;
                            dh2 = snd (x25519 priv (p_public_key peer))
                     in if is_zero_key dh2
                        then Some (None, peer\<lparr>handshake := hs\<lparr>h_chaining_key := chaining_key, h_hash := hash\<rparr>\<rparr>, tp)
                        else let chaining_key = wireguard_kdf1 chaining_key dh2;
                                 (chaining_key, tau, key) = wireguard_kdf3 chaining_key (preshared_key peer);
                                 hash = wireguard_mix_hash hash tau;
                                 enc_empty = chacha20poly1305_encrypt [] hash 0 key;
                                 hash = wireguard_mix_hash hash enc_empty in
                          case wireguard_generate_unique_index device tp of None \<Rightarrow> None
                          | Some (sender, tp) \<Rightarrow>
                              let body = [2, 0, 0, 0] @ le32_bytes sender @ le32_bytes (h_remote_index hs) @ ephemeral @ enc_empty;
                                  peer = peer\<lparr>handshake := hs\<lparr>h_chaining_key := chaining_key, h_hash := hash,
                                               h_local_index := sender\<rparr>\<rparr>
                              in Some (Some (add_macs now peer body), peer, tp)
      else Some (None, peer, tp))"

definition wireguard_create_cookie_reply ::
  "u32 \<Rightarrow> tape \<Rightarrow> wireguard_device \<Rightarrow> bytes \<Rightarrow> u32 \<Rightarrow> bytes \<Rightarrow> (bytes \<times> wireguard_device \<times> tape) option" where
  "wireguard_create_cookie_reply now tp device mac1 index source_addr_port =
     (case wireguard_random_bytes 24 tp of None \<Rightarrow> None
      | Some (nonce, tp) \<Rightarrow>
          case generate_peer_cookie now tp device source_addr_port of None \<Rightarrow> None
          | Some (cookie, device, tp) \<Rightarrow>
              Some ([3, 0, 0, 0] @ le32_bytes index @ nonce @
                    xchacha20poly1305_encrypt cookie mac1 nonce (d_label_cookie_key device), device, tp))"

section \<open>Device and peer\<close>

definition wireguard_peer_init ::
  "x25519_fun \<Rightarrow> wireguard_device \<Rightarrow> bytes \<Rightarrow> bytes option \<Rightarrow> bool \<times> wireguard_peer" where
  "wireguard_peer_init x25519 device public_key psk =
     (if d_valid device then
        let peer = zero_peer\<lparr>p_public_key := public_key,
                    preshared_key := (case psk of Some k \<Rightarrow> k | None \<Rightarrow> replicate 32 0)\<rparr>;
            (ok, dh) = x25519 (d_private_key device) public_key
        in if ok then
             (True, peer\<lparr>public_key_dh := dh, handshake := zero_handshake, cookie_millis := 0,
                p_cookie := replicate WIREGUARD_COOKIE_LEN 0,
                p_label_mac1_key := wireguard_mac_key public_key LABEL_MAC1,
                p_label_cookie_key := wireguard_mac_key public_key LABEL_COOKIE, p_valid := True\<rparr>)
           else (False, peer\<lparr>public_key_dh := replicate 32 0\<rparr>)
      else (False, zero_peer))"

definition wireguard_device_init ::
  "x25519_fun \<Rightarrow> u32 \<Rightarrow> tape \<Rightarrow> wireguard_device \<Rightarrow> bytes \<Rightarrow> (bool \<times> wireguard_device \<times> tape) option" where
  "wireguard_device_init x25519 now tp device private_key =
     (let device = device\<lparr>d_private_key := wireguard_clamp_private_key private_key\<rparr> in
      case wireguard_generate_public_key x25519 private_key of
        None \<Rightarrow> Some (False, device\<lparr>d_valid := False, d_private_key := replicate 32 0\<rparr>, tp)
      | Some public_key \<Rightarrow>
          map_option (\<lambda>(device, tp).
              (True, device\<lparr>d_label_mac1_key := wireguard_mac_key public_key LABEL_MAC1,
                           d_label_cookie_key := wireguard_mac_key public_key LABEL_COOKIE\<rparr>, tp))
            (generate_cookie_secret now tp (device\<lparr>d_public_key := public_key, d_valid := True\<rparr>)))"

section \<open>Two ends agree\<close>

abbreviation (input) pub :: "x25519_fun \<Rightarrow> bytes \<Rightarrow> bytes" where
  "pub x25519 k \<equiv> snd (x25519 k (9 # replicate 31 0))"

text \<open>What the handshake needs of X25519: both ends of a Diffie-Hellman exchange compute the same
  value, and a public key has 32 bytes.\<close>

definition dh_agrees :: "x25519_fun \<Rightarrow> bool" where
  "dh_agrees x25519 \<longleftrightarrow> (\<forall>k l. length k = 32 \<longrightarrow> length l = 32 \<longrightarrow> snd (x25519 k (pub x25519 l)) = snd (x25519 l (pub x25519 k))) \<and>
     (\<forall>k. length k = 32 \<longrightarrow> length (pub x25519 k) = 32)"

text \<open>The static set-up of the two ends: \<open>dI\<close> with its record \<open>pI\<close> of the responder, and the
  responder's record \<open>pR\<close> of the initiator.\<close>

definition paired :: "x25519_fun \<Rightarrow> wireguard_device \<Rightarrow> wireguard_peer \<Rightarrow> wireguard_device \<Rightarrow> wireguard_peer \<Rightarrow> bool" where
  "paired x25519 dI pI dR pR \<longleftrightarrow>
     length (d_private_key dI) = 32 \<and> length (d_private_key dR) = 32 \<and>
     d_public_key dI = pub x25519 (d_private_key dI) \<and> d_public_key dR = pub x25519 (d_private_key dR) \<and>
     p_public_key pI = d_public_key dR \<and> p_public_key pR = d_public_key dI \<and>
     public_key_dh pI = snd (x25519 (d_private_key dI) (d_public_key dR)) \<and>
     public_key_dh pR = snd (x25519 (d_private_key dR) (d_public_key dI)) \<and>
     preshared_key pI = preshared_key pR"

text \<open>The transcript of an initiation, as both ends compute it from the ephemeral key \<open>e\<close>, the two
  shared secrets and the sealed fields.\<close>

definition init_hash1 :: "bytes \<Rightarrow> bytes \<Rightarrow> bytes" where
  "init_hash1 spub e = wireguard_mix_hash (wireguard_mix_hash identifier_hash spub) e"

definition init_keys :: "bytes \<Rightarrow> bytes \<Rightarrow> bytes \<Rightarrow> bytes \<times> bytes \<times> bytes" where
  "init_keys e es ss =
     (let (ck, k1) = wireguard_kdf2 (wireguard_kdf1 construction_hash e) es; (ck, k2) = wireguard_kdf2 ck ss
      in (ck, k1, k2))"

definition init_hash2 :: "bytes \<Rightarrow> bytes \<Rightarrow> bytes \<Rightarrow> bytes \<Rightarrow> bytes" where
  "init_hash2 spub e enc_s enc_t = wireguard_mix_hash (wireguard_mix_hash (init_hash1 spub e) enc_s) enc_t"

definition resp_keys :: "bytes \<Rightarrow> bytes \<Rightarrow> bytes \<Rightarrow> bytes \<Rightarrow> bytes \<Rightarrow> bytes \<times> bytes \<times> bytes" where
  "resp_keys ck e ee se psk = wireguard_kdf3 (wireguard_kdf1 (wireguard_kdf1 (wireguard_kdf1 ck e) ee) se) psk"

lemma length_clamp [simp]: "length (wireguard_clamp_private_key k) = length k"
  by (simp add: wireguard_clamp_private_key_def Let_def)

lemma private_key_length: "wireguard_generate_private_key tp = Some (k, tp') \<Longrightarrow> length k = 32"
  by (auto simp: wireguard_generate_private_key_def wireguard_random_bytes_def split: if_splits)

lemma find_peer_Some:
  "find_peer P ps x = Some i \<Longrightarrow> x \<le> i \<and> i < x + length ps \<and> P (ps ! (i - x))"
proof (induction P ps x rule: find_peer.induct)
  case (2 P tmp ps x)
  show ?case
  proof (cases "P tmp")
    case True
    then show ?thesis using 2 by simp
  next
    case False
    then have "Suc x \<le> i \<and> i < Suc x + length ps \<and> P (ps ! (i - Suc x))" using 2 by simp
    then show ?thesis by (simp add: nth_Cons')
  qed
qed simp

text \<open>What a successful initiation looks like.\<close>

lemma create_initiation_form:
  assumes "wireguard_create_handshake_initiation x25519 now ts tp dI pI = Some (Some m, pI', tp')"
  obtains priv sender where
    "length priv = 32" "\<not> is_zero_key (snd (x25519 priv (p_public_key pI)))"
    "case init_keys (pub x25519 priv) (snd (x25519 priv (p_public_key pI))) (public_key_dh pI) of (ck, k1, k2) \<Rightarrow>
       let h1 = init_hash1 (p_public_key pI) (pub x25519 priv); enc_s = chacha20poly1305_encrypt (d_public_key dI) h1 0 k1;
           enc_t = chacha20poly1305_encrypt ts (wireguard_mix_hash h1 enc_s) 0 k2;
           hs = (handshake pI)\<lparr>h_chaining_key := ck, h_hash := init_hash2 (p_public_key pI) (pub x25519 priv) enc_s enc_t,
              ephemeral_private := priv, h_valid := True, h_initiator := True, h_local_index := sender\<rparr>
       in pI' = pI\<lparr>handshake := hs\<rparr> \<and>
          m = add_macs now pI' ([1, 0, 0, 0] @ le32_bytes sender @ pub x25519 priv @ enc_s @ enc_t)"
proof -
  obtain priv tp1 where g: "wireguard_generate_private_key tp = Some (priv, tp1)"
    using assms by (cases "wireguard_generate_private_key tp") (auto simp: wireguard_create_handshake_initiation_def Let_def)
  obtain e where e: "wireguard_generate_public_key x25519 priv = Some e"
    using assms g by (cases "wireguard_generate_public_key x25519 priv")
      (auto simp: wireguard_create_handshake_initiation_def Let_def)
  have e_pub: "e = pub x25519 priv"
    using e by (auto simp: wireguard_generate_public_key_def split: if_splits prod.splits)
  have nz: "\<not> is_zero_key (snd (x25519 priv (p_public_key pI)))"
    using assms g e by (auto simp: wireguard_create_handshake_initiation_def Let_def split: if_splits)
  obtain sender tp2 where u: "wireguard_generate_unique_index dI tp1 = Some (sender, tp2)"
    using assms g e nz by (cases "wireguard_generate_unique_index dI tp1")
      (auto simp: wireguard_create_handshake_initiation_def Let_def split: prod.splits)
  show thesis
  proof (rule that [of priv sender])
    show "length priv = 32" by (rule private_key_length [OF g])
    show "\<not> is_zero_key (snd (x25519 priv (p_public_key pI)))" by (rule nz)
  next
    show "case init_keys (pub x25519 priv) (snd (x25519 priv (p_public_key pI))) (public_key_dh pI) of (ck, k1, k2) \<Rightarrow>
       let h1 = init_hash1 (p_public_key pI) (pub x25519 priv); enc_s = chacha20poly1305_encrypt (d_public_key dI) h1 0 k1;
           enc_t = chacha20poly1305_encrypt ts (wireguard_mix_hash h1 enc_s) 0 k2;
           hs = (handshake pI)\<lparr>h_chaining_key := ck, h_hash := init_hash2 (p_public_key pI) (pub x25519 priv) enc_s enc_t,
              ephemeral_private := priv, h_valid := True, h_initiator := True, h_local_index := sender\<rparr>
       in pI' = pI\<lparr>handshake := hs\<rparr> \<and>
          m = add_macs now pI' ([1, 0, 0, 0] @ le32_bytes sender @ pub x25519 priv @ enc_s @ enc_t)"
      using assms g e nz u
      by (auto simp: wireguard_create_handshake_initiation_def Let_def e_pub init_keys_def init_hash1_def init_hash2_def
        split: prod.splits)
  qed
qed


lemma initiation_fields:
  assumes "length e = 32" "length enc_s = 48" "length enc_t = 28"
    and "m = add_macs now peer ([1, 0, 0, 0] @ le32_bytes sender @ e @ enc_s @ enc_t)"
  shows "seg m 4 4 = le32_bytes sender" "seg m 8 32 = e" "seg m 40 48 = enc_s" "seg m 88 28 = enc_t"
  using assms by (simp_all add: add_macs_def Let_def)

lemma response_fields:
  assumes "length e = 32" "length enc_e = 16"
    and "m = add_macs now peer ([2, 0, 0, 0] @ le32_bytes sender @ le32_bytes receiver @ e @ enc_e)"
  shows "seg m 4 4 = le32_bytes sender" "seg m 8 4 = le32_bytes receiver" "seg m 12 32 = e" "seg m 44 16 = enc_e"
  using assms by (simp_all add: add_macs_def Let_def)

text \<open>The responder's side of it.\<close>

lemma process_initiation_ok:
  assumes "seg m 8 32 = e" "seg m 40 48 = enc_s" "seg m 88 28 = enc_t" "seg m 4 4 = le32_bytes sender"
    and "\<not> is_zero_key (snd (x25519 (d_private_key dR) e))"
    and "init_keys e (snd (x25519 (d_private_key dR) e)) (public_key_dh (peers dR ! i)) = (ck, k1, k2)"
    and "enc_s = chacha20poly1305_encrypt spub (init_hash1 (d_public_key dR) e) 0 k1"
    and "peer_lookup_by_pubkey dR spub = Some i"
    and "enc_t = chacha20poly1305_encrypt ts (wireguard_mix_hash (init_hash1 (d_public_key dR) e) enc_s) 0 k2"
    and "memcmp ts (greatest_timestamp (peers dR ! i)) > 0" "\<not> last_initiation_rx (peers dR ! i) - now < 500"
  shows "wireguard_process_initiation_message x25519 now dR m = (Some i, dR\<lparr>peers := (peers dR)[i :=
     (peers dR ! i)\<lparr>last_initiation_rx := now, greatest_timestamp := ts,
       handshake := (handshake (peers dR ! i))\<lparr>remote_ephemeral := e, h_hash := init_hash2 (d_public_key dR) e enc_s enc_t,
         h_chaining_key := ck, h_remote_index := sender, h_valid := True, h_initiator := False\<rparr>\<rparr>]\<rparr>)"
proof -
  let ?dh = "snd (x25519 (d_private_key dR) e)"
  obtain ck1 where k1: "wireguard_kdf2 (wireguard_kdf1 construction_hash e) ?dh = (ck1, k1)"
    "wireguard_kdf2 ck1 (public_key_dh (peers dR ! i)) = (ck, k2)"
    using assms(6) by (auto simp: init_keys_def Let_def split: prod.splits)
  have s: "chacha20poly1305_decrypt enc_s (wireguard_mix_hash (wireguard_mix_hash identifier_hash (d_public_key dR)) e) 0 k1 = Some spub"
    unfolding assms(7) init_hash1_def by (rule decrypt_encrypt)
  have t: "chacha20poly1305_decrypt enc_t (wireguard_mix_hash (wireguard_mix_hash (wireguard_mix_hash identifier_hash (d_public_key dR)) e) enc_s) 0 k2 = Some ts"
    unfolding assms(9) init_hash1_def by (rule decrypt_encrypt)
  show ?thesis
    unfolding wireguard_process_initiation_message_def assms(1-4) Let_def
    using assms(5,8,10,11) k1 s t by (simp add: init_hash1_def init_hash2_def)
qed

lemma create_response_form:
  assumes "wireguard_create_handshake_response x25519 now tp dR pR = Some (Some m, pR', tp')"
  obtains priv sender where
    "length priv = 32" "\<not> is_zero_key (snd (x25519 priv (remote_ephemeral (handshake pR))))"
    "\<not> is_zero_key (snd (x25519 priv (p_public_key pR)))"
    "case resp_keys (h_chaining_key (handshake pR)) (pub x25519 priv) (snd (x25519 priv (remote_ephemeral (handshake pR))))
       (snd (x25519 priv (p_public_key pR))) (preshared_key pR) of (ck, tau, k) \<Rightarrow>
       let hash = wireguard_mix_hash (wireguard_mix_hash (h_hash (handshake pR)) (pub x25519 priv)) tau;
           enc_e = chacha20poly1305_encrypt [] hash 0 k;
           hs = (handshake pR)\<lparr>h_chaining_key := ck, h_hash := wireguard_mix_hash hash enc_e, ephemeral_private := priv,
              h_local_index := sender\<rparr>
       in pR' = pR\<lparr>handshake := hs\<rparr> \<and>
          m = add_macs now pR' ([2, 0, 0, 0] @ le32_bytes sender @ le32_bytes (h_remote_index (handshake pR)) @
                pub x25519 priv @ enc_e)"
proof -
  have v: "h_valid (handshake pR)" "\<not> h_initiator (handshake pR)"
    using assms by (auto simp: wireguard_create_handshake_response_def Let_def split: if_splits)
  obtain priv tp1 where g: "wireguard_generate_private_key tp = Some (priv, tp1)"
    using assms v by (cases "wireguard_generate_private_key tp") (auto simp: wireguard_create_handshake_response_def Let_def)
  obtain e where e: "wireguard_generate_public_key x25519 priv = Some e"
    using assms g v by (cases "wireguard_generate_public_key x25519 priv")
      (auto simp: wireguard_create_handshake_response_def Let_def)
  have e_pub: "e = pub x25519 priv"
    using e by (auto simp: wireguard_generate_public_key_def split: if_splits prod.splits)
  have nz1: "\<not> is_zero_key (snd (x25519 priv (remote_ephemeral (handshake pR))))"
    using assms g e v by (auto simp: wireguard_create_handshake_response_def Let_def split: if_splits)
  have nz2: "\<not> is_zero_key (snd (x25519 priv (p_public_key pR)))"
    using assms g e v nz1 by (auto simp: wireguard_create_handshake_response_def Let_def split: if_splits)
  obtain sender tp2 where u: "wireguard_generate_unique_index dR tp1 = Some (sender, tp2)"
    using assms g e v nz1 nz2 by (cases "wireguard_generate_unique_index dR tp1")
      (auto simp: wireguard_create_handshake_response_def Let_def split: prod.splits)
  show thesis
    by (rule that [of priv sender, OF private_key_length [OF g] nz1 nz2])
      (use assms g e v nz1 nz2 u in \<open>auto simp: wireguard_create_handshake_response_def Let_def e_pub resp_keys_def
        split: prod.splits\<close>)
qed

lemma process_response_ok:
  assumes "seg m 12 32 = e" "seg m 44 16 = enc_e" "seg m 4 4 = le32_bytes sender"
    and "h_valid (handshake pI)" "h_initiator (handshake pI)"
    and "\<not> is_zero_key (snd (x25519 (ephemeral_private (handshake pI)) e))"
    and "\<not> is_zero_key (snd (x25519 (d_private_key dI) e))"
    and "resp_keys (h_chaining_key (handshake pI)) e (snd (x25519 (ephemeral_private (handshake pI)) e))
           (snd (x25519 (d_private_key dI) e)) (preshared_key pI) = (ck, tau, k)"
    and "enc_e = chacha20poly1305_encrypt [] (wireguard_mix_hash (wireguard_mix_hash (h_hash (handshake pI)) e) tau) 0 k"
  shows "wireguard_process_handshake_response x25519 dI pI m =
    (True, pI\<lparr>handshake := (handshake pI)\<lparr>remote_ephemeral := e,
       h_hash := wireguard_mix_hash (wireguard_mix_hash (h_hash (handshake pI)) e) tau,
       h_chaining_key := ck, h_remote_index := sender\<rparr>\<rparr>)"
  unfolding wireguard_process_handshake_response_def assms(1-3) Let_def
  using assms(4-8) by (simp add: assms(9) resp_keys_def decrypt_encrypt)


text \<open>The keys of a session come from the final chaining key alone.\<close>

definition matched :: "wireguard_keypair \<Rightarrow> wireguard_keypair \<Rightarrow> bool" where
  "matched kI kR \<longleftrightarrow> k_valid kI \<and> k_valid kR \<and> sending_key kI = receiving_key kR \<and> receiving_key kI = sending_key kR \<and>
     k_local_index kI = k_remote_index kR \<and> k_remote_index kI = k_local_index kR"

lemma start_session_matched:
  assumes "h_chaining_key (handshake pI) = h_chaining_key (handshake pR)"
    and "h_local_index (handshake pI) = h_remote_index (handshake pR)"
    and "h_remote_index (handshake pI) = h_local_index (handshake pR)"
  shows "matched (curr_keypair (wireguard_start_session nowI pI True)) (next_keypair (wireguard_start_session nowR pR False))"
  using assms by (simp add: matched_def wireguard_start_session_def add_new_keypair_def keypair_destroy_def Let_def
    split: prod.splits)

lemma handshake_completes:
  assumes "dh_agrees x25519" "paired x25519 dI pI dR (peers dR ! i)"
    and "peer_lookup_by_pubkey dR (d_public_key dI) = Some i" "length ts = 12"
    and "memcmp ts (greatest_timestamp (peers dR ! i)) > 0" "\<not> last_initiation_rx (peers dR ! i) - nowR < 500"
    and "wireguard_create_handshake_initiation x25519 nowI ts tp dI pI = Some (Some m1, pI1, tp1)"
  shows "\<exists>dR1. wireguard_process_initiation_message x25519 nowR dR m1 = (Some i, dR1) \<and>
    (\<forall>m2 pR2 tp2. wireguard_create_handshake_response x25519 nowR tpR dR1 (peers dR1 ! i) = Some (Some m2, pR2, tp2) \<longrightarrow>
      (\<exists>pI2. wireguard_process_handshake_response x25519 dI pI1 m2 = (True, pI2) \<and>
        matched (curr_keypair (wireguard_start_session nowI' pI2 True))
                (next_keypair (wireguard_start_session nowR pR2 False))))"
proof -
  let ?pR = "peers dR ! i" and ?a = "d_private_key dI" and ?b = "d_private_key dR"
  have comm: "snd (x25519 k (pub x25519 l)) = snd (x25519 l (pub x25519 k))" if "length k = 32" "length l = 32" for k l
    using assms(1) that unfolding dh_agrees_def by blast
  have plen: "length (pub x25519 k) = 32" if "length k = 32" for k
    using assms(1) that unfolding dh_agrees_def by blast
  have pr: "d_public_key dI = pub x25519 ?a" "d_public_key dR = pub x25519 ?b" "p_public_key pI = d_public_key dR"
    "p_public_key ?pR = d_public_key dI" "public_key_dh pI = snd (x25519 ?a (pub x25519 ?b))"
    "public_key_dh ?pR = snd (x25519 ?b (pub x25519 ?a))" "preshared_key pI = preshared_key ?pR"
    "length (d_public_key dI) = 32" "length ?a = 32" "length ?b = 32"
    using assms(2) plen unfolding paired_def by auto
  obtain ea sender where A: "length ea = 32" "\<not> is_zero_key (snd (x25519 ea (p_public_key pI)))"
    "case init_keys (pub x25519 ea) (snd (x25519 ea (p_public_key pI))) (public_key_dh pI) of (ck, k1, k2) \<Rightarrow>
       let h1 = init_hash1 (p_public_key pI) (pub x25519 ea); enc_s = chacha20poly1305_encrypt (d_public_key dI) h1 0 k1;
           enc_t = chacha20poly1305_encrypt ts (wireguard_mix_hash h1 enc_s) 0 k2;
           hs = (handshake pI)\<lparr>h_chaining_key := ck, h_hash := init_hash2 (p_public_key pI) (pub x25519 ea) enc_s enc_t,
              ephemeral_private := ea, h_valid := True, h_initiator := True, h_local_index := sender\<rparr>
       in pI1 = pI\<lparr>handshake := hs\<rparr> \<and>
          m1 = add_macs nowI pI1 ([1, 0, 0, 0] @ le32_bytes sender @ pub x25519 ea @ enc_s @ enc_t)"
    by (rule create_initiation_form [OF assms(7)])
  obtain ck k1 k2 where ik: "init_keys (pub x25519 ea) (snd (x25519 ?b (pub x25519 ea))) (public_key_dh ?pR) = (ck, k1, k2)"
    by (metis prod_cases3)
  have ik': "init_keys (pub x25519 ea) (snd (x25519 ea (p_public_key pI))) (public_key_dh pI) = (ck, k1, k2)"
    using ik unfolding pr comm [OF A(1) pr(10)] comm [OF pr(9,10)] .
  define h1 where "h1 = init_hash1 (d_public_key dR) (pub x25519 ea)"
  define enc_s where "enc_s = chacha20poly1305_encrypt (d_public_key dI) h1 0 k1"
  define enc_t where "enc_t = chacha20poly1305_encrypt ts (wireguard_mix_hash h1 enc_s) 0 k2"
  define hash where "hash = init_hash2 (d_public_key dR) (pub x25519 ea) enc_s enc_t"
  have I: "handshake pI1 = (handshake pI)\<lparr>h_chaining_key := ck, h_hash := hash,
      ephemeral_private := ea, h_valid := True, h_initiator := True, h_local_index := sender\<rparr>"
    "preshared_key pI1 = preshared_key pI"
    "m1 = add_macs nowI pI1 ([1, 0, 0, 0] @ le32_bytes sender @ pub x25519 ea @ enc_s @ enc_t)"
    using A(3) unfolding ik' unfolding pr(3) prod.case Let_def h1_def [symmetric] enc_s_def [symmetric] enc_t_def [symmetric]
      hash_def [symmetric] by auto
  have lens: "length enc_s = 48" "length enc_t = 28" using pr(8) assms(4) by (simp_all add: enc_s_def enc_t_def)
  note f = initiation_fields [OF plen [OF A(1)] lens I(3)]
  have nz: "\<not> is_zero_key (snd (x25519 ?b (pub x25519 ea)))" using A(2) unfolding pr(2,3) comm [OF A(1) pr(10)] .
  let ?pR1 = "?pR\<lparr>last_initiation_rx := nowR, greatest_timestamp := ts,
       handshake := (handshake ?pR)\<lparr>remote_ephemeral := pub x25519 ea, h_hash := hash,
         h_chaining_key := ck, h_remote_index := sender, h_valid := True, h_initiator := False\<rparr>\<rparr>"
  let ?dR1 = "dR\<lparr>peers := (peers dR)[i := ?pR1]\<rparr>"
  have proc: "wireguard_process_initiation_message x25519 nowR dR m1 = (Some i, ?dR1)"
    unfolding hash_def
    by (rule process_initiation_ok [where ?x25519.0 = x25519 and dR = dR and spub = "d_public_key dI" and ts = ts,
          OF f(2) f(3) f(4) f(1) nz ik _ assms(3) _ assms(5,6)])
      (simp_all only: enc_s_def enc_t_def h1_def)
  have pi: "peers ?dR1 ! i = ?pR1"
    using find_peer_Some [OF assms(3) [unfolded peer_lookup_by_pubkey_def]] by simp
  have "\<exists>pI2. wireguard_process_handshake_response x25519 dI pI1 m2 = (True, pI2) \<and>
      matched (curr_keypair (wireguard_start_session nowI' pI2 True)) (next_keypair (wireguard_start_session nowR pR2 False))"
    if cr: "wireguard_create_handshake_response x25519 nowR tpR ?dR1 ?pR1 = Some (Some m2, pR2, tp2)" for m2 pR2 tp2
  proof -
    obtain eb rs where B: "length eb = 32" "\<not> is_zero_key (snd (x25519 eb (pub x25519 ea)))"
      "\<not> is_zero_key (snd (x25519 eb (pub x25519 ?a)))"
      "case resp_keys ck (pub x25519 eb) (snd (x25519 eb (pub x25519 ea))) (snd (x25519 eb (pub x25519 ?a))) (preshared_key pI)
       of (ck2, tau, k) \<Rightarrow>
         let h3 = wireguard_mix_hash (wireguard_mix_hash hash (pub x25519 eb)) tau; enc_e = chacha20poly1305_encrypt [] h3 0 k;
             hs = (handshake ?pR1)\<lparr>h_chaining_key := ck2, h_hash := wireguard_mix_hash h3 enc_e, ephemeral_private := eb, h_local_index := rs\<rparr>
         in pR2 = ?pR1\<lparr>handshake := hs\<rparr> \<and>
            m2 = add_macs nowR pR2 ([2, 0, 0, 0] @ le32_bytes rs @ le32_bytes sender @ pub x25519 eb @ enc_e)"
      by (rule create_response_form [OF cr]) (simp add: pr)
    obtain ck2 tau k where rk: "resp_keys ck (pub x25519 eb) (snd (x25519 eb (pub x25519 ea))) (snd (x25519 eb (pub x25519 ?a)))
        (preshared_key pI) = (ck2, tau, k)" by (metis prod_cases3)
    define enc_e where "enc_e = chacha20poly1305_encrypt [] (wireguard_mix_hash (wireguard_mix_hash hash (pub x25519 eb)) tau) 0 k"
    have R: "handshake pR2 = (handshake ?pR1)\<lparr>h_chaining_key := ck2,
        h_hash := wireguard_mix_hash (wireguard_mix_hash (wireguard_mix_hash hash (pub x25519 eb)) tau) enc_e,
        ephemeral_private := eb, h_local_index := rs\<rparr>"
      "m2 = add_macs nowR pR2 ([2, 0, 0, 0] @ le32_bytes rs @ le32_bytes sender @ pub x25519 eb @ enc_e)"
      using B(4) unfolding rk prod.case Let_def enc_e_def [symmetric] by auto
    have le: "length enc_e = 16" by (simp add: enc_e_def)
    note g = response_fields [OF plen [OF B(1)] le R(2)]
    have "wireguard_process_handshake_response x25519 dI pI1 m2 =
        (True, pI1\<lparr>handshake := (handshake pI1)\<lparr>remote_ephemeral := pub x25519 eb,
          h_hash := wireguard_mix_hash (wireguard_mix_hash (h_hash (handshake pI1)) (pub x25519 eb)) tau,
          h_chaining_key := ck2, h_remote_index := rs\<rparr>\<rparr>)"
      by (rule process_response_ok [where ?x25519.0 = x25519 and dI = dI and k = k, OF g(3) g(4) g(1)])
        (use B(2,3) rk in \<open>simp_all add: I comm [OF B(1) A(1)] comm [OF B(1) pr(9)] enc_e_def\<close>)
    moreover have "matched (curr_keypair (wireguard_start_session nowI' (pI1\<lparr>handshake := (handshake pI1)\<lparr>remote_ephemeral := pub x25519 eb,
          h_hash := wireguard_mix_hash (wireguard_mix_hash (h_hash (handshake pI1)) (pub x25519 eb)) tau,
          h_chaining_key := ck2, h_remote_index := rs\<rparr>\<rparr>) True)) (next_keypair (wireguard_start_session nowR pR2 False))"
      by (rule start_session_matched) (simp_all add: R(1) I(1))
    ultimately show ?thesis by blast
  qed
  then show ?thesis using proc pi by metis
qed


lemma matched_data:
  assumes "matched kI kR"
  shows "wireguard_decrypt_packet (fst (wireguard_encrypt_packet d kI)) (sending_counter kI) kR = Some d"
    and "wireguard_decrypt_packet (fst (wireguard_encrypt_packet d kR)) (sending_counter kR) kI = Some d"
  using assms by (simp_all add: matched_def wireguard_encrypt_packet_def wireguard_decrypt_packet_def decrypt_encrypt)

section \<open>Properties\<close>

text \<open>Property C6. Two ends whose records of each other agree complete a handshake: the responder
  accepts every initiation the initiator builds (fresh timestamp, not rate limited), the initiator
  accepts every response built from it, the two sessions then started have crossed keys and
  indices, and a packet sealed by either end is opened by the other.\<close>

theorem handshake_agrees:
  assumes "dh_agrees x25519" "paired x25519 dI pI dR (peers dR ! i)"
    and "peer_lookup_by_pubkey dR (d_public_key dI) = Some i" "length ts = 12"
    and "memcmp ts (greatest_timestamp (peers dR ! i)) > 0" "\<not> last_initiation_rx (peers dR ! i) - nowR < 500"
    and "wireguard_create_handshake_initiation x25519 nowI ts tp dI pI = Some (Some m1, pI1, tp1)"
  shows "\<exists>dR1. wireguard_process_initiation_message x25519 nowR dR m1 = (Some i, dR1) \<and>
    (\<forall>m2 pR2 tp2. wireguard_create_handshake_response x25519 nowR tpR dR1 (peers dR1 ! i) = Some (Some m2, pR2, tp2) \<longrightarrow>
      (\<exists>pI2. wireguard_process_handshake_response x25519 dI pI1 m2 = (True, pI2) \<and>
        (let kI = curr_keypair (wireguard_start_session nowI' pI2 True);
             kR = next_keypair (wireguard_start_session nowR pR2 False)
         in matched kI kR \<and>
            (\<forall>d. wireguard_decrypt_packet (fst (wireguard_encrypt_packet d kI)) (sending_counter kI) kR = Some d \<and>
                 wireguard_decrypt_packet (fst (wireguard_encrypt_packet d kR)) (sending_counter kR) kI = Some d))))"
proof -
  obtain dR1 where "wireguard_process_initiation_message x25519 nowR dR m1 = (Some i, dR1)"
    and r: "\<forall>m2 pR2 tp2. wireguard_create_handshake_response x25519 nowR tpR dR1 (peers dR1 ! i) = Some (Some m2, pR2, tp2) \<longrightarrow>
      (\<exists>pI2. wireguard_process_handshake_response x25519 dI pI1 m2 = (True, pI2) \<and>
        matched (curr_keypair (wireguard_start_session nowI' pI2 True))
                (next_keypair (wireguard_start_session nowR pR2 False)))"
    using handshake_completes [OF assms] by metis
  then show ?thesis unfolding Let_def using matched_data by meson
qed

text \<open>Two concrete ends over a toy exchange that has the laws of X25519: the secret is the bitwise
  sum of key and point.\<close>

definition toy_x25519 :: x25519_fun where
  "toy_x25519 k p = (True, map2 (XOR) k p)"

definition toy_device :: "u8 \<Rightarrow> u8 \<Rightarrow> wireguard_device" where
  "toy_device a b =
     \<lparr>d_public_key = pub toy_x25519 (replicate 32 a), d_private_key = replicate 32 a, cookie_secret = [],
      cookie_secret_millis = 0, d_label_cookie_key = [], d_label_mac1_key = [],
      peers = [zero_peer\<lparr>p_valid := True, p_public_key := pub toy_x25519 (replicate 32 b),
        public_key_dh := snd (toy_x25519 (replicate 32 a) (pub toy_x25519 (replicate 32 b)))\<rparr>],
      d_valid = True\<rparr>"

lemma toy_agrees: "dh_agrees toy_x25519"
proof -
  have "map2 (XOR) k (map2 (XOR) l b) = map2 (XOR) l (map2 (XOR) k b)"
    if "length k = length l" "length l = length b" for k l b :: bytes
    using that by (induction k l b rule: list_induct3) (simp_all add: xor.left_commute)
  then show ?thesis by (simp add: dh_agrees_def toy_x25519_def)
qed

lemma toy_paired: "paired toy_x25519 (toy_device 1 2) (peers (toy_device 1 2) ! 0) (toy_device 2 1) (peers (toy_device 2 1) ! 0)"
  by (simp add: paired_def toy_device_def zero_peer_def)

lemma toy_lookup: "peer_lookup_by_pubkey (toy_device 2 1) (d_public_key (toy_device 1 2)) = Some 0"
  by (simp add: peer_lookup_by_pubkey_def toy_device_def)

lemma toy_initiation:
  "\<exists>m pI tp. wireguard_create_handshake_initiation toy_x25519 7 ts (replicate 36 5) (toy_device 1 2) (peers (toy_device 1 2) ! 0)
     = Some (Some m, pI, tp)"
proof -
  have tape: "replicate 36 5 = replicate 32 5 @ ([5, 5, 5, 5] :: bytes)" by code_simp
  have k: "wireguard_generate_private_key (replicate 36 5) = Some (0 # replicate 30 5 @ [69], [5, 5, 5, 5])"
    by code_simp
  have p: "wireguard_generate_public_key toy_x25519 (0 # replicate 30 5 @ [69]) = Some (9 # replicate 30 5 @ [69])"
    by code_simp
  have z: "\<not> is_zero_key (snd (toy_x25519 (0 # replicate 30 5 @ [69]) (p_public_key (peers (toy_device 1 2) ! 0))))"
    by code_simp
  have u: "wireguard_generate_unique_index (toy_device 1 2) [5, 5, 5, 5] = Some (0x05050505, [])"
    by code_simp
  show ?thesis unfolding wireguard_create_handshake_initiation_def k Let_def option.case prod.case p
    by (simp only: z u if_False option.case prod.case split: prod.splits) blast
qed

theorem handshake_agrees_witness:
  "\<exists>m1 pI1 dR1. wireguard_process_initiation_message toy_x25519 501 (toy_device 2 1) m1 = (Some 0, dR1) \<and>
    (\<forall>m2 pR2 tp2. wireguard_create_handshake_response toy_x25519 501 (replicate 36 6) dR1 (peers dR1 ! 0) = Some (Some m2, pR2, tp2) \<longrightarrow>
      (\<exists>pI2. wireguard_process_handshake_response toy_x25519 (toy_device 1 2) pI1 m2 = (True, pI2) \<and>
        matched (curr_keypair (wireguard_start_session 9 pI2 True)) (next_keypair (wireguard_start_session 501 pR2 False))))"
proof -
  have ts: "length (1 # replicate 11 (0 :: u8)) = 12" by simp
  have mc: "memcmp (1 # replicate 11 0) (greatest_timestamp (peers (toy_device 2 1) ! 0)) > 0" by code_simp
  have rl: "\<not> last_initiation_rx (peers (toy_device 2 1) ! 0) - 501 < 500" by code_simp
  obtain m1 pI1 tp1 where "wireguard_create_handshake_initiation toy_x25519 7 (1 # replicate 11 0) (replicate 36 5) (toy_device 1 2)
      (peers (toy_device 1 2) ! 0) = Some (Some m1, pI1, tp1)" using toy_initiation by blast
  from handshake_agrees [OF toy_agrees toy_paired toy_lookup ts mc rl this, of "replicate 36 6" 9]
  show ?thesis unfolding Let_def by meson
qed

text \<open>The limit of one initiation per half second does not limit: the code subtracts the
  clock from the time of the last initiation, so unless that very millisecond is still running or
  the clock is about to wrap, every initiation with a fresh timestamp is accepted, however soon.\<close>

theorem initiation_not_rate_limited:
  assumes "dh_agrees x25519" "paired x25519 dI pI dR (peers dR ! i)"
    and "peer_lookup_by_pubkey dR (d_public_key dI) = Some i" "length ts = 12"
    and "memcmp ts (greatest_timestamp (peers dR ! i)) > 0"
    and "wireguard_create_handshake_initiation x25519 nowI ts tp dI pI = Some (Some m1, pI1, tp1)"
    and "0 < elapsed" "elapsed \<le> 2 ^ 32 - 500"
  shows "fst (wireguard_process_initiation_message x25519 (last_initiation_rx (peers dR ! i) + of_nat elapsed) dR m1) = Some i"
proof -
  let ?t = "last_initiation_rx (peers dR ! i)"
  have "- (of_nat elapsed :: u32) = of_nat (2 ^ 32 - elapsed)" using assms(8) by (simp add: of_nat_diff)
  moreover have "unat (of_nat (2 ^ 32 - elapsed) :: u32) = 2 ^ 32 - elapsed" using assms(7) by (simp add: unat_of_nat)
  ultimately have "unat (- (of_nat elapsed :: u32)) = 2 ^ 32 - elapsed" by metis
  moreover have "500 \<le> 2 ^ 32 - elapsed" using assms(8) by simp
  ultimately have "500 \<le> unat (- (of_nat elapsed :: u32))" by metis
  then have "\<not> ?t - (?t + of_nat elapsed) < 500" by (simp add: word_less_nat_alt)
  from handshake_completes [OF assms(1-5) this assms(6)] show ?thesis by force
qed

theorem initiation_not_rate_limited_witness:
  "\<exists>m1. fst (wireguard_process_initiation_message toy_x25519 1 (toy_device 2 1) m1) = Some 0"
proof -
  have ts: "length (1 # replicate 11 (0 :: u8)) = 12" by simp
  have mc: "memcmp (1 # replicate 11 0) (greatest_timestamp (peers (toy_device 2 1) ! 0)) > 0" by code_simp
  have l: "last_initiation_rx (peers (toy_device 2 1) ! 0) = 0" by code_simp
  obtain m1 pI1 tp1 where "wireguard_create_handshake_initiation toy_x25519 7 (1 # replicate 11 0) (replicate 36 5) (toy_device 1 2)
      (peers (toy_device 1 2) ! 0) = Some (Some m1, pI1, tp1)" using toy_initiation by blast
  from initiation_not_rate_limited [OF toy_agrees toy_paired toy_lookup ts mc this, of 1]
  show ?thesis unfolding l by auto
qed

end
