(* ===== verification/Wireguardif.thy ===== *)
theory Wireguardif
  imports Checksum Base64 Wg_Handshake
begin

text \<open>
  The WireGuard network interface, \<^verbatim>\<open>wireguard/wireguardif.c\<close>: sealing what the IP layer sends
  into the tunnel, opening what arrives on the UDP socket, the timer that rekeys and keeps
  sessions alive, and the calls that set interface and peers up.

  What a handler asks of lwIP is its argument \<open>env\<close>: the clock (read once per handler, which
  runs to completion in much less than the millisecond it counts), the TAI64N time, the load, whether a packet buffer of a
  given size can be had and what \<^verbatim>\<open>udp_sendto\<close> answers. What a handler does to the outside is
  the list of its events, in order. A pointer to one of the three key pairs of a peer is its slot, a pointer to a
  peer its index. Randomness comes from the tape of \<open>Wg_Handshake\<close>; \<open>None\<close> is a tape that ran out. \<^verbatim>\<open>pbuf_take\<close> into a
  buffer of the very size cannot fail.
\<close>

section \<open>The world around\<close>

datatype err = ERR_OK | ERR_MEM | ERR_BUF | ERR_RTE | ERR_VAL | ERR_USE | ERR_CONN | ERR_IF | ERR_ARG

datatype wg_event = Udp_sendto ip_addr u16 bytes | Ip_input bytes | Link_up | Link_down

record wg_env =
  sys_now :: u32
  tai64n_now :: bytes
  is_under_load :: bool
  pbuf_alloc :: "nat \<Rightarrow> bool"
  udp_sendto :: "ip_addr \<Rightarrow> u16 \<Rightarrow> bytes \<Rightarrow> err"

text \<open>lwIP's address macros in a dual-stack build: the address of an \<^verbatim>\<open>ip_addr_t\<close> lies in a union, so
  the IPv4 view of an IPv6 address is its first word.\<close>

fun ip_2_ip4 :: "ip_addr \<Rightarrow> u32" where
  "ip_2_ip4 (IP4 a) = a"
| "ip_2_ip4 (IP6 ws) = ws ! 0"

definition ip4_addr_netcmp :: "u32 \<Rightarrow> u32 \<Rightarrow> u32 \<Rightarrow> bool" where
  "ip4_addr_netcmp a b m \<longleftrightarrow> a AND m = b AND m"

fun ip_addr_isany :: "ip_addr \<Rightarrow> bool" where
  "ip_addr_isany (IP4 a) \<longleftrightarrow> a = 0"
| "ip_addr_isany (IP6 ws) \<longleftrightarrow> list_all (\<lambda>w. w = 0) ws"

abbreviation (input) WIREGUARDIF_MTU :: u16 where "WIREGUARDIF_MTU \<equiv> 1420"
abbreviation (input) WIREGUARDIF_DEFAULT_PORT :: u16 where "WIREGUARDIF_DEFAULT_PORT \<equiv> 51820"
abbreviation (input) WIREGUARDIF_KEEPALIVE_DEFAULT :: u16 where "WIREGUARDIF_KEEPALIVE_DEFAULT \<equiv> 0xFFFF"
abbreviation (input) WIREGUARDIF_INVALID_INDEX :: u8 where "WIREGUARDIF_INVALID_INDEX \<equiv> 0xFF"

section \<open>Checksums\<close>

text \<open>The file's own copies of the two loops of \<^verbatim>\<open>eth_csum.c\<close>, to the letter.\<close>

definition wg_csum_add :: "u32 \<Rightarrow> bytes \<Rightarrow> nat \<Rightarrow> u32 option" where
  "wg_csum_add = csum_add"

definition wg_csum_finish :: "u32 \<Rightarrow> u16" where
  "wg_csum_finish = csum_finish"

interpretation wgc: internet_checksum wg_csum_add wg_csum_finish
  by unfold_locales (simp_all add: wg_csum_add_def wg_csum_finish_def csum_add_in csum_add_out csum_finish_dvd)

definition wireguardif_fix_checksums :: "bytes \<Rightarrow> nat \<Rightarrow> bytes option" where
  "wireguardif_fix_checksums ip len =
     (if len < 20 \<or> drop_bit 4 (ip ! 0) \<noteq> 4 then Some ip
      else let ihl = unat (ip ! 0 AND 0x0F) * 4; tot = unat (get16 ip 2) in
        if ihl < 20 \<or> tot < ihl \<or> tot > len then Some ip
        else fix_body wg_csum_add wg_csum_finish ip ihl tot)"

section \<open>Sending\<close>

definition update_peer_addr :: "wireguard_peer \<Rightarrow> ip_addr \<Rightarrow> u16 \<Rightarrow> wireguard_peer" where
  "update_peer_addr peer addr port = peer\<lparr>p_ip := addr, p_port := port\<rparr>"

definition peer_lookup_by_allowed_ip :: "wireguard_device \<Rightarrow> u32 \<Rightarrow> nat option" where
  "peer_lookup_by_allowed_ip device ipaddr =
     find_peer (\<lambda>tmp. p_valid tmp \<and>
       list_ex (\<lambda>a. a_valid a \<and> ip4_addr_netcmp ipaddr (ip_2_ip4 (a_ip a)) (ip_2_ip4 (a_mask a)))
         (allowed_source_ips tmp)) (peers device) 0"

definition wireguardif_can_send_initiation :: "wg_env \<Rightarrow> wireguard_peer \<Rightarrow> bool" where
  "wireguardif_can_send_initiation env peer \<longleftrightarrow>
     last_initiation_tx peer = 0 \<or> wireguard_expired (sys_now env) (last_initiation_tx peer) REKEY_TIMEOUT"

definition wireguardif_peer_output :: "wg_env \<Rightarrow> bytes \<Rightarrow> wireguard_peer \<Rightarrow> err \<times> wg_event list" where
  "wireguardif_peer_output env q peer =
     (udp_sendto env (p_ip peer) (p_port peer) q, [Udp_sendto (p_ip peer) (p_port peer) q])"

definition wireguardif_device_output :: "wg_env \<Rightarrow> bytes \<Rightarrow> ip_addr \<Rightarrow> u16 \<Rightarrow> err \<times> wg_event list" where
  "wireguardif_device_output env q ipaddr port = (udp_sendto env ipaddr port q, [Udp_sendto ipaddr port q])"

text \<open>The packet as it is sealed: padded with zeros to a multiple of 16, its checksums filled in. The
  loops over it stay inside the packet (\<open>fix_checksums_total\<close> below), so the read past the end that
  \<open>None\<close> would stand for does not occur.\<close>

definition padded_packet :: "bytes option \<Rightarrow> bytes" where
  "padded_packet q =
     (let unpadded = (case q of Some b \<Rightarrow> b | None \<Rightarrow> []);
          padded_len = unat ((of_nat (length unpadded) + 15) AND 0xFFFFFFF0 :: u32);
          dst = unpadded @ replicate (padded_len - length unpadded) 0
      in if padded_len > 0 \<and> q \<noteq> None
         then case wireguardif_fix_checksums dst (length unpadded) of Some dst \<Rightarrow> dst | None \<Rightarrow> dst
         else dst)"

definition sending_slot :: "wireguard_peer \<Rightarrow> slot" where
  "sending_slot peer =
     (let k = curr_keypair peer in if k_valid k \<and> \<not> k_initiator k \<and> k_last_rx k = 0 then Prev else Curr)"

definition wireguardif_output_to_peer ::
  "wg_env \<Rightarrow> bytes option \<Rightarrow> wireguard_peer \<Rightarrow> err \<times> wireguard_peer \<times> wg_event list" where
  "wireguardif_output_to_peer env q peer =
     (let s = sending_slot peer; keypair = get_slot peer s in
      if k_valid keypair \<and> (k_initiator keypair \<or> k_last_rx keypair \<noteq> 0) then
        if \<not> wireguard_expired (sys_now env) (keypair_millis keypair) REJECT_AFTER_TIME \<and>
           sending_counter keypair < REJECT_AFTER_MESSAGES then
          let dst = padded_packet q
          in  if pbuf_alloc env (16 + length dst + 16) then
                let hdr = [4, 0, 0, 0] @ le32_bytes (k_remote_index keypair) @ U64TO8_LITTLE (sending_counter keypair);
                    (enc, keypair) = wireguard_encrypt_packet dst keypair;
                    (result, events) = wireguardif_peer_output env (hdr @ enc) peer;
                    now = sys_now env;
                    peer = (if result = ERR_OK then peer\<lparr>p_last_tx := now\<rparr> else peer);
                    keypair = (if result = ERR_OK then keypair\<lparr>k_last_tx := now\<rparr> else keypair);
                    peer = set_slot peer s keypair;
                    peer = (if sending_counter keypair \<ge> REKEY_AFTER_MESSAGES then peer\<lparr>send_handshake := True\<rparr>
                            else if k_initiator keypair \<and> wireguard_expired now (keypair_millis keypair) REKEY_AFTER_TIME
                            then peer\<lparr>send_handshake := True\<rparr> else peer)
                in (result, peer, events)
              else (ERR_MEM, peer, [])
        else (ERR_CONN, keypair_destroy s peer, [])
      else (ERR_CONN, peer, []))"

definition wireguardif_output :: "wg_env \<Rightarrow> wireguard_device \<Rightarrow> bytes \<Rightarrow> u32 \<Rightarrow> err \<times> wireguard_device \<times> wg_event list" where
  "wireguardif_output env device q ipaddr =
     (case peer_lookup_by_allowed_ip device ipaddr of
        None \<Rightarrow> (ERR_RTE, device, [])
      | Some i \<Rightarrow>
          let (result, peer, events) = wireguardif_output_to_peer env (Some q) (peers device ! i)
          in (result, device\<lparr>peers := (peers device)[i := peer]\<rparr>, events))"

definition wireguardif_send_keepalive :: "wg_env \<Rightarrow> wireguard_peer \<Rightarrow> wireguard_peer \<times> wg_event list" where
  "wireguardif_send_keepalive env peer = snd (wireguardif_output_to_peer env None peer)"

section \<open>Receiving\<close>

definition wireguardif_process_response_message ::
  "x25519_fun \<Rightarrow> wg_env \<Rightarrow> wireguard_device \<Rightarrow> wireguard_peer \<Rightarrow> bytes \<Rightarrow> ip_addr \<Rightarrow> u16 \<Rightarrow> wireguard_peer \<times> wg_event list" where
  "wireguardif_process_response_message x25519 env device peer response addr port =
     (case wireguard_process_handshake_response x25519 device peer response of
        (True, peer) \<Rightarrow>
          let peer = update_peer_addr peer addr port;
              peer = wireguard_start_session (sys_now env) peer True;
              (peer, events) = wireguardif_send_keepalive env peer
          in (peer, events @ [Link_up])
      | (False, peer) \<Rightarrow> (peer, []))"

fun first_allowed :: "(wireguard_allowed_ip \<Rightarrow> bool) \<Rightarrow> wireguard_allowed_ip \<Rightarrow> wireguard_allowed_ip list \<Rightarrow>
    wireguard_allowed_ip list option" where
  "first_allowed P new [] = None"
| "first_allowed P new (a # as) = (if P a then Some (new # as) else map_option ((#) a) (first_allowed P new as))"

definition peer_add_ip :: "wireguard_peer \<Rightarrow> ip_addr \<Rightarrow> ip_addr \<Rightarrow> bool \<times> wireguard_peer" where
  "peer_add_ip peer ip msk =
     (if list_ex (\<lambda>a. a_valid a \<and> a_ip a = ip \<and> a_mask a = msk) (allowed_source_ips peer) then (True, peer)
      else case first_allowed (\<lambda>a. \<not> a_valid a) \<lparr>a_valid = True, a_ip = ip, a_mask = msk\<rparr> (allowed_source_ips peer) of
             Some as \<Rightarrow> (True, peer\<lparr>allowed_source_ips := as\<rparr>)
           | None \<Rightarrow> (False, peer))"

text \<open>The verdict on the packet behind a valid seal: whether its source is allowed, and its claimed length. The code reads
  fields of an IP header without checking that the packet is long enough for one; \<open>mem\<close> is
  the packet and whatever memory follows it.\<close>

definition source_check :: "wireguard_peer \<Rightarrow> bytes \<Rightarrow> bool \<times> u16" where
  "source_check peer mem =
     (let v = drop_bit 4 (mem ! 0); src_ip = le32_of (seg mem 12 4) in
      if v = 4 then
        if list_ex (\<lambda>a. a_valid a \<and> ip4_addr_netcmp src_ip (ip_2_ip4 (a_ip a)) (ip_2_ip4 (a_mask a)))
             (allowed_source_ips peer)
        then (True, get16 mem 2) else (False, 0xFFFF)
      else if v = 6 then (True, get16 mem 2)
      else (False, 0xFFFF))"

definition wireguardif_process_data_message ::
  "wg_env \<Rightarrow> bytes \<Rightarrow> wireguard_peer \<Rightarrow> bytes \<Rightarrow> ip_addr \<Rightarrow> u16 \<Rightarrow> wireguard_peer \<times> wg_event list" where
  "wireguardif_process_data_message env slack peer msg addr port =
     (case get_peer_keypair_for_idx peer (le32_of (seg msg 4 4)) of None \<Rightarrow> (peer, [])
      | Some s \<Rightarrow>
          let keypair = get_slot peer s in
          if receiving_valid keypair \<and> \<not> wireguard_expired (sys_now env) (keypair_millis keypair) REJECT_AFTER_TIME \<and>
             sending_counter keypair < REJECT_AFTER_MESSAGES then
            let nonce = U8TO64_LITTLE (seg msg 8 8); src = drop 16 msg in
            if pbuf_alloc env (length src - 16) then
              case wireguard_decrypt_packet src nonce keypair of None \<Rightarrow> (peer, [])
              | Some payload \<Rightarrow>
                  let now = sys_now env;
                      peer = update_peer_addr peer addr port;
                      peer = (set_slot peer s (keypair\<lparr>k_last_rx := now\<rparr>))\<lparr>p_last_rx := now\<rparr>;
                      peer = keypair_update peer s;
                      keypair = get_slot peer s;
                      peer = (if k_initiator keypair \<and> wireguard_expired now (keypair_millis keypair)
                                  (REJECT_AFTER_TIME - ucast (keepalive_interval peer) - REKEY_TIMEOUT)
                              then peer\<lparr>send_handshake := True\<rparr> else peer)
                  in if payload \<noteq> [] then
                       let (fresh, keypair) = wireguard_check_replay keypair nonce;
                           peer = set_slot peer s keypair
                       in if fresh then
                            let (src_ok, header_len) = source_check peer (payload @ slack)
                            in (peer, [Link_up] @
                                 (if unat header_len \<le> length payload \<and> src_ok then [Ip_input payload] else []))
                          else (peer, [Link_up])
                     else (peer, [Link_up])
            else (peer, [])
          else (keypair_destroy s peer, []))"


section \<open>Handshakes on the wire\<close>

definition wireguardif_initiate_handshake ::
  "x25519_fun \<Rightarrow> wg_env \<Rightarrow> tape \<Rightarrow> wireguard_device \<Rightarrow> wireguard_peer \<Rightarrow>
   (bytes option \<times> err \<times> wireguard_peer \<times> tape) option" where
  "wireguardif_initiate_handshake x25519 env tp device peer =
     map_option (\<lambda>(msg, peer, tp).
        case msg of
          Some m \<Rightarrow> if pbuf_alloc env 148 then (Some m, ERR_OK, peer, tp) else (None, ERR_MEM, peer, tp)
        | None \<Rightarrow> (None, ERR_ARG, peer, tp))
       (wireguard_create_handshake_initiation x25519 (sys_now env) (tai64n_now env) tp device peer)"

definition wireguardif_send_handshake_response ::
  "x25519_fun \<Rightarrow> wg_env \<Rightarrow> tape \<Rightarrow> wireguard_device \<Rightarrow> wireguard_peer \<Rightarrow>
   (wireguard_peer \<times> wg_event list \<times> tape) option" where
  "wireguardif_send_handshake_response x25519 env tp device peer =
     map_option (\<lambda>(packet, peer, tp).
        case packet of
          Some m \<Rightarrow>
            let peer = wireguard_start_session (sys_now env) peer False
            in (peer, if pbuf_alloc env 92 then snd (wireguardif_peer_output env m peer) else [], tp)
        | None \<Rightarrow> (peer, [], tp))
       (wireguard_create_handshake_response x25519 (sys_now env) tp device peer)"

definition U16TO8_BIG :: "u16 \<Rightarrow> bytes" where
  "U16TO8_BIG v = [hi8 v, lo8 v]"

text \<open>\<^verbatim>\<open>IP6_ADDR_BLOCK1\<close> to \<^verbatim>\<open>IP6_ADDR_BLOCK8\<close>: the halves of the words in network order.\<close>

definition ip6_blocks :: "u32 list \<Rightarrow> u16 list" where
  "ip6_blocks ws = concat (map (\<lambda>w. [ucast (drop_bit 16 (bswap32 w)), ucast (bswap32 w)]) ws)"

definition get_source_addr_port :: "ip_addr \<Rightarrow> u16 \<Rightarrow> nat \<Rightarrow> bytes" where
  "get_source_addr_port addr port buflen =
     (let buf = (case addr of
                   IP4 a \<Rightarrow> if buflen \<ge> 4 then U32TO8_BIG (bswap32 a) else []
                 | IP6 ws \<Rightarrow> if buflen \<ge> 16 then concat (map U16TO8_BIG (ip6_blocks ws)) else [])
      in if buflen \<ge> length buf + 2 then buf @ U16TO8_BIG port else buf)"

definition wireguardif_send_handshake_cookie ::
  "wg_env \<Rightarrow> tape \<Rightarrow> wireguard_device \<Rightarrow> bytes \<Rightarrow> u32 \<Rightarrow> ip_addr \<Rightarrow> u16 \<Rightarrow>
   (wireguard_device \<times> wg_event list \<times> tape) option" where
  "wireguardif_send_handshake_cookie env tp device mac1 index addr port =
     map_option (\<lambda>(packet, device, tp).
        (device, if pbuf_alloc env 64 then snd (wireguardif_device_output env packet addr port) else [], tp))
       (wireguard_create_cookie_reply (sys_now env) tp device mac1 index (get_source_addr_port addr port 18))"

text \<open>The two checks of a handshake message differ in the size \<open>n\<close> of the message only; the two MACs
  are its last 32 bytes.\<close>

definition check_macs ::
  "nat \<Rightarrow> wg_env \<Rightarrow> tape \<Rightarrow> wireguard_device \<Rightarrow> bytes \<Rightarrow> ip_addr \<Rightarrow> u16 \<Rightarrow>
   (bool \<times> wireguard_device \<times> wg_event list \<times> tape) option" where
  "check_macs n env tp device msg addr port =
     (let mac1 = seg msg (n - 32) 16; mac2 = seg msg (n - 16) 16 in
      if wireguard_check_mac1 device (take (n - 32) msg) mac1 then
        if \<not> is_under_load env then Some (True, device, [], tp)
        else case wireguard_check_mac2 (sys_now env) tp device (take (n - 16) msg) (get_source_addr_port addr port 18) mac2 of
               None \<Rightarrow> None
             | Some (True, device, tp) \<Rightarrow> Some (True, device, [], tp)
             | Some (False, device, tp) \<Rightarrow>
                 map_option (\<lambda>(device, events, tp). (False, device, events, tp))
                   (wireguardif_send_handshake_cookie env tp device mac1 (le32_of (seg msg 4 4)) addr port)
      else Some (False, device, [], tp))"

definition wireguardif_check_initiation_message ::
  "wg_env \<Rightarrow> tape \<Rightarrow> wireguard_device \<Rightarrow> bytes \<Rightarrow> ip_addr \<Rightarrow> u16 \<Rightarrow>
   (bool \<times> wireguard_device \<times> wg_event list \<times> tape) option" where
  "wireguardif_check_initiation_message = check_macs 148"

definition wireguardif_check_response_message ::
  "wg_env \<Rightarrow> tape \<Rightarrow> wireguard_device \<Rightarrow> bytes \<Rightarrow> ip_addr \<Rightarrow> u16 \<Rightarrow>
   (bool \<times> wireguard_device \<times> wg_event list \<times> tape) option" where
  "wireguardif_check_response_message = check_macs 92"

abbreviation set_peer :: "wireguard_device \<Rightarrow> nat \<Rightarrow> wireguard_peer \<Rightarrow> wireguard_device" where
  "set_peer device i peer \<equiv> device\<lparr>peers := (peers device)[i := peer]\<rparr>"

definition wireguardif_network_rx ::
  "x25519_fun \<Rightarrow> wg_env \<Rightarrow> bytes \<Rightarrow> tape \<Rightarrow> wireguard_device \<Rightarrow> bytes \<Rightarrow> ip_addr \<Rightarrow> u16 \<Rightarrow>
   (wireguard_device \<times> wg_event list \<times> tape) option" where
  "wireguardif_network_rx x25519 env slack tp device data addr port =
     (let type = wireguard_get_message_type data in
      if type = MESSAGE_HANDSHAKE_INITIATION then
        case wireguardif_check_initiation_message env tp device data addr port of None \<Rightarrow> None
        | Some (False, device, events, tp) \<Rightarrow> Some (device, events, tp)
        | Some (True, device, events, tp) \<Rightarrow>
            (case wireguard_process_initiation_message x25519 (sys_now env) device data of
               (None, device) \<Rightarrow> Some (device, events, tp)
             | (Some i, device) \<Rightarrow>
                 let peer = update_peer_addr (peers device ! i) addr port; device = set_peer device i peer
                 in map_option (\<lambda>(peer, ev, tp). (set_peer device i peer, events @ ev, tp))
                      (wireguardif_send_handshake_response x25519 env tp device peer))
      else if type = MESSAGE_HANDSHAKE_RESPONSE then
        case wireguardif_check_response_message env tp device data addr port of None \<Rightarrow> None
        | Some (False, device, events, tp) \<Rightarrow> Some (device, events, tp)
        | Some (True, device, events, tp) \<Rightarrow>
            (case peer_lookup_by_handshake device (le32_of (seg data 8 4)) of
               None \<Rightarrow> Some (device, events, tp)
             | Some i \<Rightarrow>
                 let (peer, ev) = wireguardif_process_response_message x25519 env device (peers device ! i) data addr port
                 in Some (set_peer device i peer, events @ ev, tp))
      else if type = MESSAGE_COOKIE_REPLY then
        (case peer_lookup_by_handshake device (le32_of (seg data 4 4)) of
           None \<Rightarrow> Some (device, [], tp)
         | Some i \<Rightarrow>
             (case wireguard_process_cookie_message (sys_now env) (peers device ! i) data of
                (True, peer) \<Rightarrow> Some (set_peer device i (update_peer_addr peer addr port), [], tp)
              | (False, peer) \<Rightarrow> Some (set_peer device i peer, [], tp)))
      else if type = MESSAGE_TRANSPORT_DATA then
        (case peer_lookup_by_receiver device (le32_of (seg data 4 4)) of
           None \<Rightarrow> Some (device, [], tp)
         | Some i \<Rightarrow>
             let (peer, events) = wireguardif_process_data_message env slack (peers device ! i) data addr port
             in Some (set_peer device i peer, events, tp))
      else Some (device, [], tp))"

definition wireguard_start_handshake ::
  "x25519_fun \<Rightarrow> wg_env \<Rightarrow> tape \<Rightarrow> wireguard_device \<Rightarrow> wireguard_peer \<Rightarrow>
   (err \<times> wireguard_peer \<times> wg_event list \<times> tape) option" where
  "wireguard_start_handshake x25519 env tp device peer =
     map_option (\<lambda>(pbuf, result, peer, tp).
        case pbuf of
          Some m \<Rightarrow>
            let (result, events) = wireguardif_peer_output env m peer
            in (result, peer\<lparr>send_handshake := False, last_initiation_tx := sys_now env,
                  handshake_mac1 := seg m 116 16, handshake_mac1_valid := True\<rparr>, events, tp)
        | None \<Rightarrow> (result, peer, [], tp))
       (wireguardif_initiate_handshake x25519 env tp device peer)"

section \<open>Peers\<close>

definition wireguardif_lookup_peer :: "wireguard_device \<Rightarrow> u8 \<Rightarrow> err \<times> nat option" where
  "wireguardif_lookup_peer device peer_index =
     (if d_valid device then
        case peer_lookup_by_peer_index device peer_index of
          Some i \<Rightarrow> (ERR_OK, Some i)
        | None \<Rightarrow> (ERR_ARG, None)
      else (ERR_ARG, None))"

text \<open>The calls that act on the peer of an index, and leave the device as it is when there is none.\<close>

definition with_peer ::
  "wireguard_device \<Rightarrow> u8 \<Rightarrow> (wireguard_peer \<Rightarrow> err \<times> wireguard_peer) \<Rightarrow> err \<times> wireguard_device" where
  "with_peer device peer_index f =
     (case wireguardif_lookup_peer device peer_index of
        (ERR_OK, Some i) \<Rightarrow> let (result, peer) = f (peers device ! i) in (result, set_peer device i peer)
      | (result, _) \<Rightarrow> (result, device))"

definition wireguardif_connect :: "wireguard_device \<Rightarrow> u8 \<Rightarrow> err \<times> wireguard_device" where
  "wireguardif_connect device peer_index =
     with_peer device peer_index (\<lambda>peer.
       if \<not> ip_addr_isany (connect_ip peer) \<and> connect_port peer > 0
       then (ERR_OK, peer\<lparr>p_active := True, p_ip := connect_ip peer, p_port := connect_port peer\<rparr>)
       else (ERR_ARG, peer))"

definition destroy_keypairs :: "wireguard_peer \<Rightarrow> wireguard_peer" where
  "destroy_keypairs peer = keypair_destroy Prev (keypair_destroy Curr (keypair_destroy Next peer))"

definition wireguardif_disconnect :: "wireguard_device \<Rightarrow> u8 \<Rightarrow> err \<times> wireguard_device" where
  "wireguardif_disconnect device peer_index =
     with_peer device peer_index (\<lambda>peer. (ERR_OK, destroy_keypairs (peer\<lparr>p_active := False\<rparr>)))"

definition wireguardif_peer_is_up :: "wireguard_device \<Rightarrow> u8 \<Rightarrow> err \<times> (ip_addr \<times> u16) option" where
  "wireguardif_peer_is_up device peer_index =
     (case wireguardif_lookup_peer device peer_index of
        (ERR_OK, Some i) \<Rightarrow>
          let peer = peers device ! i
          in (if k_valid (curr_keypair peer) \<or> k_valid (prev_keypair peer) then ERR_OK else ERR_CONN,
              Some (p_ip peer, p_port peer))
      | (result, _) \<Rightarrow> (result, None))"

definition wireguardif_remove_peer :: "wireguard_device \<Rightarrow> u8 \<Rightarrow> err \<times> wireguard_device" where
  "wireguardif_remove_peer device peer_index =
     with_peer device peer_index (\<lambda>peer. (ERR_OK, zero_peer\<lparr>p_valid := False\<rparr>))"

definition wireguardif_update_endpoint :: "wireguard_device \<Rightarrow> u8 \<Rightarrow> ip_addr \<Rightarrow> u16 \<Rightarrow> err \<times> wireguard_device" where
  "wireguardif_update_endpoint device peer_index ip port =
     with_peer device peer_index (\<lambda>peer. (ERR_OK, peer\<lparr>connect_ip := ip, connect_port := port\<rparr>))"

record wireguardif_peer =
  wp_public_key :: "bytes option"
  wp_preshared_key :: "bytes option"
  wp_greatest_timestamp :: bytes
  wp_allowed_ip :: ip_addr
  wp_allowed_mask :: ip_addr
  wp_endpoint_ip :: ip_addr
  wp_endport_port :: u16
  wp_keep_alive :: u16

definition wireguardif_peer_init :: wireguardif_peer where
  "wireguardif_peer_init = \<lparr>wp_public_key = None, wp_preshared_key = None, wp_greatest_timestamp = replicate 12 0,
     wp_allowed_ip = IP4 0, wp_allowed_mask = IP4 0, wp_endpoint_ip = IP4 0,
     wp_endport_port = WIREGUARDIF_DEFAULT_PORT, wp_keep_alive = WIREGUARDIF_KEEPALIVE_DEFAULT\<rparr>"

definition wireguardif_add_peer :: "x25519_fun \<Rightarrow> wireguard_device \<Rightarrow> wireguardif_peer \<Rightarrow> err \<times> u8 \<times> wireguard_device" where
  "wireguardif_add_peer x25519 device p =
     (let (ok, public_key, public_key_len) = wireguard_base64_decode (wp_public_key p) 32;
          (result, peer, device) =
            (if ok \<and> public_key_len = 32 then
               case peer_lookup_by_pubkey device public_key of
                 Some i \<Rightarrow> (ERR_OK, Some i, device)
               | None \<Rightarrow>
                   (case peer_alloc device of
                      None \<Rightarrow> (ERR_MEM, None, device)
                    | Some i \<Rightarrow>
                        (case wireguard_peer_init x25519 device public_key (wp_preshared_key p) of
                           (False, peer) \<Rightarrow> (ERR_ARG, Some i, set_peer device i peer)
                         | (True, peer) \<Rightarrow>
                             let peer = peer\<lparr>connect_ip := wp_endpoint_ip p, connect_port := wp_endport_port p,
                                   p_ip := wp_endpoint_ip p, p_port := wp_endport_port p,
                                   keepalive_interval := (if wp_keep_alive p = WIREGUARDIF_KEEPALIVE_DEFAULT
                                                          then KEEPALIVE_TIMEOUT else wp_keep_alive p)\<rparr>;
                                 peer = snd (peer_add_ip peer (wp_allowed_ip p) (wp_allowed_mask p));
                                 peer = peer\<lparr>greatest_timestamp := wp_greatest_timestamp p\<rparr>
                             in (ERR_OK, Some i, set_peer device i peer)))
             else (ERR_ARG, None, device))
      in (result, case peer of Some i \<Rightarrow> wireguard_peer_index device (Some i) | None \<Rightarrow> WIREGUARDIF_INVALID_INDEX, device))"


section \<open>The timer\<close>

definition should_send_initiation :: "wg_env \<Rightarrow> wireguard_peer \<Rightarrow> bool" where
  "should_send_initiation env peer \<longleftrightarrow>
     wireguardif_can_send_initiation env peer \<and>
     (send_handshake peer \<or>
      k_valid (curr_keypair peer) \<and> \<not> k_initiator (curr_keypair peer) \<and>
        wireguard_expired (sys_now env) (keypair_millis (curr_keypair peer)) (REJECT_AFTER_TIME - ucast (keepalive_interval peer)) \<or>
      \<not> k_valid (curr_keypair peer) \<and> p_active peer)"

definition should_send_keepalive :: "wg_env \<Rightarrow> wireguard_peer \<Rightarrow> bool" where
  "should_send_keepalive env peer \<longleftrightarrow>
     keepalive_interval peer > 0 \<and> (k_valid (curr_keypair peer) \<or> k_valid (prev_keypair peer)) \<and>
     wireguard_expired (sys_now env) (p_last_tx peer) (ucast (keepalive_interval peer))"

definition should_destroy_current_keypair :: "wg_env \<Rightarrow> wireguard_peer \<Rightarrow> bool" where
  "should_destroy_current_keypair env peer \<longleftrightarrow>
     k_valid (curr_keypair peer) \<and>
     (wireguard_expired (sys_now env) (keypair_millis (curr_keypair peer)) REJECT_AFTER_TIME \<or>
      sending_counter (curr_keypair peer) \<ge> REJECT_AFTER_MESSAGES)"

definition should_reset_peer :: "wg_env \<Rightarrow> wireguard_peer \<Rightarrow> bool" where
  "should_reset_peer env peer \<longleftrightarrow>
     k_valid (curr_keypair peer) \<and>
     wireguard_expired (sys_now env) (keypair_millis (curr_keypair peer)) (REJECT_AFTER_TIME * 3)"

text \<open>What the timer does to one valid peer, and whether the peer keeps the link up.\<close>

definition tmr_peer ::
  "x25519_fun \<Rightarrow> wg_env \<Rightarrow> tape \<Rightarrow> wireguard_device \<Rightarrow> wireguard_peer \<Rightarrow>
   (bool \<times> wireguard_peer \<times> wg_event list \<times> tape) option" where
  "tmr_peer x25519 env tp device peer =
     (let peer = (if should_reset_peer env peer
                  then (destroy_keypairs peer)\<lparr>p_ip := connect_ip peer, p_port := connect_port peer\<rparr> else peer);
          peer = (if should_destroy_current_keypair env peer then keypair_destroy Curr peer else peer);
          (peer, events) = (if should_send_keepalive env peer then wireguardif_send_keepalive env peer else (peer, []))
      in map_option (\<lambda>(peer, ev, tp).
             (k_valid (curr_keypair peer) \<or> k_valid (prev_keypair peer), peer, events @ ev, tp))
           (if should_send_initiation env peer
            then map_option snd (wireguard_start_handshake x25519 env tp device peer)
            else Some (peer, [], tp)))"

fun tmr_loop ::
  "x25519_fun \<Rightarrow> wg_env \<Rightarrow> nat list \<Rightarrow> tape \<Rightarrow> wireguard_device \<Rightarrow> bool \<Rightarrow>
   (bool \<times> wireguard_device \<times> wg_event list \<times> tape) option" where
  "tmr_loop x25519 env [] tp device link_up = Some (link_up, device, [], tp)"
| "tmr_loop x25519 env (x # xs) tp device link_up =
     (if p_valid (peers device ! x) then
        case tmr_peer x25519 env tp device (peers device ! x) of None \<Rightarrow> None
        | Some (up, peer, events, tp) \<Rightarrow>
            map_option (\<lambda>(up, device, ev, tp). (up, device, events @ ev, tp))
              (tmr_loop x25519 env xs tp (set_peer device x peer) (link_up \<or> up))
      else tmr_loop x25519 env xs tp device link_up)"

definition wireguardif_tmr ::
  "x25519_fun \<Rightarrow> wg_env \<Rightarrow> tape \<Rightarrow> wireguard_device \<Rightarrow> (wireguard_device \<times> wg_event list \<times> tape) option" where
  "wireguardif_tmr x25519 env tp device =
     map_option (\<lambda>(link_up, device, events, tp). (device, events @ (if link_up then [] else [Link_down]), tp))
       (tmr_loop x25519 env [0 ..< length (peers device)] tp device False)"

section \<open>The interface\<close>

text \<open>The parts of lwIP's \<^verbatim>\<open>struct netif\<close> that the interface sets, with its socket and its timer.\<close>

record wg_netif =
  n_state :: "wireguard_device option"
  n_name :: string
  n_mtu :: u16
  n_flags :: u8
  n_output :: bool
  n_udp :: "(u16 \<times> bool) option"
  n_timer :: "u32 option"

text \<open>What lwIP answers while the interface is set up: whether there is a socket, the result of binding it, and
  whether there is memory for the device.\<close>

record wg_setup =
  udp_new :: bool
  udp_bind :: "u16 \<Rightarrow> err"
  mem_calloc :: bool

definition zero_device :: wireguard_device where
  "zero_device = \<lparr>d_public_key = replicate 32 0, d_private_key = replicate 32 0, cookie_secret = replicate 32 0,
     cookie_secret_millis = 0, d_label_cookie_key = replicate 32 0, d_label_mac1_key = replicate 32 0,
     peers = replicate WIREGUARD_MAX_PEERS zero_peer, d_valid = False\<rparr>"

definition wireguardif_init ::
  "x25519_fun \<Rightarrow> u32 \<Rightarrow> wg_setup \<Rightarrow> tape \<Rightarrow> wg_netif \<Rightarrow> (bytes option \<times> u16 \<times> bool) option \<Rightarrow>
   (err \<times> wg_netif \<times> tape) option" where
  "wireguardif_init x25519 now lwip tp netif init_data =
     (case init_data of None \<Rightarrow> Some (ERR_ARG, netif, tp)
      | Some (private_key, listen_port, bind_netif) \<Rightarrow>
          let netif = netif\<lparr>n_state := None\<rparr>;
              (ok, key, key_len) = wireguard_base64_decode private_key 32
          in if ok \<and> key_len = 32 then
               if udp_new lwip then
                 let result = udp_bind lwip listen_port in
                 if result = ERR_OK then
                   if mem_calloc lwip then
                     map_option (\<lambda>(ok, device, tp).
                         if ok then
                           (ERR_OK, netif\<lparr>n_state := Some device, n_name := ''wg'', n_output := True,
                              n_mtu := WIREGUARDIF_MTU, n_flags := 0, n_udp := Some (listen_port, bind_netif),
                              n_timer := Some 400\<rparr>, tp)
                         else (ERR_ARG, netif, tp))
                       (wireguard_device_init x25519 now tp zero_device key)
                   else Some (ERR_MEM, netif, tp)
                 else Some (result, netif, tp)
               else Some (ERR_MEM, netif, tp)
             else Some (ERR_ARG, netif, tp))"

definition wireguardif_shutdown :: "wg_netif \<Rightarrow> wg_netif" where
  "wireguardif_shutdown netif =
     (case n_state netif of None \<Rightarrow> netif
      | Some _ \<Rightarrow> netif\<lparr>n_timer := None, n_udp := None, n_state := None\<rparr>)"

end
