(* ===== verification/Wg_Tunnel.thy ===== *)
theory Wg_Tunnel
  imports Wireguardif
begin

text \<open>
  What the WireGuard interface promises: a packet sent into the tunnel at one end comes out at the
  other, what comes out was sealed for a live session and has an allowed source, and the
  shape of the device's state is kept by every operation. Two properties state defects: the first packet of a responder's
  session can be replayed once, and the previous key pair keeps the link up for ever.
\<close>

section \<open>Packets through the padding\<close>

lemma fix_checksums_total:
  assumes "len \<le> length ip"
  shows "\<exists>ip'. wireguardif_fix_checksums ip len = Some ip' \<and> length ip' = length ip"
proof (cases "len < 20 \<or> drop_bit 4 (ip ! 0) \<noteq> 4 \<or> unat (ip ! 0 AND 0x0F) * 4 < 20 \<or>
    unat (get16 ip 2) < unat (ip ! 0 AND 0x0F) * 4 \<or> unat (get16 ip 2) > len")
  case True
  then show ?thesis by (auto simp: wireguardif_fix_checksums_def Let_def)
next
  case False
  let ?ihl = "unat (ip ! 0 AND 0x0F) * 4" and ?tot = "unat (get16 ip 2)"
  obtain ip' where "fix_body wg_csum_add wg_csum_finish ip ?ihl ?tot = Some ip'" "csum_restored ip ip' ?ihl ?tot"
    using wgc.fix_body_restores [of ?ihl ?tot ip] False assms by fastforce
  then show ?thesis using False by (auto simp: wireguardif_fix_checksums_def Let_def csum_restored_def)
qed

lemma fix_checksums_restores:
  assumes "20 \<le> len" "len \<le> length ip" "drop_bit 4 (ip ! 0) = 4" "ihl = unat (ip ! 0 AND 0x0F) * 4" "20 \<le> ihl"
    and "tot = unat (get16 ip 2)" "ihl \<le> tot" "tot \<le> len"
  shows "\<exists>ip'. wireguardif_fix_checksums ip len = Some ip' \<and> csum_restored ip ip' ihl tot"
proof -
  have "even ihl" "tot < 65536" using assms(4,6) by simp_all
  then obtain ip' where "fix_body wg_csum_add wg_csum_finish ip ihl tot = Some ip'" "csum_restored ip ip' ihl tot"
    using wgc.fix_body_restores [of ihl tot ip] assms by fastforce
  then show ?thesis using assms by (auto simp: wireguardif_fix_checksums_def Let_def)
qed

lemma round_up_16:
  assumes "n < 65536"
  shows "unat ((of_nat n + 15) AND 0xFFFFFFF0 :: u32) = 16 * ((n + 15) div 16)"
proof -
  have "x AND NOT (mask 4) = push_bit 4 (drop_bit 4 x)" for x :: u32
    by (rule bit_word_eqI) (auto simp: bit_simps)
  moreover have "NOT (mask 4) = (0xFFFFFFF0 :: u32)" by (simp add: mask_eq_exp_minus_1)
  moreover have "unat (push_bit 4 (drop_bit 4 x)) = 16 * (unat x div 16)" for x :: u32
    using unat_or_shl [of 0 4 "drop_bit 4 x"] unat_shr32 [of 4 x] by (simp add: less_mult_imp_div_less)
  ultimately have "unat ((of_nat n + 15) AND 0xFFFFFFF0 :: u32) = 16 * (unat (of_nat n + 15 :: u32) div 16)" by (simp only:)
  moreover have "unat (of_nat n + 15 :: u32) = n + 15"
    using assms by (subst unat_add32) (simp_all add: unat_of_nat_u32)
  ultimately show ?thesis by simp
qed

definition round16 :: "nat \<Rightarrow> nat" where
  "round16 n = 16 * ((n + 15) div 16)"

lemma round16_ge: "n \<le> round16 n"
  unfolding round16_def by (simp add: nat_le_iff_add) presburger

lemma length_padded [simp]: "length q < 65536 \<Longrightarrow> length (padded_packet (Some q)) = round16 (length q)"
  and padded_keepalive [simp]: "padded_packet None = []"
proof -
  assume q: "length q < 65536"
  let ?dst = "q @ replicate (round16 (length q) - length q) 0"
  obtain ip' where "wireguardif_fix_checksums ?dst (length q) = Some ip'" "length ip' = length ?dst"
    using fix_checksums_total [of "length q" ?dst] by auto
  then show "length (padded_packet (Some q)) = round16 (length q)"
    using round16_ge [of "length q"] by (auto simp: padded_packet_def Let_def round_up_16 [OF q] round16_def)
qed (simp add: padded_packet_def Let_def)

text \<open>An IPv4 packet is sealed with its checksums restored and followed by zeros.\<close>

lemma padded_packet_restored:
  assumes "20 \<le> length q" "length q < 65536" "drop_bit 4 (q ! 0) = 4" "ihl = unat (q ! 0 AND 0x0F) * 4" "20 \<le> ihl"
    and "unat (get16 q 2) = length q" "ihl \<le> length q"
  shows "csum_restored (q @ replicate (round16 (length q) - length q) 0) (padded_packet (Some q)) ihl (length q)"
proof -
  let ?dst = "q @ replicate (round16 (length q) - length q) 0"
  have g: "?dst ! 0 = q ! 0" "get16 ?dst 2 = get16 q 2"
    using assms(1) by (auto simp: nth_append get16_def)
  obtain ip' where "wireguardif_fix_checksums ?dst (length q) = Some ip'" "csum_restored ?dst ip' ihl (length q)"
    using fix_checksums_restores [of "length q" ?dst ihl "length q"] assms g by auto
  moreover have "0 < round16 (length q)" using assms(1) round16_ge [of "length q"] by linarith
  ultimately show ?thesis
    by (simp add: padded_packet_def Let_def round_up_16 [OF assms(2)] flip: round16_def)
qed


section \<open>From one end to the other\<close>

text \<open>The message that carries the packet \<open>d\<close> under the key pair \<open>k\<close>.\<close>

definition transport :: "wireguard_keypair \<Rightarrow> bytes \<Rightarrow> bytes" where
  "transport k d = [4, 0, 0, 0] @ le32_bytes (k_remote_index k) @ U64TO8_LITTLE (sending_counter k) @
     fst (wireguard_encrypt_packet d k)"

lemma length_transport [simp]: "length (transport k d) = length d + 32"
  by (simp add: transport_def wireguard_encrypt_packet_def)

lemma transport_fields:
  "wireguard_get_message_type (transport k d) = MESSAGE_TRANSPORT_DATA"
  "le32_of (seg (transport k d) 4 4) = k_remote_index k"
  "U8TO64_LITTLE (seg (transport k d) 8 8) = sending_counter k"
  "drop 16 (transport k d) = fst (wireguard_encrypt_packet d k)"
  by (simp_all add: transport_def wireguard_get_message_type_def wireguard_encrypt_packet_def seg_def)

definition usable :: "u32 \<Rightarrow> wireguard_keypair \<Rightarrow> bool" where
  "usable now k \<longleftrightarrow> k_valid k \<and> \<not> wireguard_expired now (keypair_millis k) REJECT_AFTER_TIME \<and>
     sending_counter k < REJECT_AFTER_MESSAGES"

definition can_send :: "u32 \<Rightarrow> wireguard_peer \<Rightarrow> bool" where
  "can_send now peer \<longleftrightarrow> (let k = get_slot peer (sending_slot peer) in
     usable now k \<and> (k_initiator k \<or> k_last_rx k \<noteq> 0))"

lemma output_to_peer_sends:
  assumes "can_send (sys_now env) peer" "pbuf_alloc env (32 + length (padded_packet q))"
  shows "snd (snd (wireguardif_output_to_peer env q peer)) =
    [Udp_sendto (p_ip peer) (p_port peer) (transport (get_slot peer (sending_slot peer)) (padded_packet q))]"
  using assms
  by (simp add: can_send_def usable_def wireguardif_output_to_peer_def Let_def wireguard_encrypt_packet_def
      wireguardif_peer_output_def transport_def)

lemma get_set_slot [simp]: "get_slot (set_slot peer s k) s = k"
  by (cases s) simp_all

lemma check_replay_fields:
  "fst (wireguard_check_replay (k\<lparr>k_last_rx := now\<rparr>) seq) = fst (wireguard_check_replay k seq)"
  by (simp add: wireguard_check_replay_def Let_def)

lemma zero_keypair_fresh: "seq + 1 \<noteq> 0 \<Longrightarrow> fst (wireguard_check_replay zero_keypair seq)"
  by (simp add: wireguard_check_replay_def zero_keypair_def Let_def word_gt_0)

lemma counter_no_wrap: "(c :: u64) < REJECT_AFTER_MESSAGES \<Longrightarrow> c + 1 \<noteq> 0"
proof
  assume "c < REJECT_AFTER_MESSAGES" "c + 1 = 0"
  then have "c = - 1" by (simp add: add_eq_0_iff2)
  then show False using \<open>c < REJECT_AFTER_MESSAGES\<close> by simp
qed

text \<open>A counter the receiver takes: one the window of the slot takes, or any on the key pair that has not been used yet.\<close>

definition takes_counter :: "wireguard_peer \<Rightarrow> slot \<Rightarrow> u64 \<Rightarrow> bool" where
  "takes_counter peer s seq \<longleftrightarrow>
     (if s = Next then seq + 1 \<noteq> 0 else fst (wireguard_check_replay (get_slot peer s) seq))"

lemma slot_fields [simp]:
  "allowed_source_ips (set_slot peer s k) = allowed_source_ips peer"
  "p_ip (set_slot peer s k) = p_ip peer" "p_port (set_slot peer s k) = p_port peer"
  by (cases s; simp)+

lemma keypair_update_fields [simp]:
  "allowed_source_ips (keypair_update peer s) = allowed_source_ips peer"
  "p_ip (keypair_update peer s) = p_ip peer" "p_port (keypair_update peer s) = p_port peer"
  by (simp_all add: keypair_update_def keypair_destroy_def)

lemma takes_counter_update:
  "takes_counter peer s seq \<Longrightarrow> set_slot peer' s ((get_slot peer s)\<lparr>k_last_rx := now\<rparr>) = p \<Longrightarrow>
   fst (wireguard_check_replay (get_slot (keypair_update (p\<lparr>p_last_rx := now'\<rparr>) s) s) seq)"
  by (cases s) (auto simp: takes_counter_def keypair_update_def keypair_destroy_def check_replay_fields
      zero_keypair_fresh [simplified zero_keypair_def] zero_keypair_def)

lemma source_check_cong: "allowed_source_ips p = allowed_source_ips p' \<Longrightarrow> source_check p = source_check p'"
  by (simp add: source_check_def fun_eq_iff)

lemma data_message_opens:
  assumes "get_peer_keypair_for_idx peer (le32_of (seg msg 4 4)) = Some s" "usable (sys_now env) (get_slot peer s)"
    and "receiving_valid (get_slot peer s)" "pbuf_alloc env (length (drop 16 msg) - 16)"
    and "wireguard_decrypt_packet (drop 16 msg) (U8TO64_LITTLE (seg msg 8 8)) (get_slot peer s) = Some d" "d \<noteq> []"
    and "takes_counter peer s (U8TO64_LITTLE (seg msg 8 8))"
    and "source_check peer (d @ slack) = (True, n)" "unat n \<le> length d"
  shows "snd (wireguardif_process_data_message env slack peer msg addr port) = [Link_up, Ip_input d]"
    and "p_ip (fst (wireguardif_process_data_message env slack peer msg addr port)) = addr"
    and "p_port (fst (wireguardif_process_data_message env slack peer msg addr port)) = port"
proof -
  let ?k = "get_slot peer s" and ?now = "sys_now env" and ?seq = "U8TO64_LITTLE (seg msg 8 8)"
  define p where "p = keypair_update ((set_slot (update_peer_addr peer addr port) s (?k\<lparr>k_last_rx := ?now\<rparr>))\<lparr>p_last_rx := ?now\<rparr>) s"
  define p' where "p' = (if k_initiator (get_slot p s) \<and> wireguard_expired ?now (keypair_millis (get_slot p s))
      (REJECT_AFTER_TIME - ucast (keepalive_interval p) - REKEY_TIMEOUT) then p\<lparr>send_handshake := True\<rparr> else p)"
  have slot: "get_slot p' s = get_slot p s" by (cases s) (simp_all add: p'_def)
  obtain k' where r: "wireguard_check_replay (get_slot p s) ?seq = (True, k')"
    using takes_counter_update [where peer' = "update_peer_addr peer addr port" and now' = ?now, OF assms(7) refl]
    unfolding p_def by (metis prod.collapse)
  have f: "allowed_source_ips p' = allowed_source_ips peer" "p_ip p' = addr" "p_port p' = port"
    by (simp_all add: p'_def p_def update_peer_addr_def)
  have sc: "source_check (set_slot p s k') = source_check peer"
    "source_check (set_slot (p\<lparr>send_handshake := True\<rparr>) s k') = source_check peer"
    by (rule source_check_cong, simp add: p_def update_peer_addr_def)+
  have "wireguardif_process_data_message env slack peer msg addr port = (set_slot p' s k', [Link_up, Ip_input d])"
    using assms(1-6,9) r unfolding wireguardif_process_data_message_def usable_def
    by (simp add: Let_def p_def [symmetric] sc assms(8) p'_def)
  then show "snd (wireguardif_process_data_message env slack peer msg addr port) = [Link_up, Ip_input d]"
    "p_ip (fst (wireguardif_process_data_message env slack peer msg addr port)) = addr"
    "p_port (fst (wireguardif_process_data_message env slack peer msg addr port)) = port"
    using f(2,3) by simp_all
qed


lemma padded_packet_header:
  assumes "csum_restored (q @ z) d ihl tot" "20 \<le> ihl" "20 \<le> length q" "i < 20" "i \<noteq> 10" "i \<noteq> 11"
  shows "d ! i = q ! i"
proof -
  have "d ! i = (q @ z) ! i" using assms(1,2,4-6) unfolding csum_restored_def by force
  then show ?thesis using assms(3,4) by (simp add: nth_append)
qed

lemma seg_eqI: "off + n \<le> length xs \<Longrightarrow> off + n \<le> length ys \<Longrightarrow> (\<And>i. i < n \<Longrightarrow> xs ! (off + i) = ys ! (off + i)) \<Longrightarrow>
  seg xs off n = seg ys off n"
  by (rule nth_equalityI) auto

lemma source_check_padded:
  assumes "csum_restored (q @ z) d ihl tot" "20 \<le> ihl" "20 \<le> length q"
  shows "source_check peer (d @ slack) = source_check peer q"
proof -
  have l: "20 \<le> length d" using assms(1,3) by (simp add: csum_restored_def)
  note h = padded_packet_header [OF assms]
  have "seg (d @ slack) 12 4 = seg q 12 4"
    using l assms(3) h by (intro seg_eqI) (auto simp: nth_append)
  moreover have "(d @ slack) ! 0 = q ! 0" "get16 (d @ slack) 2 = get16 q 2"
    using l h [of 0] h [of 2] h [of 3] by (auto simp: nth_append get16_def)
  ultimately show ?thesis by (simp add: source_check_def Let_def)
qed

lemma network_rx_data:
  assumes "wireguard_get_message_type msg = MESSAGE_TRANSPORT_DATA"
    and "peer_lookup_by_receiver device (le32_of (seg msg 4 4)) = Some i"
  shows "wireguardif_network_rx x25519 env slack tp device msg addr port =
    (let (peer, events) = wireguardif_process_data_message env slack (peers device ! i) msg addr port
     in Some (set_peer device i peer, events, tp))"
  using assms by (simp add: wireguardif_network_rx_def Let_def)

section \<open>What a datagram can do\<close>

text \<open>Everything that must hold of a datagram whose contents reach the IP layer.\<close>

lemma data_message_inv:
  assumes "Ip_input d \<in> set (snd (wireguardif_process_data_message env slack peer msg addr port))"
  obtains s where "get_peer_keypair_for_idx peer (le32_of (seg msg 4 4)) = Some s"
    "usable (sys_now env) (get_slot peer s)" "receiving_valid (get_slot peer s)" "pbuf_alloc env (length (drop 16 msg) - 16)"
    "wireguard_decrypt_packet (drop 16 msg) (U8TO64_LITTLE (seg msg 8 8)) (get_slot peer s) = Some d" "d \<noteq> []"
    "takes_counter peer s (U8TO64_LITTLE (seg msg 8 8))"
    "fst (source_check peer (d @ slack))" "unat (snd (source_check peer (d @ slack))) \<le> length d"
proof -
  let ?seq = "U8TO64_LITTLE (seg msg 8 8)"
  obtain s where s: "get_peer_keypair_for_idx peer (le32_of (seg msg 4 4)) = Some s"
    using assms by (cases "get_peer_keypair_for_idx peer (le32_of (seg msg 4 4))")
      (auto simp: wireguardif_process_data_message_def)
  define p where "p = keypair_update ((set_slot (update_peer_addr peer addr port) s
     ((get_slot peer s)\<lparr>k_last_rx := sys_now env\<rparr>))\<lparr>p_last_rx := sys_now env\<rparr>) s"
  have v: "k_valid (get_slot peer s)" using s by (auto simp: get_peer_keypair_for_idx_def split: if_splits)
  have g: "receiving_valid (get_slot peer s)" "\<not> wireguard_expired (sys_now env) (keypair_millis (get_slot peer s)) REJECT_AFTER_TIME"
    "sending_counter (get_slot peer s) < REJECT_AFTER_MESSAGES" "pbuf_alloc env (length (drop 16 msg) - 16)"
    "wireguard_decrypt_packet (drop 16 msg) ?seq (get_slot peer s) \<noteq> None"
    using assms s by (auto simp: wireguardif_process_data_message_def Let_def split: if_splits option.splits)
  obtain e where e: "wireguard_decrypt_packet (drop 16 msg) ?seq (get_slot peer s) = Some e" using g(5) by blast
  have sc: "source_check (set_slot p s k') = source_check peer"
    "source_check (set_slot (p\<lparr>send_handshake := True\<rparr>) s k') = source_check peer" for k'
    by (rule source_check_cong, simp add: p_def update_peer_addr_def)+
  have r: "e = d" "d \<noteq> []" "fst (wireguard_check_replay (get_slot p s) ?seq)"
    "fst (source_check peer (d @ slack))" "unat (snd (source_check peer (d @ slack))) \<le> length d"
    using assms s g e by (auto simp: wireguardif_process_data_message_def Let_def p_def [symmetric] sc
        split: if_splits prod.splits)
  have "takes_counter peer s ?seq"
    using r(3) unfolding takes_counter_def p_def
    by (cases s) (auto simp: keypair_update_def keypair_destroy_def check_replay_fields update_peer_addr_def
        wireguard_check_replay_def zero_keypair_def Let_def split: if_splits)
  then show thesis using that s g e r v by (auto simp: usable_def)
qed

text \<open>The packet that makes the next key pair the current one leaves that key pair with an empty replay window.\<close>

lemma data_message_next:
  assumes "get_peer_keypair_for_idx peer (le32_of (seg msg 4 4)) = Some Next"
    and "Ip_input d \<in> set (snd (wireguardif_process_data_message env slack peer msg addr port))"
  defines "peer' \<equiv> fst (wireguardif_process_data_message env slack peer msg addr port)"
  shows "curr_keypair peer' = (next_keypair peer)\<lparr>k_last_rx := sys_now env\<rparr>"
    and "allowed_source_ips peer' = allowed_source_ips peer"
proof -
  have m: "receiving_valid (next_keypair peer)" "usable (sys_now env) (next_keypair peer)"
    "pbuf_alloc env (length (drop 16 msg) - 16)"
    "wireguard_decrypt_packet (drop 16 msg) (U8TO64_LITTLE (seg msg 8 8)) (next_keypair peer) = Some d"
    using data_message_inv [OF assms(2)] assms(1) by fastforce+
  show "curr_keypair peer' = (next_keypair peer)\<lparr>k_last_rx := sys_now env\<rparr>"
    "allowed_source_ips peer' = allowed_source_ips peer"
    using assms(1) m by (auto simp: peer'_def wireguardif_process_data_message_def Let_def usable_def keypair_update_def
        keypair_destroy_def update_peer_addr_def split: prod.splits)
qed

lemma next_packet_again:
  assumes "get_peer_keypair_for_idx peer (le32_of (seg msg 4 4)) = Some Next" "replay_counter (next_keypair peer) = 0"
    and "Ip_input d \<in> set (snd (wireguardif_process_data_message env slack peer msg addr port))"
    and "pbuf_alloc env' (length (drop 16 msg) - 16)"
    and "\<not> wireguard_expired (sys_now env') (keypair_millis (next_keypair peer)) REJECT_AFTER_TIME"
  shows "Ip_input d \<in> set (snd (wireguardif_process_data_message env' slack
    (fst (wireguardif_process_data_message env slack peer msg addr port)) msg addr' port'))"
proof -
  let ?p = "fst (wireguardif_process_data_message env slack peer msg addr port)" and ?seq = "U8TO64_LITTLE (seg msg 8 8)"
  note n = data_message_next [OF assms(1,3)]
  obtain m: "usable (sys_now env) (next_keypair peer)" "receiving_valid (next_keypair peer)"
    "wireguard_decrypt_packet (drop 16 msg) ?seq (next_keypair peer) = Some d" "d \<noteq> []" "takes_counter peer Next ?seq"
    "fst (source_check peer (d @ slack))" "unat (snd (source_check peer (d @ slack))) \<le> length d"
    using data_message_inv [OF assms(3)] assms(1) by (metis get_slot.simps(2) option.inject)
  have idx: "get_peer_keypair_for_idx ?p (le32_of (seg msg 4 4)) = Some Curr"
    using assms(1) n(1) by (auto simp: get_peer_keypair_for_idx_def split: if_splits)
  have tk: "takes_counter ?p Curr ?seq"
    using m(5) assms(2) n(1) by (simp add: takes_counter_def wireguard_check_replay_def Let_def word_gt_0)
  have "snd (wireguardif_process_data_message env' slack ?p msg addr' port') = [Link_up, Ip_input d]"
    by (rule data_message_opens [OF idx _ _ assms(4) _ m(4) tk, of slack "snd (source_check peer (d @ slack))"])
      (use m assms(5) n source_check_cong [OF n(2)] in \<open>auto simp: usable_def wireguard_decrypt_packet_def prod_eq_iff\<close>)
  then show ?thesis by simp
qed

section \<open>Only data reaches the IP layer\<close>

lemma output_no_ip [simp]: "Ip_input d \<notin> set (snd (snd (wireguardif_output_to_peer env q peer)))"
  by (auto simp: wireguardif_output_to_peer_def wireguardif_peer_output_def Let_def split: prod.splits)

lemma cookie_no_ip:
  "wireguardif_send_handshake_cookie env tp device mac1 index addr port = Some (device', events, tp') \<Longrightarrow>
   Ip_input d \<notin> set events"
  by (auto simp: wireguardif_send_handshake_cookie_def wireguardif_device_output_def split: if_splits)

lemma check_macs_no_ip:
  "check_macs n env tp device msg addr port = Some (ok, device', events, tp') \<Longrightarrow> Ip_input d \<notin> set events"
  by (auto simp: check_macs_def Let_def dest: cookie_no_ip split: if_splits option.splits bool.splits)

lemma response_no_ip:
  "wireguardif_send_handshake_response x25519 env tp device peer = Some (peer', events, tp') \<Longrightarrow> Ip_input d \<notin> set events"
  by (auto simp: wireguardif_send_handshake_response_def wireguardif_peer_output_def Let_def split: if_splits option.splits)

lemma keepalive_no_ip: "wireguardif_send_keepalive env peer = (peer', events) \<Longrightarrow> Ip_input d \<notin> set events"
  unfolding wireguardif_send_keepalive_def by (metis output_no_ip snd_conv)

lemma process_response_no_ip:
  "wireguardif_process_response_message x25519 env device peer response addr port = (peer', events) \<Longrightarrow> Ip_input d \<notin> set events"
  by (auto simp: wireguardif_process_response_message_def Let_def dest: keepalive_no_ip split: prod.splits bool.splits)

lemma network_rx_ip_input:
  assumes "wireguardif_network_rx x25519 env slack tp device data addr port = Some (device', events, tp')" "Ip_input d \<in> set events"
  obtains i where "peer_lookup_by_receiver device (le32_of (seg data 4 4)) = Some i"
    "Ip_input d \<in> set (snd (wireguardif_process_data_message env slack (peers device ! i) data addr port))"
  using assms
  by (auto simp: wireguardif_network_rx_def Let_def wireguardif_check_initiation_message_def wireguardif_check_response_message_def
      dest: check_macs_no_ip response_no_ip process_response_no_ip split: if_splits option.splits prod.splits bool.splits)

section \<open>The timer without a peer that answers\<close>

lemma create_initiation_handshake_only:
  "wireguard_create_handshake_initiation x25519 now ts tp device peer = Some (m, peer', tp') \<Longrightarrow>
   \<exists>hs. peer' = peer\<lparr>handshake := hs\<rparr>"
  by (auto simp: wireguard_create_handshake_initiation_def Let_def split: option.splits prod.splits if_splits)

lemma start_handshake_keeps:
  assumes "wireguard_start_handshake x25519 env tp device peer = Some (r, peer', events, tp')"
  shows "curr_keypair peer' = curr_keypair peer" "prev_keypair peer' = prev_keypair peer" "p_valid peer' = p_valid peer"
    "Link_down \<notin> set events"
  using assms create_initiation_handshake_only
  by (auto simp: wireguard_start_handshake_def wireguardif_initiate_handshake_def wireguardif_peer_output_def
      split: option.splits if_splits) fastforce+

lemma keepalive_no_down: "wireguardif_send_keepalive env peer = (peer', events) \<Longrightarrow> Link_down \<notin> set events"
  by (auto simp: wireguardif_send_keepalive_def wireguardif_output_to_peer_def wireguardif_peer_output_def Let_def
      split: prod.splits if_splits)

lemma tmr_peer_no_down:
  assumes "tmr_peer x25519 env tp device peer = Some (up, peer', events, tp')"
  shows "Link_down \<notin> set events"
  using assms
  by (auto simp: tmr_peer_def Let_def dest: keepalive_no_down start_handshake_keeps(4) split: if_splits prod.splits)

text \<open>A peer whose current key pair is gone and whose previous one is still there.\<close>

definition stale :: "wireguard_peer \<Rightarrow> bool" where
  "stale peer \<longleftrightarrow> p_valid peer \<and> \<not> k_valid (curr_keypair peer) \<and> k_valid (prev_keypair peer)"

lemma stale_keepalive: "stale peer \<Longrightarrow> wireguardif_send_keepalive env peer = (peer, [])"
  by (simp add: stale_def wireguardif_send_keepalive_def wireguardif_output_to_peer_def sending_slot_def Let_def)

lemma tmr_peer_stale:
  assumes "stale peer" "tmr_peer x25519 env tp device peer = Some (up, peer', events, tp')"
  shows "up" "stale peer'" "Link_down \<notin> set events"
proof -
  have n: "\<not> should_reset_peer env peer" "\<not> should_destroy_current_keypair env peer"
    using assms(1) by (simp_all add: stale_def should_reset_peer_def should_destroy_current_keypair_def)
  have r: "map_option (\<lambda>(peer, ev, tp). (k_valid (curr_keypair peer) \<or> k_valid (prev_keypair peer), peer, ev, tp))
      (if should_send_initiation env peer then map_option snd (wireguard_start_handshake x25519 env tp device peer)
       else Some (peer, [], tp)) = Some (up, peer', events, tp')"
    using assms(2) n stale_keepalive [OF assms(1)] by (simp add: tmr_peer_def Let_def split: if_splits)
  show "up" "stale peer'" "Link_down \<notin> set events"
    using r assms(1) start_handshake_keeps [of x25519 env tp device peer]
    by (auto simp: stale_def split: if_splits)
qed

lemma tmr_loop_stale:
  assumes "tmr_loop x25519 env xs tp device up = Some (up', device', events, tp')" "stale (peers device ! i)" "i < length (peers device)"
  shows "stale (peers device' ! i) \<and> i < length (peers device') \<and> d_valid device' = d_valid device \<and>
    Link_down \<notin> set events \<and> (up \<or> i \<in> set xs \<longrightarrow> up')"
  using assms
proof (induction x25519 env xs tp device up arbitrary: up' device' events tp' rule: tmr_loop.induct)
  case (2 x25519 env x xs tp device link_up)
  show ?case
  proof (cases "p_valid (peers device ! x)")
    case False
    then have "x \<noteq> i" using 2(4) by (auto simp: stale_def)
    then show ?thesis using 2(2) [OF False] 2(3-5) False by auto
  next
    case True
    obtain up peer ev tp1 where t: "tmr_peer x25519 env tp device (peers device ! x) = Some (up, peer, ev, tp1)"
      using 2(3) True by (auto split: option.splits)
    obtain ev2 where l: "tmr_loop x25519 env xs tp1 (set_peer device x peer) (link_up \<or> up) = Some (up', device', ev2, tp')"
      and e: "events = ev @ ev2" using 2(3) True t by auto
    have st: "stale (peers (set_peer device x peer) ! i)"
      using tmr_peer_stale(2) [OF _ t] 2(4,5) by (cases "x = i") simp_all
    have up: "x = i \<Longrightarrow> up" using tmr_peer_stale(1) [OF _ t] 2(4) by simp
    show ?thesis using 2(1) [OF True t refl refl refl l st] tmr_peer_no_down [OF t] up 2(5) e by auto
  qed
qed auto

primrec tmr_run :: "x25519_fun \<Rightarrow> wg_env list \<Rightarrow> tape \<Rightarrow> wireguard_device \<Rightarrow> (wireguard_device \<times> wg_event list \<times> tape) option" where
  "tmr_run x25519 [] tp device = Some (device, [], tp)"
| "tmr_run x25519 (env # envs) tp device =
     (case wireguardif_tmr x25519 env tp device of None \<Rightarrow> None
      | Some (device, events, tp) \<Rightarrow>
          map_option (\<lambda>(device, ev, tp). (device, events @ ev, tp)) (tmr_run x25519 envs tp device))"

lemma tmr_run_stale:
  assumes "tmr_run x25519 envs tp device = Some (device', events, tp')" "stale (peers device ! i)" "i < length (peers device)"
  shows "stale (peers device' ! i) \<and> i < length (peers device') \<and> d_valid device' = d_valid device \<and> Link_down \<notin> set events"
  using assms
proof (induction envs arbitrary: tp device events)
  case (Cons env envs)
  obtain up d1 ev1 tp1 where l: "tmr_loop x25519 env [0 ..< length (peers device)] tp device False = Some (up, d1, ev1, tp1)"
    and r: "\<exists>ev2. tmr_run x25519 envs tp1 d1 = Some (device', ev2, tp') \<and>
      events = (ev1 @ (if up then [] else [Link_down])) @ ev2"
    using Cons.prems(1) by (auto simp: wireguardif_tmr_def split: option.splits)
  have "stale (peers d1 ! i) \<and> i < length (peers d1) \<and> d_valid d1 = d_valid device \<and> Link_down \<notin> set ev1 \<and> up"
    using tmr_loop_stale [OF l Cons.prems(2,3)] Cons.prems(3) by auto
  then show ?case using r Cons.IH by auto
qed auto

section \<open>Properties\<close>

text \<open>Property C4. A packet goes through the tunnel: when the sender's device has a peer for the destination and a live key pair
  for it, and the receiver has the matching key pair, has not seen the counter and allows the packet's source, the
  datagram the sender emits makes the receiver hand one packet to its IP layer: the sent one, with its empty
  checksums filled in so that they verify, followed by at most 15 zero bytes of padding. The receiver moves the peer's endpoint
  to where the datagram came from.\<close>

theorem tunnel_delivers:
  assumes "peer_lookup_by_allowed_ip dA dst = Some a" "pA = peers dA ! a" "kA = get_slot pA (sending_slot pA)"
    and "can_send (sys_now envA) pA" "pbuf_alloc envA (32 + round16 (length q))"
    and "peer_lookup_by_receiver dB (k_remote_index kA) = Some b" "b < length (peers dB)" "pB = peers dB ! b"
    and "get_peer_keypair_for_idx pB (k_remote_index kA) = Some s" "kB = get_slot pB s" "matched kA kB"
    and "usable (sys_now envB) kB" "receiving_valid kB" "pbuf_alloc envB (round16 (length q))"
    and "takes_counter pB s (sending_counter kA)"
    and "20 \<le> length q" "length q < 65536" "drop_bit 4 (q ! 0) = 4" "ihl = unat (q ! 0 AND 0x0F) * 4" "20 \<le> ihl"
    and "ihl \<le> length q" "unat (get16 q 2) = length q" "fst (source_check pB q)"
  shows "\<exists>r dA' datagram d dB'.
    wireguardif_output envA dA q dst = (r, dA', [Udp_sendto (p_ip pA) (p_port pA) datagram]) \<and>
    wireguardif_network_rx x25519 envB slack tp dB datagram addr port = Some (dB', [Link_up, Ip_input d], tp) \<and>
    csum_restored (q @ replicate (round16 (length q) - length q) 0) d ihl (length q) \<and>
    p_ip (peers dB' ! b) = addr \<and> p_port (peers dB' ! b) = port"
proof -
  define d where "d = padded_packet (Some q)"
  define m where "m = transport kA d"
  obtain r pA' where out: "wireguardif_output_to_peer envA (Some q) pA = (r, pA', [Udp_sendto (p_ip pA) (p_port pA) m])"
    using output_to_peer_sends [OF assms(4), of "Some q"] assms(5,17) unfolding m_def d_def assms(3)
    by (metis length_padded prod.collapse)
  have cs: "csum_restored (q @ replicate (round16 (length q) - length q) 0) d ihl (length q)"
    unfolding d_def by (rule padded_packet_restored [OF assms(16-20,22,21)])
  have ld: "length d = round16 (length q)" using assms(17) by (simp add: d_def)
  have sc: "source_check pB (d @ slack) = (True, get16 q 2)"
    using source_check_padded [OF cs assms(20,16), of pB slack] assms(18,23)
    by (auto simp: source_check_def Let_def split: if_splits)
  have dec: "wireguard_decrypt_packet (drop 16 m) (U8TO64_LITTLE (seg m 8 8)) kB = Some d"
    unfolding m_def transport_fields by (rule matched_data(1) [OF assms(11)])
  have "d \<noteq> []" using ld assms(16) round16_ge [of "length q"] by auto
  note o = data_message_opens [OF _ _ _ _ dec [unfolded assms(10)] this, of envB slack "get16 q 2" addr port]
  have pre: "get_peer_keypair_for_idx pB (le32_of (seg m 4 4)) = Some s" "pbuf_alloc envB (length (drop 16 m) - 16)"
    "takes_counter pB s (U8TO64_LITTLE (seg m 8 8))" "unat (get16 q 2) \<le> length d"
    using assms(9,14,15,22) ld round16_ge [of "length q"] by (simp_all add: m_def transport_fields) (simp add: m_def transport_def wireguard_encrypt_packet_def)
  note o = o [OF pre(1) assms(12,13) [unfolded assms(10)] pre(2,3) sc pre(4)]
  obtain pB' where pd: "wireguardif_process_data_message envB slack pB m addr port = (pB', [Link_up, Ip_input d])"
    "p_ip pB' = addr" "p_port pB' = port" using o by (metis prod.collapse fst_conv)
  have "wireguardif_network_rx x25519 envB slack tp dB m addr port = Some (set_peer dB b pB', [Link_up, Ip_input d], tp)"
    using network_rx_data [of m dB b x25519 envB slack tp addr port] assms(6,8) pd(1)
    by (simp add: m_def transport_fields)
  moreover have "wireguardif_output envA dA q dst = (r, set_peer dA a pA', [Udp_sendto (p_ip pA) (p_port pA) m])"
    using out assms(1,2) by (simp add: wireguardif_output_def)
  ultimately show ?thesis using cs pd(2,3) assms(7) by fastforce
qed


text \<open>Two ends in the middle of a session, and a 20-byte packet.\<close>

definition demo_env :: wg_env where
  "demo_env = \<lparr>sys_now = 1000, tai64n_now = replicate 12 1, is_under_load = False, pbuf_alloc = (\<lambda>_. True),
     udp_sendto = (\<lambda>_ _ _. ERR_OK)\<rparr>"

definition demo_keypair :: "bool \<Rightarrow> u32 \<Rightarrow> u32 \<Rightarrow> u8 \<Rightarrow> u8 \<Rightarrow> wireguard_keypair" where
  "demo_keypair initiator local remote sk rk = zero_keypair\<lparr>k_valid := True, k_initiator := initiator,
     keypair_millis := 900, sending_key := replicate 32 sk, receiving_key := replicate 32 rk,
     sending_valid := True, receiving_valid := True, k_local_index := local, k_remote_index := remote\<rparr>"

definition demo_peer :: wireguard_peer where
  "demo_peer = zero_peer\<lparr>p_valid := True, p_ip := IP4 0x01020304, p_port := 51820,
     allowed_source_ips := [\<lparr>a_valid = True, a_ip = IP4 0, a_mask = IP4 0\<rparr>, \<lparr>a_valid = False, a_ip = IP4 0, a_mask = IP4 0\<rparr>]\<rparr>"

definition demo_sender :: wireguard_device where
  "demo_sender = zero_device\<lparr>peers := [demo_peer\<lparr>curr_keypair := demo_keypair True 5 7 1 2\<rparr>]\<rparr>"

definition demo_receiver :: wireguard_device where
  "demo_receiver = zero_device\<lparr>peers := [demo_peer\<lparr>next_keypair := demo_keypair False 7 5 2 1\<rparr>]\<rparr>"

definition demo_packet :: bytes where
  "demo_packet = [0x45, 0, 0, 20, 0, 1, 0, 0, 64, 59, 0, 0, 10, 0, 0, 1, 10, 0, 0, 2]"

lemmas demo_defs = demo_env_def demo_keypair_def demo_peer_def demo_sender_def demo_receiver_def demo_packet_def
  zero_device_def zero_peer_def zero_keypair_def

lemma demo_lookups:
  "peer_lookup_by_allowed_ip demo_sender 0x0200000A = Some 0"
  "sending_slot (peers demo_sender ! 0) = Curr"
  "peer_lookup_by_receiver demo_receiver 7 = Some 0"
  "get_peer_keypair_for_idx (peers demo_receiver ! 0) 7 = Some Next"
  "k_remote_index (curr_keypair (peers demo_sender ! 0)) = 7"
  by (simp_all add: peer_lookup_by_allowed_ip_def ip4_addr_netcmp_def sending_slot_def peer_lookup_by_receiver_def
      get_peer_keypair_for_idx_def demo_defs)

theorem tunnel_delivers_witness:
  "\<exists>r dA' datagram d dB'.
    wireguardif_output demo_env demo_sender demo_packet 0x0200000A = (r, dA', [Udp_sendto (IP4 0x01020304) 51820 datagram]) \<and>
    wireguardif_network_rx toy_x25519 demo_env [] [] demo_receiver datagram (IP4 9) 8 = Some (dB', [Link_up, Ip_input d], []) \<and>
    csum_restored (demo_packet @ replicate 12 0) d 20 20 \<and>
    p_ip (peers dB' ! 0) = IP4 9 \<and> p_port (peers dB' ! 0) = 8"
proof -
  let ?pA = "peers demo_sender ! 0" and ?pB = "peers demo_receiver ! 0"
  let ?kA = "get_slot ?pA (sending_slot ?pA)"
  have k: "?kA = curr_keypair ?pA" by (simp add: demo_lookups)
  have l: "length demo_packet = 20" "round16 20 = 32" by (simp_all add: demo_packet_def round16_def)
  have 1: "can_send (sys_now demo_env) ?pA"
    unfolding can_send_def Let_def k by (simp add: usable_def wireguard_expired_def demo_defs)
  have 2: "matched ?kA (get_slot ?pB Next)" unfolding k by (simp add: matched_def demo_defs)
  have 3: "usable (sys_now demo_env) (get_slot ?pB Next)" by (simp add: usable_def wireguard_expired_def demo_defs)
  have 4: "takes_counter ?pB Next (sending_counter ?kA)" unfolding k by (simp add: takes_counter_def demo_defs)
  have 5: "fst (source_check ?pB demo_packet)"
    by (simp add: source_check_def ip4_addr_netcmp_def demo_defs Let_def)
  have p: "p_ip ?pA = IP4 0x01020304" "p_port ?pA = 51820" by (simp_all add: demo_defs)
  have "b < length (peers demo_receiver)" if "b = 0" for b using that by (simp add: demo_defs)
  then show ?thesis
    using tunnel_delivers [where q = demo_packet and ihl = 20 and s = Next and b = 0 and slack = "[]" and tp = "[]"
        and ?x25519.0 = toy_x25519 and addr = "IP4 9" and port = 8, OF demo_lookups(1) refl refl 1 _ _ _ refl _ refl 2 3 _ _ 4]
    unfolding k demo_lookups l p
    by (simp add: l 5 demo_lookups) (simp add: demo_defs get16_def unat_be16)
qed

text \<open>The packet that opens a responder's session can be replayed: it moves the key pair from the
  next to the current slot, and its counter is then entered in the replay window of the emptied next slot instead of the key pair's
  own. So the very same datagram, from whatever address, is accepted once more and its contents reach the IP
  layer a second time.\<close>

theorem first_packet_accepted_twice:
  assumes "get_peer_keypair_for_idx peer (le32_of (seg msg 4 4)) = Some Next" "replay_counter (next_keypair peer) = 0"
    and "Ip_input d \<in> set (snd (wireguardif_process_data_message env slack peer msg addr port))"
    and "pbuf_alloc env' (length (drop 16 msg) - 16)"
    and "\<not> wireguard_expired (sys_now env') (keypair_millis (next_keypair peer)) REJECT_AFTER_TIME"
  shows "Ip_input d \<in> set (snd (wireguardif_process_data_message env' slack
    (fst (wireguardif_process_data_message env slack peer msg addr port)) msg addr' port'))"
  by (rule next_packet_again [OF assms])

lemma demo_first_packet:
  "Ip_input demo_packet \<in> set (snd (wireguardif_process_data_message demo_env [] (peers demo_receiver ! 0)
     (transport (curr_keypair (peers demo_sender ! 0)) demo_packet) (IP4 9) 8))"
proof -
  let ?kA = "curr_keypair (peers demo_sender ! 0)" and ?pB = "peers demo_receiver ! 0"
  have m: "matched ?kA (get_slot ?pB Next)" by (simp add: matched_def demo_defs)
  have "snd (wireguardif_process_data_message demo_env [] ?pB (transport ?kA demo_packet) (IP4 9) 8) = [Link_up, Ip_input demo_packet]"
    by (rule data_message_opens [where s = Next and n = 20], unfold transport_fields demo_lookups)
      (use matched_data(1) [OF m] in \<open>simp_all add: usable_def wireguard_expired_def takes_counter_def source_check_def
        ip4_addr_netcmp_def Let_def get16_def be16_def demo_defs\<close>)
  then show ?thesis by simp
qed

theorem first_packet_accepted_twice_witness:
  "Ip_input demo_packet \<in> set (snd (wireguardif_process_data_message (demo_env\<lparr>sys_now := 60000\<rparr>) []
    (fst (wireguardif_process_data_message demo_env [] (peers demo_receiver ! 0)
       (transport (curr_keypair (peers demo_sender ! 0)) demo_packet) (IP4 9) 8))
    (transport (curr_keypair (peers demo_sender ! 0)) demo_packet) (IP4 66) 6))"
proof -
  have "get_peer_keypair_for_idx (peers demo_receiver ! 0)
      (le32_of (seg (transport (curr_keypair (peers demo_sender ! 0)) demo_packet) 4 4)) = Some Next"
    by (simp add: transport_fields demo_lookups)
  then show ?thesis
    by (rule first_packet_accepted_twice [OF _ _ demo_first_packet]) (simp_all add: demo_defs wireguard_expired_def)
qed


text \<open>Property C5. Nothing reaches the IP layer but what a peer sealed for a live session: a delivered packet is the contents, opened
  with the receiving key, of a datagram that names a valid key pair of a valid peer by its local index, a key pair less than 180
  seconds old whose window took the counter. The length the packet claims is within the packet. An IPv4
  packet's source lies in one of the peer's allowed networks; only an IPv6 packet passes without that check.\<close>

theorem rx_only_authenticated:
  assumes "wireguardif_network_rx x25519 env slack tp device data addr port = Some (device', events, tp')" "Ip_input d \<in> set events"
  shows "\<exists>i s. i < length (peers device) \<and> p_valid (peers device ! i) \<and>
    (let peer = peers device ! i; k = get_slot peer s; seq = U8TO64_LITTLE (seg data 8 8); mem = d @ slack in
     k_valid k \<and> k_local_index k = le32_of (seg data 4 4) \<and> unat (sys_now env - keypair_millis k) < 180000 \<and>
     takes_counter peer s seq \<and> wireguard_decrypt_packet (drop 16 data) seq k = Some d \<and> d \<noteq> [] \<and>
     unat (get16 mem 2) \<le> length d \<and>
     (drop_bit 4 (mem ! 0) = 6 \<or> drop_bit 4 (mem ! 0) = 4 \<and>
       (\<exists>a \<in> set (allowed_source_ips peer). a_valid a \<and>
          le32_of (seg mem 12 4) AND ip_2_ip4 (a_mask a) = ip_2_ip4 (a_ip a) AND ip_2_ip4 (a_mask a))))"
proof -
  obtain i where i: "peer_lookup_by_receiver device (le32_of (seg data 4 4)) = Some i"
    and m: "Ip_input d \<in> set (snd (wireguardif_process_data_message env slack (peers device ! i) data addr port))"
    by (rule network_rx_ip_input [OF assms])
  obtain s where s: "get_peer_keypair_for_idx (peers device ! i) (le32_of (seg data 4 4)) = Some s"
    "usable (sys_now env) (get_slot (peers device ! i) s)"
    "wireguard_decrypt_packet (drop 16 data) (U8TO64_LITTLE (seg data 8 8)) (get_slot (peers device ! i) s) = Some d" "d \<noteq> []"
    "takes_counter (peers device ! i) s (U8TO64_LITTLE (seg data 8 8))"
    "fst (source_check (peers device ! i) (d @ slack))" "unat (snd (source_check (peers device ! i) (d @ slack))) \<le> length d"
    using data_message_inv [OF m] by metis
  have v: "i < length (peers device)" "p_valid (peers device ! i)"
    using find_peer_Some [OF i [unfolded peer_lookup_by_receiver_def]] by simp_all
  have k: "k_local_index (get_slot (peers device ! i) s) = le32_of (seg data 4 4)"
    using s(1) by (auto simp: get_peer_keypair_for_idx_def split: if_splits)
  have u: "unat (sys_now env - keypair_millis (get_slot (peers device ! i) s)) < 180000"
    using s(2) by (simp add: usable_def wireguard_expired_def word_le_nat_alt)
  have c: "unat (get16 (d @ slack) 2) \<le> length d \<and> (drop_bit 4 ((d @ slack) ! 0) = 6 \<or> drop_bit 4 ((d @ slack) ! 0) = 4 \<and>
      (\<exists>a \<in> set (allowed_source_ips (peers device ! i)). a_valid a \<and>
        le32_of (seg (d @ slack) 12 4) AND ip_2_ip4 (a_mask a) = ip_2_ip4 (a_ip a) AND ip_2_ip4 (a_mask a)))"
    using s(6,7) by (auto simp: source_check_def Let_def list_ex_iff ip4_addr_netcmp_def split: if_splits)
  show ?thesis using v s k u c by (intro exI [of _ i] exI [of _ s]) (simp add: Let_def usable_def)
qed

theorem rx_only_authenticated_witness:
  "\<exists>i s. wireguard_decrypt_packet
       (drop 16 (transport (curr_keypair (peers demo_sender ! 0)) demo_packet))
       (U8TO64_LITTLE (seg (transport (curr_keypair (peers demo_sender ! 0)) demo_packet) 8 8))
       (get_slot (peers demo_receiver ! i) s) = Some demo_packet"
proof -
  let ?m = "transport (curr_keypair (peers demo_sender ! 0)) demo_packet"
  obtain d' ev where "wireguardif_network_rx toy_x25519 demo_env [] [] demo_receiver ?m (IP4 9) 8 = Some (d', ev, [])"
    "Ip_input demo_packet \<in> set ev"
    using network_rx_data [of ?m demo_receiver 0 toy_x25519 demo_env "[]" "[]" "IP4 9" 8] demo_first_packet
    by (auto simp: transport_fields demo_lookups split: prod.splits)
  from rx_only_authenticated [OF this] show ?thesis unfolding Let_def by blast
qed

text \<open>The link to a peer that is gone is never reported down: once the timer has destroyed the current key pair, a
  previous one, which no timer touches, keeps the peer up. However many timer runs follow, however long they
  last, whether or not handshakes are tried, no run takes the link down and the peer still counts as connected.\<close>

theorem stale_key_keeps_link_up:
  assumes "i < length (peers device)" "p_valid (peers device ! i)" "\<not> k_valid (curr_keypair (peers device ! i))"
    and "k_valid (prev_keypair (peers device ! i))" "d_valid device" "i < 255"
    and "tmr_run x25519 envs tp device = Some (device', events, tp')"
  shows "Link_down \<notin> set events \<and> fst (wireguardif_peer_is_up device' (of_nat i)) = ERR_OK"
proof -
  have "stale (peers device ! i)" using assms by (simp add: stale_def)
  from tmr_run_stale [OF assms(7) this assms(1)] have
    s: "stale (peers device' ! i)" "i < length (peers device')" "d_valid device'" "Link_down \<notin> set events" using assms(5) by auto
  have "unat (of_nat i :: u8) = i" using assms(6) by (simp add: unat_of_nat_u8)
  then show ?thesis using s
    by (auto simp: wireguardif_peer_is_up_def wireguardif_lookup_peer_def peer_lookup_by_peer_index_def stale_def Let_def)
qed

text \<open>An hour of timer runs: nothing is sent, the peer is still up.\<close>

definition demo_stale :: wireguard_device where
  "demo_stale = zero_device\<lparr>d_valid := True, peers := [demo_peer\<lparr>prev_keypair := demo_keypair True 5 7 1 2\<rparr>]\<rparr>"

theorem stale_key_keeps_link_up_witness:
  "\<exists>device' events tp'. tmr_run toy_x25519 [demo_env\<lparr>sys_now := 181000\<rparr>, demo_env\<lparr>sys_now := 3600000\<rparr>] [] demo_stale =
      Some (device', events, tp') \<and>
    Link_down \<notin> set events \<and> fst (wireguardif_peer_is_up device' 0) = ERR_OK"
proof -
  have t: "wireguardif_tmr toy_x25519 (demo_env\<lparr>sys_now := t\<rparr>) [] demo_stale = Some (demo_stale, [], [])" for t
    by (simp add: wireguardif_tmr_def tmr_peer_def should_reset_peer_def should_destroy_current_keypair_def
        should_send_keepalive_def should_send_initiation_def demo_stale_def demo_defs Let_def)
  then have "tmr_run toy_x25519 [demo_env\<lparr>sys_now := 181000\<rparr>, demo_env\<lparr>sys_now := 3600000\<rparr>] [] demo_stale = Some (demo_stale, [], [])"
    by simp
  from stale_key_keeps_link_up [OF _ _ _ _ _ _ this, of 0] this show ?thesis by (simp add: demo_stale_def demo_defs)
qed

end
