(* ===== verification/Wg.thy ===== *)
theory Wg
  imports Config Napt Wg_Tunnel
begin

text \<open>
  Tunnel management, \<^verbatim>\<open>src/wg.c\<close>: the platform layer of the WireGuard code (randomness, the
  handshake clock), the routing hook that isolates the clients, the exit-mode wrapper around the
  station's output, and the life of the tunnel from a configuration to a session.

  The module's static variables are the record \<open>wg_mod\<close>. The interfaces are the values of
  \<open>netif_id\<close>; their addresses, lwIP's list of them and the interface the current packet came in
  on are the record \<open>net_env\<close>. Addresses are 32-bit words in network byte order. The station
  interface passed to \<^verbatim>\<open>wg_apply\<close> is never \<^verbatim>\<open>NULL\<close>, as its one caller guarantees;
  the static pointer to it is \<^verbatim>\<open>NULL\<close> before the first call. Locking has no effect here, console output is left out.
\<close>

section \<open>State\<close>

datatype netif_id = N_usb | N_ap | N_wg | N_sta | N_blackhole

record net_env =
  if_addr :: "netif_id \<Rightarrow> u32"
  if_mask :: "netif_id \<Rightarrow> u32"
  netif_list :: "netif_id list"
  ap_active :: bool
  input_netif :: "netif_id option"

datatype wg_st = WG_UNCONFIGURED | WG_RESOLVING | WG_HANDSHAKING | WG_UP

record wg_mod =
  wg_nif :: wg_netif
  wg_netif_added :: bool
  wg_peer_idx :: u8
  sta_netif :: bool
  wgc :: wg_config
  wg_configured :: bool
  exit_on :: bool
  exit_lan_on :: bool
  sta_wrapped :: bool
  wg_state :: wg_st
  endpoint_addr :: ip_addr
  endpoint_resolved :: bool
  last_kick_ms :: u32
  last_resolve_ms :: u32
  netif_default :: netif_id
  wg_napt :: napt

section \<open>The platform layer\<close>

text \<open>\<^verbatim>\<open>get_rand_64\<close> is a list of draws; every draw gives eight bytes, the last one what is left.\<close>

fun random_bytes :: "u64 list \<Rightarrow> nat \<Rightarrow> (bytes \<times> u64 list) option" where
  "random_bytes rs sz =
     (if sz \<ge> 8 then
        case rs of [] \<Rightarrow> None
        | r # rs \<Rightarrow> map_option (\<lambda>(bs, rs). (U64TO8_LITTLE r @ bs, rs)) (random_bytes rs (sz - 8))
      else if sz \<noteq> 0 then
        case rs of [] \<Rightarrow> None | r # rs \<Rightarrow> Some (take sz (U64TO8_LITTLE r), rs)
      else Some ([], rs))"

declare random_bytes.simps [simp del]

definition curve_basepoint :: bytes where "curve_basepoint = 9 # replicate 31 0"

definition wg_keypair_generate :: "x25519_fun \<Rightarrow> u64 list \<Rightarrow> (bool \<times> bytes \<times> bytes \<times> u64 list) option" where
  "wg_keypair_generate x25519 rs =
     map_option (\<lambda>(priv, rs).
        let priv = priv[0 := priv ! 0 AND 248]; priv = priv[31 := (priv ! 31 AND 127) OR 64];
            (ok, pub) = x25519 priv curve_basepoint
        in (ok, pub, priv, rs)) (random_bytes rs 32)"

definition wg_public_from_private :: "x25519_fun \<Rightarrow> bytes \<Rightarrow> bool \<times> bytes" where
  "wg_public_from_private x25519 priv = x25519 priv curve_basepoint"

definition wg_active_netif :: "wg_mod \<Rightarrow> netif_id option" where
  "wg_active_netif m = (if wg_netif_added m then Some N_wg else None)"

definition wg_path_mtu :: "wg_mod \<Rightarrow> u16" where
  "wg_path_mtu m = (if wg_netif_added m then n_mtu (wg_nif m) else 0)"

definition BOOTCOUNT_MAGIC :: u32 where "BOOTCOUNT_MAGIC = 0x43424757"

definition bootcount_flash_write :: "flash_driver \<Rightarrow> u32 \<Rightarrow> bytes \<Rightarrow> bytes" where
  "bootcount_flash_write F boot_count sector =
     flash_range_program F (flash_range_erase F sector) (le32_bytes BOOTCOUNT_MAGIC @ le32_bytes boot_count)"

text \<open>The boot counter of this boot and the flash sector after it; a failed write is only reported.\<close>

definition wg_time_init :: "flash_driver \<Rightarrow> bytes \<Rightarrow> u32 \<times> bytes" where
  "wg_time_init F flash =
     (let boot_count = (if le32_of (seg flash 0 4) = BOOTCOUNT_MAGIC then le32_of (seg flash 4 4) + 1 else 1)
      in (boot_count, snd (flash_safe_execute F (bootcount_flash_write F boot_count) flash)))"

definition wireguard_tai64n_now :: "u32 \<Rightarrow> u32 \<Rightarrow> bytes" where
  "wireguard_tai64n_now boot_count now =
     (let millis = ucast now :: u64;
          seconds = 0x400000000000000a + push_bit 25 (ucast boot_count) + millis div 1000;
          nanos = (ucast (millis mod 1000) :: u32) * 1000000
      in U64TO8_BIG seconds @ U32TO8_BIG nanos)"

section \<open>The route hook\<close>

definition in_usb_subnet :: "net_env \<Rightarrow> u32 \<Rightarrow> bool" where
  "in_usb_subnet e a \<longleftrightarrow> if_addr e N_usb \<noteq> 0 \<and> ip4_addr_netcmp a (if_addr e N_usb) (if_mask e N_usb)"

definition in_ap_subnet :: "net_env \<Rightarrow> u32 \<Rightarrow> bool" where
  "in_ap_subnet e a \<longleftrightarrow> ap_active e \<and> if_addr e N_ap \<noteq> 0 \<and> ip4_addr_netcmp a (if_addr e N_ap) (if_mask e N_ap)"

definition dest_is_local_scope :: "net_env \<Rightarrow> wg_mod \<Rightarrow> u32 \<Rightarrow> bool" where
  "dest_is_local_scope e m d \<longleftrightarrow>
     (let h = bswap32 d in
      drop_bit 24 h = 10 \<or> drop_bit 24 h = 127 \<or> h AND 0xFFF00000 = 0xAC100000 \<or> h AND 0xFFFF0000 = 0xC0A80000 \<or>
      h AND 0xFFFF0000 = 0xA9FE0000 \<or> h AND 0xFFC00000 = 0x64400000 \<or>
      sta_netif m \<and> if_addr e N_sta \<noteq> 0 \<and> ip4_addr_netcmp d (if_addr e N_sta) (if_mask e N_sta))"

definition is_own_addr :: "net_env \<Rightarrow> u32 \<Rightarrow> bool" where
  "is_own_addr e a \<longleftrightarrow> list_ex (\<lambda>n. if_addr e n \<noteq> 0 \<and> a = if_addr e n) (netif_list e)"

text \<open>\<open>None\<close> leaves the packet to lwIP's normal routing.\<close>

definition wg_ip4_route_hook :: "net_env \<Rightarrow> wg_mod \<Rightarrow> u32 option \<Rightarrow> u32 \<Rightarrow> netif_id option" where
  "wg_ip4_route_hook e m src dest =
     (case src of None \<Rightarrow> None
      | Some src \<Rightarrow>
          if src = 0 \<or> is_own_addr e src then None
          else if in_usb_subnet e dest then Some (if in_ap_subnet e src then N_blackhole else N_usb)
          else if in_ap_subnet e dest then Some (if in_usb_subnet e src then N_blackhole else N_ap)
          else if exit_on m \<and> wg_netif_added m \<and> input_netif e = Some N_wg then
            if \<not> exit_lan_on m \<and> dest_is_local_scope e m dest then Some N_blackhole
            else Some (if sta_netif m then N_sta else N_blackhole)
          else if wg_netif_added m then Some N_wg
          else Some N_blackhole)"

section \<open>Exit mode at the station's edge\<close>

text \<open>What reaches the driver's output function: nothing, or the packet as it then is.\<close>

definition exit_sta_output :: "net_env \<Rightarrow> u32 \<Rightarrow> wg_mod \<Rightarrow> bytes option \<Rightarrow> wg_mod \<times> bytes option option" where
  "exit_sta_output e now m p =
     (case p of
        Some b \<Rightarrow>
          if exit_on m \<and> length b \<ge> 20 \<and> drop_bit 4 (b ! 0) = 4 then
            let src = le32_of (seg b 12 4) in
            if src \<noteq> 0 \<and> \<not> is_own_addr e src then
              let (ok, n, b') = napt_outbound (wg_napt m) b now; m = m\<lparr>wg_napt := n\<rparr>
              in if ok then (m, Some (Some b')) else (m, None)
            else (m, Some p)
          else (m, Some p)
      | None \<Rightarrow> (m, Some None))"

definition wg_ip4_input_hook :: "u32 \<Rightarrow> netif_id \<Rightarrow> wg_mod \<Rightarrow> bytes option \<Rightarrow> wg_mod \<times> bytes option" where
  "wg_ip4_input_hook now inp m p =
     (case p of
        Some b \<Rightarrow>
          if exit_on m \<and> sta_netif m \<and> inp = N_sta then
            let (_, n, b') = napt_inbound (wg_napt m) b now in (m\<lparr>wg_napt := n\<rparr>, Some b')
          else (m, p)
      | None \<Rightarrow> (m, p))"

definition wg_exit_active :: "wg_mod \<Rightarrow> bool" where
  "wg_exit_active m = exit_on m"

section \<open>The life of the tunnel\<close>

definition with_device :: "wg_netif \<Rightarrow> (wireguard_device \<Rightarrow> 'a \<times> wireguard_device) \<Rightarrow> wg_netif" where
  "with_device n f = n\<lparr>n_state := map_option (\<lambda>d. snd (f d)) (n_state n)\<rparr>"

definition wg_teardown :: "wg_mod \<Rightarrow> wg_mod" where
  "wg_teardown m =
     (let m = (if wg_netif_added m then
                 let m = (if netif_default m = N_wg then m\<lparr>netif_default := N_sta\<rparr> else m);
                     m = (if wg_peer_idx m \<noteq> WIREGUARDIF_INVALID_INDEX then
                            let n = with_device (wg_nif m) (\<lambda>d. wireguardif_disconnect d (wg_peer_idx m));
                                n = with_device n (\<lambda>d. wireguardif_remove_peer d (wg_peer_idx m))
                            in m\<lparr>wg_nif := n, wg_peer_idx := WIREGUARDIF_INVALID_INDEX\<rparr>
                          else m)
                 in m\<lparr>wg_nif := wireguardif_shutdown (wg_nif m), wg_netif_added := False\<rparr>
               else m)
      in m\<lparr>wg_state := WG_UNCONFIGURED, endpoint_resolved := False, exit_on := False, exit_lan_on := False,
           wg_napt := napt_reset (wg_napt m)\<rparr>)"

definition wg_add_peer_and_connect :: "x25519_fun \<Rightarrow> u32 \<Rightarrow> wg_mod \<Rightarrow> wg_mod" where
  "wg_add_peer_and_connect x25519 now m =
     (let w = wgc m;
          key = (if c_str (psk w) \<noteq> [] then
                   let (ok, k, n) = wireguard_base64_decode (Some (ascii (c_str (psk w)))) 32
                   in if ok \<and> n = 32 then Some k else None
                 else None);
          peer = wireguardif_peer_init\<lparr>wp_public_key := Some (ascii (c_str (peer_public w))), wp_preshared_key := key,
                   wp_allowed_ip := IP4 0, wp_allowed_mask := IP4 0, wp_endpoint_ip := endpoint_addr m,
                   wp_endport_port := endpoint_port w\<rparr>;
          peer = (if keepalive w \<noteq> 0 then peer\<lparr>wp_keep_alive := keepalive w\<rparr> else peer)
      in (case n_state (wg_nif m) of None \<Rightarrow> m
          | Some d \<Rightarrow>
              let (err, idx, d) = wireguardif_add_peer x25519 d peer;
                  m = m\<lparr>wg_nif := (wg_nif m)\<lparr>n_state := Some d\<rparr>, wg_peer_idx := idx\<rparr>
              in if err = ERR_OK \<and> idx \<noteq> WIREGUARDIF_INVALID_INDEX
                 then m\<lparr>wg_nif := with_device (wg_nif m) (\<lambda>d. wireguardif_connect d idx), wg_state := WG_HANDSHAKING\<rparr>
                 else m\<lparr>wg_state := WG_UNCONFIGURED\<rparr>)\<lparr>last_kick_ms := now\<rparr>)"

definition dns_resolved_cb :: "ip_addr option \<Rightarrow> wg_mod \<Rightarrow> wg_mod" where
  "dns_resolved_cb ipaddr m =
     (case ipaddr of Some a \<Rightarrow> m\<lparr>endpoint_addr := a, endpoint_resolved := True\<rparr> | None \<Rightarrow> m)"

definition tunnel_mtu :: "wg_config \<Rightarrow> u16" where
  "tunnel_mtu w = (if host_mtu w \<noteq> 0 \<and> host_mtu w < WIREGUARDIF_MTU then host_mtu w else WIREGUARDIF_MTU)"

text \<open>\<open>aton\<close> is lwIP's \<^verbatim>\<open>ip4addr_aton\<close>, \<open>sta_addr\<close> the station's current address. \<^verbatim>\<open>netif_add\<close> calls
  the interface's initialiser and fails when it does.\<close>

definition wg_settings :: "(string \<Rightarrow> u32 option) \<Rightarrow> u32 \<Rightarrow> wg_config \<Rightarrow> wg_mod \<Rightarrow> wg_mod" where
  "wg_settings aton sta_addr w m =
     (let m = m\<lparr>wgc := w\<rparr>;
          m = (if exit_enabled w \<noteq> 0 then
                 m\<lparr>exit_lan_on := (exit_lan w \<noteq> 0), exit_on := True,
                   wg_napt := napt_set_ext_ip sta_addr (napt_set_mss_clamp (tunnel_mtu w - 40) (wg_napt m))\<rparr>
               else m)
      in case aton (c_str (endpoint w)) of
           Some lit \<Rightarrow> m\<lparr>endpoint_addr := IP4 lit, endpoint_resolved := True\<rparr> | None \<Rightarrow> m)"

definition wg_apply ::
  "(string \<Rightarrow> u32 option) \<Rightarrow> x25519_fun \<Rightarrow> u32 \<Rightarrow> wg_setup \<Rightarrow> u32 \<Rightarrow> config \<Rightarrow> tape \<Rightarrow> wg_mod \<Rightarrow> (wg_mod \<times> tape) option" where
  "wg_apply aton x25519 now lwip sta_addr cfg tp m =
     (let m = wg_teardown (m\<lparr>sta_netif := True\<rparr>);
          m = m\<lparr>sta_wrapped := True, wg_configured := config_wg_complete cfg\<rparr> in
      if \<not> wg_configured m then Some (m, tp)
      else
        let w = wg cfg; m = wg_settings aton sta_addr w m
        in map_option (\<lambda>(err, n, tp).
             (if err = ERR_OK then
                m\<lparr>wg_nif := (if host_mtu w \<noteq> 0 \<and> host_mtu w < n_mtu n then n\<lparr>n_mtu := host_mtu w\<rparr> else n),
                  wg_netif_added := True, wg_state := WG_RESOLVING\<rparr>
              else m\<lparr>wg_nif := n\<rparr>, tp))
           (wireguardif_init x25519 now lwip tp (wg_nif m)
              (Some (Some (ascii (c_str (private_key w))), WIREGUARDIF_DEFAULT_PORT, True))))"

definition peer_up :: "wg_mod \<Rightarrow> bool" where
  "peer_up m \<longleftrightarrow> wg_peer_idx m \<noteq> WIREGUARDIF_INVALID_INDEX \<and>
     (case n_state (wg_nif m) of None \<Rightarrow> False
      | Some d \<Rightarrow> fst (wireguardif_peer_is_up d (wg_peer_idx m)) = ERR_OK)"

definition wg_connect :: "wg_mod \<Rightarrow> wg_mod" where
  "wg_connect m = m\<lparr>wg_nif := with_device (wg_nif m) (\<lambda>d. wireguardif_connect d (wg_peer_idx m))\<rparr>"

definition wg_resolve :: "u32 \<Rightarrow> (string \<Rightarrow> err \<times> ip_addr) \<Rightarrow> wg_mod \<Rightarrow> wg_mod" where
  "wg_resolve now dns m =
     (if \<not> endpoint_resolved m then
        if now - last_resolve_ms m \<ge> 15000 \<or> last_resolve_ms m = 0 then
          let (err, out) = dns (c_str (endpoint (wgc m))); m = m\<lparr>last_resolve_ms := now\<rparr>
          in if err = ERR_OK then m\<lparr>endpoint_addr := out, endpoint_resolved := True\<rparr> else m
        else m
      else m)"

definition wg_monitor :: "u32 \<Rightarrow> wg_mod \<Rightarrow> wg_mod" where
  "wg_monitor now m =
     (if peer_up m \<and> wg_state m \<noteq> WG_UP then m\<lparr>wg_state := WG_UP, netif_default := N_wg\<rparr>
      else if \<not> peer_up m \<and> wg_state m = WG_UP then
        wg_connect (m\<lparr>wg_state := WG_HANDSHAKING, netif_default := N_sta, last_kick_ms := now\<rparr>)
      else if \<not> peer_up m \<and> now - last_kick_ms m \<ge> 10000 then wg_connect (m\<lparr>last_kick_ms := now\<rparr>)
      else m)"

text \<open>\<open>sta_link\<close> is the station's link state, \<open>dns\<close> what \<^verbatim>\<open>dns_gethostbyname\<close> answers at once.\<close>

definition wg_poll ::
  "x25519_fun \<Rightarrow> u32 \<Rightarrow> bool \<Rightarrow> u32 \<Rightarrow> (string \<Rightarrow> err \<times> ip_addr) \<Rightarrow> wg_mod \<Rightarrow> wg_mod" where
  "wg_poll x25519 now sta_link sta_addr dns m =
     (if \<not> wg_configured m \<or> \<not> wg_netif_added m then m
      else if \<not> sta_netif m \<or> \<not> sta_link then m
      else
        let m = (if exit_on m then m\<lparr>wg_napt := napt_set_ext_ip sta_addr (wg_napt m)\<rparr> else m) in
        if wg_state m = WG_RESOLVING then
          let m = wg_resolve now dns m
          in if endpoint_resolved m then wg_add_peer_and_connect x25519 now m else m
        else wg_monitor now m)"

definition wg_session_up :: "wg_mod \<Rightarrow> bool" where
  "wg_session_up m \<longleftrightarrow> wg_state m = WG_UP"

definition wg_state_str :: "wg_mod \<Rightarrow> string" where
  "wg_state_str m =
     (case wg_state m of
        WG_RESOLVING \<Rightarrow> if endpoint_resolved m then ''starting'' else ''resolving''
      | WG_HANDSHAKING \<Rightarrow> ''handshaking''
      | WG_UP \<Rightarrow> ''up''
      | WG_UNCONFIGURED \<Rightarrow> ''unconfigured'')"


section \<open>The handshake clock\<close>

text \<open>Comparing byte strings of one length is comparing the numbers they spell.\<close>

definition be_val :: "bytes \<Rightarrow> nat" where
  "be_val bs = foldl (\<lambda>a b. 256 * a + unat b) 0 bs"

lemma foldl_be_val: "foldl (\<lambda>a b. 256 * a + unat b) n bs = n * 256 ^ length bs + be_val bs"
proof (induction bs rule: rev_induct)
  case (snoc b bs)
  then show ?case by (simp add: be_val_def algebra_simps)
qed (simp add: be_val_def)

lemma be_val_Cons: "be_val (b # bs) = unat b * 256 ^ length bs + be_val bs"
  using foldl_be_val [of "unat b" bs] by (simp add: be_val_def)

lemma be_val_append: "be_val (xs @ ys) = be_val xs * 256 ^ length ys + be_val ys"
  using foldl_be_val [of "be_val xs" ys] by (simp add: be_val_def)

lemma be_val_bound: "be_val bs < 256 ^ length bs"
proof (induction bs)
  case (Cons b bs)
  have "unat b * 256 ^ length bs \<le> 255 * 256 ^ length bs" by (intro mult_right_mono) simp_all
  then have "unat b * 256 ^ length bs + be_val bs < 256 * 256 ^ length bs" using Cons by linarith
  then show ?case by (simp add: be_val_Cons)
qed (simp add: be_val_def)

lemma memcmp_be_val: "length xs = length ys \<Longrightarrow> memcmp xs ys > 0 \<longleftrightarrow> be_val xs > be_val ys"
proof (induction xs ys rule: list_induct2)
  case (Cons x xs y ys)
  have step: "be_val (a # as) < be_val (b # bs)" if "unat a < unat b" "length as = length bs" for a b as bs
  proof -
    have "(unat a + 1) * 256 ^ length as \<le> unat b * 256 ^ length as" using that by (intro mult_right_mono) simp_all
    then show ?thesis using be_val_bound [of as] that by (simp add: be_val_Cons)
  qed
  consider "unat x < unat y" | "unat y < unat x" | "x = y" by (metis linorder_neqE_nat word_unat_eq_iff)
  then show ?case
  proof cases
    case 1
    then have "x < y" by (simp add: word_less_nat_alt)
    then show ?thesis using step [OF 1 Cons.hyps] by simp
  next
    case 2
    then have "y < x" "\<not> x < y" by (simp_all add: word_less_nat_alt)
    then show ?thesis using step [OF 2] Cons.hyps by simp
  next
    case 3
    then show ?thesis using Cons by (simp add: be_val_Cons)
  qed
qed simp

lemma unat_byte: "unat (ucast (drop_bit n (v :: 'a::len word)) :: u8) = unat v div 2 ^ n mod 256"
  by (simp only: unsigned_ucast_eq unsigned_drop_bit_eq) (simp add: drop_bit_eq_div take_bit_eq_mod)


lemma be_val_bytes: "be_val (map (\<lambda>i. ucast (drop_bit (8 * i) (v :: 'a::len word))) (rev [0 ..< n])) = unat v mod 256 ^ n"
proof (induction n)
  case (Suc n)
  have p: "(2 :: nat) ^ (8 * n) = 256 ^ n" by (simp add: power_mult)
  have "unat v mod (256 * 256 ^ n) = unat v div 256 ^ n mod 256 * 256 ^ n + unat v mod 256 ^ n"
    using mod_mult2_eq [of "unat v" "256 ^ n" 256] by (simp only: mult.commute)
  then show ?case using Suc by (simp add: be_val_Cons unat_byte p)
qed (simp add: be_val_def)

lemma be_val_U64: "be_val (U64TO8_BIG v) = unat v"
  and be_val_U32: "be_val (U32TO8_BIG w) = unat w"
proof -
  have "be_val (map (\<lambda>i. ucast (drop_bit (8 * i) v)) [7, 6, 5, 4, 3, 2, 1, 0]) = unat v mod 256 ^ 8"
    "be_val (map (\<lambda>i. ucast (drop_bit (8 * i) w)) [3, 2, 1, 0]) = unat w mod 256 ^ 4"
    using be_val_bytes [of v 8] be_val_bytes [of w 4] by (simp_all add: upt_rec)
  moreover have "unat v < 256 ^ 8" "unat w < 256 ^ 4" using unsigned_less [of v] by simp_all
  ultimately show "be_val (U64TO8_BIG v) = unat v" "be_val (U32TO8_BIG w) = unat w"
    unfolding U64TO8_BIG_def U32TO8_BIG_def by (simp_all only: mod_less)
qed

lemma tai64n_val:
  "be_val (wireguard_tai64n_now b t) =
     (0x400000000000000a + unat b * 2 ^ 25 + unat t div 1000) * 2 ^ 32 + unat t mod 1000 * 1000000"
proof -
  let ?s = "0x400000000000000a + push_bit 25 (ucast b) + ucast t div 1000 :: u64"
  have b: "unat b < 2 ^ 32" "unat t < 2 ^ 32" using unat_u32_less [of b] unat_u32_less [of t] by (simp_all del: unat_u32_less)
  have u: "unat (ucast b :: u64) = unat b" "unat (ucast t :: u64) = unat t"
    using b by (simp_all add: unsigned_ucast_eq take_bit_nat_eq_self)
  have b25: "unat b * 33554432 < 18446744073709551616" using unat_u32_less [of b] by linarith
  have "unat (push_bit 25 (ucast b) :: u64) = unat b * 2 ^ 25"
    by (simp only: unsigned_push_bit_eq u) (simp add: push_bit_eq_mult take_bit_eq_mod b25)
  moreover have "unat (ucast t div 1000 :: u64) = unat t div 1000" by (simp add: unat_div u)
  moreover have "unat t < 2 ^ 23 * 1000" using unat_u32_less [of t] by (simp del: unat_u32_less)
  then have "unat t div 1000 < 2 ^ 23" by (rule less_mult_imp_div_less)
  then have "4611686018427387914 + unat b * 33554432 + unat t div 1000 < 18446744073709551616"
    using unat_u32_less [of b] by (simp del: unat_u32_less)
  ultimately have s: "unat ?s = 0x400000000000000a + unat b * 2 ^ 25 + unat t div 1000"
    by (simp add: unat_word_ariths)
  have "unat (ucast t mod 1000 :: u64) = unat t mod 1000" by (simp add: unat_mod u)
  then have "unat (ucast (ucast t mod 1000 :: u64) :: u32) = unat t mod 1000"
    using b(2) by (simp add: unsigned_ucast_eq take_bit_nat_eq_self)
  moreover have "unat t mod 1000 < 1000" by simp
  ultimately have n: "unat ((ucast (ucast t mod 1000 :: u64) :: u32) * 1000000) = unat t mod 1000 * 1000000"
    by (simp only: unat_word_ariths) (simp add: take_bit_eq_mod)
  show ?thesis
    by (simp add: wireguard_tai64n_now_def Let_def be_val_append be_val_U64 be_val_U32 s n del: unat_u32_less)
qed

lemma lex_less:
  fixes x x' :: nat
  assumes "y < B" "y' < B"
  shows "x' * B + y' < x * B + y \<longleftrightarrow> x' < x \<or> x' = x \<and> y' < y"
proof -
  have less: "a' * B + z' < a * B + z" if "a' < a" "z' < B" for a a' z z' :: nat
  proof -
    have "(a' + 1) * B \<le> a * B" using that(1) by (intro mult_right_mono) simp_all
    then show ?thesis using that(2) by simp
  qed
  consider "x' < x" | "x < x'" | "x = x'" by linarith
  then show ?thesis using less [of x' x y' y] less [of x x' y y'] assms by cases auto
qed

lemma tai64n_less:
  "be_val (wireguard_tai64n_now b' t') < be_val (wireguard_tai64n_now b t) \<longleftrightarrow> b' < b \<or> b' = b \<and> t' < t"
proof -
  have small: "unat t mod 1000 * 1000000 < 2 ^ 32" for t :: u32
  proof -
    have "unat t mod 1000 < 1000" by simp
    then show ?thesis by simp
  qed
  have d: "unat t div 1000 < 2 ^ 25" for t :: u32
    using unat_u32_less [of t] by (simp add: less_mult_imp_div_less del: unat_u32_less)
  have "unat t' < unat t \<longleftrightarrow> unat t' div 1000 < unat t div 1000 \<or> unat t' div 1000 = unat t div 1000 \<and> unat t' mod 1000 < unat t mod 1000"
    using lex_less [of "unat t mod 1000" 1000 "unat t' mod 1000" "unat t' div 1000" "unat t div 1000"] by simp
  moreover have "unat b' * 2 ^ 25 + unat t' div 1000 < unat b * 2 ^ 25 + unat t div 1000 \<longleftrightarrow>
      unat b' < unat b \<or> unat b' = unat b \<and> unat t' div 1000 < unat t div 1000"
    by (rule lex_less [OF d d])
  moreover have "unat b' * 2 ^ 25 + unat t' div 1000 = unat b * 2 ^ 25 + unat t div 1000 \<longleftrightarrow>
      unat b' = unat b \<and> unat t' div 1000 = unat t div 1000"
    using lex_less [OF d [of t] d [of t'], of "unat b'" "unat b"] lex_less [OF d [of t'] d [of t], of "unat b" "unat b'"] by linarith
  ultimately show ?thesis
    unfolding tai64n_val lex_less [OF small small] word_less_nat_alt by (auto simp: word_unat_eq_iff)
qed


section \<open>What leaves over the radio\<close>

lemma outbound_source:
  assumes "napt_wf n" "napt_outbound n p now = (True, n', p')"
  shows "seg p' 12 4 = g_ext n"
proof -
  have l: "length (table n) = 512" and g: "length (g_ext n) = 4" using assms(1) by (auto simp: napt_wf_def)
  from assms(2) l show ?thesis
  proof (rule napt_outbound_True)
    fix l4 proto i
    let ?nat = "of_nat (NAPT_PORT_BASE + i) :: u16"
    assume "parse p = Some (l4, proto)"
      and "p' = rewrite_port n l4 proto (keyfield l4 proto True) [hi8 ?nat, lo8 ?nat] (rewrite_addr l4 proto 12 (g_ext n) p)"
    then show ?thesis using rewrite_spec [of p l4 proto 12 "g_ext n" "[hi8 ?nat, lo8 ?nat]" "keyfield l4 proto True" True n] g by simp
  qed
qed

section \<open>Reachable states\<close>

definition wg_boot :: "wg_netif \<Rightarrow> napt \<Rightarrow> wg_config \<Rightarrow> wg_mod" where
  "wg_boot n t w = \<lparr>wg_nif = n\<lparr>n_state := None\<rparr>, wg_netif_added = False, wg_peer_idx = WIREGUARDIF_INVALID_INDEX,
     sta_netif = False, wgc = w, wg_configured = False, exit_on = False, exit_lan_on = False, sta_wrapped = False,
     wg_state = WG_UNCONFIGURED, endpoint_addr = IP4 0, endpoint_resolved = False, last_kick_ms = 0, last_resolve_ms = 0,
     netif_default = N_sta, wg_napt = t\<rparr>"

text \<open>One call of the module, or a step of the interface below it (\<open>Device\<close>: a datagram, a timer run, a
  packet sent), or a packet translated at the station's edge.\<close>

inductive wg_step :: "wg_mod \<Rightarrow> wg_mod \<Rightarrow> bool" where
  Apply: "wg_apply aton x25519 now lwip sta_addr cfg tp m = Some (m', tp') \<Longrightarrow> wg_step m m'"
| Poll: "wg_step m (wg_poll x25519 now sta_link sta_addr dns m)"
| Dns: "wg_step m (dns_resolved_cb ipaddr m)"
| Device: "n_state (wg_nif m) = Some d \<Longrightarrow> wg_step m (m\<lparr>wg_nif := (wg_nif m)\<lparr>n_state := Some d'\<rparr>\<rparr>)"
| Sta_output: "wg_step m (fst (exit_sta_output e now m p))"
| Input_hook: "wg_step m (fst (wg_ip4_input_hook now inp m p))"

inductive wg_reachable :: "wg_mod \<Rightarrow> bool" where
  Boot: "wg_reachable (wg_boot n napt_boot w)"
| Step: "wg_reachable m \<Longrightarrow> wg_step m m' \<Longrightarrow> wg_reachable m'"

inductive_cases wg_stepE: "wg_step m m'"

definition wg_inv :: "wg_mod \<Rightarrow> bool" where
  "wg_inv m \<longleftrightarrow>
     (wg_netif_added m \<longleftrightarrow> n_state (wg_nif m) \<noteq> None) \<and>
     (wg_netif_added m \<longrightarrow> wg_configured m \<and> n_mtu (wg_nif m) = tunnel_mtu (wgc m)) \<and>
     (\<not> wg_netif_added m \<longrightarrow> wg_state m = WG_UNCONFIGURED \<and> wg_peer_idx m = WIREGUARDIF_INVALID_INDEX) \<and>
     (netif_default m = N_wg \<longleftrightarrow> wg_state m = WG_UP) \<and>
     (wg_state m = WG_RESOLVING \<longrightarrow> wg_peer_idx m = WIREGUARDIF_INVALID_INDEX) \<and>
     (wg_state m = WG_UP \<longrightarrow> wg_peer_idx m \<noteq> WIREGUARDIF_INVALID_INDEX) \<and>
     (exit_on m \<longrightarrow> wg_configured m \<and> exit_enabled (wgc m) \<noteq> 0 \<and> sta_netif m) \<and>
     (exit_lan_on m \<longrightarrow> exit_on m \<and> exit_lan (wgc m) \<noteq> 0) \<and>
     napt_wf (wg_napt m)"


lemma napt_wf_ops [simp]:
  "napt_wf n \<Longrightarrow> napt_wf (napt_reset n)" "napt_wf n \<Longrightarrow> napt_wf (napt_set_ext_ip a n)"
  "napt_wf n \<Longrightarrow> napt_wf (napt_set_mss_clamp k n)" "napt_wf napt_boot"
  by (simp_all add: napt_wf_def napt_reset_def napt_set_ext_ip_def napt_set_mss_clamp_def napt_boot_def free_entry_def
      list_all_iff)

lemma with_device_fields [simp]:
  "n_mtu (with_device n f) = n_mtu n" "n_state (with_device n f) = None \<longleftrightarrow> n_state n = None"
  by (simp_all add: with_device_def)

lemma teardown_down:
  assumes "wg_inv m"
  shows "wg_inv (wg_teardown m)" "\<not> wg_netif_added (wg_teardown m)" "\<not> exit_on (wg_teardown m)"
  using assms
  by (auto simp: wg_teardown_def wg_inv_def Let_def wireguardif_shutdown_def with_device_def split: option.splits)

lemma init_state:
  assumes "wireguardif_init x25519 now lwip tp n (Some d) = Some (err, n', tp')"
  shows "if err = ERR_OK then n_state n' \<noteq> None \<and> n_mtu n' = WIREGUARDIF_MTU else n_state n' = None"
  using assms by (auto simp: wireguardif_init_def Let_def split: prod.splits if_splits)

lemma settings_fields [simp]:
  "wg_nif (wg_settings aton sta_addr w m) = wg_nif m" "wg_netif_added (wg_settings aton sta_addr w m) = wg_netif_added m"
  "wg_peer_idx (wg_settings aton sta_addr w m) = wg_peer_idx m" "sta_netif (wg_settings aton sta_addr w m) = sta_netif m"
  "wg_configured (wg_settings aton sta_addr w m) = wg_configured m" "wg_state (wg_settings aton sta_addr w m) = wg_state m"
  "netif_default (wg_settings aton sta_addr w m) = netif_default m" "wgc (wg_settings aton sta_addr w m) = w"
  "exit_on (wg_settings aton sta_addr w m) \<longleftrightarrow> exit_enabled w \<noteq> 0 \<or> exit_on m"
  "exit_lan_on (wg_settings aton sta_addr w m) \<longleftrightarrow> (if exit_enabled w \<noteq> 0 then exit_lan w \<noteq> 0 else exit_lan_on m)"
  "napt_wf (wg_napt m) \<Longrightarrow> napt_wf (wg_napt (wg_settings aton sta_addr w m))"
  by (auto simp: wg_settings_def Let_def split: option.splits)

lemma apply_inv:
  assumes "wg_inv m" "wg_apply aton x25519 now lwip sta_addr cfg tp m = Some (m', tp')"
  shows "wg_inv m'"
proof -
  define m0 where "m0 = (wg_teardown (m\<lparr>sta_netif := True\<rparr>))\<lparr>sta_wrapped := True, wg_configured := config_wg_complete cfg\<rparr>"
  have i: "wg_inv (m\<lparr>sta_netif := True\<rparr>)" using assms(1) by (auto simp: wg_inv_def)
  have "wg_inv m0" "\<not> wg_netif_added m0" "\<not> exit_on m0" using teardown_down [OF i] by (auto simp: wg_inv_def m0_def)
  moreover have "sta_netif m0" by (simp add: m0_def wg_teardown_def Let_def)
  moreover have c: "wg_configured m0 = config_wg_complete cfg" by (simp add: m0_def)
  moreover have "m' = m0 \<or> config_wg_complete cfg \<and> (\<exists>err n. wireguardif_init x25519 now lwip tp (wg_nif m0)
        (Some (Some (ascii (c_str (private_key (wg cfg)))), WIREGUARDIF_DEFAULT_PORT, True)) = Some (err, n, tp') \<and>
      m' = (let w = wg cfg; m = wg_settings aton sta_addr w m0 in
        if err = ERR_OK then
          m\<lparr>wg_nif := (if host_mtu w \<noteq> 0 \<and> host_mtu w < n_mtu n then n\<lparr>n_mtu := host_mtu w\<rparr> else n),
            wg_netif_added := True, wg_state := WG_RESOLVING\<rparr>
        else m\<lparr>wg_nif := n\<rparr>))"
  proof (cases "wg_configured m0")
    case False
    then show ?thesis using assms(2) unfolding wg_apply_def Let_def m0_def [symmetric] by simp
  next
    case True
    then obtain x where "wireguardif_init x25519 now lwip tp (wg_nif (wg_settings aton sta_addr (wg cfg) m0))
        (Some (Some (ascii (c_str (private_key (wg cfg)))), WIREGUARDIF_DEFAULT_PORT, True)) = Some x"
      "(case x of (err, n, tp) \<Rightarrow> (let w = wg cfg; m = wg_settings aton sta_addr w m0 in
        if err = ERR_OK then
          m\<lparr>wg_nif := (if host_mtu w \<noteq> 0 \<and> host_mtu w < n_mtu n then n\<lparr>n_mtu := host_mtu w\<rparr> else n),
            wg_netif_added := True, wg_state := WG_RESOLVING\<rparr>
        else m\<lparr>wg_nif := n\<rparr>, tp)) = (m', tp')"
      using assms(2) unfolding wg_apply_def Let_def m0_def [symmetric]
      by (simp only: map_option_eq_Some if_False simp_thms) blast
    then show ?thesis using True c by (cases x) simp
  qed
  ultimately consider "wg_inv m'" | err n where "wg_configured m0" "sta_netif m0" "wg_inv m0" "\<not> wg_netif_added m0" "\<not> exit_on m0"
      "wireguardif_init x25519 now lwip tp (wg_nif m0)
        (Some (Some (ascii (c_str (private_key (wg cfg)))), WIREGUARDIF_DEFAULT_PORT, True)) = Some (err, n, tp')"
      "m' = (let w = wg cfg; m = wg_settings aton sta_addr w m0 in
        if err = ERR_OK then
          m\<lparr>wg_nif := (if host_mtu w \<noteq> 0 \<and> host_mtu w < n_mtu n then n\<lparr>n_mtu := host_mtu w\<rparr> else n),
            wg_netif_added := True, wg_state := WG_RESOLVING\<rparr>
        else m\<lparr>wg_nif := n\<rparr>)" by metis
  then show ?thesis
  proof cases
    case (2 err n)
    then show ?thesis using init_state [OF 2(6)] unfolding wg_inv_def Let_def by (cases "err = ERR_OK") (auto simp: tunnel_mtu_def)
  qed
qed

lemma add_peer_shape:
  assumes "n_state (wg_nif m) = Some d"
  obtains n idx st where "wg_add_peer_and_connect x25519 now m =
      m\<lparr>wg_nif := n, wg_peer_idx := idx, wg_state := st, last_kick_ms := now\<rparr>"
    "n_mtu n = n_mtu (wg_nif m)" "n_state n \<noteq> None" "st = WG_HANDSHAKING \<or> st = WG_UNCONFIGURED"
proof -
  have "\<exists>p. wg_add_peer_and_connect x25519 now m =
     (let (err, idx, d) = wireguardif_add_peer x25519 d p;
          m = m\<lparr>wg_nif := (wg_nif m)\<lparr>n_state := Some d\<rparr>, wg_peer_idx := idx\<rparr>
      in if err = ERR_OK \<and> idx \<noteq> WIREGUARDIF_INVALID_INDEX
         then m\<lparr>wg_nif := with_device (wg_nif m) (\<lambda>d. wireguardif_connect d idx), wg_state := WG_HANDSHAKING\<rparr>
         else m\<lparr>wg_state := WG_UNCONFIGURED\<rparr>)\<lparr>last_kick_ms := now\<rparr>"
    unfolding wg_add_peer_and_connect_def Let_def assms option.case by (rule exI) (rule refl)
  then obtain p err idx d' where "wg_add_peer_and_connect x25519 now m =
     (let m = m\<lparr>wg_nif := (wg_nif m)\<lparr>n_state := Some d'\<rparr>, wg_peer_idx := idx\<rparr>
      in if err = ERR_OK \<and> idx \<noteq> WIREGUARDIF_INVALID_INDEX
         then m\<lparr>wg_nif := with_device (wg_nif m) (\<lambda>d. wireguardif_connect d idx), wg_state := WG_HANDSHAKING\<rparr>
         else m\<lparr>wg_state := WG_UNCONFIGURED\<rparr>)\<lparr>last_kick_ms := now\<rparr>"
    by (metis (mono_tags, lifting) case_prod_conv prod_cases3)
  then show thesis
    using that [where n = "with_device ((wg_nif m)\<lparr>n_state := Some d'\<rparr>) (\<lambda>d. wireguardif_connect d idx)" and idx = idx and st = WG_HANDSHAKING]
      that [where n = "(wg_nif m)\<lparr>n_state := Some d'\<rparr>" and idx = idx and st = WG_UNCONFIGURED]
    by (auto simp: Let_def split: if_splits)
qed

lemma add_peer_inv:
  assumes "wg_inv m" "wg_netif_added m" "wg_state m = WG_RESOLVING"
  shows "wg_inv (wg_add_peer_and_connect x25519 now m)"
proof -
  obtain d where "n_state (wg_nif m) = Some d" using assms(1,2) by (auto simp: wg_inv_def)
  then show ?thesis by (rule add_peer_shape [of m d x25519 now]) (use assms in \<open>auto simp: wg_inv_def\<close>)
qed

lemma resolve_inv:
  assumes "wg_inv m"
  shows "wg_inv (wg_resolve now dns m)" "wg_netif_added (wg_resolve now dns m) = wg_netif_added m"
    "wg_state (wg_resolve now dns m) = wg_state m"
  using assms by (auto simp: wg_inv_def wg_resolve_def Let_def split: prod.splits)

lemma monitor_inv: "wg_inv m \<Longrightarrow> wg_netif_added m \<Longrightarrow> wg_inv (wg_monitor now m)"
  by (auto simp: wg_monitor_def wg_inv_def wg_connect_def peer_up_def with_device_def)

lemma poll_inv:
  assumes "wg_inv m"
  shows "wg_inv (wg_poll x25519 now sta_link sta_addr dns m)"
proof -
  define m1 where "m1 = (if exit_on m then m\<lparr>wg_napt := napt_set_ext_ip sta_addr (wg_napt m)\<rparr> else m)"
  have i1: "wg_inv m1" "wg_netif_added m1 = wg_netif_added m" using assms by (auto simp: m1_def wg_inv_def)
  note r = resolve_inv [OF i1(1), of now dns]
  show ?thesis
    unfolding wg_poll_def m1_def [symmetric] Let_def
    using assms i1 r add_peer_inv [OF r(1)] monitor_inv [OF i1(1)] by auto
qed

lemma wg_step_inv: "wg_step m m' \<Longrightarrow> wg_inv m \<Longrightarrow> wg_inv m'"
proof (induction rule: wg_step.induct)
  case (Apply aton x25519 now lwip sta_addr cfg tp m m' tp')
  then show ?case by (metis apply_inv)
next
  case (Poll m x25519 now sta_link sta_addr dns)
  then show ?case by (rule poll_inv)
next
  case (Dns m ipaddr)
  then show ?case by (auto simp: dns_resolved_cb_def wg_inv_def split: option.splits)
next
  case (Device m d d')
  then show ?case by (auto simp: wg_inv_def)
next
  case (Sta_output m e now p)
  then have "napt_wf (fst (snd (napt_outbound (wg_napt m) b now)))" for b
    using napt_step_wf [of "wg_napt m" "Outbound b" now] by (simp add: wg_inv_def)
  then show ?case using Sta_output
    by (auto simp: exit_sta_output_def wg_inv_def Let_def case_prod_beta split: option.splits)
next
  case (Input_hook m now inp p)
  then have "napt_wf (fst (snd (napt_inbound (wg_napt m) b now)))" for b
    using napt_step_wf [of "wg_napt m" "Inbound b" now] by (simp add: wg_inv_def)
  then show ?case using Input_hook
    by (auto simp: wg_ip4_input_hook_def wg_inv_def Let_def case_prod_beta split: option.splits)
qed

lemma wg_reachable_inv: "wg_reachable m \<Longrightarrow> wg_inv m"
proof (induction rule: wg_reachable.induct)
  case (Boot n w)
  then show ?case by (simp add: wg_boot_def wg_inv_def)
qed (rule wg_step_inv)


section \<open>Properties\<close>

text \<open>Property C1. Clients are confined: whatever the state the module has reached, a packet whose source is neither unset nor
  one of the device's own addresses never goes to normal routing. It goes to the station only if it came out of the tunnel
  in exit mode, which the applied configuration enables, and then to a local destination only if that is enabled
  too; to the USB link only if addressed there and not sent from the access point's subnet, and the other way round; into
  the tunnel only if there is one; everything else vanishes. And what the station's output function passes on of such packets in exit mode
  carries the station's address. The exemption is by source address alone.\<close>

theorem client_isolation:
  assumes "wg_reachable m" "src \<noteq> 0" "\<not> is_own_addr e src"
  shows "(\<exists>n. wg_ip4_route_hook e m (Some src) dest = Some n \<and>
      (n = N_sta \<longrightarrow> input_netif e = Some N_wg \<and> exit_on m \<and> wg_netif_added m \<and> exit_enabled (wgc m) \<noteq> 0 \<and>
         (dest_is_local_scope e m dest \<longrightarrow> exit_lan (wgc m) \<noteq> 0)) \<and>
      (n = N_usb \<longrightarrow> in_usb_subnet e dest \<and> \<not> in_ap_subnet e src) \<and>
      (n = N_ap \<longrightarrow> in_ap_subnet e dest \<and> \<not> in_usb_subnet e src) \<and>
      (n = N_wg \<longrightarrow> wg_netif_added m \<and> \<not> in_usb_subnet e dest \<and> \<not> in_ap_subnet e dest)) \<and>
    (\<forall>now p m' p'. exit_on m \<and> 20 \<le> length p \<and> drop_bit 4 (p ! 0) = 4 \<and> le32_of (seg p 12 4) = src \<and>
       exit_sta_output e now m (Some p) = (m', Some (Some p')) \<longrightarrow> seg p' 12 4 = g_ext (wg_napt m)) \<and>
    (\<forall>s. wg_ip4_route_hook e m (Some s) dest = None \<longleftrightarrow> s = 0 \<or> is_own_addr e s)"
proof (intro conjI)
  have i: "wg_inv m" by (rule wg_reachable_inv [OF assms(1)])
  show "\<exists>n. wg_ip4_route_hook e m (Some src) dest = Some n \<and>
      (n = N_sta \<longrightarrow> input_netif e = Some N_wg \<and> exit_on m \<and> wg_netif_added m \<and> exit_enabled (wgc m) \<noteq> 0 \<and>
         (dest_is_local_scope e m dest \<longrightarrow> exit_lan (wgc m) \<noteq> 0)) \<and>
      (n = N_usb \<longrightarrow> in_usb_subnet e dest \<and> \<not> in_ap_subnet e src) \<and>
      (n = N_ap \<longrightarrow> in_ap_subnet e dest \<and> \<not> in_usb_subnet e src) \<and>
      (n = N_wg \<longrightarrow> wg_netif_added m \<and> \<not> in_usb_subnet e dest \<and> \<not> in_ap_subnet e dest)"
    using assms(2,3) i by (auto simp: wg_ip4_route_hook_def wg_inv_def)
  show "\<forall>now p m' p'. exit_on m \<and> 20 \<le> length p \<and> drop_bit 4 (p ! 0) = 4 \<and> le32_of (seg p 12 4) = src \<and>
       exit_sta_output e now m (Some p) = (m', Some (Some p')) \<longrightarrow> seg p' 12 4 = g_ext (wg_napt m)"
    using assms(2,3) i outbound_source [of "wg_napt m"]
    by (auto simp: exit_sta_output_def Let_def wg_inv_def split: prod.splits if_splits)
  show "\<forall>s. wg_ip4_route_hook e m (Some s) dest = None \<longleftrightarrow> s = 0 \<or> is_own_addr e s"
    by (simp add: wg_ip4_route_hook_def)
qed

definition demo_net :: net_env where
  "demo_net = \<lparr>if_addr = (\<lambda>n. case n of N_usb \<Rightarrow> 0x0100000A | N_sta \<Rightarrow> 0x0501A8C0 | _ \<Rightarrow> 0), if_mask = (\<lambda>_. 0xFCFFFFFF),
     netif_list = [N_usb, N_sta], ap_active = False, input_netif = Some N_usb\<rparr>"

definition demo_nif :: wg_netif where
  "demo_nif = \<lparr>n_state = None, n_name = [], n_mtu = 0, n_flags = 0, n_output = False, n_udp = None, n_timer = None\<rparr>"

theorem client_isolation_witness:
  "\<exists>n. wg_ip4_route_hook demo_net (wg_boot demo_nif napt_boot zero_wg) (Some 0x0200000A) 0x08080808 = Some n \<and> n \<noteq> N_sta"
  using client_isolation [where m = "wg_boot demo_nif napt_boot zero_wg" and src = "0x0200000A" and e = demo_net and dest = "0x08080808"]
  by (auto simp: Boot is_own_addr_def demo_net_def)

text \<open>Property C8. The life of the tunnel: after any sequence of configurations, polls, resolver answers, interface steps and
  translated packets, the interface has a device exactly while it is added, which it is only for a complete configuration and with the
  configured MTU; without it the state is unconfigured and there is no peer; the tunnel is the default route exactly in the
  state up, and then has a peer; exit mode is on only when the applied configuration says so.\<close>

theorem tunnel_lifecycle:
  assumes "wg_reachable m"
  shows "(wg_netif_added m \<longleftrightarrow> n_state (wg_nif m) \<noteq> None) \<and>
    (wg_netif_added m \<longrightarrow> wg_configured m \<and> wg_path_mtu m = tunnel_mtu (wgc m)) \<and>
    (\<not> wg_netif_added m \<longrightarrow> wg_state_str m = ''unconfigured'' \<and> wg_peer_idx m = WIREGUARDIF_INVALID_INDEX) \<and>
    (netif_default m = N_wg \<longleftrightarrow> wg_session_up m) \<and>
    (wg_session_up m \<longrightarrow> wg_netif_added m \<and> wg_peer_idx m \<noteq> WIREGUARDIF_INVALID_INDEX) \<and>
    (wg_exit_active m \<longrightarrow> wg_configured m \<and> exit_enabled (wgc m) \<noteq> 0) \<and> napt_wf (wg_napt m)"
  using wg_reachable_inv [OF assms]
  by (auto simp: wg_inv_def wg_path_mtu_def wg_state_str_def wg_session_up_def wg_exit_active_def)

theorem tunnel_lifecycle_witness:
  "wg_state_str (dns_resolved_cb (Some (IP4 7)) (wg_boot demo_nif napt_boot zero_wg)) = ''unconfigured''"
proof -
  have "wg_reachable (dns_resolved_cb (Some (IP4 7)) (wg_boot demo_nif napt_boot zero_wg))"
    by (rule Step [OF Boot Dns])
  from tunnel_lifecycle [OF this] show ?thesis by (simp add: dns_resolved_cb_def wg_boot_def)
qed

text \<open>Property C20. The handshake clock: as a server compares them, one timestamp is greater than another exactly if it comes from a
  later boot, or from the same boot and a larger value of the millisecond clock. So the boot counter outweighs any
  uptime; and since the clock is 32 bits wide and wraps after 49.7 days, from then on timestamps are smaller than
  those already sent.\<close>

theorem tai64n_order:
  "memcmp (wireguard_tai64n_now b t) (wireguard_tai64n_now b' t') > 0 \<longleftrightarrow> b' < b \<or> b' = b \<and> t' < t"
proof -
  have "length (wireguard_tai64n_now b t) = 12" for b t by (simp add: wireguard_tai64n_now_def Let_def)
  then show ?thesis by (simp add: memcmp_be_val tai64n_less)
qed

end
