(* ===== verification/Config_Proto.thy ===== *)
theory Config_Proto
  imports Config Base64 Wifi_Pick Wifi_Scan Wg
begin

text \<open>
  \<^verbatim>\<open>src/config_proto.c\<close>: the line protocol of the management console. A line is a command word and the
  rest of the line; it reads and changes the live configuration, asks the modules concerned to apply the change, and
  answers with text. The module's statics, the live configuration, the scan table (\<open>Wifi_Scan\<close>) and the flash
  sector of the record are one state; what a handler prints and the calls it makes into other modules
  are events, in order. Settings enter and leave through lwIP's address conversions, the radio driver's country
  macro and the build's version string, which are arguments, as is the live status the dump shows.
\<close>

section \<open>The C library\<close>

abbreviation NL :: string where "NL \<equiv> [CHR 0x0A]"

text \<open>\<^verbatim>\<open>strchr(s, c)\<close> followed by \<^verbatim>\<open>*p++ = 0\<close>: the text before the first \<open>c\<close> and the text after it.\<close>

fun cut :: "char \<Rightarrow> string \<Rightarrow> (string \<times> string) option" where
  "cut c [] = None"
| "cut c (x # xs) = (if x = c then Some ([], xs) else map_option (\<lambda>(a, b). (x # a, b)) (cut c xs))"

lemma cut_Some: "cut c s = Some (a, b) \<Longrightarrow> s = a @ c # b \<and> c \<notin> set a"
  by (induction s arbitrary: a b) (auto split: if_splits)

definition is_digit :: "char \<Rightarrow> bool" where
  "is_digit c \<longleftrightarrow> 48 \<le> (of_char c :: nat) \<and> (of_char c :: nat) \<le> 57"

definition is_space :: "char \<Rightarrow> bool" where
  "is_space c \<longleftrightarrow> (of_char c :: nat) = 32 \<or> 9 \<le> (of_char c :: nat) \<and> (of_char c :: nat) \<le> 13"

definition digits_val :: "string \<Rightarrow> int" where
  "digits_val ds = foldl (\<lambda>v c. 10 * v + (of_char c - 48)) 0 ds"

text \<open>\<^verbatim>\<open>strtol(s, &end, 10)\<close> with a 32-bit \<^verbatim>\<open>long\<close>: the value, saturated, and \<^verbatim>\<open>end\<close>, which is \<open>s\<close> when there is
  no number.\<close>

definition strtol :: "string \<Rightarrow> int \<times> string" where
  "strtol s =
     (let t = dropWhile is_space s;
          (neg, t) = (case t of [] \<Rightarrow> (False, t)
                      | c # u \<Rightarrow> if c = CHR ''-'' then (True, u) else if c = CHR ''+'' then (False, u) else (False, t));
          ds = takeWhile is_digit t; v = digits_val ds
      in if ds = [] then (0, s)
         else (max (- 2147483648) (min 2147483647 (if neg then - v else v)), dropWhile is_digit t))"

text \<open>\<^verbatim>\<open>snprintf\<close> into \<open>n\<close> bytes: all but the last of them hold text.\<close>

definition snprintf :: "nat \<Rightarrow> string \<Rightarrow> string" where
  "snprintf n s = take (n - 1) s"

fun dec :: "nat \<Rightarrow> string" where
  "dec n = (if n < 10 then [char_of (48 + n)] else dec (n div 10) @ [char_of (48 + n mod 10)])"

declare dec.simps [simp del]

definition fmt_d :: "int \<Rightarrow> string" where
  "fmt_d i = (if i < 0 then CHR ''-'' # dec (nat (- i)) else dec (nat i))"

definition hex_digit :: "nat \<Rightarrow> char" where
  "hex_digit n = (if n < 10 then char_of (48 + n) else char_of (87 + n))"

definition fmt_02x :: "u8 \<Rightarrow> string" where
  "fmt_02x b = [hex_digit (unat b div 16), hex_digit (unat b mod 16)]"

definition pad_left :: "nat \<Rightarrow> string \<Rightarrow> string" where
  "pad_left n s = replicate (n - length s) CHR '' '' @ s"

definition pad_right :: "nat \<Rightarrow> string \<Rightarrow> string" where
  "pad_right n s = s @ replicate (n - length s) CHR '' ''"

definition fmt_mac :: "bytes \<Rightarrow> string" where
  "fmt_mac b = fmt_02x (b ! 0) @ '':'' @ fmt_02x (b ! 1) @ '':'' @ fmt_02x (b ! 2) @ '':'' @
     fmt_02x (b ! 3) @ '':'' @ fmt_02x (b ! 4) @ '':'' @ fmt_02x (b ! 5)"

section \<open>State\<close>

datatype menu = MODE_MAIN | MODE_SCAN | MODE_CONTSCAN

datatype set_result = SET_ERR | SET_WIFI | SET_OTHER | SET_WG | SET_AP

abbreviation SCAN_PASSES :: nat where "SCAN_PASSES \<equiv> 4"

datatype cp_event =
    E_out string
  | E_apply config \<comment> \<open>the callbacks main registered\<close>
  | E_apply_wg config
  | E_apply_ap config
  | E_creds_unsaved \<comment> \<open>\<^verbatim>\<open>wifi_conn_mark_creds_unsaved\<close>\<close>
  | E_note_saved \<comment> \<open>\<^verbatim>\<open>wifi_conn_note_saved\<close>\<close>
  | E_wifi_leave
  | E_pcap_enable bool
  | E_pcap_clear
  | E_reboot bool \<comment> \<open>into the bootloader?\<close>

record console =
  g_mode :: menu
  scan_rounds :: nat
  g_apply :: bool \<comment> \<open>a callback is registered\<close>
  g_apply_wg :: bool
  g_apply_ap :: bool
  scanner :: wifi_scan
  cfg :: config
  flash :: bytes
  events :: "cp_event list"

text \<open>What other modules report when the dump asks.\<close>

record live_status =
  sta_link_up :: bool
  conn_state_str :: string
  nat_entries :: nat
  nat_drops :: u32
  exit_active :: bool
  ap_clients :: int
  ap_leased :: bool
  usb_leased :: bool
  bridge_baud :: u32
  bridge_client :: bool
  pcap_on :: bool
  pcap_pkts :: u32
  pcap_bytes :: u32
  wg_state_text :: string
  prof_status :: "nat \<Rightarrow> wifi_prof_status"
  prof_rssi :: "nat \<Rightarrow> int"
  scan_age_ms :: u32

text \<open>The outside: library and driver functions, and for this call the status, the random numbers, what
  the radio driver answers, and the content of the stack where \<^verbatim>\<open>cmd_set\<close> declares \<^verbatim>\<open>parsed\<close>.\<close>

record cp_env =
  FW_VERSION :: string
  ip4addr_aton :: "string \<Rightarrow> u32 option"
  ip4addr_ntoa :: "u32 \<Rightarrow> string"
  CYW43_COUNTRY :: "char \<Rightarrow> char \<Rightarrow> u32"
  CYW43_COUNTRY_WORLDWIDE :: u32
  x25519_of :: x25519_fun
  flash_of :: flash_driver
  build_of :: wifi_build
  live :: live_status
  rand_tape :: "u64 list"
  scan_accepted :: bool
  scan_active :: bool
  parsed_stack :: "wg_route list"

definition out :: "string \<Rightarrow> console \<Rightarrow> console" where
  "out t s = s\<lparr>events := events s @ [E_out t]\<rparr>"

definition emit :: "cp_event \<Rightarrow> console \<Rightarrow> console" where
  "emit e s = s\<lparr>events := events s @ [e]\<rparr>"

definition outs :: "string list \<Rightarrow> console \<Rightarrow> console" where
  "outs ts s = s\<lparr>events := events s @ map E_out ts\<rparr>"

definition config_proto_set_apply :: "bool \<Rightarrow> console \<Rightarrow> console" where
  "config_proto_set_apply cb s = s\<lparr>g_apply := cb\<rparr>"

definition config_proto_set_apply_wg :: "bool \<Rightarrow> console \<Rightarrow> console" where
  "config_proto_set_apply_wg cb s = s\<lparr>g_apply_wg := cb\<rparr>"

definition config_proto_set_apply_ap :: "bool \<Rightarrow> console \<Rightarrow> console" where
  "config_proto_set_apply_ap cb s = s\<lparr>g_apply_ap := cb\<rparr>"

definition config_proto_reset :: "console \<Rightarrow> console" where
  "config_proto_reset s =
     (let s = (if scan_rounds s > 0 \<or> g_mode s = MODE_CONTSCAN then s\<lparr>scanner := wifi_scan_stop (scanner s)\<rparr> else s)
      in s\<lparr>g_mode := MODE_MAIN, scan_rounds := 0\<rparr>)"

section \<open>Helpers\<close>

definition parse_country :: "cp_env \<Rightarrow> string \<Rightarrow> u32" where
  "parse_country e v =
     (if strcasecmp_eq v ''WORLDWIDE'' then CYW43_COUNTRY_WORLDWIDE e
      else if length v \<ge> 2 then CYW43_COUNTRY e (to_upper (v ! 0)) (to_upper (v ! 1))
      else CYW43_COUNTRY_WORLDWIDE e)"

definition printable :: "nat \<Rightarrow> bool" where
  "printable c \<longleftrightarrow> 0x20 \<le> c \<and> c < 0x7f"

definition fmt_country :: "nat \<Rightarrow> u32 \<Rightarrow> string" where
  "fmt_country n c =
     (let a = unat (c AND 0xff); b = unat (drop_bit 8 c AND 0xff)
      in if printable a \<and> printable b then snprintf n [char_of a, char_of b] else snprintf n ''(unset)'')"

definition fmt_ssid :: "nat \<Rightarrow> string \<Rightarrow> string" where
  "fmt_ssid n s = map (\<lambda>c. if printable (of_char c) then c else CHR ''?'') (take (n - 1) (c_str s))"

definition parse_index :: "string \<Rightarrow> nat \<Rightarrow> int" where
  "parse_index s n =
     (let (v, rest) = strtol s in if rest = s \<or> rest \<noteq> [] \<or> v < 1 \<or> v > int n then - 1 else v - 1)"

definition valid_wg_key :: "string \<Rightarrow> bool" where
  "valid_wg_key s = (case wireguard_base64_decode (Some (ascii s)) 64 of (ok, buf, len) \<Rightarrow> ok \<and> len = 32)"

text \<open>A byte string as the text a console shows; the encoder's terminator is dropped.\<close>

definition b64_text :: "bytes \<Rightarrow> nat \<Rightarrow> string option" where
  "b64_text bs n = map_option (\<lambda>(t, len). c_str (map byte_char t)) (wireguard_base64_encode bs n)"

definition config_proto_pubkey :: "cp_env \<Rightarrow> config \<Rightarrow> nat \<Rightarrow> string option" where
  "config_proto_pubkey e c n =
     (if c_str (private_key (wg c)) = [] then None
      else case wireguard_base64_decode (Some (ascii (c_str (private_key (wg c))))) 64 of
        (ok, priv, len) \<Rightarrow>
          if \<not> ok \<or> len \<noteq> 32 then None
          else case wg_public_from_private (x25519_of e) priv of
            (ok, pk) \<Rightarrow> if ok then b64_text pk n else None)"

definition parse_ip4 :: "cp_env \<Rightarrow> string \<Rightarrow> u32" where
  "parse_ip4 e s = (case ip4addr_aton e s of None \<Rightarrow> 0 | Some a \<Rightarrow> a)"

definition fmt_ip4 :: "cp_env \<Rightarrow> nat \<Rightarrow> u32 \<Rightarrow> string" where
  "fmt_ip4 e n addr = take (n - 1) (ip4addr_ntoa e addr)"

section \<open>The state dump\<close>

text \<open>Each line is formatted into 80 bytes.\<close>

definition dump_wifi :: "cp_env \<Rightarrow> config \<Rightarrow> string list" where
  "dump_wifi e c =
     (let as = config_active_ssid c in
      [snprintf 80 (if active c < profile_count c
         then ''    profiles:   '' @ dec (profile_count c) @ '' saved (active: '' @ dec (active c + 1) @ '')'' @ NL
         else ''    profiles:   '' @ dec (profile_count c) @ '' saved (active: none)'' @ NL),
       snprintf 80 (''    ssid:       '' @ (if as \<noteq> [] then fmt_ssid 33 as else ''(unset)'') @ NL),
       (if config_active_pass c \<noteq> [] then ''    pass:       set'' @ NL else ''    pass:       unset'' @ NL),
       snprintf 80 (''    country:    '' @ fmt_country 8 (country c) @ NL),
       (if debug_enabled c \<noteq> 0 then ''    debug:      on'' @ NL else ''    debug:      off'' @ NL),
       snprintf 80 (''    wifi:       '' @
         (if sta_link_up (live e) then ''associated'' else conn_state_str (live e)) @ NL)])"

definition dump_keys :: "cp_env \<Rightarrow> config \<Rightarrow> string list" where
  "dump_keys e c =
     (let w = wg c in
      [case config_proto_pubkey e c 48 of
         Some pk \<Rightarrow> snprintf 80 (''    wg pubkey:  '' @ pk @ NL)
       | None \<Rightarrow> if c_str (private_key w) \<noteq> [] then ''    wg key:     set (pubkey underivable?)'' @ NL
                 else ''    wg key:     unset -- genkey, or set key <b64>'' @ NL,
       (if c_str (peer_public w) \<noteq> [] then ''    wg peer:    set'' @ NL else ''    wg peer:    unset'' @ NL),
       (if c_str (psk w) \<noteq> [] then ''    wg psk:     set'' @ NL else ''    wg psk:     off'' @ NL)])"

definition dump_tunnel :: "cp_env \<Rightarrow> config \<Rightarrow> string list" where
  "dump_tunnel e c =
     (let w = wg c in
      [snprintf 80 (if c_str (endpoint w) \<noteq> []
         then ''    endpoint:   '' @ c_str (endpoint w) @ '':'' @ dec (unat (endpoint_port w)) @ NL
         else ''    endpoint:   (unset)'' @ NL),
       snprintf 80 (if wg_addr w \<noteq> 0 \<and> host_addr w \<noteq> 0
         then ''    tunnel:     '' @ fmt_ip4 e 16 (wg_addr w) @ ''/'' @ dec (unat (wg_prefix w)) @
              '' (this device), '' @ fmt_ip4 e 16 (host_addr w) @ '' (host)'' @ NL
         else ''    tunnel:     (unset -- set addr and hostip)'' @ NL),
       (if wg_dns w \<noteq> 0 then snprintf 80 (''    dns:        '' @ fmt_ip4 e 16 (wg_dns w) @ NL)
        else ''    dns:        (unset -- host gets no resolver)'' @ NL)] @
      (if keepalive w \<noteq> 0 then [snprintf 80 (''    keepalive:  '' @ dec (unat (keepalive w)) @ ''s'' @ NL)] else []) @
      (if host_mtu w \<noteq> 0 then [snprintf 80 (''    host mtu:   '' @ dec (unat (host_mtu w)) @ NL)] else []) @
      (if route_count w \<noteq> 0
       then (''    mode:       split -- host keeps its own default route; routed here:'' @ NL) #
            map (\<lambda>i. snprintf 80 (''                  '' @ fmt_ip4 e 16 (r_net (routes w ! i)) @ ''/'' @
                       dec (unat (r_prefix (routes w ! i))) @ NL)) [0..<unat (route_count w)]
       else [''    mode:       gateway -- host default-routes through the tunnel'' @ NL]))"

definition dump_exit_ap :: "cp_env \<Rightarrow> config \<Rightarrow> string list" where
  "dump_exit_ap e c =
     (let w = wg c; a = ap c; l = live e in
      (if exit_enabled w \<noteq> 0
       then [snprintf 80 (''    exit:       on ('' @ (if exit_lan w \<noteq> 0 then ''LAN reachable'' else ''internet only'') @
               '')'' @ (if exit_active l then [] else '' [inactive until the tunnel applies]'') @ '' -- '' @
               dec (nat_entries l) @ '' NAT mappings, '' @ dec (unat (nat_drops l)) @ '' drops'' @ NL)]
       else []) @
      (if c_str (ap_ssid a) \<noteq> [] \<or> ap_enabled a \<noteq> 0
       then snprintf 80 (''    ap:         '' @ (if ap_enabled a \<noteq> 0 then ''on'' else ''off'') @ '' '' @ [CHR 0x22] @
              fmt_ssid 33 (ap_ssid a) @ [CHR 0x22] @ '' '' @
              (if ap_addr a \<noteq> 0 then fmt_ip4 e 16 (ap_addr a) else ''?'') @ ''/'' @ dec (unat (ap_prefix a)) @
              '' -> '' @ (if client_addr a \<noteq> 0 then fmt_ip4 e 16 (client_addr a) else ''?'') @ NL) #
            (if ap_enabled a \<noteq> 0
             then [snprintf 80 (''    ap client:  '' @ (if ap_clients l \<noteq> 0 then ''associated'' else ''none'') @
                     (if ap_leased l then '', leased'' else []) @ NL)]
             else [])
       else []))"

definition dump_status :: "cp_env \<Rightarrow> config \<Rightarrow> string list" where
  "dump_status e c =
     (let l = live e in
      [snprintf 80 (''    bridge:     uart1@'' @ dec (unat (bridge_baud l)) @ '' tcp :2323 raw :3323 rfc2217 ('' @
         (if bridge_client l then ''client'' else ''no client'') @ '')'' @ NL)] @
      (if pcap_on l
       then [snprintf 80 (''    pcap:       capturing ('' @ dec (unat (pcap_pkts l)) @ '' pkts, '' @
               dec (unat (pcap_bytes l div 1024)) @ '' KB in ring)'' @ NL)]
       else []) @
      [snprintf 80 (''    tunnel state: '' @ wg_state_text l @ ''; host lease: '' @
         (if usb_leased l then ''yes'' else ''no'') @ NL)] @
      (if config_wg_complete c then []
       else [''    (wireguard not fully configured -- host traffic is blocked)'' @ NL]))"

definition dump_lines :: "cp_env \<Rightarrow> config \<Rightarrow> string list" where
  "dump_lines e c =
     [NL @ ''-- molewire '' @ FW_VERSION e @ '' --'' @ NL] @
     dump_wifi e c @ dump_keys e c @ dump_tunnel e c @ dump_exit_ap e c @ dump_status e c"

definition config_proto_dump :: "cp_env \<Rightarrow> console \<Rightarrow> console" where
  "config_proto_dump e s = outs (dump_lines e (cfg s)) s"

section \<open>List views\<close>

definition prof_note :: "cp_env \<Rightarrow> nat \<Rightarrow> string" where
  "prof_note e i =
     (let st = prof_status (live e) i; rssi = prof_rssi (live e) i in
      snprintf 32
       (if st = WIFI_PROF_CONNECTED
        then if rssi \<noteq> WIFI_RSSI_UNSEEN then ''connected, '' @ fmt_d rssi @ '' dBm'' else ''connected''
        else if st = WIFI_PROF_BADPASS then ''bad password?''
        else if rssi \<noteq> WIFI_RSSI_UNSEEN
        then if st = WIFI_PROF_NOJOIN then fmt_d rssi @ '' dBm, couldn't join'' else fmt_d rssi @ '' dBm''
        else if scan_age_ms (live e) \<noteq> 0xFFFFFFFF
        then if st = WIFI_PROF_NOJOIN then ''not seen, couldn't join'' else ''not seen''
        else []))"

definition profile_line :: "cp_env \<Rightarrow> config \<Rightarrow> nat \<Rightarrow> string" where
  "profile_line e c i =
     (let note = prof_note e i in
      snprintf 112 (''      '' @ dec (i + 1) @ [if i = active c then CHR ''*'' else CHR '' ''] @ '' '' @
        pad_right 20 (fmt_ssid 33 (ssid (profiles c ! i))) @
        (if c_str (password (profiles c ! i)) \<noteq> [] then [] else ''  (open)'') @
        (if note \<noteq> [] then ''  ('' else []) @ note @ (if note \<noteq> [] then '')'' else []) @ NL))"

definition list_profiles :: "cp_env \<Rightarrow> console \<Rightarrow> console" where
  "list_profiles e s =
     (let c = cfg s in
      if profile_count c = 0 then out (''    (no saved profiles -- scan, or set ssid/pass to add one)'' @ NL) s
      else outs ([snprintf 112 (''    profiles ('' @ dec (profile_count c) @ ''/'' @ dec CONFIG_PROFILE_MAX @
                    '', most recent first):'' @ NL)] @
                 map (profile_line e c) [0..<profile_count c] @ [''    (* = active)'' @ NL]) s)"

definition scan_mark :: "cp_env \<Rightarrow> config \<Rightarrow> wifi_scan_entry \<Rightarrow> string" where
  "scan_mark e c en =
     (case config_find_profile c (e_ssid en) of
        Some p \<Rightarrow> if p = active c \<and> sta_link_up (live e) then ''  [connected]''
                  else if prof_status (live e) p = WIFI_PROF_BADPASS then ''  [saved, bad password?]''
                  else ''  [saved]''
      | None \<Rightarrow> if e_auth en = 0 then ''  [open]'' else [])"

definition scan_line :: "cp_env \<Rightarrow> config \<Rightarrow> nat \<Rightarrow> wifi_scan_entry \<Rightarrow> string" where
  "scan_line e c i en =
     snprintf 112 (''      '' @ pad_left 2 (dec (i + 1)) @ ''  '' @ pad_right 20 (fmt_ssid 33 (e_ssid en)) @ ''  '' @
       pad_left 4 (fmt_d (e_rssi en)) @ '' dBm  '' @ fmt_mac (e_bssid en) @ scan_mark e c en @ NL)"

definition list_scan :: "cp_env \<Rightarrow> console \<Rightarrow> console" where
  "list_scan e s =
     (let n = wifi_scan_count (scanner s) in
      if n = 0 then out (''    (no networks found -- scan to try again)'' @ NL) s
      else outs (snprintf 112 (''    networks ('' @ dec n @ ''):'' @ NL) #
             map (\<lambda>i. scan_line e (cfg s) i (results (scanner s) ! i)) [0..<n]) s)"

definition stream_scan :: "console \<Rightarrow> console" where
  "stream_scan s =
     outs (map (\<lambda>en. snprintf 96 (''  '' @ pad_right 20 (fmt_ssid 33 (e_ssid en)) @ ''  '' @
             pad_left 4 (fmt_d (e_rssi en)) @ '' dBm  ch '' @ pad_left 2 (dec (unat (e_channel en))) @ ''  '' @
             fmt_mac (e_bssid en) @ NL)) (results (scanner s))) s"

definition start_scan :: "cp_env \<Rightarrow> console \<Rightarrow> console" where
  "start_scan e s =
     (let (ok, w, leave) = wifi_scan_start (sta_link_up (live e)) (scan_accepted e) (scanner s);
          s = s\<lparr>scanner := w\<rparr>; s = (if leave then emit E_wifi_leave s else s)
      in if ok then out ''[*] scanning'' (s\<lparr>g_mode := MODE_SCAN, scan_rounds := SCAN_PASSES\<rparr>)
         else out (''[!] scan failed to start'' @ NL) s)"

text \<open>The loop over the results: the network's first entry says whether it is open. \<open>hint\<close> is
  \<open>None\<close> for the C function's -1.\<close>

fun open_in :: "wifi_scan_entry list \<Rightarrow> string \<Rightarrow> bool" where
  "open_in [] s = False"
| "open_in (en # es) s = (if strncmp_eq (e_ssid en) s CONFIG_SSID_MAX then e_auth en = 0 else open_in es s)"

definition apply_cb :: "console \<Rightarrow> console" where
  "apply_cb s = (if g_apply s then emit (E_apply (cfg s)) s else s)"

definition apply_wg_cb :: "console \<Rightarrow> console" where
  "apply_wg_cb s = (if g_apply_wg s then emit (E_apply_wg (cfg s)) s else s)"

definition join_ssid :: "string \<Rightarrow> bool option \<Rightarrow> console \<Rightarrow> console" where
  "join_ssid name hint s =
     (let (p, s) = (case config_find_profile (cfg s) name of
                      Some p \<Rightarrow> (int p, s)
                    | None \<Rightarrow> let (c, p) = config_add_profile (cfg s) name
                              in if p < 0 then (p, out (''ERR could not add a profile'' @ NL) s)
                                 else (p, emit E_creds_unsaved (s\<lparr>cfg := c\<rparr>)))
      in if p < 0 then s
         else let s = s\<lparr>cfg := (cfg s)\<lparr>active := nat p\<rparr>\<rparr>;
                  opn = (case hint of Some b \<Rightarrow> b | None \<Rightarrow> open_in (results (scanner s)) name);
                  pw = c_str (password (profiles (cfg s) ! nat p)) \<noteq> []
              in if pw \<or> opn
                 then apply_cb (out (if pw then ''[*] joining with the saved password'' @ NL
                                     else ''[*] joining (open network)'' @ NL) s)
                 else out (''[*] staged -- set pass <password> to join (saved automatically once it works)'' @ NL) s)"

section \<open>SET\<close>

definition err :: "string \<Rightarrow> console \<Rightarrow> set_result \<times> console" where
  "err t s = (SET_ERR, out (t @ NL) s)"

text \<open>\<^verbatim>\<open>strncpy(dst, val, cap - 1); dst[cap - 1] = 0\<close>.\<close>

definition store_str :: "string \<Rightarrow> string \<Rightarrow> nat \<Rightarrow> string" where
  "store_str dst val cap = (strncpy dst val (cap - 1))[cap - 1 := NUL]"

definition set_wg_key :: "string \<Rightarrow> nat \<Rightarrow> string \<Rightarrow> bool \<Rightarrow> console \<Rightarrow> set_result \<times> string \<times> console" where
  "set_wg_key field cap val allow_off s =
     (if allow_off \<and> strcasecmp_eq val ''off'' then (SET_WG, field[0 := NUL], s)
      else if \<not> valid_wg_key val
      then (SET_ERR, field, out (''ERR not a WireGuard key (base64, 32 bytes)'' @ NL) s)
      else (SET_WG, store_str field val cap, s))"

definition with_wg :: "(wg_config \<Rightarrow> wg_config) \<Rightarrow> console \<Rightarrow> console" where
  "with_wg f s = s\<lparr>cfg := (cfg s)\<lparr>wg := f (wg (cfg s))\<rparr>\<rparr>"

definition with_ap :: "(ap_config \<Rightarrow> ap_config) \<Rightarrow> console \<Rightarrow> console" where
  "with_ap f s = s\<lparr>cfg := (cfg s)\<lparr>ap := f (ap (cfg s))\<rparr>\<rparr>"

definition with_profile :: "nat \<Rightarrow> (wifi_profile \<Rightarrow> wifi_profile) \<Rightarrow> console \<Rightarrow> console" where
  "with_profile i f s = s\<lparr>cfg := (cfg s)\<lparr>profiles := (profiles (cfg s))[i := f (profiles (cfg s) ! i)]\<rparr>\<rparr>"

definition set_ssid :: "string \<Rightarrow> console \<Rightarrow> set_result \<times> console" where
  "set_ssid val s =
     (if active (cfg s) < profile_count (cfg s)
      then (SET_WIFI, emit E_creds_unsaved
             (with_profile (active (cfg s)) (\<lambda>p. p\<lparr>ssid := store_str (ssid p) val CONFIG_SSID_MAX\<rparr>) s))
      else let (c, i) = config_add_profile (cfg s) val
           in if i < 0 then err ''ERR could not add a profile'' s
              else (SET_WIFI, emit E_creds_unsaved (s\<lparr>cfg := c\<lparr>active := nat i\<rparr>\<rparr>)))"

definition set_pass :: "string \<Rightarrow> console \<Rightarrow> set_result \<times> console" where
  "set_pass val s =
     (if active (cfg s) \<ge> profile_count (cfg s)
      then err ''ERR no active profile -- set ssid (or join <ssid>) first'' s
      else (SET_WIFI, emit E_creds_unsaved
             (with_profile (active (cfg s)) (\<lambda>p. p\<lparr>password := store_str (password p) val CONFIG_PASS_MAX\<rparr>) s)))"

definition set_country :: "cp_env \<Rightarrow> string \<Rightarrow> console \<Rightarrow> set_result \<times> console" where
  "set_country e val s = (SET_WIFI, s\<lparr>cfg := (cfg s)\<lparr>country := parse_country e val\<rparr>\<rparr>)"

definition set_debug :: "string \<Rightarrow> console \<Rightarrow> set_result \<times> console" where
  "set_debug val s =
     (if strcasecmp_eq val ''on'' then (SET_OTHER, s\<lparr>cfg := (cfg s)\<lparr>debug_enabled := 1\<rparr>\<rparr>)
      else if strcasecmp_eq val ''off'' then (SET_OTHER, s\<lparr>cfg := (cfg s)\<lparr>debug_enabled := 0\<rparr>\<rparr>)
      else err ''ERR usage: set debug <on|off>'' s)"

definition set_key :: "string \<Rightarrow> console \<Rightarrow> set_result \<times> console" where
  "set_key val s =
     (case set_wg_key (private_key (wg (cfg s))) CONFIG_WGKEY_MAX val False s of
        (r, k, s) \<Rightarrow> (r, with_wg (\<lambda>w. w\<lparr>private_key := k\<rparr>) s))"

definition set_peer :: "string \<Rightarrow> console \<Rightarrow> set_result \<times> console" where
  "set_peer val s =
     (case set_wg_key (peer_public (wg (cfg s))) CONFIG_WGKEY_MAX val False s of
        (r, k, s) \<Rightarrow> (r, with_wg (\<lambda>w. w\<lparr>peer_public := k\<rparr>) s))"

definition set_psk :: "string \<Rightarrow> console \<Rightarrow> set_result \<times> console" where
  "set_psk val s =
     (case set_wg_key (psk (wg (cfg s))) CONFIG_WGKEY_MAX val True s of
        (r, k, s) \<Rightarrow> (r, with_wg (\<lambda>w. w\<lparr>psk := k\<rparr>) s))"

definition set_endpoint :: "string \<Rightarrow> console \<Rightarrow> set_result \<times> console" where
  "set_endpoint val s =
     (case cut CHR '' '' val of
        None \<Rightarrow> err ''ERR usage: set endpoint <host|ip> <port>'' s
      | Some (val, port) \<Rightarrow>
          let p = fst (strtol port)
          in if p < 1 \<or> p > 65535 \<or> length val \<ge> CONFIG_ENDPOINT_MAX
             then err ''ERR bad endpoint (name too long or port not 1-65535)'' s
             else (SET_WG, with_wg (\<lambda>w. w\<lparr>endpoint := store_str (endpoint w) val CONFIG_ENDPOINT_MAX,
                                          endpoint_port := word_of_int p\<rparr>) s))"

text \<open>\<^verbatim>\<open>a.b.c.d/nn\<close> with a prefix of 8 to 30, for \<^verbatim>\<open>set addr\<close> and \<^verbatim>\<open>set apaddr\<close>.\<close>

definition parse_cidr :: "cp_env \<Rightarrow> string \<Rightarrow> string \<Rightarrow> (u32 \<times> u8) option" where
  "parse_cidr e val nn =
     (let a = parse_ip4 e val; pfx = fst (strtol nn)
      in if a = 0 \<or> pfx < 8 \<or> pfx > 30 then None else Some (a, word_of_int pfx))"

definition set_addr :: "cp_env \<Rightarrow> string \<Rightarrow> console \<Rightarrow> set_result \<times> console" where
  "set_addr e val s =
     (case cut CHR ''/'' val of
        None \<Rightarrow> err ''ERR usage: set addr <a.b.c.d/nn> (e.g. 10.66.0.249/30)'' s
      | Some (val, nn) \<Rightarrow>
          (case parse_cidr e val nn of
             None \<Rightarrow> err ''ERR bad address or prefix (prefix 8-30)'' s
           | Some (a, pfx) \<Rightarrow> (SET_WG, with_wg (\<lambda>w. w\<lparr>wg_addr := a, wg_prefix := pfx\<rparr>) s)))"

definition set_hostip :: "cp_env \<Rightarrow> string \<Rightarrow> console \<Rightarrow> set_result \<times> console" where
  "set_hostip e val s =
     (let a = parse_ip4 e val
      in if a = 0 then err ''ERR usage: set hostip <a.b.c.d>'' s
         else (SET_WG, with_wg (\<lambda>w. w\<lparr>host_addr := a\<rparr>) s))"

definition set_dns :: "cp_env \<Rightarrow> string \<Rightarrow> console \<Rightarrow> set_result \<times> console" where
  "set_dns e val s =
     (if strcasecmp_eq val ''off'' then (SET_WG, with_wg (\<lambda>w. w\<lparr>wg_dns := 0\<rparr>) s)
      else let a = parse_ip4 e val
           in if a = 0 then err ''ERR usage: set dns <a.b.c.d|off>'' s
              else (SET_WG, with_wg (\<lambda>w. w\<lparr>wg_dns := a\<rparr>) s))"

text \<open>The loop over the comma-separated routes, with \<open>n\<close> of them in \<open>parsed\<close>: the array and the count, or
  the message. It stops at an empty element.\<close>

lemma cut_shorter [termination_simp]: "cut c s = Some (a, b) \<Longrightarrow> length b < length s"
  using cut_Some by fastforce

lemma cut_shorter' [termination_simp]: "Some (a, b) = cut c s \<Longrightarrow> length b < length s"
  using cut_Some by (metis cut_shorter)

function parse_routes :: "cp_env \<Rightarrow> string \<Rightarrow> wg_route list \<Rightarrow> nat \<Rightarrow> string + wg_route list \<times> nat" where
  "parse_routes e tok parsed n =
     (if tok = [] then Inr (parsed, n)
      else let (tok, comma) = (case cut CHR '','' tok of None \<Rightarrow> (tok, []) | Some (a, b) \<Rightarrow> (a, b))
           in case cut CHR ''/'' tok of
                None \<Rightarrow> Inl ''ERR routes are <a.b.c.d/nn>, comma-separated''
              | Some (tok, slash) \<Rightarrow>
                  let net = parse_ip4 e tok; plen = fst (strtol slash)
                  in if net = 0 \<and> tok \<noteq> ''0.0.0.0'' \<or> plen < 1 \<or> plen > 32
                     then Inl ''ERR bad route (prefix 1-32)''
                     else if n \<ge> CONFIG_ROUTES_MAX then Inl ''ERR too many routes (max 4)''
                     else parse_routes e comma
                            (parsed[n := (parsed ! n)\<lparr>r_net := net, r_prefix := word_of_int plen\<rparr>]) (n + 1))"
  by auto
termination
  by (relation "measure (\<lambda>(_, tok, _). length tok)") (auto split: option.splits dest: cut_shorter)

declare parse_routes.simps [simp del]

definition set_routes :: "cp_env \<Rightarrow> string \<Rightarrow> console \<Rightarrow> set_result \<times> console" where
  "set_routes e val s =
     (if strcasecmp_eq val ''off'' then (SET_WG, with_wg (\<lambda>w. w\<lparr>route_count := 0\<rparr>) s)
      else case parse_routes e val (parsed_stack e) 0 of
             Inl t \<Rightarrow> err t s
           | Inr (parsed, n) \<Rightarrow>
               if n = 0 then err ''ERR usage: set routes <a.b.c.d/nn>[,...] | off'' s
               else (SET_WG, with_wg (\<lambda>w. w\<lparr>routes := parsed, route_count := of_nat n\<rparr>) s))"

definition set_keepalive :: "string \<Rightarrow> console \<Rightarrow> set_result \<times> console" where
  "set_keepalive val s =
     (let k = fst (strtol val)
      in if k < 0 \<or> k > 65000 then err ''ERR usage: set keepalive <seconds> (0 = off)'' s
         else (SET_WG, with_wg (\<lambda>w. w\<lparr>keepalive := word_of_int k\<rparr>) s))"

definition set_mtu :: "string \<Rightarrow> console \<Rightarrow> set_result \<times> console" where
  "set_mtu val s =
     (let m = fst (strtol val)
      in if m \<noteq> 0 \<and> (m < 576 \<or> m > 1420) then err ''ERR usage: set mtu <576-1420> (0 = default 1420)'' s
         else (SET_WG, with_wg (\<lambda>w. w\<lparr>host_mtu := word_of_int m\<rparr>) s))"

definition set_exit :: "string \<Rightarrow> console \<Rightarrow> set_result \<times> console" where
  "set_exit val s =
     (if strcasecmp_eq val ''on'' then (SET_WG, with_wg (\<lambda>w. w\<lparr>exit_enabled := 1\<rparr>) s)
      else if strcasecmp_eq val ''off'' then (SET_WG, with_wg (\<lambda>w. w\<lparr>exit_enabled := 0\<rparr>) s)
      else err ''ERR usage: set exit <on|off>'' s)"

definition set_exitlan :: "string \<Rightarrow> console \<Rightarrow> set_result \<times> console" where
  "set_exitlan val s =
     (if strcasecmp_eq val ''on'' then (SET_WG, with_wg (\<lambda>w. w\<lparr>exit_lan := 1\<rparr>) s)
      else if strcasecmp_eq val ''off'' then (SET_WG, with_wg (\<lambda>w. w\<lparr>exit_lan := 0\<rparr>) s)
      else err (''ERR usage: set exitlan <on|off> (on = exit traffic may reach the'' @ NL @
                ''    local LAN's private addresses; off = internet only)'') s)"

definition set_apssid :: "string \<Rightarrow> console \<Rightarrow> set_result \<times> console" where
  "set_apssid val s = (SET_AP, with_ap (\<lambda>a. a\<lparr>ap_ssid := store_str (ap_ssid a) val CONFIG_SSID_MAX\<rparr>) s)"

definition set_appass :: "string \<Rightarrow> console \<Rightarrow> set_result \<times> console" where
  "set_appass val s =
     (if length val < 8 \<or> length val > 63
      then err ''ERR AP password must be 8-63 chars (an open AP is not allowed)'' s
      else (SET_AP, with_ap (\<lambda>a. a\<lparr>ap_password := store_str (ap_password a) val CONFIG_PASS_MAX\<rparr>) s))"

definition set_apaddr :: "cp_env \<Rightarrow> string \<Rightarrow> console \<Rightarrow> set_result \<times> console" where
  "set_apaddr e val s =
     (case cut CHR ''/'' val of
        None \<Rightarrow> err ''ERR usage: set apaddr <a.b.c.d/nn> (e.g. 10.66.0.253/30)'' s
      | Some (val, nn) \<Rightarrow>
          (case parse_cidr e val nn of
             None \<Rightarrow> err ''ERR bad address or prefix (prefix 8-30)'' s
           | Some (a, pfx) \<Rightarrow> (SET_AP, with_ap (\<lambda>x. x\<lparr>ap_addr := a, ap_prefix := pfx\<rparr>) s)))"

definition set_apclient :: "cp_env \<Rightarrow> string \<Rightarrow> console \<Rightarrow> set_result \<times> console" where
  "set_apclient e val s =
     (let a = parse_ip4 e val
      in if a = 0 then err ''ERR usage: set apclient <a.b.c.d>'' s
         else (SET_AP, with_ap (\<lambda>x. x\<lparr>client_addr := a\<rparr>) s))"

definition set_ap :: "string \<Rightarrow> console \<Rightarrow> set_result \<times> console" where
  "set_ap val s =
     (if strcasecmp_eq val ''off'' then (SET_AP, with_ap (\<lambda>x. x\<lparr>ap_enabled := 0\<rparr>) s)
      else if \<not> strcasecmp_eq val ''on'' then err ''ERR usage: set ap <on|off>'' s
      else if \<not> config_ap_complete (cfg s)
      then err (''ERR AP config incomplete -- need apssid, appass (8-63 chars), and an'' @ NL @
                ''    apaddr/apclient pair inside one subnet (both from tunnel space,'' @ NL @
                ''    covered by the server's AllowedIPs)'') s
      else (SET_AP, with_ap (\<lambda>x. x\<lparr>ap_enabled := 1\<rparr>) s))"

definition cmd_set :: "cp_env \<Rightarrow> string \<Rightarrow> console \<Rightarrow> set_result \<times> console" where
  "cmd_set e args s =
     (case cut CHR '' '' args of
        None \<Rightarrow> err ''ERR usage: set <key> <value> (see help)'' s
      | Some (key, val) \<Rightarrow>
          if strcasecmp_eq key ''ssid'' then set_ssid val s
          else if strcasecmp_eq key ''pass'' then set_pass val s
          else if strcasecmp_eq key ''country'' then set_country e val s
          else if strcasecmp_eq key ''debug'' then set_debug val s
          else if strcasecmp_eq key ''key'' then set_key val s
          else if strcasecmp_eq key ''peer'' then set_peer val s
          else if strcasecmp_eq key ''psk'' then set_psk val s
          else if strcasecmp_eq key ''endpoint'' then set_endpoint val s
          else if strcasecmp_eq key ''addr'' then set_addr e val s
          else if strcasecmp_eq key ''hostip'' then set_hostip e val s
          else if strcasecmp_eq key ''dns'' then set_dns e val s
          else if strcasecmp_eq key ''routes'' then set_routes e val s
          else if strcasecmp_eq key ''keepalive'' then set_keepalive val s
          else if strcasecmp_eq key ''mtu'' then set_mtu val s
          else if strcasecmp_eq key ''exit'' then set_exit val s
          else if strcasecmp_eq key ''exitlan'' then set_exitlan val s
          else if strcasecmp_eq key ''apssid'' then set_apssid val s
          else if strcasecmp_eq key ''appass'' then set_appass val s
          else if strcasecmp_eq key ''apaddr'' then set_apaddr e val s
          else if strcasecmp_eq key ''apclient'' then set_apclient e val s
          else if strcasecmp_eq key ''ap'' then set_ap val s
          else err (''ERR unknown key (ssid|pass|country|debug|key|peer|psk|endpoint|addr|'' @
                    ''hostip|dns|keepalive|mtu|routes|exit|exitlan|apssid|appass|apaddr|apclient|ap)'') s)"

section \<open>Menu handlers\<close>

text \<open>What \<^verbatim>\<open>SET\<close> does with the result of \<open>cmd_set\<close>.\<close>

definition after_set :: "cp_env \<Rightarrow> set_result \<Rightarrow> console \<Rightarrow> console" where
  "after_set e r s =
     (if r = SET_ERR then s
      else let s = (if r = SET_WIFI \<and> g_apply s then apply_cb (out (''[*] applying -- re-associating'' @ NL) s)
                    else if r = SET_WG \<and> g_apply_wg s
                    then apply_wg_cb (out (''[*] applying -- restarting tunnel'' @ NL) s)
                    else if r = SET_AP \<and> g_apply_ap s
                    then emit (E_apply_ap (cfg s)) (out (''[*] applying -- reconfiguring AP'' @ NL) s)
                    else if r = SET_OTHER then out (''[*] updated'' @ NL) s else s)
           in config_proto_dump e s)"

definition cmd_use :: "cp_env \<Rightarrow> string \<Rightarrow> console \<Rightarrow> console" where
  "cmd_use e args s =
     (let i = parse_index args (profile_count (cfg s))
      in if i < 0 then out (''ERR usage: use <n> (see list)'' @ NL) s
         else let s = s\<lparr>cfg := (cfg s)\<lparr>active := nat i\<rparr>\<rparr>;
                  s = (if g_apply s then apply_cb (out (''[*] applying -- re-associating'' @ NL) s) else s)
              in config_proto_dump e s)"

definition cmd_del :: "cp_env \<Rightarrow> string \<Rightarrow> console \<Rightarrow> console" where
  "cmd_del e args s =
     (let i = parse_index args (profile_count (cfg s));
          i = (if i < 0 then case config_find_profile (cfg s) args of None \<Rightarrow> - 1 | Some p \<Rightarrow> int p else i)
      in if i < 0 then out (''ERR usage: del <n|ssid> (see list)'' @ NL) s
         else config_proto_dump e
                (apply_cb (out (''[*] deleted (save to persist)'' @ NL) (s\<lparr>cfg := config_del_profile (cfg s) i\<rparr>))))"

definition cmd_pcap :: "string \<Rightarrow> console \<Rightarrow> console" where
  "cmd_pcap args s =
     (if strcasecmp_eq args ''on''
      then out (''[*] capturing the USB link (download via the portal: /api/pcap)'' @ NL) (emit (E_pcap_enable True) s)
      else if strcasecmp_eq args ''off''
      then out (''[*] capture stopped (ring kept -- 'pcap clear' to discard)'' @ NL) (emit (E_pcap_enable False) s)
      else if strcasecmp_eq args ''clear''
      then out (''[*] capture ring cleared'' @ NL) (emit E_pcap_clear s)
      else out (''ERR usage: pcap <on|off|clear>'' @ NL) s)"

text \<open>The new private key goes straight into the configuration: \<open>store_b64\<close> is
  \<^verbatim>\<open>wireguard_base64_encode(bs, 32, field, &olen)\<close> with \<^verbatim>\<open>olen\<close> the size of the field. A tape too short to give
  the 32 random bytes counts as a failed generation.\<close>

definition store_b64 :: "string \<Rightarrow> bytes \<Rightarrow> nat \<Rightarrow> string" where
  "store_b64 field bs n =
     (case wireguard_base64_encode bs n of None \<Rightarrow> field | Some (t, len) \<Rightarrow> put_seg field 0 (map byte_char t))"

definition cmd_genkey :: "cp_env \<Rightarrow> string option \<Rightarrow> console \<Rightarrow> console" where
  "cmd_genkey e args s =
     (if c_str (private_key (wg (cfg s))) \<noteq> [] \<and> \<not> (\<exists>a. args = Some a \<and> strcasecmp_eq a ''force'')
      then out (''ERR a private key is already set -- 'genkey force' replaces it'' @ NL @
                ''    (the server must then be given the new public key)'' @ NL) s
      else case wg_keypair_generate (x25519_of e) (rand_tape e) of
             None \<Rightarrow> out (''[!] key generation failed'' @ NL) s
           | Some (ok, pk, priv, _) \<Rightarrow>
               if \<not> ok then out (''[!] key generation failed'' @ NL) s
               else let s = with_wg (\<lambda>w. w\<lparr>private_key := store_b64 (private_key w) priv CONFIG_WGKEY_MAX\<rparr>) s;
                        b64 = (case b64_text pk 48 of None \<Rightarrow> [] | Some t \<Rightarrow> t)
                    in config_proto_dump e (apply_wg_cb (outs
                         [''[*] keypair generated on-device; the private key never leaves it'' @ NL,
                          ''    public key: '', b64,
                          NL @ ''    give this to the WireGuard admin, then `save`'' @ NL] s)))"

definition cmd_pubkey :: "cp_env \<Rightarrow> console \<Rightarrow> console" where
  "cmd_pubkey e s =
     (case config_proto_pubkey e (cfg s) 48 of
        Some b64 \<Rightarrow> outs [b64, NL] s
      | None \<Rightarrow> out (''ERR no usable private key -- genkey (or set key <b64>) first'' @ NL) s)"

definition cmd_reboot :: "string \<Rightarrow> console \<Rightarrow> console" where
  "cmd_reboot cmd s =
     (let b = (to_upper (cmd ! 0) = CHR ''B'')
      in emit (E_reboot b) (out (if b then ''[*] rebooting to UF2 bootloader...'' @ NL else ''[*] rebooting...'' @ NL) s))"

definition cmd_save :: "cp_env \<Rightarrow> console \<Rightarrow> console" where
  "cmd_save e s =
     (let (ok, c, f) = config_save (flash_of e) (cfg s) (flash s);
          s = s\<lparr>cfg := c, flash := f\<rparr>;
          s = (if ok then emit E_note_saved s else s)
      in config_proto_dump e (out (if ok then ''[*] saved to flash'' @ NL else ''[!] save failed'' @ NL) s))"

definition cmd_restore :: "cp_env \<Rightarrow> console \<Rightarrow> console" where
  "cmd_restore e s =
     (let s = s\<lparr>cfg := config_load (build_of e) (flash s)\<rparr>;
          s = out (''[*] restored saved settings'' @ NL) (emit E_note_saved s)
      in config_proto_dump e (apply_wg_cb (apply_cb s)))"

definition main_usage :: string where
  "main_usage =
     ''[!] commands: set <ssid|pass|country|debug|key|peer|psk|endpoint|addr|'' @
     ''hostip|dns|keepalive|mtu|routes|exit|exitlan|apssid|appass|apaddr|apclient|ap> <val> | '' @
     ''genkey [force] | pubkey | pcap <on|off|clear> | list | join <ssid> | '' @
     ''use <n> | del <n> | scan | save | restore | reboot | bootsel'' @ NL"

definition handle_main :: "cp_env \<Rightarrow> string \<Rightarrow> string option \<Rightarrow> console \<Rightarrow> console" where
  "handle_main e cmd args s =
     (if strcasecmp_eq cmd ''SET'' \<and> args \<noteq> None
      then case cmd_set e (the args) s of (r, s) \<Rightarrow> after_set e r s
      else if strcasecmp_eq cmd ''LIST'' then list_profiles e s
      else if strcasecmp_eq cmd ''JOIN'' \<and> args \<noteq> None
      then config_proto_dump e (join_ssid (the args) None s)
      else if strcasecmp_eq cmd ''USE'' \<and> args \<noteq> None then cmd_use e (the args) s
      else if strcasecmp_eq cmd ''DEL'' \<and> args \<noteq> None then cmd_del e (the args) s
      else if strcasecmp_eq cmd ''PCAP'' \<and> args \<noteq> None then cmd_pcap (the args) s
      else if strcasecmp_eq cmd ''GENKEY'' then cmd_genkey e args s
      else if strcasecmp_eq cmd ''PUBKEY'' then cmd_pubkey e s
      else if strcasecmp_eq cmd ''BOOTSEL'' \<or> strcasecmp_eq cmd ''REBOOT'' then cmd_reboot cmd s
      else if strcasecmp_eq cmd ''SCAN'' then start_scan e s
      else if strcasecmp_eq cmd ''SAVE'' then cmd_save e s
      else if strcasecmp_eq cmd ''RESTORE'' then cmd_restore e s
      else out main_usage s)"

definition handle_scan :: "cp_env \<Rightarrow> string \<Rightarrow> string option \<Rightarrow> console \<Rightarrow> console" where
  "handle_scan e cmd args s =
     (if strcasecmp_eq cmd ''BACK'' then config_proto_dump e (s\<lparr>g_mode := MODE_MAIN\<rparr>)
      else if strcasecmp_eq cmd ''SCAN'' then start_scan e s
      else if strcasecmp_eq cmd ''LIVE'' then
        let s = emit E_wifi_leave s;
            (ok, w, leave) = wifi_scan_start (sta_link_up (live e)) (scan_accepted e) (scanner s);
            s = s\<lparr>scanner := w\<rparr>; s = (if leave then emit E_wifi_leave s else s)
        in if ok then out (''[*] live scan -- press any key to stop'' @ NL) (s\<lparr>g_mode := MODE_CONTSCAN\<rparr>)
           else out (''[!] scan failed to start'' @ NL) s
      else if strcasecmp_eq cmd ''JOIN'' \<and> args \<noteq> None then
        let i = parse_index (the args) (wifi_scan_count (scanner s))
        in if i < 0 then out (''ERR usage: join <n> (see the list)'' @ NL) s
           else let en = results (scanner s) ! nat i; s = s\<lparr>g_mode := MODE_MAIN\<rparr>
                in config_proto_dump e (join_ssid (e_ssid en) (Some (e_auth en = 0)) s)
      else out (''[!] scan: back | join <n> | scan | live'' @ NL) s)"

section \<open>Lines and polling\<close>

definition trim_end :: "string \<Rightarrow> string" where
  "trim_end line = rev (dropWhile (\<lambda>c. c = CHR 0x0D \<or> c = CHR '' '') (rev line))"

definition config_proto_handle_line :: "cp_env \<Rightarrow> string \<Rightarrow> console \<Rightarrow> console" where
  "config_proto_handle_line e line s =
     (let line = trim_end line
      in if line = [] then (if g_mode s = MODE_SCAN then list_scan e s else config_proto_dump e s)
         else let (cmd, args) = (case cut CHR '' '' line of None \<Rightarrow> (line, None) | Some (a, b) \<Rightarrow> (a, Some b))
              in if g_mode s = MODE_SCAN then handle_scan e cmd args s else handle_main e cmd args s)"

definition config_proto_scanning :: "console \<Rightarrow> bool" where
  "config_proto_scanning s \<longleftrightarrow>
     wifi_scan_in_progress (scanner s) \<or> g_mode s = MODE_CONTSCAN \<or> scan_rounds s > 0"

definition config_proto_prompt :: "console \<Rightarrow> string" where
  "config_proto_prompt s =
     (if g_mode s = MODE_CONTSCAN then []
      else if g_mode s = MODE_SCAN
      then (if wifi_scan_in_progress (scanner s) then [] else ''(back|join|scan|live) # '')
      else ''(set|scan|join|list|use|save) # '')"

definition config_proto_poll :: "cp_env \<Rightarrow> console \<Rightarrow> console" where
  "config_proto_poll e s =
     (if g_mode s = MODE_CONTSCAN then
        let (done, w) = wifi_scan_poll (scan_active e) (scanner s); s = s\<lparr>scanner := w\<rparr>;
            s = (if done then stream_scan s else s)
        in if \<not> wifi_scan_in_progress (scanner s)
           then let (ok, w, leave) = wifi_scan_start (sta_link_up (live e)) (scan_accepted e) (scanner s);
                    s = s\<lparr>scanner := w\<rparr>
                in if leave then emit E_wifi_leave s else s
           else s
      else if scan_rounds s = 0 then s
      else
        let (done, w) = wifi_scan_poll (scan_active e) (scanner s); s = s\<lparr>scanner := w\<rparr>;
            s = (if done
                 then let s = s\<lparr>scan_rounds := scan_rounds s - 1\<rparr>
                      in if scan_rounds s > 0 then out ''.'' s else s
                 else s)
        in if scan_rounds s > 0
           then if \<not> wifi_scan_in_progress (scanner s)
                then s\<lparr>scanner := snd (wifi_scan_again (scan_accepted e) (scanner s))\<rparr> else s
           else if g_mode s = MODE_SCAN
           then let s = list_scan e (out NL s) in out (config_proto_prompt s) s
           else s)"

definition config_proto_contscan_active :: "console \<Rightarrow> bool" where
  "config_proto_contscan_active s \<longleftrightarrow> g_mode s = MODE_CONTSCAN"

definition config_proto_owns_scan :: "console \<Rightarrow> bool" where
  "config_proto_owns_scan s \<longleftrightarrow> scan_rounds s > 0 \<or> g_mode s \<noteq> MODE_MAIN"

definition config_proto_contscan_stop :: "cp_env \<Rightarrow> console \<Rightarrow> console" where
  "config_proto_contscan_stop e s =
     list_scan e (out (NL @ ''[*] stopped'' @ NL)
       (s\<lparr>scanner := wifi_scan_stop (scanner s), scan_rounds := 0, g_mode := MODE_SCAN\<rparr>))"

section \<open>Settings are changed whole or not at all\<close>

lemma out_simps [simp]:
  "cfg (out t s) = cfg s" "flash (out t s) = flash s" "scanner (out t s) = scanner s" "g_mode (out t s) = g_mode s"
  "scan_rounds (out t s) = scan_rounds s" "events (out t s) = events s @ [E_out t]" "g_apply (out t s) = g_apply s"
  "g_apply_wg (out t s) = g_apply_wg s" "g_apply_ap (out t s) = g_apply_ap s"
  by (simp_all add: out_def)

lemma outs_simps [simp]:
  "cfg (outs ts s) = cfg s" "flash (outs ts s) = flash s" "scanner (outs ts s) = scanner s" "g_mode (outs ts s) = g_mode s"
  "scan_rounds (outs ts s) = scan_rounds s" "events (outs ts s) = events s @ map E_out ts" "g_apply (outs ts s) = g_apply s"
  "g_apply_wg (outs ts s) = g_apply_wg s" "g_apply_ap (outs ts s) = g_apply_ap s"
  by (simp_all add: outs_def)

lemma emit_simps [simp]:
  "cfg (emit v s) = cfg s" "flash (emit v s) = flash s" "scanner (emit v s) = scanner s" "g_mode (emit v s) = g_mode s"
  "scan_rounds (emit v s) = scan_rounds s" "events (emit v s) = events s @ [v]" "g_apply (emit v s) = g_apply s"
  "g_apply_wg (emit v s) = g_apply_wg s" "g_apply_ap (emit v s) = g_apply_ap s"
  by (simp_all add: emit_def)

lemma with_simps [simp]:
  "events (with_wg f s) = events s" "flash (with_wg f s) = flash s" "scanner (with_wg f s) = scanner s"
  "g_mode (with_wg f s) = g_mode s" "scan_rounds (with_wg f s) = scan_rounds s" "cfg (with_wg f s) = (cfg s)\<lparr>wg := f (wg (cfg s))\<rparr>"
  "events (with_ap g s) = events s" "flash (with_ap g s) = flash s" "scanner (with_ap g s) = scanner s"
  "g_mode (with_ap g s) = g_mode s" "scan_rounds (with_ap g s) = scan_rounds s" "cfg (with_ap g s) = (cfg s)\<lparr>ap := g (ap (cfg s))\<rparr>"
  "events (with_profile i h s) = events s" "flash (with_profile i h s) = flash s" "scanner (with_profile i h s) = scanner s"
  "g_mode (with_profile i h s) = g_mode s" "scan_rounds (with_profile i h s) = scan_rounds s"
  "cfg (with_profile i h s) = (cfg s)\<lparr>profiles := (profiles (cfg s))[i := h (profiles (cfg s) ! i)]\<rparr>"
  by (simp_all add: with_wg_def with_ap_def with_profile_def)

lemma config_proto_dump_simps [simp]:
  "cfg (config_proto_dump e s) = cfg s" "flash (config_proto_dump e s) = flash s" "scanner (config_proto_dump e s) = scanner s"
  "g_mode (config_proto_dump e s) = g_mode s" "scan_rounds (config_proto_dump e s) = scan_rounds s"
  by (simp_all add: config_proto_dump_def)

text \<open>The operations of \<open>cmd_set\<close>, as one collection, and the two shapes a result has.\<close>

lemmas set_defs = set_ssid_def set_pass_def set_country_def set_debug_def set_key_def set_peer_def set_psk_def
  set_endpoint_def set_addr_def set_hostip_def set_dns_def set_routes_def set_keepalive_def set_mtu_def
  set_exit_def set_exitlan_def set_apssid_def set_appass_def set_apaddr_def set_apclient_def set_ap_def

definition quiet :: "console \<Rightarrow> console \<Rightarrow> bool" where
  "quiet s s' \<longleftrightarrow> g_mode s' = g_mode s \<and> scan_rounds s' = scan_rounds s \<and> scanner s' = scanner s \<and> flash s' = flash s \<and>
     (events s' = events s \<or> events s' = events s @ [E_creds_unsaved])"

definition all_or_nothing :: "console \<Rightarrow> set_result \<times> console \<Rightarrow> bool" where
  "all_or_nothing s r \<longleftrightarrow> (case r of (res, s') \<Rightarrow>
     if res = SET_ERR then \<exists>t. s' = out (''ERR '' @ t @ NL) s else quiet s s')"

lemma all_or_nothing_err [simp]: "all_or_nothing s (err (CHR ''E'' # CHR ''R'' # CHR ''R'' # CHR '' '' # t) s)"
  by (auto simp: all_or_nothing_def err_def)

lemma all_or_nothing_ok:
  "quiet s s' \<Longrightarrow> res \<noteq> SET_ERR \<Longrightarrow> all_or_nothing s (res, s')"
  by (simp add: all_or_nothing_def)

lemma quiet_simps [simp]:
  "quiet s (with_wg f s)" "quiet s (with_ap g s)" "quiet s (with_profile i h s)" "quiet s (s\<lparr>cfg := c\<rparr>)"
  "quiet s (emit E_creds_unsaved (with_profile i h s))" "quiet s (emit E_creds_unsaved (s\<lparr>cfg := c\<rparr>))"
  by (simp_all add: quiet_def)

lemma with_wg_same: "with_wg (\<lambda>w. w) s = s"
  by (simp add: with_wg_def)

lemma set_wg_key_shape:
  assumes "set_wg_key field cap val off s = (r, k, s')"
  shows "(\<exists>t. r = SET_ERR \<and> k = field \<and> s' = out (''ERR '' @ t @ NL) s) \<or> r = SET_WG \<and> s' = s"
proof (cases "r = SET_ERR")
  case True
  then have "r = SET_ERR \<and> k = field \<and> s' = out (''ERR '' @ ''not a WireGuard key (base64, 32 bytes)'' @ NL) s"
    using assms by (auto simp: set_wg_key_def split: if_splits)
  then show ?thesis by blast
qed (use assms in \<open>auto simp: set_wg_key_def split: if_splits\<close>)

lemma set_keys_all_or_nothing:
  "all_or_nothing s (set_key val s)" "all_or_nothing s (set_peer val s)" "all_or_nothing s (set_psk val s)"
proof -
  have u: "with_wg (\<lambda>w. w\<lparr>private_key := private_key (wg (cfg s))\<rparr>) (out t s) = out t s"
    "with_wg (\<lambda>w. w\<lparr>peer_public := peer_public (wg (cfg s))\<rparr>) (out t s) = out t s"
    "with_wg (\<lambda>w. w\<lparr>psk := psk (wg (cfg s))\<rparr>) (out t s) = out t s" for t
    by (simp_all add: with_wg_def)
  show "all_or_nothing s (set_key val s)" "all_or_nothing s (set_peer val s)" "all_or_nothing s (set_psk val s)"
    unfolding set_key_def set_peer_def set_psk_def
    by (auto split: prod.split dest!: set_wg_key_shape simp: all_or_nothing_def u)
qed

lemma sets_all_or_nothing:
  "all_or_nothing s (set_ssid val s)" "all_or_nothing s (set_pass val s)" "all_or_nothing s (set_country e val s)"
  "all_or_nothing s (set_debug val s)" "all_or_nothing s (set_endpoint val s)" "all_or_nothing s (set_addr e val s)"
  "all_or_nothing s (set_hostip e val s)" "all_or_nothing s (set_dns e val s)" "all_or_nothing s (set_keepalive val s)"
  "all_or_nothing s (set_mtu val s)" "all_or_nothing s (set_exit val s)" "all_or_nothing s (set_exitlan val s)"
  "all_or_nothing s (set_apssid val s)" "all_or_nothing s (set_appass val s)" "all_or_nothing s (set_apaddr e val s)"
  "all_or_nothing s (set_apclient e val s)" "all_or_nothing s (set_ap val s)"
  unfolding set_defs Let_def
  by (auto intro!: all_or_nothing_ok split: prod.split option.split)

lemma parse_routes_Inl: "parse_routes e tok parsed n = Inl t \<Longrightarrow> \<exists>u. t = ''ERR '' @ u"
proof (induction e tok parsed n rule: parse_routes.induct)
  case (1 e tok parsed n)
  then show ?case
    by (subst (asm) (2) parse_routes.simps) (auto simp: Let_def split: if_splits option.splits)
qed

lemma set_routes_all_or_nothing: "all_or_nothing s (set_routes e val s)"
  unfolding set_routes_def Let_def
  by (auto intro!: all_or_nothing_ok split: sum.split dest!: parse_routes_Inl)

lemma cmd_set_all_or_nothing: "all_or_nothing s (cmd_set e args s)"
  unfolding cmd_set_def
  by (auto simp: sets_all_or_nothing set_keys_all_or_nothing set_routes_all_or_nothing split: option.split)

section \<open>An accepted key\<close>

text \<open>Where the decoder is after \<open>n\<close> characters: in whole blocks, or past the one block that may be padded, after
  which only padding can follow and no block can be completed.\<close>

definition b64_at :: "nat \<Rightarrow> b64_state \<Rightarrow> bool" where
  "b64_at n s \<longleftrightarrow> 0 \<le> byte_count s \<and> byte_count s \<le> 3 \<and>
     ((\<exists>q. n = 4 * q + char_count s \<and> char_count s < 4 \<and> length (written s) = 3 * q \<and> (char_count s = 0 \<longrightarrow> byte_count s = 3)) \<or>
      (\<exists>q. n = 4 * q + 4 + char_count s \<and> (length (written s) = 3 * q + 1 \<or> length (written s) = 3 * q + 2) \<and>
           int (char_count s) + byte_count s \<le> 2))"

lemma decode_char_pos:
  assumes "decode_char c n = Some (bits, bc)" "0 \<le> n" "n \<le> 3"
  shows "c \<noteq> 0" "0 \<le> bc" "bc \<le> 3" "bc = n \<and> n = 3 \<or> bc = n - 1"
proof -
  have "strchr base64_lookup 0 = None" by code_simp
  then show "c \<noteq> 0" using assms(1) by (auto simp: decode_char_def split: if_splits)
  show "0 \<le> bc" "bc \<le> 3" "bc = n \<and> n = 3 \<or> bc = n - 1"
    using decode_char_count [OF assms(1)] assms(2,3) by auto
qed

lemma b64_at_char:
  assumes "b64_at n s" "decode_char c (byte_count s) = Some (bits, bc)" "char_count s + 1 \<noteq> 4"
  shows "b64_at (Suc n) (s\<lparr>byte_count := bc, accum := a, char_count := char_count s + 1\<rparr>)"
proof -
  have b: "0 \<le> byte_count s" "byte_count s \<le> 3" using assms(1) by (simp_all add: b64_at_def)
  note d = decode_char_pos [OF assms(2) b]
  show ?thesis using assms(1,3) d(2-4) unfolding b64_at_def by auto
qed

lemma b64_at_block:
  assumes "b64_at n s" "decode_char c (byte_count s) = Some (bits, bc)" "char_count s + 1 = 4"
    and "byte_count t = bc" "char_count t = 0"
    and "length (written t) = length (written s) + 1 + (if bc > 1 then 1 else 0) + (if bc > 2 then 1 else 0)"
  shows "b64_at (Suc n) t"
proof -
  have b: "0 \<le> byte_count s" "byte_count s \<le> 3" using assms(1) by (simp_all add: b64_at_def)
  note d = decode_char_pos [OF assms(2) b]
  obtain q where q: "n = 4 * q + 3" "length (written s) = 3 * q"
    using assms(1,3) b(1) by (auto simp: b64_at_def)
  consider "bc = 3" | "bc = 2" | "bc = 0 \<or> bc = 1" using d(2,3) by linarith
  then show ?thesis
    by cases (use q assms(4-6) in \<open>auto simp: b64_at_def intro: exI [of _ "Suc q"] exI [of _ q]\<close>)
qed

lemma decode_loop_at:
  "b64_at n s \<Longrightarrow> decode_loop room cs s = (True, s') \<Longrightarrow> b64_at (n + length cs) s' \<and> 0 \<notin> set cs"
proof (induction cs arbitrary: n s)
  case (Cons c cs)
  obtain bits bc where d: "decode_char c (byte_count s) = Some (bits, bc)"
    using Cons.prems(2) by (auto split: option.splits)
  have c0: "c \<noteq> 0" using decode_char_pos(1) [OF d] Cons.prems(1) by (simp add: b64_at_def)
  show ?case
  proof (cases "char_count s + 1 = 4")
    case True
    obtain t where t: "decode_loop room cs t = (True, s')" "byte_count t = bc" "char_count t = 0"
        "length (written t) = length (written s) + 1 + (if bc > 1 then 1 else 0) + (if bc > 2 then 1 else 0)"
      using Cons.prems(2) d True by (fastforce simp: Let_def split: if_splits)
    show ?thesis using Cons.IH [OF b64_at_block [OF Cons.prems(1) d True t(2-4)] t(1)] c0 by simp
  next
    case False
    note b = b64_at_char [OF Cons.prems(1) d False]
    show ?thesis using Cons.prems(2) d False c0 Cons.IH [OF b] by (auto simp: Let_def)
  qed
qed simp

lemma valid_wg_key_text:
  assumes "valid_wg_key s"
  shows "length s = 44" "NUL \<notin> set s"
proof -
  obtain st where st: "decode_loop 64 (ascii s) \<lparr>accum = 0, char_count = 0, byte_count = 3, written = []\<rparr> = (True, st)"
      "char_count st = 0" "length (written st) = 32"
    using assms by (auto simp: valid_wg_key_def wireguard_base64_decode_def split: prod.splits)
  have "b64_at 0 \<lparr>accum = 0, char_count = 0, byte_count = 3, written = []\<rparr>" by (simp add: b64_at_def)
  from decode_loop_at [OF this st(1)] have b: "b64_at (length (ascii s)) st" "0 \<notin> set (ascii s)" by simp_all
  obtain q where "32 = 3 * q \<or> length (ascii s) = 4 * q + 4 \<and> (32 = 3 * q + 1 \<or> 32 = 3 * q + 2)"
    using b(1) st(2,3) by (auto simp: b64_at_def)
  then have "length (ascii s) = 44" by presburger
  then show "length s = 44" by (simp add: ascii_def)
  have "of_char NUL = (0 :: u8)" by simp
  then show "NUL \<notin> set s" using b(2) by (metis ascii_def image_eqI list.set_map)
qed

lemma c_str_store_str:
  assumes "length dst = cap" "0 < cap"
  shows "c_str (store_str dst val cap) = take (cap - 1) (c_str val)" "length (store_str dst val cap) = cap"
  using c_str_strncpy_term [of dst "cap - 1" val] assms by (simp_all add: store_str_def)

section \<open>The settings stay valid\<close>

definition key_ok :: "string \<Rightarrow> bool" where
  "key_ok k \<longleftrightarrow> length k = CONFIG_WGKEY_MAX \<and> (c_str k = [] \<or> valid_wg_key (c_str k))"

definition prefix_ok :: "u8 \<Rightarrow> bool" where
  "prefix_ok p \<longleftrightarrow> p = 0 \<or> 8 \<le> unat p \<and> unat p \<le> 30"

definition route_ok :: "wg_route \<Rightarrow> bool" where
  "route_ok r \<longleftrightarrow> 1 \<le> unat (r_prefix r) \<and> unat (r_prefix r) \<le> 32"

definition wg_ok :: "wg_config \<Rightarrow> bool" where
  "wg_ok w \<longleftrightarrow> wg_wf w \<and> key_ok (private_key w) \<and> key_ok (peer_public w) \<and> key_ok (psk w) \<and>
     length (c_str (endpoint w)) < CONFIG_ENDPOINT_MAX \<and> unat (keepalive w) \<le> 65000 \<and>
     (host_mtu w = 0 \<or> 576 \<le> unat (host_mtu w) \<and> unat (host_mtu w) \<le> 1420) \<and>
     exit_enabled w \<le> 1 \<and> exit_lan w \<le> 1 \<and> prefix_ok (wg_prefix w) \<and>
     unat (route_count w) \<le> CONFIG_ROUTES_MAX \<and> (\<forall>i < unat (route_count w). route_ok (routes w ! i))"

definition ap_ok :: "ap_config \<Rightarrow> bool" where
  "ap_ok a \<longleftrightarrow> ap_wf a \<and> length (c_str (ap_ssid a)) < CONFIG_SSID_MAX \<and>
     (c_str (ap_password a) = [] \<or> 8 \<le> length (c_str (ap_password a)) \<and> length (c_str (ap_password a)) \<le> 63) \<and>
     prefix_ok (ap_prefix a) \<and> ap_enabled a \<le> 1"

definition settings_ok :: "config \<Rightarrow> bool" where
  "settings_ok c \<longleftrightarrow> config_wf c \<and> debug_enabled c \<le> 1 \<and> wg_ok (wg c) \<and> ap_ok (ap c)"

lemma settings_wg: "settings_ok c \<Longrightarrow> wg_ok w \<Longrightarrow> settings_ok (c\<lparr>wg := w\<rparr>)"
  by (simp add: settings_ok_def config_wf_def wg_ok_def)

lemma settings_ap: "settings_ok c \<Longrightarrow> ap_ok a \<Longrightarrow> settings_ok (c\<lparr>ap := a\<rparr>)"
  by (simp add: settings_ok_def config_wf_def ap_ok_def)

lemma settings_profile:
  assumes "settings_ok c" "profile_wf p"
  shows "settings_ok (c\<lparr>profiles := (profiles c)[i := p]\<rparr>)"
proof (cases "i < length (profiles c)")
  case True
  then show ?thesis
    using assms by (auto simp: settings_ok_def config_wf_def list_all_length nth_list_update)
qed (use assms in \<open>simp add: list_update_beyond\<close>)

lemma settings_misc:
  "settings_ok c \<Longrightarrow> settings_ok (c\<lparr>country := x\<rparr>)"
  "settings_ok c \<Longrightarrow> settings_ok (c\<lparr>debug_enabled := 0\<rparr>)"
  "settings_ok c \<Longrightarrow> settings_ok (c\<lparr>debug_enabled := 1\<rparr>)"
  "settings_ok c \<Longrightarrow> i < profile_count c \<Longrightarrow> settings_ok (c\<lparr>active := i\<rparr>)"
  "settings_ok c \<Longrightarrow> settings_ok (sealed c)"
  by (simp_all add: settings_ok_def config_wf_def sealed_def)

lemma settings_del: "settings_ok c \<Longrightarrow> settings_ok (config_del_profile c i)"
  using config_wf_del [of c i] by (simp add: settings_ok_def) (simp add: config_del_profile_def Let_def)

lemma settings_add:
  assumes "settings_ok c" "config_add_profile c s = (c', i)"
  shows "0 \<le> i" "nat i < profile_count c'" "settings_ok (c'\<lparr>active := nat i\<rparr>)"
proof -
  have wf: "config_wf c" using assms(1) by (simp add: settings_ok_def)
  note a = config_add_spec(1,3,5) [OF wf, of s, unfolded assms(2) fst_conv snd_conv]
  have o: "debug_enabled c' = debug_enabled c" "wg c' = wg c" "ap c' = ap c"
    using assms(2) config_add_alt [OF wf, of s] by (auto simp: Let_def config_del_profile_def split: if_splits)
  show "0 \<le> i" using a(3) by simp
  have "length (saved c') = profile_count c'" by (rule config_wfD(5) [OF a(2)])
  then show n: "nat i < profile_count c'" using a(1,3) by simp
  show "settings_ok (c'\<lparr>active := nat i\<rparr>)"
    using assms(1) a(2) o n by (auto simp: settings_ok_def config_wf_def)
qed

lemma profile_wf_store:
  assumes "profile_wf p"
  shows "profile_wf (p\<lparr>ssid := store_str (ssid p) val CONFIG_SSID_MAX\<rparr>)"
    and "profile_wf (p\<lparr>password := store_str (password p) val CONFIG_PASS_MAX\<rparr>)"
  using assms c_str_store_str [of "ssid p" CONFIG_SSID_MAX val] c_str_store_str [of "password p" CONFIG_PASS_MAX val]
  by (simp_all add: profile_wf_def)

lemma settings_profile_wf:
  assumes "settings_ok c" "i < profile_count c"
  shows "profile_wf (profiles c ! i)"
  using assms by (auto simp: settings_ok_def config_wf_def list_all_length)

lemma key_ok_store:
  assumes "length k = CONFIG_WGKEY_MAX" "valid_wg_key val"
  shows "key_ok (store_str k val CONFIG_WGKEY_MAX)" "c_str (store_str k val CONFIG_WGKEY_MAX) = val"
proof -
  have "c_str val = val" "length val = 44" using valid_wg_key_text [OF assms(2)] by (simp_all add: c_str_id)
  then show v: "c_str (store_str k val CONFIG_WGKEY_MAX) = val"
    using c_str_store_str(1) [OF assms(1), of val] by simp
  show "key_ok (store_str k val CONFIG_WGKEY_MAX)"
    using c_str_store_str(2) [OF assms(1), of val] assms(2) unfolding key_ok_def v by simp
qed

lemma set_wg_key_ok:
  assumes "set_wg_key k CONFIG_WGKEY_MAX val off s = (r, k', s')" "key_ok k"
  shows "key_ok k'" "cfg s' = cfg s"
proof -
  have "key_ok (k[0 := NUL])" using assms(2) by (cases k) (auto simp: key_ok_def c_str_def)
  then show "key_ok k'" "cfg s' = cfg s"
    using assms key_ok_store [of k val] by (auto simp: set_wg_key_def key_ok_def split: if_splits)
qed

lemma wg_ok_simps:
  assumes "wg_ok w"
  shows "key_ok k \<Longrightarrow> wg_ok (w\<lparr>private_key := k\<rparr>)" "key_ok k \<Longrightarrow> wg_ok (w\<lparr>peer_public := k\<rparr>)"
    "key_ok k \<Longrightarrow> wg_ok (w\<lparr>psk := k\<rparr>)"
    "wg_ok (w\<lparr>endpoint := store_str (endpoint w) val CONFIG_ENDPOINT_MAX, endpoint_port := n\<rparr>)"
    "prefix_ok p \<Longrightarrow> wg_ok (w\<lparr>wg_addr := a, wg_prefix := p\<rparr>)" "wg_ok (w\<lparr>host_addr := a\<rparr>)" "wg_ok (w\<lparr>wg_dns := a\<rparr>)"
    "unat m \<le> 65000 \<Longrightarrow> wg_ok (w\<lparr>keepalive := m\<rparr>)"
    "m = 0 \<or> 576 \<le> unat m \<and> unat m \<le> 1420 \<Longrightarrow> wg_ok (w\<lparr>host_mtu := m\<rparr>)"
    "b \<le> 1 \<Longrightarrow> wg_ok (w\<lparr>exit_enabled := b\<rparr>)" "b \<le> 1 \<Longrightarrow> wg_ok (w\<lparr>exit_lan := b\<rparr>)"
    "wg_ok (w\<lparr>route_count := 0\<rparr>)"
  using assms c_str_store_str [of "endpoint w" CONFIG_ENDPOINT_MAX val]
  by (simp_all add: wg_ok_def wg_wf_def key_ok_def)

lemma ap_ok_simps:
  assumes "ap_ok a"
  shows "ap_ok (a\<lparr>ap_ssid := store_str (ap_ssid a) val CONFIG_SSID_MAX\<rparr>)"
    "prefix_ok p \<Longrightarrow> ap_ok (a\<lparr>ap_addr := x, ap_prefix := p\<rparr>)" "ap_ok (a\<lparr>client_addr := x\<rparr>)"
    "b \<le> 1 \<Longrightarrow> ap_ok (a\<lparr>ap_enabled := b\<rparr>)"
    "NUL \<notin> set val \<Longrightarrow> 8 \<le> length val \<Longrightarrow> length val \<le> 63 \<Longrightarrow>
     ap_ok (a\<lparr>ap_password := store_str (ap_password a) val CONFIG_PASS_MAX\<rparr>)"
  using assms c_str_store_str [of "ap_ssid a" CONFIG_SSID_MAX val] c_str_store_str [of "ap_password a" CONFIG_PASS_MAX val]
  by (simp_all add: ap_ok_def ap_wf_def c_str_id)

lemma unat_small_u8: "0 \<le> (p :: int) \<Longrightarrow> p < 256 \<Longrightarrow> unat (word_of_int p :: u8) = nat p"
  by (simp add: unsigned_of_int take_bit_int_eq_self)

lemma unat_small_u16: "0 \<le> (p :: int) \<Longrightarrow> p < 65536 \<Longrightarrow> unat (word_of_int p :: u16) = nat p"
  by (simp add: unsigned_of_int take_bit_int_eq_self)

lemma parse_cidr_ok: "parse_cidr e val nn = Some (a, p) \<Longrightarrow> prefix_ok p \<and> a \<noteq> 0"
  by (auto simp: parse_cidr_def Let_def prefix_ok_def unat_small_u8 split: if_splits)

lemma list_all_update: "list_all P xs \<Longrightarrow> P x \<Longrightarrow> list_all P (xs[i := x])"
  using set_update_subset_insert [of xs i x] by (auto simp: list_all_iff)

lemma parse_routes_Inr:
  assumes "parse_routes e tok parsed n = Inr (ps, m)"
  obtains (finished) "ps = parsed" "m = n"
  | (more) rest net plen where "length rest < length tok" "n < 4" "1 \<le> plen" "plen \<le> 32"
      "parse_routes e rest (parsed[n := (parsed ! n)\<lparr>r_net := net, r_prefix := word_of_int plen\<rparr>]) (n + 1) = Inr (ps, m)"
proof (cases "tok = []")
  case True
  then show ?thesis using assms finished by (simp add: parse_routes.simps)
next
  case False
  define el rest where "el = (case cut CHR '','' tok of None \<Rightarrow> tok | Some (a, b) \<Rightarrow> a)"
    and "rest = (case cut CHR '','' tok of None \<Rightarrow> [] | Some (a, b) \<Rightarrow> b)"
  have er: "(case cut CHR '','' tok of None \<Rightarrow> (tok, []) | Some (a, b) \<Rightarrow> (a, b)) = (el, rest)"
    by (simp add: el_def rest_def split: option.split)
  have l: "length rest < length tok" using False by (auto simp: rest_def split: option.split dest: cut_shorter)
  obtain t slash where sl: "cut CHR ''/'' el = Some (t, slash)"
    using assms False er by (subst (asm) parse_routes.simps) (auto split: option.splits)
  have "n < 4" "1 \<le> fst (strtol slash)" "fst (strtol slash) \<le> 32"
    "parse_routes e rest (parsed[n := (parsed ! n)\<lparr>r_net := parse_ip4 e t, r_prefix := word_of_int (fst (strtol slash))\<rparr>]) (n + 1) = Inr (ps, m)"
    using assms False er sl by (subst (asm) parse_routes.simps, auto simp: Let_def split: if_splits)+
  then show ?thesis using more l by blast
qed

lemma parse_routes_ok:
  "parse_routes e tok parsed n = Inr (ps, m) \<Longrightarrow> length parsed = 4 \<Longrightarrow> list_all route_wf parsed \<Longrightarrow> n \<le> 4 \<Longrightarrow>
   \<forall>i < n. route_ok (parsed ! i) \<Longrightarrow>
   length ps = 4 \<and> list_all route_wf ps \<and> m \<le> 4 \<and> (\<forall>i < m. route_ok (ps ! i))"
proof (induction tok arbitrary: parsed n rule: length_induct)
  case (1 tok)
  from "1.prems"(1) show ?case
  proof (cases rule: parse_routes_Inr)
    case (more rest net plen)
    let ?r = "(parsed ! n)\<lparr>r_net := net, r_prefix := word_of_int plen\<rparr>"
    have "route_wf (parsed ! n)" using "1.prems"(2,3) more(2) by (simp add: list_all_length)
    then have "route_wf ?r" by (simp add: route_wf_def)
    then have "list_all route_wf (parsed[n := ?r])" by (rule list_all_update [OF "1.prems"(3)])
    moreover have "\<forall>i < n + 1. route_ok (parsed[n := ?r] ! i)"
      using "1.prems"(2,5) more(2-4) by (auto simp: nth_list_update route_ok_def unat_small_u8 less_Suc_eq)
    ultimately show ?thesis using "1.IH" [rule_format, OF more(1,5)] "1.prems"(2) more(2) by simp
  qed (use "1.prems" in simp)
qed

text \<open>What the environment supplies: a documented flash driver, which leaves the sector alone when it fails; an array
  of four routes on the stack.\<close>

definition env_ok :: "wifi_build \<Rightarrow> cp_env \<Rightarrow> bool" where
  "env_ok B e \<longleftrightarrow> build_of e = B \<and> flash_driver_ok (flash_of e) \<and>
     (\<forall>f s. \<not> fst (flash_safe_execute (flash_of e) f s) \<longrightarrow> snd (flash_safe_execute (flash_of e) f s) = s) \<and>
     length (parsed_stack e) = CONFIG_ROUTES_MAX \<and> list_all route_wf (parsed_stack e)"

lemma settings_with [intro]:
  "settings_ok (cfg s) \<Longrightarrow> wg_ok (f (wg (cfg s))) \<Longrightarrow> settings_ok (cfg (with_wg f s))"
  "settings_ok (cfg s) \<Longrightarrow> ap_ok (g (ap (cfg s))) \<Longrightarrow> settings_ok (cfg (with_ap g s))"
  by (simp_all add: settings_wg settings_ap)

lemma settings_parts: "settings_ok c \<Longrightarrow> wg_ok (wg c)" "settings_ok c \<Longrightarrow> ap_ok (ap c)"
  by (simp_all add: settings_ok_def)

lemma set_keys_settings:
  assumes "settings_ok (cfg s)"
  shows "settings_ok (cfg (snd (set_key val s)))" "settings_ok (cfg (snd (set_peer val s)))"
    "settings_ok (cfg (snd (set_psk val s)))"
proof -
  have w: "wg_ok (wg (cfg s))" using assms by (rule settings_parts)
  then have k: "key_ok (private_key (wg (cfg s)))" "key_ok (peer_public (wg (cfg s)))" "key_ok (psk (wg (cfg s)))"
    by (simp_all add: wg_ok_def)
  show "settings_ok (cfg (snd (set_key val s)))"
    using assms set_wg_key_ok [OF _ k(1), of val False s] wg_ok_simps(1) [OF w]
    by (auto simp: set_key_def settings_wg split: prod.split)
  show "settings_ok (cfg (snd (set_peer val s)))"
    using assms set_wg_key_ok [OF _ k(2), of val False s] wg_ok_simps(2) [OF w]
    by (auto simp: set_peer_def settings_wg split: prod.split)
  show "settings_ok (cfg (snd (set_psk val s)))"
    using assms set_wg_key_ok [OF _ k(3), of val True s] wg_ok_simps(3) [OF w]
    by (auto simp: set_psk_def settings_wg split: prod.split)
qed

lemma err_settings [simp]: "cfg (snd (err t s)) = cfg s"
  by (simp add: err_def)

lemma set_profile_settings:
  assumes "settings_ok (cfg s)"
  shows "settings_ok (cfg (snd (set_ssid val s)))" "settings_ok (cfg (snd (set_pass val s)))"
proof -
  show "settings_ok (cfg (snd (set_ssid val s)))"
    using assms by (auto simp: set_ssid_def Let_def settings_profile profile_wf_store settings_profile_wf settings_add
      split: prod.split)
  show "settings_ok (cfg (snd (set_pass val s)))"
    using assms by (auto simp: set_pass_def settings_profile profile_wf_store settings_profile_wf)
qed

lemma set_net_settings:
  assumes "settings_ok (cfg s)"
  shows "settings_ok (cfg (snd (set_endpoint val s)))" "settings_ok (cfg (snd (set_addr e val s)))"
    "settings_ok (cfg (snd (set_hostip e val s)))" "settings_ok (cfg (snd (set_dns e val s)))"
    "settings_ok (cfg (snd (set_keepalive val s)))" "settings_ok (cfg (snd (set_mtu val s)))"
    "settings_ok (cfg (snd (set_exit val s)))" "settings_ok (cfg (snd (set_exitlan val s)))"
proof -
  note w = wg_ok_simps [OF settings_parts(1) [OF assms]]
  show "settings_ok (cfg (snd (set_endpoint val s)))"
    using assms by (auto simp: set_endpoint_def Let_def settings_wg w split: option.split)
  show "settings_ok (cfg (snd (set_addr e val s)))"
    using assms by (auto simp: set_addr_def settings_wg w dest!: parse_cidr_ok split: option.split)
  show "settings_ok (cfg (snd (set_hostip e val s)))" "settings_ok (cfg (snd (set_dns e val s)))"
    "settings_ok (cfg (snd (set_exit val s)))" "settings_ok (cfg (snd (set_exitlan val s)))"
    using assms by (simp_all add: set_hostip_def set_dns_def set_exit_def set_exitlan_def Let_def settings_wg w)
  show "settings_ok (cfg (snd (set_keepalive val s)))"
    using assms by (auto simp: set_keepalive_def Let_def settings_wg w unat_small_u16)
  have "(word_of_int m :: u16) = 0 \<or> 576 \<le> unat (word_of_int m :: u16) \<and> unat (word_of_int m :: u16) \<le> 1420"
    if "\<not> (m \<noteq> 0 \<and> (m < 576 \<or> m > 1420))" for m :: int
    using that by (cases "m = 0") (auto simp: unat_small_u16)
  then show "settings_ok (cfg (snd (set_mtu val s)))"
    using assms by (auto simp: set_mtu_def Let_def settings_wg w)
qed

lemma set_ap_settings:
  assumes "settings_ok (cfg s)"
  shows "settings_ok (cfg (snd (set_apssid val s)))" "settings_ok (cfg (snd (set_apaddr e val s)))"
    "settings_ok (cfg (snd (set_apclient e val s)))" "settings_ok (cfg (snd (set_ap val s)))"
    "NUL \<notin> set val \<Longrightarrow> settings_ok (cfg (snd (set_appass val s)))"
proof -
  note a = ap_ok_simps [OF settings_parts(2) [OF assms]]
  show "settings_ok (cfg (snd (set_apssid val s)))" "settings_ok (cfg (snd (set_apclient e val s)))"
    "settings_ok (cfg (snd (set_ap val s)))"
    "NUL \<notin> set val \<Longrightarrow> settings_ok (cfg (snd (set_appass val s)))"
    using assms by (simp_all add: set_apssid_def set_apclient_def set_ap_def set_appass_def Let_def settings_ap a)
  show "settings_ok (cfg (snd (set_apaddr e val s)))"
    using assms by (auto simp: set_apaddr_def settings_ap a dest!: parse_cidr_ok split: option.split)
qed

lemma set_routes_settings:
  assumes "settings_ok (cfg s)" "env_ok B e"
  shows "settings_ok (cfg (snd (set_routes e val s)))"
proof (cases "parse_routes e val (parsed_stack e) 0")
  case (Inl t)
  then show ?thesis using assms(1) wg_ok_simps(12) [OF settings_parts(1) [OF assms(1)]]
    by (simp add: set_routes_def settings_wg)
next
  case (Inr r)
  obtain ps m where r: "r = (ps, m)" by (cases r)
  have p: "length ps = 4" "list_all route_wf ps" "m \<le> 4" "\<forall>i < m. route_ok (ps ! i)"
    using parse_routes_ok [OF Inr [unfolded r]] assms(2) by (simp_all add: env_ok_def)
  then have "unat (of_nat m :: u8) = m" by (simp add: unat_of_nat_u8)
  then have "wg_ok ((wg (cfg s))\<lparr>routes := ps, route_count := of_nat m\<rparr>)"
    using p settings_parts(1) [OF assms(1)] by (simp add: wg_ok_def wg_wf_def)
  then show ?thesis using assms(1) wg_ok_simps(12) [OF settings_parts(1) [OF assms(1)]] Inr r
    by (simp add: set_routes_def settings_wg)
qed

lemma cmd_set_settings:
  assumes "settings_ok (cfg s)" "env_ok B e" "NUL \<notin> set args"
  shows "settings_ok (cfg (snd (cmd_set e args s)))"
proof (cases "cut CHR '' '' args")
  case None
  then show ?thesis using assms(1) by (simp add: cmd_set_def)
next
  case (Some kv)
  obtain key val where kv: "kv = (key, val)" by (cases kv)
  have n: "NUL \<notin> set val" using cut_Some [OF Some [unfolded kv]] assms(3) by simp
  have d: "settings_ok (cfg (snd (set_country e val s)))" "settings_ok (cfg (snd (set_debug val s)))"
    using assms(1) by (simp_all add: set_country_def set_debug_def settings_misc)
  show ?thesis unfolding cmd_set_def Some kv option.case prod.case
    by (simp add: assms(1) d set_keys_settings set_profile_settings set_net_settings set_ap_settings n
      set_routes_settings [OF assms(1,2)])
qed

text \<open>The invariant of the console: the live settings are valid, and so are the ones a restore would load.\<close>

definition console_ok :: "wifi_build \<Rightarrow> console \<Rightarrow> bool" where
  "console_ok B s \<longleftrightarrow> settings_ok (cfg s) \<and> settings_ok (config_load B (flash s)) \<and> length (flash s) = FLASH_SECTOR_SIZE \<and>
     scan_rounds s \<le> SCAN_PASSES"

lemma console_ok_frame:
  "console_ok B s \<Longrightarrow> cfg s' = cfg s \<Longrightarrow> flash s' = flash s \<Longrightarrow> scan_rounds s' = scan_rounds s \<Longrightarrow> console_ok B s'"
  by (simp add: console_ok_def)

lemma console_ok_cfg:
  "console_ok B s \<Longrightarrow> settings_ok (cfg s') \<Longrightarrow> flash s' = flash s \<Longrightarrow> scan_rounds s' = scan_rounds s \<Longrightarrow> console_ok B s'"
  by (simp add: console_ok_def)

lemma apply_cb_simps [simp]:
  "cfg (apply_cb s) = cfg s" "flash (apply_cb s) = flash s" "scan_rounds (apply_cb s) = scan_rounds s"
  "g_mode (apply_cb s) = g_mode s" "scanner (apply_cb s) = scanner s"
  "cfg (apply_wg_cb s) = cfg s" "flash (apply_wg_cb s) = flash s" "scan_rounds (apply_wg_cb s) = scan_rounds s"
  "g_mode (apply_wg_cb s) = g_mode s" "scanner (apply_wg_cb s) = scanner s"
  by (simp_all add: apply_cb_def apply_wg_cb_def)

lemma after_set_simps [simp]:
  "cfg (after_set e r s) = cfg s" "flash (after_set e r s) = flash s" "scan_rounds (after_set e r s) = scan_rounds s"
  "g_mode (after_set e r s) = g_mode s" "scanner (after_set e r s) = scanner s"
  by (simp_all add: after_set_def Let_def)

lemma list_views_simps [simp]:
  "cfg (list_profiles e s) = cfg s" "flash (list_profiles e s) = flash s" "scan_rounds (list_profiles e s) = scan_rounds s"
  "g_mode (list_profiles e s) = g_mode s" "scanner (list_profiles e s) = scanner s"
  "cfg (list_scan e s) = cfg s" "flash (list_scan e s) = flash s" "scan_rounds (list_scan e s) = scan_rounds s"
  "g_mode (list_scan e s) = g_mode s" "scanner (list_scan e s) = scanner s"
  "cfg (stream_scan s) = cfg s" "flash (stream_scan s) = flash s" "scan_rounds (stream_scan s) = scan_rounds s"
  "g_mode (stream_scan s) = g_mode s" "scanner (stream_scan s) = scanner s"
  by (simp_all add: list_profiles_def list_scan_def stream_scan_def Let_def)

lemma cmd_set_frame:
  "flash (snd (cmd_set e args s)) = flash s" "scan_rounds (snd (cmd_set e args s)) = scan_rounds s"
  "g_mode (snd (cmd_set e args s)) = g_mode s"
  using cmd_set_all_or_nothing [of s e args] by (auto simp: all_or_nothing_def quiet_def split: prod.splits if_splits)

lemma find_from_bound: "find_from s ps i = Some k \<Longrightarrow> i \<le> k \<and> k < i + length ps"
  by (induction ps arbitrary: i) (force split: if_splits)+

lemma config_find_bound: "config_find_profile c s = Some p \<Longrightarrow> p < profile_count c"
  using find_from_bound [of s "saved c" 0 p] by (simp add: config_find_profile_def saved_def)

lemma join_ssid_ok:
  assumes "settings_ok (cfg s)"
  shows "settings_ok (cfg (join_ssid name hint s))" "flash (join_ssid name hint s) = flash s"
    "scan_rounds (join_ssid name hint s) = scan_rounds s"
proof (atomize (full), cases "config_find_profile (cfg s) name")
  case (Some p)
  then show "settings_ok (cfg (join_ssid name hint s)) \<and> flash (join_ssid name hint s) = flash s \<and>
    scan_rounds (join_ssid name hint s) = scan_rounds s"
    using settings_misc(4) [OF assms config_find_bound [OF Some]] by (simp add: join_ssid_def Let_def)
next
  case None
  obtain c i where c: "config_add_profile (cfg s) name = (c, i)" by (cases "config_add_profile (cfg s) name")
  show "settings_ok (cfg (join_ssid name hint s)) \<and> flash (join_ssid name hint s) = flash s \<and>
    scan_rounds (join_ssid name hint s) = scan_rounds s"
    using settings_add [OF assms c] None c by (simp add: join_ssid_def Let_def)
qed

lemma save_ok:
  assumes "settings_ok c" "settings_ok (config_load B f)" "length f = FLASH_SECTOR_SIZE" "env_ok B e"
    and sv: "config_save (flash_of e) c f = (ok, c', f')"
  shows "c' = sealed c" "settings_ok c'" "settings_ok (config_load B f')" "length f' = FLASH_SECTOR_SIZE"
    "ok \<Longrightarrow> f' = config_bytes (sealed c) @ replicate 2936 0xFF"
proof -
  have wf: "config_wf c" using assms(1) by (simp add: settings_ok_def)
  show c: "c' = sealed c"
    using sv by (auto simp: config_save_def Let_def sealed_def config_compute_crc_def split: prod.splits)
  then show "settings_ok c'" using settings_misc(5) [OF assms(1)] by simp
  show f: "f' = config_bytes (sealed c) @ replicate 2936 0xFF" if ok
  proof -
    have d: "flash_driver_ok (flash_of e)" using assms(4) by (simp add: env_ok_def)
    show ?thesis by (rule config_save_effect(2) [OF wf d assms(3)]) (use sv that in simp)
  qed
  have "settings_ok (config_load B f') \<and> length f' = FLASH_SECTOR_SIZE"
  proof (cases ok)
    case True
    then show ?thesis
      using f config_load_sealed [OF wf] settings_misc(5) [OF assms(1)] length_config_bytes [OF config_wf_sealed [OF wf]] by simp
  next
    case False
    then have "f' = f"
      using sv assms(4) by (auto simp: config_save_def Let_def env_ok_def split: prod.splits) (metis fst_conv snd_conv)
    then show ?thesis using assms(2,3) by simp
  qed
  then show "settings_ok (config_load B f')" "length f' = FLASH_SECTOR_SIZE" by simp_all
qed

lemma cmd_save_ok:
  assumes "console_ok B s" "env_ok B e"
  shows "console_ok B (cmd_save e s)"
proof -
  obtain ok c f where sv: "config_save (flash_of e) (cfg s) (flash s) = (ok, c, f)"
    by (cases "config_save (flash_of e) (cfg s) (flash s)")
  have "settings_ok (cfg s)" "settings_ok (config_load B (flash s))" "length (flash s) = FLASH_SECTOR_SIZE"
    using assms(1) by (simp_all add: console_ok_def)
  note save_ok(2-4) [OF this assms(2) sv]
  then show ?thesis using assms(1) by (simp add: cmd_save_def sv console_ok_def Let_def)
qed

lemma start_scan_ok: "console_ok B s \<Longrightarrow> console_ok B (start_scan e s)"
  by (auto simp: start_scan_def Let_def console_ok_def split: prod.split)

lemma of_char_byte_char: "(of_char (byte_char b) :: u8) = b"
proof -
  have "(of_char (byte_char b) :: u8) = of_nat (of_char (byte_char b))" by (rule of_nat_of_char [symmetric])
  also have "\<dots> = of_nat (unat b mod 256)" unfolding byte_char_def by (simp only: of_char_of)
  also have "unat b mod 256 = unat b" by simp
  finally show ?thesis by simp
qed

lemma ascii_byte_char: "ascii (map byte_char t) = t"
  by (simp add: ascii_def of_char_byte_char comp_def)

lemma byte_char_NUL: "0 \<notin> set t \<Longrightarrow> NUL \<notin> set (map byte_char t)"
proof
  assume "NUL \<in> set (map byte_char t)" and z: "0 \<notin> set t"
  then obtain b where "b \<in> set t" "byte_char b = NUL" by auto
  then have "b = of_char NUL" using of_char_byte_char [of b] by simp
  then show False using z \<open>b \<in> set t\<close> by simp
qed

lemma genkey_text:
  assumes "length k = CONFIG_WGKEY_MAX" "length priv = 32"
  shows "key_ok (store_b64 k priv CONFIG_WGKEY_MAX)" "c_str (store_b64 k priv CONFIG_WGKEY_MAX) \<noteq> []"
    and "wireguard_base64_decode (Some (ascii (c_str (store_b64 k priv CONFIG_WGKEY_MAX)))) 64 = (True, priv, 32)"
proof -
  define t where "t = encode_loop (b64_limit 32) 0 priv"
  have e: "wireguard_base64_encode priv 46 = Some (t @ [0], 44)"
    using assms(2) by (simp add: wireguard_base64_encode_def t_def b64_limit_def)
  have t: "length t = 44" "0 \<notin> set t"
    unfolding t_def using encode_loop_nonzero length_encode_loop [of _ 0 priv] assms(2) by simp_all
  have d: "wireguard_base64_decode (Some t) 64 = (True, priv, 32)"
    using decode_encode [of priv 64] assms(2) by (simp add: t_def)
  have m: "store_b64 k priv 46 = map byte_char t @ NUL # drop 45 k"
    using t(1) by (simp add: store_b64_def e put_seg_def) (simp add: byte_char_def char_of_eq_iff)
  have c: "c_str (store_b64 k priv 46) = map byte_char t"
    unfolding m by (rule c_str_append_NUL [OF byte_char_NUL [OF t(2)]])
  have l: "length (store_b64 k priv 46) = 46" using assms(1) t(1) by (simp add: m)
  have v: "valid_wg_key (map byte_char t)" by (simp add: valid_wg_key_def ascii_byte_char d)
  show "key_ok (store_b64 k priv CONFIG_WGKEY_MAX)" using l v by (simp add: key_ok_def c)
  show "c_str (store_b64 k priv CONFIG_WGKEY_MAX) \<noteq> []" using t(1) by (auto simp: c)
  show "wireguard_base64_decode (Some (ascii (c_str (store_b64 k priv CONFIG_WGKEY_MAX)))) 64 = (True, priv, 32)"
    unfolding c ascii_byte_char by (rule d)
qed

lemma length_random_bytes: "random_bytes rs n = Some (bs, rs') \<Longrightarrow> length bs = n"
proof (induction rs n arbitrary: bs rs' rule: random_bytes.induct)
  case (1 rs n)
  show ?case
  proof (cases "n \<ge> 8")
    case True
    then obtain r rest bs1 rs1 where "rs = r # rest" "random_bytes rest (n - 8) = Some (bs1, rs1)" "bs = U64TO8_LITTLE r @ bs1"
      using "1.prems" by (subst (asm) random_bytes.simps) (auto split: list.splits)
    then show ?thesis using "1.IH" [OF True] True by simp
  next
    case False
    then show ?thesis using "1.prems" by (subst (asm) random_bytes.simps) (auto split: list.splits if_splits)
  qed
qed

lemma cmd_genkey_ok:
  assumes "console_ok B s"
  shows "console_ok B (cmd_genkey e args s)"
proof (cases "wg_keypair_generate (x25519_of e) (rand_tape e)")
  case None
  then show ?thesis using assms by (auto simp: cmd_genkey_def intro: console_ok_frame)
next
  case (Some r)
  obtain ok pk priv rs where r: "r = (ok, pk, priv, rs)" by (cases r)
  have "length priv = 32"
    using Some length_random_bytes [of "rand_tape e" 32] unfolding r
    by (cases "random_bytes (rand_tape e) 32") (auto simp: wg_keypair_generate_def Let_def split: prod.splits)
  moreover have so: "settings_ok (cfg s)" using assms by (simp add: console_ok_def)
  moreover have "length (private_key (wg (cfg s))) = 46"
    using settings_parts(1) [OF so] by (simp add: wg_ok_def wg_wf_def)
  ultimately have "settings_ok ((cfg s)\<lparr>wg := (wg (cfg s))\<lparr>private_key := store_b64 (private_key (wg (cfg s))) priv CONFIG_WGKEY_MAX\<rparr>\<rparr>)"
    by (intro settings_wg wg_ok_simps settings_parts genkey_text)
  then show ?thesis
    using so by (auto simp: cmd_genkey_def Some r Let_def intro!: console_ok_cfg [OF assms])
qed

lemma parse_index_bound: "0 \<le> parse_index s n \<Longrightarrow> nat (parse_index s n) < n"
  by (auto simp: parse_index_def split: prod.splits if_splits)

lemma console_ok_if:
  "(b \<Longrightarrow> console_ok B x) \<Longrightarrow> (\<not> b \<Longrightarrow> console_ok B y) \<Longrightarrow> console_ok B (if b then x else y)"
  by simp

lemma handle_main_ok:
  assumes "console_ok B s" "env_ok B e" "\<And>a. args = Some a \<Longrightarrow> NUL \<notin> set a"
  shows "console_ok B (handle_main e cmd args s)"
proof -
  have so: "settings_ok (cfg s)" using assms(1) by (simp add: console_ok_def)
  have set: "console_ok B (case cmd_set e (the args) s of (r, s') \<Rightarrow> after_set e r s')" if "args \<noteq> None"
    using cmd_set_settings [OF so assms(2), of "the args"] cmd_set_frame [of e "the args" s] assms(1,3) that
    by (auto simp: console_ok_def split: prod.split)
  have use: "console_ok B (cmd_use e a s)" for a
    using so parse_index_bound [of a "profile_count (cfg s)"]
    by (auto simp: cmd_use_def Let_def settings_misc intro!: console_ok_cfg [OF assms(1)])
  have del: "console_ok B (cmd_del e a s)" for a
    using so by (auto simp: cmd_del_def Let_def settings_del intro!: console_ok_cfg [OF assms(1)])
  have join: "console_ok B (config_proto_dump e (join_ssid a None s))" for a
    using join_ssid_ok [OF so] by (auto intro!: console_ok_cfg [OF assms(1)])
  have rest: "console_ok B (cmd_restore e s)"
    using assms(1,2) by (simp add: cmd_restore_def Let_def console_ok_def env_ok_def)
  have other: "console_ok B (list_profiles e s)" "console_ok B (cmd_pcap a s)" "console_ok B (cmd_pubkey e s)"
    "console_ok B (cmd_reboot cmd s)" "console_ok B (out main_usage s)" for a
    using assms(1) by (auto simp: cmd_pcap_def cmd_pubkey_def cmd_reboot_def Let_def intro: console_ok_frame split: option.split)
  show ?thesis unfolding handle_main_def
    by (intro console_ok_if set use del join rest other start_scan_ok [OF assms(1)] cmd_genkey_ok [OF assms(1)]
      cmd_save_ok [OF assms(1,2)]) simp
qed

lemma handle_scan_ok:
  assumes "console_ok B s"
  shows "console_ok B (handle_scan e cmd args s)"
proof -
  have so: "settings_ok (cfg s)" using assms by (simp add: console_ok_def)
  have j: "console_ok B (config_proto_dump e (join_ssid n h (s\<lparr>g_mode := MODE_MAIN\<rparr>)))" for n h
    using join_ssid_ok [of "s\<lparr>g_mode := MODE_MAIN\<rparr>" n h] so by (auto intro!: console_ok_cfg [OF assms])
  have b: "console_ok B (config_proto_dump e (s\<lparr>g_mode := MODE_MAIN\<rparr>))" "console_ok B (out t s)" for t
    using assms by (auto intro: console_ok_frame)
  have l: "console_ok B (let s = emit E_wifi_leave s;
            (ok, w, leave) = wifi_scan_start (sta_link_up (live e)) (scan_accepted e) (scanner s);
            s = s\<lparr>scanner := w\<rparr>; s = (if leave then emit E_wifi_leave s else s)
        in if ok then out (''[*] live scan -- press any key to stop'' @ NL) (s\<lparr>g_mode := MODE_CONTSCAN\<rparr>)
           else out (''[!] scan failed to start'' @ NL) s)"
    using assms by (auto simp: Let_def console_ok_def split: prod.split)
  show ?thesis unfolding handle_scan_def
    using b j l start_scan_ok [OF assms] by (simp add: Let_def del: config_proto_dump_simps)
qed

lemma config_proto_poll_ok: "console_ok B s \<Longrightarrow> console_ok B (config_proto_poll e s)"
  unfolding config_proto_poll_def Let_def
  by (auto simp: console_ok_def split: prod.split)

text \<open>The connection manager shares the configuration and the sector: when profile \<open>k\<close> joins, it becomes the active one and the
  first of the list, and if its credentials were not saved yet, everything is (\<^verbatim>\<open>joined\<close> of \<^verbatim>\<open>wifi_conn.c\<close>, whose own state is in
  \<open>Wifi_Conn\<close>).\<close>

definition joined_config :: "nat \<Rightarrow> config \<Rightarrow> config" where
  "joined_config k c =
     (let c = c\<lparr>active := k\<rparr> in if k > 0 then fst (config_touch_profile c (int k)) else c)"

definition manager_joined :: "cp_env \<Rightarrow> nat \<Rightarrow> bool \<Rightarrow> console \<Rightarrow> console" where
  "manager_joined e k unsaved s =
     (if k \<ge> profile_count (cfg s) then s
      else if unsaved
      then let (ok, c, f) = config_save (flash_of e) (joined_config k (cfg s)) (flash s) in s\<lparr>cfg := c, flash := f\<rparr>
      else s\<lparr>cfg := joined_config k (cfg s)\<rparr>)"

lemma settings_joined: "settings_ok c \<Longrightarrow> k < profile_count c \<Longrightarrow> settings_ok (joined_config k c)"
proof -
  assume c: "settings_ok c" "k < profile_count c"
  then have a: "settings_ok (c\<lparr>active := k\<rparr>)" by (rule settings_misc(4))
  have "settings_ok (fst (config_touch_profile (c\<lparr>active := k\<rparr>) i))" for i
    using a config_wf_touch [of "c\<lparr>active := k\<rparr>" i] by (simp add: settings_ok_def) (simp add: config_touch_profile_def Let_def)
  then show ?thesis using a by (cases "k = 0") (simp_all add: joined_config_def Let_def)
qed

text \<open>What happens to the console: a line, a poll, a key press during the live scan, a fresh terminal, and the manager's join.\<close>

datatype cp_action = A_line string | A_poll | A_stop | A_reset | A_joined nat bool

definition cp_step :: "cp_env \<times> cp_action \<Rightarrow> console \<Rightarrow> console" where
  "cp_step ea s =
     (case ea of (e, A_line l) \<Rightarrow> config_proto_handle_line e l s
      | (e, A_poll) \<Rightarrow> config_proto_poll e s
      | (e, A_stop) \<Rightarrow> config_proto_contscan_stop e s
      | (e, A_reset) \<Rightarrow> config_proto_reset s
      | (e, A_joined k unsaved) \<Rightarrow> manager_joined e k unsaved s)"

definition cp_run :: "(cp_env \<times> cp_action) list \<Rightarrow> console \<Rightarrow> console" where
  "cp_run = fold cp_step"

definition action_ok :: "wifi_build \<Rightarrow> cp_env \<times> cp_action \<Rightarrow> bool" where
  "action_ok B ea \<longleftrightarrow> env_ok B (fst ea) \<and> (\<forall>l. snd ea = A_line l \<longrightarrow> NUL \<notin> set l)"

lemma set_trim_end: "set (trim_end l) \<subseteq> set l"
  by (auto simp: trim_end_def dest: set_dropWhileD)

lemma handle_line_ok:
  assumes "console_ok B s" "env_ok B e" "NUL \<notin> set l"
  shows "console_ok B (config_proto_handle_line e l s)"
proof -
  have n: "NUL \<notin> set (trim_end l)" using assms(3) set_trim_end by blast
  have "NUL \<notin> set b" if "cut CHR '' '' (trim_end l) = Some (a, b)" for a b
    using cut_Some [OF that] n by simp
  then show ?thesis
    using assms(1,2) by (auto simp: config_proto_handle_line_def Let_def intro: console_ok_frame handle_scan_ok handle_main_ok
      split: option.split prod.split)
qed

lemma manager_joined_ok:
  assumes "console_ok B s" "env_ok B e"
  shows "console_ok B (manager_joined e k unsaved s)"
proof (cases "k < profile_count (cfg s)")
  case True
  obtain ok c f where sv: "config_save (flash_of e) (joined_config k (cfg s)) (flash s) = (ok, c, f)"
    by (cases "config_save (flash_of e) (joined_config k (cfg s)) (flash s)")
  have j: "settings_ok (joined_config k (cfg s))" using assms(1) True by (simp add: settings_joined console_ok_def)
  have "settings_ok (config_load B (flash s))" "length (flash s) = FLASH_SECTOR_SIZE"
    using assms(1) by (simp_all add: console_ok_def)
  note save_ok(2-4) [OF j this assms(2) sv]
  then show ?thesis using assms(1) True j by (simp add: manager_joined_def sv console_ok_def)
qed (use assms in \<open>simp add: manager_joined_def\<close>)

lemma cp_step_ok: "console_ok B s \<Longrightarrow> action_ok B ea \<Longrightarrow> console_ok B (cp_step ea s)"
  by (auto simp: cp_step_def action_ok_def handle_line_ok config_proto_poll_ok manager_joined_ok config_proto_contscan_stop_def
    config_proto_reset_def Let_def console_ok_def[of B "config_proto_reset s"] intro: console_ok_frame
    split: prod.split cp_action.split) (auto simp: console_ok_def)

lemma cp_run_ok: "console_ok B s \<Longrightarrow> list_all (action_ok B) as \<Longrightarrow> console_ok B (cp_run as s)"
  unfolding cp_run_def by (induction as arbitrary: s) (simp_all add: cp_step_ok)

section \<open>Saving and restoring\<close>

definition cmd_word :: "string \<Rightarrow> string" where
  "cmd_word l = (case cut CHR '' '' (trim_end l) of None \<Rightarrow> trim_end l | Some (a, b) \<Rightarrow> a)"

lemma start_scan_flash [simp]: "flash (start_scan e s) = flash s"
  by (simp add: start_scan_def Let_def split: prod.split)

lemma join_ssid_flash [simp]: "flash (join_ssid name hint s) = flash s"
  by (cases "config_find_profile (cfg s) name"; cases "config_add_profile (cfg s) name") (simp_all add: join_ssid_def Let_def)

lemma handle_main_flash: "\<not> strcasecmp_eq cmd ''SAVE'' \<Longrightarrow> flash (handle_main e cmd args s) = flash s"
proof -
  assume "\<not> strcasecmp_eq cmd ''SAVE''"
  moreover have "flash (cmd_use e a s) = flash s" "flash (cmd_del e a s) = flash s" "flash (cmd_pcap a s) = flash s"
    "flash (cmd_genkey e args s) = flash s" "flash (cmd_pubkey e s) = flash s" "flash (cmd_reboot cmd s) = flash s"
    "flash (cmd_restore e s) = flash s" for a
    by (simp_all add: cmd_use_def cmd_del_def cmd_pcap_def cmd_genkey_def cmd_pubkey_def cmd_reboot_def cmd_restore_def Let_def
      split: option.split prod.split)
  moreover have "flash (case cmd_set e a s of (r, s') \<Rightarrow> after_set e r s') = flash s" for a
    using cmd_set_frame(1) [of e a s] by (cases "cmd_set e a s") simp
  ultimately show ?thesis by (simp add: handle_main_def)
qed

lemma handle_scan_flash: "flash (handle_scan e cmd args s) = flash s"
  by (simp add: handle_scan_def Let_def split: prod.split)

lemma handle_line_flash: "\<not> strcasecmp_eq (cmd_word l) ''SAVE'' \<Longrightarrow> flash (config_proto_handle_line e l s) = flash s"
  by (auto simp: config_proto_handle_line_def cmd_word_def Let_def handle_scan_flash handle_main_flash split: option.splits prod.splits)

definition no_save :: "cp_env \<times> cp_action \<Rightarrow> bool" where
  "no_save ea \<longleftrightarrow>
     (case snd ea of A_line l \<Rightarrow> \<not> strcasecmp_eq (cmd_word l) ''SAVE'' | A_joined k unsaved \<Rightarrow> \<not> unsaved | _ \<Rightarrow> True)"

lemma cp_step_flash: "no_save ea \<Longrightarrow> flash (cp_step ea s) = flash s"
  by (auto simp: cp_step_def no_save_def handle_line_flash manager_joined_def config_proto_contscan_stop_def config_proto_reset_def
    config_proto_poll_def Let_def split: prod.split cp_action.split)

lemma cp_run_flash: "list_all no_save as \<Longrightarrow> flash (cp_run as s) = flash s"
  unfolding cp_run_def by (induction as arbitrary: s) (simp_all add: cp_step_flash)

section \<open>A scan ends\<close>

text \<open>A poll at which the driver is idle and accepts a new pass. The measure counts the passes left, two each, less one
  when a pass is under way.\<close>

definition good_poll :: "cp_env \<Rightarrow> bool" where
  "good_poll e \<longleftrightarrow> \<not> scan_active e \<and> scan_accepted e"

definition scan_left :: "console \<Rightarrow> nat" where
  "scan_left s = (if scan_rounds s = 0 then 0 else 2 * scan_rounds s - (if scanning (scanner s) then 1 else 0))"

lemma poll_scan_left:
  assumes "g_mode s \<noteq> MODE_CONTSCAN"
  shows "scan_left (config_proto_poll e s) \<le> scan_left s - (if good_poll e then 1 else 0)"
    and "g_mode (config_proto_poll e s) = g_mode s"
proof -
  show "scan_left (config_proto_poll e s) \<le> scan_left s - (if good_poll e then 1 else 0)"
    using assms by (auto simp: config_proto_poll_def wifi_scan_poll_def wifi_scan_again_def wifi_scan_in_progress_def
      scan_left_def good_poll_def Let_def split: if_splits)
  show "g_mode (config_proto_poll e s) = g_mode s"
    using assms by (simp add: config_proto_poll_def Let_def split: prod.split)
qed

lemma polls_scan_left:
  "g_mode s \<noteq> MODE_CONTSCAN \<Longrightarrow>
   scan_left (fold config_proto_poll es s) \<le> scan_left s - length (filter good_poll es) \<and>
   g_mode (fold config_proto_poll es s) = g_mode s"
proof (induction es arbitrary: s)
  case (Cons e es)
  show ?case
    using Cons.IH [of "config_proto_poll e s"] poll_scan_left [OF Cons.prems, of e] Cons.prems by (auto split: if_splits)
qed simp

lemma scan_left_0: "scan_left s = 0 \<longleftrightarrow> scan_rounds s = 0"
  by (auto simp: scan_left_def)

section \<open>Properties\<close>

text \<open>A console fresh from the factory, and an environment.\<close>

definition sample_live :: live_status where
  "sample_live = \<lparr>sta_link_up = False, conn_state_str = ''idle'', nat_entries = 0, nat_drops = 0, exit_active = False,
     ap_clients = 0, ap_leased = False, usb_leased = False, bridge_baud = 115200, bridge_client = False,
     pcap_on = False, pcap_pkts = 0, pcap_bytes = 0, wg_state_text = ''unconfigured'',
     prof_status = \<lambda>i. WIFI_PROF_UNTRIED, prof_rssi = \<lambda>i. WIFI_RSSI_UNSEEN, scan_age_ms = 0xFFFFFFFF\<rparr>"

definition sample_cp_env :: cp_env where
  "sample_cp_env = \<lparr>FW_VERSION = ''1.0'', ip4addr_aton = \<lambda>s. if s = ''10.0.0.0'' then Some 10 else None,
     ip4addr_ntoa = \<lambda>a. dec (unat a), CYW43_COUNTRY = \<lambda>a b. of_char a + 256 * of_char b,
     CYW43_COUNTRY_WORLDWIDE = 0x5858, x25519_of = \<lambda>k u. (True, k), flash_of = sample_driver, build_of = sample_build,
     live = sample_live, rand_tape = replicate 4 7, scan_accepted = True, scan_active = False,
     parsed_stack = replicate 4 \<lparr>r_net = 0xDEADBEEF, r_prefix = 99, r_pad = [1, 2, 3]\<rparr>\<rparr>"

definition sample_console :: console where
  "sample_console = \<lparr>g_mode = MODE_MAIN, scan_rounds = 0, g_apply = True, g_apply_wg = True, g_apply_ap = True,
     scanner = scan_init, cfg = config_defaults sample_build, flash = replicate FLASH_SECTOR_SIZE 0, events = []\<rparr>"

lemma sample_settings: "settings_ok (config_defaults sample_build)"
proof -
  have "wg_ok zero_wg" "ap_ok zero_ap"
    by (simp_all add: wg_ok_def wg_wf_def zero_wg_def route_wf_def zero_route_def list_all_iff key_ok_def prefix_ok_def
      ap_ok_def ap_wf_def zero_ap_def del: replicate.simps)
  then show ?thesis using config_wf_defaults [of sample_build]
    by (simp add: settings_ok_def) (simp add: config_defaults_def Let_def)
qed

lemma sample_console_ok: "console_ok sample_build sample_console"
proof -
  have "le32_of (seg (replicate 4096 0) 0 4) = 0" by (simp add: seg_def eval_nat_numeral le32_def)
  then have "config_load sample_build (replicate 4096 0) = config_defaults sample_build"
    by (simp add: config_load_def CONFIG_MAGIC_def)
  then show ?thesis by (simp add: console_ok_def sample_console_def sample_settings)
qed

lemma sample_env_ok: "env_ok sample_build sample_cp_env"
  using sample_driver_ok
  by (simp add: env_ok_def sample_cp_env_def list_all_iff route_wf_def) (simp add: sample_driver_def)

text \<open>Property C23. Whatever lines are typed, polls run and terminals attached, in any order, the settings stay valid:
  arrays keep their sizes and terminators, keys are absent or 44 characters that decode to 32 bytes, the active
  profile exists, route count, prefixes, MTU, keepalive, passphrase length and flags stay in their ranges; and so are the
  settings a restore would load.\<close>

theorem console_settings_valid:
  assumes "console_ok B s" "list_all (action_ok B) acts"
  shows "settings_ok (cfg (cp_run acts s)) \<and> settings_ok (config_load B (flash (cp_run acts s)))"
  using cp_run_ok [OF assms] by (simp add: console_ok_def)

lemma console_settings_valid_witness:
  "settings_ok (cfg (cp_run [(sample_cp_env, A_line ''set routes 10.0.0.0/8''), (sample_cp_env, A_line ''save'')] sample_console))"
  using console_settings_valid [OF sample_console_ok, of "[(sample_cp_env, A_line ''set routes 10.0.0.0/8''), (sample_cp_env, A_line ''save'')]"]
  by (simp add: action_ok_def sample_env_ok)

text \<open>Property C24. A setting is changed whole or not at all: either \<open>cmd_set\<close> reports an error, and then it has
  printed one message beginning with ERR and changed nothing, or it prints nothing, touches neither mode, scan nor
  flash, and at most notes that the credentials are unsaved.\<close>

theorem cmd_set_whole_or_not:
  "case cmd_set e args s of (r, s') \<Rightarrow>
     if r = SET_ERR then \<exists>t. s' = s\<lparr>events := events s @ [E_out (''ERR '' @ t @ NL)]\<rparr>
     else g_mode s' = g_mode s \<and> scan_rounds s' = scan_rounds s \<and> scanner s' = scanner s \<and> flash s' = flash s \<and>
       (events s' = events s \<or> events s' = events s @ [E_creds_unsaved])"
  using cmd_set_all_or_nothing [of s e args] by (auto simp: all_or_nothing_def quiet_def out_def split: prod.splits)

text \<open>Property C25. What was saved last is restored: after a save that reports success, be it the command or the one the connection
  manager makes when unsaved credentials join, then anything at the console and any joins that save nothing, and then a
  restore, the configuration is the one that was saved.\<close>

theorem save_then_restore:
  assumes "console_ok B s" "env_ok B e" "env_ok B e'" "list_all no_save acts"
    and "s1 = cmd_save e s \<and> fst (config_save (flash_of e) (cfg s) (flash s)) \<or>
      s1 = manager_joined e k True s \<and> k < profile_count (cfg s) \<and>
        fst (config_save (flash_of e) (joined_config k (cfg s)) (flash s))"
  shows "cfg (cmd_restore e' (cp_run acts s1)) = cfg s1"
proof -
  have ok: "settings_ok (config_load B (flash s))" "length (flash s) = FLASH_SECTOR_SIZE"
    using assms(1) by (simp_all add: console_ok_def)
  obtain c where c: "settings_ok c" "fst (config_save (flash_of e) c (flash s))"
    "cfg s1 = fst (snd (config_save (flash_of e) c (flash s)))" "flash s1 = snd (snd (config_save (flash_of e) c (flash s)))"
  proof (rule disjE [OF assms(5)])
    assume "s1 = cmd_save e s \<and> fst (config_save (flash_of e) (cfg s) (flash s))"
    then show thesis using that [of "cfg s"] assms(1) by (simp add: cmd_save_def console_ok_def case_prod_beta)
  next
    assume "s1 = manager_joined e k True s \<and> k < profile_count (cfg s) \<and>
      fst (config_save (flash_of e) (joined_config k (cfg s)) (flash s))"
    then show thesis
      using that [of "joined_config k (cfg s)"] assms(1)
      by (simp add: manager_joined_def console_ok_def settings_joined case_prod_beta)
  qed
  obtain c' f where sv: "config_save (flash_of e) c (flash s) = (True, c', f)"
    using c(2) by (cases "config_save (flash_of e) c (flash s)") auto
  have "cfg s1 = sealed c" "flash s1 = config_bytes (sealed c) @ replicate 2936 0xFF"
    using save_ok(1,5) [OF c(1) ok assms(2) sv] c(3,4) sv by simp_all
  moreover have "config_wf c" using c(1) by (simp add: settings_ok_def)
  ultimately have "config_load B (flash s1) = cfg s1" using config_load_sealed by simp
  then show ?thesis
    using cp_run_flash [OF assms(4)] assms(3) by (simp add: cmd_restore_def Let_def env_ok_def)
qed

lemma save_then_restore_witness:
  "cfg (cmd_restore sample_cp_env (cp_run [(sample_cp_env, A_line ''set debug on''), (sample_cp_env, A_joined 0 False)]
     (cmd_save sample_cp_env sample_console))) = cfg (cmd_save sample_cp_env sample_console)"
proof (rule save_then_restore [OF sample_console_ok sample_env_ok sample_env_ok])
  have "cmd_word ''set debug on'' = ''set''" by code_simp
  then show "list_all no_save [(sample_cp_env, A_line ''set debug on''), (sample_cp_env, A_joined 0 False)]"
    by (simp add: no_save_def strcasecmp_eq_def)
  have "fst (config_save (flash_of sample_cp_env) (cfg sample_console) (flash sample_console))"
    by (simp add: sample_cp_env_def config_save_def sample_driver_def Let_def)
  then show "cmd_save sample_cp_env sample_console = cmd_save sample_cp_env sample_console \<and>
      fst (config_save (flash_of sample_cp_env) (cfg sample_console) (flash sample_console)) \<or>
    cmd_save sample_cp_env sample_console = manager_joined sample_cp_env 0 True sample_console \<and>
      0 < profile_count (cfg sample_console) \<and>
      fst (config_save (flash_of sample_cp_env) (joined_config 0 (cfg sample_console)) (flash sample_console))" by simp
qed

text \<open>Property C26. A scan the console started ends: outside the live scan, once the driver has been idle and willing at
  seven polls, whatever it was at the others, the four passes are done and the scan is free for the connection
  manager.\<close>

theorem scan_session_ends:
  assumes "g_mode s \<noteq> MODE_CONTSCAN" "scan_rounds s \<le> SCAN_PASSES" "scan_rounds s = SCAN_PASSES \<longrightarrow> scanning (scanner s)"
    and "7 \<le> length (filter good_poll es)"
  shows "scan_rounds (fold config_proto_poll es s) = 0"
proof -
  have "scan_left s \<le> 7" using assms(2,3) by (auto simp: scan_left_def)
  then have "scan_left (fold config_proto_poll es s) = 0" using polls_scan_left [OF assms(1), of es] assms(4) by linarith
  then show ?thesis by (simp only: scan_left_0)
qed

lemma scan_session_ends_witness:
  "scan_rounds (fold config_proto_poll (replicate 7 sample_cp_env) (start_scan sample_cp_env sample_console)) = 0"
  by (rule scan_session_ends)
    (simp_all add: start_scan_def sample_console_def sample_cp_env_def scan_init_def wifi_scan_start_def Let_def good_poll_def)

lemma parse_routes_kept:
  "parse_routes e tok parsed n = Inr (ps, m) \<Longrightarrow> length parsed = 4 \<Longrightarrow>
   n \<le> m \<and> (n \<le> 4 \<longrightarrow> m \<le> 4) \<and> length ps = 4 \<and> (\<forall>i. m \<le> i \<longrightarrow> ps ! i = parsed ! i) \<and> (\<forall>i < 4. r_pad (ps ! i) = r_pad (parsed ! i))"
proof (induction tok arbitrary: parsed n rule: length_induct)
  case (1 tok)
  from "1.prems"(1) show ?case
  proof (cases rule: parse_routes_Inr)
    case (more rest net plen)
    then show ?thesis
      using "1.IH" [rule_format, OF more(1,5)] "1.prems"(2) by (auto simp: nth_list_update)
  qed (use "1.prems" in simp)
qed

lemma NL_dec: "CHR 0x0A \<notin> set (dec n)" "dec n \<noteq> []"
proof (induction n rule: dec.induct)
  case (1 n)
  have d: "CHR 0x0A \<noteq> char_of (48 + k)" if "k < 10" for k :: nat
  proof
    assume "CHR 0x0A = char_of (48 + k)"
    then have "of_char (CHR 0x0A) = (of_char (char_of (48 + k)) :: nat)" by simp
    then show False using that by (simp only: of_char_of) simp
  qed
  show "CHR 0x0A \<notin> set (dec n)" "dec n \<noteq> []"
    using 1 d [of n] d [of "n mod 10"] by (subst dec.simps, simp)+
qed

lemma snprintf_cut:
  assumes "79 \<le> length p" "CHR 0x0A \<notin> set p"
  shows "length (snprintf 80 (p @ NL)) = 79" "last (snprintf 80 (p @ NL)) \<noteq> CHR 0x0A" "take 12 (snprintf 80 (p @ NL)) = take 12 p"
proof -
  have s: "snprintf 80 (p @ NL) = take 79 p" using assms(1) by (simp add: snprintf_def)
  have n: "take 79 p \<noteq> []" using assms(1) by auto
  show "length (snprintf 80 (p @ NL)) = 79" unfolding s using assms(1) by simp
  have "last (take 79 p) \<in> set p" using last_in_set [OF n] by (rule in_set_takeD)
  then show "last (snprintf 80 (p @ NL)) \<noteq> CHR 0x0A" unfolding s using assms(2) by auto
  show "take 12 (snprintf 80 (p @ NL)) = take 12 p" unfolding s by (simp add: min_def)
qed

text \<open>\<open>set routes\<close> copies the whole array from the stack: the entries beyond those parsed, and the padding of
  all, are what the stack held, and a save writes them to flash.\<close>

theorem set_routes_keeps_stack:
  assumes "set_routes e val s = (SET_WG, s')" "\<not> strcasecmp_eq val ''off''" "length (parsed_stack e) = CONFIG_ROUTES_MAX"
  shows "1 \<le> route_count (wg (cfg s')) \<and> unat (route_count (wg (cfg s'))) \<le> CONFIG_ROUTES_MAX \<and>
    (\<forall>i. unat (route_count (wg (cfg s'))) \<le> i \<longrightarrow> routes (wg (cfg s')) ! i = parsed_stack e ! i) \<and>
    (\<forall>i < CONFIG_ROUTES_MAX. r_pad (routes (wg (cfg s')) ! i) = r_pad (parsed_stack e ! i))"
proof -
  obtain ps m where p: "parse_routes e val (parsed_stack e) 0 = Inr (ps, m)" "m \<noteq> 0"
    "s' = with_wg (\<lambda>w. w\<lparr>routes := ps, route_count := of_nat m\<rparr>) s"
    using assms(1,2) by (auto simp: set_routes_def err_def split: sum.splits if_splits)
  note k = parse_routes_kept [OF p(1) assms(3)]
  have u: "unat (of_nat m :: u8) = m" using k by (intro unat_of_nat_u8) simp
  then have "1 \<le> (of_nat m :: u8)" using p(2) by (simp add: word_le_nat_alt)
  then show ?thesis using k u by (simp add: p(3))
qed

lemma set_routes_keeps_stack_witness:
  "routes (wg (cfg (snd (set_routes sample_cp_env ''10.0.0.0/8'' sample_console)))) ! 1 =
    \<lparr>r_net = 0xDEADBEEF, r_prefix = 99, r_pad = [1, 2, 3]\<rparr>"
proof -
  define s' where "s' = snd (set_routes sample_cp_env ''10.0.0.0/8'' sample_console)"
  have c: "cut CHR '','' ''10.0.0.0/8'' = None" "cut CHR ''/'' ''10.0.0.0/8'' = Some (''10.0.0.0'', ''8'')"
    "strtol ''8'' = (8, [])" "\<not> strcasecmp_eq ''10.0.0.0/8'' ''off''" by code_simp+
  have "parse_routes sample_cp_env ''10.0.0.0/8'' (parsed_stack sample_cp_env) 0 =
      Inr ((parsed_stack sample_cp_env)[0 := ((parsed_stack sample_cp_env) ! 0)\<lparr>r_net := 10, r_prefix := 8\<rparr>], 1)"
    by (subst parse_routes.simps) (simp add: c parse_ip4_def parse_routes.simps [of _ "[]"] sample_cp_env_def)
  then have r: "set_routes sample_cp_env ''10.0.0.0/8'' sample_console = (SET_WG, s')"
    "route_count (wg (cfg s')) = 1"
    using c(4) by (simp_all add: s'_def set_routes_def)
  have "length (parsed_stack sample_cp_env) = 4" by (simp add: sample_cp_env_def)
  from set_routes_keeps_stack [OF r(1) c(4) this] r(2)
  have "routes (wg (cfg s')) ! 1 = parsed_stack sample_cp_env ! 1" by simp
  then show ?thesis unfolding s'_def [symmetric] by (simp add: sample_cp_env_def)
qed

lemma find_from_Some:
  "find_from s ps k = Some p \<Longrightarrow> k \<le> p \<and> p - k < length ps \<and> strncmp_eq (ssid (ps ! (p - k))) s CONFIG_SSID_MAX"
proof (induction ps arbitrary: k)
  case (Cons q ps)
  then show ?case
    by (cases "strncmp_eq (ssid q) s CONFIG_SSID_MAX") (fastforce simp: nth_Cons' Suc_le_eq diff_less_Suc)+
qed simp

lemma find_from_None: "find_from s ps k = None \<longleftrightarrow> (\<forall>q \<in> set ps. \<not> strncmp_eq (ssid q) s CONFIG_SSID_MAX)"
  by (induction ps arbitrary: k) auto

lemma remove_nth_keeps: "j < length xs \<Longrightarrow> j \<noteq> i \<Longrightarrow> xs ! j \<in> set (remove_nth i xs)"
proof (cases "j < i")
  case True
  assume "j < length xs"
  with True have "xs ! j = take i xs ! j" "j < length (take i xs)" by simp_all
  then have "xs ! j \<in> set (take i xs)" by (metis nth_mem)
  then show ?thesis by (simp add: remove_nth_def)
next
  case False
  assume "j < length xs" "j \<noteq> i"
  with False have "xs ! j = drop (Suc i) xs ! (j - Suc i)" "j - Suc i < length (drop (Suc i) xs)" by simp_all
  then have "xs ! j \<in> set (drop (Suc i) xs)" by (metis nth_mem)
  then show ?thesis by (simp add: remove_nth_def)
qed

text \<open>\<open>del\<close> takes an argument that is a number of the list for that number even where it is the name of another
  saved network, as the web page sends it: the network named stays and another is forgotten.\<close>

theorem del_takes_number_first:
  assumes "config_wf (cfg s)" "config_find_profile (cfg s) args = Some p"
    "parse_index args (profile_count (cfg s)) = int i" "p \<noteq> i"
  shows "saved (cfg (cmd_del e args s)) = remove_nth i (saved (cfg s)) \<and>
    config_find_profile (cfg (cmd_del e args s)) args \<noteq> None"
proof -
  have i: "i < profile_count (cfg s)" using parse_index_bound [of args "profile_count (cfg s)"] assms(3) by simp
  have r: "saved (cfg (cmd_del e args s)) = remove_nth i (saved (cfg s))"
    using saved_del [OF assms(1) i] assms(3) by (simp add: cmd_del_def Let_def apply_cb_def)
  have p: "p < length (saved (cfg s))" "strncmp_eq (ssid (saved (cfg s) ! p)) args CONFIG_SSID_MAX"
    using find_from_Some [OF assms(2) [unfolded config_find_profile_def]] by simp_all
  have "saved (cfg s) ! p \<in> set (remove_nth i (saved (cfg s)))" using p(1) assms(4) by (rule remove_nth_keeps)
  with p(2) show ?thesis unfolding config_find_profile_def find_from_None r by blast
qed

lemma del_takes_number_first_witness:
  "saved (cfg (cmd_del sample_cp_env ''1''
      (sample_console\<lparr>cfg := fst (config_add_profile (config_defaults sample_build) ''1'')\<rparr>))) =
    [fresh_profile ''1'']"
proof -
  define c where "c = fst (config_add_profile (config_defaults sample_build) ''1'')"
  let ?s = "sample_console\<lparr>cfg := c\<rparr>"
  define q where "q = \<lparr>ssid = strncpy (ssid zero_profile) ''home'' (CONFIG_SSID_MAX - 1),
    password = strncpy (password zero_profile) ''secretpw'' (CONFIG_PASS_MAX - 1)\<rparr>"
  have d: "config_wf (config_defaults sample_build)" "profile_count (config_defaults sample_build) = 1"
    "saved (config_defaults sample_build) = [q]"
    by (rule config_wf_defaults) (simp_all add: q_def saved_def config_defaults_def sample_build_def Let_def take_Suc
      c_str_def numeral_eq_Suc)
  have c: "config_wf c" "saved c = [q, fresh_profile ''1'']"
    using config_add_spec(1,3) [OF d(1), of "''1''"] config_add_spec(2) [OF d(1)] d(2,3) by (simp_all add: c_def)
  have n: "profile_count c = 2" using c config_wfD(5) [OF c(1)] by simp
  have x: "parse_index ''1'' 2 = int 0" by code_simp
  have "\<not> strncmp_eq (ssid q) ''1'' CONFIG_SSID_MAX" "strncmp_eq (ssid (fresh_profile ''1'')) ''1'' CONFIG_SSID_MAX"
    unfolding q_def by code_simp+
  then have f: "config_find_profile c ''1'' = Some 1" by (simp add: config_find_profile_def c)
  have "saved (cfg (cmd_del sample_cp_env ''1'' ?s)) = remove_nth 0 (saved c)"
    using del_takes_number_first [of ?s "''1''" 1 0 sample_cp_env] c(1) f x n by simp
  then show ?thesis unfolding c_def [symmetric] by (simp add: c remove_nth_def)
qed

text \<open>In exit mode with the tunnel not applied the dump's exit line is longer than its buffer: it is cut to 79
  characters and the newline is lost.\<close>

theorem exit_line_cut:
  assumes "exit_enabled (wg c) \<noteq> 0" "\<not> exit_active (live e)"
  shows "\<exists>l \<in> set (dump_lines e c). take 12 l = ''    exit:   '' \<and> length l = 79 \<and> last l \<noteq> CHR 0x0A"
proof -
  let ?p = "''    exit:       on ('' @ (if exit_lan (wg c) \<noteq> 0 then ''LAN reachable'' else ''internet only'') @
    '')'' @ '' [inactive until the tunnel applies]'' @ '' -- '' @
    dec (nat_entries (live e)) @ '' NAT mappings, '' @ dec (unat (nat_drops (live e))) @ '' drops''"
  have "79 \<le> length ?p" by simp
  moreover have "CHR 0x0A \<notin> set ?p" using NL_dec(1) by simp
  ultimately have "length (snprintf 80 (?p @ NL)) = 79" "last (snprintf 80 (?p @ NL)) \<noteq> CHR 0x0A"
    "take 12 (snprintf 80 (?p @ NL)) = take 12 ?p"
    by (rule snprintf_cut)+
  moreover have "snprintf 80 (?p @ NL) \<in> set (dump_lines e c)"
    using assms by (simp add: dump_lines_def dump_exit_ap_def Let_def)
  moreover have "take 12 ?p = ''    exit:   ''" by simp
  ultimately show ?thesis by (intro bexI [of _ "snprintf 80 (?p @ NL)"]) simp_all
qed

lemma exit_line_cut_witness:
  "\<exists>l \<in> set (dump_lines sample_cp_env ((config_defaults sample_build)\<lparr>wg := zero_wg\<lparr>exit_enabled := 1\<rparr>\<rparr>)).
    take 12 l = ''    exit:   '' \<and> length l = 79 \<and> last l \<noteq> CHR 0x0A"
  by (rule exit_line_cut) (simp_all add: sample_cp_env_def sample_live_def)

end
