(* ===== verification/Serial_Bridge.thy ===== *)
theory Serial_Bridge
  imports Wg
begin

text \<open>
  \<^verbatim>\<open>src/serial_bridge.c\<close>: the party line between a USB serial port, a UART and one TCP client, raw on one
  port, telnet with RFC 2217 port control on the other. The module's statics are the record \<open>bridge\<close>; the chain
  of packet buffers held for the pump is a list of byte lists. What the drivers answer while the pump runs is
  an argument, one answer for every turn of a loop, and what is written to the line's ends, to pins and to the
  TCP stack are events, in order.
\<close>

section \<open>State\<close>

abbreviation TICK_BYTE_BUDGET :: nat where "TICK_BYTE_BUDGET \<equiv> 128"
abbreviation TN_IAC :: u8 where "TN_IAC \<equiv> 255"
abbreviation TN_DONT :: u8 where "TN_DONT \<equiv> 254"
abbreviation TN_DO :: u8 where "TN_DO \<equiv> 253"
abbreviation TN_WONT :: u8 where "TN_WONT \<equiv> 252"
abbreviation TN_WILL :: u8 where "TN_WILL \<equiv> 251"
abbreviation TN_SB :: u8 where "TN_SB \<equiv> 250"
abbreviation TN_SE :: u8 where "TN_SE \<equiv> 240"
abbreviation TNOPT_BINARY :: u8 where "TNOPT_BINARY \<equiv> 0"
abbreviation TNOPT_SGA :: u8 where "TNOPT_SGA \<equiv> 3"
abbreviation TNOPT_COMPORT :: u8 where "TNOPT_COMPORT \<equiv> 44"
abbreviation SB_BUF_SIZE :: nat where "SB_BUF_SIZE \<equiv> 24"

datatype uart_parity = UART_PARITY_NONE | UART_PARITY_EVEN | UART_PARITY_ODD
datatype tn_st = T_DATA | T_IAC | T_VERB | T_SB | T_SB_IAC
datatype line_src = SRC_UART | SRC_CDC | SRC_TCP
datatype reset_pin = BRIDGE_DTR_PIN | BRIDGE_RTS_PIN

datatype line_event =
    L_uart line_src u8 \<comment> \<open>\<^verbatim>\<open>uart_putc_raw\<close>, with the end the byte came from\<close>
  | L_cdc line_src u8
  | L_tcp line_src bytes
  | L_reply bytes \<comment> \<open>a protocol reply to the client\<close>
  | L_baud u32
  | L_format u8 u8 uart_parity
  | L_gpio reset_pin bool
  | L_close nat
  | L_abort nat
  | L_keepalive nat
  | L_listen nat bool \<comment> \<open>port, and the listener's argument\<close>
  | L_abort_listener
  | L_recved nat
  | L_output
  | L_flush

record bridge =
  client :: "nat option"
  rx :: "bytes list" \<comment> \<open>empty for \<^verbatim>\<open>NULL\<close>\<close>
  rx_off :: nat
  telnet_mode :: bool
  cur_baud :: u32
  cur_databits :: u8
  cur_stop :: u8
  cur_parity :: uart_parity
  tn_state :: tn_st
  tn_verb :: u8
  sb_buf :: bytes
  sb_len :: nat
  comport_active :: bool
  levents :: "line_event list"

definition bridge_reset :: bridge where
  "bridge_reset = \<lparr>client = None, rx = [], rx_off = 0, telnet_mode = False, cur_baud = 115200, cur_databits = 8,
     cur_stop = 1, cur_parity = UART_PARITY_NONE, tn_state = T_DATA, tn_verb = 0, sb_buf = replicate SB_BUF_SIZE 0,
     sb_len = 0, comport_active = False, levents = []\<rparr>"

definition lemit :: "line_event \<Rightarrow> bridge \<Rightarrow> bridge" where
  "lemit v s = s\<lparr>levents := levents s @ [v]\<rparr>"

definition apply_format :: "bridge \<Rightarrow> bridge" where
  "apply_format s = lemit (L_format (cur_databits s) (cur_stop s) (cur_parity s)) s"

section \<open>Telnet and RFC 2217\<close>

definition tn_send :: "bytes \<Rightarrow> bridge \<Rightarrow> bridge" where
  "tn_send d s = (if client s \<noteq> None then lemit (L_reply d) s else s)"

text \<open>The copying loop of the acknowledgement, with \<open>buf\<close> what is written: it stops three bytes before the end of
  the 24-byte buffer.\<close>

fun ack_loop :: "bytes \<Rightarrow> bytes \<Rightarrow> bytes" where
  "ack_loop [] buf = buf"
| "ack_loop (p # ps) buf =
     (if length buf < SB_BUF_SIZE - 3 then ack_loop ps (buf @ (if p = TN_IAC then [TN_IAC] else []) @ [p]) else buf)"

definition comport_frame :: "u8 \<Rightarrow> bytes \<Rightarrow> bytes" where
  "comport_frame cmd pl = ack_loop pl [TN_IAC, TN_SB, TNOPT_COMPORT, cmd + 100] @ [TN_IAC, TN_SE]"

definition tn_comport_ack :: "u8 \<Rightarrow> bytes \<Rightarrow> bridge \<Rightarrow> bridge" where
  "tn_comport_ack cmd pl s = tn_send (comport_frame cmd pl) s"

definition tn_opt_ok :: "u8 \<Rightarrow> bool" where
  "tn_opt_ok opt \<longleftrightarrow> opt = TNOPT_BINARY \<or> opt = TNOPT_SGA \<or> opt = TNOPT_COMPORT"

definition tn_verb_reply :: "u8 \<Rightarrow> u8 \<Rightarrow> bridge \<Rightarrow> bridge" where
  "tn_verb_reply verb opt s =
     (if verb = TN_WILL then tn_send [TN_IAC, if tn_opt_ok opt then TN_DO else TN_DONT, opt] s
      else if verb = TN_DO then tn_send [TN_IAC, if tn_opt_ok opt then TN_WILL else TN_WONT, opt] s
      else s)"

definition tn_handle_verb :: "u8 \<Rightarrow> u8 \<Rightarrow> bridge \<Rightarrow> bridge" where
  "tn_handle_verb verb opt s =
     (let s = tn_verb_reply verb opt s
      in if tn_opt_ok opt \<and> opt = TNOPT_COMPORT \<and> \<not> comport_active s
         then tn_comport_ack 7 [0x30] (s\<lparr>comport_active := True\<rparr>) else s)"

definition parity_code :: "uart_parity \<Rightarrow> u8" where
  "parity_code p = (case p of UART_PARITY_ODD \<Rightarrow> 2 | UART_PARITY_EVEN \<Rightarrow> 3 | UART_PARITY_NONE \<Rightarrow> 1)"

definition code_parity :: "u8 \<Rightarrow> uart_parity" where
  "code_parity v = (if v = 2 then UART_PARITY_ODD else if v = 3 then UART_PARITY_EVEN else UART_PARITY_NONE)"

definition be32_of :: "bytes \<Rightarrow> u32" where
  "be32_of pl = push_bit 24 (ucast (pl ! 0)) OR push_bit 16 (ucast (pl ! 1)) OR push_bit 8 (ucast (pl ! 2)) OR ucast (pl ! 3)"

definition be32_bytes :: "u32 \<Rightarrow> bytes" where
  "be32_bytes w = [ucast (drop_bit 24 w), ucast (drop_bit 16 w), ucast (drop_bit 8 w), ucast w]"

definition sb_set_baud :: "bytes \<Rightarrow> nat \<Rightarrow> bridge \<Rightarrow> bridge" where
  "sb_set_baud pl pln s =
     (let s = (if pln \<ge> 4 \<and> be32_of pl \<ge> 300 \<and> be32_of pl \<le> 1500000
               then (lemit (L_baud (be32_of pl)) s)\<lparr>cur_baud := be32_of pl\<rparr> else s)
      in tn_comport_ack 1 (be32_bytes (cur_baud s)) s)"

definition sb_set_datasize :: "bytes \<Rightarrow> nat \<Rightarrow> bridge \<Rightarrow> bridge" where
  "sb_set_datasize pl pln s =
     (let s = (if pln \<ge> 1 \<and> pl ! 0 \<ge> 5 \<and> pl ! 0 \<le> 8 then apply_format (s\<lparr>cur_databits := pl ! 0\<rparr>) else s)
      in tn_comport_ack 2 [cur_databits s] s)"

definition sb_set_parity :: "bytes \<Rightarrow> nat \<Rightarrow> bridge \<Rightarrow> bridge" where
  "sb_set_parity pl pln s =
     (let s = (if pln \<ge> 1 \<and> pl ! 0 \<ge> 1 \<and> pl ! 0 \<le> 3 then apply_format (s\<lparr>cur_parity := code_parity (pl ! 0)\<rparr>) else s)
      in tn_comport_ack 3 [parity_code (cur_parity s)] s)"

definition sb_set_stopsize :: "bytes \<Rightarrow> nat \<Rightarrow> bridge \<Rightarrow> bridge" where
  "sb_set_stopsize pl pln s =
     (let s = (if pln \<ge> 1 \<and> (pl ! 0 = 1 \<or> pl ! 0 = 2) then apply_format (s\<lparr>cur_stop := pl ! 0\<rparr>) else s)
      in tn_comport_ack 4 [cur_stop s] s)"

definition sb_set_control :: "bytes \<Rightarrow> nat \<Rightarrow> bridge \<Rightarrow> bridge" where
  "sb_set_control pl pln s =
     (if pln \<ge> 1
      then tn_comport_ack 5 (take 1 pl)
             (if pl ! 0 = 8 then lemit (L_gpio BRIDGE_DTR_PIN False) s
              else if pl ! 0 = 9 then lemit (L_gpio BRIDGE_DTR_PIN True) s
              else if pl ! 0 = 11 then lemit (L_gpio BRIDGE_RTS_PIN False) s
              else if pl ! 0 = 12 then lemit (L_gpio BRIDGE_RTS_PIN True) s
              else s)
      else s)"

definition tn_handle_sb :: "bridge \<Rightarrow> bridge" where
  "tn_handle_sb s =
     (if sb_len s < 2 \<or> sb_buf s ! 0 \<noteq> TNOPT_COMPORT then s
      else let cmd = sb_buf s ! 1; pl = drop 2 (sb_buf s); pln = sb_len s - 2
           in if cmd = 1 then sb_set_baud pl pln s
              else if cmd = 2 then sb_set_datasize pl pln s
              else if cmd = 3 then sb_set_parity pl pln s
              else if cmd = 4 then sb_set_stopsize pl pln s
              else if cmd = 5 then sb_set_control pl pln s
              else tn_comport_ack cmd (take pln pl) s)"

definition sb_put :: "u8 \<Rightarrow> bridge \<Rightarrow> bridge" where
  "sb_put b s = (if sb_len s < SB_BUF_SIZE then s\<lparr>sb_buf := (sb_buf s)[sb_len s := b], sb_len := sb_len s + 1\<rparr> else s)"

text \<open>One byte through the telnet layer: the data byte for the line, if it is one, and the new state.\<close>

definition tn_process :: "u8 \<Rightarrow> bridge \<Rightarrow> u8 option \<times> bridge" where
  "tn_process b s =
     (case tn_state s of
        T_DATA \<Rightarrow> if b = TN_IAC then (None, s\<lparr>tn_state := T_IAC\<rparr>) else (Some b, s)
      | T_IAC \<Rightarrow>
          if b = TN_IAC then (Some b, s\<lparr>tn_state := T_DATA\<rparr>)
          else if b = TN_SB then (None, s\<lparr>tn_state := T_SB, sb_len := 0\<rparr>)
          else if b \<ge> TN_WILL \<and> b \<le> TN_DONT then (None, s\<lparr>tn_verb := b, tn_state := T_VERB\<rparr>)
          else (None, s\<lparr>tn_state := T_DATA\<rparr>)
      | T_VERB \<Rightarrow> (None, (tn_handle_verb (tn_verb s) b s)\<lparr>tn_state := T_DATA\<rparr>)
      | T_SB \<Rightarrow> (None, if b = TN_IAC then s\<lparr>tn_state := T_SB_IAC\<rparr> else sb_put b s)
      | T_SB_IAC \<Rightarrow>
          if b = TN_IAC then (None, (sb_put TN_IAC s)\<lparr>tn_state := T_SB\<rparr>)
          else (None, (tn_handle_sb s)\<lparr>tn_state := T_DATA\<rparr>))"

definition tn_next_is_data :: "bridge \<Rightarrow> u8 \<Rightarrow> bool" where
  "tn_next_is_data s b \<longleftrightarrow>
     \<not> telnet_mode s \<or> tn_state s = T_DATA \<and> b \<noteq> TN_IAC \<or> tn_state s = T_IAC \<and> b = TN_IAC"

section \<open>The line's ends\<close>

text \<open>What the drivers answer in one turn of a pump loop: the byte waiting at the UART; whether the USB
  port is open, has bytes, the byte a read gives, and its room; the client's send buffer; whether the UART takes a byte.\<close>

record line_answers =
  uart_in :: "u8 option"
  cdc_connected :: bool
  cdc_available :: bool
  cdc_in :: "u8 option"
  cdc_room :: nat
  sndbuf :: nat
  uart_writable :: bool

definition sinks_ready :: "line_answers \<Rightarrow> line_src \<Rightarrow> bridge \<Rightarrow> bool" where
  "sinks_ready q src s \<longleftrightarrow>
     \<not> (src \<noteq> SRC_CDC \<and> cdc_connected q \<and> cdc_room q = 0) \<and>
     \<not> (src \<noteq> SRC_TCP \<and> client s \<noteq> None \<and> sndbuf q < 2) \<and>
     \<not> (src \<noteq> SRC_UART \<and> \<not> uart_writable q)"

definition tn_escape :: "u8 \<Rightarrow> bytes" where
  "tn_escape b = (if b = TN_IAC then [TN_IAC, TN_IAC] else [b])"

definition fan_out :: "line_answers \<Rightarrow> line_src \<Rightarrow> u8 \<Rightarrow> bridge \<Rightarrow> bridge" where
  "fan_out q src b s =
     (let s = (if src \<noteq> SRC_CDC \<and> cdc_connected q then lemit (L_cdc src b) s else s);
          s = (if src \<noteq> SRC_TCP \<and> client s \<noteq> None
               then lemit (L_tcp src (if telnet_mode s then tn_escape b else [b])) s else s)
      in if src \<noteq> SRC_UART then lemit (L_uart src b) s else s)"

section \<open>The TCP side\<close>

definition release_lines :: "bridge \<Rightarrow> bridge" where
  "release_lines s = lemit (L_gpio BRIDGE_RTS_PIN True) (lemit (L_gpio BRIDGE_DTR_PIN True) s)"

text \<open>\<open>closes\<close> is whether \<^verbatim>\<open>tcp_close\<close> finds the memory it needs.\<close>

definition tcp_drop_client :: "bool \<Rightarrow> bool \<Rightarrow> bridge \<Rightarrow> bridge" where
  "tcp_drop_client closes do_abort s =
     (let s = (if rx s \<noteq> [] then s\<lparr>rx := [], rx_off := 0\<rparr> else s);
          s = (release_lines s)\<lparr>telnet_mode := False, comport_active := False, tn_state := T_DATA\<rparr>
      in case client s of
           None \<Rightarrow> s
         | Some p \<Rightarrow> let s = s\<lparr>client := None\<rparr>
                     in if do_abort then lemit (L_abort p) s
                        else if \<not> closes then lemit (L_abort p) (lemit (L_close p) s) else lemit (L_close p) s)"

text \<open>A chain for connection \<open>p\<close>, \<open>None\<close> when the peer has closed.\<close>

definition bridge_recv :: "bool \<Rightarrow> nat \<Rightarrow> bytes list option \<Rightarrow> bridge \<Rightarrow> bridge" where
  "bridge_recv closes p c s =
     (case c of
        None \<Rightarrow> if Some p = client s then tcp_drop_client closes False s else lemit (L_close p) s
      | Some ch \<Rightarrow>
          if Some p \<noteq> client s then s
          else if rx s \<noteq> [] then s\<lparr>rx := rx s @ ch\<rparr>
          else s\<lparr>rx := ch, rx_off := 0\<rparr>)"

definition bridge_err :: "bridge \<Rightarrow> bridge" where
  "bridge_err s =
     (let s = s\<lparr>client := None\<rparr>; s = (if rx s \<noteq> [] then s\<lparr>rx := [], rx_off := 0\<rparr> else s)
      in (release_lines s)\<lparr>telnet_mode := False, comport_active := False, tn_state := T_DATA\<rparr>)"

text \<open>A new connection \<open>p\<close> on a listener, \<open>rfc2217\<close> for the second one, that came in through \<open>inp\<close>.\<close>

definition bridge_accept :: "wg_mod \<Rightarrow> bool \<Rightarrow> nat option \<Rightarrow> bool \<Rightarrow> netif_id \<Rightarrow> bridge \<Rightarrow> bool \<times> bridge" where
  "bridge_accept m rfc2217 newpcb ok inp s =
     (case newpcb of
        None \<Rightarrow> (False, s)
      | Some p \<Rightarrow>
          if \<not> ok then (False, s)
          else if inp \<noteq> N_usb \<and> Some inp \<noteq> wg_active_netif m then (False, lemit (L_abort p) s)
          else if client s \<noteq> None then (False, lemit (L_abort p) s)
          else (True, lemit (L_keepalive p)
                  (s\<lparr>client := Some p, telnet_mode := rfc2217, comport_active := False, tn_state := T_DATA\<rparr>)))"

text \<open>Whether lwIP has a control block, binds it and turns it into a listener.\<close>

definition bridge_listen :: "bool \<Rightarrow> bool \<Rightarrow> bool \<Rightarrow> nat \<Rightarrow> bool \<Rightarrow> bridge \<Rightarrow> bridge" where
  "bridge_listen got bound listening port accept_arg s =
     (if \<not> got \<or> \<not> bound then (if got then lemit L_abort_listener s else s)
      else if \<not> listening then lemit L_abort_listener s
      else lemit (L_listen port accept_arg) s)"

section \<open>Public functions\<close>

definition serial_bridge_init :: "bool \<times> bool \<times> bool \<Rightarrow> bool \<times> bool \<times> bool \<Rightarrow> bridge \<Rightarrow> bridge" where
  "serial_bridge_init a b s =
     (let s = release_lines (lemit (L_baud (cur_baud s)) s);
          s = (case a of (got, bound, listening) \<Rightarrow> bridge_listen got bound listening 2323 False s)
      in case b of (got, bound, listening) \<Rightarrow> bridge_listen got bound listening 3323 True s)"

definition serial_bridge_apply_coding :: "u32 \<Rightarrow> u8 \<Rightarrow> u8 \<Rightarrow> u8 \<Rightarrow> bridge \<Rightarrow> bridge" where
  "serial_bridge_apply_coding bit_rate data_bits parity stop_bits s =
     (if bit_rate < 300 \<or> bit_rate > 1500000 then s
      else apply_format ((lemit (L_baud bit_rate) s)\<lparr>cur_baud := bit_rate,
             cur_parity := (if parity = 1 then UART_PARITY_ODD else if parity = 2 then UART_PARITY_EVEN else UART_PARITY_NONE),
             cur_databits := (if data_bits \<ge> 5 \<and> data_bits \<le> 8 then data_bits else 8),
             cur_stop := (if stop_bits = 2 then 2 else 1)\<rparr>))"

definition serial_bridge_client_connected :: "bridge \<Rightarrow> bool" where
  "serial_bridge_client_connected s \<longleftrightarrow> client s \<noteq> None"

definition serial_bridge_baud :: "bridge \<Rightarrow> u32" where
  "serial_bridge_baud s = cur_baud s"

text \<open>The three loops of the pump; \<open>n\<close> is the budget left and picks the answers of the turn.\<close>

fun uart_loop :: "(nat \<Rightarrow> line_answers) \<Rightarrow> nat \<Rightarrow> bridge \<Rightarrow> bridge" where
  "uart_loop q 0 s = s"
| "uart_loop q (Suc n) s =
     (case uart_in (q n) of
        None \<Rightarrow> s
      | Some b \<Rightarrow> if sinks_ready (q n) SRC_UART s then uart_loop q n (fan_out (q n) SRC_UART b s) else s)"

fun cdc_loop :: "(nat \<Rightarrow> line_answers) \<Rightarrow> nat \<Rightarrow> bridge \<Rightarrow> bridge" where
  "cdc_loop q 0 s = s"
| "cdc_loop q (Suc n) s =
     (if cdc_available (q n) \<and> sinks_ready (q n) SRC_CDC s
      then case cdc_in (q n) of None \<Rightarrow> s | Some b \<Rightarrow> cdc_loop q n (fan_out (q n) SRC_CDC b s)
      else s)"

text \<open>A drained packet buffer is stepped over.\<close>

definition rx_step :: "bridge \<Rightarrow> bridge" where
  "rx_step s = (if rx_off s = length (hd (rx s)) then s\<lparr>rx := tl (rx s), rx_off := 0\<rparr> else s)"

definition tcp_byte :: "line_answers \<Rightarrow> u8 \<Rightarrow> bridge \<Rightarrow> bridge" where
  "tcp_byte q b s =
     (if \<not> telnet_mode s then fan_out q SRC_TCP b s
      else case tn_process b s of (None, s) \<Rightarrow> s | (Some d, s) \<Rightarrow> fan_out q SRC_TCP d s)"

fun tcp_loop :: "(nat \<Rightarrow> line_answers) \<Rightarrow> nat \<Rightarrow> nat \<Rightarrow> bridge \<Rightarrow> nat \<times> bridge" where
  "tcp_loop q 0 consumed s = (consumed, s)"
| "tcp_loop q (Suc n) consumed s =
     (if rx s = [] then (consumed, s)
      else let b = hd (rx s) ! rx_off s
           in if tn_next_is_data s b \<and> \<not> sinks_ready (q n) SRC_TCP s then (consumed, s)
              else tcp_loop q n (consumed + 1) (rx_step (tcp_byte (q n) b (s\<lparr>rx_off := rx_off s + 1\<rparr>))))"

text \<open>One call of the pump: the quick look at its start, then the loops.\<close>

record pump_answers =
  look_uart :: bool
  look_cdc :: bool
  uart_turns :: "nat \<Rightarrow> line_answers"
  cdc_turns :: "nat \<Rightarrow> line_answers"
  tcp_turns :: "nat \<Rightarrow> line_answers"

definition serial_bridge_task :: "pump_answers \<Rightarrow> bridge \<Rightarrow> bridge" where
  "serial_bridge_task a s =
     (if \<not> look_uart a \<and> \<not> look_cdc a \<and> rx s = [] then s
      else let s = uart_loop (uart_turns a) TICK_BYTE_BUDGET s;
               s = cdc_loop (cdc_turns a) TICK_BYTE_BUDGET s;
               (consumed, s) = tcp_loop (tcp_turns a) TICK_BYTE_BUDGET 0 s;
               s = (if consumed \<noteq> 0 \<and> client s \<noteq> None then lemit (L_recved consumed) s else s);
               s = (if client s \<noteq> None then lemit L_output s else s)
           in lemit L_flush s)"

section \<open>The invariant\<close>

definition bridge_ok :: "bridge \<Rightarrow> bool" where
  "bridge_ok s \<longleftrightarrow>
     300 \<le> cur_baud s \<and> cur_baud s \<le> 1500000 \<and> 5 \<le> cur_databits s \<and> cur_databits s \<le> 8 \<and>
     (cur_stop s = 1 \<or> cur_stop s = 2) \<and> length (sb_buf s) = SB_BUF_SIZE \<and> sb_len s \<le> SB_BUF_SIZE \<and>
     (client s = None \<longrightarrow> rx s = [] \<and> \<not> telnet_mode s) \<and>
     (\<not> telnet_mode s \<longrightarrow> tn_state s = T_DATA \<and> \<not> comport_active s) \<and>
     list_all (\<lambda>p. p \<noteq> []) (rx s) \<and> (rx s \<noteq> [] \<longrightarrow> rx_off s < length (hd (rx s)))"

text \<open>What the line's settings events may say.\<close>

definition setting_ok :: "line_event \<Rightarrow> bool" where
  "setting_ok v = (case v of L_baud w \<Rightarrow> 300 \<le> w \<and> w \<le> 1500000
     | L_format d st p \<Rightarrow> 5 \<le> d \<and> d \<le> 8 \<and> (st = 1 \<or> st = 2) | L_reply f \<Rightarrow> length f \<le> SB_BUF_SIZE | _ \<Rightarrow> True)"

datatype bridge_action =
    B_accept wg_mod bool "nat option" bool netif_id
  | B_recv bool nat "bytes list option"
  | B_err
  | B_coding u32 u8 u8 u8
  | B_task pump_answers

definition bridge_step :: "bridge_action \<Rightarrow> bridge \<Rightarrow> bridge" where
  "bridge_step a s =
     (case a of
        B_accept m r p ok i \<Rightarrow> snd (bridge_accept m r p ok i s)
      | B_recv c p ch \<Rightarrow> bridge_recv c p ch s
      | B_err \<Rightarrow> bridge_err s
      | B_coding r d p st \<Rightarrow> serial_bridge_apply_coding r d p st s
      | B_task q \<Rightarrow> serial_bridge_task q s)"

text \<open>The stack delivers chains that have no empty buffer.\<close>

definition chain_ok :: "bridge_action \<Rightarrow> bool" where
  "chain_ok a = (case a of B_recv c p (Some ch) \<Rightarrow> list_all (\<lambda>p. p \<noteq> []) ch | _ \<Rightarrow> True)"

lemma lemit_simps [simp]:
  "client (lemit v s) = client s" "rx (lemit v s) = rx s" "rx_off (lemit v s) = rx_off s"
  "telnet_mode (lemit v s) = telnet_mode s" "cur_baud (lemit v s) = cur_baud s" "cur_databits (lemit v s) = cur_databits s"
  "cur_stop (lemit v s) = cur_stop s" "cur_parity (lemit v s) = cur_parity s" "tn_state (lemit v s) = tn_state s"
  "tn_verb (lemit v s) = tn_verb s" "sb_buf (lemit v s) = sb_buf s" "sb_len (lemit v s) = sb_len s"
  "comport_active (lemit v s) = comport_active s" "levents (lemit v s) = levents s @ [v]"
  by (simp_all add: lemit_def)

lemma bridge_ok_lemit [simp]: "bridge_ok (lemit v s) = bridge_ok s"
  by (simp add: bridge_ok_def)

text \<open>A step is sound when it keeps the invariant and emits only valid settings.\<close>

definition sound :: "bridge \<Rightarrow> bridge \<Rightarrow> bool" where
  "sound s s' \<longleftrightarrow> (bridge_ok s \<longrightarrow> bridge_ok s' \<and> (\<exists>evs. levents s' = levents s @ evs \<and> list_all setting_ok evs))"

lemma sound_refl [simp]: "sound s s"
  by (simp add: sound_def)

lemma sound_trans [trans]: "sound s t \<Longrightarrow> sound t u \<Longrightarrow> sound s u"
  unfolding sound_def by (metis append.assoc list_all_append)

lemma sound_lemit: "setting_ok v \<Longrightarrow> sound s (lemit v s)"
  by (simp add: sound_def)

lemma sound_if: "(b \<Longrightarrow> sound s x) \<Longrightarrow> (\<not> b \<Longrightarrow> sound s y) \<Longrightarrow> sound s (if b then x else y)"
  by simp

lemma length_ack_loop: "length buf \<le> 22 \<Longrightarrow> length (ack_loop pl buf) \<le> 22"
  by (induction pl buf rule: ack_loop.induct) auto

lemma length_comport_frame: "length (comport_frame cmd pl) \<le> SB_BUF_SIZE"
  using length_ack_loop [of "[TN_IAC, TN_SB, TNOPT_COMPORT, cmd + 100]" pl] by (simp add: comport_frame_def)

lemma sound_send: "length d \<le> SB_BUF_SIZE \<Longrightarrow> sound s (tn_send d s)"
  by (simp add: tn_send_def sound_lemit setting_ok_def)

lemma sound_ack: "sound s (tn_comport_ack cmd pl s)"
  unfolding tn_comport_ack_def by (rule sound_send) (rule length_comport_frame)

text \<open>A changed setting, its event, and the acknowledgement.\<close>

lemma sound_set:
  assumes "\<And>s. bridge_ok s \<Longrightarrow> bridge_ok (f s)" "\<And>s. \<exists>evs. levents (f s) = levents s @ evs \<and> (bridge_ok s \<longrightarrow> list_all setting_ok evs)"
  shows "sound s (f s)"
  using assms unfolding sound_def by blast

lemma sound_format:
  "bridge_ok s \<Longrightarrow> bridge_ok t \<Longrightarrow> levents t = levents s \<Longrightarrow> sound s (apply_format t)"
  by (auto simp: sound_def apply_format_def setting_ok_def) (auto simp: bridge_ok_def)

lemma sound_mem: "bridge_ok t \<Longrightarrow> levents t = levents s \<Longrightarrow> sound s t"
  by (simp add: sound_def)

lemma sound_then: "bridge_ok s \<Longrightarrow> sound s t \<Longrightarrow> (bridge_ok t \<Longrightarrow> sound t u) \<Longrightarrow> sound s u"
  by (metis sound_def sound_trans)

lemma soundI: "(bridge_ok s \<Longrightarrow> sound s t) \<Longrightarrow> sound s t"
  by (auto simp: sound_def)

lemma sound_sb_sets:
  assumes "bridge_ok s"
  shows "sound s (sb_set_baud pl n s)" "sound s (sb_set_datasize pl n s)" "sound s (sb_set_parity pl n s)"
    "sound s (sb_set_stopsize pl n s)" "sound s (sb_set_control pl n s)"
proof -
  have b: "sound s ((lemit (L_baud w) s)\<lparr>cur_baud := w\<rparr>)" if "300 \<le> w" "w \<le> 1500000" for w
    using assms that by (auto simp: sound_def bridge_ok_def setting_ok_def)
  then show "sound s (sb_set_baud pl n s)"
    unfolding sb_set_baud_def Let_def by (intro sound_trans [OF _ sound_ack] sound_if) auto
  show "sound s (sb_set_datasize pl n s)" "sound s (sb_set_parity pl n s)" "sound s (sb_set_stopsize pl n s)"
    unfolding sb_set_datasize_def sb_set_parity_def sb_set_stopsize_def Let_def
    by (intro sound_trans [OF _ sound_ack] sound_if sound_format assms sound_refl; use assms in \<open>auto simp: bridge_ok_def\<close>)+
  show "sound s (sb_set_control pl n s)"
    unfolding sb_set_control_def
    by (intro sound_if sound_trans [OF _ sound_ack] sound_lemit sound_refl) (simp_all add: setting_ok_def)
qed

lemma sound_handle_sb: "bridge_ok s \<Longrightarrow> sound s (tn_handle_sb s)"
  unfolding tn_handle_sb_def Let_def by (simp add: sound_sb_sets sound_ack)

lemma tn_send_simps [simp]:
  "client (tn_send d s) = client s" "rx (tn_send d s) = rx s" "rx_off (tn_send d s) = rx_off s"
  "telnet_mode (tn_send d s) = telnet_mode s" "tn_state (tn_send d s) = tn_state s"
  "comport_active (tn_send d s) = comport_active s"
  by (simp_all add: tn_send_def)

lemma sound_handle_verb: "bridge_ok s \<Longrightarrow> telnet_mode s \<Longrightarrow> sound s (tn_handle_verb v opt s)"
proof -
  assume ok: "bridge_ok s" "telnet_mode s"
  define t where "t = tn_verb_reply v opt s"
  have t: "sound s t" "telnet_mode t" using ok(2) by (simp_all add: t_def tn_verb_reply_def sound_send)
  then have "sound t (t\<lparr>comport_active := True\<rparr>)"
    using ok(1) by (auto simp: sound_def bridge_ok_def)
  then have "sound s (tn_comport_ack 7 [0x30] (t\<lparr>comport_active := True\<rparr>))"
    using t(1) sound_ack sound_trans by blast
  then show ?thesis
    unfolding tn_handle_verb_def Let_def t_def [symmetric] using t(1) by (rule sound_if)
qed

lemma fields_kept:
  "rx (tn_handle_verb v opt s) = rx s" "rx_off (tn_handle_verb v opt s) = rx_off s" "client (tn_handle_verb v opt s) = client s"
  "telnet_mode (tn_handle_verb v opt s) = telnet_mode s"
  "rx (tn_handle_sb s) = rx s" "rx_off (tn_handle_sb s) = rx_off s" "client (tn_handle_sb s) = client s"
  "telnet_mode (tn_handle_sb s) = telnet_mode s"
  "rx (sb_put b s) = rx s" "rx_off (sb_put b s) = rx_off s" "client (sb_put b s) = client s" "telnet_mode (sb_put b s) = telnet_mode s"
  by (simp_all add: tn_handle_verb_def tn_verb_reply_def tn_handle_sb_def sb_put_def sb_set_baud_def sb_set_datasize_def sb_set_parity_def
    sb_set_stopsize_def sb_set_control_def tn_comport_ack_def apply_format_def Let_def)

lemma process_kept [simp]:
  "rx (snd (tn_process b s)) = rx s" "rx_off (snd (tn_process b s)) = rx_off s" "client (snd (tn_process b s)) = client s"
  "telnet_mode (snd (tn_process b s)) = telnet_mode s"
  by (simp_all add: tn_process_def fields_kept split: tn_st.split)

lemma sound_state:
  "telnet_mode s \<Longrightarrow> sound s (s\<lparr>tn_state := t\<rparr>)"
  "telnet_mode s \<Longrightarrow> sound s (s\<lparr>tn_state := t, sb_len := 0\<rparr>)"
  "telnet_mode s \<Longrightarrow> sound s (s\<lparr>tn_verb := v, tn_state := t\<rparr>)"
  by (auto simp: sound_def bridge_ok_def)

lemma sound_sb_put: "sound s (sb_put b s)"
  by (auto simp: sound_def bridge_ok_def sb_put_def)

lemma sound_process:
  assumes "bridge_ok s" "telnet_mode s"
  shows "sound s (snd (tn_process b s))"
proof -
  have "sound s ((tn_handle_verb v b s)\<lparr>tn_state := t\<rparr>)" "sound s ((tn_handle_sb s)\<lparr>tn_state := t\<rparr>)"
    "sound s ((sb_put c s)\<lparr>tn_state := t\<rparr>)" for v t c
    using assms by (auto intro!: sound_trans [OF _ sound_state(1)] sound_handle_verb sound_handle_sb sound_sb_put simp: fields_kept)
  then show ?thesis
    using assms by (cases "tn_state s") (simp_all add: tn_process_def sound_state sound_sb_put)
qed

lemma fan_out_kept [simp]:
  "client (fan_out q r b s) = client s" "rx (fan_out q r b s) = rx s" "rx_off (fan_out q r b s) = rx_off s"
  "telnet_mode (fan_out q r b s) = telnet_mode s" "tn_state (fan_out q r b s) = tn_state s"
  by (simp_all add: fan_out_def Let_def)

lemma sound_fan_out: "sound s (fan_out q r b s)"
  unfolding fan_out_def Let_def by (auto simp: sound_def setting_ok_def)

lemma sound_uart_loop: "sound s (uart_loop q n s)"
  by (induction q n s rule: uart_loop.induct) (auto split: option.split intro: sound_trans [OF sound_fan_out])

lemma sound_cdc_loop: "sound s (cdc_loop q n s)"
  by (induction q n s rule: cdc_loop.induct) (auto split: option.split intro: sound_trans [OF sound_fan_out])

text \<open>Within a turn of the last loop the offset may stand at the end of a buffer; \<open>rx_step\<close> moves on.\<close>

lemma tcp_byte_kept [simp]:
  "client (tcp_byte q b s) = client s" "rx (tcp_byte q b s) = rx s" "rx_off (tcp_byte q b s) = rx_off s"
  "telnet_mode (tcp_byte q b s) = telnet_mode s"
  by (cases "tn_process b s"; use process_kept [of b s] in \<open>simp add: tcp_byte_def split: option.split\<close>)+

lemma sound_tcp_byte: "sound s (tcp_byte q b s)"
proof (rule soundI)
  assume ok: "bridge_ok s"
  show ?thesis
  proof (cases "telnet_mode s")
    case True
    then have "sound s (snd (tn_process b s))" using ok by (rule sound_process [rotated])
    then show ?thesis
      using True by (auto simp: tcp_byte_def split: prod.split option.split intro: sound_trans [OF _ sound_fan_out])
  qed (simp add: tcp_byte_def sound_fan_out)
qed

text \<open>The offset does not matter to what is done with a byte.\<close>

lemma off_commutes:
  "lemit v (s\<lparr>rx_off := k\<rparr>) = (lemit v s)\<lparr>rx_off := k\<rparr>"
  "tn_send d (s\<lparr>rx_off := k\<rparr>) = (tn_send d s)\<lparr>rx_off := k\<rparr>"
  "tn_comport_ack cmd pl (s\<lparr>rx_off := k\<rparr>) = (tn_comport_ack cmd pl s)\<lparr>rx_off := k\<rparr>"
  "apply_format (s\<lparr>rx_off := k\<rparr>) = (apply_format s)\<lparr>rx_off := k\<rparr>"
  "sb_put b (s\<lparr>rx_off := k\<rparr>) = (sb_put b s)\<lparr>rx_off := k\<rparr>"
  "fan_out q r b (s\<lparr>rx_off := k\<rparr>) = (fan_out q r b s)\<lparr>rx_off := k\<rparr>"
  by (simp_all add: lemit_def tn_send_def tn_comport_ack_def apply_format_def sb_put_def fan_out_def Let_def)

lemma off_commutes_sb:
  "sb_set_baud pl n (s\<lparr>rx_off := k\<rparr>) = (sb_set_baud pl n s)\<lparr>rx_off := k\<rparr>"
  "sb_set_datasize pl n (s\<lparr>rx_off := k\<rparr>) = (sb_set_datasize pl n s)\<lparr>rx_off := k\<rparr>"
  "sb_set_parity pl n (s\<lparr>rx_off := k\<rparr>) = (sb_set_parity pl n s)\<lparr>rx_off := k\<rparr>"
  "sb_set_stopsize pl n (s\<lparr>rx_off := k\<rparr>) = (sb_set_stopsize pl n s)\<lparr>rx_off := k\<rparr>"
  "sb_set_control pl n (s\<lparr>rx_off := k\<rparr>) = (sb_set_control pl n s)\<lparr>rx_off := k\<rparr>"
proof -
  have c: "t\<lparr>rx_off := k, cur_databits := w\<rparr> = t\<lparr>cur_databits := w, rx_off := k\<rparr>"
    "t\<lparr>rx_off := k, cur_parity := y\<rparr> = t\<lparr>cur_parity := y, rx_off := k\<rparr>"
    "t\<lparr>rx_off := k, cur_stop := w\<rparr> = t\<lparr>cur_stop := w, rx_off := k\<rparr>"
    "t\<lparr>rx_off := k, cur_baud := v\<rparr> = t\<lparr>cur_baud := v, rx_off := k\<rparr>"
    "cur_baud (t\<lparr>rx_off := k\<rparr>) = cur_baud t" "cur_databits (t\<lparr>rx_off := k\<rparr>) = cur_databits t"
    "cur_parity (t\<lparr>rx_off := k\<rparr>) = cur_parity t" "cur_stop (t\<lparr>rx_off := k\<rparr>) = cur_stop t" for t :: bridge and w y v
    by simp_all
  show "sb_set_baud pl n (s\<lparr>rx_off := k\<rparr>) = (sb_set_baud pl n s)\<lparr>rx_off := k\<rparr>"
    by (cases "n \<ge> 4 \<and> be32_of pl \<ge> 300 \<and> be32_of pl \<le> 1500000")
      (simp_all only: sb_set_baud_def Let_def off_commutes c if_True if_False simp_thms)
  show "sb_set_datasize pl n (s\<lparr>rx_off := k\<rparr>) = (sb_set_datasize pl n s)\<lparr>rx_off := k\<rparr>"
    by (cases "n \<ge> 1 \<and> pl ! 0 \<ge> 5 \<and> pl ! 0 \<le> 8")
      (simp_all only: sb_set_datasize_def Let_def off_commutes c if_True if_False simp_thms)
  show "sb_set_parity pl n (s\<lparr>rx_off := k\<rparr>) = (sb_set_parity pl n s)\<lparr>rx_off := k\<rparr>"
    by (cases "n \<ge> 1 \<and> pl ! 0 \<ge> 1 \<and> pl ! 0 \<le> 3")
      (simp_all only: sb_set_parity_def Let_def off_commutes c if_True if_False simp_thms)
  show "sb_set_stopsize pl n (s\<lparr>rx_off := k\<rparr>) = (sb_set_stopsize pl n s)\<lparr>rx_off := k\<rparr>"
    by (cases "n \<ge> 1 \<and> (pl ! 0 = 1 \<or> pl ! 0 = 2)")
      (simp_all only: sb_set_stopsize_def Let_def off_commutes c if_True if_False simp_thms)
  show "sb_set_control pl n (s\<lparr>rx_off := k\<rparr>) = (sb_set_control pl n s)\<lparr>rx_off := k\<rparr>"
    by (simp add: sb_set_control_def off_commutes)
qed

lemma off_commutes_tn:
  "tn_handle_verb v opt (s\<lparr>rx_off := k\<rparr>) = (tn_handle_verb v opt s)\<lparr>rx_off := k\<rparr>"
  "tn_handle_sb (s\<lparr>rx_off := k\<rparr>) = (tn_handle_sb s)\<lparr>rx_off := k\<rparr>"
proof -
  have "tn_verb_reply v opt (s\<lparr>rx_off := k\<rparr>) = (tn_verb_reply v opt s)\<lparr>rx_off := k\<rparr>"
    by (simp add: tn_verb_reply_def off_commutes)
  moreover have "t\<lparr>rx_off := k, comport_active := True\<rparr> = t\<lparr>comport_active := True, rx_off := k\<rparr>"
    "comport_active (t\<lparr>rx_off := k\<rparr>) = comport_active t" for t :: bridge by simp_all
  ultimately show "tn_handle_verb v opt (s\<lparr>rx_off := k\<rparr>) = (tn_handle_verb v opt s)\<lparr>rx_off := k\<rparr>"
    unfolding tn_handle_verb_def Let_def by (simp only: off_commutes if_distrib [of "\<lambda>t. t\<lparr>rx_off := k\<rparr>"])
  show "tn_handle_sb (s\<lparr>rx_off := k\<rparr>) = (tn_handle_sb s)\<lparr>rx_off := k\<rparr>"
    by (simp add: tn_handle_sb_def off_commutes_sb off_commutes Let_def)
qed

lemma process_off: "tn_process b (s\<lparr>rx_off := k\<rparr>) = (case tn_process b s of (d, t) \<Rightarrow> (d, t\<lparr>rx_off := k\<rparr>))"
  by (cases "tn_state s") (auto simp: tn_process_def off_commutes off_commutes_tn)

lemma tcp_byte_off: "tcp_byte q b (s\<lparr>rx_off := k\<rparr>) = (tcp_byte q b s)\<lparr>rx_off := k\<rparr>"
  by (simp add: tcp_byte_def process_off off_commutes split: prod.split option.split)

lemma sound_tcp_turn:
  assumes "rx s \<noteq> []"
  shows "sound s (rx_step (tcp_byte q b (s\<lparr>rx_off := rx_off s + 1\<rparr>)))"
proof -
  let ?t = "tcp_byte q b s"
  have "sound ?t (rx_step (?t\<lparr>rx_off := rx_off ?t + 1\<rparr>))"
    using assms by (cases "rx s"; cases "tl (rx s)") (auto simp: sound_def bridge_ok_def rx_step_def)
  then show ?thesis using sound_trans [OF sound_tcp_byte [of s q b]] by (simp add: tcp_byte_off)
qed

lemma sound_tcp_loop: "sound s (snd (tcp_loop q n c s))"
  by (induction q n c s rule: tcp_loop.induct) (auto simp: Let_def intro: sound_trans [OF sound_tcp_turn])

lemma sound_task: "sound s (serial_bridge_task a s)"
proof -
  define t where "t = cdc_loop (cdc_turns a) TICK_BYTE_BUDGET (uart_loop (uart_turns a) TICK_BYTE_BUDGET s)"
  obtain c u where u: "tcp_loop (tcp_turns a) TICK_BYTE_BUDGET 0 t = (c, u)" by fastforce
  have "sound s t" unfolding t_def by (rule sound_trans [OF sound_uart_loop sound_cdc_loop])
  also have "sound t u" using sound_tcp_loop [of t "tcp_turns a" TICK_BYTE_BUDGET 0] by (simp add: u)
  finally have su: "sound s u" .
  have m: "sound u (lemit L_flush (if client v \<noteq> None then lemit L_output v else v))"
    if "v = (if c \<noteq> 0 \<and> client u \<noteq> None then lemit (L_recved c) u else u)" for v
    using that by (auto simp: sound_def setting_ok_def)
  show ?thesis
    unfolding serial_bridge_task_def using sound_trans [OF su m [OF refl]]
    by (intro sound_if) (simp_all only: Let_def t_def [symmetric] u prod.case sound_refl)
qed

lemma sound_release: "sound s (release_lines s)"
  by (auto simp: release_lines_def sound_def setting_ok_def)

lemma sound_drop: "sound s (tcp_drop_client c a s)"
  unfolding tcp_drop_client_def release_lines_def Let_def
  by (auto simp: sound_def setting_ok_def split: option.split) (auto simp: bridge_ok_def)

lemma sound_err: "sound s (bridge_err s)"
  unfolding bridge_err_def release_lines_def Let_def
  by (auto simp: sound_def setting_ok_def) (auto simp: bridge_ok_def)

lemma sound_recv:
  assumes "\<And>cs. ch = Some cs \<Longrightarrow> list_all (\<lambda>p. p \<noteq> []) cs"
  shows "sound s (bridge_recv c p ch s)"
proof (cases ch)
  case None
  then show ?thesis by (simp add: bridge_recv_def sound_drop sound_lemit setting_ok_def)
next
  case (Some cs)
  then have "list_all (\<lambda>p. p \<noteq> []) cs" using assms by simp
  then have "list_all (\<lambda>p. p \<noteq> []) cs" "cs \<noteq> [] \<Longrightarrow> 0 < length (hd cs)"
    by (cases cs; simp)+
  with Some show ?thesis by (auto simp: bridge_recv_def sound_def bridge_ok_def)
qed

lemma sound_accept: "sound s (snd (bridge_accept m r p ok i s))"
  by (auto simp: bridge_accept_def sound_def setting_ok_def split: option.split) (auto simp: bridge_ok_def)

lemma sound_coding: "sound s (serial_bridge_apply_coding r d p st s)"
proof (rule soundI)
  assume ok: "bridge_ok s"
  define t where "t = (lemit (L_baud r) s)\<lparr>cur_baud := r,
    cur_parity := (if p = 1 then UART_PARITY_ODD else if p = 2 then UART_PARITY_EVEN else UART_PARITY_NONE),
    cur_databits := (if d \<ge> 5 \<and> d \<le> 8 then d else 8), cur_stop := (if st = 2 then 2 else 1)\<rparr>"
  have e: "serial_bridge_apply_coding r d p st s = (if r < 300 \<or> r > 1500000 then s else apply_format t)"
    by (simp add: serial_bridge_apply_coding_def t_def)
  have "bridge_ok t" "levents t = levents s @ [L_baud r]" if "\<not> (r < 300 \<or> r > 1500000)"
  proof -
    show "levents t = levents s @ [L_baud r]" by (simp add: t_def)
    have "cur_baud t = r" "cur_databits t = (if d \<ge> 5 \<and> d \<le> 8 then d else 8)" "cur_stop t = (if st = 2 then 2 else 1)"
      "length (sb_buf t) = length (sb_buf s)" "sb_len t = sb_len s" "client t = client s" "rx t = rx s" "telnet_mode t = telnet_mode s"
      "tn_state t = tn_state s" "comport_active t = comport_active s" "rx_off t = rx_off s"
      by (simp_all add: t_def)
    then show "bridge_ok t" using ok that by (simp add: bridge_ok_def not_less)
  qed
  then have "sound s (apply_format t)" if "\<not> (r < 300 \<or> r > 1500000)"
    using that by (auto simp: sound_def apply_format_def setting_ok_def bridge_ok_def)
  then show ?thesis unfolding e by (rule sound_if [OF sound_refl])
qed

lemma sound_step: "chain_ok a \<Longrightarrow> sound s (bridge_step a s)"
  by (cases a) (auto simp: bridge_step_def chain_ok_def sound_accept sound_err sound_coding sound_task intro!: sound_recv
    split: option.splits)

definition bridge_run :: "bridge_action list \<Rightarrow> bridge \<Rightarrow> bridge" where
  "bridge_run acts s = fold bridge_step acts s"

lemma sound_run: "list_all chain_ok acts \<Longrightarrow> sound s (bridge_run acts s)"
  unfolding bridge_run_def by (induction acts arbitrary: s) (auto intro: sound_trans [OF sound_step])

section \<open>What the line gets from the client\<close>

text \<open>Telnet as RFC 854 has it: the states and the data bytes of a stream, whatever the options and
  subnegotiations in it.\<close>

fun tn_next :: "tn_st \<Rightarrow> u8 \<Rightarrow> tn_st \<times> bytes" where
  "tn_next T_DATA b = (if b = TN_IAC then (T_IAC, []) else (T_DATA, [b]))"
| "tn_next T_IAC b = (if b = TN_IAC then (T_DATA, [b]) else if b = TN_SB then (T_SB, [])
                      else if b \<in> {TN_WILL, TN_WONT, TN_DO, TN_DONT} then (T_VERB, []) else (T_DATA, []))"
| "tn_next T_VERB b = (T_DATA, [])"
| "tn_next T_SB b = (if b = TN_IAC then T_SB_IAC else T_SB, [])"
| "tn_next T_SB_IAC b = (if b = TN_IAC then T_SB else T_DATA, [])"

fun telnet_data :: "tn_st \<Rightarrow> bytes \<Rightarrow> bytes" where
  "telnet_data st [] = []"
| "telnet_data st (b # bs) = snd (tn_next st b) @ telnet_data (fst (tn_next st b)) bs"

definition telnet_state :: "tn_st \<Rightarrow> bytes \<Rightarrow> tn_st" where
  "telnet_state st bs = foldl (\<lambda>st b. fst (tn_next st b)) st bs"

lemma telnet_append:
  "telnet_data st (xs @ ys) = telnet_data st xs @ telnet_data (telnet_state st xs) ys"
  "telnet_state st (xs @ ys) = telnet_state (telnet_state st xs) ys"
  by (induction xs arbitrary: st) (simp_all add: telnet_state_def)

definition line_data :: "bool \<Rightarrow> tn_st \<Rightarrow> bytes \<Rightarrow> bytes" where
  "line_data telnet st bs = (if telnet then telnet_data st bs else bs)"

definition line_state :: "bool \<Rightarrow> tn_st \<Rightarrow> bytes \<Rightarrow> tn_st" where
  "line_state telnet st bs = (if telnet then telnet_state st bs else st)"

lemma line_append:
  "line_data t st (xs @ ys) = line_data t st xs @ line_data t (line_state t st xs) ys"
  "line_state t st (xs @ ys) = line_state t (line_state t st xs) ys"
  "line_data t st [] = []" "line_state t st [] = st"
  by (simp_all add: line_data_def line_state_def telnet_append) (simp_all add: telnet_state_def)

definition pending :: "bridge \<Rightarrow> bytes" where
  "pending s = drop (rx_off s) (concat (rx s))"

fun from_client :: "line_event list \<Rightarrow> bytes" where
  "from_client [] = []"
| "from_client (L_uart SRC_TCP b # vs) = b # from_client vs"
| "from_client (v # vs) = from_client vs"

lemma from_client_append [simp]: "from_client (xs @ ys) = from_client xs @ from_client ys"
  by (induction xs rule: from_client.induct) simp_all

lemma from_client_kept [simp]:
  "from_client (levents (tn_send d s)) = from_client (levents s)"
  "from_client (levents (tn_handle_verb v opt s)) = from_client (levents s)"
  "from_client (levents (tn_handle_sb s)) = from_client (levents s)"
  "from_client (levents (sb_put b s)) = from_client (levents s)"
  by (simp_all add: tn_send_def tn_handle_verb_def tn_verb_reply_def tn_handle_sb_def sb_put_def sb_set_baud_def
    sb_set_datasize_def sb_set_parity_def sb_set_stopsize_def sb_set_control_def tn_comport_ack_def apply_format_def Let_def)

text \<open>The state machine of the code is that of the standard.\<close>

lemma tn_process_next:
  "tn_state (snd (tn_process b s)) = fst (tn_next (tn_state s) b)"
  "(case fst (tn_process b s) of None \<Rightarrow> [] | Some d \<Rightarrow> [d]) = snd (tn_next (tn_state s) b)"
  "from_client (levents (snd (tn_process b s))) = from_client (levents s)"
proof -
  have v: "TN_WILL \<le> b \<and> b \<le> TN_DONT \<longleftrightarrow> b \<in> {TN_WILL, TN_WONT, TN_DO, TN_DONT}"
    by (simp add: word_le_nat_alt word_unat_eq_iff) arith
  show "tn_state (snd (tn_process b s)) = fst (tn_next (tn_state s) b)"
    "(case fst (tn_process b s) of None \<Rightarrow> [] | Some d \<Rightarrow> [d]) = snd (tn_next (tn_state s) b)"
    "from_client (levents (snd (tn_process b s))) = from_client (levents s)"
    by (cases "tn_state s"; simp add: tn_process_def v del: insert_iff; simp add: sb_put_def)+
qed

lemma fan_out_from_client:
  "from_client (levents (fan_out q r b s)) = from_client (levents s) @ (if r = SRC_TCP then [b] else [])"
  by (cases r) (simp_all add: fan_out_def Let_def)

lemma tcp_byte_line:
  "from_client (levents (tcp_byte q b s)) = from_client (levents s) @ line_data (telnet_mode s) (tn_state s) [b]"
  "tn_state (tcp_byte q b s) = line_state (telnet_mode s) (tn_state s) [b]"
proof -
  obtain d t where d: "tn_process b s = (d, t)" by fastforce
  show "from_client (levents (tcp_byte q b s)) = from_client (levents s) @ line_data (telnet_mode s) (tn_state s) [b]"
    "tn_state (tcp_byte q b s) = line_state (telnet_mode s) (tn_state s) [b]"
    using tn_process_next [of b s]
    by (cases d; simp add: tcp_byte_def d line_data_def line_state_def telnet_state_def fan_out_from_client)+
qed

lemma loops_kept [simp]:
  "rx (uart_loop q n s) = rx s \<and> rx_off (uart_loop q n s) = rx_off s \<and> tn_state (uart_loop q n s) = tn_state s \<and>
   telnet_mode (uart_loop q n s) = telnet_mode s \<and> client (uart_loop q n s) = client s \<and>
   from_client (levents (uart_loop q n s)) = from_client (levents s)"
  "rx (cdc_loop q n s) = rx s \<and> rx_off (cdc_loop q n s) = rx_off s \<and> tn_state (cdc_loop q n s) = tn_state s \<and>
   telnet_mode (cdc_loop q n s) = telnet_mode s \<and> client (cdc_loop q n s) = client s \<and>
   from_client (levents (cdc_loop q n s)) = from_client (levents s)"
proof -
  show "rx (uart_loop q n s) = rx s \<and> rx_off (uart_loop q n s) = rx_off s \<and> tn_state (uart_loop q n s) = tn_state s \<and>
    telnet_mode (uart_loop q n s) = telnet_mode s \<and> client (uart_loop q n s) = client s \<and>
    from_client (levents (uart_loop q n s)) = from_client (levents s)"
    by (induction q n s rule: uart_loop.induct) (auto simp: fan_out_from_client split: option.split)
  show "rx (cdc_loop q n s) = rx s \<and> rx_off (cdc_loop q n s) = rx_off s \<and> tn_state (cdc_loop q n s) = tn_state s \<and>
    telnet_mode (cdc_loop q n s) = telnet_mode s \<and> client (cdc_loop q n s) = client s \<and>
    from_client (levents (cdc_loop q n s)) = from_client (levents s)"
    by (induction q n s rule: cdc_loop.induct) (auto simp: fan_out_from_client split: option.split)
qed

lemma pending_step:
  assumes "bridge_ok s" "rx s \<noteq> []"
  shows "pending s = hd (rx s) ! rx_off s # pending (rx_step (s\<lparr>rx_off := rx_off s + 1\<rparr>))"
proof -
  obtain p ps where r: "rx s = p # ps" using assms(2) by (cases "rx s") auto
  have "rx_off s < length p" using assms by (simp add: bridge_ok_def r)
  then show ?thesis by (simp add: pending_def rx_step_def r Cons_nth_drop_Suc [symmetric])
qed

lemma pending_nil: "bridge_ok s \<Longrightarrow> pending s = [] \<longleftrightarrow> rx s = []"
  using pending_step [of s] by (cases "rx s = []") (auto simp: pending_def)

text \<open>What the last loop does with what is held: it takes \<open>k\<close> bytes off, no more than the budget, and
  the line gets the data in them.\<close>

definition served :: "nat \<Rightarrow> bytes \<Rightarrow> bridge \<Rightarrow> bridge \<Rightarrow> bool" where
  "served k bs s s' \<longleftrightarrow> k \<le> length bs \<and> pending s' = drop k bs \<and> client s' = client s \<and> telnet_mode s' = telnet_mode s \<and>
     from_client (levents s') = from_client (levents s) @ line_data (telnet_mode s) (tn_state s) (take k bs) \<and>
     tn_state s' = line_state (telnet_mode s) (tn_state s) (take k bs)"

lemma served_trans:
  assumes "served k bs s t" "served l (drop k bs @ cs) t u"
  shows "served (k + l) (bs @ cs) s u"
proof -
  have k: "k \<le> length bs" using assms(1) by (simp add: served_def)
  then have t: "take (k + l) (bs @ cs) = take k bs @ take l (drop k bs @ cs)" "drop (k + l) (bs @ cs) = drop l (drop k bs @ cs)"
    using take_add [of k l "bs @ cs"] drop_drop [of l k "bs @ cs"] by (simp_all add: add.commute)
  show ?thesis using assms k unfolding served_def t by (auto simp: line_append)
qed

lemma served_0: "pending s = bs \<Longrightarrow> pending s' = bs \<Longrightarrow> client s' = client s \<Longrightarrow> telnet_mode s' = telnet_mode s \<Longrightarrow>
    from_client (levents s') = from_client (levents s) \<Longrightarrow> tn_state s' = tn_state s \<Longrightarrow> served 0 bs s s'"
  by (simp add: served_def line_append)

lemma served_turn:
  assumes "bridge_ok s" "rx s \<noteq> []"
  shows "served 1 (pending s) s (rx_step (tcp_byte q (hd (rx s) ! rx_off s) (s\<lparr>rx_off := rx_off s + 1\<rparr>)))"
proof -
  define t where "t = rx_step (tcp_byte q (hd (rx s) ! rx_off s) (s\<lparr>rx_off := rx_off s + 1\<rparr>))"
  let ?b = "hd (rx s) ! rx_off s"
  have st: "client (rx_step x) = client x" "telnet_mode (rx_step x) = telnet_mode x" "levents (rx_step x) = levents x"
    "tn_state (rx_step x) = tn_state x" for x
    by (simp_all add: rx_step_def)
  have "pending t = pending (rx_step (s\<lparr>rx_off := rx_off s + 1\<rparr>))"
    by (simp add: t_def tcp_byte_off pending_def rx_step_def)
  then have p: "pending s = ?b # pending t" using pending_step [OF assms(1,2)] by simp
  have "take 1 (pending s) = [?b]" "drop 1 (pending s) = pending t" "1 \<le> length (pending s)" by (simp_all add: p)
  moreover have "client t = client s" "telnet_mode t = telnet_mode s"
    "from_client (levents t) = from_client (levents s) @ line_data (telnet_mode s) (tn_state s) [?b]"
    "tn_state t = line_state (telnet_mode s) (tn_state s) [?b]"
    by (simp_all add: t_def st tcp_byte_off tcp_byte_line)
  ultimately show ?thesis unfolding t_def [symmetric] served_def by simp
qed

lemma served_loop: "bridge_ok s \<Longrightarrow> \<exists>k \<le> n. fst (tcp_loop q n c s) = c + k \<and> served k (pending s) s (snd (tcp_loop q n c s))"
proof (induction q n c s rule: tcp_loop.induct)
  case (1 q c s)
  then show ?case by (intro exI [of _ 0]) (simp add: served_0)
next
  case (2 q n c s)
  let ?b = "hd (rx s) ! rx_off s"
  let ?t = "rx_step (tcp_byte (q n) ?b (s\<lparr>rx_off := rx_off s + 1\<rparr>))"
  show ?case
  proof (cases "rx s = [] \<or> tn_next_is_data s ?b \<and> \<not> sinks_ready (q n) SRC_TCP s")
    case True
    then have "tcp_loop q (Suc n) c s = (c, s)" by (auto simp: Let_def)
    then show ?thesis by (intro exI [of _ 0]) (simp add: served_0)
  next
    case False
    then have r: "rx s \<noteq> []" "tcp_loop q (Suc n) c s = tcp_loop q n (c + 1) ?t" by (auto simp: Let_def)
    have t: "served 1 (pending s) s ?t" by (rule served_turn [OF 2(2) r(1)])
    have "bridge_ok ?t" using sound_tcp_turn [OF r(1)] 2(2) by (simp add: sound_def)
    with 2(1) [OF r(1) refl] False obtain k where k: "k \<le> n" "fst (tcp_loop q n (c + 1) ?t) = c + 1 + k"
      "served k (pending ?t) ?t (snd (tcp_loop q n (c + 1) ?t))"
      by auto
    have "pending ?t = drop 1 (pending s) @ []" using t by (simp add: served_def)
    with k(3) have "served (1 + k) (pending s @ []) s (snd (tcp_loop q n (c + 1) ?t))"
      using served_trans [OF t] by metis
    then show ?thesis using k(1,2) unfolding r(2) by (intro exI [of _ "1 + k"]) simp
  qed
qed

lemma served_same: "served k bs s t \<Longrightarrow> client t' = client t \<Longrightarrow> telnet_mode t' = telnet_mode t \<Longrightarrow> pending t' = pending t \<Longrightarrow>
    from_client (levents t') = from_client (levents t) \<Longrightarrow> tn_state t' = tn_state t \<Longrightarrow> served k bs s t'"
  by (simp add: served_def)

lemma served_task:
  assumes "bridge_ok s"
  shows "\<exists>k. served k (pending s) s (serial_bridge_task a s)"
proof (cases "\<not> look_uart a \<and> \<not> look_cdc a \<and> rx s = []")
  case True
  then have "serial_bridge_task a s = s" by (simp add: serial_bridge_task_def)
  then show ?thesis by (metis served_0)
next
  case False
  define t where "t = cdc_loop (cdc_turns a) TICK_BYTE_BUDGET (uart_loop (uart_turns a) TICK_BYTE_BUDGET s)"
  obtain c u where u: "tcp_loop (tcp_turns a) TICK_BYTE_BUDGET 0 t = (c, u)" by fastforce
  have st: "served 0 (pending s) s t" by (rule served_0) (simp_all add: t_def pending_def)
  have "bridge_ok t"
    using sound_trans [OF sound_uart_loop sound_cdc_loop] assms unfolding t_def sound_def by blast
  then obtain k where "served k (pending t) t u"
    using served_loop [of t TICK_BYTE_BUDGET "tcp_turns a" 0] by (auto simp: u)
  moreover have "pending t = pending s" using st by (simp add: served_def)
  ultimately have "served k (pending s) s u" using served_trans [OF st, of k "[]" u] by simp
  moreover have "serial_bridge_task a s = lemit L_flush
      (let v = (if c \<noteq> 0 \<and> client u \<noteq> None then lemit (L_recved c) u else u) in if client v \<noteq> None then lemit L_output v else v)"
    using False by (simp only: serial_bridge_task_def if_False Let_def t_def [symmetric] u prod.case)
  ultimately have "served k (pending s) s (serial_bridge_task a s)"
    by (auto intro: served_same simp: Let_def pending_def)
  then show ?thesis ..
qed

text \<open>The bytes a step brings from client \<open>p\<close>; the steps between its connecting and its leaving.\<close>

fun arrived :: "bridge_action list \<Rightarrow> bytes" where
  "arrived [] = []"
| "arrived (B_recv c p (Some ch) # acts) = concat ch @ arrived acts"
| "arrived (a # acts) = arrived acts"

definition in_session :: "nat \<Rightarrow> bridge_action \<Rightarrow> bool" where
  "in_session p a = (case a of B_recv c p' ch \<Rightarrow> p' = p \<and> ch \<noteq> None | B_task q \<Rightarrow> True | B_coding r d pa st \<Rightarrow> True | _ \<Rightarrow> False)"

lemma served_recv:
  assumes "bridge_ok s" "client s = Some p"
  shows "served 0 (pending s @ concat ch) s (bridge_recv c p (Some ch) s)"
proof -
  have "rx_off s \<le> length (concat (rx s))" if "rx s \<noteq> []"
    using assms(1) that by (cases "rx s") (auto simp: bridge_ok_def)
  then have "pending (bridge_recv c p (Some ch) s) = pending s @ concat ch"
    using assms(2) by (auto simp: bridge_recv_def pending_def)
  moreover have "client (bridge_recv c p (Some ch) s) = client s \<and> telnet_mode (bridge_recv c p (Some ch) s) = telnet_mode s \<and>
    levents (bridge_recv c p (Some ch) s) = levents s \<and> tn_state (bridge_recv c p (Some ch) s) = tn_state s"
    using assms(2) by (simp add: bridge_recv_def)
  ultimately show ?thesis by (simp add: served_def line_append)
qed

lemma coding_kept:
  "client (serial_bridge_apply_coding r d pa st s) = client s" "pending (serial_bridge_apply_coding r d pa st s) = pending s"
  "telnet_mode (serial_bridge_apply_coding r d pa st s) = telnet_mode s" "tn_state (serial_bridge_apply_coding r d pa st s) = tn_state s"
  "from_client (levents (serial_bridge_apply_coding r d pa st s)) = from_client (levents s)"
  by (simp_all add: serial_bridge_apply_coding_def apply_format_def pending_def)

lemma served_run:
  "bridge_ok s \<Longrightarrow> client s = Some p \<Longrightarrow> list_all chain_ok acts \<Longrightarrow> list_all (in_session p) acts \<Longrightarrow>
   \<exists>k. served k (pending s @ arrived acts) s (bridge_run acts s)"
proof (induction acts arbitrary: s)
  case Nil
  then show ?case by (intro exI [of _ 0]) (simp add: bridge_run_def served_0)
next
  case (Cons a acts)
  have ip: "in_session p a" using Cons.prems(4) by simp
  consider (recv) c ch where "a = B_recv c p (Some ch)" | (coding) r d pa st where "a = B_coding r d pa st"
    | (task) q where "a = B_task q"
    using ip by (cases a) (auto simp: in_session_def)
  then have "(\<exists>k. served k (pending s @ arrived [a]) s (bridge_step a s)) \<and> arrived (a # acts) = arrived [a] @ arrived acts"
  proof cases
    case recv
    then show ?thesis
      using served_recv [OF Cons.prems(1,2), of ch c] by (auto simp: bridge_step_def)
  next
    case coding
    have "served 0 (pending s) s (bridge_step a s)"
      unfolding coding by (rule served_0) (simp_all add: bridge_step_def coding_kept)
    then show ?thesis
      by (auto simp: coding)
  next
    case task
    then show ?thesis
      using served_task [OF Cons.prems(1), of q] by (simp_all add: bridge_step_def)
  qed
  then obtain k where k: "served k (pending s @ arrived [a]) s (bridge_step a s)" "arrived (a # acts) = arrived [a] @ arrived acts"
    by blast
  have "bridge_ok (bridge_step a s)" "client (bridge_step a s) = Some p"
    using sound_step [of a s] Cons.prems k(1) by (simp_all add: sound_def served_def)
  with Cons obtain l where "served l (pending (bridge_step a s) @ arrived acts) (bridge_step a s) (bridge_run acts (bridge_step a s))"
    by auto
  moreover have "pending (bridge_step a s) = drop k (pending s @ arrived [a])" using k(1) by (simp only: served_def)
  ultimately have "served (k + l) ((pending s @ arrived [a]) @ arrived acts) s (bridge_run acts (bridge_step a s))"
    using served_trans [OF k(1)] by metis
  then show ?case by (auto simp: k(2) bridge_run_def)
qed

section \<open>Port-control replies\<close>

text \<open>Without a 255 in it, the loop copies the payload as far as the buffer goes; the telnet layer at the other end
  undoes the doubling of a 255.\<close>

definition tn_feed :: "bytes \<Rightarrow> bridge \<Rightarrow> bridge" where
  "tn_feed bs s = fold (\<lambda>b s. snd (tn_process b s)) bs s"

lemma tn_feed_simps [simp]:
  "tn_feed [] s = s" "tn_feed (b # bs) s = tn_feed bs (snd (tn_process b s))"
  "tn_feed (xs @ ys) s = tn_feed ys (tn_feed xs s)"
  by (simp_all add: tn_feed_def)

text \<open>The subnegotiation received so far.\<close>

definition sub_data :: "bridge \<Rightarrow> bytes" where
  "sub_data s = take (sb_len s) (sb_buf s)"

definition collecting :: "bytes \<Rightarrow> bridge \<Rightarrow> bool" where
  "collecting d s \<longleftrightarrow> tn_state s = T_SB \<and> sb_len s = length d \<and> sub_data s = d \<and> length (sb_buf s) = SB_BUF_SIZE"

lemma collecting_put: "collecting d s \<Longrightarrow> length d < SB_BUF_SIZE \<Longrightarrow> collecting (d @ [b]) (sb_put b s)"
  by (auto simp: collecting_def sb_put_def sub_data_def take_Suc_conv_app_nth)

lemma collecting_byte:
  assumes "collecting d s" "length d < SB_BUF_SIZE"
  shows "collecting (d @ [p]) (tn_feed (if p = TN_IAC then [TN_IAC, TN_IAC] else [p]) s)"
proof -
  have st: "tn_state s = T_SB" using assms(1) by (simp add: collecting_def)
  have "(sb_put TN_IAC (s\<lparr>tn_state := T_SB_IAC\<rparr>))\<lparr>tn_state := T_SB\<rparr> = (sb_put TN_IAC s)\<lparr>tn_state := T_SB\<rparr>"
    by (simp add: sb_put_def)
  then have "p = TN_IAC \<Longrightarrow> tn_feed [TN_IAC, TN_IAC] s = (sb_put TN_IAC s)\<lparr>tn_state := T_SB\<rparr>"
    using st by (simp add: tn_process_def)
  moreover have "p \<noteq> TN_IAC \<Longrightarrow> tn_feed [p] s = sb_put p s" using st by (simp add: tn_process_def)
  moreover have "collecting (d @ [p]) ((sb_put p s)\<lparr>tn_state := T_SB\<rparr>)"
    using collecting_put [OF assms, of p] by (auto simp: collecting_def sub_data_def)
  ultimately show ?thesis using collecting_put [OF assms, of p] by (cases "p = TN_IAC") auto
qed

lemma collecting_loop:
  assumes "collecting d (tn_feed buf s)" "length d + 2 \<le> length buf" "length buf \<le> 22"
  shows "\<exists>k \<le> length pl. collecting (d @ take k pl) (tn_feed (ack_loop pl buf) s) \<and> (length buf + 2 * length pl \<le> 22 \<longrightarrow> k = length pl)"
  using assms
proof (induction pl buf arbitrary: d rule: ack_loop.induct)
  case (1 buf)
  then show ?case by simp
next
  case (2 p ps buf)
  show ?case
  proof (cases "length buf < 21")
    case False
    then show ?thesis using 2(2,4) by (intro exI [of _ 0]) auto
  next
    case True
    let ?buf = "buf @ (if p = TN_IAC then [TN_IAC] else []) @ [p]"
    have "collecting (d @ [p]) (tn_feed ?buf s)"
      using collecting_byte [OF 2(2), of p] 2(3) True by (simp split: if_splits)
    moreover have "length (d @ [p]) + 2 \<le> length ?buf" "length ?buf \<le> 22" using 2(3) True by auto
    ultimately obtain k where "k \<le> length ps" "collecting ((d @ [p]) @ take k ps) (tn_feed (ack_loop ps ?buf) s)"
      "length ?buf + 2 * length ps \<le> 22 \<longrightarrow> k = length ps"
      using 2(1) [of "d @ [p]"] True by auto
    then show ?thesis using True by (intro exI [of _ "Suc k"]) (auto split: if_splits)
  qed
qed

section \<open>Properties\<close>

definition line_idle :: line_answers where
  "line_idle = \<lparr>uart_in = None, cdc_connected = False, cdc_available = False, cdc_in = None, cdc_room = 0,
     sndbuf = 2920, uart_writable = True\<rparr>"

definition sample_pump :: pump_answers where
  "sample_pump = \<lparr>look_uart = False, look_cdc = False, uart_turns = \<lambda>_. line_idle, cdc_turns = \<lambda>_. line_idle,
     tcp_turns = \<lambda>_. line_idle\<rparr>"

lemma bridge_reset_ok: "bridge_ok bridge_reset"
  by (simp add: bridge_ok_def bridge_reset_def)

section \<open>The reset lines\<close>

text \<open>The level last put on a pin: low asserts the line and holds the target. A pin is low until it is first set.\<close>

definition pin_step :: "reset_pin \<Rightarrow> bool \<Rightarrow> line_event \<Rightarrow> bool" where
  "pin_step p l v = (case v of L_gpio q b \<Rightarrow> if q = p then b else l | _ \<Rightarrow> l)"

definition pin_high :: "reset_pin \<Rightarrow> line_event list \<Rightarrow> bool" where
  "pin_high p evs = foldl (pin_step p) False evs"

lemma pin_high_append [simp]: "pin_high p (evs @ vs) = foldl (pin_step p) (pin_high p evs) vs"
  by (simp add: pin_high_def)

definition released :: "bridge \<Rightarrow> bool" where
  "released s \<longleftrightarrow> pin_high BRIDGE_DTR_PIN (levents s) \<and> pin_high BRIDGE_RTS_PIN (levents s)"

text \<open>Only a client on the RFC 2217 port can hold a line.\<close>

definition lines_ok :: "bridge \<Rightarrow> bool" where
  "lines_ok s \<longleftrightarrow> telnet_mode s \<or> released s"

lemma lines_telnet: "telnet_mode s \<Longrightarrow> lines_ok s"
  by (simp add: lines_ok_def)

lemma lines_same: "lines_ok s \<Longrightarrow> telnet_mode s' = telnet_mode s \<Longrightarrow> levents s' = levents s \<Longrightarrow> lines_ok s'"
  by (simp add: lines_ok_def released_def)

lemma lines_lemit: "(\<And>p b. v \<noteq> L_gpio p b) \<Longrightarrow> lines_ok (lemit v s) = lines_ok s"
  by (cases v) (auto simp: lines_ok_def released_def pin_step_def)

lemma lines_fan_out [simp]: "lines_ok (fan_out q src b s) = lines_ok s"
  by (simp add: fan_out_def Let_def lines_lemit)

lemma lines_uart_loop: "lines_ok s \<Longrightarrow> lines_ok (uart_loop q n s)"
  by (induction q n s rule: uart_loop.induct) (auto split: option.split)

lemma lines_cdc_loop: "lines_ok s \<Longrightarrow> lines_ok (cdc_loop q n s)"
  by (induction q n s rule: cdc_loop.induct) (auto split: option.split)

lemma lines_tcp_byte: "lines_ok s \<Longrightarrow> lines_ok (tcp_byte q b s)"
proof (cases "telnet_mode s")
  case True
  then have "lines_ok (snd (tn_process b s))" by (simp add: lines_telnet)
  then show ?thesis using True by (auto simp: tcp_byte_def split: prod.split option.split)
qed (simp add: tcp_byte_def)

lemma lines_tcp_loop: "lines_ok s \<Longrightarrow> lines_ok (snd (tcp_loop q n c s))"
proof (induction q n c s rule: tcp_loop.induct)
  case (2 q n c s)
  let ?b = "hd (rx s) ! rx_off s"
  have "lines_ok (s\<lparr>rx_off := rx_off s + 1\<rparr>)" by (rule lines_same [OF 2(2)]) simp_all
  then have "lines_ok (rx_step (tcp_byte (q n) ?b (s\<lparr>rx_off := rx_off s + 1\<rparr>)))"
    using lines_tcp_byte [of "s\<lparr>rx_off := rx_off s + 1\<rparr>" "q n" ?b] by (auto simp: rx_step_def elim: lines_same)
  then show ?case using 2 by (simp add: Let_def)
qed simp

lemma lines_task: "lines_ok s \<Longrightarrow> lines_ok (serial_bridge_task a s)"
  using lines_tcp_loop [OF lines_cdc_loop [OF lines_uart_loop], of s]
  by (auto simp: serial_bridge_task_def Let_def lines_lemit split: prod.split) (metis snd_conv)+

lemma released_release: "released (release_lines s)"
  by (simp add: released_def release_lines_def pin_step_def)

lemma lines_step:
  assumes "lines_ok s" "client s = None \<longrightarrow> \<not> telnet_mode s"
  shows "lines_ok (bridge_step a s)"
proof (cases a)
  case (B_accept m r p ok i)
  have "lines_ok (s\<lparr>client := Some pcb, telnet_mode := r, comport_active := False, tn_state := T_DATA\<rparr>)" if "client s = None" for pcb
    using assms that by (auto simp: lines_ok_def released_def)
  then show ?thesis using assms(1) by (auto simp: B_accept bridge_step_def bridge_accept_def lines_lemit split: option.split)
next
  case (B_recv c p ch)
  have r: "lines_ok ((release_lines u)\<lparr>telnet_mode := False, comport_active := False, tn_state := T_DATA\<rparr>)"
    "lines_ok ((release_lines u)\<lparr>telnet_mode := False, comport_active := False, tn_state := T_DATA, client := None\<rparr>)" for u
    using released_release [of u] by (simp_all add: lines_ok_def released_def)
  have "lines_ok (tcp_drop_client c d s)" for d
    unfolding tcp_drop_client_def Let_def using r by (auto simp: lines_lemit split: option.split)
  moreover have "lines_ok (s\<lparr>rx := x\<rparr>)" "lines_ok (s\<lparr>rx := x, rx_off := 0\<rparr>)" for x by (rule lines_same [OF assms(1)]; simp)+
  ultimately show ?thesis using assms(1) by (simp add: B_recv bridge_step_def bridge_recv_def lines_lemit split: option.split)
next
  case B_err
  show ?thesis using released_release by (simp add: B_err bridge_step_def bridge_err_def Let_def lines_ok_def released_def)
next
  case (B_coding r d p st)
  have "lines_ok (lemit (L_baud r) s)" using assms(1) by (simp add: lines_lemit)
  then have "lines_ok ((lemit (L_baud r) s)\<lparr>cur_baud := w, cur_parity := x, cur_databits := y, cur_stop := z\<rparr>)" for w x y z
    by (rule lines_same) simp_all
  then show ?thesis
    using assms(1) by (simp add: B_coding bridge_step_def serial_bridge_apply_coding_def apply_format_def lines_lemit)
next
  case (B_task q)
  then show ?thesis using lines_task [OF assms(1)] by (simp add: bridge_step_def)
qed

lemma lines_run: "bridge_ok s \<Longrightarrow> lines_ok s \<Longrightarrow> list_all chain_ok acts \<Longrightarrow> lines_ok (bridge_run acts s)"
  unfolding bridge_run_def
proof (induction acts arbitrary: s)
  case (Cons a acts)
  have "bridge_ok (bridge_step a s)" using sound_step [of a s] Cons.prems by (simp add: sound_def)
  moreover have "lines_ok (bridge_step a s)" using Cons.prems by (intro lines_step) (auto simp: bridge_ok_def)
  ultimately show ?case using Cons by simp
qed simp

lemma init_ok:
  "bridge_ok (serial_bridge_init a b bridge_reset)" "lines_ok (serial_bridge_init a b bridge_reset)"
  "list_all setting_ok (levents (serial_bridge_init a b bridge_reset))"
proof -
  have l: "bridge_ok (bridge_listen g x y n r s) = bridge_ok s" "lines_ok (bridge_listen g x y n r s) = lines_ok s"
    "list_all setting_ok (levents (bridge_listen g x y n r s)) = list_all setting_ok (levents s)" for g x y n r s
    by (simp_all add: bridge_listen_def lines_lemit setting_ok_def)
  obtain a1 a2 a3 b1 b2 b3 where ab: "a = (a1, a2, a3)" "b = (b1, b2, b3)" by (cases a, cases b)
  show "bridge_ok (serial_bridge_init a b bridge_reset)" "lines_ok (serial_bridge_init a b bridge_reset)"
    "list_all setting_ok (levents (serial_bridge_init a b bridge_reset))"
    unfolding serial_bridge_init_def Let_def ab prod.case l
    by (simp_all add: release_lines_def lines_ok_def released_def setting_ok_def bridge_reset_ok)
      (simp_all add: bridge_reset_def pin_high_def pin_step_def)
qed

text \<open>Property C28. From start-up, whatever connections, errors, chains (without empty buffers), line codings and pump calls come, in any order: the line's
  rate stays in 300 to 1500000, its format valid, and so was every rate and format set on the UART; the subnegotiation
  buffer is never overrun; and the two reset lines are high, that is released, whenever no client is
  connected, and while one on the raw port is.\<close>

theorem bridge_settings_valid:
  fixes a b :: "bool \<times> bool \<times> bool"
  assumes "list_all chain_ok acts"
  defines "s \<equiv> bridge_run acts (serial_bridge_init a b bridge_reset)"
  shows "300 \<le> cur_baud s \<and> cur_baud s \<le> 1500000 \<and> 5 \<le> cur_databits s \<and> cur_databits s \<le> 8 \<and>
    (cur_stop s = 1 \<or> cur_stop s = 2) \<and> sb_len s \<le> length (sb_buf s) \<and> list_all setting_ok (levents s) \<and>
    (client s = None \<or> \<not> telnet_mode s \<longrightarrow> pin_high BRIDGE_DTR_PIN (levents s) \<and> pin_high BRIDGE_RTS_PIN (levents s))"
proof -
  note i = init_ok [of a b]
  have "bridge_ok s" "list_all setting_ok (levents s)"
    using sound_run [OF assms(1), of "serial_bridge_init a b bridge_reset"] i by (auto simp: sound_def s_def)
  moreover have "lines_ok s" unfolding s_def by (rule lines_run [OF i(1,2) assms(1)])
  ultimately show ?thesis by (auto simp: bridge_ok_def lines_ok_def released_def)
qed

text \<open>A client asserts DTR, then goes.\<close>

definition reset_session :: "wg_mod \<Rightarrow> bridge_action list" where
  "reset_session m = [B_accept m True (Some 7) True N_usb,
     B_recv True 7 (Some [[TN_IAC, TN_SB, TNOPT_COMPORT, 5, 8], [TN_IAC, TN_SE]]), B_task sample_pump]"

lemma bridge_settings_valid_witness:
  "\<forall>m. let start = serial_bridge_init (True, True, True) (True, True, True) bridge_reset in
     \<not> pin_high BRIDGE_DTR_PIN (levents (bridge_run (reset_session m) start)) \<and>
     pin_high BRIDGE_DTR_PIN (levents (bridge_run (reset_session m @ [B_recv True 7 None]) start))"
proof
  fix m
  let ?start = "serial_bridge_init (True, True, True) (True, True, True) bridge_reset"
  have "\<not> pin_high BRIDGE_DTR_PIN (levents (bridge_run (reset_session m) ?start))" by code_simp
  moreover have "client (bridge_run (reset_session m @ [B_recv True 7 None]) ?start) = None" by code_simp
  moreover have "list_all chain_ok (reset_session m @ [B_recv True 7 None])" by (simp add: reset_session_def chain_ok_def)
  ultimately show "let start = ?start in
      \<not> pin_high BRIDGE_DTR_PIN (levents (bridge_run (reset_session m) start)) \<and>
      pin_high BRIDGE_DTR_PIN (levents (bridge_run (reset_session m @ [B_recv True 7 None]) start))"
    using bridge_settings_valid [of "reset_session m @ [B_recv True 7 None]" "(True, True, True)" "(True, True, True)"]
    by (simp add: Let_def)
qed

text \<open>Property C27. While a client is connected, the line gets the data of what the client sent, in order, without loss
  or repetition, however the bytes are cut into buffers and whatever the pump's sinks answer: of the bytes that came,
  all but those still held, less the telnet protocol in them on the RFC 2217 port.\<close>

theorem party_line_delivers:
  assumes "bridge_ok s" "client s = Some p" "pending s = []" "tn_state s = T_DATA"
    and "list_all chain_ok acts" "list_all (in_session p) acts"
  shows "let s' = bridge_run acts s; k = length (arrived acts) - length (pending s') in
    client s' = Some p \<and> arrived acts = take k (arrived acts) @ pending s' \<and>
    from_client (levents s') = from_client (levents s) @
      (if telnet_mode s then telnet_data T_DATA (take k (arrived acts)) else take k (arrived acts))"
proof -
  obtain k where k: "served k (arrived acts) s (bridge_run acts s)"
    using served_run [OF assms(1,2,5,6)] assms(3) by auto
  then have "length (arrived acts) - length (pending (bridge_run acts s)) = k"
    by (simp add: served_def)
  with k show ?thesis
    using assms(2,4) by (simp add: served_def Let_def line_data_def)
qed

definition connected_bridge :: bridge where
  "connected_bridge = bridge_reset\<lparr>client := Some 7, telnet_mode := True\<rparr>"

lemma party_line_delivers_witness:
  "let s' = bridge_run [B_recv True 7 (Some [[104, 255], [255, 105]]), B_task sample_pump] connected_bridge in
     pending s' = [] \<and> from_client (levents s') = [104, 255, 105]"
proof -
  let ?acts = "[B_recv True 7 (Some [[104, 255], [255, 105]]), B_task sample_pump]"
  have "bridge_ok connected_bridge" using bridge_reset_ok by (simp add: connected_bridge_def bridge_ok_def)
  then have "let s' = bridge_run ?acts connected_bridge; k = length (arrived ?acts) - length (pending s') in
      client s' = Some 7 \<and> arrived ?acts = take k (arrived ?acts) @ pending s' \<and>
      from_client (levents s') = from_client (levents connected_bridge) @
        (if telnet_mode connected_bridge then telnet_data T_DATA (take k (arrived ?acts)) else take k (arrived ?acts))"
    by (rule party_line_delivers) (simp_all add: connected_bridge_def bridge_reset_def pending_def chain_ok_def in_session_def)
  moreover have "pending (bridge_run ?acts connected_bridge) = []" by code_simp
  ultimately show ?thesis by (simp add: Let_def connected_bridge_def bridge_reset_def)
qed

text \<open>A port-control reply is a telnet subnegotiation of at most 24 bytes that a receiver reads back as the option,
  the command plus 100 and the payload, whole when it has up to nine bytes, cut at its end otherwise; except for command
  155.\<close>

theorem comport_reply_reads_back:
  assumes "cmd \<noteq> 155" "tn_state s = T_DATA" "length (sb_buf s) = SB_BUF_SIZE"
  shows "\<exists>k \<le> length pl. \<exists>body. comport_frame cmd pl = body @ [TN_SE] \<and> length body < SB_BUF_SIZE \<and>
    tn_state (tn_feed body s) = T_SB_IAC \<and> sub_data (tn_feed body s) = [TNOPT_COMPORT, cmd + 100] @ take k pl \<and>
    (length pl \<le> 9 \<longrightarrow> k = length pl)"
proof -
  let ?h = "[TN_IAC, TN_SB, TNOPT_COMPORT, cmd + 100]"
  have c: "cmd + 100 \<noteq> TN_IAC"
  proof
    assume "cmd + 100 = TN_IAC"
    then have "cmd = TN_IAC - 100" by (simp add: eq_diff_eq)
    with assms(1) show False by simp
  qed
  have "collecting [] (tn_feed [TN_IAC, TN_SB] s)"
    using assms(2,3) by (simp add: tn_process_def collecting_def sub_data_def)
  then have "collecting [TNOPT_COMPORT] (tn_feed [TN_IAC, TN_SB, TNOPT_COMPORT] s)"
    using collecting_byte [of "[]" "tn_feed [TN_IAC, TN_SB] s" TNOPT_COMPORT] by simp
  then have "collecting [TNOPT_COMPORT, cmd + 100] (tn_feed ?h s)"
    using collecting_byte [of "[TNOPT_COMPORT]" "tn_feed [TN_IAC, TN_SB, TNOPT_COMPORT] s" "cmd + 100"] c by simp
  then obtain k where k: "k \<le> length pl" "collecting ([TNOPT_COMPORT, cmd + 100] @ take k pl) (tn_feed (ack_loop pl ?h) s)"
    "length ?h + 2 * length pl \<le> 22 \<longrightarrow> k = length pl"
    using collecting_loop [of "[TNOPT_COMPORT, cmd + 100]" ?h s pl] by auto
  let ?b = "ack_loop pl ?h @ [TN_IAC]"
  have "tn_feed ?b s = (tn_feed (ack_loop pl ?h) s)\<lparr>tn_state := T_SB_IAC\<rparr>"
    using k(2) by (simp add: tn_process_def collecting_def)
  then have "tn_state (tn_feed ?b s) = T_SB_IAC" "sub_data (tn_feed ?b s) = [TNOPT_COMPORT, cmd + 100] @ take k pl"
    using k(2) by (auto simp: collecting_def sub_data_def)
  moreover have "comport_frame cmd pl = ?b @ [TN_SE]" by (simp add: comport_frame_def)
  moreover have "length ?b < SB_BUF_SIZE" using length_ack_loop [of ?h pl] by simp
  ultimately show ?thesis using k(1,3) by (intro exI [of _ k] conjI exI [of _ ?b]) auto
qed

lemma comport_reply_reads_back_witness:
  "\<exists>body. comport_frame 1 [0, 1, 194, 0] = body @ [TN_SE] \<and> sub_data (tn_feed body bridge_reset) = [44, 101, 0, 1, 194, 0]"
proof -
  have "\<exists>k \<le> length [0, 1, 194, 0 :: u8]. \<exists>body. comport_frame 1 [0, 1, 194, 0] = body @ [TN_SE] \<and> length body < SB_BUF_SIZE \<and>
      tn_state (tn_feed body bridge_reset) = T_SB_IAC \<and>
      sub_data (tn_feed body bridge_reset) = [TNOPT_COMPORT, 1 + 100] @ take k [0, 1, 194, 0] \<and>
      (length [0, 1, 194, 0 :: u8] \<le> 9 \<longrightarrow> k = length [0, 1, 194, 0 :: u8])"
    by (rule comport_reply_reads_back) (simp_all add: bridge_reset_def)
  then show ?thesis by auto
qed

text \<open>The exception: the reply to command 155 has a bare 255 in it, so with an empty payload the frame never ends.\<close>

lemma comport_reply_155:
  "tn_state (tn_feed (comport_frame 155 []) bridge_reset) = T_SB"
  by (simp add: comport_frame_def tn_process_def bridge_reset_def sb_put_def)

end
