(* ===== verification/Usb_Net.thy ===== *)
theory Usb_Net
  imports Checksum Wg
begin

text \<open>
  \<^verbatim>\<open>src/usb_net.c\<close>: the USB network link to the host as an interface of lwIP. Frames to the host wait in
  a ring for the main loop, one frame from the host is staged for it; on the way either direction checksums are filled in and
  the MSS of TCP connections is clamped. The module's statics are the record \<open>usb_net\<close>, a packet buffer is its
  bytes, and calls of TinyUSB, of lwIP and of the capture ring are events. Where C would read past a frame the outcome is
  \<open>None\<close>.
\<close>

section \<open>State\<close>

abbreviation USB_TX_QUEUE_LEN :: nat where "USB_TX_QUEUE_LEN \<equiv> 32"
abbreviation BOUNCE_DELAY_MS :: u32 where "BOUNCE_DELAY_MS \<equiv> 5000"

datatype usb_event =
    U_to_host bytes
  | U_to_lwip bytes
  | U_capture bytes
  | U_renew \<comment> \<open>\<^verbatim>\<open>tud_network_recv_renew\<close>\<close>
  | U_disconnect
  | U_connect
  | U_netif_add u32 u32 bytes \<comment> \<open>address, mask, hardware address\<close>
  | U_set_addr u32 u32
  | U_overread \<comment> \<open>a read past the end of a frame\<close>

record usb_net =
  tud_network_mac_address :: bytes
  received_frame :: "bytes option"
  recv_stalled :: bool
  cnt_from_host :: u32
  cnt_to_host :: u32
  cnt_txdrop :: u32
  cnt_poolfail :: u32
  cnt_ring_max :: nat
  cnt_ring_recent :: nat
  usb_tx_queue :: "bytes list"
  usb_tx_head :: nat
  usb_tx_tail :: nat
  g_mss_clamp :: u16
  bounce_at_ms :: u32
  reconnect_at_ms :: u32
  uevents :: "usb_event list"

definition usb_reset :: usb_net where
  "usb_reset = \<lparr>tud_network_mac_address = replicate 6 0, received_frame = None, recv_stalled = False, cnt_from_host = 0,
     cnt_to_host = 0, cnt_txdrop = 0, cnt_poolfail = 0, cnt_ring_max = 0, cnt_ring_recent = 0,
     usb_tx_queue = replicate USB_TX_QUEUE_LEN [], usb_tx_head = 0, usb_tx_tail = 0, g_mss_clamp = 0, bounce_at_ms = 0,
     reconnect_at_ms = 0, uevents = []\<rparr>"

definition uemit :: "usb_event \<Rightarrow> usb_net \<Rightarrow> usb_net" where
  "uemit v s = s\<lparr>uevents := uevents s @ [v]\<rparr>"

section \<open>Checksums and the MSS clamp\<close>

text \<open>This file's own copy of the two loops.\<close>

fun usb_csum_add :: "u32 \<Rightarrow> bytes \<Rightarrow> nat \<Rightarrow> u32 option" where
  "usb_csum_add s d n =
     (if n > 1 then case d of a # b # d \<Rightarrow> usb_csum_add (s + (push_bit 8 (ucast a) OR ucast b)) d (n - 2) | _ \<Rightarrow> None
      else if n \<noteq> 0 then case d of a # _ \<Rightarrow> Some (s + push_bit 8 (ucast a)) | [] \<Rightarrow> None
      else Some s)"

declare usb_csum_add.simps [simp del]

function usb_csum_finish :: "u32 \<Rightarrow> u16" where
  "usb_csum_finish s =
     (if drop_bit 16 s \<noteq> 0 then usb_csum_finish ((s AND 0xFFFF) + drop_bit 16 s) else ucast (NOT s))"
  by pat_completeness auto
termination by (relation "measure unat") (use fold_step_less(1) in auto)

declare usb_csum_finish.simps [simp del]

definition usb_net_set_mss_clamp :: "u16 \<Rightarrow> usb_net \<Rightarrow> usb_net" where
  "usb_net_set_mss_clamp mss s = s\<lparr>g_mss_clamp := mss\<rparr>"

text \<open>The option loop of \<open>clamp_tcp_mss\<close>: whether it rewrote the MSS, and the segment.\<close>

function mss_loop :: "u16 \<Rightarrow> nat \<Rightarrow> nat \<Rightarrow> bytes \<Rightarrow> (bool \<times> bytes) option" where
  "mss_loop clamp doff off l4 =
     (if \<not> off + 1 < doff then Some (False, l4)
      else if off \<ge> length l4 then None
      else if l4 ! off = 0 then Some (False, l4)
      else if l4 ! off = 1 then mss_loop clamp doff (off + 1) l4
      else if off + 1 \<ge> length l4 then None
      else let olen = unat (l4 ! (off + 1)) in
        if olen < 2 \<or> off + olen > doff then Some (False, l4)
        else if l4 ! off = 2 \<and> olen = 4 then
          (if off + 3 \<ge> length l4 then None
           else if get16 l4 (off + 2) > clamp then Some (True, put16 l4 (off + 2) clamp) else Some (False, l4))
        else mss_loop clamp doff (off + olen) l4)"
  by pat_completeness auto
termination by (relation "measure (\<lambda>(_, doff, off, _). doff - off)") (auto simp: Let_def)

declare mss_loop.simps [simp del]

definition clamp_tcp_mss :: "u16 \<Rightarrow> bytes \<Rightarrow> nat \<Rightarrow> (bool \<times> bytes) option" where
  "clamp_tcp_mss clamp l4 l4len =
     (if clamp = 0 \<or> l4len < 20 then Some (False, l4)
      else if length l4 < 14 then None
      else if l4 ! 13 AND 0x02 = 0 then Some (False, l4)
      else let doff = unat (drop_bit 4 (l4 ! 12)) * 4 in
        if doff < 24 \<or> doff > l4len then Some (False, l4) else mss_loop clamp doff 20 l4)"

definition fix_host_l4 :: "u16 \<Rightarrow> u16 \<Rightarrow> bytes \<Rightarrow> nat \<Rightarrow> nat \<Rightarrow> bytes option" where
  "fix_host_l4 mtu clamp ip ihl l4len =
     (let proto = ip ! 9; l4 = drop ihl ip in
      if proto = 1 \<and> l4len \<ge> 8 then
        (case zero16 l4 2 of None \<Rightarrow> None | Some False \<Rightarrow> Some ip
         | Some True \<Rightarrow>
             if l4 ! 0 = 3 \<and> l4 ! 1 = 4 then
               (case zero16 l4 6 of None \<Rightarrow> None
                | Some z \<Rightarrow> fill_l4 usb_csum_add usb_csum_finish (if z then put16 ip (ihl + 6) mtu else ip) ihl l4len 0 2 False)
             else fill_l4 usb_csum_add usb_csum_finish ip ihl l4len 0 2 False)
      else if proto = 6 \<and> l4len \<ge> 20 then
        (case clamp_tcp_mss clamp l4 l4len of None \<Rightarrow> None
         | Some (changed, l4) \<Rightarrow>
             let ip = take ihl ip @ l4; ip = (if changed then put16 ip (ihl + 16) 0 else ip) in
             case usb_csum_add 0 (drop 12 ip) 8 of None \<Rightarrow> None
             | Some s \<Rightarrow> fill_l4 usb_csum_add usb_csum_finish ip ihl l4len (s + (ucast proto + of_nat l4len)) 16 False)
      else if proto = 17 \<and> l4len \<ge> 8 then
        (case usb_csum_add 0 (drop 12 ip) 8 of None \<Rightarrow> None
         | Some s \<Rightarrow> fill_l4 usb_csum_add usb_csum_finish ip ihl l4len (s + (ucast proto + of_nat l4len)) 6 True)
      else Some ip)"

text \<open>\<open>mtu\<close> is what \<^verbatim>\<open>wg_path_mtu\<close> says.\<close>

definition fix_host_checksums :: "u16 \<Rightarrow> u16 \<Rightarrow> bytes \<Rightarrow> bytes option" where
  "fix_host_checksums mtu clamp f =
     (let flen = length f in
      if flen < 34 \<or> f ! 12 \<noteq> 0x08 \<or> f ! 13 \<noteq> 0x00 then Some f
      else let ip = drop 14 f; ihl = unat (ip ! 0 AND 0x0F) * 4; tot = get16 ip 2 in
        if drop_bit 4 (ip ! 0) \<noteq> 4 \<or> ihl < 20 \<or> unat tot < ihl \<or> unat (14 + tot) > flen then Some f
        else map_option (\<lambda>ip. take 14 f @ ip)
          (case (if ip ! 10 = 0 \<and> ip ! 11 = 0
                 then map_option (\<lambda>s. put16 ip 10 (usb_csum_finish s)) (usb_csum_add 0 ip ihl) else Some ip) of
             None \<Rightarrow> None
           | Some ip \<Rightarrow>
               if ip ! 6 AND 0x3F \<noteq> 0 \<or> ip ! 7 \<noteq> 0 then Some ip
               else fix_host_l4 mtu clamp ip ihl (unat tot - ihl)))"

section \<open>The ring to the host\<close>

definition ring_depth :: "usb_net \<Rightarrow> nat" where
  "ring_depth s = (usb_tx_head s + USB_TX_QUEUE_LEN - usb_tx_tail s) mod USB_TX_QUEUE_LEN"

definition usb_tx_push :: "bytes \<Rightarrow> usb_net \<Rightarrow> bool \<times> usb_net" where
  "usb_tx_push q s =
     (let nxt = (usb_tx_head s + 1) mod USB_TX_QUEUE_LEN
      in if nxt \<noteq> usb_tx_tail s
         then let s = s\<lparr>usb_tx_queue := (usb_tx_queue s)[usb_tx_head s := q], usb_tx_head := nxt\<rparr>;
                  depth = ring_depth s
              in (True, s\<lparr>cnt_ring_max := max (cnt_ring_max s) depth, cnt_ring_recent := max (cnt_ring_recent s) depth\<rparr>)
         else (False, s))"

text \<open>What the host is sent for a queued frame: the copy, its checksums filled in, recorded.\<close>

definition tud_network_xmit_cb :: "u16 \<Rightarrow> bytes \<Rightarrow> usb_net \<Rightarrow> bytes option \<times> usb_net" where
  "tud_network_xmit_cb mtu p s =
     (case fix_host_checksums mtu (g_mss_clamp s) p of
        None \<Rightarrow> (None, uemit U_overread s)
      | Some dst \<Rightarrow> (Some dst, uemit (U_capture dst) s))"

text \<open>The loop of \<open>usb_tx_drain\<close>, \<open>n\<close> bounding its turns and picking the answer of TinyUSB, whether it is ready and
  can take the frame, for the turn. TinyUSB calls back for the bytes from inside \<^verbatim>\<open>tud_network_xmit\<close>.\<close>

fun drain_loop :: "u16 \<Rightarrow> (nat \<Rightarrow> bool) \<Rightarrow> nat \<Rightarrow> usb_net \<Rightarrow> usb_net" where
  "drain_loop mtu can 0 s = s"
| "drain_loop mtu can (Suc n) s =
     (if usb_tx_tail s = usb_tx_head s \<or> \<not> can n then s
      else let (dst, s) = tud_network_xmit_cb mtu (usb_tx_queue s ! usb_tx_tail s) s;
               s = (case dst of None \<Rightarrow> s | Some dst \<Rightarrow> uemit (U_to_host dst) s)
           in drain_loop mtu can n
                (s\<lparr>cnt_to_host := cnt_to_host s + 1, usb_tx_tail := (usb_tx_tail s + 1) mod USB_TX_QUEUE_LEN\<rparr>))"

definition usb_tx_drain :: "u16 \<Rightarrow> (nat \<Rightarrow> bool) \<Rightarrow> usb_net \<Rightarrow> usb_net" where
  "usb_tx_drain mtu can s = drain_loop mtu can USB_TX_QUEUE_LEN s"

datatype err_t = ERR_OK | ERR_IF | ERR_MEM

definition usb_linkoutput :: "bool \<Rightarrow> bytes \<Rightarrow> usb_net \<Rightarrow> err_t \<times> usb_net" where
  "usb_linkoutput tud_ready p s =
     (if \<not> tud_ready then (ERR_IF, s\<lparr>cnt_txdrop := cnt_txdrop s + 1\<rparr>)
      else case usb_tx_push p s of
             (False, s) \<Rightarrow> (ERR_MEM, s\<lparr>cnt_txdrop := cnt_txdrop s + 1\<rparr>)
           | (True, s) \<Rightarrow> (ERR_OK, s))"

section \<open>TinyUSB callbacks\<close>

definition tud_network_init_cb :: "usb_net \<Rightarrow> usb_net" where
  "tud_network_init_cb s = (if received_frame s \<noteq> None then s\<lparr>received_frame := None\<rparr> else s)"

text \<open>\<open>got\<close> is whether the pool has a buffer; the result is whether TinyUSB may forget the datagram.\<close>

definition tud_network_recv_cb :: "bool \<Rightarrow> bytes \<Rightarrow> usb_net \<Rightarrow> bool \<times> usb_net" where
  "tud_network_recv_cb got src s =
     (if received_frame s \<noteq> None then (False, s)
      else (True, if src \<noteq> [] then
                    (if got then s\<lparr>received_frame := Some src\<rparr>
                     else s\<lparr>recv_stalled := True, cnt_poolfail := cnt_poolfail s + 1\<rparr>)
                  else s))"

section \<open>Set-up and the main loop's call\<close>

definition derive_macs :: "bytes \<Rightarrow> usb_net \<Rightarrow> usb_net" where
  "derive_macs board s =
     (let b = (\<lambda>i. board ! i XOR board ! ((i + 5) mod 8))
      in s\<lparr>tud_network_mac_address := [0x00, 0x1A, 0x11, b 0, b 1, b 2 AND 0xFE]\<rparr>)"

definition usb_netif_hwaddr :: "bytes \<Rightarrow> bytes" where
  "usb_netif_hwaddr mac = mac[5 := mac ! 5 XOR 0x01]"

definition netmask_from_prefix :: "u8 \<Rightarrow> u32" where
  "netmask_from_prefix prefix = (if prefix \<noteq> 0 then bswap32 (push_bit (32 - unat prefix) 0xFFFFFFFF) else 0)"

definition usb_net_init :: "bytes \<Rightarrow> bool \<Rightarrow> u32 \<Rightarrow> u8 \<Rightarrow> usb_net \<Rightarrow> bool \<times> usb_net" where
  "usb_net_init board tud_init addr_be prefix s =
     (let s = derive_macs board s
      in if \<not> tud_init then (False, s)
         else (True, uemit (U_netif_add addr_be (netmask_from_prefix (if addr_be \<noteq> 0 then prefix else 0))
                (usb_netif_hwaddr (tud_network_mac_address s))) s))"

definition usb_net_set_addr :: "u32 \<Rightarrow> u8 \<Rightarrow> usb_net \<Rightarrow> usb_net" where
  "usb_net_set_addr addr_be prefix s =
     uemit (U_set_addr addr_be (netmask_from_prefix (if addr_be \<noteq> 0 then prefix else 0))) s"

definition usb_net_schedule_bounce :: "u32 \<Rightarrow> usb_net \<Rightarrow> usb_net" where
  "usb_net_schedule_bounce now s = s\<lparr>bounce_at_ms := now + BOUNCE_DELAY_MS\<rparr>"

definition usb_net_bounce_pending :: "usb_net \<Rightarrow> bool" where
  "usb_net_bounce_pending s \<longleftrightarrow> bounce_at_ms s \<noteq> 0"

definition bounce_step :: "u32 \<Rightarrow> usb_net \<Rightarrow> usb_net" where
  "bounce_step now s =
     (let s = (if bounce_at_ms s \<noteq> 0 \<and> now \<ge> bounce_at_ms s
               then (uemit U_disconnect (s\<lparr>bounce_at_ms := 0\<rparr>))\<lparr>reconnect_at_ms := now + 300\<rparr> else s)
      in if reconnect_at_ms s \<noteq> 0 \<and> now \<ge> reconnect_at_ms s
         then uemit U_connect (s\<lparr>reconnect_at_ms := 0\<rparr>) else s)"

text \<open>The staged frame is one buffer: \<^verbatim>\<open>tud_network_recv_cb\<close> copies the whole datagram into the first one, and lwIP's pool buffers take
  an Ethernet frame. The test for a chain (\<^verbatim>\<open>p->next\<close>) is therefore always true and has no branch here.\<close>

definition take_frame :: "u16 \<Rightarrow> usb_net \<Rightarrow> usb_net" where
  "take_frame mtu s =
     (case received_frame s of
        None \<Rightarrow> s
      | Some p \<Rightarrow>
          let s = s\<lparr>received_frame := None, cnt_from_host := cnt_from_host s + 1\<rparr>
          in case fix_host_checksums mtu (g_mss_clamp s) p of
               None \<Rightarrow> uemit U_overread s
             | Some p \<Rightarrow> uemit (U_to_lwip p) (uemit (U_capture p) s))"

text \<open>\<open>task\<close> is what the callbacks do while \<^verbatim>\<open>tud_task\<close> runs.\<close>

definition usb_net_update :: "u32 \<Rightarrow> u16 \<Rightarrow> (usb_net \<Rightarrow> usb_net) \<Rightarrow> (nat \<Rightarrow> bool) \<Rightarrow> usb_net \<Rightarrow> usb_net" where
  "usb_net_update now mtu task can s =
     (let s = usb_tx_drain mtu can (task (bounce_step now s));
          renew = (received_frame s \<noteq> None \<or> recv_stalled s);
          s = (take_frame mtu s)\<lparr>recv_stalled := False\<rparr>
      in if renew then uemit U_renew s else s)"

definition usb_net_get_stats :: "usb_net \<Rightarrow> u32 \<times> u32 \<times> u32 \<times> u32 \<times> nat" where
  "usb_net_get_stats s = (cnt_from_host s, cnt_to_host s, cnt_txdrop s, cnt_poolfail s, cnt_ring_max s)"

definition usb_net_ring_recent_reset :: "usb_net \<Rightarrow> nat \<times> usb_net" where
  "usb_net_ring_recent_reset s = (cnt_ring_recent s, s\<lparr>cnt_ring_recent := 0\<rparr>)"

section \<open>The third copy of the loops\<close>

lemma usb_csum_add_eq: "usb_csum_add s d n = csum_add s d n"
  by (induction s d n rule: csum_add.induct)
    (auto simp: usb_csum_add.simps split: list.split)

lemma usb_csum_finish_eq: "usb_csum_finish s = csum_finish s"
proof (induction s rule: usb_csum_finish.induct)
  case (1 s)
  then show ?case by (subst usb_csum_finish.simps, subst csum_finish.simps) simp
qed

interpretation usb: internet_checksum usb_csum_add usb_csum_finish
  by unfold_locales (simp_all add: usb_csum_add_eq usb_csum_finish_eq csum_add_in csum_add_out csum_finish_dvd)

section \<open>The MSS option\<close>

text \<open>RFC 9293's option list: the value of the first MSS option.\<close>

fun tcp_mss :: "bytes \<Rightarrow> u16 option" where
  "tcp_mss (k # n # os) =
     (if k = 0 then None
      else if k = 1 then tcp_mss (n # os)
      else if unat n < 2 \<or> unat n > length os + 2 then None
      else if k = 2 \<and> unat n = 4 then Some (be16 (os ! 0) (os ! 1))
      else tcp_mss (drop (unat n - 2) os))"
| "tcp_mss os = None"

definition tcp_opts :: "bytes \<Rightarrow> nat \<Rightarrow> nat \<Rightarrow> bytes" where
  "tcp_opts l4 off doff = seg l4 off (doff - off)"

lemma tcp_opts_step:
  assumes "off + 1 < doff" "doff \<le> length l4"
  shows "tcp_opts l4 off doff = l4 ! off # l4 ! (off + 1) # tcp_opts l4 (off + 2) doff"
    and "tcp_opts l4 (off + 1) doff = l4 ! (off + 1) # tcp_opts l4 (off + 2) doff"
    and "length (tcp_opts l4 (off + 2) doff) = doff - off - 2"
proof -
  obtain k where k: "doff = off + 2 + k" using assms(1) by (metis add.commute less_iff_Suc_add add_Suc_right add_2_eq_Suc' Suc_eq_plus1 add.assoc)
  show "tcp_opts l4 off doff = l4 ! off # l4 ! (off + 1) # tcp_opts l4 (off + 2) doff"
    "tcp_opts l4 (off + 1) doff = l4 ! (off + 1) # tcp_opts l4 (off + 2) doff"
    "length (tcp_opts l4 (off + 2) doff) = doff - off - 2"
    using assms(2) by (simp_all add: tcp_opts_def seg_def k Cons_nth_drop_Suc [symmetric])
qed

lemma tcp_opts_drop: "tcp_opts l4 (off + n) doff = drop n (tcp_opts l4 off doff)"
  by (simp add: tcp_opts_def seg_def drop_take add.commute)

lemma tcp_mss_short: "length os \<le> 1 \<Longrightarrow> tcp_mss os = None"
  by (cases os rule: tcp_mss.cases) simp_all

declare tcp_mss.simps [simp del]

lemma mss_loop_spec:
  assumes "doff \<le> length l4"
  shows "\<exists>b l4'. mss_loop c doff off l4 = Some (b, l4') \<and> length l4' = length l4 \<and>
    tcp_mss (tcp_opts l4' off doff) = map_option (min c) (tcp_mss (tcp_opts l4 off doff)) \<and>
    (\<forall>i. i < off + 2 \<longrightarrow> l4' ! i = l4 ! i) \<and> (\<not> b \<longrightarrow> l4' = l4)"
  using assms
proof (induction c doff off l4 rule: mss_loop.induct)
  case (1 c doff off l4)
  let ?k = "l4 ! off" let ?n = "l4 ! (off + 1)"
  show ?case
  proof (cases "off + 1 < doff")
    case False
    then have "length (tcp_opts l off doff) \<le> 1" for l by (simp add: tcp_opts_def seg_def)
    then have "tcp_mss (tcp_opts l off doff) = None" for l by (rule tcp_mss_short)
    then show ?thesis using False by (subst mss_loop.simps) auto
  next
    case True
    note st = tcp_opts_step [OF True]
    have len: "off < length l4" "off + 1 < length l4" using True 1(3) by simp_all
    consider (stop) "?k = 0" | (nop) "?k = 1" | (bad) "?k \<noteq> 0" "?k \<noteq> 1" "unat ?n < 2 \<or> off + unat ?n > doff"
      | (mss) "?k = 2" "unat ?n = 4" "off + 4 \<le> doff"
      | (other) "?k \<noteq> 0" "?k \<noteq> 1" "\<not> (unat ?n < 2 \<or> off + unat ?n > doff)" "\<not> (?k = 2 \<and> unat ?n = 4)"
      by fastforce
    then show ?thesis
    proof cases
      case stop
      then have "tcp_mss (tcp_opts l4 off doff) = None" using 1(3) by (simp add: st(1) tcp_mss.simps)
      then show ?thesis using stop True len by (subst mss_loop.simps) auto
    next
      case nop
      then obtain b l4' where i: "mss_loop c doff (off + 1) l4 = Some (b, l4')" "length l4' = length l4"
        "tcp_mss (tcp_opts l4' (off + 1) doff) = map_option (min c) (tcp_mss (tcp_opts l4 (off + 1) doff))"
        "\<forall>i. i < off + 3 \<longrightarrow> l4' ! i = l4 ! i" "\<not> b \<longrightarrow> l4' = l4"
        using 1(1) [OF _ _ _ nop] True len 1(3) by (auto simp: numeral_3_eq_3)
      have "tcp_mss (tcp_opts l off doff) = tcp_mss (tcp_opts l (off + 1) doff)" if "l ! off = 1" "length l = length l4" for l
        using st that 1(3) by (simp add: tcp_mss.simps(1))
      then have "tcp_mss (tcp_opts l4' off doff) = map_option (min c) (tcp_mss (tcp_opts l4 off doff))"
        using i(2-4) nop by simp
      then show ?thesis using i nop True len by (subst mss_loop.simps) simp
    next
      case bad
      then have "unat ?n < 2 \<or> unat ?n > length (tcp_opts l4 (off + 2) doff) + 2" unfolding st(3) [OF 1(3)] using True by linarith
      then have "tcp_mss (tcp_opts l4 off doff) = None"
        unfolding st(1) [OF 1(3)] using bad(1,2) by (simp only: tcp_mss.simps if_False if_True simp_thms)
      then show ?thesis using bad True len by (subst mss_loop.simps) (auto simp: Let_def)
    next
      case mss
      have v: "tcp_mss (tcp_opts l off doff) = Some (get16 l (off + 2))" if "l ! off = 2" "unat (l ! (off + 1)) = 4" "length l = length l4" for l
      proof -
        have "doff \<le> length l" using that(3) 1(3) by simp
        then have "tcp_opts l (off + 2) doff = l ! (off + 2) # l ! (off + 3) # tcp_opts l (off + 4) doff"
          using tcp_opts_step(1) [of "off + 2" doff l] mss(3) by (simp add: numeral_eq_Suc)
        then show ?thesis
          using tcp_opts_step(1,3) [OF True \<open>doff \<le> length l\<close>] that(1,2) mss(3) by (simp add: tcp_mss.simps get16_def numeral_eq_Suc)
      qed
      have m: "mss_loop c doff off l4 = (if get16 l4 (off + 2) > c then Some (True, put16 l4 (off + 2) c) else Some (False, l4))"
        using mss True len 1(3) by (subst mss_loop.simps) (simp add: Let_def)
      show ?thesis
      proof (cases "get16 l4 (off + 2) > c")
        case g: True
        let ?l = "put16 l4 (off + 2) c"
        have "?l ! off = 2" "unat (?l ! (off + 1)) = 4" "length ?l = length l4" "get16 ?l (off + 2) = c"
          using mss 1(3) by (simp_all add: nth_put16)
        then show ?thesis using m g less_imp_le [OF g] v [of ?l] v [of l4] mss
          by (intro exI [of _ True] exI [of _ ?l]) (simp add: nth_put16 min_def)
      next
        case False
        then show ?thesis using m v [of l4] mss
          by (intro exI [of _ False] exI [of _ l4]) (cases "c = get16 l4 (off + 2)"; simp add: min_def not_less)
      qed
    next
      case other
      then obtain b l4' where i: "mss_loop c doff (off + unat ?n) l4 = Some (b, l4')" "length l4' = length l4"
        "tcp_mss (tcp_opts l4' (off + unat ?n) doff) = map_option (min c) (tcp_mss (tcp_opts l4 (off + unat ?n) doff))"
        "\<forall>i. i < off + unat ?n + 2 \<longrightarrow> l4' ! i = l4 ! i" "\<not> b \<longrightarrow> l4' = l4"
        using 1(2) [OF _ _ other(1,2) _ refl] True len 1(3) by auto
      have "tcp_mss (tcp_opts l off doff) = tcp_mss (tcp_opts l (off + unat ?n) doff)"
        if "l ! off = ?k" "l ! (off + 1) = ?n" "length l = length l4" for l
      proof -
        have "drop (unat ?n - 2) (tcp_opts l (off + 2) doff) = tcp_opts l (off + unat ?n) doff"
        proof -
          have "off + 2 + (unat ?n - 2) = off + unat ?n" using other(3) by linarith
          then show ?thesis using tcp_opts_drop [of l "off + 2" "unat ?n - 2" doff] by (simp only:)
        qed
        moreover have l: "doff \<le> length l" using that(3) 1(3) by simp
        moreover have "\<not> (unat ?n < 2 \<or> unat ?n > length (tcp_opts l (off + 2) doff) + 2)"
          unfolding tcp_opts_step(3) [OF True l] using other(3) True by linarith
        ultimately show ?thesis
          unfolding tcp_opts_step(1) [OF True l] that(1,2) using other(1,2,4) by (simp only: tcp_mss.simps if_False simp_thms)
      qed
      then have "tcp_mss (tcp_opts l4' off doff) = map_option (min c) (tcp_mss (tcp_opts l4 off doff))"
        using i(2-4) by simp
      moreover have "mss_loop c doff off l4 = mss_loop c doff (off + unat ?n) l4"
        using other True len by (subst mss_loop.simps) (auto simp: Let_def)
      ultimately show ?thesis using i by (intro exI [of _ b] exI [of _ l4']) simp
    qed
  qed
qed

section \<open>What is sent and received\<close>

text \<open>The packet the checksums are computed for: with the path MTU in a fragmentation-needed message of the device's
  own, and in a TCP SYN the MSS clamped and then the checksum cleared.\<close>

definition host_prepared :: "u16 \<Rightarrow> u16 \<Rightarrow> bytes \<Rightarrow> nat \<Rightarrow> nat \<Rightarrow> bytes" where
  "host_prepared mtu clamp ip ihl l4len =
     (if is_fragment ip then ip
      else if ip ! 9 = 1 \<and> l4len \<ge> 8 \<and> get16 ip (ihl + 2) = 0 \<and> ip ! ihl = 3 \<and> ip ! (ihl + 1) = 4 \<and> get16 ip (ihl + 6) = 0
      then put16 ip (ihl + 6) mtu
      else if ip ! 9 = 6 \<and> l4len \<ge> 20
      then (case clamp_tcp_mss clamp (drop ihl ip) l4len of
              Some (True, l4) \<Rightarrow> put16 (take ihl ip @ l4) (ihl + 16) 0
            | _ \<Rightarrow> ip)
      else ip)"

lemma clamp_tcp_mss_spec:
  assumes "l4len \<le> length l4"
  obtains b l4' where "clamp_tcp_mss c l4 l4len = Some (b, l4')" "length l4' = length l4"
    "\<forall>i. i < 22 \<longrightarrow> l4' ! i = l4 ! i" "\<not> b \<longrightarrow> l4' = l4"
proof -
  let ?d = "unat (drop_bit 4 (l4 ! 12)) * 4"
  show thesis
  proof (cases "c = 0 \<or> l4len < 20 \<or> l4 ! 13 AND 0x02 = 0 \<or> ?d < 24 \<or> ?d > l4len")
    case True
    then have "clamp_tcp_mss c l4 l4len = Some (False, l4)" using assms by (auto simp: clamp_tcp_mss_def Let_def)
    then show ?thesis using that by blast
  next
    case False
    then have "clamp_tcp_mss c l4 l4len = mss_loop c ?d 20 l4" using assms by (auto simp: clamp_tcp_mss_def Let_def)
    then show ?thesis using mss_loop_spec [of ?d l4 c 20] False assms that by auto
  qed
qed

text \<open>The transport part of \<open>fix_body\<close>.\<close>

definition fix_l4 :: "bytes \<Rightarrow> nat \<Rightarrow> nat \<Rightarrow> bytes option" where
  "fix_l4 ip ihl l4len =
     (if ip ! 9 = 1 \<and> l4len \<ge> 8 then fill_l4 usb_csum_add usb_csum_finish ip ihl l4len 0 2 False
      else if ip ! 9 = 6 \<and> l4len \<ge> 20 then
        (case usb_csum_add 0 (drop 12 ip) 8 of None \<Rightarrow> None
         | Some s \<Rightarrow> fill_l4 usb_csum_add usb_csum_finish ip ihl l4len (s + (ucast (ip ! 9) + of_nat l4len)) 16 False)
      else if ip ! 9 = 17 \<and> l4len \<ge> 8 then
        (case usb_csum_add 0 (drop 12 ip) 8 of None \<Rightarrow> None
         | Some s \<Rightarrow> fill_l4 usb_csum_add usb_csum_finish ip ihl l4len (s + (ucast (ip ! 9) + of_nat l4len)) 6 True)
      else Some ip)"

lemma zero16_drop: "k + 1 < length (drop n b) \<Longrightarrow> zero16 (drop n b) k = Some (get16 b (n + k) = 0)"
  by (simp add: zero16_def get16_def add.assoc)

lemma fix_host_l4_prepared:
  assumes "20 \<le> ihl" "ihl + l4len \<le> length ip" "\<not> is_fragment ip"
  shows "fix_host_l4 mtu clamp ip ihl l4len = fix_l4 (host_prepared mtu clamp ip ihl l4len) ihl l4len"
proof -
  let ?l4 = "drop ihl ip"
  consider (icmp) "ip ! 9 = 1" "8 \<le> l4len" | (tcp) "ip ! 9 = 6" "20 \<le> l4len"
    | (other) "\<not> (ip ! 9 = 1 \<and> 8 \<le> l4len)" "\<not> (ip ! 9 = 6 \<and> 20 \<le> l4len)" by blast
  then show ?thesis
  proof cases
    case icmp
    have l: "8 \<le> length ?l4" using icmp(2) assms(2) by simp
    have z: "zero16 ?l4 2 = Some (get16 ip (ihl + 2) = 0)" "zero16 ?l4 6 = Some (get16 ip (ihl + 6) = 0)"
      using l by (intro zero16_drop; simp)+
    have n: "?l4 ! 0 = ip ! ihl" "?l4 ! 1 = ip ! (ihl + 1)" using l by simp_all
    show ?thesis
    proof (cases "get16 ip (ihl + 2) = 0")
      case False
      then have "fill_l4 usb_csum_add usb_csum_finish ip ihl l4len 0 2 False = Some ip" by (simp add: fill_l4_def z)
      then show ?thesis using icmp False assms(3) by (simp add: fix_host_l4_def z fix_l4_def host_prepared_def Let_def)
    next
      case True
      then have "put16 ip (ihl + 6) mtu ! 9 = 1" using icmp assms(1) by (simp add: nth_put16)
      then show ?thesis
        using icmp True assms(3) by (simp add: fix_host_l4_def z n [unfolded One_nat_def] fix_l4_def host_prepared_def Let_def)
    qed
  next
    case tcp
    have "l4len \<le> length ?l4" using assms(2) by simp
    from clamp_tcp_mss_spec [OF this, of clamp]
    obtain b l4' where c: "clamp_tcp_mss clamp ?l4 l4len = Some (b, l4')" "length l4' = length ?l4" "\<not> b \<longrightarrow> l4' = ?l4"
      by blast
    have p: "put16 (take ihl ip @ l4') (ihl + 16) 0 ! 9 = 6"
      using tcp assms by (simp add: nth_put16 nth_append)
    show ?thesis
    proof (cases b)
      case True
      then show ?thesis
        using tcp p assms(3) by (simp add: fix_host_l4_def c(1) fix_l4_def host_prepared_def Let_def split: option.split)
    next
      case False
      then have "take ihl ip @ l4' = ip" using c(3) by simp
      then show ?thesis
        using tcp False assms(3)
        by (simp add: fix_host_l4_def c(1) fix_l4_def host_prepared_def Let_def split: option.split del: drop_append)
    qed
  next
    case other
    then show ?thesis using assms(3) by (auto simp: fix_host_l4_def fix_l4_def host_prepared_def Let_def)
  qed
qed

lemma fix_body_l4:
  "fix_body usb_csum_add usb_csum_finish ip ihl tot =
     (case (if ip ! 10 = 0 \<and> ip ! 11 = 0
            then map_option (\<lambda>s. put16 ip 10 (usb_csum_finish s)) (usb_csum_add 0 ip ihl) else Some ip) of
        None \<Rightarrow> None
      | Some ip \<Rightarrow> if is_fragment ip then Some ip else fix_l4 ip ihl (tot - ihl))"
  by (simp only: fix_body_def fix_l4_def is_fragment_def Let_def)

text \<open>Preparing touches nothing of the header, so the header's checksum comes before or after.\<close>

lemma prepared_header:
  assumes "20 \<le> ihl" "ihl + l4len \<le> length ip"
  shows "length (host_prepared mtu clamp ip ihl l4len) = length ip"
    and "take ihl (host_prepared mtu clamp ip ihl l4len) = take ihl ip"
proof -
  let ?p = "host_prepared mtu clamp ip ihl l4len"
  have "l4len \<le> length (drop ihl ip)" using assms(2) by simp
  from clamp_tcp_mss_spec [OF this, of clamp]
  obtain b l4' where c: "clamp_tcp_mss clamp (drop ihl ip) l4len = Some (b, l4')" "length l4' = length (drop ihl ip)"
    by blast
  show "length ?p = length ip" using c assms(2) by (auto simp: host_prepared_def split: bool.split)
  show "take ihl ?p = take ihl ip" using c assms(2) by (auto simp: host_prepared_def take_put16 split: bool.split)
qed

lemma prepared_put10:
  assumes "20 \<le> ihl" "ihl + l4len \<le> length ip"
  shows "host_prepared mtu clamp (put16 ip 10 c) ihl l4len = put16 (host_prepared mtu clamp ip ihl l4len) 10 c"
proof -
  have h: "is_fragment (put16 ip 10 c) = is_fragment ip" "put16 ip 10 c ! 9 = ip ! 9" "drop ihl (put16 ip 10 c) = drop ihl ip"
    "get16 (put16 ip 10 c) (ihl + k) = get16 ip (ihl + k)" "put16 ip 10 c ! (ihl + k) = ip ! (ihl + k)" "put16 ip 10 c ! ihl = ip ! ihl" for k
    using assms by (simp_all add: is_fragment_def nth_put16 drop_put16_past get16_put16_other)
  have w: "put16 (put16 ip 10 c) (ihl + k) w = put16 (put16 ip (ihl + k) w) 10 c" for k w
    using assms(1) by (simp add: put16_def list_update_swap)
  have t: "take ihl (put16 ip 10 c) @ l4 = put16 (take ihl ip @ l4) 10 c" for l4
    using assms by (simp add: put16_def take_update_swap list_update_append)
  have u: "put16 (put16 (take ihl ip @ l4) 10 c) (ihl + k) w = put16 (put16 (take ihl ip @ l4) (ihl + k) w) 10 c" for k w l4
    using assms(1) by (simp add: put16_def list_update_swap)
  show ?thesis
    unfolding host_prepared_def h w t u by (auto split: option.split bool.split)
qed

lemma fix_host_body:
  assumes "20 \<le> ihl" "ihl \<le> tot" "tot \<le> length ip"
    and p_def: "p = host_prepared mtu clamp ip ihl (tot - ihl)"
  shows "(case (if ip ! 10 = 0 \<and> ip ! 11 = 0
            then map_option (\<lambda>s. put16 ip 10 (usb_csum_finish s)) (usb_csum_add 0 ip ihl) else Some ip) of
        None \<Rightarrow> None
      | Some ip \<Rightarrow> if ip ! 6 AND 0x3F \<noteq> 0 \<or> ip ! 7 \<noteq> 0 then Some ip else fix_host_l4 mtu clamp ip ihl (tot - ihl)) =
    fix_body usb_csum_add usb_csum_finish p ihl tot"
proof -
  have l: "ihl + (tot - ihl) \<le> length ip" using assms(2,3) by simp
  note ph = prepared_header [OF assms(1) l, of mtu clamp, folded p_def]
  have hd: "p ! i = ip ! i" if "i < 20" for i
    using ph(2) that assms(1) by (metis nth_take less_le_trans)
  have fr: "is_fragment p = is_fragment ip" by (simp add: is_fragment_def hd)
  have a: "usb_csum_add 0 p ihl = Some (of_nat (be_sum (take ihl ip)))" "usb_csum_add 0 ip ihl = Some (of_nat (be_sum (take ihl ip)))"
    using l ph by (simp_all add: usb.add_in)
  have fp: "fix_host_l4 mtu clamp (put16 ip 10 c) ihl (tot - ihl) = fix_l4 (put16 p 10 c) ihl (tot - ihl)"
    if "\<not> is_fragment ip" for c
    using fix_host_l4_prepared [of ihl "tot - ihl" "put16 ip 10 c" mtu clamp] that l assms(1) prepared_put10 [OF assms(1) l, of mtu clamp c]
    by (simp add: p_def is_fragment_def nth_put16)
  have fq: "fix_host_l4 mtu clamp ip ihl (tot - ihl) = fix_l4 p ihl (tot - ihl)" if "\<not> is_fragment ip"
    using fix_host_l4_prepared [OF assms(1) l that, of mtu clamp] by (simp add: p_def)
  have pf: "is_fragment ip \<Longrightarrow> p = ip" by (simp add: p_def host_prepared_def)
  have f10: "is_fragment (put16 x 10 c) = is_fragment x" for x c by (simp add: is_fragment_def nth_put16)
  show ?thesis
    unfolding fix_body_l4 is_fragment_def [symmetric] using fr fp fq pf
    by (cases "is_fragment ip") (simp_all add: a hd f10)
qed

lemma prepared_mss:
  assumes "20 \<le> ihl" "ihl + l4len \<le> length ip" "\<not> is_fragment ip" "ip ! 9 = 6" "20 \<le> l4len" "clamp \<noteq> 0"
    and "drop ihl ip ! 13 AND 0x02 \<noteq> 0" "doff = unat (drop_bit 4 (drop ihl ip ! 12)) * 4" "doff \<le> l4len"
  shows "tcp_mss (tcp_opts (drop ihl (host_prepared mtu clamp ip ihl l4len)) 20 doff) =
    map_option (min clamp) (tcp_mss (tcp_opts (drop ihl ip) 20 doff))"
proof -
  let ?l4 = "drop ihl ip"
  have l: "20 \<le> length ?l4" "doff \<le> length ?l4" using assms(2,5,9) by auto
  show ?thesis
  proof (cases "doff < 24")
    case True
    then have "doff \<le> 20" using assms(8) by presburger
    then have "tcp_opts x 20 doff = []" for x by (simp add: tcp_opts_def seg_def)
    then show ?thesis by (simp add: tcp_mss.simps)
  next
    case False
    then have c: "clamp_tcp_mss clamp ?l4 l4len = mss_loop clamp doff 20 ?l4"
      using assms(5-9) l by (simp add: clamp_tcp_mss_def Let_def)
    obtain b l4' where m: "mss_loop clamp doff 20 ?l4 = Some (b, l4')" "length l4' = length ?l4"
      "tcp_mss (tcp_opts l4' 20 doff) = map_option (min clamp) (tcp_mss (tcp_opts ?l4 20 doff))" "\<not> b \<longrightarrow> l4' = ?l4"
      using mss_loop_spec [OF l(2), of clamp 20] by blast
    have "tcp_opts (drop ihl (put16 (take ihl ip @ l4') (ihl + 16) 0)) 20 doff = tcp_opts l4' 20 doff"
      using l(1) by (simp add: drop_put16 tcp_opts_def seg_put16_other min_def)
    then show ?thesis
      using m assms(3-5) by (cases b) (simp_all add: host_prepared_def c)
  qed
qed

lemma restored_opts:
  assumes "csum_restored p ip' ihl tot" "p ! 9 = 6"
  shows "ihl \<ge> 20 \<Longrightarrow> tcp_opts (drop ihl ip') 20 doff = tcp_opts (drop ihl p) 20 doff"
proof -
  assume ihl: "20 \<le> ihl"
  have l: "length ip' = length p" using assms(1) by (simp add: csum_restored_def)
  have o: "l4_off (p ! 9) = 16" using assms(2) by (simp add: l4_off_def)
  have "ip' ! i = p ! i" if "ihl + 20 \<le> i" for i
    using assms(1) that ihl unfolding csum_restored_def o by fastforce
  then show ?thesis
    unfolding tcp_opts_def seg_def using l by (intro nth_equalityI) (auto simp: add.assoc)
qed

text \<open>Property C29. An IPv4 frame to or from the host that is whole leaves with checksums that verify: those that were zero, that
  of a SYN whose MSS was above the clamp, computed over the final bytes; the MSS a SYN carries is then at most the
  clamp, and nothing else changes.\<close>

theorem fix_host_checksums_correct:
  assumes "34 \<le> length f" "f ! 12 = 0x08" "f ! 13 = 0"
    and "drop_bit 4 (f ! 14) = 4" "ihl = unat (f ! 14 AND 0x0F) * 4" "20 \<le> ihl"
    and "tot = unat (get16 f 16)" "ihl \<le> tot" "14 + tot \<le> length f" "tot < 65522"
  shows "\<exists>ip'. fix_host_checksums mtu clamp f = Some (take 14 f @ ip') \<and>
    csum_restored (host_prepared mtu clamp (drop 14 f) ihl (tot - ihl)) ip' ihl tot \<and>
    (\<forall>doff. \<not> is_fragment (drop 14 f) \<and> f ! 23 = 6 \<and> 20 \<le> tot - ihl \<and> clamp \<noteq> 0 \<and> f ! (14 + ihl + 13) AND 0x02 \<noteq> 0 \<and>
        doff = unat (drop_bit 4 (f ! (14 + ihl + 12))) * 4 \<and> doff \<le> tot - ihl \<longrightarrow>
      tcp_mss (tcp_opts (drop ihl ip') 20 doff) = map_option (min clamp) (tcp_mss (tcp_opts (drop (14 + ihl) f) 20 doff)))"
proof -
  let ?ip = "drop 14 f" let ?l = "tot - ihl"
  let ?p = "host_prepared mtu clamp ?ip ihl ?l"
  have g: "?ip ! 0 = f ! 14" "get16 ?ip 2 = get16 f 16" "?ip ! 9 = f ! 23" using assms(1) by (simp_all add: get16_def)
  have w: "unat (14 + get16 f 16) = 14 + tot"
    using assms(7,10) by (simp add: unat_word_ariths)
  have ev: "even ihl" using assms(5) by simp
  have tl: "tot \<le> length ?ip" "ihl + ?l \<le> length ?ip" using assms(8,9) by simp_all
  note ph = prepared_header [OF assms(6) tl(2), of mtu clamp]
  obtain ip' where r: "fix_body usb_csum_add usb_csum_finish ?p ihl tot = Some ip'" "csum_restored ?p ip' ihl tot"
    using usb.fix_body_restores [OF assms(6) ev assms(8), of ?p] tl(1) ph(1) assms(10) by fastforce
  have f: "fix_host_checksums mtu clamp f = Some (take 14 f @ ip')"
    unfolding fix_host_checksums_def Let_def g(1,2) assms(5) [symmetric] w assms(7) [symmetric]
      fix_host_body [OF assms(6,8) tl(1) refl] r(1)
    using assms(1-4,6,8,9) by simp
  have "tcp_mss (tcp_opts (drop ihl ip') 20 doff) = map_option (min clamp) (tcp_mss (tcp_opts (drop (14 + ihl) f) 20 doff))"
    if d: "\<not> is_fragment ?ip" "f ! 23 = 6" "20 \<le> ?l" "clamp \<noteq> 0" "f ! (14 + ihl + 13) AND 0x02 \<noteq> 0"
      "doff = unat (drop_bit 4 (f ! (14 + ihl + 12))) * 4" "doff \<le> ?l" for doff
  proof -
    have e: "drop (14 + ihl) f = drop ihl ?ip" by (simp add: add.commute)
    have k: "14 + ihl \<le> length f" using assms(8,9) by simp
    have n: "drop ihl ?ip ! 13 = f ! (14 + ihl + 13)" "drop ihl ?ip ! 12 = f ! (14 + ihl + 12)"
      unfolding e [symmetric] nth_drop [OF k] by (rule refl)+
    have "?p ! 9 = take ihl ?p ! 9" using assms(6) by simp
    also have "\<dots> = ?ip ! 9" unfolding ph(2) using assms(6) by simp
    finally have "?p ! 9 = ?ip ! 9" .
    then have "?p ! 9 = 6" using d(2) g(3) by simp
    then show ?thesis
      using prepared_mss [OF assms(6) tl(2) d(1) _ d(3,4), of doff mtu] restored_opts [OF r(2) _ assms(6)] d g(3) n e by simp
  qed
  with f r(2) show ?thesis by blast
qed

section \<open>Frames in order\<close>

text \<open>The ring between its two indices, oldest first.\<close>

definition ring :: "usb_net \<Rightarrow> bytes list" where
  "ring s = map (\<lambda>i. usb_tx_queue s ! ((usb_tx_tail s + i) mod USB_TX_QUEUE_LEN)) [0..<ring_depth s]"

definition ring_ok :: "usb_net \<Rightarrow> bool" where
  "ring_ok s \<longleftrightarrow> length (usb_tx_queue s) = USB_TX_QUEUE_LEN \<and> usb_tx_head s < USB_TX_QUEUE_LEN \<and>
     usb_tx_tail s < USB_TX_QUEUE_LEN \<and> cnt_ring_max s < USB_TX_QUEUE_LEN \<and> cnt_ring_recent s < USB_TX_QUEUE_LEN"

lemma uemit_simps [simp]:
  "received_frame (uemit v s) = received_frame s" "recv_stalled (uemit v s) = recv_stalled s"
  "usb_tx_queue (uemit v s) = usb_tx_queue s" "usb_tx_head (uemit v s) = usb_tx_head s" "usb_tx_tail (uemit v s) = usb_tx_tail s"
  "g_mss_clamp (uemit v s) = g_mss_clamp s" "bounce_at_ms (uemit v s) = bounce_at_ms s"
  "reconnect_at_ms (uemit v s) = reconnect_at_ms s" "cnt_ring_max (uemit v s) = cnt_ring_max s"
  "cnt_ring_recent (uemit v s) = cnt_ring_recent s" "uevents (uemit v s) = uevents s @ [v]"
  "cnt_to_host (uemit v s) = cnt_to_host s" "cnt_txdrop (uemit v s) = cnt_txdrop s" "cnt_from_host (uemit v s) = cnt_from_host s"
  by (simp_all add: uemit_def)

lemma ring_depth_less [simp]: "ring_depth s < USB_TX_QUEUE_LEN"
  by (simp add: ring_depth_def)

lemma length_ring [simp]: "length (ring s) = ring_depth s"
  by (simp add: ring_def)

text \<open>A push appends while there are fewer than 31 frames; afterwards the frame is refused.\<close>

lemma mod_step: "a < 32 \<Longrightarrow> (a + 1) mod 32 = (if a = 31 then 0 else a + 1)" for a :: nat
  by auto

lemma mod_sub: "a < 32 \<Longrightarrow> b < 32 \<Longrightarrow> (a + 32 - b) mod 32 = (if b \<le> a then a - b else a + 32 - b)" for a b :: nat
  by (auto simp: mod_if)

lemma mod_wrap: "a < 64 \<Longrightarrow> a mod 32 = (if a < 32 then a else a - 32)" for a :: nat
  by (simp add: mod_if)

lemma mod_other:
  fixes h t i :: nat
  assumes "h < 32" "t < 32" "i < (if t \<le> h then h - t else h + 32 - t)"
  shows "(t + i) mod 32 \<noteq> h"
proof -
  have "t + i < 64" using assms by (auto split: if_splits)
  then show ?thesis unfolding mod_wrap [OF \<open>t + i < 64\<close>] using assms by (auto split: if_splits)
qed

lemma mod_next:
  fixes h t :: nat
  assumes "h < 32" "t < 32"
  shows "(t + (if t \<le> h then h - t else h + 32 - t)) mod 32 = h"
proof -
  let ?d = "if t \<le> h then h - t else h + 32 - t"
  have l: "t + ?d < 64" using assms by simp
  show ?thesis unfolding mod_wrap [OF l] using assms by simp
qed

lemma usb_tx_push_ring:
  assumes "ring_ok s" "usb_tx_push q s = (ok, s')"
  shows "ring_ok s' \<and> uevents s' = uevents s \<and> g_mss_clamp s' = g_mss_clamp s \<and> (ok \<longleftrightarrow> ring_depth s < 31) \<and>
    ring s' = (if ok then ring s @ [q] else ring s)"
proof -
  let ?h = "usb_tx_head s" let ?t = "usb_tx_tail s" let ?n = "(?h + 1) mod 32"
  have b: "?h < 32" "?t < 32" "length (usb_tx_queue s) = 32" using assms(1) by (simp_all add: ring_ok_def)
  have d: "ring_depth s = (if ?t \<le> ?h then ?h - ?t else ?h + 32 - ?t)" unfolding ring_depth_def using b by (intro mod_sub)
  have full: "?n \<noteq> ?t \<longleftrightarrow> ring_depth s < 31" unfolding d mod_step [OF b(1)] using b by auto
  show ?thesis
  proof (cases "?n = ?t")
    case True
    then show ?thesis using assms full by (auto simp: usb_tx_push_def)
  next
    case False
    define u where "u = s\<lparr>usb_tx_queue := (usb_tx_queue s)[?h := q], usb_tx_head := ?n\<rparr>"
    have s': "ok" "s' = u\<lparr>cnt_ring_max := max (cnt_ring_max u) (ring_depth u), cnt_ring_recent := max (cnt_ring_recent u) (ring_depth u)\<rparr>"
      using assms(2) False by (auto simp: usb_tx_push_def u_def Let_def)
    have du: "ring_depth u = ring_depth s + 1"
    proof -
      note nn = mod_step [OF b(1)]
      have "?n < 32" by simp
      then have "ring_depth u = (if ?t \<le> ?n then ?n - ?t else ?n + 32 - ?t)"
        using mod_sub [of ?n ?t] b(2) by (simp add: ring_depth_def u_def)
      then show ?thesis unfolding d using False b unfolding nn by (auto split: if_splits)
    qed
    have rs: "ring s' = map (\<lambda>i. (usb_tx_queue s)[?h := q] ! ((?t + i) mod 32)) [0..<ring_depth s + 1]"
      using du by (simp add: ring_def s'(2) ring_depth_def) (simp add: u_def)
    have e: "(?t + i) mod 32 \<noteq> ?h" if "i < ring_depth s" for i
      using that unfolding d by (rule mod_other [OF b(1,2)])
    have l: "(?t + ring_depth s) mod 32 = ?h" unfolding d using b(1,2) by (rule mod_next)
    have o: "(usb_tx_queue s)[?h := q] ! ((?t + i) mod 32) = usb_tx_queue s ! ((?t + i) mod 32)" if "i < ring_depth s" for i
      using e [OF that] by simp
    have "ring s' = map (\<lambda>i. (usb_tx_queue s)[?h := q] ! ((?t + i) mod 32)) [0..<ring_depth s] @ [q]"
      unfolding rs using l b by simp
    also have "\<dots> = ring s @ [q]" using o by (simp add: ring_def cong: map_cong)
    finally have "ring s' = ring s @ [q]" .
    moreover have "ring_ok s'"
      using assms(1) b du ring_depth_less [of u] by (simp add: ring_ok_def s'(2)) (simp add: u_def)
    ultimately show ?thesis using s' full False by (simp add: u_def)
  qed
qed

text \<open>A frame whose length field is not so near to 65536 that the length check wraps is never read past its end.\<close>

definition frame_ok :: "bytes \<Rightarrow> bool" where
  "frame_ok f \<longleftrightarrow> length f < 34 \<or> unat (get16 f 16) < 65522"

definition fixed :: "bytes \<Rightarrow> bytes \<Rightarrow> bool" where
  "fixed f d \<longleftrightarrow> (\<exists>mtu clamp. fix_host_checksums mtu clamp f = Some d)"

lemma frame_ok_fixed:
  assumes "frame_ok f"
  obtains d where "fix_host_checksums mtu clamp f = Some d" "fixed f d"
proof -
  let ?ihl = "unat (f ! 14 AND 0x0F) * 4" let ?tot = "unat (get16 f 16)"
  have "fix_host_checksums mtu clamp f \<noteq> None"
  proof (cases "34 \<le> length f \<and> f ! 12 = 0x08 \<and> f ! 13 = 0 \<and> drop_bit 4 (f ! 14) = 4 \<and> 20 \<le> ?ihl \<and> ?ihl \<le> ?tot \<and> 14 + ?tot \<le> length f")
    case True
    then have t: "?tot < 65522" using assms by (simp add: frame_ok_def)
    let ?ip = "drop 14 f" let ?p = "host_prepared mtu clamp ?ip ?ihl (?tot - ?ihl)"
    have g: "?ip ! 0 = f ! 14" "get16 ?ip 2 = get16 f 16" using True by (simp_all add: get16_def)
    have tl: "20 \<le> ?ihl" "?ihl \<le> ?tot" using True by blast+
    have "14 + ?tot \<le> length f" using True by blast
    then have tl: "20 \<le> ?ihl" "?ihl \<le> ?tot" "?tot \<le> length ?ip" "?ihl + (?tot - ?ihl) \<le> length ?ip" using tl by simp_all
    have w: "unat (14 + get16 f 16) = 14 + ?tot" using t by (simp add: unat_word_ariths)
    obtain ip' where "fix_body usb_csum_add usb_csum_finish ?p ?ihl ?tot = Some ip'"
      using usb.fix_body_restores [OF tl(1) _ tl(2), of ?p] tl(3) prepared_header(1) [OF tl(1,4)] t by fastforce
    then show ?thesis
      unfolding fix_host_checksums_def Let_def g w fix_host_body [OF tl(1,2,3) refl] using True by simp
  next
    case False
    show ?thesis
    proof (cases "length f < 34")
      case l: False
      then have "get16 (drop 14 f) 2 = get16 f 16" "unat (14 + get16 f 16) = 14 + ?tot" "drop 14 f ! 0 = f ! 14"
        using assms by (simp_all add: frame_ok_def get16_def unat_word_ariths)
      then show ?thesis using False l unfolding fix_host_checksums_def Let_def by auto
    qed (simp add: fix_host_checksums_def)
  qed
  then show ?thesis using that by (auto simp: fixed_def)
qed

fun to_host :: "usb_event list \<Rightarrow> bytes list" where
  "to_host [] = []"
| "to_host (U_to_host f # vs) = f # to_host vs"
| "to_host (v # vs) = to_host vs"

fun to_lwip :: "usb_event list \<Rightarrow> bytes list" where
  "to_lwip [] = []"
| "to_lwip (U_to_lwip f # vs) = f # to_lwip vs"
| "to_lwip (v # vs) = to_lwip vs"

lemma to_append [simp]: "to_host (vs @ ws) = to_host vs @ to_host ws" "to_lwip (vs @ ws) = to_lwip vs @ to_lwip ws"
proof -
  show "to_host (vs @ ws) = to_host vs @ to_host ws" by (induction vs rule: to_host.induct) simp_all
  show "to_lwip (vs @ ws) = to_lwip vs @ to_lwip ws" by (induction vs rule: to_lwip.induct) simp_all
qed

text \<open>The frames accepted towards the host are those passed on, in order, and those still waiting; those accepted from it
  are, in order, those passed on and those the host's driver made us drop, and then the one still staged.\<close>

definition staged :: "usb_net \<Rightarrow> bytes list" where
  "staged s = (case received_frame s of None \<Rightarrow> [] | Some p \<Rightarrow> [p])"

definition in_order :: "usb_net \<Rightarrow> bytes list \<Rightarrow> bytes list \<Rightarrow> bytes list \<Rightarrow> bool" where
  "in_order s tx rcv drp \<longleftrightarrow> ring_ok s \<and> list_all frame_ok (tx @ rcv) \<and>
     (\<exists>dn. tx = dn @ ring s \<and> list_all2 fixed dn (to_host (uevents s))) \<and>
     (\<exists>dn t. rcv = t @ staged s \<and> t \<in> shuffles dn drp \<and> list_all2 fixed dn (to_lwip (uevents s)))"

lemma shuffles_snoc: "zs \<in> shuffles xs ys \<Longrightarrow> zs @ [z] \<in> shuffles (xs @ [z]) ys"
proof (induction xs ys arbitrary: zs rule: shuffles.induct)
  case (1 ys)
  have "ys @ [z] \<in> shuffles [z] ys" by (induction ys) (auto intro: Cons_in_shuffles_rightI)
  then show ?case using 1 by simp
qed (auto intro: Cons_in_shuffles_leftI Cons_in_shuffles_rightI)

lemma shuffles_snoc': "zs \<in> shuffles xs ys \<Longrightarrow> zs @ [z] \<in> shuffles xs (ys @ [z])"
  using shuffles_snoc [of zs ys xs z] by (simp add: shuffles_commutes)

lemma in_order_same:
  "in_order s tx rcv drp \<Longrightarrow> usb_tx_queue s' = usb_tx_queue s \<Longrightarrow> usb_tx_head s' = usb_tx_head s \<Longrightarrow> usb_tx_tail s' = usb_tx_tail s \<Longrightarrow>
   cnt_ring_max s' = cnt_ring_max s \<Longrightarrow> cnt_ring_recent s' = cnt_ring_recent s \<Longrightarrow> received_frame s' = received_frame s \<Longrightarrow>
   to_host (uevents s') = to_host (uevents s) \<Longrightarrow> to_lwip (uevents s') = to_lwip (uevents s) \<Longrightarrow> in_order s' tx rcv drp"
  by (simp add: in_order_def ring_ok_def ring_def ring_depth_def staged_def)

lemma in_order_send:
  assumes "in_order s tx rcv drp" "frame_ok p" "usb_linkoutput ready p s = (r, s')"
  shows "in_order s' (tx @ (if r = ERR_OK then [p] else [])) rcv drp"
proof (cases ready)
  case False
  then show ?thesis using assms by (auto simp: usb_linkoutput_def intro: in_order_same)
next
  case True
  obtain ok u where u: "usb_tx_push p s = (ok, u)" by fastforce
  have "ring_ok s" using assms(1) by (simp add: in_order_def)
  note pr = usb_tx_push_ring [OF this u]
  have st: "received_frame u = received_frame s" using u by (auto simp: usb_tx_push_def Let_def split: if_splits)
  show ?thesis
  proof (cases ok)
    case True
    then have "r = ERR_OK" "s' = u" using assms(3) \<open>ready\<close> u by (simp_all add: usb_linkoutput_def)
    then show ?thesis using True assms(1,2) pr st by (auto simp: in_order_def staged_def)
  next
    case False
    then have "r = ERR_MEM" "s' = u\<lparr>cnt_txdrop := cnt_txdrop u + 1\<rparr>" using assms(3) \<open>ready\<close> u by (simp_all add: usb_linkoutput_def)
    moreover have "in_order u tx rcv drp" using False assms(1) pr st by (auto simp: in_order_def staged_def)
    ultimately show ?thesis by (auto intro: in_order_same)
  qed
qed

lemma ring_Cons:
  assumes "ring_ok s" "usb_tx_tail s \<noteq> usb_tx_head s"
  shows "ring s = usb_tx_queue s ! usb_tx_tail s # ring (s\<lparr>usb_tx_tail := (usb_tx_tail s + 1) mod USB_TX_QUEUE_LEN\<rparr>)"
proof -
  let ?h = "usb_tx_head s" let ?t = "usb_tx_tail s" let ?n = "(?t + 1) mod 32"
  have b: "?h < 32" "?t < 32" using assms(1) by (simp_all add: ring_ok_def)
  have d: "ring_depth s = (if ?t \<le> ?h then ?h - ?t else ?h + 32 - ?t)" unfolding ring_depth_def using b by (intro mod_sub)
  have "?n < 32" by simp
  then have "(?h + 32 - ?n) mod 32 = (if ?n \<le> ?h then ?h - ?n else ?h + 32 - ?n)" using b(1) by (intro mod_sub)
  then have "ring_depth s = Suc ((?h + 32 - ?n) mod 32)"
    unfolding d using assms(2) b unfolding mod_step [OF b(2)] by (auto split: if_splits)
  moreover have "(?n + i) mod 32 = (?t + Suc i) mod 32" for i by (simp add: mod_add_left_eq)
  ultimately show ?thesis
    using b by (simp add: ring_def ring_depth_def upt_conv_Cons map_Suc_upt [symmetric] del: upt_Suc)
qed

lemma ring_empty: "ring_ok s \<Longrightarrow> usb_tx_tail s = usb_tx_head s \<Longrightarrow> ring s = []"
  by (simp add: ring_def ring_depth_def)

lemma in_order_drain: "in_order s tx rcv drp \<Longrightarrow> in_order (drain_loop mtu can n s) tx rcv drp"
proof (induction n arbitrary: s)
  case (Suc n)
  show ?case
  proof (cases "usb_tx_tail s = usb_tx_head s \<or> \<not> can n")
    case False
    let ?q = "usb_tx_queue s ! usb_tx_tail s"
    have r: "ring_ok s" using Suc.prems by (simp add: in_order_def)
    note rc = ring_Cons [OF r]
    obtain dn where dn: "tx = dn @ ring s" "list_all2 fixed dn (to_host (uevents s))" "list_all frame_ok tx"
      using Suc.prems by (auto simp: in_order_def)
    have "frame_ok ?q" using dn(1,3) rc False by simp
    then obtain d where d: "fix_host_checksums mtu (g_mss_clamp s) ?q = Some d" "fixed ?q d" by (rule frame_ok_fixed)
    let ?u = "uemit (U_to_host d) (uemit (U_capture d) s)"
    define v where "v = ?u\<lparr>cnt_to_host := cnt_to_host ?u + 1, usb_tx_tail := (usb_tx_tail s + 1) mod USB_TX_QUEUE_LEN\<rparr>"
    have e: "drain_loop mtu can (Suc n) s = drain_loop mtu can n v"
      using False d(1) by (simp add: tud_network_xmit_cb_def v_def)
    have "ring v = ring (s\<lparr>usb_tx_tail := (usb_tx_tail s + 1) mod USB_TX_QUEUE_LEN\<rparr>)"
      by (simp add: v_def ring_def ring_depth_def)
    then have "ring s = ?q # ring v" using rc False by simp
    then have "tx = (dn @ [?q]) @ ring v" "list_all2 fixed (dn @ [?q]) (to_host (uevents v))"
      using dn d(2) by (simp_all add: v_def list_all2_appendI)
    moreover have "ring_ok v" "staged v = staged s" "to_lwip (uevents v) = to_lwip (uevents s)"
      using r by (simp_all add: ring_ok_def v_def staged_def)
    ultimately have "in_order v tx rcv drp" using Suc.prems unfolding in_order_def by metis
    then show ?thesis unfolding e by (rule Suc.IH)
  qed (use Suc.prems in auto)
qed simp

lemma in_order_take:
  assumes "in_order s tx rcv drp"
  shows "in_order (take_frame mtu s) tx rcv drp \<and> received_frame (take_frame mtu s) = None"
proof (cases "received_frame s")
  case (Some p)
  obtain dn t where dn: "rcv = t @ [p]" "t \<in> shuffles dn drp" "list_all2 fixed dn (to_lwip (uevents s))" "list_all frame_ok rcv"
    using assms Some by (auto simp: in_order_def staged_def)
  then have "frame_ok p" by simp
  then obtain d where d: "fix_host_checksums mtu (g_mss_clamp s) p = Some d" "fixed p d" by (rule frame_ok_fixed)
  define v where "v = take_frame mtu s"
  have v: "received_frame v = None" "to_lwip (uevents v) = to_lwip (uevents s) @ [d]" "to_host (uevents v) = to_host (uevents s)"
    "ring v = ring s" "ring_ok v = ring_ok s"
    using Some d(1) by (simp_all add: v_def take_frame_def ring_def ring_depth_def ring_ok_def Let_def)
  have "list_all2 fixed (dn @ [p]) (to_lwip (uevents v))" using dn(3) d(2) v(2) by (simp add: list_all2_appendI)
  moreover have "rcv \<in> shuffles (dn @ [p]) drp" using shuffles_snoc [OF dn(2)] dn(1) by simp
  ultimately show ?thesis using assms v unfolding v_def [symmetric] in_order_def staged_def by auto
qed (use assms in \<open>simp add: take_frame_def\<close>)

lemma in_order_recv:
  assumes "in_order s tx rcv drp" "frame_ok p" "tud_network_recv_cb got p s = (r, s')"
  shows "in_order s' tx (rcv @ (if r \<and> got \<and> p \<noteq> [] then [p] else [])) drp"
proof (cases "received_frame s")
  case None
  then have "in_order (s\<lparr>received_frame := Some p\<rparr>) tx (rcv @ [p]) drp"
    using assms(1,2) by (auto simp: in_order_def staged_def ring_ok_def ring_def ring_depth_def)
  moreover have "in_order (s\<lparr>recv_stalled := True, cnt_poolfail := cnt_poolfail s + 1\<rparr>) tx rcv drp"
    using assms(1) by (rule in_order_same) simp_all
  ultimately show ?thesis using None assms(1,3) by (auto simp: tud_network_recv_cb_def split: if_splits)
qed (use assms in \<open>auto simp: tud_network_recv_cb_def\<close>)

lemma in_order_init:
  assumes "in_order s tx rcv drp"
  shows "in_order (tud_network_init_cb s) tx rcv (drp @ staged s)"
proof (cases "received_frame s")
  case (Some p)
  then show ?thesis
    using assms shuffles_snoc'
    by (fastforce simp: tud_network_init_cb_def in_order_def staged_def ring_ok_def ring_def ring_depth_def)
qed (use assms in \<open>simp add: tud_network_init_cb_def staged_def\<close>)

text \<open>What TinyUSB calls: a datagram, for which the pool has a buffer or not; the host (re)configures the interface.\<close>

datatype usb_cb = CB_recv bool bytes | CB_init

fun cb_step :: "usb_cb \<Rightarrow> usb_net \<Rightarrow> usb_net" where
  "cb_step (CB_recv got p) s = snd (tud_network_recv_cb got p s)"
| "cb_step CB_init s = tud_network_init_cb s"

text \<open>The frames it takes over, and the one it drops.\<close>

fun cb_taken :: "usb_cb \<Rightarrow> usb_net \<Rightarrow> bytes list" where
  "cb_taken (CB_recv got p) s = (if fst (tud_network_recv_cb got p s) \<and> got \<and> p \<noteq> [] then [p] else [])"
| "cb_taken CB_init s = []"

fun cb_dropped :: "usb_cb \<Rightarrow> usb_net \<Rightarrow> bytes list" where
  "cb_dropped (CB_recv got p) s = []"
| "cb_dropped CB_init s = staged s"

fun cbs_taken :: "usb_cb list \<Rightarrow> usb_net \<Rightarrow> bytes list" where
  "cbs_taken [] s = []"
| "cbs_taken (c # cs) s = cb_taken c s @ cbs_taken cs (cb_step c s)"

fun cbs_dropped :: "usb_cb list \<Rightarrow> usb_net \<Rightarrow> bytes list" where
  "cbs_dropped [] s = []"
| "cbs_dropped (c # cs) s = cb_dropped c s @ cbs_dropped cs (cb_step c s)"

definition cb_frame_ok :: "usb_cb \<Rightarrow> bool" where
  "cb_frame_ok c = (case c of CB_recv got p \<Rightarrow> frame_ok p | CB_init \<Rightarrow> True)"

lemma in_order_cb:
  "in_order s tx rcv drp \<Longrightarrow> cb_frame_ok c \<Longrightarrow> in_order (cb_step c s) tx (rcv @ cb_taken c s) (drp @ cb_dropped c s)"
  using in_order_recv in_order_init by (cases c) (auto simp: cb_frame_ok_def)

lemma in_order_cbs:
  "in_order s tx rcv drp \<Longrightarrow> list_all cb_frame_ok cs \<Longrightarrow>
   in_order (fold cb_step cs s) tx (rcv @ cbs_taken cs s) (drp @ cbs_dropped cs s)"
proof (induction cs arbitrary: s rcv drp)
  case (Cons c cs)
  from Cons.IH [OF in_order_cb [OF Cons.prems(1), of c]] Cons.prems(2) show ?case by simp
qed simp

text \<open>What happens to the link: lwIP sends; TinyUSB calls back, in the main loop's call or when it is told to go on; the main loop calls;
  settings change.\<close>

datatype usb_action =
    A_send bool bytes
  | A_cb usb_cb
  | A_update u32 u16 "usb_cb list" "nat \<Rightarrow> bool"
  | A_clamp u16
  | A_bounce u32
  | A_addr u32 u8

definition usb_step :: "usb_action \<Rightarrow> usb_net \<Rightarrow> usb_net" where
  "usb_step a s =
     (case a of
        A_send r p \<Rightarrow> snd (usb_linkoutput r p s)
      | A_cb c \<Rightarrow> cb_step c s
      | A_update now mtu cs can \<Rightarrow> usb_net_update now mtu (fold cb_step cs) can s
      | A_clamp m \<Rightarrow> usb_net_set_mss_clamp m s
      | A_bounce now \<Rightarrow> usb_net_schedule_bounce now s
      | A_addr w p \<Rightarrow> usb_net_set_addr w p s)"

definition usb_run :: "usb_action list \<Rightarrow> usb_net \<Rightarrow> usb_net" where
  "usb_run acts s = fold usb_step acts s"

text \<open>The frames the two entry points accept on the way, and those dropped.\<close>

definition sends :: "usb_action \<Rightarrow> usb_net \<Rightarrow> bytes list" where
  "sends a s = (case a of A_send r p \<Rightarrow> if fst (usb_linkoutput r p s) = ERR_OK then [p] else [] | _ \<Rightarrow> [])"

definition takes :: "usb_action \<Rightarrow> usb_net \<Rightarrow> bytes list" where
  "takes a s = (case a of A_cb c \<Rightarrow> cb_taken c s | A_update now mtu cs can \<Rightarrow> cbs_taken cs (bounce_step now s) | _ \<Rightarrow> [])"

definition drops :: "usb_action \<Rightarrow> usb_net \<Rightarrow> bytes list" where
  "drops a s = (case a of A_cb c \<Rightarrow> cb_dropped c s | A_update now mtu cs can \<Rightarrow> cbs_dropped cs (bounce_step now s) | _ \<Rightarrow> [])"

fun all_sent :: "usb_action list \<Rightarrow> usb_net \<Rightarrow> bytes list" where
  "all_sent [] s = []"
| "all_sent (a # as) s = sends a s @ all_sent as (usb_step a s)"

fun all_taken :: "usb_action list \<Rightarrow> usb_net \<Rightarrow> bytes list" where
  "all_taken [] s = []"
| "all_taken (a # as) s = takes a s @ all_taken as (usb_step a s)"

fun all_dropped :: "usb_action list \<Rightarrow> usb_net \<Rightarrow> bytes list" where
  "all_dropped [] s = []"
| "all_dropped (a # as) s = drops a s @ all_dropped as (usb_step a s)"

definition action_frame_ok :: "usb_action \<Rightarrow> bool" where
  "action_frame_ok a =
     (case a of A_send r p \<Rightarrow> frame_ok p | A_cb c \<Rightarrow> cb_frame_ok c | A_update now mtu cs can \<Rightarrow> list_all cb_frame_ok cs | _ \<Rightarrow> True)"

lemma in_order_bounce: "in_order s tx rcv drp \<Longrightarrow> in_order (bounce_step now s) tx rcv drp"
  by (auto simp: bounce_step_def Let_def intro: in_order_same)

lemma in_order_update:
  assumes "in_order s tx rcv drp" "list_all cb_frame_ok cs"
  shows "in_order (usb_net_update now mtu (fold cb_step cs) can s) tx
    (rcv @ cbs_taken cs (bounce_step now s)) (drp @ cbs_dropped cs (bounce_step now s))" (is "in_order _ _ ?rcv ?drp")
proof -
  have "in_order (take_frame mtu (usb_tx_drain mtu can (fold cb_step cs (bounce_step now s)))) tx ?rcv ?drp" (is "in_order ?t _ _ _")
    using in_order_take in_order_drain in_order_cbs [OF in_order_bounce [OF assms(1)] assms(2)] unfolding usb_tx_drain_def by blast
  then have "in_order (?t\<lparr>recv_stalled := False\<rparr>) tx ?rcv ?drp" by (rule in_order_same) simp_all
  moreover have "in_order u tx ?rcv ?drp \<Longrightarrow> in_order (uemit U_renew u) tx ?rcv ?drp" for u by (rule in_order_same) simp_all
  ultimately show ?thesis unfolding usb_net_update_def Let_def by simp
qed

lemma in_order_step:
  assumes "in_order s tx rcv drp" "action_frame_ok a"
  shows "in_order (usb_step a s) (tx @ sends a s) (rcv @ takes a s) (drp @ drops a s)"
proof (cases a)
  case (A_send r p)
  then show ?thesis
    using in_order_send [OF assms(1), of p r "fst (usb_linkoutput r p s)"] assms(2)
    by (simp add: usb_step_def sends_def takes_def drops_def action_frame_ok_def)
next
  case (A_cb c)
  then show ?thesis using in_order_cb [OF assms(1)] assms(2) by (simp add: usb_step_def sends_def takes_def drops_def action_frame_ok_def)
next
  case (A_update now mtu cs can)
  then show ?thesis
    using in_order_update [OF assms(1)] assms(2) by (simp add: usb_step_def sends_def takes_def drops_def action_frame_ok_def)
qed (simp_all add: usb_step_def sends_def takes_def drops_def usb_net_set_mss_clamp_def usb_net_schedule_bounce_def
      usb_net_set_addr_def in_order_same [OF assms(1)])

lemma in_order_run:
  "in_order s tx rcv drp \<Longrightarrow> list_all action_frame_ok acts \<Longrightarrow>
   in_order (usb_run acts s) (tx @ all_sent acts s) (rcv @ all_taken acts s) (drp @ all_dropped acts s)"
proof (induction acts arbitrary: s tx rcv drp)
  case (Cons a acts)
  from Cons.IH [OF in_order_step [OF Cons.prems(1), of a]] Cons.prems(2) show ?case by (simp add: usb_run_def)
qed (simp add: usb_run_def)

lemma in_order_reset: "in_order usb_reset [] [] []"
  by (simp add: in_order_def usb_reset_def ring_ok_def ring_def ring_depth_def staged_def)

text \<open>Property C30. Frames whose IPv4 length field is below 65522 are kept in order in both directions. Towards the host: those it was
  given are those accepted from lwIP, in order, checksums filled in, and the rest is in the ring, which never holds more
  than 31. From the host: those accepted are, in order, those lwIP was given, checksums filled in, mixed with those that were
  staged when the host configured the interface again, which are dropped, and then the one still staged; without such a
  reconfiguration none is dropped.\<close>

theorem usb_frames_in_order:
  assumes "list_all action_frame_ok acts"
  defines "s \<equiv> usb_run acts usb_reset"
  shows "(\<exists>dn. all_sent acts usb_reset = dn @ ring s \<and> list_all2 fixed dn (to_host (uevents s))) \<and>
    (\<exists>dn t. all_taken acts usb_reset = t @ staged s \<and> t \<in> shuffles dn (all_dropped acts usb_reset) \<and>
      list_all2 fixed dn (to_lwip (uevents s))) \<and>
    length (ring s) \<le> 31 \<and> cnt_ring_max s \<le> 31"
  using in_order_run [OF in_order_reset assms(1)] ring_depth_less [of s]
  by (simp add: in_order_def s_def ring_ok_def less_Suc_eq_le [symmetric] del: ring_depth_less)

definition arp_frame :: bytes where
  "arp_frame = [2, 2, 2, 2, 2, 2, 2, 2, 2, 2, 2, 2, 0x08, 0x06, 0, 1, 8, 0, 6, 4, 0, 1, 2, 2, 2, 2, 2, 2, 10, 0, 0, 1,
     0, 0, 0, 0, 0, 0, 10, 0, 0, 2]"

text \<open>One frame to the host; two from it, the first dropped by a reconfiguration.\<close>

definition sample_link :: "usb_action list" where
  "sample_link = [A_send True arp_frame, A_cb (CB_recv True (arp_frame @ [0])), A_cb CB_init,
     A_update 1000 1420 [CB_recv True arp_frame] (\<lambda>_. True)]"

lemma usb_frames_in_order_witness:
  "to_host (uevents (usb_run sample_link usb_reset)) = [arp_frame] \<and> to_lwip (uevents (usb_run sample_link usb_reset)) = [arp_frame]"
proof -
  have ok: "list_all action_frame_ok sample_link"
  proof -
    have "frame_ok arp_frame" "frame_ok (arp_frame @ [0])" by (simp_all add: frame_ok_def arp_frame_def get16_def unat_be16)
    then show ?thesis by (simp add: action_frame_ok_def cb_frame_ok_def sample_link_def)
  qed
  have "all_sent sample_link usb_reset = [arp_frame]" "ring (usb_run sample_link usb_reset) = []"
    "all_taken sample_link usb_reset = [arp_frame @ [0], arp_frame]" "all_dropped sample_link usb_reset = [arp_frame @ [0]]"
    "staged (usb_run sample_link usb_reset) = []" by code_simp+
  then have "list_all2 fixed [arp_frame] (to_host (uevents (usb_run sample_link usb_reset)))"
    "list_all2 fixed [arp_frame] (to_lwip (uevents (usb_run sample_link usb_reset)))"
    using usb_frames_in_order [OF ok] by (auto simp: Cons_in_shuffles_iff arp_frame_def)
  moreover have "fixed arp_frame d \<longleftrightarrow> d = arp_frame" for d
    by (auto simp: fixed_def fix_host_checksums_def arp_frame_def)
  ultimately show ?thesis by (auto simp: list_all2_Cons1)
qed

text \<open>After the main loop's call the link from the host is armed again: nothing is staged or marked stalled, and if
  something was, TinyUSB has been told.\<close>

theorem usb_update_rearms:
  "received_frame (usb_net_update now mtu id can s) = None \<and> \<not> recv_stalled (usb_net_update now mtu id can s) \<and>
   (received_frame s \<noteq> None \<or> recv_stalled s \<longrightarrow> last (uevents (usb_net_update now mtu id can s)) = U_renew)"
proof -
  have d: "received_frame (drain_loop mtu can n t) = received_frame t \<and> recv_stalled (drain_loop mtu can n t) = recv_stalled t" for n t
    by (induction n arbitrary: t) (auto simp: tud_network_xmit_cb_def split: option.splits prod.splits)
  have b: "received_frame (bounce_step now s) = received_frame s" "recv_stalled (bounce_step now s) = recv_stalled s"
    by (simp_all add: bounce_step_def Let_def)
  have "received_frame (take_frame mtu t) = None" for t
    by (simp add: take_frame_def Let_def split: option.split)
  then show ?thesis by (simp add: usb_net_update_def usb_tx_drain_def Let_def d b)
qed

text \<open>The replug timer compares 32-bit times as they are: within five seconds of their wrap it fires at once.\<close>

lemma bounce_wraps:
  "U_disconnect \<in> set (uevents (bounce_step 0xFFFFFF00 (usb_net_schedule_bounce 0xFFFFFF00 usb_reset)))"
  by (simp add: bounce_step_def usb_net_schedule_bounce_def usb_reset_def Let_def uemit_def)

text \<open>The frame of 34 bytes that claims 65522: the wrapped length check lets it pass, and the TCP checksum is then
  looked for past its end.\<close>

lemma fix_host_overread:
  "fix_host_checksums mtu clamp ([2, 0, 0, 0, 0, 1, 2, 0, 0, 0, 0, 2, 0x08, 0x00,
     0x45, 0, 0xFF, 0xF2, 0, 1, 0, 0, 64, 6, 1, 1, 10, 0, 0, 1, 10, 0, 0, 2]) = None"
  by (simp add: fix_host_checksums_def get16_def fix_host_l4_def clamp_tcp_mss_def unat_be16 Let_def usb_csum_add.simps
    fill_l4_def zero16_def be16_def)

definition syn_frame :: bytes where
  "syn_frame = [2, 0, 0, 0, 0, 1, 2, 0, 0, 0, 0, 2, 0x08, 0x00,
     0x45, 0, 0, 44, 0, 1, 0, 0, 64, 6, 0, 0, 10, 0, 0, 1, 10, 0, 0, 2,
     4, 210, 0, 80, 0, 0, 0, 1, 0, 0, 0, 0, 0x60, 0x02, 32, 0, 0, 0, 0, 0, 2, 4, 5, 180]"

lemma fix_host_checksums_correct_witness:
  "\<exists>ip'. fix_host_checksums 1420 1240 syn_frame = Some (take 14 syn_frame @ ip') \<and>
    tcp_mss (tcp_opts (drop 20 ip') 20 24) = Some 1240"
proof -
  have "tcp_mss (tcp_opts (drop (14 + 20) syn_frame) 20 24) = Some 1460" by code_simp
  moreover have "\<exists>ip'. fix_host_checksums 1420 1240 syn_frame = Some (take 14 syn_frame @ ip') \<and>
    csum_restored (host_prepared 1420 1240 (drop 14 syn_frame) 20 (44 - 20)) ip' 20 44 \<and>
    (\<forall>doff. \<not> is_fragment (drop 14 syn_frame) \<and> syn_frame ! 23 = 6 \<and> 20 \<le> 44 - (20 :: nat) \<and> (1240 :: u16) \<noteq> 0 \<and>
        syn_frame ! (14 + 20 + 13) AND 0x02 \<noteq> 0 \<and> doff = unat (drop_bit 4 (syn_frame ! (14 + 20 + 12))) * 4 \<and> doff \<le> 44 - 20 \<longrightarrow>
      tcp_mss (tcp_opts (drop 20 ip') 20 doff) = map_option (min 1240) (tcp_mss (tcp_opts (drop (14 + 20) syn_frame) 20 doff)))"
    by (rule fix_host_checksums_correct) (simp_all add: syn_frame_def get16_def unat_be16)
  moreover have "\<not> is_fragment (drop 14 syn_frame) \<and> syn_frame ! 23 = 6 \<and> syn_frame ! (14 + 20 + 13) AND 0x02 \<noteq> 0 \<and>
      24 = unat (drop_bit 4 (syn_frame ! (14 + 20 + 12))) * 4"
    by (simp add: syn_frame_def is_fragment_def)
  ultimately show ?thesis by fastforce
qed

end
