(* ===== verification/Access_Point.thy ===== *)
theory Access_Point
  imports Checksum Pcap Dhcp_Server Wg
begin

text \<open>
  \<^verbatim>\<open>src/ap.c\<close>: the access point for one client that is to reach nothing but the tunnel. Its statics are the
  record \<open>ap_mod\<close>; the DHCP scope, the capture ring, the default route and the tunnel's state belong to other
  components and are passed through. Calls of the radio driver are events. That enabling the access point
  adds its interface anew, with the driver's own input and output functions, a driver's address and as the default route, is
  what the driver's documentation says and the comments in the file repeat.
\<close>

datatype ap_event =
    A_enable string string \<comment> \<open>\<^verbatim>\<open>cyw43_arch_enable_ap_mode\<close>: SSID, passphrase\<close>
  | A_disable
  | A_ioctl u32 bytes
  | A_down \<comment> \<open>link and interface down, address cleared\<close>
  | A_input bytes
  | A_output bytes

record ap_mod =
  ap_up :: bool
  applied :: ap_config
  applied_dns :: u32
  applied_mtu :: u16
  in_tapped :: bool \<comment> \<open>\<^verbatim>\<open>n->input == ap_input_tap\<close>\<close>
  out_tapped :: bool
  ap_nif_addr :: u32
  ap_nif_mask :: u32
  aevents :: "ap_event list"

definition ap_boot :: ap_mod where
  "ap_boot = \<lparr>ap_up = False, applied = zero_ap, applied_dns = 0, applied_mtu = 0, in_tapped = False, out_tapped = False,
     ap_nif_addr = 0, ap_nif_mask = 0, aevents = []\<rparr>"

abbreviation USB_NIF :: nat where "USB_NIF \<equiv> 0"
abbreviation AP_NIF :: nat where "AP_NIF \<equiv> 1"

definition aemit :: "ap_event \<Rightarrow> ap_mod \<Rightarrow> ap_mod" where
  "aemit v s = s\<lparr>aevents := aevents s @ [v]\<rparr>"

definition ap_active_netif :: "ap_mod \<Rightarrow> netif_id option" where
  "ap_active_netif s = (if ap_up s then Some N_ap else None)"

section \<open>The taps\<close>

text \<open>A chain of buffers \<open>p\<close>. The copy on the stack has 256 bytes, the length passed on is the chain's; what lies behind
  the copy, \<open>stack\<close>, is there for the capture to read if it reads so far.\<close>

definition tap_frame :: "u64 \<Rightarrow> bytes \<Rightarrow> bytes list \<Rightarrow> pcap \<Rightarrow> pcap" where
  "tap_frame us stack p c =
     (if length (hd p) = length (concat p) then pcap_capture us (hd p) c
      else let snap = take (min (length (concat p)) 256) (concat p)
           in pcap_capture us (take (length (concat p)) (snap @ stack)) c)"

definition ap_input_tap :: "u64 \<Rightarrow> bytes \<Rightarrow> bytes list \<Rightarrow> pcap \<Rightarrow> ap_mod \<Rightarrow> pcap \<times> ap_mod" where
  "ap_input_tap us stack p c s = (tap_frame us stack p c, aemit (A_input (concat p)) s)"

definition ap_linkoutput_tap :: "u64 \<Rightarrow> bytes \<Rightarrow> bytes list \<Rightarrow> pcap \<Rightarrow> ap_mod \<Rightarrow> (pcap \<times> ap_mod) option" where
  "ap_linkoutput_tap us stack p c s =
     map_option (\<lambda>p. (tap_frame us stack p c, aemit (A_output (concat p)) s)) (eth_csum_restore p)"

section \<open>The radio\<close>

definition ap_limit_to_one_sta :: "ap_mod \<Rightarrow> ap_mod" where
  "ap_limit_to_one_sta s = aemit (A_ioctl (push_bit 1 263 OR 1) (ascii ''maxassoc'' @ [0, 1, 0, 0, 0])) s"

text \<open>\<open>stas\<close> is what the driver answers.\<close>

definition ap_client_count :: "int \<Rightarrow> ap_mod \<Rightarrow> int" where
  "ap_client_count stas s = (if \<not> ap_up s then 0 else stas)"

section \<open>Life\<close>

definition ap_teardown :: "bool \<Rightarrow> dhcp \<times> ap_mod \<Rightarrow> dhcp \<times> ap_mod" where
  "ap_teardown udp_ok ds =
     (case ds of (d, s) \<Rightarrow>
        (dhcp_server_start udp_ok Ap AP_NIF 0 0 0 0 [] 0 False d,
         (aemit A_down (aemit A_disable s))\<lparr>ap_nif_addr := 0, ap_nif_mask := 0, ap_up := False\<rparr>))"

definition ap_bring_up :: "bool \<Rightarrow> config \<Rightarrow> u32 \<Rightarrow> u16 \<Rightarrow> wg_mod \<times> dhcp \<times> ap_mod \<Rightarrow> wg_mod \<times> dhcp \<times> ap_mod" where
  "ap_bring_up udp_ok cfg dns mtu w =
     (case w of (m, d, s) \<Rightarrow>
        let a = ap cfg;
            s = ap_limit_to_one_sta ((aemit (A_enable (c_str (ap_ssid a)) (c_str (ap_password a))) s)
                  \<lparr>in_tapped := False, out_tapped := False\<rparr>);
            m = m\<lparr>netif_default := N_ap\<rparr>;
            s = s\<lparr>ap_nif_addr := ap_addr a, ap_nif_mask := bswap32 (push_bit (32 - unat (ap_prefix a)) 0xFFFFFFFF)\<rparr>;
            wg = (if wg_session_up m then wg_active_netif m else None);
            m = m\<lparr>netif_default := (case wg of Some n \<Rightarrow> n | None \<Rightarrow> N_sta)\<rparr>;
            s = (if \<not> in_tapped s then s\<lparr>in_tapped := True\<rparr> else s);
            s = (if \<not> out_tapped s then s\<lparr>out_tapped := True\<rparr> else s);
            d = dhcp_server_start udp_ok Ap AP_NIF (client_addr a) (ap_prefix a) dns mtu [] 0 False d
        in (m, d, s\<lparr>applied := a, applied_dns := dns, applied_mtu := mtu, ap_up := True\<rparr>))"

definition ap_apply :: "bool \<Rightarrow> config \<Rightarrow> wg_mod \<times> dhcp \<times> ap_mod \<Rightarrow> wg_mod \<times> dhcp \<times> ap_mod" where
  "ap_apply udp_ok cfg w =
     (case w of (m, d, s) \<Rightarrow>
        let want = (ap_enabled (ap cfg) \<noteq> 0 \<and> config_ap_complete cfg);
            dns = wg_dns (wg cfg);
            mtu = (if host_mtu (wg cfg) \<noteq> 0 then host_mtu (wg cfg) else WIREGUARDIF_MTU)
        in if ap_up s \<and> want \<and> applied s = ap cfg \<and> applied_dns s = dns \<and> applied_mtu s = mtu then (m, d, s)
           else let (d, s) = (if ap_up s then ap_teardown udp_ok (d, s) else (d, s))
                in if \<not> want then (m, d, s) else ap_bring_up udp_ok cfg dns mtu (m, d, s))"

section \<open>What the taps record\<close>

text \<open>The capture reads 256 bytes at most, so the copy is as good as the frame.\<close>

lemma take_prefix_le:
  assumes "length f = length g" "take 256 f = take 256 g"
  shows "length f \<le> 256 \<Longrightarrow> f = g"
  using assms by (metis take_all)

lemma pcap_record_prefix:
  assumes "length f = length g" "take 256 f = take 256 g"
  shows "pcap_record us f = pcap_record us g"
proof (cases "length g > 256")
  case True
  then show ?thesis using assms by (simp add: pcap_record_def Let_def)
next
  case False
  then show ?thesis using take_prefix_le [OF assms] assms(1) by simp
qed

lemma pcap_capture_prefix:
  assumes "length f = length g" "take 256 f = take 256 g"
  shows "pcap_capture us f c = pcap_capture us g c"
  unfolding pcap_capture_def pcap_record_prefix [OF assms] assms(1) by (rule refl)

lemma snap_prefix:
  assumes "length f \<le> 256 + length stack"
  shows "length (take (length f) (take (min (length f) 256) f @ stack)) = length f"
    "take 256 (take (length f) (take (min (length f) 256) f @ stack)) = take 256 f"
proof -
  show "length (take (length f) (take (min (length f) 256) f @ stack)) = length f"
    using assms by (cases "length f \<le> 256") simp_all
  show "take 256 (take (length f) (take (min (length f) 256) f @ stack)) = take 256 f"
  proof (cases "length f \<le> 256")
    case True
    then show ?thesis by (simp add: min_absorb1)
  next
    case False
    then have "min (length f) 256 = 256" "min 256 (length f) = 256" by simp_all
    then show ?thesis by (simp only: take_take take_append length_take) simp
  qed
qed

lemma tap_frame_is_capture:
  assumes "p \<noteq> []" "length (concat p) \<le> 256 + length stack"
  shows "tap_frame us stack p c = pcap_capture us (concat p) c"
proof (cases "length (hd p) = length (concat p)")
  case True
  have "concat p = hd p @ concat (tl p)" using assms(1) by (cases p) simp_all
  then have "hd p = concat p" using True by simp
  then show ?thesis using True by (simp add: tap_frame_def)
next
  case False
  then show ?thesis
    using pcap_capture_prefix [OF snap_prefix [OF assms(2)]] by (simp only: tap_frame_def Let_def if_False)
qed

section \<open>What the access point is and what its clients are told\<close>

text \<open>The interface, the DHCP scope and the taps fit the settings applied last, or the access point is down, has no address
  and its scope leases nothing.\<close>

definition ap_inv :: "dhcp \<Rightarrow> ap_mod \<Rightarrow> bool" where
  "ap_inv d s \<longleftrightarrow>
     (if ap_up s then
        (\<exists>c. ap c = applied s \<and> ap_enabled (ap c) \<noteq> 0 \<and> config_ap_complete c) \<and>
        ap_nif_addr s = ap_addr (applied s) \<and> ap_nif_mask s = bswap32 (prefix_mask (ap_prefix (applied s))) \<and>
        lease_mask (dhcp_ap d) = ap_nif_mask s \<and> in_tapped s \<and> out_tapped s \<and> nif (dhcp_ap d) = Some AP_NIF \<and>
        lease_addr (dhcp_ap d) = client_addr (applied s) \<and> lease_dns (dhcp_ap d) = applied_dns s \<and>
        lease_mtu (dhcp_ap d) = applied_mtu s \<and> \<not> lease_link_only (dhcp_ap d) \<and> lease_route_count (dhcp_ap d) = 0
      else ap_nif_addr s = 0 \<and> lease_addr (dhcp_ap d) = 0)"

lemma start_other_scope [simp]:
  "dhcp_usb (dhcp_server_start udp_ok Ap n ha px dns mtu rts k lo d) = dhcp_usb d"
  "dhcp_ap (dhcp_server_start udp_ok Usb n ha px dns mtu rts k lo d) = dhcp_ap d"
  by (simp_all add: dhcp_server_start_def Let_def)

lemma start_ap_scope:
  "dhcp_ap (dhcp_server_start udp_ok Ap n ha px dns mtu [] 0 lo d) =
     (dhcp_ap d)\<lparr>nif := Some n, lease_addr := ha,
        lease_mask := (if px \<noteq> 0 then bswap32 (prefix_mask px) else 0), lease_link_only := lo,
        lease_dns := (if lo then 0 else dns), lease_mtu := mtu, lease_route_count := 0, leased := False\<rparr>"
  by (simp add: dhcp_server_start_def Let_def prefix_mask_def)

lemma aemit_fields [simp]:
  "ap_up (aemit v s) = ap_up s" "applied (aemit v s) = applied s" "applied_dns (aemit v s) = applied_dns s"
  "applied_mtu (aemit v s) = applied_mtu s" "in_tapped (aemit v s) = in_tapped s" "out_tapped (aemit v s) = out_tapped s"
  "ap_nif_addr (aemit v s) = ap_nif_addr s" "ap_nif_mask (aemit v s) = ap_nif_mask s"
  "aevents (aemit v s) = aevents s @ [v]"
  by (simp_all add: aemit_def)

lemma limit_fields [simp]:
  "ap_up (ap_limit_to_one_sta s) = ap_up s" "applied (ap_limit_to_one_sta s) = applied s"
  "in_tapped (ap_limit_to_one_sta s) = in_tapped s" "out_tapped (ap_limit_to_one_sta s) = out_tapped s"
  "ap_nif_addr (ap_limit_to_one_sta s) = ap_nif_addr s"
  "aevents (ap_limit_to_one_sta s) = aevents s @ [A_ioctl 527 [109, 97, 120, 97, 115, 115, 111, 99, 0, 1, 0, 0, 0]]"
  by (simp_all add: ap_limit_to_one_sta_def ascii_def)

text \<open>The life of the access point as three cases.\<close>

definition ap_wanted :: "config \<Rightarrow> bool" where
  "ap_wanted cfg \<longleftrightarrow> ap_enabled (ap cfg) \<noteq> 0 \<and> config_ap_complete cfg"

definition ap_mtu :: "config \<Rightarrow> u16" where
  "ap_mtu cfg = (if host_mtu (wg cfg) \<noteq> 0 then host_mtu (wg cfg) else WIREGUARDIF_MTU)"

definition ap_same :: "config \<Rightarrow> ap_mod \<Rightarrow> bool" where
  "ap_same cfg s \<longleftrightarrow> ap_up s \<and> ap_wanted cfg \<and> applied s = ap cfg \<and> applied_dns s = wg_dns (wg cfg) \<and> applied_mtu s = ap_mtu cfg"

lemma ap_apply_same: "ap_same cfg s \<Longrightarrow> ap_apply udp_ok cfg (m, d, s) = (m, d, s)"
  by (simp add: ap_apply_def ap_same_def ap_wanted_def ap_mtu_def Let_def)

lemma ap_apply_changed:
  assumes "\<not> ap_same cfg s" "(d', s') = (if ap_up s then ap_teardown udp_ok (d, s) else (d, s))"
  shows "ap_apply udp_ok cfg (m, d, s) =
    (if ap_wanted cfg then ap_bring_up udp_ok cfg (wg_dns (wg cfg)) (ap_mtu cfg) (m, d', s') else (m, d', s'))"
  using assms(1) assms(2) [symmetric]
  by (cases "host_mtu (wg cfg) = 0") (auto simp: ap_apply_def ap_same_def ap_wanted_def ap_mtu_def)

lemma teardown_inv:
  assumes "(d', s') = ap_teardown udp_ok (d, s)"
  shows "ap_inv d' s'" "\<not> ap_up s'" "dhcp_usb d' = dhcp_usb d" "aevents s' = aevents s @ [A_disable, A_down]"
  using assms by (auto simp: ap_teardown_def ap_inv_def start_ap_scope)

lemma maybe_teardown:
  assumes "ap_inv d s" "(d', s') = (if ap_up s then ap_teardown udp_ok (d, s) else (d, s))"
  shows "ap_inv d' s'" "\<not> ap_up s'" "dhcp_usb d' = dhcp_usb d"
    "aevents s' = aevents s @ (if ap_up s then [A_disable, A_down] else [])"
  using assms teardown_inv [of d' s' udp_ok d s] by (auto split: if_splits)

lemma complete_prefix: "config_ap_complete c \<Longrightarrow> ap_prefix (ap c) \<noteq> 0"
  by (auto simp: config_ap_complete_def Let_def split: if_splits)

lemma bring_up:
  assumes "(m', d', s') = ap_bring_up udp_ok cfg dns mtu (m, d, s)" "ap_wanted cfg"
  shows "ap_inv d' s'" "ap_up s'" "applied s' = ap cfg" "applied_dns s' = dns" "applied_mtu s' = mtu"
    "dhcp_usb d' = dhcp_usb d" "netif_default m' = (case if wg_session_up m then wg_active_netif m else None of Some n \<Rightarrow> n | None \<Rightarrow> N_sta)"
    "m' = m\<lparr>netif_default := netif_default m'\<rparr>"
    "aevents s' = aevents s @ [A_enable (c_str (ap_ssid (ap cfg))) (c_str (ap_password (ap cfg))),
       A_ioctl 527 [109, 97, 120, 97, 115, 115, 111, 99, 0, 1, 0, 0, 0]]"
  using assms
  by (auto simp: ap_bring_up_def ap_inv_def ap_wanted_def Let_def start_ap_scope complete_prefix prefix_mask_def
      wg_session_up_def wg_active_netif_def)


lemma ap_apply_cases:
  assumes "(m', d', s') = ap_apply udp_ok cfg (m, d, s)" "ap_inv d s"
  shows "ap_inv d' s'" "ap_up s' \<longleftrightarrow> ap_wanted cfg" "dhcp_usb d' = dhcp_usb d"
    "ap_wanted cfg \<Longrightarrow> applied s' = ap cfg \<and> applied_dns s' = wg_dns (wg cfg) \<and> applied_mtu s' = ap_mtu cfg"
    "m' = m\<lparr>netif_default := netif_default m'\<rparr>"
    "netif_default m' = netif_default m \<or>
     netif_default m' = (case if wg_session_up m then wg_active_netif m else None of Some n \<Rightarrow> n | None \<Rightarrow> N_sta)"
    "ap_same cfg s \<Longrightarrow> aevents s' = aevents s"
    "\<not> ap_same cfg s \<Longrightarrow> aevents s' = aevents s @ (if ap_up s then [A_disable, A_down] else []) @
       (if ap_wanted cfg then [A_enable (c_str (ap_ssid (ap cfg))) (c_str (ap_password (ap cfg))),
          A_ioctl 527 [109, 97, 120, 97, 115, 115, 111, 99, 0, 1, 0, 0, 0]] else [])"
proof -
  let ?goal = "ap_inv d' s' \<and> (ap_up s' \<longleftrightarrow> ap_wanted cfg) \<and> dhcp_usb d' = dhcp_usb d \<and>
    (ap_wanted cfg \<longrightarrow> applied s' = ap cfg \<and> applied_dns s' = wg_dns (wg cfg) \<and> applied_mtu s' = ap_mtu cfg) \<and>
    m' = m\<lparr>netif_default := netif_default m'\<rparr> \<and>
    (netif_default m' = netif_default m \<or>
     netif_default m' = (case if wg_session_up m then wg_active_netif m else None of Some n \<Rightarrow> n | None \<Rightarrow> N_sta)) \<and>
    (ap_same cfg s \<longrightarrow> aevents s' = aevents s) \<and>
    (\<not> ap_same cfg s \<longrightarrow> aevents s' = aevents s @ (if ap_up s then [A_disable, A_down] else []) @
       (if ap_wanted cfg then [A_enable (c_str (ap_ssid (ap cfg))) (c_str (ap_password (ap cfg))),
          A_ioctl 527 [109, 97, 120, 97, 115, 115, 111, 99, 0, 1, 0, 0, 0]] else []))"
  have ?goal
  proof (cases "ap_same cfg s")
    case True
    then show ?thesis using assms ap_apply_same [OF True, of udp_ok m d] by (simp add: ap_same_def)
  next
    case no: False
    obtain d1 s1 where t: "(d1, s1) = (if ap_up s then ap_teardown udp_ok (d, s) else (d, s))" by (metis surj_pair)
    note mt = maybe_teardown [OF assms(2) t]
    note ch = ap_apply_changed [OF no t, of m]
    show ?thesis
    proof (cases "ap_wanted cfg")
      case True
      then have "(m', d', s') = ap_bring_up udp_ok cfg (wg_dns (wg cfg)) (ap_mtu cfg) (m, d1, s1)"
        using assms(1) ch by simp
      from bring_up [OF this True] show ?thesis using True no mt by simp
    next
      case False
      then show ?thesis using assms(1) ch no mt by simp
    qed
  qed
  then show "ap_inv d' s'" "ap_up s' \<longleftrightarrow> ap_wanted cfg" "dhcp_usb d' = dhcp_usb d"
    "ap_wanted cfg \<Longrightarrow> applied s' = ap cfg \<and> applied_dns s' = wg_dns (wg cfg) \<and> applied_mtu s' = ap_mtu cfg"
    "m' = m\<lparr>netif_default := netif_default m'\<rparr>"
    "netif_default m' = netif_default m \<or>
     netif_default m' = (case if wg_session_up m then wg_active_netif m else None of Some n \<Rightarrow> n | None \<Rightarrow> N_sta)"
    "ap_same cfg s \<Longrightarrow> aevents s' = aevents s"
    "\<not> ap_same cfg s \<Longrightarrow> aevents s' = aevents s @ (if ap_up s then [A_disable, A_down] else []) @
       (if ap_wanted cfg then [A_enable (c_str (ap_ssid (ap cfg))) (c_str (ap_password (ap cfg))),
          A_ioctl 527 [109, 97, 120, 97, 115, 115, 111, 99, 0, 1, 0, 0, 0]] else [])"
    by blast+
qed

lemma ap_apply_wg_inv:
  assumes "(m', d', s') = ap_apply udp_ok cfg (m, d, s)" "ap_inv d s" "wg_inv m"
  shows "wg_inv m'"
proof -
  have "netif_default m' = N_wg \<longleftrightarrow> wg_state m = WG_UP"
    using ap_apply_cases(6) [OF assms(1,2)] assms(3)
    by (auto simp: wg_inv_def wg_session_up_def wg_active_netif_def)
  then have "wg_inv (m\<lparr>netif_default := netif_default m'\<rparr>)" using assms(3) by (auto simp: wg_inv_def)
  then show ?thesis using ap_apply_cases(5) [OF assms(1,2)] by simp
qed

lemma ap_apply_again:
  assumes "(m', d', s') = ap_apply udp_ok cfg (m, d, s)" "ap_inv d s"
  shows "ap_apply udp_ok' cfg (m1, d', s') = (m1, d', s')"
proof (cases "ap_wanted cfg")
  case True
  then have "ap_same cfg s'" using ap_apply_cases(2,4) [OF assms] by (simp add: ap_same_def)
  then show ?thesis by (rule ap_apply_same)
next
  case False
  then have "\<not> ap_up s'" "\<not> ap_same cfg s'" using ap_apply_cases(2) [OF assms] by (simp_all add: ap_same_def)
  then show ?thesis using False ap_apply_changed [of cfg s' d' s' udp_ok' d' m1] by simp
qed

text \<open>Filling in checksums changes no length.\<close>

lemma fill_l4_length: "fill_l4 a f ip ihl n s k u = Some ip' \<Longrightarrow> length ip' = length ip"
  by (auto simp: fill_l4_def Let_def split: option.splits bool.splits if_splits)

lemma fix_body_length: "fix_body a f ip ihl tot = Some ip' \<Longrightarrow> length ip' = length ip"
  by (auto simp: fix_body_def Let_def dest!: fill_l4_length split: option.splits if_splits)

lemma eth_csum_restore_length:
  assumes "eth_csum_restore p = Some p'"
  shows "length (concat p') = length (concat p)"
  using assms
  by (auto simp: eth_csum_restore_def Let_def dest!: fix_body_length split: list.splits if_splits)

section \<open>Properties\<close>

text \<open>Property C31. Applying settings settles the access point: it is up exactly if it is enabled and its settings are complete (so
  never without a passphrase); then its interface, its taps and the lease its client gets fit those settings and the tunnel's
  DNS and MTU, else it has no address and leases nothing; the USB host's lease is as before; the tunnel's invariant holds and the
  access point is not the default route, although the driver makes it that; and applying the same settings again changes
  nothing and does not touch the radio.\<close>

theorem ap_apply_settles:
  assumes "ap_inv d s" "wg_inv m" "netif_default m \<noteq> N_ap" "(m', d', s') = ap_apply udp_ok cfg (m, d, s)"
  shows "ap_inv d' s' \<and> (ap_up s' \<longleftrightarrow> ap_enabled (ap cfg) \<noteq> 0 \<and> config_ap_complete cfg) \<and>
    (ap_up s' \<longrightarrow> applied s' = ap cfg \<and> lease_addr (dhcp_ap d') = client_addr (ap cfg) \<and>
       lease_dns (dhcp_ap d') = wg_dns (wg cfg) \<and> ap_nif_addr s' = ap_addr (ap cfg)) \<and>
    dhcp_usb d' = dhcp_usb d \<and> wg_inv m' \<and> netif_default m' \<noteq> N_ap \<and>
    ap_apply udp_ok' cfg (m', d', s') = (m', d', s')"
proof -
  note c = ap_apply_cases [OF assms(4,1)]
  have "netif_default m' \<noteq> N_ap"
    using c(6) assms(3) by (cases "wg_session_up m"; cases "wg_netif_added m") (auto simp: wg_active_netif_def)
  then show ?thesis
    using c ap_apply_wg_inv [OF assms(4,1,2)] ap_apply_again [OF assms(4,1)]
    by (auto simp: ap_wanted_def ap_inv_def)
qed

definition sample_ap :: ap_config where
  "sample_ap = \<lparr>ap_addr = 0x0100000A, client_addr = 0x0200000A, ap_prefix = 30, ap_enabled = 1, ap_ssid = ''mole'',
     ap_password = ''tunnel-only'', ap_pad = [0]\<rparr>"

definition sample_ap_cfg :: config where
  "sample_ap_cfg = \<lparr>magic = 0, profile_count = 0, active = 0, debug_enabled = 0, c_pad = 0, country = 0, profiles = [],
     wg = zero_wg, ap = sample_ap, crc32_field = 0\<rparr>"

definition no_lease :: dhcp_server where
  "no_lease = \<lparr>nif = None, lease_addr = 0, lease_mask = 0, lease_dns = 0, lease_mtu = 0, lease_routes = replicate 4 zero_route,
     lease_route_count = 0, lease_link_only = False, leased = False\<rparr>"

definition dhcp_boot :: dhcp where
  "dhcp_boot = \<lparr>dhcp_usb = no_lease, dhcp_ap = no_lease, pcb = False\<rparr>"

lemma sample_ap_complete: "config_ap_complete sample_ap_cfg"
  by (simp add: config_ap_complete_def sample_ap_cfg_def sample_ap_def c_str_def prefix_mask_def Let_def)
    code_simp

lemma ap_boot_inv: "ap_inv dhcp_boot ap_boot"
  by (simp add: ap_inv_def ap_boot_def dhcp_boot_def no_lease_def)

lemma wg_boot_inv: "wg_inv (wg_boot n napt_boot w)"
  by (rule wg_reachable_inv, rule wg_reachable.Boot)

theorem ap_apply_settles_witness:
  "ap_up (snd (snd (ap_apply True sample_ap_cfg (wg_boot demo_nif napt_boot zero_wg, dhcp_boot, ap_boot))))"
proof -
  obtain m' d' s' where r: "(m', d', s') = ap_apply True sample_ap_cfg (wg_boot demo_nif napt_boot zero_wg, dhcp_boot, ap_boot)"
    by (metis surj_pair)
  have "netif_default (wg_boot demo_nif napt_boot zero_wg) \<noteq> N_ap" by (simp add: wg_boot_def)
  from ap_apply_settles [OF ap_boot_inv wg_boot_inv this r, of True] have "ap_up s'"
    using sample_ap_complete by (simp add: sample_ap_cfg_def sample_ap_def)
  then show ?thesis by (simp add: r [symmetric])
qed

text \<open>The capture shows what the contained device does: while the ring captures, a frame that came in over the air, however
  many buffers it is in, is recorded whole (to the capture's 256 bytes) as the newest record and passed on unchanged; a frame that goes out is
  recorded as it is sent, its checksums filled in.\<close>

theorem ap_taps_record:
  assumes "pcap_ok c" "enabled c" "\<not> paused c" "concat p \<noteq> []" "length (concat p) \<le> 256 + length stack"
  shows "(\<exists>k. captured (fst (ap_input_tap us stack p c s)) = drop k (captured c) @ [pcap_record us (concat p)]) \<and>
    aevents (snd (ap_input_tap us stack p c s)) = aevents s @ [A_input (concat p)] \<and>
    (\<forall>p'. eth_csum_restore p = Some p' \<longrightarrow>
       (\<exists>k c' s'. ap_linkoutput_tap us stack p c s = Some (c', s') \<and>
          captured c' = drop k (captured c) @ [pcap_record us (concat p')] \<and> aevents s' = aevents s @ [A_output (concat p')]))"
proof (intro conjI allI impI)
  have c: "capturing c" using assms(1-3) by (simp add: capturing_def)
  have recd: "\<exists>k. captured (tap_frame us stack q c) = drop k (captured c) @ [pcap_record us (concat q)]"
    if "length (concat q) = length (concat p)" for q
  proof -
    have ne: "concat q \<noteq> []" using that assms(4) by (metis length_0_conv)
    then have "q \<noteq> []" by auto
    then have "tap_frame us stack q c = pcap_capture us (concat q) c"
      using assms(5) that by (intro tap_frame_is_capture) simp_all
    then show ?thesis using pcap_capture_step [OF c ne, of us] by metis
  qed
  show "\<exists>k. captured (fst (ap_input_tap us stack p c s)) = drop k (captured c) @ [pcap_record us (concat p)]"
    using recd [of p] by (simp add: ap_input_tap_def)
  show "aevents (snd (ap_input_tap us stack p c s)) = aevents s @ [A_input (concat p)]" by (simp add: ap_input_tap_def)
  fix p' assume p': "eth_csum_restore p = Some p'"
  then show "\<exists>k c' s'. ap_linkoutput_tap us stack p c s = Some (c', s') \<and>
          captured c' = drop k (captured c) @ [pcap_record us (concat p')] \<and> aevents s' = aevents s @ [A_output (concat p')]"
    using recd [OF eth_csum_restore_length [OF p']] by (auto simp: ap_linkoutput_tap_def)
qed

text \<open>A frame in two buffers.\<close>

theorem ap_taps_record_witness:
  "\<exists>k. captured (fst (ap_input_tap 7 [] [[1, 2], [3]] (pcap_set_enabled True pcap_boot) ap_boot)) =
     drop k [] @ [pcap_record 7 [1, 2, 3]]"
  using ap_taps_record [of "pcap_set_enabled True pcap_boot" "[[1, 2], [3]]" "[]" 7 ap_boot] capturing_boot
  by (simp add: capturing_def captured_boot)

end
