(* ===== verification/Serial_Console.thy ===== *)
theory Serial_Console
  imports Config_Proto Serial_Bridge
begin

text \<open>
  The two consoles on USB serial ports. \<^verbatim>\<open>src/serial_console.c\<close>: the management console, which edits a line and hands it to
  the configuration protocol; \<^verbatim>\<open>src/debug_console.c\<close>: the debug console, which only prints. The statics of the two files are the
  records \<open>mgmt\<close> and \<open>dbg\<close>; the protocol's own state is a field of the first.

  TinyUSB runs in the main loop, between the tasks, so while a task runs the connection is constant and what it can read is a
  given text. A write is answered by how many bytes there is room for, for the \<open>k\<close>-th write by \<open>room k\<close>; the protocol's
  \<open>k\<close>-th call gets the environment \<open>env k\<close>. Shown: what a terminal receives is the text with its line ends expanded; the lines
  typed, edited, are what the protocol is called with; and whatever is typed, the line fits its buffer and the settings stay valid.
\<close>

section \<open>State\<close>

abbreviation CONSOLE_ITF :: nat where "CONSOLE_ITF \<equiv> 0"
abbreviation DEBUG_ITF :: nat where "DEBUG_ITF \<equiv> 1"
abbreviation SERIAL_BRIDGE_ITF :: nat where "SERIAL_BRIDGE_ITF \<equiv> 2"
abbreviation LINE_BUF_SIZE :: nat where "LINE_BUF_SIZE \<equiv> 192"

abbreviation CR :: char where "CR \<equiv> CHR 0x0D"
abbreviation LF :: char where "LF \<equiv> CHR 0x0A"
abbreviation BS :: char where "BS \<equiv> CHR 0x08"
abbreviation DEL :: char where "DEL \<equiv> CHR 0x7F"

record cdc_port =
  sent :: string
  writes :: nat \<comment> \<open>how often \<^verbatim>\<open>tud_cdc_n_write\<close> was called\<close>

record mgmt =
  line_buf :: string
  line_len :: nat
  was_connected :: bool
  banner_sent :: bool
  port :: cdc_port
  calls :: nat \<comment> \<open>of the protocol\<close>
  proto :: console

record dbg =
  d_banner_sent :: bool
  d_port :: cdc_port

record cdc_world =
  connected :: bool
  room :: "nat \<Rightarrow> nat"
  env :: "nat \<Rightarrow> cp_env"

section \<open>Output\<close>

fun put_loop :: "(nat \<Rightarrow> nat) \<Rightarrow> nat \<Rightarrow> string \<Rightarrow> cdc_port \<Rightarrow> cdc_port" where
  "put_loop r 0 buf p = p"
| "put_loop r (Suc tries) buf p =
     (if buf = [] then p
      else let w = min (r (writes p)) (length buf)
           in put_loop r tries (drop w buf) (p\<lparr>sent := sent p @ take w buf, writes := writes p + 1\<rparr>))"

definition cdc_put :: "(nat \<Rightarrow> nat) \<Rightarrow> string \<Rightarrow> cdc_port \<Rightarrow> cdc_port" where
  "cdc_put r buf p = put_loop r 16 buf p"

definition console_put :: "cdc_world \<Rightarrow> string \<Rightarrow> mgmt \<Rightarrow> mgmt" where
  "console_put w buf s = s\<lparr>port := cdc_put (room w) buf (port s)\<rparr>"

text \<open>The loop of \<open>console_emit\<close>: the rest of the text and the chunk \<open>out\<close>, an array of 256.\<close>

fun emit_loop :: "cdc_world \<Rightarrow> string \<Rightarrow> string \<Rightarrow> mgmt \<Rightarrow> mgmt" where
  "emit_loop w [] chunk s = (if chunk \<noteq> [] then console_put w chunk s else s)"
| "emit_loop w (c # cs) chunk s =
     (let (chunk, s) = (if length chunk \<ge> 256 - 2 then ([], console_put w chunk s) else (chunk, s));
          chunk = (if c = LF then chunk @ [CR] else chunk)
      in emit_loop w cs (chunk @ [c]) s)"

definition console_emit :: "cdc_world \<Rightarrow> string \<Rightarrow> mgmt \<Rightarrow> mgmt" where
  "console_emit w t s = (if \<not> connected w then s else emit_loop w (c_str t) [] s)"

definition console_banner :: "cdc_world \<Rightarrow> mgmt \<Rightarrow> mgmt" where
  "console_banner w s =
     (console_put w ([CR, LF] @ ''molewire '' @ FW_VERSION (env w 0) @
        '' -- WireGuard USB dongle configuration console'' @ [CR, LF] @
        ''params: ssid pass country debug key peer psk endpoint addr hostip dns '' @
        ''keepalive mtu routes apssid appass apaddr apclient ap (set <param> <val>); '' @
        ''genkey pubkey pcap list join use del scan save restore reboot bootsel; '' @
        ''Enter for status'' @ [CR, LF]) s)\<lparr>banner_sent := True\<rparr>"

definition serial_console_print :: "cdc_world \<Rightarrow> string \<Rightarrow> mgmt \<Rightarrow> mgmt" where
  "serial_console_print w t s = console_emit w t s"

text \<open>\<open>t\<close> is the formatted text before it is cut.\<close>

definition serial_console_printf :: "cdc_world \<Rightarrow> string \<Rightarrow> mgmt \<Rightarrow> mgmt" where
  "serial_console_printf w t s = console_emit w (snprintf 200 t) s"

text \<open>A call of the protocol with this console as its output.\<close>

fun texts :: "cp_event list \<Rightarrow> string list" where
  "texts [] = []"
| "texts (E_out t # es) = t # texts es"
| "texts (e # es) = texts es"

definition proto_call :: "cdc_world \<Rightarrow> (cp_env \<Rightarrow> console \<Rightarrow> console) \<Rightarrow> mgmt \<Rightarrow> mgmt" where
  "proto_call w f s =
     (let p = f (env w (calls s)) (proto s)
      in fold (console_emit w) (texts (drop (length (events (proto s))) (events p)))
           (s\<lparr>proto := p, calls := calls s + 1\<rparr>))"

definition console_prompt :: "cdc_world \<Rightarrow> mgmt \<Rightarrow> mgmt" where
  "console_prompt w s = console_emit w (config_proto_prompt (proto s)) s"

section \<open>The task\<close>

definition serial_console_init :: "mgmt \<Rightarrow> mgmt" where
  "serial_console_init s = s\<lparr>line_len := 0, was_connected := False\<rparr>"

text \<open>A byte typed. The protocol also writes into the line it is given; \<open>line_len\<close> is reset, so that is not seen again.\<close>

definition typable :: "char \<Rightarrow> bool" where
  "typable ch \<longleftrightarrow> 0x20 \<le> (of_char ch :: nat) \<and> (of_char ch :: nat) < 0x7F"

definition console_key :: "cdc_world \<Rightarrow> char \<Rightarrow> mgmt \<Rightarrow> mgmt" where
  "console_key w ch s =
     (if ch = LF \<or> ch = CR then
        let s = console_put w [CR, LF] s; s = s\<lparr>line_buf := (line_buf s)[line_len s := NUL]\<rparr>;
            s = proto_call w (\<lambda>e. config_proto_handle_line e (c_str (line_buf s))) s
        in (console_prompt w s)\<lparr>line_len := 0\<rparr>
      else if ch = BS \<or> ch = DEL then
        (if line_len s > 0 then console_put w [BS, CHR '' '', BS] (s\<lparr>line_len := line_len s - 1\<rparr>) else s)
      else if typable ch \<and> line_len s < LINE_BUF_SIZE - 1 then
        console_put w [ch] (s\<lparr>line_buf := (line_buf s)[line_len s := ch], line_len := line_len s + 1\<rparr>)
      else s)"

definition greet :: "cdc_world \<Rightarrow> mgmt \<Rightarrow> mgmt" where
  "greet w s =
     (if connected w \<and> \<not> was_connected s then
        let s = s\<lparr>proto := config_proto_reset (proto s)\<rparr>; s = proto_call w config_proto_dump s
        in (console_prompt w s)\<lparr>line_len := 0\<rparr>
      else if \<not> connected w \<and> was_connected s then s\<lparr>proto := config_proto_reset (proto s), banner_sent := False\<rparr>
      else s)\<lparr>was_connected := connected w\<rparr>"

definition task_prologue :: "cdc_world \<Rightarrow> string \<Rightarrow> mgmt \<Rightarrow> mgmt" where
  "task_prologue w inp s =
     (let s = greet w s; s = (if \<not> banner_sent s \<and> inp \<noteq> [] then console_banner w s else s)
      in if connected w \<and> config_proto_scanning (proto s) then proto_call w config_proto_poll s else s)"

definition serial_console_task :: "cdc_world \<Rightarrow> string \<Rightarrow> mgmt \<Rightarrow> mgmt" where
  "serial_console_task w inp s =
     (let s = task_prologue w inp s
      in if config_proto_contscan_active (proto s) then
           (if inp \<noteq> [] then (console_prompt w (proto_call w config_proto_contscan_stop s))\<lparr>line_len := 0\<rparr> else s)
         else fold (console_key w) inp s)"

section \<open>The debug console\<close>

text \<open>The loop that expands line ends into an array of 384.\<close>

fun crlf_fill :: "string \<Rightarrow> string \<Rightarrow> string" where
  "crlf_fill [] chunk = chunk"
| "crlf_fill (c # cs) chunk =
     (if length chunk < 384 - 2 then crlf_fill cs ((if c = LF then chunk @ [CR] else chunk) @ [c]) else chunk)"

definition debug_printf :: "cdc_world \<Rightarrow> string \<Rightarrow> dbg \<Rightarrow> dbg" where
  "debug_printf w t d =
     (if \<not> connected w \<or> t = [] then d
      else d\<lparr>d_port := cdc_put (room w) (crlf_fill (c_str (snprintf 320 t)) []) (d_port d)\<rparr>)"

definition debug_banner :: "cdc_world \<Rightarrow> dbg \<Rightarrow> dbg" where
  "debug_banner w d =
     d\<lparr>d_port := cdc_put (room w) ([CR, LF] @ ''molewire '' @ FW_VERSION (env w 0) @
         '' -- debug console (read-only diagnostics stream; '' @
         ''configuration is on the other CDC port)'' @ [CR, LF]) (d_port d), d_banner_sent := True\<rparr>"

definition debug_console_line_state :: "cdc_world \<Rightarrow> nat \<Rightarrow> bool \<Rightarrow> bool \<Rightarrow> dbg \<Rightarrow> dbg" where
  "debug_console_line_state w itf dtr rts d =
     (if itf \<noteq> DEBUG_ITF then d
      else if \<not> dtr \<and> \<not> rts then d\<lparr>d_banner_sent := False\<rparr>
      else if \<not> d_banner_sent d then debug_banner w d else d)"

text \<open>What the host sends is thrown away.\<close>

definition debug_console_task :: "cdc_world \<Rightarrow> string \<Rightarrow> dbg \<Rightarrow> dbg" where
  "debug_console_task w inp d = (if \<not> d_banner_sent d \<and> inp \<noteq> [] then debug_banner w d else d)"

section \<open>TinyUSB's callbacks for the ports\<close>

definition tud_cdc_line_state_cb :: "cdc_world \<Rightarrow> nat \<Rightarrow> bool \<Rightarrow> bool \<Rightarrow> mgmt \<times> dbg \<Rightarrow> mgmt \<times> dbg" where
  "tud_cdc_line_state_cb w itf dtr rts sd =
     (case sd of (s, d) \<Rightarrow>
        if itf \<noteq> CONSOLE_ITF then (s, debug_console_line_state w itf dtr rts d)
        else if \<not> dtr \<and> \<not> rts then (s\<lparr>banner_sent := False\<rparr>, d)
        else if \<not> banner_sent s then (console_banner w s, d) else (s, d))"

text \<open>The flag is whether the device leaves for the bootloader.\<close>

definition tud_cdc_line_coding_cb :: "nat \<Rightarrow> u32 \<Rightarrow> u8 \<Rightarrow> u8 \<Rightarrow> u8 \<Rightarrow> bridge \<Rightarrow> bool \<times> bridge" where
  "tud_cdc_line_coding_cb itf bit_rate data_bits par stop_bits b =
     (if itf = SERIAL_BRIDGE_ITF then (False, serial_bridge_apply_coding bit_rate data_bits par stop_bits b)
      else (bit_rate = 1200, b))"

section \<open>What is sent\<close>

definition crlf :: "string \<Rightarrow> string" where
  "crlf t = concat (map (\<lambda>c. if c = LF then [CR, LF] else [c]) t)"

lemma crlf_simps [simp]: "crlf [] = []" "crlf (c # cs) = (if c = LF then [CR, LF] else [c]) @ crlf cs"
  by (simp_all add: crlf_def)

definition roomy :: "cdc_world \<Rightarrow> bool" where
  "roomy w \<longleftrightarrow> (\<forall>k. 16 \<le> room w k)"

lemma put_loop_all:
  assumes "\<And>k. 16 \<le> r k"
  shows "length buf \<le> 16 * n \<Longrightarrow> sent (put_loop r n buf p) = sent p @ buf"
proof (induction n arbitrary: buf p)
  case (Suc n)
  let ?w = "min (r (writes p)) (length buf)"
  have "length (drop ?w buf) \<le> 16 * n" using Suc.prems assms [of "writes p"] by auto
  from Suc.IH [OF this] show ?case by (simp add: Let_def)
qed simp

lemma console_put_all: "roomy w \<Longrightarrow> length buf \<le> 256 \<Longrightarrow> sent (port (console_put w buf s)) = sent (port s) @ buf"
  by (simp add: console_put_def cdc_put_def roomy_def put_loop_all)

lemma console_put_frame [simp]:
  "line_buf (console_put w b s) = line_buf s" "line_len (console_put w b s) = line_len s"
  "was_connected (console_put w b s) = was_connected s" "banner_sent (console_put w b s) = banner_sent s"
  "calls (console_put w b s) = calls s" "proto (console_put w b s) = proto s"
  by (simp_all add: console_put_def)

lemma emit_loop_frame [simp]:
  "line_buf (emit_loop w t b s) = line_buf s" "line_len (emit_loop w t b s) = line_len s"
  "was_connected (emit_loop w t b s) = was_connected s" "banner_sent (emit_loop w t b s) = banner_sent s"
  "calls (emit_loop w t b s) = calls s" "proto (emit_loop w t b s) = proto s"
  by (induction w t b s rule: emit_loop.induct) (simp_all add: Let_def split: prod.split)

lemma console_emit_frame [simp]:
  "line_buf (console_emit w t s) = line_buf s" "line_len (console_emit w t s) = line_len s"
  "was_connected (console_emit w t s) = was_connected s" "banner_sent (console_emit w t s) = banner_sent s"
  "calls (console_emit w t s) = calls s" "proto (console_emit w t s) = proto s"
  by (simp_all add: console_emit_def)

lemma fold_emit_frame [simp]:
  "line_buf (fold (console_emit w) ts s) = line_buf s" "line_len (fold (console_emit w) ts s) = line_len s"
  "was_connected (fold (console_emit w) ts s) = was_connected s" "banner_sent (fold (console_emit w) ts s) = banner_sent s"
  "calls (fold (console_emit w) ts s) = calls s" "proto (fold (console_emit w) ts s) = proto s"
  by (induction ts arbitrary: s) simp_all

lemma proto_call_frame [simp]:
  "line_buf (proto_call w f s) = line_buf s" "line_len (proto_call w f s) = line_len s"
  "was_connected (proto_call w f s) = was_connected s" "banner_sent (proto_call w f s) = banner_sent s"
  "calls (proto_call w f s) = calls s + 1" "proto (proto_call w f s) = f (env w (calls s)) (proto s)"
  by (simp_all add: proto_call_def Let_def)

lemma console_prompt_frame [simp]:
  "line_buf (console_prompt w s) = line_buf s" "line_len (console_prompt w s) = line_len s"
  "was_connected (console_prompt w s) = was_connected s" "banner_sent (console_prompt w s) = banner_sent s"
  "calls (console_prompt w s) = calls s" "proto (console_prompt w s) = proto s"
  by (simp_all add: console_prompt_def)

lemma console_banner_frame [simp]:
  "line_buf (console_banner w s) = line_buf s" "line_len (console_banner w s) = line_len s"
  "calls (console_banner w s) = calls s" "proto (console_banner w s) = proto s"
  by (simp_all add: console_banner_def)

lemma emit_loop_all:
  assumes "roomy w"
  shows "length b \<le> 255 \<Longrightarrow> sent (port (emit_loop w t b s)) = sent (port s) @ b @ crlf t"
proof (induction t arbitrary: b s)
  case Nil
  then show ?case using console_put_all [OF assms, of b s] by simp
next
  case (Cons c cs)
  define b' where "b' = (if c = LF then [CR, LF] else [c])"
  have b': "length b' \<le> 2" by (simp add: b'_def)
  show ?case
  proof (cases "length b \<ge> 254")
    case True
    then have "emit_loop w (c # cs) b s = emit_loop w cs b' (console_put w b s)"
      by (simp add: b'_def)
    moreover have "sent (port (console_put w b s)) = sent (port s) @ b" using console_put_all [OF assms] Cons.prems by simp
    ultimately show ?thesis using Cons.IH [of b' "console_put w b s"] b' by (simp add: b'_def)
  next
    case False
    then have "emit_loop w (c # cs) b s = emit_loop w cs (b @ b') s"
      by (simp add: b'_def)
    moreover have "length (b @ b') \<le> 255" using False b' by simp
    ultimately show ?thesis using Cons.IH [of "b @ b'" s] by (simp add: b'_def)
  qed
qed

lemma console_emit_all:
  "roomy w \<Longrightarrow> connected w \<Longrightarrow> sent (port (console_emit w t s)) = sent (port s) @ crlf (c_str t)"
  by (simp add: console_emit_def emit_loop_all)

lemma fold_emit_all:
  "roomy w \<Longrightarrow> connected w \<Longrightarrow>
   sent (port (fold (console_emit w) ts s)) = sent (port s) @ crlf (concat (map c_str ts))"
  by (induction ts arbitrary: s) (simp_all add: console_emit_all crlf_def)

section \<open>The line editor\<close>

text \<open>Typing, as a user sees it: the lines entered and the line begun.\<close>

fun typed :: "string \<Rightarrow> string \<Rightarrow> string list \<times> string" where
  "typed l [] = ([], l)"
| "typed l (c # cs) =
     (if c = LF \<or> c = CR then (case typed [] cs of (ls, rest) \<Rightarrow> (l # ls, rest))
      else if c = BS \<or> c = DEL then typed (butlast l) cs
      else if typable c \<and> length l < LINE_BUF_SIZE - 1 then typed (l @ [c]) cs
      else typed l cs)"

definition begun :: "mgmt \<Rightarrow> string" where
  "begun s = take (line_len s) (line_buf s)"

definition line_ok :: "mgmt \<Rightarrow> bool" where
  "line_ok s \<longleftrightarrow> length (line_buf s) = LINE_BUF_SIZE \<and> line_len s < LINE_BUF_SIZE \<and> list_all typable (begun s)"

lemma not_typable_NUL: "\<not> typable NUL"
  by (simp add: typable_def)

lemma typable_NUL: "list_all typable l \<Longrightarrow> NUL \<notin> set l"
  using not_typable_NUL by (auto simp: list_all_iff)

lemma typed_typable:
  "list_all typable l \<Longrightarrow> list_all typable (snd (typed l cs)) \<and> list_all (list_all typable) (fst (typed l cs))"
proof (induction l cs rule: typed.induct)
  case (2 l c cs)
  have "list_all typable (butlast l)" using "2.prems" by (auto simp: list_all_iff dest: in_set_butlastD)
  then show ?case using 2 by (cases "c = LF \<or> c = CR"; cases "c = BS \<or> c = DEL") (auto split: prod.split)
qed simp

lemma line_text:
  assumes "line_ok s"
  shows "c_str ((line_buf s)[line_len s := NUL]) = begun s"
proof -
  have "(line_buf s)[line_len s := NUL] = begun s @ NUL # drop (Suc (line_len s)) (line_buf s)"
    using assms by (simp add: line_ok_def begun_def upd_conv_take_nth_drop)
  moreover have "NUL \<notin> set (begun s)" using assms by (simp add: line_ok_def typable_NUL)
  ultimately show ?thesis by (auto simp: c_str_def takeWhile_append)
qed

text \<open>The calls of the protocol for a list of lines.\<close>

definition line_calls :: "cdc_world \<Rightarrow> nat \<Rightarrow> string list \<Rightarrow> (cp_env \<times> cp_action) list" where
  "line_calls w k ls = map (\<lambda>(i, l). (env w i, A_line l)) (enumerate k ls)"

lemma key_enter:
  assumes "line_ok s" "ch = LF \<or> ch = CR"
  shows "line_ok (console_key w ch s)" "begun (console_key w ch s) = []" "calls (console_key w ch s) = calls s + 1"
    "proto (console_key w ch s) = config_proto_handle_line (env w (calls s)) (begun s) (proto s)"
  using assms line_text [OF assms(1)] by (auto simp: console_key_def Let_def line_ok_def begun_def)

lemma key_other:
  assumes "line_ok s" "\<not> (ch = LF \<or> ch = CR)"
  shows "line_ok (console_key w ch s)" "calls (console_key w ch s) = calls s" "proto (console_key w ch s) = proto s"
    "begun (console_key w ch s) =
       (if ch = BS \<or> ch = DEL then butlast (begun s)
        else if typable ch \<and> length (begun s) < LINE_BUF_SIZE - 1 then begun s @ [ch] else begun s)"
proof -
  have l: "length (line_buf s) = 192" "line_len s < 192" "list_all typable (begun s)" "length (begun s) = line_len s"
    using assms(1) by (auto simp: line_ok_def begun_def)
  have bl: "take (line_len s - 1) (line_buf s) = butlast (begun s)"
    using l by (simp add: begun_def butlast_take)
  have ap: "take (Suc (line_len s)) ((line_buf s)[line_len s := ch]) = begun s @ [ch]"
    using l by (simp add: begun_def take_Suc_conv_app_nth)
  show "calls (console_key w ch s) = calls s" "proto (console_key w ch s) = proto s"
    using assms(2) by (simp_all add: console_key_def Let_def)
  show b: "begun (console_key w ch s) =
       (if ch = BS \<or> ch = DEL then butlast (begun s)
        else if typable ch \<and> length (begun s) < LINE_BUF_SIZE - 1 then begun s @ [ch] else begun s)"
    using assms(2) l bl ap by (auto simp: console_key_def begun_def)
  have "list_all typable (butlast (begun s))" using l(3) by (auto simp: list_all_iff dest: in_set_butlastD)
  then have "list_all typable (begun (console_key w ch s))" using l(3) by (simp add: b)
  moreover have "length (line_buf (console_key w ch s)) = 192" "line_len (console_key w ch s) < 192"
    using assms(2) l by (auto simp: console_key_def)
  ultimately show "line_ok (console_key w ch s)" by (simp add: line_ok_def)
qed

lemma keys_refine:
  assumes "line_ok s"
  shows "line_ok (fold (console_key w) cs s) \<and> begun (fold (console_key w) cs s) = snd (typed (begun s) cs) \<and>
    proto (fold (console_key w) cs s) = cp_run (line_calls w (calls s) (fst (typed (begun s) cs))) (proto s)"
  using assms
proof (induction cs arbitrary: s)
  case Nil
  then show ?case by (simp add: cp_run_def line_calls_def)
next
  case (Cons c cs)
  show ?case
  proof (cases "c = LF \<or> c = CR")
    case True
    note e = key_enter [OF Cons.prems True, of w]
    show ?thesis using Cons.IH [OF e(1)] True e(2-4)
      by (simp add: cp_run_def line_calls_def cp_step_def split: prod.split)
  next
    case False
    note o' = key_other [OF Cons.prems False, of w]
    show ?thesis using Cons.IH [OF o'(1)] False o'(2-4) by simp
  qed
qed

section \<open>The task keeps the line and the settings\<close>

definition mgmt_ok :: "wifi_build \<Rightarrow> mgmt \<Rightarrow> bool" where
  "mgmt_ok B s \<longleftrightarrow> line_ok s \<and> console_ok B (proto s)"

definition world_ok :: "wifi_build \<Rightarrow> cdc_world \<Rightarrow> bool" where
  "world_ok B w \<longleftrightarrow> (\<forall>k. env_ok B (env w k))"

lemma line_calls_ok:
  "world_ok B w \<Longrightarrow> list_all (list_all typable) ls \<Longrightarrow> list_all (action_ok B) (line_calls w k ls)"
  by (induction ls arbitrary: k) (auto simp: line_calls_def action_ok_def world_ok_def typable_NUL)

lemma keys_ok:
  assumes "mgmt_ok B s" "world_ok B w"
  shows "mgmt_ok B (fold (console_key w) cs s)"
proof -
  have l: "line_ok s" "console_ok B (proto s)" "list_all typable (begun s)" using assms(1) by (simp_all add: mgmt_ok_def line_ok_def)
  have "list_all (action_ok B) (line_calls w (calls s) (fst (typed (begun s) cs)))"
    using typed_typable [OF l(3)] line_calls_ok [OF assms(2)] by blast
  then show ?thesis using keys_refine [OF l(1), of w cs] cp_run_ok [OF l(2)] by (simp add: mgmt_ok_def)
qed

lemma line_ok_frame:
  "line_buf s' = line_buf s \<Longrightarrow> line_len s' = line_len s \<or> line_len s' = 0 \<Longrightarrow> line_ok s \<Longrightarrow> line_ok s'"
  by (auto simp: line_ok_def begun_def)

lemma reset_ok: "console_ok B p \<Longrightarrow> console_ok B (config_proto_reset p)"
  using cp_step_ok [of B p "(sample_cp_env, A_reset)"] by (auto simp: config_proto_reset_def Let_def console_ok_def)

lemma greet_fields:
  "line_buf (greet w s) = line_buf s" "line_len (greet w s) = line_len s \<or> line_len (greet w s) = 0"
  "proto (greet w s) =
     (if connected w \<and> \<not> was_connected s then config_proto_dump (env w (calls s)) (config_proto_reset (proto s))
      else if \<not> connected w \<and> was_connected s then config_proto_reset (proto s) else proto s)"
  by (simp_all add: greet_def Let_def)

lemma greet_ok:
  assumes "mgmt_ok B s"
  shows "mgmt_ok B (greet w s)"
proof -
  have r: "console_ok B (config_proto_reset (proto s))" using assms by (simp add: mgmt_ok_def reset_ok)
  then have "console_ok B (config_proto_dump e (config_proto_reset (proto s)))" for e by (auto intro: console_ok_frame)
  then show ?thesis
    using r assms greet_fields(1,2) [of w s] line_ok_frame [of "greet w s" s] by (simp add: mgmt_ok_def greet_fields(3))
qed

lemma stop_ok: "console_ok B p \<Longrightarrow> console_ok B (config_proto_contscan_stop e p)"
  by (auto simp: config_proto_contscan_stop_def console_ok_def)

lemma prologue_ok:
  assumes "mgmt_ok B s"
  shows "mgmt_ok B (task_prologue w inp s)"
proof -
  define s2 where "s2 = (if \<not> banner_sent (greet w s) \<and> inp \<noteq> [] then console_banner w (greet w s) else greet w s)"
  have "mgmt_ok B s2" using greet_ok [OF assms, of w] by (auto simp: s2_def mgmt_ok_def intro: line_ok_frame)
  then have "mgmt_ok B (proto_call w config_proto_poll s2)" "mgmt_ok B s2"
    by (auto simp: mgmt_ok_def config_proto_poll_ok intro: line_ok_frame)
  then show ?thesis unfolding task_prologue_def Let_def s2_def by presburger
qed

lemma task_ok:
  assumes "mgmt_ok B s" "world_ok B w"
  shows "mgmt_ok B (serial_console_task w inp s)"
  using prologue_ok [OF assms(1), of w inp] keys_ok [OF prologue_ok [OF assms(1)] assms(2)]
  by (auto simp: serial_console_task_def Let_def mgmt_ok_def stop_ok intro: line_ok_frame)

text \<open>Everything that touches the management console.\<close>

datatype mgmt_action =
    M_task string
  | M_line_state nat bool bool
  | M_print string

definition mgmt_step :: "cdc_world \<times> mgmt_action \<Rightarrow> mgmt \<times> dbg \<Rightarrow> mgmt \<times> dbg" where
  "mgmt_step wa sd =
     (case wa of
        (w, M_task inp) \<Rightarrow> (serial_console_task w inp (fst sd), snd sd)
      | (w, M_line_state itf dtr rts) \<Rightarrow> tud_cdc_line_state_cb w itf dtr rts sd
      | (w, M_print t) \<Rightarrow> (serial_console_printf w t (fst sd), snd sd))"

lemma mgmt_step_ok:
  "mgmt_ok B (fst sd) \<Longrightarrow> world_ok B (fst wa) \<Longrightarrow> mgmt_ok B (fst (mgmt_step wa sd))"
proof -
  assume s: "mgmt_ok B (fst sd)" "world_ok B (fst wa)"
  have e: "mgmt_ok B (console_emit w t (fst sd))" "mgmt_ok B (console_banner w (fst sd))"
    "mgmt_ok B ((fst sd)\<lparr>banner_sent := b\<rparr>)" for w t b
    using s(1) by (auto simp: mgmt_ok_def intro: line_ok_frame)
  show ?thesis using s task_ok [OF s] e
    by (cases wa; cases sd; cases "snd wa")
      (simp_all add: mgmt_step_def tud_cdc_line_state_cb_def serial_console_printf_def)
qed

lemma mgmt_run_ok:
  "mgmt_ok B (fst sd) \<Longrightarrow> list_all (\<lambda>wa. world_ok B (fst wa)) as \<Longrightarrow> mgmt_ok B (fst (fold mgmt_step as sd))"
  by (induction as arbitrary: sd) (simp_all add: mgmt_step_ok)

section \<open>Properties\<close>

text \<open>Property C35. While a terminal is attached, one run of the task drives the protocol as its step relation describes: a poll if a scan is
  pending; then, in the live scan, a stop if anything was typed; else, one after the other, the lines typed, as a
  user sees them: bytes are appended, backspace and delete take the last one back, unprintable ones and those behind the
  191st are dropped, CR or LF enters the line. What is begun stays for the next run.\<close>

theorem console_task_refines:
  assumes "line_ok s" "connected w" "was_connected s"
  defines "polls \<equiv> if config_proto_scanning (proto s) then [(env w (calls s), A_poll)] else []"
  defines "in_live \<equiv> config_proto_contscan_active (cp_run polls (proto s))"
  shows "proto (serial_console_task w inp s) =
      cp_run (polls @ (if in_live then (if inp = [] then [] else [(env w (calls s + length polls), A_stop)])
                       else line_calls w (calls s + length polls) (fst (typed (begun s) inp)))) (proto s) \<and>
    begun (serial_console_task w inp s) =
      (if in_live then (if inp = [] then begun s else []) else snd (typed (begun s) inp)) \<and>
    line_ok (serial_console_task w inp s)"
proof -
  define s3 where "s3 = task_prologue w inp s"
  have "greet w s = s" using assms(2,3) by (simp add: greet_def)
  then have 3: "proto s3 = cp_run polls (proto s)" "calls s3 = calls s + length polls" "begun s3 = begun s" "line_ok s3"
    using assms(1,2)
    by (auto simp: s3_def task_prologue_def Let_def polls_def cp_run_def cp_step_def begun_def intro: line_ok_frame)
  have e: "line_ok ((console_prompt w (proto_call w config_proto_contscan_stop s3))\<lparr>line_len := 0\<rparr>)"
    using 3(4) by (auto intro: line_ok_frame)
  show ?thesis
  proof (cases in_live)
    case True
    then show ?thesis using e 3
      by (auto simp: serial_console_task_def s3_def [symmetric] Let_def in_live_def cp_run_def cp_step_def begun_def)
  next
    case False
    then show ?thesis using keys_refine [OF 3(4), of w inp] 3
      by (simp add: serial_console_task_def s3_def [symmetric] Let_def in_live_def cp_run_def)
  qed
qed

definition sample_mgmt :: mgmt where
  "sample_mgmt = \<lparr>line_buf = replicate LINE_BUF_SIZE NUL, line_len = 0, was_connected = True, banner_sent = True,
     port = \<lparr>sent = [], writes = 0\<rparr>, calls = 0, proto = sample_console\<rparr>"

definition sample_world :: cdc_world where
  "sample_world = \<lparr>connected = True, room = \<lambda>_. 64, env = \<lambda>_. sample_cp_env\<rparr>"

lemma sample_mgmt_ok: "mgmt_ok sample_build sample_mgmt"
  using sample_console_ok by (simp add: mgmt_ok_def line_ok_def sample_mgmt_def begun_def)

lemma sample_world_ok: "world_ok sample_build sample_world"
  by (simp add: world_ok_def sample_world_def sample_env_ok)

theorem console_task_refines_witness:
  "proto (serial_console_task sample_world (''lis'' @ [BS] @ ''st'' @ [LF]) sample_mgmt) =
     cp_run [(sample_cp_env, A_line ''list'')] sample_console"
proof -
  have l: "line_ok sample_mgmt" "connected sample_world" "was_connected sample_mgmt"
    using sample_mgmt_ok by (simp_all add: mgmt_ok_def sample_world_def sample_mgmt_def)
  have s: "\<not> config_proto_scanning (proto sample_mgmt)" "\<not> config_proto_contscan_active (proto sample_mgmt)"
    by (simp_all add: sample_mgmt_def sample_console_def config_proto_scanning_def config_proto_contscan_active_def
      wifi_scan_in_progress_def scan_init_def)
  have "fst (typed (begun sample_mgmt) (''lis'' @ [BS] @ ''st'' @ [LF])) = [''list'']"
    by (simp add: begun_def sample_mgmt_def typable_def)
  then show ?thesis
    using console_task_refines [OF l, where inp = "''lis'' @ [BS] @ ''st'' @ [LF]"] s
    by (simp add: cp_run_def line_calls_def) (simp add: sample_mgmt_def sample_world_def)
qed

text \<open>Whatever the host does, in any order: bytes typed, ports opened and closed, terminals attached and dropped, texts
  printed, with whatever room there is: the line stays inside its 192 bytes with only printable characters, and the
  settings, and those a restore would load, stay valid.\<close>

theorem console_host_harmless:
  assumes "mgmt_ok B s" "list_all (\<lambda>wa. world_ok B (fst wa)) acts"
  shows "length (line_buf (fst (fold mgmt_step acts (s, d)))) = LINE_BUF_SIZE \<and>
    line_len (fst (fold mgmt_step acts (s, d))) < LINE_BUF_SIZE \<and>
    list_all typable (begun (fst (fold mgmt_step acts (s, d)))) \<and>
    settings_ok (cfg (proto (fst (fold mgmt_step acts (s, d))))) \<and>
    settings_ok (config_load B (flash (proto (fst (fold mgmt_step acts (s, d))))))"
  using mgmt_run_ok [of B "(s, d)" acts] assms by (simp add: mgmt_ok_def line_ok_def console_ok_def)

theorem console_host_harmless_witness:
  "settings_ok (cfg (proto (fst (fold mgmt_step
     [(sample_world, M_line_state 0 True False), (sample_world, M_task (''set mtu 9'' @ [LF, CR]))]
     (sample_mgmt, \<lparr>d_banner_sent = False, d_port = \<lparr>sent = [], writes = 0\<rparr>\<rparr>)))))"
  using console_host_harmless [OF sample_mgmt_ok,
    of "[(sample_world, M_line_state 0 True False), (sample_world, M_task (''set mtu 9'' @ [LF, CR]))]"
       "\<lparr>d_banner_sent = False, d_port = \<lparr>sent = [], writes = 0\<rparr>\<rparr>"] sample_world_ok
  by simp

text \<open>What a terminal that reads receives for a line entered: a line end, all that the protocol prints and the
  prompt, with every LF as CR LF; the chunks of 256 bytes it is sent in do not show.\<close>

theorem console_reply:
  assumes "line_ok s" "connected w" "\<forall>k. 16 \<le> room w k"
  shows "let p = config_proto_handle_line (env w (calls s)) (begun s) (proto s);
             printed = concat (map c_str (texts (drop (length (events (proto s))) (events p))))
         in sent (port (console_key w CR s)) = sent (port s) @ [CR, LF] @ crlf printed @ crlf (c_str (config_proto_prompt p))"
proof -
  have r: "roomy w" using assms(3) by (simp add: roomy_def)
  define s1 where "s1 = (console_put w [CR, LF] s)\<lparr>line_buf := (line_buf s)[line_len s := NUL]\<rparr>"
  have 1: "c_str (line_buf s1) = begun s" "calls s1 = calls s" "proto s1 = proto s" "sent (port s1) = sent (port s) @ [CR, LF]"
    using line_text [OF assms(1)] console_put_all [OF r, of "[CR, LF]" s] by (simp_all add: s1_def)
  define s2 where "s2 = proto_call w (\<lambda>e. config_proto_handle_line e (begun s)) s1"
  have "console_key w CR s = (console_prompt w s2)\<lparr>line_len := 0\<rparr>"
    using 1(1) by (simp add: console_key_def Let_def s1_def s2_def)
  then have "sent (port (console_key w CR s)) = sent (port s2) @ crlf (c_str (config_proto_prompt (proto s2)))"
    using console_emit_all [OF r assms(2)] by (simp add: console_prompt_def)
  moreover have "sent (port s2) = sent (port s1) @ crlf (concat (map c_str (texts (drop (length (events (proto s)))
     (events (config_proto_handle_line (env w (calls s)) (begun s) (proto s)))))))"
    using fold_emit_all [OF r assms(2)] by (simp add: s2_def proto_call_def Let_def 1(2,3))
  ultimately show ?thesis by (simp add: Let_def 1) (simp add: s2_def 1)
qed

theorem console_reply_witness:
  "let p = config_proto_handle_line sample_cp_env [] sample_console;
       printed = concat (map c_str (texts (drop 0 (events p))))
   in sent (port (console_key sample_world CR sample_mgmt)) =
      [CR, LF] @ crlf printed @ crlf (c_str (config_proto_prompt p))"
proof -
  have "line_ok sample_mgmt" "connected sample_world" "\<forall>k. 16 \<le> room sample_world k"
    using sample_mgmt_ok by (simp_all add: mgmt_ok_def sample_world_def)
  from console_reply [OF this] show ?thesis
    by (simp add: Let_def begun_def sample_mgmt_def sample_world_def) (simp add: sample_console_def)
qed

text \<open>A terminal that ends its lines with both CR and LF enters an empty line after each.\<close>

lemma crlf_enters_twice: "typed [] (''save'' @ [CR, LF]) = ([''save'', []], [])"
  by (simp add: typable_def)

end
