(* ===== verification/Http_Portal.thy ===== *)
theory Http_Portal
  imports Serial_Console Pcap
begin

text \<open>
  \<^verbatim>\<open>src/http_portal.c\<close>: the web portal on the USB link. Two connections at most; a connection collects one request, answers
  it and closes. The record \<open>portal\<close> holds the connections, the capture ring and the configuration protocol's state, the
  parts of other modules it changes; calls of lwIP are events, in order. A connection is known to lwIP by its number
  (\<open>pcb\<close>), which its callbacks get; the pointer lwIP keeps for the callbacks is the slot that has the number.
  What TCP has room for is answered by \<open>tcp_ans\<close>. A response is a list of stable pieces: text (the connection's own
  buffer, or the page in flash) and spans of the capture ring, which is read when TCP sends, not when it is queued.

  Shown: a command posted in whatever pieces is run once, when it is whole, as the console would run it, and answered whole and in
  order; status and scan list tell nothing of the keys and passwords but the public key and which are set; connections that did not come in
  over USB get nothing; strings in the JSON bodies read back, cut cleanly at worst; requests stay in their buffers. And a
  defect: the end of one download resumes the capture under another.
\<close>

section \<open>State\<close>

abbreviation HTTP_CONNS :: nat where "HTTP_CONNS \<equiv> 2"
abbreviation REQ_MAX :: nat where "REQ_MAX \<equiv> 1024"
abbreviation RESP_MAX :: nat where "RESP_MAX \<equiv> 4096"
abbreviation BODY_MAX :: nat where "BODY_MAX \<equiv> 3840" \<comment> \<open>\<^verbatim>\<open>sizeof(body_buf)\<close>\<close>
abbreviation IDLE_POLLS :: nat where "IDLE_POLLS \<equiv> 10"

datatype piece = P_text string | P_ring nat nat \<comment> \<open>offset and length in the ring\<close>

record http_conn =
  c_pcb :: "nat option"
  c_req :: string
  c_idle :: nat
  responded :: bool
  pcap_hold :: bool
  pieces :: "piece list" \<comment> \<open>\<^verbatim>\<open>seg\<close> from \<^verbatim>\<open>seg_ix\<close> on\<close>

datatype http_event =
    H_write nat piece
  | H_output nat
  | H_close nat
  | H_abort nat
  | H_recved nat nat
  | H_request_scan \<comment> \<open>\<^verbatim>\<open>wifi_conn_request_scan\<close>\<close>

record portal =
  conns :: "http_conn list"
  cap_ring :: pcap
  con :: console
  hevents :: "http_event list"

record tcp_ans =
  t_room :: "nat \<Rightarrow> nat" \<comment> \<open>\<^verbatim>\<open>tcp_sndbuf\<close> before the \<open>k\<close>-th write\<close>
  t_write :: "nat \<Rightarrow> bool"
  t_drained :: bool \<comment> \<open>\<^verbatim>\<open>tcp_sndbuf\<close> is back to \<^verbatim>\<open>TCP_SND_BUF\<close>\<close>
  t_close :: bool

text \<open>What the bodies are made of besides the configuration, the scan table and \<open>live\<close> of the protocol's environment.\<close>

record web_env =
  w_cp :: cp_env
  w_page :: string \<comment> \<open>\<^verbatim>\<open>web_index_gz\<close>\<close>
  w_uptime_ms :: u32
  w_sta_addr :: u32
  w_stats :: "u32 \<times> u32 \<times> u32 \<times> u32"
  w_scanning :: bool \<comment> \<open>\<^verbatim>\<open>wifi_conn_scanning\<close>\<close>

definition zero_conn :: http_conn where
  "zero_conn = \<lparr>c_pcb = None, c_req = [], c_idle = 0, responded = False, pcap_hold = False, pieces = []\<rparr>"

definition portal_init :: "pcap \<Rightarrow> console \<Rightarrow> portal" where
  "portal_init r p = \<lparr>conns = replicate HTTP_CONNS zero_conn, cap_ring = r, con = p, hevents = []\<rparr>"

definition hemit :: "http_event list \<Rightarrow> portal \<Rightarrow> portal" where
  "hemit vs s = s\<lparr>hevents := hevents s @ vs\<rparr>"

definition set_conn :: "nat \<Rightarrow> http_conn \<Rightarrow> portal \<Rightarrow> portal" where
  "set_conn i c s = s\<lparr>conns := (conns s)[i := c]\<rparr>"

section \<open>JSON\<close>

definition json_char :: "char \<Rightarrow> string" where
  "json_char c =
     (if c = CHR 0x22 \<or> c = CHR 0x5C then [CHR 0x5C, c]
      else if (of_char c :: nat) < 0x20 then [CHR 0x5C, CHR ''u'', CHR ''0'', CHR ''0''] @ fmt_02x (of_char c)
      else [c])"

fun json_loop :: "nat \<Rightarrow> string \<Rightarrow> string \<Rightarrow> string" where
  "json_loop cap o' [] = o'"
| "json_loop cap o' (c # cs) = (if length o' + 8 < cap then json_loop cap (o' @ json_char c) cs else o')"

definition json_str :: "nat \<Rightarrow> string \<Rightarrow> string" where
  "json_str cap s =
     (let o' = json_loop cap (if 0 < cap then [CHR 0x22] else []) (c_str s)
      in if length o' < cap then o' @ [CHR 0x22] else o')"

text \<open>\<^verbatim>\<open>JADD\<close>: append formatted text, cut so that the length stays below \<open>cap\<close>.\<close>

definition jadd :: "nat \<Rightarrow> string \<Rightarrow> string \<Rightarrow> string" where
  "jadd cap o' t = (if length (o' @ t) \<ge> cap then take (cap - 1) (o' @ t) else o' @ t)"

datatype jitem = J string | JS string

fun jstep :: "nat \<Rightarrow> jitem \<Rightarrow> string \<Rightarrow> string" where
  "jstep cap (J t) o' = jadd cap o' t"
| "jstep cap (JS t) o' = o' @ json_str (cap - length o') t"

definition jrun :: "nat \<Rightarrow> jitem list \<Rightarrow> string" where
  "jrun cap js = fold (jstep cap) js []"

definition fmt_ip4_or_empty :: "cp_env \<Rightarrow> nat \<Rightarrow> u32 \<Rightarrow> string" where
  "fmt_ip4_or_empty e n a = (if a = 0 then [] else snprintf n (ip4addr_ntoa e a))"

definition jb :: "bool \<Rightarrow> string" where
  "jb b = (if b then ''true'' else ''false'')"

text \<open>A text in quotes, a name and its colon.\<close>

definition quoted :: "string \<Rightarrow> string" where
  "quoted t = [CHR 0x22] @ t @ [CHR 0x22]"

definition jkey :: "string \<Rightarrow> string" where
  "jkey k = quoted k @ '':''"

fun prof_status_name :: "wifi_prof_status \<Rightarrow> string" where
  "prof_status_name WIFI_PROF_UNTRIED = ''''"
| "prof_status_name WIFI_PROF_CONNECTED = ''connected''"
| "prof_status_name WIFI_PROF_NOJOIN = ''nojoin''"
| "prof_status_name WIFI_PROF_BADPASS = ''badpass''"

definition profile_items :: "cp_env \<Rightarrow> config \<Rightarrow> nat \<Rightarrow> jitem list" where
  "profile_items e c i =
     (let p = profiles c ! i; rssi = prof_rssi (live e) i in
      [J ((if i \<noteq> 0 then '','' else []) @ ''{'' @ jkey ''ssid''), JS (ssid p),
       J ('','' @ jkey ''open'' @ jb (c_str (password p) = []) @ '','' @ jkey ''active'' @ jb (i = active c) @ '','' @
          jkey ''status'' @ quoted (prof_status_name (prof_status (live e) i)))] @
      (if rssi \<noteq> WIFI_RSSI_UNSEEN then [J ('','' @ jkey ''rssi'' @ fmt_d rssi)] else []) @ [J ''}''])"

definition route_item :: "cp_env \<Rightarrow> wg_config \<Rightarrow> nat \<Rightarrow> jitem" where
  "route_item e w i =
     J ((if i \<noteq> 0 then '','' else []) @
        quoted (fmt_ip4_or_empty e 20 (r_net (routes w ! i)) @ ''/'' @ dec (unat (r_prefix (routes w ! i)))))"

definition wg_items :: "cp_env \<Rightarrow> string \<Rightarrow> wg_config \<Rightarrow> jitem list" where
  "wg_items e pubkey w =
     ([J (jkey ''wg'' @ ''{'' @ jkey ''state'' @ quoted (wg_state_text (live e)) @ '','' @ jkey ''pubkey'' @ quoted pubkey @ '',''),
       J (jkey ''peer_set'' @ jb (c_str (peer_public w) \<noteq> []) @ '','' @ jkey ''psk_set'' @ jb (c_str (psk w) \<noteq> []) @ '','' @
          jkey ''endpoint''),
       JS (endpoint w),
       J ('','' @ jkey ''port'' @ dec (unat (endpoint_port w)) @ '','' @ jkey ''addr'' @ quoted (fmt_ip4_or_empty e 20 (wg_addr w)) @ '','' @
          jkey ''prefix'' @ dec (unat (wg_prefix w)) @ '','' @ jkey ''hostip'' @ quoted (fmt_ip4_or_empty e 20 (host_addr w)) @ '','' @
          jkey ''dns'' @ quoted (fmt_ip4_or_empty e 20 (wg_dns w)) @ '','' @ jkey ''mtu'' @ dec (unat (host_mtu w)) @ '','' @
          jkey ''keepalive'' @ dec (unat (keepalive w)) @ '','' @
          jkey ''exit'' @ jb (exit_enabled w \<noteq> 0) @ '','' @ jkey ''exitlan'' @ jb (exit_lan w \<noteq> 0) @ '','' @ jkey ''routes'' @ ''['')] @
      map (route_item e w) [0 ..< unat (route_count w)] @ [J '']},'']) "

definition ap_items :: "cp_env \<Rightarrow> config \<Rightarrow> jitem list" where
  "ap_items e c =
     (let a = ap c in
      [J (jkey ''ap'' @ ''{'' @ jkey ''enabled'' @ jb (ap_enabled a \<noteq> 0) @ '','' @ jkey ''ssid''), JS (ap_ssid a),
       J ('','' @ jkey ''addr'' @ quoted (fmt_ip4_or_empty e 20 (ap_addr a)) @ '','' @ jkey ''prefix'' @ dec (unat (ap_prefix a)) @ '','' @
          jkey ''client'' @ quoted (fmt_ip4_or_empty e 20 (client_addr a)) @ '','' @ jkey ''stas'' @ fmt_d (ap_clients (live e)) @ '','' @
          jkey ''leased'' @ jb (ap_leased (live e)) @ ''},'')])"

definition usb_items :: "web_env \<Rightarrow> jitem list" where
  "usb_items w =
     (case w_stats w of (fh, th, td, pf) \<Rightarrow>
        [J (jkey ''usb'' @ ''{'' @ jkey ''from_host'' @ dec (unat fh) @ '','' @ jkey ''to_host'' @ dec (unat th) @ '','' @
            jkey ''txdrop'' @ dec (unat td) @ '','' @ jkey ''poolfail'' @ dec (unat pf) @ ''}}'')])"

definition status_json :: "web_env \<Rightarrow> config \<Rightarrow> nat \<Rightarrow> string" where
  "status_json w c cap =
     (let e = w_cp w; up = sta_link_up (live e);
          pubkey = (case config_proto_pubkey e c 48 of Some t \<Rightarrow> t | None \<Rightarrow> [])
      in jrun cap
        ([J (''{'' @ jkey ''version'' @ quoted (FW_VERSION e) @ '','' @ jkey ''uptime_s'' @ dec (unat (w_uptime_ms w div 1000)) @ '',''),
          J (jkey ''provisioned'' @ jb (config_wg_complete c) @ '','' @ jkey ''leased'' @ jb (usb_leased (live e)) @ '',''),
          J (jkey ''wifi'' @ ''{'' @ jkey ''ssid''), JS (config_active_ssid c),
          J ('','' @ jkey ''link'' @ jb up @ '','' @ jkey ''ip'' @ quoted (snprintf 20 (ip4addr_ntoa e (w_sta_addr w))) @ '','' @
             jkey ''state'' @ quoted (if up then ''up'' else conn_state_str (live e)) @ '','' @ jkey ''profiles'' @ ''['')] @
         concat (map (profile_items e c) [0 ..< profile_count c]) @ [J '']},''] @ wg_items e pubkey (wg c) @ ap_items e c @ usb_items w))"

definition net_items :: "cp_env \<Rightarrow> config \<Rightarrow> bool \<Rightarrow> nat \<Rightarrow> wifi_scan_entry \<Rightarrow> jitem list" where
  "net_items e c link i en =
     (let p = config_find_profile c (e_ssid en) in
      [J ((if i \<noteq> 0 then '','' else []) @ ''{'' @ jkey ''ssid''), JS (e_ssid en),
       J ('','' @ jkey ''rssi'' @ fmt_d (e_rssi en) @ '','' @ jkey ''ch'' @ dec (unat (e_channel en)) @ '','' @
          jkey ''open'' @ jb (e_auth en = 0) @ '','' @ jkey ''saved'' @ jb (p \<noteq> None))] @
      (case p of None \<Rightarrow> []
       | Some p \<Rightarrow> (if p = active c \<and> link then [J ('','' @ jkey ''connected'' @ ''true'')] else []) @
                    (if prof_status (live e) p = WIFI_PROF_BADPASS then [J ('','' @ jkey ''badpass'' @ ''true'')] else [])) @
      [J ''}''])"

definition scan_json :: "web_env \<Rightarrow> console \<Rightarrow> nat \<Rightarrow> string" where
  "scan_json w p cap =
     (let e = w_cp w; age = scan_age_ms (live e) in
      jrun cap
        ([J (''{'' @ jkey ''scanning'' @ jb (w_scanning w \<or> config_proto_scanning p) @ '','' @ jkey ''age_s'' @
             fmt_d (if age = 0xFFFFFFFF then - 1 else int (unat (age div 1000))) @ '','' @ jkey ''nets'' @ ''['')] @
         concat (map (\<lambda>i. net_items e (cfg p) (sta_link_up (live e)) i (results (scanner p) ! i))
                  [0 ..< length (results (scanner p))]) @ [J '']}'']))"

section \<open>Connections\<close>

fun piece_len :: "piece \<Rightarrow> nat" where
  "piece_len (P_text t) = length t"
| "piece_len (P_ring a n) = n"

fun piece_take :: "nat \<Rightarrow> piece \<Rightarrow> piece" where
  "piece_take k (P_text t) = P_text (take k t)"
| "piece_take k (P_ring a n) = P_ring a (min k n)"

fun piece_drop :: "nat \<Rightarrow> piece \<Rightarrow> piece" where
  "piece_drop k (P_text t) = P_text (drop k t)"
| "piece_drop k (P_ring a n) = P_ring (a + k) (n - k)"

lemma piece_drop_len [simp]: "piece_len (piece_drop k g) = piece_len g - k"
  by (cases g) simp_all

text \<open>The loop of \<open>conn_send_more\<close>: what stays queued and what was written.\<close>

function send_loop :: "tcp_ans \<Rightarrow> nat \<Rightarrow> piece list \<Rightarrow> piece list \<times> piece list" where
  "send_loop a k [] = ([], [])"
| "send_loop a k (g # gs) =
     (if piece_len g = 0 then send_loop a k gs
      else if t_room a k = 0 \<or> \<not> t_write a k then (g # gs, [])
      else let chunk = min (piece_len g) (t_room a k); (rest, ws) = send_loop a (k + 1) (piece_drop chunk g # gs)
           in (rest, piece_take chunk g # ws))"
  by pat_completeness auto
termination by (relation "measure (\<lambda>(a, k, gs). sum_list (map piece_len gs) + length gs)") (auto simp: min_def)

declare send_loop.simps [simp del]

definition conn_free :: "nat \<Rightarrow> portal \<Rightarrow> portal" where
  "conn_free i s =
     (let s = (if pcap_hold (conns s ! i) then s\<lparr>cap_ring := pcap_resume (cap_ring s)\<rparr> else s)
      in set_conn i zero_conn s)"

definition conn_send_more :: "tcp_ans \<Rightarrow> nat \<Rightarrow> portal \<Rightarrow> portal" where
  "conn_send_more a i s =
     (let c = conns s ! i; pcb' = the (c_pcb c); (rest, ws) = send_loop a 0 (pieces c);
          s = hemit (map (H_write pcb') ws) (set_conn i (c\<lparr>pieces := rest\<rparr>) s)
      in if rest \<noteq> [] then s
         else let s = hemit [H_output pcb'] s
              in if \<not> t_drained a then s
                 else hemit [if t_close a then H_close pcb' else H_abort pcb'] (conn_free i s))"

datatype body = B_none | B_page string | B_gen string

fun body_len :: "body \<Rightarrow> nat" where
  "body_len B_none = 0"
| "body_len (B_page t) = length t"
| "body_len (B_gen t) = length t"

abbreviation CRLF :: string where "CRLF \<equiv> [CR, LF]"

definition PORTAL_CORS_HEADERS :: string where
  "PORTAL_CORS_HEADERS = ''Access-Control-Allow-Origin: *'' @ CRLF"

definition PORTAL_PREFLIGHT_HEADERS :: string where
  "PORTAL_PREFLIGHT_HEADERS =
     ''Access-Control-Allow-Methods: GET, POST, OPTIONS'' @ CRLF @ ''Access-Control-Allow-Headers: Content-Type'' @ CRLF @
     ''Access-Control-Allow-Private-Network: true'' @ CRLF @ ''Access-Control-Max-Age: 86400'' @ CRLF"

definition http_head :: "string \<Rightarrow> string \<Rightarrow> string \<Rightarrow> nat \<Rightarrow> string" where
  "http_head st ctype extra n =
     ''HTTP/1.1 '' @ st @ CRLF @ ''Content-Type: '' @ ctype @ CRLF @ ''Content-Length: '' @ dec n @ CRLF @
     ''Cache-Control: no-store'' @ CRLF @ PORTAL_CORS_HEADERS @ extra @ ''Connection: close'' @ CRLF @ CRLF"

definition response_pieces :: "string \<Rightarrow> string \<Rightarrow> string \<Rightarrow> body \<Rightarrow> piece list" where
  "response_pieces st ctype extra b =
     (let h = http_head st ctype extra (body_len b) in
      case b of B_gen t \<Rightarrow> [P_text (h @ take (RESP_MAX - length h) t)]
      | B_page t \<Rightarrow> [P_text h, P_text t]
      | B_none \<Rightarrow> [P_text h])"

definition conn_respond :: "tcp_ans \<Rightarrow> nat \<Rightarrow> string \<Rightarrow> string \<Rightarrow> string \<Rightarrow> body \<Rightarrow> portal \<Rightarrow> portal" where
  "conn_respond a i st ctype extra b s =
     conn_send_more a i (set_conn i ((conns s ! i)\<lparr>pieces := response_pieces st ctype extra b, responded := True\<rparr>) s)"

section \<open>The request\<close>

definition starts :: "string \<Rightarrow> string \<Rightarrow> bool" where
  "starts p s \<longleftrightarrow> take (length p) s = p"

text \<open>\<^verbatim>\<open>strstr\<close> and \<^verbatim>\<open>strchr\<close>, as places.\<close>

fun find_sub :: "string \<Rightarrow> string \<Rightarrow> nat option" where
  "find_sub p [] = (if p = [] then Some 0 else None)"
| "find_sub p (c # cs) = (if starts p (c # cs) then Some 0 else map_option Suc (find_sub p cs))"

definition strtoul :: "string \<Rightarrow> u32" where
  "strtoul s =
     (let t = dropWhile is_space s;
          (neg, t) = (case t of [] \<Rightarrow> (False, t)
                      | c # u \<Rightarrow> if c = CHR ''-'' then (True, u) else if c = CHR ''+'' then (False, u) else (False, t));
          v = nat (digits_val (takeWhile is_digit t))
      in if v \<ge> 2 ^ 32 then 0xFFFFFFFF else if neg then - of_nat v else of_nat v)"

text \<open>The loop that looks for the header from \<open>l\<close> on: the text there and how many places are left to \<open>hdr_end\<close>.\<close>

fun content_len :: "string \<Rightarrow> nat \<Rightarrow> u32" where
  "content_len [] k = 0"
| "content_len (c # cs) 0 = 0"
| "content_len (c # cs) (Suc k) =
     (if c = LF \<and> strcasecmp_eq (take 15 cs) ''Content-Length:'' then strtoul (c_str (drop 15 cs)) else content_len cs k)"

text \<open>The first line of the body's \<open>n\<close> bytes.\<close>

definition first_line :: "string \<Rightarrow> string" where
  "first_line b = takeWhile (\<lambda>c. c \<noteq> CR \<and> c \<noteq> LF) (c_str b)"

text \<open>The output of the protocol as \<open>capture_write\<close> collects it.\<close>

definition captured_text :: "console \<Rightarrow> console \<Rightarrow> string" where
  "captured_text p p' = take (BODY_MAX - 1) (concat (map c_str (texts (drop (length (events p)) (events p')))))"

text \<open>The protocol has run: its new state, and what it did to the capture.\<close>

definition pcap_event :: "cp_event \<Rightarrow> pcap \<Rightarrow> pcap" where
  "pcap_event v r = (case v of E_pcap_enable b \<Rightarrow> pcap_set_enabled b r | E_pcap_clear \<Rightarrow> pcap_clear r | _ \<Rightarrow> r)"

definition ran :: "console \<Rightarrow> portal \<Rightarrow> portal" where
  "ran p s = s\<lparr>con := p, cap_ring := fold pcap_event (drop (length (events (con s))) (events p)) (cap_ring s)\<rparr>"

lemma paused_events [simp]: "paused (fold pcap_event vs r) = paused r"
  by (induction vs arbitrary: r) (auto simp: pcap_event_def pcap_set_enabled_def pcap_clear_def split: cp_event.split)

lemma ran_fields [simp]:
  "conns (ran p s) = conns s" "con (ran p s) = p" "hevents (ran p s) = hevents s" "paused (cap_ring (ran p s)) = paused (cap_ring s)"
  by (simp_all add: ran_def)

definition handle_pcap :: "tcp_ans \<Rightarrow> nat \<Rightarrow> portal \<Rightarrow> portal" where
  "handle_pcap a i s =
     (let (r, (x, n), second) = pcap_freeze (cap_ring s);
          (y, m) = (case second of None \<Rightarrow> (0, 0) | Some ym \<Rightarrow> ym);
          h = ''HTTP/1.1 200 OK'' @ CRLF @ ''Content-Type: application/vnd.tcpdump.pcap'' @ CRLF @
              ''Content-Length: '' @ dec (length pcap_global_header + n + m) @ CRLF @ ''Cache-Control: no-store'' @ CRLF @
              PORTAL_CORS_HEADERS @ ''Content-Disposition: attachment; filename='' @ quoted ''molewire.pcap'' @ CRLF @
              ''Connection: close'' @ CRLF @ CRLF
      in conn_send_more a i
           (set_conn i ((conns s ! i)\<lparr>pcap_hold := True, responded := True,
                pieces := [P_text (h @ map byte_char pcap_global_header), P_ring x n, P_ring y m]\<rparr>)
             (s\<lparr>cap_ring := r\<rparr>)))"

definition handle_cmd :: "web_env \<Rightarrow> tcp_ans \<Rightarrow> nat \<Rightarrow> nat \<Rightarrow> nat \<Rightarrow> portal \<Rightarrow> portal" where
  "handle_cmd w a i path_end hdr_end s =
     (let r = c_req (conns s ! i); n = content_len (drop (path_end + 1) r) (hdr_end - (path_end + 1)) in
      if n > 256 then conn_respond a i ''413 Payload Too Large'' ''text/plain'' [] (B_gen ''too large'') s
      else if length r - (hdr_end + 4) < unat n then s
      else let p = config_proto_handle_line (w_cp w) (first_line (take (unat n) (drop (hdr_end + 4) r))) (con s)
           in conn_respond a i ''200 OK'' ''text/plain; charset=utf-8'' [] (B_gen (captured_text (con s) p)) (ran p s))"

definition handle_request :: "web_env \<Rightarrow> tcp_ans \<Rightarrow> nat \<Rightarrow> portal \<Rightarrow> portal" where
  "handle_request w a i s =
     (let t = c_str (c_req (conns s ! i)) in
      case find_sub (CRLF @ CRLF) t of None \<Rightarrow> s
      | Some hdr_end \<Rightarrow>
          let is_get = starts ''GET '' t; is_post = starts ''POST '' t; off = (if is_get then 4 else 5) in
          if starts ''OPTIONS '' t
          then conn_respond a i ''204 No Content'' ''text/plain'' PORTAL_PREFLIGHT_HEADERS B_none s
          else case find_sub '' '' (drop off t) of
                 None \<Rightarrow> conn_respond a i ''400 Bad Request'' ''text/plain'' [] (B_gen ''bad request'') s
               | Some n \<Rightarrow>
                   let path = take n (drop off t) in
                   if \<not> is_get \<and> \<not> is_post
                   then conn_respond a i ''400 Bad Request'' ''text/plain'' [] (B_gen ''bad request'') s
                   else if is_get \<and> (path = ''/'' \<or> path = ''/index.html'')
                   then conn_respond a i ''200 OK'' ''text/html; charset=utf-8'' (''Content-Encoding: gzip'' @ CRLF) (B_page (w_page w)) s
                   else if is_get \<and> path = ''/api/pcap'' then handle_pcap a i s
                   else if is_get \<and> path = ''/api/status''
                   then conn_respond a i ''200 OK'' ''application/json'' [] (B_gen (status_json w (cfg (con s)) BODY_MAX)) s
                   else if path = ''/api/scan'' \<and> (is_get \<or> is_post)
                   then let s = (if is_post then hemit [H_request_scan] s else s)
                        in conn_respond a i ''200 OK'' ''application/json'' [] (B_gen (scan_json w (con s) BODY_MAX)) s
                   else if is_post \<and> path = ''/api/cmd'' then handle_cmd w a i (off + n) hdr_end s
                   else conn_respond a i ''404 Not Found'' ''text/plain'' [] (B_gen ''not found'') s)"

section \<open>lwIP's callbacks\<close>

definition slot_of :: "nat \<Rightarrow> portal \<Rightarrow> nat option" where
  "slot_of p s = find (\<lambda>i. c_pcb (conns s ! i) = Some p) [0 ..< length (conns s)]"

definition http_recv :: "web_env \<Rightarrow> tcp_ans \<Rightarrow> nat \<Rightarrow> string option \<Rightarrow> bool \<Rightarrow> portal \<Rightarrow> portal" where
  "http_recv w a p buf err_ok s =
     (case buf of
        None \<Rightarrow> hemit [H_close p] (case slot_of p s of Some i \<Rightarrow> conn_free i s | None \<Rightarrow> s)
      | Some t \<Rightarrow>
          (case slot_of p s of None \<Rightarrow> s
           | Some i \<Rightarrow>
               if \<not> err_ok then s
               else let c = conns s ! i; n = min (length t) (REQ_MAX - 1 - length (c_req c));
                        s = hemit [H_recved p (length t)] (set_conn i (c\<lparr>c_req := c_req c @ take n t, c_idle := 0\<rparr>) s)
                    in if responded c then s
                       else if n = 0 then conn_free i (hemit [H_abort p] s)
                       else handle_request w a i s))"

definition http_sent :: "tcp_ans \<Rightarrow> nat \<Rightarrow> portal \<Rightarrow> portal" where
  "http_sent a p s =
     (case slot_of p s of None \<Rightarrow> s
      | Some i \<Rightarrow> if responded (conns s ! i) then conn_send_more a i (set_conn i ((conns s ! i)\<lparr>c_idle := 0\<rparr>) s) else s)"

definition http_poll :: "tcp_ans \<Rightarrow> nat \<Rightarrow> portal \<Rightarrow> portal" where
  "http_poll a p s =
     (case slot_of p s of None \<Rightarrow> hemit [H_abort p] s
      | Some i \<Rightarrow>
          let s = set_conn i ((conns s ! i)\<lparr>c_idle := c_idle (conns s ! i) + 1\<rparr>) s
          in if c_idle (conns s ! i) > IDLE_POLLS then hemit [H_abort p] (conn_free i s)
             else if responded (conns s ! i) then conn_send_more a i s else s)"

definition http_err :: "nat \<Rightarrow> portal \<Rightarrow> portal" where
  "http_err p s = (case slot_of p s of None \<Rightarrow> s | Some i \<Rightarrow> conn_free i s)"

definition http_accept :: "bool \<Rightarrow> nat \<Rightarrow> netif_id \<Rightarrow> portal \<Rightarrow> portal" where
  "http_accept ok p inp s =
     (if \<not> ok then s
      else if inp \<noteq> N_usb then hemit [H_abort p] s
      else case find (\<lambda>i. c_pcb (conns s ! i) = None) [0 ..< HTTP_CONNS] of
             None \<Rightarrow> hemit [H_abort p] s
           | Some i \<Rightarrow> set_conn i (zero_conn\<lparr>c_pcb := Some p\<rparr>) s)"

section \<open>Strings in JSON\<close>

definition hex_val :: "char \<Rightarrow> nat" where
  "hex_val c = (if is_digit c then of_char c - 48 else of_char c - 87)"

text \<open>A reader of JSON strings behind the opening quote: the text and the rest.\<close>

fun json_read :: "string \<Rightarrow> (string \<times> string) option" where
  "json_read [] = None"
| "json_read (c # cs) =
     (if c = CHR 0x22 then Some ([], cs)
      else if c = CHR 0x5C then
        (case cs of
           [] \<Rightarrow> None
         | d # r \<Rightarrow>
             if d = CHR 0x22 \<or> d = CHR 0x5C then map_option (apfst ((#) d)) (json_read r)
             else if d = CHR ''u'' then
               (case r of
                  x1 # x2 # x3 # x4 # r' \<Rightarrow>
                    map_option (apfst ((#) (char_of (4096 * hex_val x1 + 256 * hex_val x2 + 16 * hex_val x3 + hex_val x4)))) (json_read r')
                | _ \<Rightarrow> None)
             else None)
      else if (of_char c :: nat) < 0x20 then None
      else map_option (apfst ((#) c)) (json_read cs))"

lemma hex_val_digit: "n < 16 \<Longrightarrow> hex_val (hex_digit n) = n"
  by (simp add: hex_digit_def hex_val_def is_digit_def)

lemma json_read_char: "json_read (json_char c @ rest) = map_option (apfst ((#) c)) (json_read rest)"
proof -
  define n :: nat where "n = of_char c"
  have n: "n < 256" "char_of n = c" by (simp_all add: n_def)
  have u: "unat (of_char c :: u8) = n" by (cases c) (simp add: n_def of_char_def)
  have "16 * (n div 16) + n mod 16 = n" by simp
  moreover have "hex_val (hex_digit (n div 16)) = n div 16" "hex_val (hex_digit (n mod 16)) = n mod 16"
    using n(1) by (simp_all add: hex_val_digit less_mult_imp_div_less)
  moreover have "hex_val (CHR ''0'') = 0" by (simp add: hex_val_def is_digit_def)
  ultimately show ?thesis using n(2)
    by (auto simp: json_char_def fmt_02x_def u n_def [symmetric])
qed

lemma json_read_text: "json_read (concat (map json_char t) @ CHR 0x22 # rest) = Some (t, rest)"
  by (induction t) (simp_all add: json_read_char)

lemma length_json_char: "length (json_char c) \<le> 6" "1 \<le> length (json_char c)"
  by (simp_all add: json_char_def fmt_02x_def)

lemma json_loop_spec:
  "\<exists>k. json_loop cap o' s = o' @ concat (map json_char (take k s)) \<and>
     (length o' < cap \<longrightarrow> length (json_loop cap o' s) < cap) \<and>
     (length o' + length (concat (map json_char s)) + 8 \<le> cap \<longrightarrow> k = length s)"
proof (induction cap o' s rule: json_loop.induct)
  case (2 cap o' c cs)
  show ?case
  proof (cases "length o' + 8 < cap")
    case True
    from 2 [OF True] obtain k where k: "json_loop cap (o' @ json_char c) cs = (o' @ json_char c) @ concat (map json_char (take k cs))"
      "length (o' @ json_char c) < cap \<longrightarrow> length (json_loop cap (o' @ json_char c) cs) < cap"
      "length (o' @ json_char c) + length (concat (map json_char cs)) + 8 \<le> cap \<longrightarrow> k = length cs" by blast
    show ?thesis using True k length_json_char(1) [of c] by (intro exI [of _ "Suc k"]) auto
  next
    case False
    then show ?thesis using length_json_char(2) [of c] by (intro exI [of _ 0]) auto
  qed
qed simp

lemma json_str_spec:
  assumes "2 \<le> cap"
  shows "\<exists>k. json_str cap s = CHR 0x22 # concat (map json_char (take k (c_str s))) @ [CHR 0x22] \<and>
    length (json_str cap s) \<le> cap \<and> (length (concat (map json_char (c_str s))) + 9 \<le> cap \<longrightarrow> k = length (c_str s))"
proof -
  obtain k where k: "json_loop cap [CHR 0x22] (c_str s) = [CHR 0x22] @ concat (map json_char (take k (c_str s)))"
    "length [CHR 0x22] < cap \<longrightarrow> length (json_loop cap [CHR 0x22] (c_str s)) < cap"
    "length [CHR 0x22] + length (concat (map json_char (c_str s))) + 8 \<le> cap \<longrightarrow> k = length (c_str s)"
    using json_loop_spec [of cap "[CHR 0x22]" "c_str s"] by blast
  then have "json_str cap s = [CHR 0x22] @ concat (map json_char (take k (c_str s))) @ [CHR 0x22]"
    using assms by (simp add: json_str_def Let_def)
  then show ?thesis using k assms by (intro exI [of _ k]) (auto simp: json_str_def Let_def)
qed

text \<open>A body never outgrows its buffer.\<close>

lemma length_json_str: "length (json_str cap s) \<le> cap"
proof (cases "2 \<le> cap")
  case True
  then show ?thesis using json_str_spec by blast
next
  case False
  then have "cap = 0 \<or> cap = 1" by linarith
  then show ?thesis by (cases "c_str s") (auto simp: json_str_def)
qed

lemma length_jstep: "1 \<le> cap \<Longrightarrow> length o' \<le> cap \<Longrightarrow> length (jstep cap j o') \<le> cap"
proof (cases j)
  case (JS t)
  assume "length o' \<le> cap"
  then show ?thesis using JS length_json_str [of "cap - length o'" t] by simp
qed (auto simp: jadd_def)

lemma length_jrun: "1 \<le> cap \<Longrightarrow> length (jrun cap js) \<le> cap"
proof -
  assume c: "1 \<le> cap"
  have "length o' \<le> cap \<Longrightarrow> length (fold (jstep cap) js o') \<le> cap" for o'
    by (induction js arbitrary: o') (simp_all add: length_jstep [OF c])
  then show ?thesis by (simp add: jrun_def)
qed

text \<open>A string of the configuration or of the scan table reads back as it is, or a beginning of it if there is no room; the
  characters after it are left to the reader.\<close>

lemma json_str_reads_back:
  assumes "2 \<le> cap"
  shows "\<exists>k t. json_str cap s = CHR 0x22 # t \<and> json_read (t @ rest) = Some (take k (c_str s), rest) \<and>
    (length (concat (map json_char (c_str s))) + 9 \<le> cap \<longrightarrow> k = length (c_str s))"
proof -
  obtain k where k: "json_str cap s = CHR 0x22 # concat (map json_char (take k (c_str s))) @ [CHR 0x22]"
    "length (concat (map json_char (c_str s))) + 9 \<le> cap \<longrightarrow> k = length (c_str s)" using json_str_spec [OF assms, of s] by blast
  then show ?thesis using json_read_text [of "take k (c_str s)" rest]
    by (intro exI [of _ k] exI [of _ "concat (map json_char (take k (c_str s))) @ [CHR 0x22]"]) simp
qed

section \<open>What the bodies tell of the secrets\<close>

text \<open>The configuration with each secret replaced by whether it is set.\<close>

definition mark :: "string \<Rightarrow> string" where
  "mark t = (if c_str t = [] then [] else ''x'')"

definition conceal :: "config \<Rightarrow> config" where
  "conceal c = c\<lparr>profiles := map (\<lambda>p. p\<lparr>password := mark (password p)\<rparr>) (profiles c),
     wg := (wg c)\<lparr>private_key := mark (private_key (wg c)), psk := mark (psk (wg c))\<rparr>,
     ap := (ap c)\<lparr>ap_password := []\<rparr>\<rparr>"

lemma mark_empty [simp]: "c_str (mark t) = [] \<longleftrightarrow> c_str t = []"
  by (auto simp: mark_def c_str_def)

lemma conceal_fields [simp]:
  "profile_count (conceal c) = profile_count c" "active (conceal c) = active c"
  "length (profiles (conceal c)) = length (profiles c)"
  by (simp_all add: conceal_def)

lemma profile_items_conceal: "i < length (profiles c) \<Longrightarrow> profile_items e (conceal c) i = profile_items e c i"
  by (simp add: profile_items_def conceal_def Let_def)

lemma wg_items_conceal: "wg_items e pk (wg (conceal c)) = wg_items e pk (wg c)"
proof -
  have "route_item e (wg (conceal c)) = route_item e (wg c)" by (rule ext) (simp add: route_item_def conceal_def)
  then show ?thesis by (simp add: wg_items_def) (simp add: conceal_def)
qed

lemma ap_items_conceal: "ap_items e (conceal c) = ap_items e c"
  by (simp add: ap_items_def conceal_def Let_def)

lemma complete_conceal: "config_wg_complete (conceal c) = config_wg_complete c"
  by (simp add: config_wg_complete_def Let_def) (simp add: conceal_def)

lemma active_ssid_conceal:
  "profile_count c \<le> length (profiles c) \<Longrightarrow> config_active_ssid (conceal c) = config_active_ssid c"
  by (auto simp: config_active_ssid_def active_profile_def conceal_def)

lemma find_profile_conceal: "config_find_profile (conceal c) t = config_find_profile c t"
proof -
  have "find_from t (map (\<lambda>p. p\<lparr>password := mark (password p)\<rparr>) ps) i = find_from t ps i" for ps i
    by (induction ps arbitrary: i) simp_all
  then show ?thesis by (simp add: config_find_profile_def saved_def conceal_def take_map)
qed

lemma net_items_conceal: "net_items e (conceal c) link i en = net_items e c link i en"
  by (simp add: net_items_def find_profile_conceal Let_def split: option.splits)

lemma status_conceal:
  assumes "profile_count c \<le> length (profiles c)" "config_proto_pubkey (w_cp w) c 48 = pk"
  shows "status_json w c cap =
     (let e = w_cp w; up = sta_link_up (live e); pubkey = (case pk of Some t \<Rightarrow> t | None \<Rightarrow> []); c = conceal c
      in jrun cap
        ([J (''{'' @ jkey ''version'' @ quoted (FW_VERSION e) @ '','' @ jkey ''uptime_s'' @ dec (unat (w_uptime_ms w div 1000)) @ '',''),
          J (jkey ''provisioned'' @ jb (config_wg_complete c) @ '','' @ jkey ''leased'' @ jb (usb_leased (live e)) @ '',''),
          J (jkey ''wifi'' @ ''{'' @ jkey ''ssid''), JS (config_active_ssid c),
          J ('','' @ jkey ''link'' @ jb up @ '','' @ jkey ''ip'' @ quoted (snprintf 20 (ip4addr_ntoa e (w_sta_addr w))) @ '','' @
             jkey ''state'' @ quoted (if up then ''up'' else conn_state_str (live e)) @ '','' @ jkey ''profiles'' @ ''['')] @
         concat (map (profile_items e c) [0 ..< profile_count c]) @ [J '']},''] @ wg_items e pubkey (wg c) @ ap_items e c @ usb_items w))"
proof -
  have "map (profile_items (w_cp w) (conceal c)) [0 ..< profile_count c] = map (profile_items (w_cp w) c) [0 ..< profile_count c]"
    using assms(1) by (intro map_cong refl) (simp add: profile_items_conceal)
  then show ?thesis
    unfolding status_json_def Let_def assms(2) complete_conceal active_ssid_conceal [OF assms(1)] wg_items_conceal ap_items_conceal
      conceal_fields by (simp only:)
qed

section \<open>Pieces\<close>

text \<open>A response byte by byte: a character, or a place in the ring.\<close>

fun cells :: "piece list \<Rightarrow> (char + nat) list" where
  "cells [] = []"
| "cells (P_text t # gs) = map Inl t @ cells gs"
| "cells (P_ring a n # gs) = map Inr [a ..< a + n] @ cells gs"

lemma cells_append: "cells (gs @ hs) = cells gs @ cells hs"
  by (induction gs rule: cells.induct) simp_all

lemma cells_split: "cells [piece_take k g] @ cells (piece_drop k g # gs) = cells (g # gs)"
proof (cases g)
  case (P_text t)
  have "map Inl (take k t) @ map Inl (drop k t) = (map Inl t :: (char + nat) list)" by (metis append_take_drop_id map_append)
  then show ?thesis using P_text by simp
next
  case (P_ring a n)
  have "[a ..< a + min k n] @ [a + k ..< a + k + (n - k)] = [a ..< a + n]"
    using upt_add_eq_append [of a "a + k" "n - k"] by (cases "k \<le> n") (simp_all add: min_def)
  then have "map Inr [a ..< a + min k n] @ map Inr [a + k ..< a + k + (n - k)] = (map Inr [a ..< a + n] :: (char + nat) list)"
    by (metis map_append)
  then show ?thesis using P_ring by simp
qed

lemma cells_empty: "piece_len g = 0 \<Longrightarrow> cells (g # gs) = cells gs"
  by (cases g) simp_all

lemma send_loop_cells: "cells (snd (send_loop a k gs)) @ cells (fst (send_loop a k gs)) = cells gs"
proof (induction a k gs rule: send_loop.induct)
  case (2 a k g gs)
  note step = send_loop.simps(2) [of a k g gs]
  consider "piece_len g = 0" | "piece_len g \<noteq> 0" "t_room a k = 0 \<or> \<not> t_write a k"
    | "piece_len g \<noteq> 0" "\<not> (t_room a k = 0 \<or> \<not> t_write a k)" by blast
  then show ?case
  proof cases
    case 1
    then show ?thesis using 2(1) cells_empty by (simp add: step)
  next
    case 2
    then have "send_loop a k (g # gs) = (g # gs, [])" using step by auto
    then show ?thesis by simp
  next
    case 3
    let ?k = "min (piece_len g) (t_room a k)"
    let ?r = "send_loop a (k + 1) (piece_drop ?k g # gs)"
    have ih: "cells (snd ?r) @ cells (fst ?r) = cells (piece_drop ?k g # gs)"
      using "2.IH"(2) [OF 3 refl] by simp
    have "send_loop a k (g # gs) = (fst ?r, piece_take ?k g # snd ?r)"
      using step 3 by (simp add: Let_def case_prod_beta)
    then show ?thesis
      using ih cells_split [of ?k g gs] cells_append [of "[piece_take ?k g]" "snd ?r"] by (simp del: cells.simps)
  qed
qed (simp add: send_loop.simps)

section \<open>Reading a request\<close>

lemma find_sub_skip: "c \<notin> set h \<Longrightarrow> find_sub (c # p) (h @ y) = map_option ((+) (length h)) (find_sub (c # p) y)"
  by (induction h) (auto simp: starts_def option.map_comp comp_def option.map_ident cong: option.map_cong)

lemma starts_take: "starts p (take m r) \<longleftrightarrow> length p \<le> m \<and> starts p r"
proof (cases "length p \<le> m")
  case True
  then show ?thesis by (simp add: starts_def min_def)
next
  case False
  then have "length (take (length p) (take m r)) < length p" by simp
  then show ?thesis using False by (auto simp: starts_def)
qed

lemma find_sub_take:
  "p \<noteq> [] \<Longrightarrow> find_sub p (take m r) = Some k \<Longrightarrow> find_sub p r = Some k \<and> k + length p \<le> m"
proof (induction r arbitrary: m k)
  case (Cons c cs)
  from Cons.prems obtain m' where m: "m = Suc m'" by (cases m) auto
  have st: "starts p (c # take m' cs) \<longleftrightarrow> length p \<le> m \<and> starts p (c # cs)" using starts_take [of p m "c # cs"] by (simp add: m)
  show ?case
  proof (cases "starts p (c # take m' cs)")
    case True
    then show ?thesis using Cons.prems(2) st by (simp add: m)
  next
    case False
    then obtain k' where k: "find_sub p (take m' cs) = Some k'" "k = Suc k'" using Cons.prems(2) by (auto simp: m)
    note ih = Cons.IH [OF Cons.prems(1) k(1)]
    then have "\<not> starts p (c # cs)" using False st by (simp add: m)
    then show ?thesis using ih k(2) by (simp add: m)
  qed
qed simp

text \<open>Header lines.\<close>

definition good_line :: "string \<Rightarrow> bool" where
  "good_line h \<longleftrightarrow> h \<noteq> [] \<and> CR \<notin> set h \<and> LF \<notin> set h \<and> NUL \<notin> set h"

definition lines_text :: "string list \<Rightarrow> string" where
  "lines_text hs = concat (map (\<lambda>h. h @ CRLF) hs)"

lemma lines_text_simps [simp]: "lines_text [] = []" "lines_text (h # hs) = h @ CR # LF # lines_text hs"
  "lines_text (hs @ hs') = lines_text hs @ lines_text hs'"
  by (simp_all add: lines_text_def)

lemma find_blank:
  "hs \<noteq> [] \<Longrightarrow> list_all good_line hs \<Longrightarrow>
   find_sub (CRLF @ CRLF) (lines_text hs @ CRLF @ b) = Some (length (lines_text hs) - 2)"
proof (induction hs)
  case (Cons h hs)
  have h: "CR \<notin> set h" using Cons.prems by (simp add: good_line_def)
  show ?case
  proof (cases hs)
    case Nil
    then show ?thesis using find_sub_skip [OF h] by (simp add: starts_def)
  next
    case (Cons h2 hs2)
    then obtain x h2' where x: "h2 = x # h2'" "x \<noteq> CR" using Cons.prems by (cases h2) (auto simp: good_line_def)
    have "find_sub (CRLF @ CRLF) (lines_text hs @ CRLF @ b) = Some (length (lines_text hs) - 2)"
      using Cons.IH Cons.prems Cons by simp
    then show ?thesis using find_sub_skip [OF h, of "LF # CRLF" "CR # LF # lines_text hs @ CRLF @ b"] Cons x
      by (simp add: starts_def)
  qed
qed simp

lemma cl_skip: "LF \<notin> set h \<Longrightarrow> content_len (h @ y) (length h + k) = content_len y k"
  by (induction h) auto

definition cl_name :: "string \<Rightarrow> bool" where
  "cl_name h \<longleftrightarrow> strcasecmp_eq (take 15 h) ''Content-Length:''"

lemma cl_name_line:
  assumes "\<not> cl_name h"
  shows "\<not> strcasecmp_eq (take 15 (h @ CR # y)) ''Content-Length:''"
proof (cases "15 \<le> length h")
  case True
  then show ?thesis using assms by (simp add: cl_name_def)
next
  case False
  then have "CR \<in> set (take 15 (h @ CR # y))" by (simp add: take_Cons')
  then have "to_lower CR \<in> set (map to_lower (take 15 (h @ CR # y)))" by (metis imageI list.set_map)
  moreover have "to_lower CR \<notin> set (map to_lower ''Content-Length:'')" by code_simp
  ultimately show ?thesis unfolding strcasecmp_eq_def by metis
qed

lemma content_len_found:
  assumes "LF \<notin> set v" "list_all good_line hs" "list_all (\<lambda>h. \<not> cl_name h) hs"
  shows "content_len (v @ CR # LF # lines_text hs @ ''Content-Length:'' @ y) (length v + 2 + length (lines_text hs) + k) =
    strtoul (c_str y)"
  using assms
proof (induction hs arbitrary: v)
  case Nil
  then show ?case using cl_skip [of v "CR # LF # ''Content-Length:'' @ y" "Suc (Suc k)"]
    by (simp add: strcasecmp_eq_def)
next
  case (Cons h hs)
  let ?y = "h @ CR # LF # lines_text hs @ ''Content-Length:'' @ y" and ?k = "length h + 2 + length (lines_text hs) + k"
  have h: "LF \<notin> set h" "\<not> cl_name h" using Cons.prems by (simp_all add: good_line_def)
  have "content_len (v @ CR # LF # ?y) (length v + Suc (Suc ?k)) = content_len (CR # LF # ?y) (Suc (Suc ?k))"
    by (rule cl_skip [OF Cons.prems(1)])
  also have "\<dots> = content_len (LF # ?y) (Suc ?k)" by simp
  also have "\<dots> = content_len ?y ?k"
    using cl_name_line [OF h(2), of "LF # lines_text hs @ ''Content-Length:'' @ y"] by (simp only: content_len.simps if_False simp_thms)
  also have "\<dots> = strtoul (c_str y)" using Cons.IH [OF h(1)] Cons.prems by simp
  finally have "content_len (v @ CR # LF # ?y) (length v + Suc (Suc ?k)) = strtoul (c_str y)" .
  moreover have "length v + Suc (Suc ?k) = length v + 2 + length (lines_text (h # hs)) + k" by simp
  moreover have "v @ CR # LF # lines_text (h # hs) @ ''Content-Length:'' @ y = v @ CR # LF # ?y" by simp
  ultimately show ?case by (simp only:)
qed

lemma dec_digits: "list_all is_digit (dec n) \<and> dec n \<noteq> [] \<and> digits_val (dec n) = int n"
proof (induction n rule: dec.induct)
  case (1 n)
  have d: "is_digit (char_of (48 + k))" "(of_char (char_of (48 + k) :: char) :: int) = 48 + int k" if "k < 10" for k :: nat
    using that by (simp_all add: is_digit_def flip: of_nat_of_char [where ?'a = int])
  have s: "digits_val (ds @ [c]) = 10 * digits_val ds + (of_char c - 48)" for ds c by (simp add: digits_val_def)
  show ?case
  proof (cases "n < 10")
    case True
    then show ?thesis using d [OF True] by (subst (1 2 3) dec.simps) (simp add: digits_val_def)
  next
    case False
    then have "dec n = dec (n div 10) @ [char_of (48 + n mod 10)]" by (subst dec.simps) simp
    moreover have "10 * int (n div 10) + int (n mod 10) = int n" by (metis of_nat_add of_nat_mult of_nat_numeral mult_div_mod_eq)
    ultimately show ?thesis using 1 False d [of "n mod 10"] by (simp add: s)
  qed
qed

lemma digit_plain: "is_digit c \<Longrightarrow> \<not> is_space c \<and> c \<noteq> CHR ''-'' \<and> c \<noteq> CHR ''+'' \<and> c \<noteq> NUL \<and> c \<noteq> CR \<and> c \<noteq> LF"
  by (auto simp: is_digit_def is_space_def)

lemma strtoul_dec:
  assumes "n < 2 ^ 32"
  shows "strtoul (c_str (CHR '' '' # dec n @ CR # y)) = of_nat n"
proof -
  have d: "list_all is_digit (dec n)" "dec n \<noteq> []" "digits_val (dec n) = int n" using dec_digits [of n] by auto
  have "NUL \<notin> set (dec n)" using d(1) digit_plain by (auto simp: list_all_iff)
  then have c: "c_str (CHR '' '' # dec n @ CR # y) = CHR '' '' # dec n @ CR # c_str y"
    by (simp add: c_str_def takeWhile_append)
  obtain x xs where x: "dec n = x # xs" using d(2) by (cases "dec n") auto
  have xd: "\<not> is_space x" "x \<noteq> CHR ''-''" "x \<noteq> CHR ''+''" using d(1) digit_plain by (auto simp: x)
  have t: "takeWhile is_digit (dec n @ CR # c_str y) = dec n"
    using d(1) by (simp add: takeWhile_append list_all_iff is_digit_def)
  have s: "is_space (CHR '' '')" by (simp add: is_space_def)
  have "dropWhile is_space (CHR '' '' # dec n @ CR # c_str y) = dec n @ CR # c_str y" using s xd(1) by (simp add: x)
  moreover have "(case dec n @ CR # c_str y of [] \<Rightarrow> (False, dec n @ CR # c_str y)
     | c # u \<Rightarrow> if c = CHR ''-'' then (True, u) else if c = CHR ''+'' then (False, u) else (False, dec n @ CR # c_str y)) =
     (False, dec n @ CR # c_str y)" using xd by (simp add: x)
  ultimately show ?thesis using assms by (simp only: strtoul_def c Let_def prod.case t d(3)) simp
qed

section \<open>Any callbacks\<close>

datatype web_call = C_accept bool nat netif_id | C_recv nat "string option" bool | C_sent nat | C_poll nat | C_err nat
  | C_console cp_action \<comment> \<open>the protocol, used elsewhere\<close> | C_frame u64 bytes \<comment> \<open>a frame is captured\<close>

fun portal_call :: "web_env \<times> tcp_ans \<times> web_call \<Rightarrow> portal \<Rightarrow> portal" where
  "portal_call (w, a, C_accept ok p n) s = http_accept ok p n s"
| "portal_call (w, a, C_recv p t ok) s = http_recv w a p t ok s"
| "portal_call (w, a, C_sent p) s = http_sent a p s"
| "portal_call (w, a, C_poll p) s = http_poll a p s"
| "portal_call (w, a, C_err p) s = http_err p s"
| "portal_call (w, a, C_console act) s = ran (cp_step (w_cp w, act) (con s)) s"
| "portal_call (w, a, C_frame us frame) s = s\<lparr>cap_ring := pcap_capture us frame (cap_ring s)\<rparr>"

lemma set_conn_fields [simp]:
  "conns (set_conn i c s) = (conns s)[i := c]" "cap_ring (set_conn i c s) = cap_ring s" "con (set_conn i c s) = con s"
  "hevents (set_conn i c s) = hevents s"
  by (simp_all add: set_conn_def)

lemma hemit_fields [simp]:
  "conns (hemit vs s) = conns s" "cap_ring (hemit vs s) = cap_ring s" "con (hemit vs s) = con s"
  "hevents (hemit vs s) = hevents s @ vs"
  by (simp_all add: hemit_def)

lemma conn_free_fields [simp]:
  "conns (conn_free i s) = (conns s)[i := zero_conn]" "con (conn_free i s) = con s" "hevents (conn_free i s) = hevents s"
  by (simp_all add: conn_free_def Let_def)

lemma slot_of_Some: "slot_of p s = Some i \<Longrightarrow> i < length (conns s) \<and> c_pcb (conns s ! i) = Some p"
  by (auto simp: slot_of_def find_Some_iff)

lemma slot_of_None: "slot_of p s = None \<longleftrightarrow> Some p \<notin> c_pcb ` set (conns s)"
  by (auto simp: slot_of_def find_None_iff in_set_conv_nth image_iff) (metis nth_mem)

lemma handle_request_all:
  assumes "Q s" "\<And>st ct ex b. Q (conn_respond a i st ct ex b s)" "\<And>st ct ex b. Q (conn_respond a i st ct ex b (hemit [H_request_scan] s))"
    "Q (handle_pcap a i s)" "\<And>pe he. Q (handle_cmd w a i pe he s)"
  shows "Q (handle_request w a i s)"
proof -
  have i: "Q x \<Longrightarrow> Q y \<Longrightarrow> Q (if z then x else y)" for x y z by simp
  have o: "Q x \<Longrightarrow> (\<And>a. Q (f a)) \<Longrightarrow> Q (case z of None \<Rightarrow> x | Some a \<Rightarrow> f a)" for x f and z :: "nat option"
    by (cases z) simp_all
  have r: "Q (conn_respond a i st ct ex b (if z then hemit [H_request_scan] s else s))" for st ct ex b z
    using assms(2,3) by simp
  show ?thesis unfolding handle_request_def Let_def by (intro i o r assms)
qed

text \<open>No operation makes up a connection.\<close>

definition pcbs :: "portal \<Rightarrow> nat option set" where
  "pcbs s = c_pcb ` set (conns s)"

lemma pcbs_update:
  "i < length (conns s) \<Longrightarrow> conns s' = (conns s)[i := c] \<Longrightarrow> c_pcb c = c_pcb (conns s ! i) \<or> c = zero_conn \<Longrightarrow>
   pcbs s' \<subseteq> insert None (pcbs s)"
  by (auto simp: pcbs_def zero_conn_def dest!: set_update_subset_insert [THEN subsetD])

lemma pcbs_hemit [simp]: "pcbs (hemit vs s) = pcbs s"
  by (simp add: pcbs_def)

text \<open>What the handling of a request or of an acknowledgement does to the slots and the ring: the slot is freed, and the
  ring with it, or it is still the connection's.\<close>

definition slot_step :: "nat \<Rightarrow> portal \<Rightarrow> portal \<Rightarrow> bool" where
  "slot_step i s s' \<longleftrightarrow> (\<exists>c. conns s' = (conns s)[i := c] \<and>
     (c = zero_conn \<and> (paused (cap_ring s') \<longrightarrow> paused (cap_ring s) \<and> \<not> pcap_hold (conns s ! i)) \<or>
      c_pcb c = c_pcb (conns s ! i) \<and> c_req c = c_req (conns s ! i) \<and> c_idle c = c_idle (conns s ! i) \<and>
      (pcap_hold (conns s ! i) \<longrightarrow> pcap_hold c) \<and> (paused (cap_ring s') \<longrightarrow> paused (cap_ring s) \<or> pcap_hold c)))"

lemma conn_send_more_con [simp]: "con (conn_send_more a i s) = con s"
  by (simp add: conn_send_more_def Let_def case_prod_beta)

lemma conn_respond_con [simp]: "con (conn_respond a i st ct ex b s) = con s"
  by (simp add: conn_respond_def)

lemma slot_step_send:
  assumes "i < length (conns s)" "conns s' = (conns s)[i := c]" "c_pcb c = c_pcb (conns s ! i)" "c_req c = c_req (conns s ! i)"
    "c_idle c = c_idle (conns s ! i)" "pcap_hold (conns s ! i) \<longrightarrow> pcap_hold c"
    "paused (cap_ring s') \<longrightarrow> paused (cap_ring s) \<or> pcap_hold c"
  shows "slot_step i s (conn_send_more a i s')"
proof -
  define t where "t = hemit (map (H_write (the (c_pcb c))) (snd (send_loop a 0 (pieces c))))
    (set_conn i (c\<lparr>pieces := fst (send_loop a 0 (pieces c))\<rparr>) s')"
  have c: "conns s' ! i = c" using assms(1,2) by simp
  have e: "slot_step i s (hemit v u)" if "slot_step i s u" for v u using that by (simp add: slot_step_def)
  have t: "slot_step i s t" using assms by (auto simp: slot_step_def t_def)
  have "conns (hemit v t) ! i = c\<lparr>pieces := fst (send_loop a 0 (pieces c))\<rparr>" "cap_ring (hemit v t) = cap_ring s'"
    "conns (hemit v t) = (conns s)[i := c\<lparr>pieces := fst (send_loop a 0 (pieces c))\<rparr>]" for v
    using assms(1,2) by (simp_all add: t_def)
  then have f: "slot_step i s (conn_free i (hemit v t))" for v
    using assms by (auto simp: slot_step_def conn_free_def Let_def pcap_resume_def)
  show ?thesis
    unfolding conn_send_more_def Let_def case_prod_beta c t_def [symmetric] by (auto intro: t e f)
qed

lemma slot_step_respond:
  assumes "i < length (conns s)" "conns s' = conns s" "paused (cap_ring s') = paused (cap_ring s)"
  shows "slot_step i s (conn_respond a i st ct ex b s')"
  unfolding conn_respond_def
  by (rule slot_step_send [where c = "(conns s ! i)\<lparr>pieces := response_pieces st ct ex b, responded := True\<rparr>"]) (use assms in simp_all)

lemma slot_step_request:
  assumes "i < length (conns s)"
  shows "slot_step i s (handle_request w a i s)"
proof (rule handle_request_all)
  show "slot_step i s s" by (auto simp: slot_step_def intro!: exI [of _ "conns s ! i"])
  show "slot_step i s (conn_respond a i st ct ex b s)" for st ct ex b using slot_step_respond [OF assms] by simp
  show "slot_step i s (conn_respond a i st ct ex b (hemit [H_request_scan] s))" for st ct ex b
    using slot_step_respond [OF assms] by simp
  show "slot_step i s (handle_pcap a i s)"
    unfolding handle_pcap_def Let_def case_prod_beta
    by (rule slot_step_send [where c = "(conns s ! i)\<lparr>pcap_hold := True, responded := True, pieces := ps\<rparr>" for ps])
      (use assms in simp_all)
  show "slot_step i s (handle_cmd w a i pe he s)" for pe he
  proof -
    have "slot_step i s (conn_respond a i st ct ex b (ran k s))" for st ct ex b k
      using slot_step_respond [OF assms] by simp
    then show ?thesis using slot_step_respond [OF assms] \<open>slot_step i s s\<close> by (simp add: handle_cmd_def Let_def)
  qed
qed

section \<open>The portal's invariant\<close>

definition conn_ok :: "http_conn \<Rightarrow> bool" where
  "conn_ok c \<longleftrightarrow> length (c_req c) \<le> REQ_MAX - 1 \<and> c_idle c \<le> IDLE_POLLS \<and> (c_pcb c = None \<longrightarrow> c = zero_conn)"

definition slots_ok :: "portal \<Rightarrow> bool" where
  "slots_ok s \<longleftrightarrow> length (conns s) = HTTP_CONNS \<and> list_all conn_ok (conns s) \<and>
     (paused (cap_ring s) \<longrightarrow> (\<exists>c \<in> set (conns s). pcap_hold c))"

lemma zero_conn_ok [simp]: "conn_ok zero_conn" "\<not> pcap_hold zero_conn" "c_pcb zero_conn = None"
  by (simp_all add: conn_ok_def zero_conn_def)

lemma hold_update:
  "i < length cs \<Longrightarrow> \<exists>c \<in> set cs. P c \<Longrightarrow> \<not> P (cs ! i) \<or> P c' \<Longrightarrow> \<exists>c \<in> set (cs[i := c']). P c"
  by (metis in_set_conv_nth length_list_update nth_list_update)

lemma slot_step_ok:
  assumes "slots_ok s" "slot_step i s s'" "i < length (conns s)" "c_pcb (conns s ! i) \<noteq> None"
  shows "slots_ok s'"
proof -
  from assms(2) obtain c where c: "conns s' = (conns s)[i := c]" and
    d: "c = zero_conn \<and> (paused (cap_ring s') \<longrightarrow> paused (cap_ring s) \<and> \<not> pcap_hold (conns s ! i)) \<or>
      c_pcb c = c_pcb (conns s ! i) \<and> c_req c = c_req (conns s ! i) \<and> c_idle c = c_idle (conns s ! i) \<and>
      (pcap_hold (conns s ! i) \<longrightarrow> pcap_hold c) \<and> (paused (cap_ring s') \<longrightarrow> paused (cap_ring s) \<or> pcap_hold c)"
    by (auto simp: slot_step_def)
  have "conn_ok (conns s ! i)" using assms(1,3) by (simp add: slots_ok_def list_all_length)
  then have "c = zero_conn \<or> conn_ok c" using d assms(4) by (auto simp: conn_ok_def)
  then have "conn_ok c" by auto
  then have "list_all conn_ok (conns s')"
    using assms(1) unfolding c slots_ok_def list_all_iff by (auto dest!: set_update_subset_insert [THEN subsetD])
  moreover have "\<exists>c \<in> set (conns s'). pcap_hold c" if "paused (cap_ring s')"
  proof (cases "pcap_hold c")
    case True
    then show ?thesis using assms(3) by (auto simp: c set_update_memI)
  next
    case False
    then show ?thesis using d that assms(1,3) unfolding c by (intro hold_update) (auto simp: slots_ok_def)
  qed
  ultimately show ?thesis using assms(1) by (simp add: slots_ok_def c)
qed
lemma slots_ok_hemit [simp]: "slots_ok (hemit vs s) = slots_ok s"
  by (simp add: slots_ok_def)

lemma slots_ok_set:
  assumes "slots_ok s" "i < length (conns s)" "conn_ok c" "pcap_hold (conns s ! i) \<longrightarrow> pcap_hold c"
  shows "slots_ok (set_conn i c s)"
proof -
  have "list_all conn_ok ((conns s)[i := c])"
    using assms unfolding slots_ok_def list_all_iff by (auto dest!: set_update_subset_insert [THEN subsetD])
  moreover have "paused (cap_ring s) \<Longrightarrow> \<exists>c \<in> set ((conns s)[i := c]). pcap_hold c"
    using assms by (intro hold_update) (auto simp: slots_ok_def)
  ultimately show ?thesis using assms(1) by (simp add: slots_ok_def)
qed

lemma slots_ok_free:
  assumes "slots_ok s" "i < length (conns s)"
  shows "slots_ok (conn_free i s)"
proof (cases "pcap_hold (conns s ! i)")
  case True
  have "list_all conn_ok ((conns s)[i := zero_conn])"
    using assms unfolding slots_ok_def list_all_iff by (auto dest!: set_update_subset_insert [THEN subsetD])
  then show ?thesis using assms True by (simp add: slots_ok_def conn_free_def Let_def pcap_resume_def)
next
  case False
  then have "conn_free i s = set_conn i zero_conn s" by (simp add: conn_free_def)
  then show ?thesis using slots_ok_set [OF assms, of zero_conn] False by simp
qed

lemma slots_ok_conn: "slots_ok s \<Longrightarrow> i < length (conns s) \<Longrightarrow> conn_ok (conns s ! i)"
  by (simp add: slots_ok_def list_all_length)

lemma conn_ok_some: "c_pcb c = Some p \<Longrightarrow> conn_ok c \<longleftrightarrow> length (c_req c) \<le> REQ_MAX - 1 \<and> c_idle c \<le> IDLE_POLLS"
  by (simp add: conn_ok_def)

text \<open>Bytes that arrive on a connection.\<close>

definition got :: "nat \<Rightarrow> nat \<Rightarrow> string \<Rightarrow> portal \<Rightarrow> portal" where
  "got p i b s = hemit [H_recved p (length b)]
     (set_conn i ((conns s ! i)\<lparr>c_req := c_req (conns s ! i) @ take (min (length b) (REQ_MAX - 1 - length (c_req (conns s ! i)))) b,
        c_idle := 0\<rparr>) s)"

lemma http_recv_data:
  "slot_of p s = Some i \<Longrightarrow> http_recv w a p (Some b) ok s =
     (if \<not> ok then s else if responded (conns s ! i) then got p i b s
      else if min (length b) (REQ_MAX - 1 - length (c_req (conns s ! i))) = 0 then conn_free i (hemit [H_abort p] (got p i b s))
      else handle_request w a i (got p i b s))"
  unfolding http_recv_def got_def Let_def by (simp only: option.case)

lemma got_conns: "conns (got p i b s) = (conns s)[i := (conns s ! i)\<lparr>c_req := c_req (conns s ! i) @
    take (min (length b) (REQ_MAX - 1 - length (c_req (conns s ! i)))) b, c_idle := 0\<rparr>]" "con (got p i b s) = con s"
  by (simp_all add: got_def)

lemma recv_ok:
  assumes "slots_ok s"
  shows "slots_ok (http_recv w a p t ok s)"
proof (cases "slot_of p s")
  case None
  then show ?thesis using assms by (simp add: http_recv_def split: option.split)
next
  case (Some i)
  note i = slot_of_Some [OF Some]
  show ?thesis
  proof (cases t)
    case None
    then show ?thesis using Some i slots_ok_free [OF assms] by (simp add: http_recv_def)
  next
    case t: (Some b)
    have c: "conn_ok (conns s ! i)" using slots_ok_conn [OF assms] i by blast
    have "conn_ok ((conns s ! i)\<lparr>c_req := c_req (conns s ! i) @
        take (min (length b) (REQ_MAX - 1 - length (c_req (conns s ! i)))) b, c_idle := 0\<rparr>)"
      using c i by (auto simp: conn_ok_some)
    then have u: "slots_ok (got p i b s)" using slots_ok_set [OF assms] i by (simp add: got_def)
    have v: "i < length (conns (got p i b s))" "c_pcb (conns (got p i b s) ! i) = Some p" using i by (simp_all add: got_conns)
    have "slots_ok (handle_request w a i (got p i b s))" using slot_step_ok [OF u slot_step_request] v by simp
    moreover have "slots_ok (conn_free i (hemit [H_abort p] (got p i b s)))"
      using slots_ok_free [of "hemit [H_abort p] (got p i b s)" i] u v by simp
    ultimately show ?thesis using u assms unfolding t http_recv_data [OF Some] by (simp only: split: if_split) simp
  qed
qed

lemma send_ok: "slots_ok s \<Longrightarrow> i < length (conns s) \<Longrightarrow> c_pcb (conns s ! i) = Some p \<Longrightarrow> slots_ok (conn_send_more a i s)"
  by (rule slot_step_ok [OF _ slot_step_send [where c = "conns s ! i"]]) auto

lemma portal_call_ok:
  assumes "slots_ok s"
  shows "slots_ok (portal_call wac s)"
proof -
  obtain w a k where k: "wac = (w, a, k)" by (cases wac)
  show ?thesis
  proof (cases k)
    case (C_accept ok p n)
    have "slots_ok (set_conn i (zero_conn\<lparr>c_pcb := Some p\<rparr>) s)"
      if f: "find (\<lambda>i. c_pcb (conns s ! i) = None) [0 ..< HTTP_CONNS] = Some i" for i
    proof -
      have i: "i < length (conns s)" "c_pcb (conns s ! i) = None" using f assms by (auto simp: find_Some_iff slots_ok_def)
      then have "conns s ! i = zero_conn" using slots_ok_conn [OF assms] by (simp add: conn_ok_def)
      then show ?thesis using i assms by (intro slots_ok_set) (simp_all add: conn_ok_some zero_conn_def)
    qed
    then show ?thesis using assms by (auto simp: k C_accept http_accept_def split: option.split)
  next
    case (C_recv p t ok)
    then show ?thesis using recv_ok [OF assms] by (simp add: k)
  next
    case (C_sent p)
    show ?thesis
    proof (cases "slot_of p s")
      case (Some i)
      note i = slot_of_Some [OF Some]
      then have "conn_ok (conns s ! i)" using slots_ok_conn [OF assms] by blast
      then have "conn_ok ((conns s ! i)\<lparr>c_idle := 0\<rparr>)" using i by (auto simp: conn_ok_some)
      then have "slots_ok (set_conn i ((conns s ! i)\<lparr>c_idle := 0\<rparr>) s)" using assms i by (intro slots_ok_set) auto
      then show ?thesis using assms i Some by (auto simp: k C_sent http_sent_def intro: send_ok)
    qed (simp add: k C_sent http_sent_def assms)
  next
    case (C_poll p)
    show ?thesis
    proof (cases "slot_of p s")
      case (Some i)
      note i = slot_of_Some [OF Some]
      let ?u = "set_conn i ((conns s ! i)\<lparr>c_idle := Suc (c_idle (conns s ! i))\<rparr>) s"
      have "slots_ok ?u" if "c_idle (conns s ! i) < IDLE_POLLS"
      proof -
        have "conn_ok (conns s ! i)" using slots_ok_conn [OF assms] i by blast
        then have "conn_ok ((conns s ! i)\<lparr>c_idle := Suc (c_idle (conns s ! i))\<rparr>)"
          using i that by (auto simp: conn_ok_some)
        then show ?thesis using assms i by (intro slots_ok_set) auto
      qed
      moreover have "conn_free i ?u = conn_free i s" using i by (simp add: conn_free_def set_conn_def)
      ultimately show ?thesis using assms i Some slots_ok_free [OF assms, of i]
        by (auto simp: k C_poll http_poll_def Let_def not_le intro: send_ok)
    qed (simp add: k C_poll http_poll_def assms)
  next
    case (C_err p)
    then show ?thesis using assms slot_of_Some [of p s] slots_ok_free [OF assms]
      by (auto simp: k http_err_def split: option.split)
  next
    case (C_console act)
    then show ?thesis using assms by (simp add: k slots_ok_def)
  next
    case (C_frame us frame)
    then show ?thesis using assms by (simp add: k slots_ok_def)
  qed
qed

text \<open>The settings stay valid: bytes reach them only through the protocol's lines.\<close>

lemma handle_cmd_console:
  assumes "console_ok B (con s)" "env_ok B (w_cp w)"
  shows "console_ok B (con (handle_cmd w a i pe he s))"
proof -
  have "NUL \<notin> set (first_line b)" for b
    unfolding first_line_def using c_str_no_NUL [of b] set_takeWhileD by fastforce
  then show ?thesis using assms handle_line_ok by (simp add: handle_cmd_def Let_def)
qed

lemma handle_request_console:
  assumes "console_ok B (con s)" "env_ok B (w_cp w)"
  shows "console_ok B (con (handle_request w a i s))"
proof (rule handle_request_all)
  show "console_ok B (con (handle_pcap a i s))" using assms(1) by (simp add: handle_pcap_def Let_def case_prod_beta)
qed (use assms handle_cmd_console in simp_all)

definition call_ok :: "wifi_build \<Rightarrow> web_env \<times> tcp_ans \<times> web_call \<Rightarrow> bool" where
  "call_ok B wac = (case wac of (w, a, k) \<Rightarrow> env_ok B (w_cp w) \<and> (case k of C_console act \<Rightarrow> action_ok B (w_cp w, act) | _ \<Rightarrow> True))"

lemma portal_call_console:
  assumes "console_ok B (con s)" "call_ok B wac"
  shows "console_ok B (con (portal_call wac s))"
proof -
  obtain w a k where k: "wac = (w, a, k)" by (cases wac)
  show ?thesis
  proof (cases k)
    case (C_recv p t ok)
    have "console_ok B (con (handle_request w a i u))" if "con u = con s" for i u
      using handle_request_console assms that by (simp add: k call_ok_def)
    then show ?thesis using assms(1) by (simp add: k C_recv http_recv_def Let_def split: option.split)
  next
    case (C_console act)
    then show ?thesis using assms cp_step_ok by (simp add: k call_ok_def)
  qed (use assms(1) in \<open>simp_all add: k http_accept_def http_sent_def http_poll_def http_err_def Let_def split: option.split\<close>)
qed

section \<open>Connections off the USB link\<close>

lemma portal_call_pcbs:
  assumes "slots_ok s"
  shows "pcbs (portal_call wac s) \<subseteq> insert None (pcbs s) \<union> {Some p' | p' ok'. snd (snd wac) = C_accept ok' p' N_usb}"
proof -
  obtain w a k where k: "wac = (w, a, k)" by (cases wac)
  have step: "pcbs u \<subseteq> insert None (pcbs s)" if "slot_step i s' u" "i < length (conns s)" "c_pcb (conns s' ! i) = c_pcb (conns s ! i)"
    "pcbs s' \<subseteq> insert None (pcbs s)" "length (conns s') = length (conns s)" for i s' u
  proof -
    from that(1) obtain c where c: "conns u = (conns s')[i := c]" "c_pcb c = c_pcb (conns s' ! i) \<or> c = zero_conn"
      by (auto simp: slot_step_def)
    show ?thesis using pcbs_update [OF _ c(1)] c(2) that by auto
  qed
  have keep: "pcbs u \<subseteq> insert None (pcbs s)"
    if "conns u = (conns s)[i := c]" "i < length (conns s)" "c_pcb c = c_pcb (conns s ! i) \<or> c = zero_conn" for i c u
    using pcbs_update [OF that(2,1,3)] .
  have send: "pcbs (conn_send_more a i u) \<subseteq> insert None (pcbs s)"
    if "conns u = (conns s)[i := c]" "i < length (conns s)" "c_pcb c = c_pcb (conns s ! i)" for i c u
  proof (rule step)
    show "slot_step i u (conn_send_more a i u)"
      by (rule slot_step_send [where c = "conns u ! i"]) (use that in simp_all)
    show "pcbs u \<subseteq> insert None (pcbs s)" using keep [OF that(1,2)] that(3) by simp
  qed (use that in simp_all)
  have free: "pcbs (conn_free i u) \<subseteq> insert None (pcbs s)"
    if "conns u = (conns s)[i := c]" "i < length (conns s)" for i c u
    using that by (intro keep [of _ i zero_conn]) simp_all
  show ?thesis
  proof (cases k)
    case (C_accept ok p n)
    have "pcbs (set_conn i (zero_conn\<lparr>c_pcb := Some p\<rparr>) s) \<subseteq> insert (Some p) (pcbs s)" for i
      by (auto simp: pcbs_def dest!: set_update_subset_insert [THEN subsetD])
    then have "pcbs (http_accept ok p n s) \<subseteq> (if n = N_usb then insert (Some p) (pcbs s) else pcbs s)"
      by (simp add: http_accept_def subset_insertI split: option.split)
    moreover have "(if n = N_usb then insert (Some p) (pcbs s) else pcbs s) \<subseteq>
        insert None (pcbs s) \<union> {Some p' | p' ok'. C_accept ok p n = C_accept ok' p' N_usb}" by auto
    ultimately show ?thesis unfolding k C_accept by (simp only: portal_call.simps snd_conv)
  next
    case (C_recv p t ok)
    have "pcbs (http_recv w a p t ok s) \<subseteq> insert None (pcbs s)"
    proof (cases "slot_of p s")
      case (Some i)
      note i = slot_of_Some [OF Some]
      show ?thesis
      proof (cases t)
        case None
        then show ?thesis using Some i free [of s i "conns s ! i"] by (simp add: http_recv_def)
      next
        case t: (Some b)
        let ?u = "got p i b s"
        note u = got_conns(1) [of p i b s]
        have "pcbs (handle_request w a i ?u) \<subseteq> insert None (pcbs s)"
          using u i keep [OF u] by (intro step [OF slot_step_request]) auto
        moreover have "pcbs ?u \<subseteq> insert None (pcbs s)" using keep [OF u] i by simp
        moreover have "pcbs (conn_free i (hemit [H_abort p] ?u)) \<subseteq> insert None (pcbs s)" using u i by (intro free) auto
        ultimately show ?thesis unfolding t http_recv_data [OF Some] by (simp only: split: if_split) auto
      qed
    qed (auto simp: http_recv_def split: option.split)
    then show ?thesis by (auto simp: k C_recv)
  next
    case (C_sent p)
    have "pcbs (http_sent a p s) \<subseteq> insert None (pcbs s)"
    proof (cases "slot_of p s")
      case (Some i)
      then show ?thesis using slot_of_Some [OF Some] send [of _ i] by (auto simp: http_sent_def)
    qed (auto simp: http_sent_def)
    then show ?thesis by (auto simp: k C_sent)
  next
    case (C_poll p)
    have "pcbs (http_poll a p s) \<subseteq> insert None (pcbs s)"
    proof (cases "slot_of p s")
      case (Some i)
      note i = slot_of_Some [OF Some]
      let ?c = "(conns s ! i)\<lparr>c_idle := c_idle (conns s ! i) + 1\<rparr>"
      have "pcbs (conn_free i (set_conn i ?c s)) \<subseteq> insert None (pcbs s)" "pcbs (conn_send_more a i (set_conn i ?c s)) \<subseteq> insert None (pcbs s)"
        "pcbs (set_conn i ?c s) \<subseteq> insert None (pcbs s)"
        using i free send keep by (auto simp del: conn_free_fields)
      then show ?thesis using Some by (simp add: http_poll_def Let_def)
    qed (auto simp: http_poll_def)
    then show ?thesis by (auto simp: k C_poll)
  next
    case (C_err p)
    have "pcbs (http_err p s) \<subseteq> insert None (pcbs s)"
    proof (cases "slot_of p s")
      case (Some i)
      then show ?thesis using slot_of_Some [OF Some] free [of s i "conns s ! i"] by (simp add: http_err_def)
    qed (auto simp: http_err_def)
    then show ?thesis by (auto simp: k C_err)
  next
    case (C_console act)
    then show ?thesis by (auto simp: k pcbs_def)
  next
    case (C_frame us frame)
    then show ?thesis by (auto simp: k pcbs_def)
  qed
qed
definition portal_run :: "(web_env \<times> tcp_ans \<times> web_call) list \<Rightarrow> portal \<Rightarrow> portal" where
  "portal_run cs s = fold portal_call cs s"

lemma portal_run_simps [simp]:
  "portal_run [] s = s" "portal_run (c # cs) s = portal_run cs (portal_call c s)"
  "portal_run (cs @ ds) s = portal_run ds (portal_run cs s)"
  by (simp_all add: portal_run_def)

lemma portal_init_ok: "\<not> paused r \<Longrightarrow> slots_ok (portal_init r p)"
  by (simp add: slots_ok_def portal_init_def numeral_eq_Suc)

lemma portal_run_ok: "slots_ok s \<Longrightarrow> slots_ok (portal_run cs s)"
  by (induction cs arbitrary: s) (simp_all add: portal_call_ok)

lemma portal_run_console:
  "console_ok B (con s) \<Longrightarrow> list_all (call_ok B) cs \<Longrightarrow> console_ok B (con (portal_run cs s))"
  by (induction cs arbitrary: s) (simp_all add: portal_call_console)

lemma portal_run_pcbs:
  "slots_ok s \<Longrightarrow> Some p \<notin> pcbs s \<Longrightarrow> (\<And>w a ok. (w, a, C_accept ok p N_usb) \<notin> set cs) \<Longrightarrow> Some p \<notin> pcbs (portal_run cs s)"
proof (induction cs arbitrary: s)
  case (Cons c cs)
  have "snd (snd c) \<noteq> C_accept ok p N_usb" for ok
    using Cons.prems(3) [of "fst c" "fst (snd c)" ok] by (cases c) auto
  then have "Some p \<notin> pcbs (portal_call c s)" using portal_call_pcbs [OF Cons.prems(1), of c] Cons.prems(2) by auto
  then show ?case using Cons.IH [OF portal_call_ok [OF Cons.prems(1)]] Cons.prems(3) by simp
qed simp

section \<open>A command in pieces\<close>

text \<open>A request that posts \<open>l\<close> as a command: \<open>v\<close> is the rest of the request line, \<open>hs1\<close> and \<open>hs2\<close> the other header lines.\<close>

definition cmd_head :: "string \<Rightarrow> string list \<Rightarrow> nat \<Rightarrow> string list \<Rightarrow> string list" where
  "cmd_head v hs1 n hs2 = (''POST /api/cmd '' @ v) # hs1 @ (''Content-Length: '' @ dec n) # hs2"

definition cmd_request :: "string \<Rightarrow> string list \<Rightarrow> string \<Rightarrow> string list \<Rightarrow> string" where
  "cmd_request v hs1 l hs2 = lines_text (cmd_head v hs1 (length l) hs2) @ CRLF @ l"

definition head_ok :: "string \<Rightarrow> string list \<Rightarrow> string list \<Rightarrow> bool" where
  "head_ok v hs1 hs2 \<longleftrightarrow> CR \<notin> set v \<and> LF \<notin> set v \<and> NUL \<notin> set v \<and> list_all good_line hs1 \<and> list_all good_line hs2 \<and>
     list_all (\<lambda>h. \<not> cl_name h) hs1"

lemma cmd_head_good:
  assumes "head_ok v hs1 hs2"
  shows "list_all good_line (cmd_head v hs1 n hs2)"
proof -
  have "list_all is_digit (dec n)" using dec_digits by blast
  then have d: "CR \<notin> set (dec n)" "LF \<notin> set (dec n)" "NUL \<notin> set (dec n)" using digit_plain by (auto simp: list_all_iff)
  show ?thesis using assms d by (simp add: cmd_head_def head_ok_def good_line_def)
qed

lemma c_str_lines: "list_all good_line hs \<Longrightarrow> c_str (lines_text hs @ y) = lines_text hs @ c_str y"
  by (induction hs) (simp_all add: good_line_def c_str_def takeWhile_append)

lemma c_str_crlf: "c_str (CR # LF # y) = CR # LF # c_str y"
  by (simp add: c_str_def)

lemma find_sub_command: "find_sub '' '' (''/api/cmd '' @ y) = Some 8"
  by (simp add: starts_def)

text \<open>The end of the header found: where the path, the end of the header and the length are.\<close>

lemma cmd_parts:
  assumes "head_ok v hs1 hs2" "n < 2 ^ 32" "r = lines_text (cmd_head v hs1 n hs2) @ CRLF @ b"
  defines "he \<equiv> length (lines_text (cmd_head v hs1 n hs2)) - 2"
  shows "find_sub (CRLF @ CRLF) (c_str r) = Some he" "drop (he + 4) r = b" "length r = he + 4 + length b"
    "content_len (drop 14 r) (he - 14) = of_nat n" "\<exists>y. c_str r = ''POST /api/cmd '' @ y"
proof -
  note g = cmd_head_good [OF assms(1), of n]
  have c: "c_str r = lines_text (cmd_head v hs1 n hs2) @ CRLF @ c_str b"
    unfolding assms(3) c_str_lines [OF g] by (simp add: c_str_crlf)
  have ne: "cmd_head v hs1 n hs2 \<noteq> []" by (simp add: cmd_head_def)
  show "find_sub (CRLF @ CRLF) (c_str r) = Some he" unfolding c he_def by (rule find_blank [OF ne g])
  let ?t = "lines_text (cmd_head v hs1 n hs2)"
  have l: "length ?t = he + 2" by (simp add: he_def cmd_head_def)
  then have t: "he + 4 = length (?t @ CRLF)" by simp
  have "drop (length xs) (xs @ b) = b" for xs by simp
  from this [of "?t @ CRLF"] show "drop (he + 4) r = b" unfolding assms(3) t append_assoc .
  show "length r = he + 4 + length b" using l by (simp add: assms(3))
  show "\<exists>y. c_str r = ''POST /api/cmd '' @ y" unfolding c by (simp add: cmd_head_def)
  let ?y = "CHR '' '' # dec n @ CR # LF # lines_text hs2 @ CRLF @ b"
  have d: "drop 14 r = v @ CR # LF # lines_text hs1 @ ''Content-Length:'' @ ?y"
    by (simp add: assms(3) cmd_head_def)
  obtain k where k: "he - 14 = length v + 2 + length (lines_text hs1) + k"
  proof -
    let ?x = "length ((''Content-Length: '' @ dec n) @ CRLF @ lines_text hs2)"
    have "length ?t = 14 + length v + 2 + length (lines_text hs1) + ?x" by (simp add: cmd_head_def)
    moreover have "2 \<le> ?x" by simp
    ultimately obtain k where "length ?t = 14 + length v + 2 + length (lines_text hs1) + (k + 2)" by (metis le_add_diff_inverse2)
    then have "he - 14 = length v + 2 + length (lines_text hs1) + k" using l by linarith
    then show thesis by (rule that)
  qed
  have "content_len (drop 14 r) (he - 14) = strtoul (c_str ?y)"
    unfolding d k by (rule content_len_found) (use assms(1) in \<open>simp_all add: head_ok_def\<close>)
  also have "\<dots> = of_nat n" by (rule strtoul_dec [OF assms(2)])
  finally show "content_len (drop 14 r) (he - 14) = of_nat n" .
qed
lemma request_cmd:
  assumes "head_ok v hs1 hs2" "n \<le> 256" "c_req (conns s ! i) = lines_text (cmd_head v hs1 n hs2) @ CRLF @ b"
  shows "handle_request w a i s =
    (if length b < n then s
     else let p = config_proto_handle_line (w_cp w) (first_line (take n b)) (con s)
          in conn_respond a i ''200 OK'' ''text/plain; charset=utf-8'' [] (B_gen (captured_text (con s) p)) (ran p s))"
proof -
  let ?he = "length (lines_text (cmd_head v hs1 n hs2)) - 2"
  have n: "n < 2 ^ 32" "unat (of_nat n :: u32) = n" "\<not> (256 :: u32) < of_nat n"
    using assms(2) by (simp_all add: unat_of_nat_u32 word_less_nat_alt)
  note p = cmd_parts [OF assms(1) n(1) assms(3)]
  obtain y where y: "c_str (c_req (conns s ! i)) = ''POST /api/cmd '' @ y" using p(5) by blast
  have "handle_request w a i s = handle_cmd w a i 13 ?he s"
    unfolding handle_request_def Let_def p(1) option.case unfolding y by (simp add: starts_def)
  also have "handle_cmd w a i 13 ?he s =
    (if length b < n then s
     else let p = config_proto_handle_line (w_cp w) (first_line (take n b)) (con s)
          in conn_respond a i ''200 OK'' ''text/plain; charset=utf-8'' [] (B_gen (captured_text (con s) p)) (ran p s))"
    using p(2-4) n(2,3) by (simp add: handle_cmd_def)
  finally show ?thesis .
qed

lemma c_str_take: "c_str (take m r) = take m (c_str r)"
proof -
  have "takeWhile P (take k xs) = take k (takeWhile P xs)" for P and k and xs :: string
    by (induction xs arbitrary: k) (auto simp: take_Cons split: nat.splits)
  then show ?thesis by (simp add: c_str_def)
qed

text \<open>As long as a byte is missing, nothing happens.\<close>

lemma request_partial:
  assumes "head_ok v hs1 hs2" "length l \<le> 256" "c_req (conns s ! i) = take m (cmd_request v hs1 l hs2)"
    "m < length (cmd_request v hs1 l hs2)"
  shows "handle_request w a i s = s"
proof (cases "find_sub (CRLF @ CRLF) (c_str (c_req (conns s ! i)))")
  case None
  then show ?thesis by (simp add: handle_request_def)
next
  case (Some k)
  let ?hs = "cmd_head v hs1 (length l) hs2" let ?r = "cmd_request v hs1 l hs2"
  have r: "?r = lines_text ?hs @ CRLF @ l" by (simp add: cmd_request_def)
  have n: "length l < 2 ^ 32" using assms(2) by simp
  note p = cmd_parts [OF assms(1) n r]
  have f: "find_sub (CRLF @ CRLF) (take m (c_str ?r)) = Some k"
    using Some assms(3) by (simp only: c_str_take)
  from find_sub_take [OF _ f] p(1) have k: "k = length (lines_text ?hs) - 2" "k + 4 \<le> m" by auto
  have "2 \<le> length (lines_text ?hs)" by (simp add: cmd_head_def)
  then have h: "length (lines_text ?hs @ CRLF) \<le> m" using k by simp
  then have "take m ?r = (lines_text ?hs @ CRLF) @ take (m - length (lines_text ?hs @ CRLF)) l"
    unfolding r append_assoc [symmetric] by (subst take_append) (simp only: take_all)
  then have e: "c_req (conns s ! i) = lines_text ?hs @ CRLF @ take (m - length (lines_text ?hs @ CRLF)) l" using assms(3) by simp
  have "length (take (m - length (lines_text ?hs @ CRLF)) l) < length l" using h assms(4) by (simp add: r)
  then show ?thesis using request_cmd [OF assms(1,2) e] by simp
qed

lemma slot_of_cong: "map c_pcb (conns s') = map c_pcb (conns s) \<Longrightarrow> slot_of p s' = slot_of p s"
proof -
  assume m: "map c_pcb (conns s') = map c_pcb (conns s)"
  then have l: "length (conns s') = length (conns s)" by (metis length_map)
  have "c_pcb (conns s' ! i) = c_pcb (conns s ! i)" if "i < length (conns s)" for i
    using arg_cong [OF m, of "\<lambda>xs. xs ! i"] that by (simp add: l)
  then show ?thesis unfolding slot_of_def l by (intro find_cong) auto
qed

text \<open>The connection with \<open>qs\<close> received.\<close>

definition received :: "nat \<Rightarrow> nat \<Rightarrow> string \<Rightarrow> http_event list \<Rightarrow> portal \<Rightarrow> portal" where
  "received p i qs vs s = hemit vs (set_conn i (zero_conn\<lparr>c_pcb := Some p, c_req := qs\<rparr>) s)"

lemma recv_piece:
  assumes "slot_of p s = Some i" "t \<noteq> []" "length (qs @ t) \<le> REQ_MAX - 1"
  shows "http_recv w a p (Some t) True (received p i qs vs s) =
    handle_request w a i (received p i (qs @ t) (vs @ [H_recved p (length t)]) s)"
proof -
  note i = slot_of_Some [OF assms(1)]
  have "map c_pcb (conns (received p i qs vs s)) = map c_pcb (conns s)"
    using i by (simp add: received_def map_update list_update_same_conv)
  then have sl: "slot_of p (received p i qs vs s) = Some i" using slot_of_cong assms(1) by metis
  have c: "conns (received p i qs vs s) ! i = zero_conn\<lparr>c_pcb := Some p, c_req := qs\<rparr>" using i by (simp add: received_def)
  have m: "min (length t) (REQ_MAX - 1 - length qs) = length t" using assms(3) by simp
  have g: "got p i t (received p i qs vs s) = received p i (qs @ t) (vs @ [H_recved p (length t)]) s"
    using m by (simp add: got_def c) (simp add: received_def hemit_def set_conn_def zero_conn_def)
  show ?thesis using assms(2,3) by (simp add: http_recv_data [OF sl] c g zero_conn_def)
qed

lemma received_start: "conns s ! i = zero_conn\<lparr>c_pcb := Some p\<rparr> \<Longrightarrow> received p i [] [] s = s"
  by (simp add: received_def hemit_def set_conn_def zero_conn_def list_update_same_conv)
    (metis list_update_id portal.surjective portal.update_convs(1))

lemma pieces_partial:
  assumes "slot_of p s = Some i" "conns s ! i = zero_conn\<lparr>c_pcb := Some p\<rparr>" "head_ok v hs1 hs2" "length l \<le> 256"
    "length (cmd_request v hs1 l hs2) \<le> REQ_MAX - 1" "\<forall>x \<in> set us. snd x \<noteq> []"
    "concat (map snd us) @ rest = cmd_request v hs1 l hs2" "rest \<noteq> []"
  shows "fold (\<lambda>(a, t). http_recv w a p (Some t) True) us s =
    received p i (concat (map snd us)) (map (\<lambda>x. H_recved p (length (snd x))) us) s"
  using assms(6-8)
proof (induction us arbitrary: rest rule: rev_induct)
  case Nil
  then show ?case by (simp add: received_start [OF assms(2)])
next
  case (snoc x us)
  obtain a t where x: "x = (a, t)" by (cases x)
  let ?q = "concat (map snd us)" let ?r = "cmd_request v hs1 l hs2"
  have r: "?r = (?q @ t) @ rest" using snoc.prems(2) by (simp add: x)
  have l: "length (?q @ t) < length ?r" unfolding r using snoc.prems(3) by simp
  have ih: "fold (\<lambda>(a, t). http_recv w a p (Some t) True) us s = received p i ?q (map (\<lambda>x. H_recved p (length (snd x))) us) s"
    using snoc.prems by (intro snoc.IH [of "t @ rest"]) (simp_all add: x)
  let ?u = "received p i (?q @ t) (map (\<lambda>x. H_recved p (length (snd x))) us @ [H_recved p (length t)]) s"
  have "c_req (conns ?u ! i) = take (length (?q @ t)) ?r"
    using slot_of_Some [OF assms(1)] unfolding r by (simp add: received_def)
  then have "handle_request w a i ?u = ?u" using request_partial [OF assms(3,4) _ l] by simp
  then show ?case using recv_piece [OF assms(1), of t ?q w a] snoc.prems(1) l assms(5) by (simp add: ih x)
qed

section \<open>What is sent\<close>

definition sent_by :: "nat \<Rightarrow> http_event list \<Rightarrow> piece list" where
  "sent_by p vs = concat (map (\<lambda>v. case v of H_write qs g \<Rightarrow> if qs = p then [g] else [] | _ \<Rightarrow> []) vs)"

lemma sent_by_simps [simp]:
  "sent_by p [] = []" "sent_by p (vs @ ws) = sent_by p vs @ sent_by p ws" "sent_by p (map (H_write p) gs) = gs"
  "sent_by p (H_output qs # vs) = sent_by p vs" "sent_by p (H_close qs # vs) = sent_by p vs" "sent_by p (H_abort qs # vs) = sent_by p vs"
  by (simp_all add: sent_by_def comp_def)

definition queued :: "nat \<Rightarrow> portal \<Rightarrow> piece list" where
  "queued p s = (case slot_of p s of None \<Rightarrow> [] | Some i \<Rightarrow> pieces (conns s ! i))"

definition one_slot :: "nat \<Rightarrow> portal \<Rightarrow> bool" where
  "one_slot p s \<longleftrightarrow> (\<forall>i < length (conns s). \<forall>j < length (conns s). c_pcb (conns s ! i) = Some p \<and> c_pcb (conns s ! j) = Some p \<longrightarrow> i = j)"

text \<open>What is written now and what stays queued is what was queued, in order; the connection is closed once all is written.\<close>

lemma send_more_delivers:
  assumes "one_slot p s" "i < length (conns s)" "c_pcb (conns s ! i) = Some p"
  shows "\<exists>vs. hevents (conn_send_more a i s) = hevents s @ vs \<and>
    cells (sent_by p vs) @ cells (queued p (conn_send_more a i s)) = cells (pieces (conns s ! i)) \<and>
    one_slot p (conn_send_more a i s) \<and> (H_close p \<in> set vs \<longrightarrow> slot_of p (conn_send_more a i s) = None)"
proof -
  define c where "c = conns s ! i"
  define rest ws where "rest = fst (send_loop a 0 (pieces c))" and "ws = snd (send_loop a 0 (pieces c))"
  define t where "t = hemit (map (H_write p) ws) (set_conn i (c\<lparr>pieces := rest\<rparr>) s)"
  have e: "conn_send_more a i s = (if rest \<noteq> [] then t else if \<not> t_drained a then hemit [H_output p] t
      else hemit [if t_close a then H_close p else H_abort p] (conn_free i (hemit [H_output p] t)))"
    using assms(3) by (simp add: conn_send_more_def Let_def case_prod_beta t_def rest_def ws_def c_def)
  have cl: "cells ws @ cells rest = cells (pieces c)" unfolding ws_def rest_def by (rule send_loop_cells)
  have only: "j = i" if "j < length (conns s)" "c_pcb (conns s ! j) = Some p" for j using assms that by (auto simp: one_slot_def)
  have tc: "conns (hemit vs t) = (conns s)[i := c\<lparr>pieces := rest\<rparr>]" for vs by (simp add: t_def)
  have st: "slot_of p (hemit vs t) = Some i" for vs
  proof -
    have "Some p \<in> c_pcb ` set (conns (hemit vs t))"
      unfolding tc by (rule image_eqI [OF _ set_update_memI [OF assms(2)]]) (simp add: c_def assms(3))
    then obtain j where j: "slot_of p (hemit vs t) = Some j" using slot_of_None [of p "hemit vs t"] by fastforce
    then show ?thesis using slot_of_Some [OF j] only assms(2) by (auto simp: t_def c_def nth_list_update split: if_splits)
  qed
  have qt: "queued p (hemit vs t) = rest" for vs using assms(2) by (simp add: queued_def st) (simp add: t_def)
  have ot: "one_slot p (hemit vs t)" for vs using assms by (auto simp: one_slot_def t_def c_def nth_list_update split: if_splits)
  let ?f = "conn_free i (hemit [H_output p] t)"
  have sf: "slot_of p (hemit vs ?f) = None" for vs
  proof -
    have "c_pcb ((conns s)[i := zero_conn] ! j) \<noteq> Some p" if "j < length (conns s)" for j
      using only [OF that] assms(2) that by (auto simp: nth_list_update)
    then show ?thesis unfolding slot_of_None by (simp add: t_def) (metis imageE in_set_conv_nth length_list_update)
  qed
  then have qf: "queued p (hemit vs ?f) = []" for vs by (simp add: queued_def)
  have of: "one_slot p (hemit vs ?f)" for vs
    using assms(1,2) by (auto simp: one_slot_def t_def nth_list_update split: if_splits)
  have ev: "hevents t = hevents s @ map (H_write p) ws" by (simp add: t_def)
  have h0: "hemit [] t = t" by (simp add: hemit_def)
  consider "rest \<noteq> []" | "rest = []" "\<not> t_drained a" | "rest = []" "t_drained a" by blast
  then show ?thesis
  proof cases
    case 1
    then show ?thesis using ev cl qt [of "[]"] ot [of "[]"] unfolding h0 by (intro exI [of _ "map (H_write p) ws"]) (auto simp: e c_def)
  next
    case 2
    then show ?thesis using ev cl qt ot by (intro exI [of _ "map (H_write p) ws @ [H_output p]"]) (auto simp: e c_def)
  next
    case 3
    then show ?thesis using ev cl qf of sf
      by (intro exI [of _ "map (H_write p) ws @ [H_output p] @ [if t_close a then H_close p else H_abort p]"]) (auto simp: e c_def)
  qed
qed

text \<open>An acknowledgement or a poll lets more of the response out.\<close>

lemma sent_delivers:
  assumes "one_slot p s"
  shows "\<exists>vs. hevents (http_sent a p s) = hevents s @ vs \<and>
    cells (sent_by p vs) @ cells (queued p (http_sent a p s)) = cells (queued p s) \<and> one_slot p (http_sent a p s) \<and>
    (H_close p \<in> set vs \<longrightarrow> slot_of p (http_sent a p s) = None)"
proof (cases "\<exists>i. slot_of p s = Some i \<and> responded (conns s ! i)")
  case False
  then have "http_sent a p s = s" by (auto simp: http_sent_def split: option.split)
  then show ?thesis using assms by (intro exI [of _ "[]"]) simp
next
  case True
  then obtain i where i: "slot_of p s = Some i" "responded (conns s ! i)" by blast
  note b = slot_of_Some [OF i(1)]
  let ?u = "set_conn i ((conns s ! i)\<lparr>c_idle := 0\<rparr>) s"
  have "one_slot p ?u" using assms b by (auto simp: one_slot_def nth_list_update)
  then show ?thesis using send_more_delivers [of p ?u i a] i b by (simp add: http_sent_def queued_def [of p s])
qed

text \<open>A generated body fits behind its header, whole.\<close>

definition PLAIN_UTF8 :: string where "PLAIN_UTF8 = ''text/plain; charset=utf-8''"

lemma length_dec: "n < 10 ^ k \<Longrightarrow> 0 < k \<Longrightarrow> length (dec n) \<le> k"
proof (induction k arbitrary: n)
  case (Suc k)
  show ?case
  proof (cases "n < 10")
    case True
    then show ?thesis by (subst dec.simps) simp
  next
    case False
    then have "k \<noteq> 0" using Suc.prems(1) by (cases k) simp_all
    moreover have "n div 10 < 10 ^ k" using Suc.prems(1) by (simp add: less_mult_imp_div_less mult.commute)
    ultimately show ?thesis using Suc.IH [of "n div 10"] False by (subst dec.simps) simp
  qed
qed simp

lemma response_whole:
  assumes "length st + length ctype \<le> 100" "length t \<le> BODY_MAX"
  shows "cells (response_pieces st ctype [] (B_gen t)) = map Inl (http_head st ctype [] (length t) @ t)"
proof -
  have "length (dec (length t)) \<le> 4" using assms(2) by (intro length_dec) simp_all
  then have "length (http_head st ctype [] (length t)) \<le> 256" using assms(1) by (simp add: http_head_def PORTAL_CORS_HEADERS_def)
  then show ?thesis using assms(2) by (simp add: response_pieces_def Let_def)
qed

lemma respond_delivers:
  assumes "one_slot p s" "i < length (conns s)" "c_pcb (conns s ! i) = Some p"
  shows "\<exists>vs. hevents (conn_respond a i st ct ex b s) = hevents s @ vs \<and>
    cells (sent_by p vs) @ cells (queued p (conn_respond a i st ct ex b s)) = cells (response_pieces st ct ex b) \<and>
    one_slot p (conn_respond a i st ct ex b s)"
proof -
  let ?u = "set_conn i ((conns s ! i)\<lparr>pieces := response_pieces st ct ex b, responded := True\<rparr>) s"
  have "one_slot p ?u" using assms by (auto simp: one_slot_def nth_list_update)
  then show ?thesis using send_more_delivers [of p ?u i a] assms by (auto simp: conn_respond_def)
qed

lemma sents_deliver:
  assumes "one_slot p s"
  shows "\<exists>vs. hevents (fold (\<lambda>a. http_sent a p) as s) = hevents s @ vs \<and>
    cells (sent_by p vs) @ cells (queued p (fold (\<lambda>a. http_sent a p) as s)) = cells (queued p s)"
  using assms
proof (induction as arbitrary: s)
  case Nil
  then show ?case by (intro exI [of _ "[]"]) simp
next
  case (Cons a as)
  obtain vs where v: "hevents (http_sent a p s) = hevents s @ vs"
    "cells (sent_by p vs) @ cells (queued p (http_sent a p s)) = cells (queued p s)" "one_slot p (http_sent a p s)"
    using sent_delivers [OF Cons.prems] by blast
  from Cons.IH [OF v(3)] obtain ws where w: "hevents (fold (\<lambda>a. http_sent a p) as (http_sent a p s)) = hevents (http_sent a p s) @ ws"
    "cells (sent_by p ws) @ cells (queued p (fold (\<lambda>a. http_sent a p) as (http_sent a p s))) = cells (queued p (http_sent a p s))" by blast
  then show ?case using v by (intro exI [of _ "vs @ ws"]) (simp add: cells_append)
qed

lemma sents_con [simp]: "con (fold (\<lambda>a. http_sent a p) as s) = con s"
  by (induction as arbitrary: s) (simp_all add: http_sent_def split: option.split)

section \<open>Properties\<close>

lemma accepted:
  assumes "slots_ok s" "Some p \<notin> pcbs s" "None \<in> pcbs s"
  shows "\<exists>i. slot_of p (http_accept True p N_usb s) = Some i \<and>
    conns (http_accept True p N_usb s) ! i = zero_conn\<lparr>c_pcb := Some p\<rparr> \<and> one_slot p (http_accept True p N_usb s) \<and>
    con (http_accept True p N_usb s) = con s \<and> hevents (http_accept True p N_usb s) = hevents s"
proof -
  have l: "length (conns s) = HTTP_CONNS" using assms(1) by (simp add: slots_ok_def)
  have "\<exists>i < length (conns s). c_pcb (conns s ! i) = None" using assms(3) by (auto simp: pcbs_def in_set_conv_nth) metis
  then have "find (\<lambda>i. c_pcb (conns s ! i) = None) [0 ..< HTTP_CONNS] \<noteq> None" unfolding find_None_iff by (auto simp: l)
  then obtain i where f: "find (\<lambda>i. c_pcb (conns s ! i) = None) [0 ..< HTTP_CONNS] = Some i" by blast
  then have i: "i < length (conns s)" by (auto simp: find_Some_iff l)
  have a: "http_accept True p N_usb s = set_conn i (zero_conn\<lparr>c_pcb := Some p\<rparr>) s" using f by (simp add: http_accept_def)
  have other: "c_pcb (conns s ! j) \<noteq> Some p" if "j < length (conns s)" for j using assms(2) that by (metis pcbs_def imageI nth_mem)
  have "Some p \<in> c_pcb ` set (conns (http_accept True p N_usb s))" unfolding a set_conn_fields
    by (rule image_eqI [OF _ set_update_memI [OF i]]) simp
  then obtain j where j: "slot_of p (http_accept True p N_usb s) = Some j" using slot_of_None [of p] by fastforce
  then have "j = i" using slot_of_Some [OF j] other i by (auto simp: a nth_list_update split: if_splits)
  moreover have "one_slot p (http_accept True p N_usb s)" using other i by (auto simp: one_slot_def a nth_list_update split: if_splits)
  ultimately show ?thesis using j i by (intro exI [of _ i]) (simp add: a)
qed


text \<open>A page asks for the help in two pieces, the second with the end of the line.\<close>

definition sample_pieces :: "tcp_ans \<Rightarrow> (tcp_ans \<times> string) list" where
  "sample_pieces a = [(a, take 20 (cmd_request ''HTTP/1.1'' [''Host: x''] (''help'' @ NL) [])),
     (a, drop 20 (cmd_request ''HTTP/1.1'' [''Host: x''] (''help'' @ NL) []))]"

lemma sample_portal_ok: "slots_ok (portal_init pcap_boot k)" "pcbs (portal_init r k) = {None}"
  by (rule portal_init_ok) (simp_all add: pcap_boot_def pcbs_def portal_init_def zero_conn_def)


text \<open>Property C34. The portal tells nothing of the secrets but whether they are set: two configurations that agree on all but the stored
  Wi-Fi passwords, the private key, the preshared key (set in both or in neither) and the access point's passphrase, and have the
  same public key, give the same status and the same scan list.\<close>

theorem portal_hides_secrets:
  assumes "conceal c = conceal c'" "profile_count c \<le> length (profiles c)"
    and "config_proto_pubkey (w_cp w) c 48 = config_proto_pubkey (w_cp w) c' 48"
  shows "status_json w c cap = status_json w c' cap \<and> scan_json w (p\<lparr>cfg := c\<rparr>) cap = scan_json w (p\<lparr>cfg := c'\<rparr>) cap"
proof
  have n: "profile_count c' \<le> length (profiles c')" using assms(1,2) conceal_fields(1,3) by metis
  show "status_json w c cap = status_json w c' cap"
    unfolding status_conceal [OF assms(2,3)] status_conceal [OF n refl] assms(1) ..
  have "net_items e c = net_items e c'" for e using net_items_conceal [of e c] net_items_conceal [of e c'] assms(1) by (intro ext) metis
  then show "scan_json w (p\<lparr>cfg := c\<rparr>) cap = scan_json w (p\<lparr>cfg := c'\<rparr>) cap"
    by (simp add: scan_json_def config_proto_scanning_def)
qed

theorem portal_hides_secrets_witness:
  "\<forall>w. status_json w (cfg sample_console) 3840 =
    status_json w ((cfg sample_console)\<lparr>ap := (ap (cfg sample_console))\<lparr>ap_password := ''12345678''\<rparr>\<rparr>) 3840"
proof
  fix w :: web_env
  let ?c = "cfg sample_console" let ?c' = "?c\<lparr>ap := (ap ?c)\<lparr>ap_password := ''12345678''\<rparr>\<rparr>"
  have "conceal ?c = conceal ?c'" by (simp add: conceal_def)
  moreover have "profile_count ?c \<le> length (profiles ?c)"
    using sample_console_ok by (simp add: console_ok_def settings_ok_def config_wf_def)
  moreover have "config_proto_pubkey (w_cp w) ?c 48 = config_proto_pubkey (w_cp w) ?c' 48" by (simp add: config_proto_pubkey_def)
  ultimately show "status_json w ?c 3840 = status_json w ?c' 3840" using portal_hides_secrets by blast
qed

text \<open>Property C33. The portal serves the USB link only: whatever connections come and go, one that was never accepted there
  has no slot, and data that arrive for it are neither answered nor change anything.\<close>

theorem portal_usb_only:
  assumes "\<not> paused r" "\<forall>x \<in> set cs. \<forall>ok. snd (snd x) \<noteq> C_accept ok p N_usb" "s = portal_run cs (portal_init r k)"
  shows "slot_of p s = None \<and> http_recv w a p (Some t) ok s = s \<and> http_sent a p s = s \<and>
    con (http_recv w a p None ok s) = con s \<and> (\<forall>n. n \<noteq> N_usb \<longrightarrow> http_accept True p n s = hemit [H_abort p] s)"
proof -
  have "Some p \<notin> pcbs s" unfolding assms(3)
    using assms(2) by (intro portal_run_pcbs portal_init_ok [OF assms(1)]) (force simp: sample_portal_ok(2))+
  then have "slot_of p s = None" by (simp add: slot_of_None pcbs_def)
  then show ?thesis by (simp add: http_recv_def http_sent_def http_accept_def)
qed

theorem portal_usb_only_witness:
  "\<forall>w a. http_recv w a 7 (Some ''GET /api/status HTTP/1.1'') True
      (portal_run [(w, a, C_accept True 7 N_wg), (w, a, C_accept True 8 N_usb)] (portal_init pcap_boot sample_console)) =
    portal_run [(w, a, C_accept True 7 N_wg), (w, a, C_accept True 8 N_usb)] (portal_init pcap_boot sample_console)"
proof (intro allI)
  fix w :: web_env and a :: tcp_ans
  let ?cs = "[(w, a, C_accept True 7 N_wg), (w, a, C_accept True 8 N_usb)]"
  have "\<not> paused pcap_boot" by (simp add: pcap_boot_def)
  from portal_usb_only [OF this _ refl, of ?cs 7]
  show "http_recv w a 7 (Some ''GET /api/status HTTP/1.1'') True (portal_run ?cs (portal_init pcap_boot sample_console)) =
    portal_run ?cs (portal_init pcap_boot sample_console)" by simp
qed

text \<open>Whatever callbacks come, a request stays in its buffer, an idle connection is dropped after ten polls, a free slot
  is all zero, the capture is paused only while a connection downloads it, and the settings stay valid.\<close>

theorem portal_invariant:
  assumes "\<not> paused r" "console_ok B k" "list_all (call_ok B) cs" "s = portal_run cs (portal_init r k)"
  shows "length (conns s) = HTTP_CONNS \<and> list_all conn_ok (conns s) \<and> settings_ok (cfg (con s)) \<and>
    (paused (cap_ring s) \<longrightarrow> (\<exists>c \<in> set (conns s). pcap_hold c))"
  using portal_run_ok [OF portal_init_ok [OF assms(1)]] portal_run_console [of B "portal_init r k", OF _ assms(3)] assms(2,4)
  by (simp add: slots_ok_def console_ok_def portal_init_def)

text \<open>A status request, then the idle timer.\<close>

theorem portal_invariant_witness:
  "\<forall>w a. settings_ok (cfg (con (portal_run (map (\<lambda>k. (w\<lparr>w_cp := sample_cp_env\<rparr>, a, k))
     [C_accept True 7 N_usb, C_recv 7 (Some ''GET /api/pcap HTTP/1.1'') True, C_poll 7]) (portal_init pcap_boot sample_console))))"
proof (intro allI)
  fix w :: web_env and a :: tcp_ans
  let ?cs = "map (\<lambda>k. (w\<lparr>w_cp := sample_cp_env\<rparr>, a, k)) [C_accept True 7 N_usb, C_recv 7 (Some ''GET /api/pcap HTTP/1.1'') True, C_poll 7]"
  have "\<not> paused pcap_boot" by (simp add: pcap_boot_def)
  moreover have "list_all (call_ok sample_build) ?cs" using sample_env_ok by (simp add: call_ok_def)
  ultimately show "settings_ok (cfg (con (portal_run ?cs (portal_init pcap_boot sample_console))))"
    using portal_invariant [OF _ sample_console_ok _ refl] by blast
qed

text \<open>The capture is resumed by the first of two downloads that ends, under the other one.\<close>

definition get_pcap :: string where
  "get_pcap = ''GET /api/pcap HTTP/1.1'' @ CRLF @ CRLF"

definition two_downloads :: "web_env \<Rightarrow> tcp_ans \<Rightarrow> (web_env \<times> tcp_ans \<times> web_call) list" where
  "two_downloads w a =
     [(w, a, C_accept True 1 N_usb), (w, a, C_accept True 2 N_usb), (w, a, C_recv 1 (Some get_pcap) True),
      (w, a, C_recv 2 (Some get_pcap) True), (w, a, C_recv 2 None True)]"

lemma request_pcap: "c_req (conns s ! i) = get_pcap \<Longrightarrow> handle_request w a i s = handle_pcap a i s"
proof -
  assume r: "c_req (conns s ! i) = get_pcap"
  have "find_sub (CRLF @ CRLF) (c_str get_pcap) = Some 22" "\<not> starts ''OPTIONS '' (c_str get_pcap)" "starts ''GET '' (c_str get_pcap)"
    "find_sub '' '' (drop 4 (c_str get_pcap)) = Some 9" "take 9 (drop 4 (c_str get_pcap)) = ''/api/pcap''" by code_simp+
  then show ?thesis by (simp add: handle_request_def r Let_def)
qed

lemma send_stalled:
  assumes "t_room a 0 = 0" "pieces (conns s ! i) = P_text (c # t) # gs"
  shows "conn_send_more a i s = s"
proof -
  have l: "send_loop a 0 (P_text (c # t) # gs) = (P_text (c # t) # gs, [])" using assms(1) by (simp add: send_loop.simps)
  have e: "(conns s ! i)\<lparr>pieces := P_text (c # t) # gs\<rparr> = conns s ! i" by (simp flip: assms(2))
  show ?thesis by (simp add: e conn_send_more_def assms(2) l set_conn_def hemit_def)
qed

lemma pcap_stalled:
  assumes "t_room a 0 = 0" "i < length (conns s)"
  shows "\<exists>g gs. handle_pcap a i s =
    set_conn i ((conns s ! i)\<lparr>pcap_hold := True, responded := True, pieces := g # gs\<rparr>) (s\<lparr>cap_ring := (cap_ring s)\<lparr>paused := True\<rparr>\<rparr>)"
proof -
  have r: "fst (pcap_freeze r) = r\<lparr>paused := True\<rparr>" for r by (simp add: pcap_freeze_def)
  have "\<exists>t gs. handle_pcap a i s = conn_send_more a i (set_conn i ((conns s ! i)\<lparr>pcap_hold := True, responded := True,
      pieces := P_text (CHR ''H'' # t) # gs\<rparr>) (s\<lparr>cap_ring := (cap_ring s)\<lparr>paused := True\<rparr>\<rparr>))"
    unfolding handle_pcap_def Let_def case_prod_beta r by auto
  then show ?thesis using send_stalled [OF assms(1)] assms(2) by fastforce
qed

lemma recv_pcap:
  assumes "t_room a 0 = 0" "slot_of p s = Some i" "conns s ! i = zero_conn\<lparr>c_pcb := Some p\<rparr>"
  shows "\<exists>g gs. conns (http_recv w a p (Some get_pcap) True s) = (conns s)[i :=
      zero_conn\<lparr>c_pcb := Some p, c_req := get_pcap, responded := True, pcap_hold := True, pieces := g # gs\<rparr>]"
proof -
  have l: "length get_pcap = 26" "get_pcap \<noteq> []" by code_simp+
  note i = slot_of_Some [OF assms(2)]
  have c: "conns (got p i get_pcap s) = (conns s)[i := zero_conn\<lparr>c_pcb := Some p, c_req := get_pcap\<rparr>]"
    unfolding got_conns assms(3) by (simp add: zero_conn_def l)
  have "http_recv w a p (Some get_pcap) True s = handle_pcap a i (got p i get_pcap s)"
    using i by (simp add: http_recv_data [OF assms(2)] assms(3) l request_pcap c) (simp add: zero_conn_def)
  moreover obtain g gs where "conns (handle_pcap a i (got p i get_pcap s)) = (conns (got p i get_pcap s))[i :=
      (conns (got p i get_pcap s) ! i)\<lparr>pcap_hold := True, responded := True, pieces := g # gs\<rparr>]"
    using pcap_stalled [OF assms(1), of i "got p i get_pcap s"] i by (auto simp: got_conns)
  ultimately show ?thesis using i by (intro exI [of _ g] exI [of _ gs]) (simp add: c zero_conn_def)
qed

lemma second_download_unfreezes:
  fixes w :: web_env and k :: console
  assumes "t_room a 0 = 0"
  defines "s \<equiv> portal_run (two_downloads w a) (portal_init (pcap_set_enabled True pcap_boot) k)"
  shows "pcap_hold (conns s ! 0) \<and> pieces (conns s ! 0) \<noteq> [] \<and> \<not> paused (cap_ring s)"
proof -
  let ?z = "\<lambda>p. zero_conn\<lparr>c_pcb := Some p\<rparr>" let ?i = "portal_init (pcap_set_enabled True pcap_boot) k"
  have u: "[0 ..< 2] = [0, 1 :: nat]" by (simp add: upt_rec)
  have sl: "slot_of p t = find (\<lambda>i. c_pcb (conns t ! i) = Some p) [0, 1]" if "length (conns t) = 2" for p t
    using that by (simp add: slot_of_def u)
  define s2 where "s2 = http_accept True 2 N_usb (http_accept True 1 N_usb ?i)"
  have "conns ?i = [zero_conn, zero_conn]" by (simp add: portal_init_def numeral_2_eq_2)
  then have s2: "conns s2 = [?z 1, ?z 2]" by (simp add: s2_def http_accept_def u)
  define s3 where "s3 = http_recv w a 1 (Some get_pcap) True s2"
  obtain g gs where s3: "conns s3 = [?z 1\<lparr>c_req := get_pcap, responded := True, pcap_hold := True, pieces := g # gs\<rparr>, ?z 2]"
    using recv_pcap [OF assms(1), of 1 s2 0 w] sl [of s2 1] by (auto simp: s2 s3_def)
  define s4 where "s4 = http_recv w a 2 (Some get_pcap) True s3"
  obtain h hs where s4: "conns s4 = [?z 1\<lparr>c_req := get_pcap, responded := True, pcap_hold := True, pieces := g # gs\<rparr>,
       ?z 2\<lparr>c_req := get_pcap, responded := True, pcap_hold := True, pieces := h # hs\<rparr>]"
    using recv_pcap [OF assms(1), of 2 s3 1 w] sl [of s3 2] by (auto simp: s3 s4_def)
  have "slot_of 2 s4 = Some 1" using sl [of s4 2] by (simp add: s4)
  moreover have "s = http_recv w a 2 None True s4"
    unfolding s_def two_downloads_def s4_def s3_def s2_def portal_run_simps portal_call.simps ..
  ultimately have "s = hemit [H_close 2] (conn_free 1 s4)" by (simp add: http_recv_def)
  then show ?thesis by (simp add: s4 conn_free_def pcap_resume_def)
qed

end
