(* ===== verification/Device.thy ===== *)
theory Device
  imports Access_Point Usb_Net Config_Proto
begin

text \<open>
  \<^verbatim>\<open>src/main.c\<close>: how the modules are put together. The record \<open>dongle\<close> holds the state of the modules that
  applying settings touches, and main's own statics; \<open>apply_wg\<close> and the callbacks the configuration protocol is given
  change it. The crash log, kept over resets in memory that nobody clears, and the light have their own definitions.

  Shown: whatever settings are applied and whatever the modules do in between, the interfaces' addresses, the leases, the MSS clamp and the
  default route agree; a client of the access point, at its leased address, reaches its own subnet and the tunnel and nothing
  else (what a forged source reaches is stated with it); when settings moved the device to another address the host is
  replugged, once, five seconds after the last settings; and what the counters of the crash log count.
\<close>

section \<open>State\<close>

definition BRINGUP_DEV_ADDR :: u32 where "BRINGUP_DEV_ADDR = bswap32 0xAC1FFF01"
definition BRINGUP_HOST_ADDR :: u32 where "BRINGUP_HOST_ADDR = bswap32 0xAC1FFF02"
abbreviation BRINGUP_PREFIX :: u8 where "BRINGUP_PREFIX \<equiv> 30"
definition CRASHLOG_MAGIC :: u32 where "CRASHLOG_MAGIC = 0x50574731"

record dongle =
  d_wg :: wg_mod
  d_dhcp :: dhcp
  d_ap :: ap_mod
  d_usb :: usb_net
  applied_addr :: u32
  applied_once :: bool
  announced :: nat \<comment> \<open>calls of \<^verbatim>\<open>mdns_resp_announce\<close>\<close>

text \<open>What the outside answers while settings are applied.\<close>

record apply_env =
  e_aton :: "string \<Rightarrow> u32 option"
  e_x25519 :: x25519_fun
  e_now :: u32
  e_setup :: wg_setup
  e_sta_addr :: u32
  e_tape :: tape
  e_udp_ok :: bool

section \<open>Applying settings\<close>

definition readdress :: "apply_env \<Rightarrow> config \<Rightarrow> dongle \<Rightarrow> dongle" where
  "readdress e conf d =
     (let w = wg conf in
      if config_wg_complete conf then
        d\<lparr>d_usb := usb_net_set_mss_clamp (if host_mtu w \<noteq> 0 then host_mtu w - 40 else 0)
                     (usb_net_set_addr (wg_addr w) (wg_prefix w) (d_usb d)),
          d_dhcp := dhcp_server_start (e_udp_ok e) Usb USB_NIF (host_addr w) (wg_prefix w) (wg_dns w)
                      (if host_mtu w \<noteq> 0 then host_mtu w else WIREGUARDIF_MTU) (routes w) (unat (route_count w)) False (d_dhcp d)\<rparr>
      else
        d\<lparr>d_usb := usb_net_set_mss_clamp 0 (usb_net_set_addr BRINGUP_DEV_ADDR BRINGUP_PREFIX (d_usb d)),
          d_dhcp := dhcp_server_start (e_udp_ok e) Usb USB_NIF BRINGUP_HOST_ADDR BRINGUP_PREFIX 0 1500 [] 0 True (d_dhcp d)\<rparr>)"

definition device_ap_apply :: "apply_env \<Rightarrow> config \<Rightarrow> dongle \<Rightarrow> dongle" where
  "device_ap_apply e conf d =
     (let (m, dh, s) = ap_apply (e_udp_ok e) conf (d_wg d, d_dhcp d, d_ap d)
      in d\<lparr>d_wg := m, d_dhcp := dh, d_ap := s\<rparr>)"

definition schedule_replug :: "apply_env \<Rightarrow> config \<Rightarrow> dongle \<Rightarrow> dongle" where
  "schedule_replug e conf d =
     (let now_addr = (if config_wg_complete conf then wg_addr (wg conf) else BRINGUP_DEV_ADDR);
          d = (if applied_once d \<and> (now_addr \<noteq> applied_addr d \<or> usb_net_bounce_pending (d_usb d))
               then d\<lparr>d_usb := usb_net_schedule_bounce (e_now e) (d_usb d)\<rparr> else d)
      in d\<lparr>applied_once := True, applied_addr := now_addr\<rparr>)"

definition apply_wg :: "apply_env \<Rightarrow> config \<Rightarrow> dongle \<Rightarrow> dongle option" where
  "apply_wg e conf d =
     (let d = readdress e conf d in
      map_option (\<lambda>(m, tp).
          let d = device_ap_apply e conf (d\<lparr>d_wg := m\<rparr>); d = d\<lparr>announced := announced d + 1\<rparr>
          in schedule_replug e conf d)
        (wg_apply (e_aton e) (e_x25519 e) (e_now e) (e_setup e) (e_sta_addr e) conf (e_tape e) (d_wg d)))"

text \<open>The callbacks main registers with the configuration protocol, as far as they concern this state.\<close>

definition on_cp_event :: "apply_env \<Rightarrow> cp_event \<Rightarrow> dongle \<Rightarrow> dongle option" where
  "on_cp_event e v d =
     (case v of E_apply_wg conf \<Rightarrow> apply_wg e conf d | E_apply_ap conf \<Rightarrow> Some (device_ap_apply e conf d) | _ \<Rightarrow> Some d)"

definition dongle_boot :: "wg_netif \<Rightarrow> wg_config \<Rightarrow> bytes \<Rightarrow> config \<Rightarrow> dongle" where
  "dongle_boot n w board conf =
     \<lparr>d_wg = wg_boot n napt_boot w, d_dhcp = dhcp_boot, d_ap = ap_boot,
      d_usb = snd (usb_net_init board True (wg_addr (wg conf)) (wg_prefix (wg conf)) usb_reset),
      applied_addr = 0, applied_once = False, announced = 0\<rparr>"

section \<open>The crash log\<close>

record crashlog =
  c_magic :: u32
  c_stats :: "u32 \<times> u32 \<times> u32 \<times> u32 \<times> u32" \<comment> \<open>\<^verbatim>\<open>from_host\<close>, \<^verbatim>\<open>to_host\<close>, \<^verbatim>\<open>txdrop\<close>, \<^verbatim>\<open>poolfail\<close>, \<^verbatim>\<open>ring_max\<close>\<close>
  boots :: u32
  hangs :: u32
  faults :: u32
  fault_pc :: u32
  fault_lr :: u32
  fault_pending :: u32

definition fault_capture :: "u32 \<Rightarrow> u32 \<Rightarrow> crashlog \<Rightarrow> crashlog" where
  "fault_capture pc lr c = c\<lparr>c_magic := CRASHLOG_MAGIC, fault_pc := pc, fault_lr := lr, fault_pending := 1\<rparr>"

text \<open>The start of main: the log, whether a fault and whether a hang is to be reported.
  \<open>by_watchdog\<close> is \<^verbatim>\<open>watchdog_caused_reboot\<close>.\<close>

definition crashlog_start :: "bool \<Rightarrow> crashlog \<Rightarrow> crashlog \<times> bool \<times> bool" where
  "crashlog_start by_watchdog c =
     (let warm = (by_watchdog \<and> c_magic c = CRASHLOG_MAGIC);
          fault_recovered = (warm \<and> fault_pending c \<noteq> 0);
          hang_recovered = (warm \<and> fault_pending c = 0);
          c = (if c_magic c \<noteq> CRASHLOG_MAGIC
               then \<lparr>c_magic = CRASHLOG_MAGIC, c_stats = (0, 0, 0, 0, 0), boots = 0, hangs = 0, faults = 0, fault_pc = 0,
                     fault_lr = 0, fault_pending = 0\<rparr>
               else c);
          c = c\<lparr>boots := boots c + 1\<rparr>;
          c = (if fault_recovered then c\<lparr>faults := faults c + 1\<rparr> else c);
          c = (if hang_recovered then c\<lparr>hangs := hangs c + 1\<rparr> else c)
      in (c\<lparr>fault_pending := 0\<rparr>, fault_recovered, hang_recovered))"

definition crashlog_note :: "usb_net \<Rightarrow> crashlog \<Rightarrow> crashlog" where
  "crashlog_note u c =
     (case usb_net_get_stats u of (fh, th, td, pf, rm) \<Rightarrow> c\<lparr>c_stats := (fh, th, td, pf, of_nat rm)\<rparr>)"

section \<open>The main loop's own steps\<close>

record loop_state =
  last_led :: u32
  led_on :: bool
  led_puts :: "bool list" \<comment> \<open>\<^verbatim>\<open>cyw43_arch_gpio_put\<close>\<close>
  last_wg_poll :: u32
  was_wg_up :: bool
  hang_reported :: bool

definition led_scan_pattern :: "u32 \<Rightarrow> bool" where
  "led_scan_pattern now = (let t = now mod 2000 in t < 70 \<or> t \<ge> 220 \<and> t < 290)"

definition led_pattern :: "u32 \<Rightarrow> bool \<Rightarrow> bool \<Rightarrow> bool \<Rightarrow> bool" where
  "led_pattern now usb_ok up provisioned =
     (if \<not> usb_ok then False else if up then True
      else if \<not> provisioned then now mod 200 < 100 else now mod 1000 < 500)"

definition led_step :: "u32 \<Rightarrow> bool \<Rightarrow> bool \<Rightarrow> config \<Rightarrow> wg_mod \<Rightarrow> usb_net \<Rightarrow> loop_state \<times> crashlog \<Rightarrow> loop_state \<times> crashlog" where
  "led_step now usb_ok contscan conf m u lc =
     (case lc of (l, c) \<Rightarrow>
        if contscan then
          let on = usb_ok \<and> led_scan_pattern now
          in if on \<noteq> led_on l then (l\<lparr>led_puts := led_puts l @ [on], led_on := on\<rparr>, c) else (l, c)
        else if now - last_led l \<ge> 50 then
          let on = led_pattern now usb_ok (wg_session_up m) (profile_count conf > 0 \<and> config_wg_complete conf)
          in (l\<lparr>last_led := now, led_puts := led_puts l @ [on], led_on := on\<rparr>, crashlog_note u c)
        else (l, c))"

text \<open>\<open>poll\<close> is \<^verbatim>\<open>wg_poll\<close>; the result's first part is what it says on the debug console.\<close>

definition wg_poll_step :: "u32 \<Rightarrow> bool \<Rightarrow> (wg_mod \<Rightarrow> wg_mod) \<Rightarrow> loop_state \<times> wg_mod \<Rightarrow> string \<times> loop_state \<times> wg_mod" where
  "wg_poll_step now debug poll lm =
     (case lm of (l, m) \<Rightarrow>
        if now - last_wg_poll l \<ge> 1000 then
          let l = l\<lparr>last_wg_poll := now\<rparr>; m = poll m in
          if wg_session_up m \<noteq> was_wg_up l then
            let l = l\<lparr>was_wg_up := wg_session_up m\<rparr>
            in (if debug then (if was_wg_up l then ''wireguard session up'' @ NL else ''wireguard session down'' @ NL) else [], l, m)
          else ([], l, m)
        else ([], l, m))"

definition report_due :: "bool \<Rightarrow> bool \<Rightarrow> bool \<Rightarrow> loop_state \<Rightarrow> bool \<times> loop_state" where
  "report_due fault_recovered hang_recovered usb_up l =
     (if (fault_recovered \<or> hang_recovered) \<and> \<not> hang_reported l \<and> usb_up then (True, l\<lparr>hang_reported := True\<rparr>)
      else (False, l))"

definition link_reason :: "int \<Rightarrow> string" where
  "link_reason s =
     (if s = 0 then ''down'' else if s = 1 then ''join'' else if s = 2 then ''noip'' else if s = 3 then ''up''
      else if s = - 1 then ''fail'' else if s = - 2 then ''nonet'' else if s = - 3 then ''badauth'' else ''?'')"

section \<open>What the tunnel's own steps leave alone\<close>

definition still :: "wg_mod \<Rightarrow> wg_mod \<Rightarrow> bool" where
  "still m m' \<longleftrightarrow> wgc m' = wgc m \<and> wg_configured m' = wg_configured m \<and>
     (netif_default m' = netif_default m \<or> netif_default m' \<noteq> N_ap)"

lemma still_refl [simp]: "still m m"
  by (simp add: still_def)

lemma still_trans: "still a b \<Longrightarrow> still b c \<Longrightarrow> still a c"
  by (auto simp: still_def)

lemma still_monitor: "still m (wg_monitor now m)"
  by (simp add: still_def wg_monitor_def wg_connect_def)

lemma still_resolve: "still m (wg_resolve now dns m)"
  by (auto simp: still_def wg_resolve_def Let_def split: prod.split)

lemma still_poll:
  assumes "wg_inv m"
  shows "still m (wg_poll x25519 now sta_link sta_addr dns m)"
proof (cases "wg_configured m \<and> wg_netif_added m \<and> sta_netif m \<and> sta_link")
  case True
  define m1 where "m1 = (if exit_on m then m\<lparr>wg_napt := napt_set_ext_ip sta_addr (wg_napt m)\<rparr> else m)"
  have i1: "wg_inv m1" "wg_netif_added m1" "still m m1" using assms True by (auto simp: m1_def wg_inv_def still_def)
  note r = resolve_inv [OF i1(1), of now dns]
  have "n_state (wg_nif (wg_resolve now dns m1)) \<noteq> None" using r(1,2) i1(2) unfolding wg_inv_def by metis
  then obtain d where "n_state (wg_nif (wg_resolve now dns m1)) = Some d" by blast
  then have "still (wg_resolve now dns m1) (wg_add_peer_and_connect x25519 now (wg_resolve now dns m1))"
    by (rule add_peer_shape [where ?x25519.0 = x25519 and now = now]) (simp add: still_def)
  then have "still m (wg_add_peer_and_connect x25519 now (wg_resolve now dns m1))" "still m (wg_resolve now dns m1)"
    "still m (wg_monitor now m1)"
    using i1(3) still_resolve still_monitor still_trans by blast+
  then show ?thesis unfolding wg_poll_def m1_def [symmetric] Let_def by simp
next
  case False
  then show ?thesis by (auto simp: wg_poll_def)
qed

lemma still_hooks:
  "still m (dns_resolved_cb a m)" "still m (m\<lparr>wg_nif := n\<rparr>)"
  "still m (fst (exit_sta_output e now m p))" "still m (fst (wg_ip4_input_hook now inp m p))"
  by (auto simp: still_def dns_resolved_cb_def exit_sta_output_def wg_ip4_input_hook_def Let_def split: option.split prod.split)

lemma teardown_default: "netif_default m \<noteq> N_ap \<Longrightarrow> netif_default (wg_teardown m) \<noteq> N_ap"
  by (simp add: wg_teardown_def Let_def)

lemma wg_apply_frame:
  assumes "wg_apply aton x25519 now lwip sta_addr conf tp m = Some (m', tp')" "netif_default m \<noteq> N_ap"
  shows "wg_configured m' = config_wg_complete conf" "config_wg_complete conf \<Longrightarrow> wgc m' = wg conf" "netif_default m' \<noteq> N_ap"
proof -
  have "netif_default (wg_teardown (m\<lparr>sta_netif := True\<rparr>)) \<noteq> N_ap" by (rule teardown_default) (use assms(2) in simp)
  then have "wg_configured m' = config_wg_complete conf \<and> (config_wg_complete conf \<longrightarrow> wgc m' = wg conf) \<and> netif_default m' \<noteq> N_ap"
    using assms(1) by (auto simp: wg_apply_def Let_def split: if_splits)
  then show "wg_configured m' = config_wg_complete conf" "config_wg_complete conf \<Longrightarrow> wgc m' = wg conf" "netif_default m' \<noteq> N_ap"
    by blast+
qed

section \<open>What the USB link's own steps leave alone\<close>

text \<open>The interface's address and mask, from the calls made.\<close>

fun usb_addr_of :: "usb_event list \<Rightarrow> (u32 \<times> u32) option" where
  "usb_addr_of [] = None"
| "usb_addr_of (v # vs) =
     (case usb_addr_of vs of Some x \<Rightarrow> Some x
      | None \<Rightarrow> (case v of U_set_addr a k \<Rightarrow> Some (a, k) | U_netif_add a k h \<Rightarrow> Some (a, k) | _ \<Rightarrow> None))"

lemma usb_addr_of_append:
  "usb_addr_of (us @ vs) = (case usb_addr_of vs of Some x \<Rightarrow> Some x | None \<Rightarrow> usb_addr_of us)"
  by (induction us) (auto split: option.split)

definition usb_still :: "usb_net \<Rightarrow> usb_net \<Rightarrow> bool" where
  "usb_still s s' \<longleftrightarrow> usb_addr_of (uevents s') = usb_addr_of (uevents s) \<and> g_mss_clamp s' = g_mss_clamp s"

lemma usb_still_refl [simp]: "usb_still s s"
  by (simp add: usb_still_def)

lemma usb_still_trans: "usb_still a b \<Longrightarrow> usb_still b c \<Longrightarrow> usb_still a c"
  by (simp add: usb_still_def)

lemma usb_still_drain: "usb_still s (drain_loop mtu can n s)"
proof (induction mtu can n s rule: drain_loop.induct)
  case (2 mtu can n s)
  then show ?case
    by (auto simp: tud_network_xmit_cb_def usb_still_def usb_addr_of_append Let_def uemit_def split: option.splits prod.splits)
qed simp

lemma usb_still_bounce: "usb_still s (bounce_step now s)"
  by (simp add: bounce_step_def usb_still_def usb_addr_of_append uemit_def Let_def)

lemma usb_still_take: "usb_still s (take_frame mtu s)"
  by (auto simp: take_frame_def usb_still_def usb_addr_of_append uemit_def Let_def split: option.split)

lemma usb_still_cb: "usb_still s (cb_step c s)"
  by (cases c) (auto simp: tud_network_recv_cb_def tud_network_init_cb_def usb_still_def)

lemma usb_still_cbs: "usb_still s (fold cb_step cs s)"
  by (induction cs arbitrary: s) (auto intro: usb_still_trans [OF usb_still_cb])

lemma usb_still_update: "usb_still s (usb_net_update now mtu (fold cb_step cs) can s)"
proof -
  let ?t = "usb_tx_drain mtu can (fold cb_step cs (bounce_step now s))"
  have "usb_still s (take_frame mtu ?t)"
    unfolding usb_tx_drain_def
    by (rule usb_still_trans [OF usb_still_trans [OF usb_still_trans [OF usb_still_bounce usb_still_cbs] usb_still_drain] usb_still_take])
  then show ?thesis by (simp add: usb_net_update_def usb_still_def usb_addr_of_append uemit_def Let_def)
qed

lemma usb_still_send: "usb_still s (snd (usb_linkoutput r p s))"
  by (auto simp: usb_linkoutput_def usb_tx_push_def usb_still_def Let_def)

section \<open>The device's steps\<close>

text \<open>A callback from the configuration protocol, a datagram to the DHCP server, a step of the USB link, of the tunnel
  or of the interface below it, or a packet at the station's edge. The label tells the steps that apply the tunnel's settings and the
  turns of the main loop, with their time, from the others.\<close>

datatype dongle_label = Applies apply_env config | Turn u32 | Other

fun event_label :: "apply_env \<Rightarrow> cp_event \<Rightarrow> dongle_label" where
  "event_label e (E_apply_wg conf) = Applies e conf"
| "event_label e v = Other"

lemma event_label_Turn [simp]: "event_label e v \<noteq> Turn t" "Turn t \<noteq> event_label e v"
  by (cases v; simp)+

inductive dongle_step :: "dongle_label \<Rightarrow> dongle \<Rightarrow> dongle \<Rightarrow> bool" where
  Settings: "on_cp_event e v d = Some d' \<Longrightarrow> dongle_step (event_label e v) d d'"
| Dhcp: "dhcp_recv addr_of alloc_ok inp p (d_dhcp d) = Some (dh, reply) \<Longrightarrow> dongle_step Other d (d\<lparr>d_dhcp := dh\<rparr>)"
| Usb_send: "dongle_step Other d (d\<lparr>d_usb := snd (usb_linkoutput ready p (d_usb d))\<rparr>)"
| Usb_cb: "dongle_step Other d (d\<lparr>d_usb := cb_step c (d_usb d)\<rparr>)"
| Usb_update: "dongle_step (Turn now) d (d\<lparr>d_usb := usb_net_update now mtu (fold cb_step cs) can (d_usb d)\<rparr>)"
| Poll: "dongle_step Other d (d\<lparr>d_wg := wg_poll x25519 now sta_link sta_addr dns (d_wg d)\<rparr>)"
| Resolved: "dongle_step Other d (d\<lparr>d_wg := dns_resolved_cb a (d_wg d)\<rparr>)"
| Tunnel: "n_state (wg_nif (d_wg d)) = Some t \<Longrightarrow>
    dongle_step Other d (d\<lparr>d_wg := (d_wg d)\<lparr>wg_nif := (wg_nif (d_wg d))\<lparr>n_state := Some t'\<rparr>\<rparr>\<rparr>)"
| Sta_output: "dongle_step Other d (d\<lparr>d_wg := fst (exit_sta_output ne now (d_wg d) b)\<rparr>)"
| Input_hook: "dongle_step Other d (d\<lparr>d_wg := fst (wg_ip4_input_hook now inp' (d_wg d) b)\<rparr>)"

text \<open>main applies the settings once before its loop.\<close>

inductive running :: "dongle \<Rightarrow> bool" where
  Start: "apply_wg e conf (dongle_boot n w board conf) = Some d \<Longrightarrow> running d"
| Step: "running d \<Longrightarrow> dongle_step l d d' \<Longrightarrow> running d'"

inductive_cases dongle_stepE: "dongle_step l d d'"

text \<open>The USB interface and the host's lease fit the tunnel's settings, or the bring-up island when there are none.\<close>

definition usb_lease_ok :: "wg_mod \<Rightarrow> dhcp_server \<Rightarrow> usb_net \<Rightarrow> u32 \<Rightarrow> bool" where
  "usb_lease_ok m l u a \<longleftrightarrow>
     usb_addr_of (uevents u) = Some (a, lease_mask l) \<and> a \<noteq> 0 \<and> nif l = Some USB_NIF \<and>
     (let w = wgc m in
      if wg_configured m then
        a = wg_addr w \<and> lease_mask l = netmask_from_prefix (wg_prefix w) \<and> lease_addr l = host_addr w \<and>
        lease_dns l = wg_dns w \<and> \<not> lease_link_only l \<and>
        lease_mtu l = (if host_mtu w \<noteq> 0 then host_mtu w else WIREGUARDIF_MTU) \<and>
        g_mss_clamp u = (if host_mtu w \<noteq> 0 then host_mtu w - 40 else 0)
      else
        a = BRINGUP_DEV_ADDR \<and> lease_mask l = netmask_from_prefix BRINGUP_PREFIX \<and> lease_addr l = BRINGUP_HOST_ADDR \<and>
        lease_dns l = 0 \<and> lease_link_only l \<and> lease_mtu l = 1500 \<and> g_mss_clamp u = 0)"

definition dongle_inv :: "dongle \<Rightarrow> bool" where
  "dongle_inv d \<longleftrightarrow> wg_inv (d_wg d) \<and> netif_default (d_wg d) \<noteq> N_ap \<and> ap_inv (d_dhcp d) (d_ap d) \<and>
     (applied_once d \<longrightarrow> usb_lease_ok (d_wg d) (dhcp_usb (d_dhcp d)) (d_usb d) (applied_addr d))"

lemma dongle_inv_wg:
  "dongle_inv d \<Longrightarrow> wg_inv m \<Longrightarrow> still (d_wg d) m \<Longrightarrow> dongle_inv (d\<lparr>d_wg := m\<rparr>)"
  unfolding dongle_inv_def by (auto simp: usb_lease_ok_def still_def)

lemma usb_lease_ok_usb: "usb_still u u' \<Longrightarrow> usb_lease_ok m l u' a = usb_lease_ok m l u a"
  by (simp add: usb_lease_ok_def usb_still_def)

lemma usb_lease_ok_leased: "usb_lease_ok m (l\<lparr>leased := b\<rparr>) u a = usb_lease_ok m l u a"
  by (simp add: usb_lease_ok_def)

lemma ap_inv_leased: "dhcp_ap dh = (dhcp_ap dh')\<lparr>leased := b\<rparr> \<Longrightarrow> ap_inv dh s = ap_inv dh' s"
  by (simp add: ap_inv_def)

lemma dongle_inv_usb:
  "dongle_inv d \<Longrightarrow> usb_still (d_usb d) u \<Longrightarrow> dongle_inv (d\<lparr>d_usb := u\<rparr>)"
  using usb_lease_ok_usb [of "d_usb d" u] by (simp add: dongle_inv_def)

lemma dhcp_recv_scopes:
  assumes "dhcp_recv addr_of alloc_ok inp p dh = Some (dh', reply)"
  shows "\<exists>a b. dhcp_usb dh' = (dhcp_usb dh)\<lparr>leased := a\<rparr> \<and> dhcp_ap dh' = (dhcp_ap dh)\<lparr>leased := b\<rparr>"
proof -
  have s: "\<exists>a. s = s\<lparr>leased := a\<rparr>" for s :: dhcp_server by (rule exI [of _ "leased s"]) simp
  have "dh' = dh \<or> (\<exists>sc. dh' = set_scope dh sc ((get_scope dh sc)\<lparr>leased := True\<rparr>))"
    using assms by (auto simp: dhcp_recv_def Let_def split: option.splits if_splits)
  then show ?thesis
  proof
    assume "\<exists>sc. dh' = set_scope dh sc ((get_scope dh sc)\<lparr>leased := True\<rparr>)"
    then obtain sc where "dh' = set_scope dh sc ((get_scope dh sc)\<lparr>leased := True\<rparr>)" by blast
    then show ?thesis using s by (cases sc) auto
  qed (use s in auto)
qed

lemma dongle_inv_dhcp:
  assumes "dongle_inv d" "dhcp_recv addr_of alloc_ok inp p (d_dhcp d) = Some (dh, reply)"
  shows "dongle_inv (d\<lparr>d_dhcp := dh\<rparr>)"
proof -
  obtain a b where "dhcp_usb dh = (dhcp_usb (d_dhcp d))\<lparr>leased := a\<rparr>" "dhcp_ap dh = (dhcp_ap (d_dhcp d))\<lparr>leased := b\<rparr>"
    using dhcp_recv_scopes [OF assms(2)] by blast
  then show ?thesis using assms(1) ap_inv_leased [where dh = dh and dh' = "d_dhcp d" and b = b] by (simp add: dongle_inv_def usb_lease_ok_leased)
qed

lemma device_ap_inv:
  assumes "dongle_inv d"
  shows "dongle_inv (device_ap_apply e conf d)" "dhcp_usb (d_dhcp (device_ap_apply e conf d)) = dhcp_usb (d_dhcp d)"
    "still (d_wg d) (d_wg (device_ap_apply e conf d))" "d_usb (device_ap_apply e conf d) = d_usb d"
    "applied_once (device_ap_apply e conf d) = applied_once d" "applied_addr (device_ap_apply e conf d) = applied_addr d"
proof -
  obtain m dh s where r: "(m, dh, s) = ap_apply (e_udp_ok e) conf (d_wg d, d_dhcp d, d_ap d)" by (metis surj_pair)
  have i: "ap_inv (d_dhcp d) (d_ap d)" "wg_inv (d_wg d)" "netif_default (d_wg d) \<noteq> N_ap" using assms by (simp_all add: dongle_inv_def)
  note c = ap_apply_cases [OF r i(1)]
  have n: "netif_default m \<noteq> N_ap"
    using c(6) i(3) by (cases "wg_session_up (d_wg d)"; cases "wg_netif_added (d_wg d)") (auto simp: wg_active_netif_def)
  have w: "wgc m = wgc (d_wg d)" "wg_configured m = wg_configured (d_wg d)" by (subst c(5), simp)+
  have e: "device_ap_apply e conf d = d\<lparr>d_wg := m, d_dhcp := dh, d_ap := s\<rparr>"
    by (simp add: device_ap_apply_def r [symmetric])
  show "dongle_inv (device_ap_apply e conf d)"
    using assms n w c(1,3) ap_apply_wg_inv [OF r i(1,2)] by (simp add: e dongle_inv_def usb_lease_ok_def)
  show "dhcp_usb (d_dhcp (device_ap_apply e conf d)) = dhcp_usb (d_dhcp d)" using c(3) by (simp add: e)
  show "still (d_wg d) (d_wg (device_ap_apply e conf d))" using n w by (simp add: e still_def)
qed (simp_all add: device_ap_apply_def split: prod.split)

text \<open>The parts of \<open>apply_wg\<close>.\<close>

lemma apply_wg_parts:
  assumes "apply_wg e conf d = Some d'"
  obtains m tp where "wg_apply (e_aton e) (e_x25519 e) (e_now e) (e_setup e) (e_sta_addr e) conf (e_tape e) (d_wg (readdress e conf d)) = Some (m, tp)"
    "d' = schedule_replug e conf ((device_ap_apply e conf ((readdress e conf d)\<lparr>d_wg := m\<rparr>))
            \<lparr>announced := announced (device_ap_apply e conf ((readdress e conf d)\<lparr>d_wg := m\<rparr>)) + 1\<rparr>)"
  using assms that by (auto simp: apply_wg_def Let_def)

lemma readdress_fields [simp]:
  "d_wg (readdress e conf d) = d_wg d" "d_ap (readdress e conf d) = d_ap d"
  "applied_once (readdress e conf d) = applied_once d" "applied_addr (readdress e conf d) = applied_addr d"
  "dhcp_ap (d_dhcp (readdress e conf d)) = dhcp_ap (d_dhcp d)" "announced (readdress e conf d) = announced d"
  "bounce_at_ms (d_usb (readdress e conf d)) = bounce_at_ms (d_usb d)"
  by (simp_all add: readdress_def Let_def usb_net_set_mss_clamp_def usb_net_set_addr_def uemit_def)

lemma complete_parts:
  "config_wg_complete c \<Longrightarrow> wg_addr (wg c) \<noteq> 0 \<and> wg_prefix (wg c) \<noteq> 0"
  by (auto simp: config_wg_complete_def Let_def)

lemma bringup_nonzero: "BRINGUP_DEV_ADDR \<noteq> 0"
  unfolding BRINGUP_DEV_ADDR_def by code_simp

lemma start_usb_scope:
  "nif (dhcp_usb (dhcp_server_start u Usb n ha px dns mtu rts k lo d)) = Some n"
  "lease_addr (dhcp_usb (dhcp_server_start u Usb n ha px dns mtu rts k lo d)) = ha"
  "lease_mask (dhcp_usb (dhcp_server_start u Usb n ha px dns mtu rts k lo d)) = netmask_from_prefix px"
  "lease_dns (dhcp_usb (dhcp_server_start u Usb n ha px dns mtu rts k lo d)) = (if lo then 0 else dns)"
  "lease_mtu (dhcp_usb (dhcp_server_start u Usb n ha px dns mtu rts k lo d)) = mtu"
  "lease_link_only (dhcp_usb (dhcp_server_start u Usb n ha px dns mtu rts k lo d)) = lo"
  by (simp_all add: dhcp_server_start_def Let_def netmask_from_prefix_def)

lemma readdress_lease:
  assumes "wg_configured m = config_wg_complete conf" "config_wg_complete conf \<Longrightarrow> wgc m = wg conf"
  shows "usb_lease_ok m (dhcp_usb (d_dhcp (readdress e conf d))) (d_usb (readdress e conf d))
    (if config_wg_complete conf then wg_addr (wg conf) else BRINGUP_DEV_ADDR)"
proof (cases "config_wg_complete conf")
  case True
  then show ?thesis using assms complete_parts [OF True]
    by (simp add: usb_lease_ok_def readdress_def Let_def start_usb_scope usb_net_set_mss_clamp_def usb_net_set_addr_def uemit_def
      usb_addr_of_append)
next
  case False
  then show ?thesis using assms bringup_nonzero
    by (simp add: usb_lease_ok_def readdress_def Let_def start_usb_scope usb_net_set_mss_clamp_def usb_net_set_addr_def uemit_def
      usb_addr_of_append)
qed

lemma apply_wg_inv:
  assumes "wg_inv (d_wg d)" "netif_default (d_wg d) \<noteq> N_ap" "ap_inv (d_dhcp d) (d_ap d)" "apply_wg e conf d = Some d'"
  shows "dongle_inv d'" "applied_once d'"
proof -
  define a where "a = (if config_wg_complete conf then wg_addr (wg conf) else BRINGUP_DEV_ADDR)"
  obtain m tp where p: "wg_apply (e_aton e) (e_x25519 e) (e_now e) (e_setup e) (e_sta_addr e) conf (e_tape e) (d_wg (readdress e conf d)) = Some (m, tp)"
    and d': "d' = schedule_replug e conf ((device_ap_apply e conf ((readdress e conf d)\<lparr>d_wg := m\<rparr>))
            \<lparr>announced := announced (device_ap_apply e conf ((readdress e conf d)\<lparr>d_wg := m\<rparr>)) + 1\<rparr>)"
    using apply_wg_parts [OF assms(4)] by blast
  have m: "wg_inv m" using apply_inv [OF _ p] assms(1) by simp
  note f = wg_apply_frame [OF p, simplified, OF assms(2)]
  define d1 where "d1 = (readdress e conf d)\<lparr>d_wg := m, applied_once := True, applied_addr := a\<rparr>"
  have "ap_inv (d_dhcp (readdress e conf d)) (d_ap d)" using assms(3) by (simp add: ap_inv_def)
  then have i1: "dongle_inv d1"
    using m f readdress_lease [of m conf, OF f(1,2)] by (simp add: dongle_inv_def d1_def a_def)
  define d2 where "d2 = device_ap_apply e conf d1"
  have i2: "dongle_inv d2" "applied_once d2" "applied_addr d2 = a"
    using device_ap_inv [OF i1, of e conf] by (simp_all add: d2_def) (simp_all add: d1_def)
  have ap: "device_ap_apply e conf d1 = (device_ap_apply e conf ((readdress e conf d)\<lparr>d_wg := m\<rparr>))
      \<lparr>applied_once := True, applied_addr := a\<rparr>"
    by (simp add: device_ap_apply_def d1_def split: prod.split)
  define u where "u = d_usb d'"
  have d'2: "d' = d2\<lparr>announced := announced d', d_usb := u\<rparr>" "usb_still (d_usb d2) u"
    by (auto simp: d' u_def d2_def ap schedule_replug_def Let_def a_def usb_still_def usb_net_schedule_bounce_def)
  have "dongle_inv (d2\<lparr>d_usb := u\<rparr>)" by (rule dongle_inv_usb [OF i2(1) d'2(2)])
  then have "dongle_inv (d2\<lparr>announced := announced d', d_usb := u\<rparr>)" by (simp add: dongle_inv_def)
  then show "dongle_inv d'" using d'2(1) by metis
  have "applied_once (d2\<lparr>announced := announced d', d_usb := u\<rparr>)" using i2(2) by simp
  then show "applied_once d'" using d'2(1) by metis
qed

lemma dongle_step_inv:
  assumes "dongle_step l d d'" "dongle_inv d" "applied_once d"
  shows "dongle_inv d' \<and> applied_once d'"
  using assms
proof (cases rule: dongle_step.cases)
  case (Settings e v)
  then show ?thesis
    using apply_wg_inv [of d e _ d'] device_ap_inv(1,5) [OF assms(2), of e] assms(2,3)
    by (auto simp: on_cp_event_def dongle_inv_def split: cp_event.splits)
next
  case (Dhcp addr_of alloc_ok inp p dh reply)
  then show ?thesis using dongle_inv_dhcp [OF assms(2)] assms(3) by simp
next
  case (Poll x25519 now sta_link sta_addr dns)
  have "wg_inv (d_wg d)" using assms(2) by (simp add: dongle_inv_def)
  then show ?thesis using Poll dongle_inv_wg [OF assms(2) poll_inv still_poll] assms(3) by simp
next
  case (Resolved a)
  have "wg_inv (dns_resolved_cb a (d_wg d))" using assms(2) wg_step_inv [OF wg_step.Dns] by (simp add: dongle_inv_def)
  then show ?thesis using Resolved dongle_inv_wg [OF assms(2) _ still_hooks(1)] assms(3) by simp
next
  case (Tunnel t t')
  have "wg_inv ((d_wg d)\<lparr>wg_nif := (wg_nif (d_wg d))\<lparr>n_state := Some t'\<rparr>\<rparr>)"
    using assms(2) wg_step_inv [OF wg_step.Device [OF Tunnel(3)]] by (simp add: dongle_inv_def)
  then show ?thesis using Tunnel dongle_inv_wg [OF assms(2) _ still_hooks(2)] assms(3) by simp
next
  case (Sta_output ne now b)
  have "wg_inv (fst (exit_sta_output ne now (d_wg d) b))" using assms(2) wg_step_inv [OF wg_step.Sta_output] by (simp add: dongle_inv_def)
  then show ?thesis using Sta_output dongle_inv_wg [OF assms(2) _ still_hooks(3)] assms(3) by simp
next
  case (Input_hook now inp' b)
  have "wg_inv (fst (wg_ip4_input_hook now inp' (d_wg d) b))" using assms(2) wg_step_inv [OF wg_step.Input_hook] by (simp add: dongle_inv_def)
  then show ?thesis using Input_hook dongle_inv_wg [OF assms(2) _ still_hooks(4)] assms(3) by simp
qed (use assms(2,3) dongle_inv_usb [OF assms(2)] usb_still_send usb_still_cb usb_still_update in simp_all)

lemma boot_inv: "dongle_inv (dongle_boot n w board conf)"
proof -
  have "ap_inv dhcp_boot ap_boot" by (rule ap_boot_inv)
  then show ?thesis using wg_boot_inv by (simp add: dongle_inv_def dongle_boot_def) (simp add: wg_boot_def)
qed

lemma running_inv: "running d \<Longrightarrow> dongle_inv d \<and> applied_once d"
proof (induction rule: running.induct)
  case (Start e conf n w board d)
  show ?case
    using apply_wg_inv [OF _ _ _ Start] boot_inv [of n w board conf] by (simp add: dongle_inv_def)
next
  case (Step d l d')
  then show ?case using dongle_step_inv by blast
qed

section \<open>The access point's client is in its subnet\<close>

lemma bit_bswap32:
  assumes "n < 32"
  shows "bit (bswap32 w) n =
    bit w (if n < 8 then n + 24 else if n < 16 then n + 8 else if n < 24 then n - 8 else n - 24)"
proof -
  consider "n < 8" | "8 \<le> n" "n < 16" | "16 \<le> n" "n < 24" | "24 \<le> n" "n < 32" using assms by linarith
  then show ?thesis
    by cases (auto simp: bswap32_def le32_def bit_simps add.commute)
qed

lemma bswap32_bitwise:
  "bswap32 (a AND b) = bswap32 a AND bswap32 b" "bswap32 (a XOR b) = bswap32 a XOR bswap32 b"
  by (rule bit_word_eqI, simp add: bit_bswap32 bit_and_iff bit_xor_iff)+

lemma bswap32_0: "bswap32 0 = 0"
  by (simp add: bswap32_def le32_def)

lemma xor_and_0: "(a XOR b) AND k = 0 \<Longrightarrow> a AND k = b AND (k :: u32)"
proof (rule bit_word_eqI)
  fix n assume z: "(a XOR b) AND k = 0" and n: "n < LENGTH(32)"
  have "\<not> bit ((a XOR b) AND k) n" by (simp add: z)
  then show "bit (a AND k) n = bit (b AND k) n" by (auto simp: bit_simps)
qed

lemma same_subnet:
  assumes "(bswap32 a XOR bswap32 c) AND k = 0"
  shows "ip4_addr_netcmp c a (bswap32 k)"
proof -
  have "bswap32 ((bswap32 a XOR bswap32 c) AND k) = 0" using assms by (simp add: bswap32_0)
  then have "(a XOR c) AND bswap32 k = 0" by (simp add: bswap32_bitwise)
  from xor_and_0 [OF this] show ?thesis by (simp add: ip4_addr_netcmp_def)
qed

lemma ap_client_on_link:
  assumes "ap_inv dh s" "ap_up s"
  shows "lease_addr (dhcp_ap dh) \<noteq> 0" "ap_nif_addr s \<noteq> 0" "lease_addr (dhcp_ap dh) \<noteq> ap_nif_addr s"
    "ip4_addr_netcmp (lease_addr (dhcp_ap dh)) (ap_nif_addr s) (ap_nif_mask s)"
proof -
  obtain c where c: "ap c = applied s" "config_ap_complete c" using assms by (auto simp: ap_inv_def)
  then have z: "ap_addr (applied s) \<noteq> 0" "client_addr (applied s) \<noteq> 0" "ap_addr (applied s) \<noteq> client_addr (applied s)"
    "(bswap32 (ap_addr (applied s)) XOR bswap32 (client_addr (applied s))) AND prefix_mask (ap_prefix (applied s)) = 0"
    by (auto simp: config_ap_complete_def Let_def split: if_splits)
  have i: "lease_addr (dhcp_ap dh) = client_addr (applied s)" "ap_nif_addr s = ap_addr (applied s)"
    "ap_nif_mask s = bswap32 (prefix_mask (ap_prefix (applied s)))"
    using assms by (simp_all add: ap_inv_def)
  show "lease_addr (dhcp_ap dh) \<noteq> 0" "ap_nif_addr s \<noteq> 0" "lease_addr (dhcp_ap dh) \<noteq> ap_nif_addr s"
    "ip4_addr_netcmp (lease_addr (dhcp_ap dh)) (ap_nif_addr s) (ap_nif_mask s)"
    using z same_subnet [OF z(4)] by (auto simp: i)
qed

section \<open>The replug\<close>

text \<open>How often the host was unplugged so far.\<close>

definition usb_replugs :: "usb_net \<Rightarrow> nat" where
  "usb_replugs u = length (filter (\<lambda>v. v = U_disconnect) (uevents u))"

text \<open>A step of the link that touches neither the replug timer nor that count.\<close>

definition no_replug :: "usb_net \<Rightarrow> usb_net \<Rightarrow> bool" where
  "no_replug u u' \<longleftrightarrow> bounce_at_ms u' = bounce_at_ms u \<and> usb_replugs u' = usb_replugs u"

lemma no_replug_refl [simp]: "no_replug u u"
  by (simp add: no_replug_def)

lemma no_replug_trans: "no_replug a b \<Longrightarrow> no_replug b c \<Longrightarrow> no_replug a c"
  by (simp add: no_replug_def)

lemma no_replug_drain: "no_replug s (drain_loop mtu can n s)"
proof (induction mtu can n s rule: drain_loop.induct)
  case (2 mtu can n s)
  then show ?case
    by (auto simp: tud_network_xmit_cb_def no_replug_def usb_replugs_def Let_def uemit_def split: option.splits prod.splits)
qed simp

lemma no_replug_take: "no_replug s (take_frame mtu s)"
  by (auto simp: take_frame_def no_replug_def usb_replugs_def uemit_def Let_def split: option.split)

lemma no_replug_cb: "no_replug s (cb_step c s)"
  by (cases c) (auto simp: tud_network_recv_cb_def tud_network_init_cb_def no_replug_def usb_replugs_def)

lemma no_replug_cbs: "no_replug s (fold cb_step cs s)"
  by (induction cs arbitrary: s) (auto intro: no_replug_trans [OF no_replug_cb])

lemma no_replug_send: "no_replug s (snd (usb_linkoutput r p s))"
  by (auto simp: usb_linkoutput_def usb_tx_push_def no_replug_def usb_replugs_def Let_def)

lemma turn_replugs:
  defines "fires t u \<equiv> bounce_at_ms u \<noteq> 0 \<and> bounce_at_ms u \<le> t"
  shows "bounce_at_ms (usb_net_update t mtu (fold cb_step cs) can u) = (if fires t u then 0 else bounce_at_ms u)"
    and "usb_replugs (usb_net_update t mtu (fold cb_step cs) can u) = usb_replugs u + (if fires t u then 1 else 0)"
proof -
  let ?b = "bounce_step t u"
  have b: "bounce_at_ms ?b = (if fires t u then 0 else bounce_at_ms u)" "usb_replugs ?b = usb_replugs u + (if fires t u then 1 else 0)"
    by (simp_all add: bounce_step_def fires_def usb_replugs_def uemit_def Let_def)
  have "no_replug ?b (take_frame mtu (usb_tx_drain mtu can (fold cb_step cs ?b)))"
    unfolding usb_tx_drain_def by (rule no_replug_trans [OF no_replug_trans [OF no_replug_cbs no_replug_drain] no_replug_take])
  then have "no_replug ?b (usb_net_update t mtu (fold cb_step cs) can u)"
    by (simp add: usb_net_update_def no_replug_def usb_replugs_def uemit_def Let_def)
  then show "bounce_at_ms (usb_net_update t mtu (fold cb_step cs) can u) = (if fires t u then 0 else bounce_at_ms u)"
    "usb_replugs (usb_net_update t mtu (fold cb_step cs) can u) = usb_replugs u + (if fires t u then 1 else 0)"
    using b by (simp_all add: no_replug_def)
qed

lemma other_replugs:
  assumes "dongle_step Other d d'"
  shows "no_replug (d_usb d) (d_usb d')"
  using assms
proof (cases rule: dongle_step.cases)
  case (Settings e v)
  have "d_usb (device_ap_apply e conf x) = d_usb x" for conf x by (simp add: device_ap_apply_def split: prod.split)
  then show ?thesis using Settings by (cases v) (auto simp: on_cp_event_def)
qed (simp_all add: no_replug_send no_replug_cb)

text \<open>A run that applies no tunnel settings, with the times at which the main loop came round.\<close>

inductive quiet_run :: "dongle \<Rightarrow> u32 list \<Rightarrow> dongle \<Rightarrow> bool" where
  Begin: "quiet_run d [] d"
| Turn_round: "quiet_run d ts d' \<Longrightarrow> dongle_step (Turn t) d' d'' \<Longrightarrow> quiet_run d (ts @ [t]) d''"
| Other_step: "quiet_run d ts d' \<Longrightarrow> dongle_step Other d' d'' \<Longrightarrow> quiet_run d ts d''"

lemma quiet_replugs:
  "quiet_run d ts d'' \<Longrightarrow>
   (let due = bounce_at_ms (d_usb d); fired = (due \<noteq> 0 \<and> (\<exists>t \<in> set ts. due \<le> t))
    in bounce_at_ms (d_usb d'') = (if fired then 0 else due) \<and>
       usb_replugs (d_usb d'') = usb_replugs (d_usb d) + (if fired then 1 else 0))"
proof (induction rule: quiet_run.induct)
  case (Turn_round d ts d' t d'')
  from Turn_round(2) obtain mtu cs can where "d_usb d'' = usb_net_update t mtu (fold cb_step cs) can (d_usb d')"
    by (cases rule: dongle_step.cases) auto
  then show ?case using Turn_round.IH turn_replugs [of t mtu cs can "d_usb d'"] by (auto simp: Let_def split: if_splits)
next
  case (Other_step d ts d' d'')
  then show ?case using other_replugs [OF Other_step(2)] by (simp add: no_replug_def)
qed simp

lemma schedule_bounce:
  "bounce_at_ms (d_usb (schedule_replug e conf x)) =
    (if applied_once x \<and> ((if config_wg_complete conf then wg_addr (wg conf) else BRINGUP_DEV_ADDR) \<noteq> applied_addr x \<or>
       bounce_at_ms (d_usb x) \<noteq> 0) then e_now e + 5000 else bounce_at_ms (d_usb x))"
  by (auto simp: schedule_replug_def Let_def usb_net_bounce_pending_def usb_net_schedule_bounce_def)

lemma apply_bounce:
  assumes "apply_wg e conf d = Some d'"
  shows "bounce_at_ms (d_usb d') =
    (if applied_once d \<and> ((if config_wg_complete conf then wg_addr (wg conf) else BRINGUP_DEV_ADDR) \<noteq> applied_addr d \<or>
       bounce_at_ms (d_usb d) \<noteq> 0) then e_now e + 5000 else bounce_at_ms (d_usb d))"
proof -
  have f: "d_usb (device_ap_apply e conf x) = d_usb x" "applied_once (device_ap_apply e conf x) = applied_once x"
    "applied_addr (device_ap_apply e conf x) = applied_addr x" for x
    by (simp_all add: device_ap_apply_def split: prod.split)
  obtain m where d': "d' = schedule_replug e conf ((device_ap_apply e conf ((readdress e conf d)\<lparr>d_wg := m\<rparr>))
      \<lparr>announced := announced (device_ap_apply e conf ((readdress e conf d)\<lparr>d_wg := m\<rparr>)) + 1\<rparr>)"
    using apply_wg_parts [OF assms] by blast
  show ?thesis unfolding d' schedule_bounce by (auto simp: f)
qed

section \<open>Resets\<close>

text \<open>What can end a boot: power is lost and the memory holds anything; the main loop hangs; a fault; the command
  \<open>REBOOT\<close>, which triggers the watchdog as the fault handler does. \<open>Stats\<close> is the loop's note of the link's counters.\<close>

datatype crash_event =
    Power_on crashlog
  | Hang
  | Fault u32 u32
  | Reboot_cmd
  | Stats usb_net

fun crash_step :: "crash_event \<Rightarrow> crashlog \<Rightarrow> crashlog" where
  "crash_step (Power_on ram) c = fst (crashlog_start False ram)"
| "crash_step Hang c = fst (crashlog_start True c)"
| "crash_step (Fault pc lr) c = fst (crashlog_start True (fault_capture pc lr c))"
| "crash_step Reboot_cmd c = fst (crashlog_start True c)"
| "crash_step (Stats u) c = crashlog_note u c"

definition is_boot :: "crash_event \<Rightarrow> bool" where
  "is_boot v = (case v of Stats u \<Rightarrow> False | _ \<Rightarrow> True)"

definition is_fault :: "crash_event \<Rightarrow> bool" where
  "is_fault v = (case v of Fault pc lr \<Rightarrow> True | _ \<Rightarrow> False)"

definition is_hang :: "crash_event \<Rightarrow> bool" where
  "is_hang v = (case v of Hang \<Rightarrow> True | Reboot_cmd \<Rightarrow> True | _ \<Rightarrow> False)"

definition powered :: "crash_event \<Rightarrow> bool" where
  "powered v = (case v of Power_on ram \<Rightarrow> False | _ \<Rightarrow> True)"

definition log_live :: "crashlog \<Rightarrow> bool" where
  "log_live c \<longleftrightarrow> c_magic c = CRASHLOG_MAGIC \<and> fault_pending c = 0"

lemma crash_step_counts:
  assumes "log_live c" "powered v"
  shows "log_live (crash_step v c)" "boots (crash_step v c) = boots c + (if is_boot v then 1 else 0)"
    "faults (crash_step v c) = faults c + (if is_fault v then 1 else 0)"
    "hangs (crash_step v c) = hangs c + (if is_hang v then 1 else 0)"
  using assms
  by (cases v; simp add: log_live_def powered_def is_boot_def is_fault_def is_hang_def crashlog_start_def fault_capture_def
    crashlog_note_def Let_def split: prod.split)+

lemma crash_counts:
  assumes "log_live c" "list_all powered vs"
  shows "log_live (fold crash_step vs c) \<and> boots (fold crash_step vs c) = boots c + of_nat (length (filter is_boot vs)) \<and>
    faults (fold crash_step vs c) = faults c + of_nat (length (filter is_fault vs)) \<and>
    hangs (fold crash_step vs c) = hangs c + of_nat (length (filter is_hang vs))"
  using assms
proof (induction vs arbitrary: c)
  case (Cons v vs)
  note s = crash_step_counts [OF Cons.prems(1), of v]
  show ?case using Cons.IH [of "crash_step v c"] Cons.prems s by simp
qed simp

lemma power_on_fresh:
  assumes "c_magic ram \<noteq> CRASHLOG_MAGIC"
  shows "log_live (crash_step (Power_on ram) c)" "boots (crash_step (Power_on ram) c) = 1"
    "faults (crash_step (Power_on ram) c) = 0" "hangs (crash_step (Power_on ram) c) = 0"
  using assms by (simp_all add: crashlog_start_def log_live_def Let_def)

section \<open>A sample device\<close>

text \<open>The tunnel is not set up, the access point is.\<close>

definition sample_apply :: apply_env where
  "sample_apply = \<lparr>e_aton = \<lambda>_. None, e_x25519 = \<lambda>k u. (True, k), e_now = 1000,
     e_setup = \<lparr>udp_new = True, udp_bind = \<lambda>_. err.ERR_OK, mem_calloc = True\<rparr>, e_sta_addr = 0, e_tape = [], e_udp_ok = True\<rparr>"

lemma sample_incomplete: "\<not> config_wg_complete sample_ap_cfg"
  by (simp add: config_wg_complete_def sample_ap_cfg_def zero_wg_def c_str_def)

lemma apply_incomplete:
  assumes "\<not> config_wg_complete conf"
  shows "\<exists>d'. apply_wg e conf d = Some d'"
  using assms by (simp add: apply_wg_def wg_apply_def Let_def)

definition sample_dongle :: dongle where
  "sample_dongle = the (apply_wg sample_apply sample_ap_cfg (dongle_boot demo_nif zero_wg (replicate 8 7) sample_ap_cfg))"

lemma sample_running: "running sample_dongle"
proof -
  obtain d where "apply_wg sample_apply sample_ap_cfg (dongle_boot demo_nif zero_wg (replicate 8 7) sample_ap_cfg) = Some d"
    using apply_incomplete [OF sample_incomplete] by blast
  then show ?thesis using running.Start unfolding sample_dongle_def by fastforce
qed

definition sample_view :: net_env where
  "sample_view = \<lparr>if_addr = (\<lambda>n. case n of N_usb \<Rightarrow> BRINGUP_DEV_ADDR | N_ap \<Rightarrow> 0x0100000A | _ \<Rightarrow> 0),
     if_mask = (\<lambda>_. 0xFCFFFFFF), netif_list = [N_usb, N_ap], ap_active = True, input_netif = Some N_ap\<rparr>"

lemma sample_ap_up:
  "ap_active_netif (d_ap sample_dongle) = Some N_ap" "ap_nif_addr (d_ap sample_dongle) = 0x0100000A"
  "ap_nif_mask (d_ap sample_dongle) = 0xFCFFFFFF" "lease_addr (dhcp_ap (d_dhcp sample_dongle)) = 0x0200000A"
  "applied_addr sample_dongle = BRINGUP_DEV_ADDR" "bounce_at_ms (d_usb sample_dongle) = 0"
  "lease_addr (dhcp_ap (d_dhcp sample_dongle)) \<noteq> BRINGUP_DEV_ADDR"
  unfolding sample_dongle_def BRINGUP_DEV_ADDR_def by code_simp+

section \<open>Properties\<close>

text \<open>Property C3. Whatever settings are applied, in whatever order, and whatever the modules do in between (tunnel up and down, datagrams,
  packets, replugs), the parts agree: the USB interface has the address last applied and the mask the host is told, the
  host's lease and the MSS clamp are those of the tunnel's settings, or of the bring-up island, without router, routes and DNS, when those are
  incomplete; the access point's interface, lease and taps fit its settings; the tunnel's invariant holds; and the
  default route is the tunnel while its session is up, the station otherwise, never the access point.\<close>

theorem device_links_agree:
  assumes "running d"
  shows "usb_lease_ok (d_wg d) (dhcp_usb (d_dhcp d)) (d_usb d) (applied_addr d) \<and> ap_inv (d_dhcp d) (d_ap d) \<and>
    wg_inv (d_wg d) \<and> (netif_default (d_wg d) = N_wg \<longleftrightarrow> wg_session_up (d_wg d)) \<and> netif_default (d_wg d) \<noteq> N_ap"
  using running_inv [OF assms] by (auto simp: dongle_inv_def wg_inv_def wg_session_up_def)

theorem device_links_agree_witness:
  "usb_lease_ok (d_wg sample_dongle) (dhcp_usb (d_dhcp sample_dongle)) (d_usb sample_dongle) (applied_addr sample_dongle)"
  using device_links_agree [OF sample_running] by simp

text \<open>Property C2. The client of the access point is in quarantine: in every state the device reaches with the access point up, a packet
  that comes in there, whatever source it claims, is dropped, goes to the access point's own subnet or into the tunnel if there is one,
  with two exceptions. With a source that is 0 or one of the device's own addresses it is routed as the device's own
  traffic; and to the USB host's subnet it goes with a source outside the access point's subnet. So it never leaves by the station
  unless it claims an address of the device. With the leased address as its source (which must not be the device's own on another
  interface) neither exception applies: to the USB host's subnet it goes nowhere. The interface data the hook reads is the
  device's.\<close>

theorem ap_client_quarantined:
  assumes "running d" "ap_active_netif (d_ap d) = Some N_ap"
    and "ap_active e" "if_addr e N_ap = ap_nif_addr (d_ap d)" "if_mask e N_ap = ap_nif_mask (d_ap d)"
    and "input_netif e = Some N_ap"
  shows "(\<forall>src. case wg_ip4_route_hook e (d_wg d) (Some src) dest of
       None \<Rightarrow> src = 0 \<or> is_own_addr e src
     | Some n \<Rightarrow> n = N_blackhole \<or> n = N_ap \<and> in_ap_subnet e dest \<or> n = N_wg \<and> wg_netif_added (d_wg d) \<or>
         n = N_usb \<and> in_usb_subnet e dest \<and> \<not> in_ap_subnet e src) \<and>
    (let leased = lease_addr (dhcp_ap (d_dhcp d)) in \<not> is_own_addr e leased \<longrightarrow>
      (\<exists>n. wg_ip4_route_hook e (d_wg d) (Some leased) dest = Some n \<and>
        (n = N_blackhole \<or> n = N_ap \<and> in_ap_subnet e dest \<or> n = N_wg \<and> wg_netif_added (d_wg d)) \<and>
        (in_usb_subnet e dest \<longrightarrow> n = N_blackhole)))"
proof -
  have up: "ap_up (d_ap d)" using assms(2) by (auto simp: ap_active_netif_def split: if_splits)
  have "ap_inv (d_dhcp d) (d_ap d)" using running_inv [OF assms(1)] by (simp add: dongle_inv_def)
  note c = ap_client_on_link [OF this up]
  have "in_ap_subnet e (lease_addr (dhcp_ap (d_dhcp d)))" using c assms(3-5) by (simp add: in_ap_subnet_def)
  then show ?thesis using assms(6) c(1) by (simp add: wg_ip4_route_hook_def Let_def)
qed

text \<open>The sample device's access point is up; its client sends to the USB host's subnet.\<close>

theorem ap_client_quarantined_witness:
  "wg_ip4_route_hook sample_view (d_wg sample_dongle) (Some (lease_addr (dhcp_ap (d_dhcp sample_dongle)))) BRINGUP_HOST_ADDR =
     Some N_blackhole"
proof -
  have "in_usb_subnet sample_view BRINGUP_HOST_ADDR" unfolding sample_view_def in_usb_subnet_def BRINGUP_HOST_ADDR_def by code_simp
  then show ?thesis
    using ap_client_quarantined [OF sample_running sample_ap_up(1), of sample_view BRINGUP_HOST_ADDR] sample_ap_up
    by (auto simp: sample_view_def is_own_addr_def Let_def)
qed

text \<open>The second exception happens: the client claims an address of neither link and its packet is delivered to the USB host.\<close>

lemma ap_client_spoofs:
  "wg_ip4_route_hook sample_view (d_wg sample_dongle) (Some 0x08080808) BRINGUP_HOST_ADDR = Some N_usb"
proof -
  have "in_usb_subnet sample_view BRINGUP_HOST_ADDR" "\<not> in_ap_subnet sample_view 0x08080808" "\<not> is_own_addr sample_view 0x08080808"
    unfolding sample_view_def BRINGUP_HOST_ADDR_def BRINGUP_DEV_ADDR_def by code_simp+
  then show ?thesis by (simp add: wg_ip4_route_hook_def)
qed

text \<open>Property C40. Tunnel settings are applied that move the device to another address, or any while a replug is pending. From then
  until tunnel settings are applied again, whatever else happens, the host is unplugged once: at the first turn of the main loop that
  comes five seconds later (before one comes, not at all). If the settings change nothing and no replug is pending, it
  is not unplugged. The millisecond clock must not wrap in those five seconds (\<open>bounce_wraps\<close> is what happens then).\<close>

theorem replug_follows_change:
  assumes "running d" "apply_wg e conf d = Some d'" "unat (e_now e) + 5000 < 2 ^ 32" "quiet_run d' ts d''"
  defines "moved \<equiv> (if config_wg_complete conf then wg_addr (wg conf) else BRINGUP_DEV_ADDR) \<noteq> applied_addr d"
  shows "usb_replugs (d_usb d'') = usb_replugs (d_usb d') +
    (if (moved \<or> usb_net_bounce_pending (d_usb d)) \<and> (\<exists>t \<in> set ts. unat (e_now e) + 5000 \<le> unat t) then 1 else 0)"
proof -
  have n: "unat (e_now e + 5000) = unat (e_now e) + 5000" using assms(3) by (simp add: unat_word_ariths)
  then have nz: "e_now e + 5000 \<noteq> 0" by (metis add_is_0 unat_0 zero_neq_numeral)
  have "bounce_at_ms (d_usb d') = (if moved \<or> usb_net_bounce_pending (d_usb d) then e_now e + 5000 else 0)"
    using apply_bounce [OF assms(2)] running_inv [OF assms(1)] by (simp add: moved_def usb_net_bounce_pending_def)
  then show ?thesis using quiet_replugs [OF assms(4)] n nz by (auto simp: word_le_nat_alt Let_def split: if_splits)
qed

text \<open>The sample device moves from the bring-up island to a tunnel's address at 1000 ms; the main loop comes round at 100, 6000 and 7000
  ms.\<close>

definition sample_moved :: config where
  "sample_moved = sample_ap_cfg\<lparr>wg := zero_wg\<lparr>private_key := ''k'', peer_public := ''p'', endpoint := ''e'', endpoint_port := 1,
     wg_addr := 0x0100000B, host_addr := 0x0200000B, wg_prefix := 30\<rparr>\<rparr>"

lemma apply_no_udp:
  assumes "\<not> udp_new (e_setup e)"
  shows "\<exists>d'. apply_wg e conf d = Some d'"
proof -
  have "\<exists>r. wireguardif_init x25519 now (e_setup e) tp n i = Some r" for x25519 now tp n i
    using assms by (auto simp: wireguardif_init_def Let_def split: option.split prod.split)
  then have "wg_apply aton x25519 now (e_setup e) sta conf tp m \<noteq> None" for aton x25519 now sta tp m
    by (auto simp: wg_apply_def Let_def) (metis option.distinct(1))
  then show ?thesis by (simp add: apply_wg_def Let_def)
qed

theorem replug_follows_change_witness:
  "\<exists>e d' d''. apply_wg e sample_moved sample_dongle = Some d' \<and> quiet_run d' [100, 6000, 7000] d'' \<and>
     usb_replugs (d_usb d'') = usb_replugs (d_usb d') + 1"
proof -
  define e where "e = sample_apply\<lparr>e_setup := (e_setup sample_apply)\<lparr>udp_new := False\<rparr>\<rparr>"
  obtain d' where d': "apply_wg e sample_moved sample_dongle = Some d'"
    using apply_no_udp [of e] by (auto simp: e_def)
  have n: "e_now e = 1000" by (simp add: e_def sample_apply_def)
  have "\<exists>d2. quiet_run d1 (ts @ [t]) d2" if "quiet_run d1 ts d2" for d1 ts t d2
    using quiet_run.Turn_round [OF that dongle_step.Usb_update] by blast
  then obtain d'' where d'': "quiet_run d' ([] @ [100] @ [6000] @ [7000]) d''"
    using quiet_run.Begin [of d'] by (metis append.assoc)
  have c: "config_wg_complete sample_moved" "wg_addr (wg sample_moved) = 0x0100000B"
    by (simp_all add: config_wg_complete_def sample_moved_def c_str_def)
  have "(0x0100000B :: u32) \<noteq> BRINGUP_DEV_ADDR" unfolding BRINGUP_DEV_ADDR_def by code_simp
  then show ?thesis
    using replug_follows_change [OF sample_running d' _ d''] d' d'' c n sample_ap_up by auto
qed

text \<open>The crash log counts since power was applied to memory without the log's mark: the boots, the faults, and as
  hangs the watchdog's resets together with the reboots that were asked for, which the log cannot tell apart.\<close>

theorem crashlog_counts:
  assumes "c_magic ram \<noteq> CRASHLOG_MAGIC" "list_all powered vs"
  defines "c \<equiv> fold crash_step vs (crash_step (Power_on ram) ram)"
  shows "boots c = of_nat (1 + length (filter is_boot vs)) \<and> faults c = of_nat (length (filter is_fault vs)) \<and>
    hangs c = of_nat (length (filter is_hang vs)) \<and> crashlog_start True c = (crash_step Reboot_cmd c, False, True)"
  using crash_counts [OF power_on_fresh(1) [OF assms(1)] assms(2), of ram] power_on_fresh(2-4) [OF assms(1), of ram]
  by (auto simp: c_def log_live_def crashlog_start_def Let_def)

text \<open>Power on, a fault, a reboot that was asked for.\<close>

theorem crashlog_counts_witness:
  "hangs (fold crash_step [Fault 1 2, Reboot_cmd]
     (crash_step (Power_on \<lparr>c_magic = 0, c_stats = (0, 0, 0, 0, 0), boots = 7, hangs = 7, faults = 7, fault_pc = 0, fault_lr = 0,
        fault_pending = 7\<rparr>) \<lparr>c_magic = 0, c_stats = (0, 0, 0, 0, 0), boots = 7, hangs = 7, faults = 7, fault_pc = 0, fault_lr = 0,
        fault_pending = 7\<rparr>)) = 1"
  using crashlog_counts [of "\<lparr>c_magic = 0, c_stats = (0, 0, 0, 0, 0), boots = 7, hangs = 7, faults = 7, fault_pc = 0, fault_lr = 0,
        fault_pending = 7\<rparr>" "[Fault 1 2, Reboot_cmd]"]
  by (simp add: CRASHLOG_MAGIC_def powered_def is_hang_def)

end
