(* ===== verification/Spec2Isabelle.thy ===== *)
theory Spec2Isabelle
  imports Config Wifi_Pick Wifi_Scan Wifi_Conn Checksum Napt Pcap Dhcp_Server Blake2s Aead Base64 X25519 Wg_Tunnel Wg Config_Proto
    Serial_Bridge Usb_Net Access_Point Serial_Console Http_Portal Device
begin

text \<open>
  A verification development of the molewire firmware, a USB stick that gives its host a network
  cable into a WireGuard tunnel. The firmware is C on an RP2350; its own logic is under
  \<^verbatim>\<open>src/\<close>, the WireGuard implementation it builds on under \<^verbatim>\<open>wireguard/\<close>.

  \<^bold>\<open>How the parts fit.\<close> A stored configuration (\<^verbatim>\<open>config.c\<close>) names Wi-Fi networks and one tunnel. The
  connection manager (\<^verbatim>\<open>wifi_conn.c\<close>) scans (\<^verbatim>\<open>wifi_scan.c\<close>), orders the candidates
  (\<^verbatim>\<open>wifi_pick.c\<close>) and joins; tunnel management (\<^verbatim>\<open>wg.c\<close>) then brings the WireGuard interface
  (\<^verbatim>\<open>wireguardif.c\<close>, over the protocol core \<^verbatim>\<open>wireguard.c\<close> and its cryptography) up and decides,
  as lwIP's route hook, where forwarded packets may go. The DHCP server hands the USB host and the
  access-point client their one address each, the NAT carries exit-mode traffic, the checksum
  code repairs frames on their way out, the capture ring records them. The USB link (\<^verbatim>\<open>usb_net.c\<close>) and the access point
  (\<^verbatim>\<open>ap.c\<close>) are the two ways in. Settings are typed on a serial console (\<^verbatim>\<open>serial_console.c\<close> over
  \<^verbatim>\<open>config_proto.c\<close>) or posted by a web page (\<^verbatim>\<open>http_portal.c\<close>) and applied by \<^verbatim>\<open>main.c\<close>; beside all that a UART is shared between a USB port and a
  TCP client (\<^verbatim>\<open>serial_bridge.c\<close>).

  \<^bold>\<open>The theories\<close>, in the order of their imports.

  \<^item> \<open>Prelude\<close>: fixed-width integers as words, byte order, spans of flat buffers, C strings.
  \<^item> \<open>Config\<close> (\<^verbatim>\<open>config.c\<close>): the flash record byte for byte, its CRC, loading with migration, saving, the
    profile list. Shown: what is saved is loaded, a corrupted byte is noticed, the list keeps recently used networks.
  \<^item> \<open>Wifi_Pick\<close>, \<open>Wifi_Scan\<close>, \<open>Wifi_Conn\<close>: candidate order, scan table and the state machine that joins, each
    whole. Shown: the order is the documented one and fair, the table keeps the strongest, the machine keeps its
    invariant under every interleaving of its entry points and every cycle ends.
  \<^item> \<open>Checksum\<close> (\<^verbatim>\<open>eth_csum.c\<close>): the locale \<open>internet_checksum\<close> states what an adding and a folding loop promise and proves
    once that restoring empty checksum fields makes them verify; the theory interprets it on this copy of the loops,
    \<open>Wireguardif\<close> and \<open>Usb_Net\<close> on the other two.
  \<^item> \<open>Napt\<close> (\<^verbatim>\<open>napt.c\<close>): the mapping table and the rewriting of packets with incremental checksums.
  \<^item> \<open>Pcap\<close> (\<^verbatim>\<open>pcap.c\<close>): the ring of variable-length records, shown to refine a list that forgets its oldest elements.
  \<^item> \<open>Dhcp_Server\<close> (\<^verbatim>\<open>dhcp_server.c\<close>): options, replies and the two scopes.
  \<^item> \<open>Crypto\<close>, \<open>Blake2s\<close>, \<open>Chacha20\<close>, \<open>Poly1305\<close>, \<open>Aead\<close> (\<^verbatim>\<open>wireguard/crypto\<close>): the word- and limb-level code against the
    RFCs' functions, for every way of cutting a message into chunks.
  \<^item> \<open>X25519\<close> (\<^verbatim>\<open>wireguard/crypto/refc/x25519.c\<close>): field elements in eight limbs, the ladder, the inversion chain
    and the final reduction, shown to compute RFC 7748's ladder on whole numbers modulo 2^255 - 19.
  \<^item> \<open>Wg_Kdf\<close>, \<open>Wg_Session\<close>, \<open>Wg_Handshake\<close>, \<open>Base64\<close> (\<^verbatim>\<open>wireguard.c\<close>): key derivation; key pairs, the replay
    window (locale \<open>duplicate_filter\<close>) and sessions; the handshake and cookie messages; the text form of keys.
  \<^item> \<open>Wireguardif\<close>, \<open>Wg_Tunnel\<close> (\<^verbatim>\<open>wireguardif.c\<close>): every handler of the interface, then what they promise: packets go through,
    nothing unauthenticated comes in, and two defects.
  \<^item> \<open>Wg\<close> (\<^verbatim>\<open>wg.c\<close>): the handshake clock, the route hook and exit-mode wrappers, the tunnel's life. Shown: clients
    stay confined in every reachable state, and the module's variables agree.
  \<^item> \<open>Config_Proto\<close> (\<^verbatim>\<open>config_proto.c\<close>): the console's line protocol, what it prints included. Shown: the settings
    stay valid whatever is typed, a set command changes its setting whole or reports an error, what the command or the connection manager saved
    last is restored, a scan ends; and two defects.
  \<^item> \<open>Serial_Bridge\<close> (\<^verbatim>\<open>serial_bridge.c\<close>): the telnet layer with its COM port options, the fan-out and the pump. Shown: what the client
    sends reaches the line in order with telnet removed, the UART is only set to formats it has, the reset lines are
    released whenever no client holds them, replies read back.
  \<^item> \<open>Usb_Net\<close> (\<^verbatim>\<open>usb_net.c\<close>): the ring to the host, the staged frame from it, checksums, the MSS clamp, the replug timer. Shown: frames
    stay in order, and of those accepted only the one staged when the host configures the interface again is lost; checksums verify and the MSS is clamped whatever the options' layout.
  \<^item> \<open>Access_Point\<close> (\<^verbatim>\<open>ap.c\<close>): bringing the access point up and down, the taps of the capture. Shown: applying settings settles it.
  \<^item> \<open>Serial_Console\<close> (\<^verbatim>\<open>serial_console.c\<close>, \<^verbatim>\<open>debug_console.c\<close>): the line editor and output in chunks. Shown: it refines
    \<open>cp_run\<close> of \<open>Config_Proto\<close> on the lines a user sees being typed, and no input breaks it.
  \<^item> \<open>Http_Portal\<close> (\<^verbatim>\<open>http_portal.c\<close>): the web portal: two connections, requests, JSON bodies, answers streamed as TCP has room, the
    capture held while it is downloaded. Shown: a command posted in any pieces is run once and as the console would run it, and answered
    whole; only the USB link is served; no body tells a secret; and a defect.
  \<^item> \<open>Device\<close> (\<^verbatim>\<open>main.c\<close>): the state the modules share, as \<open>dongle\<close>, with the steps of all of them. Shown: in every reachable state
    addresses, leases, clamp and routes agree and the access point's client, at its leased address, is in quarantine (forged sources
    are the exceptions stated); a change of network replugs the host once; what the crash log counts.

  \<^bold>\<open>Conventions.\<close> A module's static variables are a record, passed and returned. C integers are words and wrap. A
  buffer is a list of bytes; where C could run past its end the outcome is \<open>None\<close>, and so is running out of
  randomness where random bytes come from a tape. What the code calls outside the repository (lwIP, the Pico SDK,
  the radio driver, the resolver, the clock) is an argument of the definitions that use it; what is relied on of it is a
  hypothesis of the theorem. The handshake takes X25519 as an argument too, since the
  one law it needs of it, that the two ends compute the same secret (\<open>dh_agrees\<close>), is a theorem about the curve and not
  about the code; \<open>wireguard_x25519\<close> in \<open>X25519\<close> is what the build passes. No fuel is used: every loop has a measure or runs over a list.

  \<^bold>\<open>Not modelled.\<close> \<^verbatim>\<open>usb_descriptors.c\<close> is tables
  built by TinyUSB's macros. Of \<^verbatim>\<open>main.c\<close> the set-up of the drivers, the order of the calls in the loop and the
  statistics line are left out. \<^verbatim>\<open>cortex/scalarmult.c\<close>, X25519 over
  assembly routines, is linked by the benchmark only. Tests, benchmarks, tools and the web page are not firmware.
\<close>

section \<open>The connection manager and the console\<close>

text \<open>The two modules share the configuration and the flash. What the connection manager does to them when it joins is what
  the console's model takes it to do.\<close>

lemma manager_joined_shared:
  assumes "g_cfg w = Some (console.cfg s)" "wifi_conn.flash w = console.flash s" "flash_dev E = flash_of e"
    and "trying w < profile_count (console.cfg s)"
  shows "g_cfg (joined E w) = Some (console.cfg (manager_joined e (trying w) (creds_unsaved w) s)) \<and>
    wifi_conn.flash (joined E w) = console.flash (manager_joined e (trying w) (creds_unsaved w) s)"
  using assms by (simp add: joined_def manager_joined_def joined_config_def set_status_def Let_def split: prod.split)

end
